(* ===== verification/Prelude.thy ===== *)
theory Prelude
  imports Complex_Main "HOL-Library.Word"
begin

text \<open>
  Shared vocabulary of the development: the C integer types of \<open>include/types.h\<close> as words,
  the floating-point environment, byte and C-string helpers, and the generic lemmas and
  \<open>named_theorems\<close> collections that the component theories build on.
\<close>

unbundle bit_operations_syntax

section \<open>Collections of facts\<close>

named_theorems frame_simps \<open>fields an operation leaves alone\<close>
named_theorems step_simps \<open>what an operation returns on a branch\<close>
named_theorems inv_intros \<open>operations that keep an invariant\<close>

section \<open>C integer types\<close>

type_synonym u8 = "8 word"
type_synonym u16 = "16 word"
type_synonym u32 = "32 word"
type_synonym u64 = "64 word"

type_synonym bytes = "u8 list"

text \<open>A null pointer is \<open>None\<close>; a C string is the list of its characters before the NUL.\<close>

type_synonym 'a ptr = "'a option"
type_synonym c_string = "char list"

section \<open>Double arithmetic\<close>

text \<open>
  The code computes with \<open>double\<close>. Every operation of the model is the exact real operation
  followed by the rounding \<open>rnd\<close> of the machine, and the library calls \<open>log\<close>, \<open>pow\<close> and
  \<open>sqrt\<close> are fields of the environment too; values are finite. Theorems quantify over the
  environment, so they hold for IEEE binary64 in any rounding mode, and \<open>exact_fpu\<close> is the
  environment that does not round.
\<close>

record fpu =
  rnd :: "real \<Rightarrow> real"
  fp_log :: "real \<Rightarrow> real"
  fp_sqrt :: "real \<Rightarrow> real"
  fp_pow :: "real \<Rightarrow> real \<Rightarrow> real"

definition exact_fpu :: fpu where
  "exact_fpu = \<lparr>rnd = (\<lambda>x. x), fp_log = ln, fp_sqrt = sqrt, fp_pow = (powr)\<rparr>"

definition dadd :: "fpu \<Rightarrow> real \<Rightarrow> real \<Rightarrow> real" where
  "dadd fp a b = rnd fp (a + b)"

definition dsub :: "fpu \<Rightarrow> real \<Rightarrow> real \<Rightarrow> real" where
  "dsub fp a b = rnd fp (a - b)"

definition dmul :: "fpu \<Rightarrow> real \<Rightarrow> real \<Rightarrow> real" where
  "dmul fp a b = rnd fp (a * b)"

definition ddiv :: "fpu \<Rightarrow> real \<Rightarrow> real \<Rightarrow> real" where
  "ddiv fp a b = rnd fp (a / b)"

text \<open>A literal or an integer converted to \<open>double\<close>.\<close>

definition dlit :: "fpu \<Rightarrow> real \<Rightarrow> real" where
  "dlit fp x = rnd fp x"

definition d_of_u64 :: "fpu \<Rightarrow> u64 \<Rightarrow> real" where
  "d_of_u64 fp w = rnd fp (real (unat w))"

lemma exact_fpu_simps [simp]:
  "rnd exact_fpu x = x" "fp_log exact_fpu = ln" "fp_sqrt exact_fpu = sqrt"
  "fp_pow exact_fpu = (powr)"
  by (simp_all add: exact_fpu_def)

lemma exact_ops [simp]:
  "dadd exact_fpu a b = a + b" "dsub exact_fpu a b = a - b" "dmul exact_fpu a b = a * b"
  "ddiv exact_fpu a b = a / b" "dlit exact_fpu a = a"
  "d_of_u64 exact_fpu w = real (unat w)"
  by (simp_all add: dadd_def dsub_def dmul_def ddiv_def dlit_def d_of_u64_def)

text \<open>
  What IEEE 754 promises of rounding and the code relies on: it is monotone, keeps the integers
  up to \<open>2^53\<close> and does not move a value that is already rounded; \<open>log\<close> and \<open>sqrt\<close> have the sign of the real functions.
\<close>

definition fpu_ok :: "fpu \<Rightarrow> bool" where
  "fpu_ok fp \<longleftrightarrow> mono (rnd fp) \<and> (\<forall>n::nat. n \<le> 2 ^ 53 \<longrightarrow> rnd fp (real n) = real n) \<and> (\<forall>x. rnd fp (rnd fp x) = rnd fp x) \<and>
     (\<forall>x \<ge> 1. 0 \<le> fp_log fp x) \<and> (\<forall>x \<ge> 0. 0 \<le> fp_sqrt fp x)"

lemma fpu_ok_exact [simp]: "fpu_ok exact_fpu"
  by (simp add: fpu_ok_def mono_def)

lemma fpu_ok_facts:
  assumes "fpu_ok fp"
  shows "x \<le> y \<Longrightarrow> rnd fp x \<le> rnd fp y" "rnd fp 0 = 0" "rnd fp (rnd fp x) = rnd fp x"
    "1 \<le> x \<Longrightarrow> 0 \<le> fp_log fp x" "0 \<le> x \<Longrightarrow> 0 \<le> fp_sqrt fp x"
    "n \<le> 2 ^ 53 \<Longrightarrow> rnd fp (real n) = real n" "rnd fp 1 = 1"
proof -
  have int: "rnd fp (real n) = real n" if "n \<le> 2 ^ 53" for n
    using assms that unfolding fpu_ok_def by blast
  show "rnd fp 0 = 0" "rnd fp 1 = 1" using int [of 0] int [of 1] by simp_all
  show "n \<le> 2 ^ 53 \<Longrightarrow> rnd fp (real n) = real n" by (rule int)
qed (use assms in \<open>auto simp: fpu_ok_def mono_def\<close>)

lemma rnd_nonneg: "fpu_ok fp \<Longrightarrow> 0 \<le> x \<Longrightarrow> 0 \<le> rnd fp x"
  using fpu_ok_facts(1) [of fp 0 x] fpu_ok_facts(2) [of fp] by simp

text \<open>The doubles are the values rounding keeps.\<close>

definition is_double :: "fpu \<Rightarrow> real \<Rightarrow> bool" where
  "is_double fp x \<longleftrightarrow> rnd fp x = x"

lemma is_double_exact [simp]: "is_double exact_fpu x"
  by (simp add: is_double_def)

lemma is_double_rnd: "fpu_ok fp \<Longrightarrow> is_double fp (rnd fp x)"
  by (simp add: is_double_def fpu_ok_facts)

lemma dadd_nonneg_le: "fpu_ok fp \<Longrightarrow> is_double fp a \<Longrightarrow> 0 \<le> b \<Longrightarrow> a \<le> dadd fp a b"
  using fpu_ok_facts(1) [of fp a "a + b"] by (simp add: is_double_def dadd_def)

section \<open>C library predicates on characters\<close>

definition c_isspace :: "char \<Rightarrow> bool" where
  "c_isspace ch = (let n = (of_char ch :: nat) in n = 32 \<or> (9 \<le> n \<and> n \<le> 13))"

definition c_toupper :: "char \<Rightarrow> char" where
  "c_toupper ch =
     (let n = (of_char ch :: nat) in if 97 \<le> n \<and> n \<le> 122 then char_of (n - 32) else ch)"

definition c_isdigit :: "char \<Rightarrow> bool" where
  "c_isdigit ch = (let n = (of_char ch :: nat) in 48 \<le> n \<and> n \<le> 57)"

text \<open>\<open>while (*s && isspace(*s)) ++s\<close> and the same loop from the end.\<close>

definition skip_spaces :: "c_string \<Rightarrow> c_string" where
  "skip_spaces s = dropWhile c_isspace s"

definition strip_end_spaces :: "c_string \<Rightarrow> c_string" where
  "strip_end_spaces s = rev (dropWhile c_isspace (rev s))"

lemma length_skip_spaces: "length (skip_spaces s) \<le> length s"
  by (simp add: skip_spaces_def length_dropWhile_le)

section \<open>Words\<close>

lemma unat_and_mask_pow2:
  fixes x m :: "'a::len word"
  assumes "m = 2 ^ k" and "k < LENGTH('a)"
  shows "unat (x AND (m - 1)) = unat x mod 2 ^ k"
proof -
  have "m - 1 = mask k" using assms by (simp add: mask_eq_exp_minus_1)
  then have "unat (x AND (m - 1)) = unat (take_bit k x)"
    by (simp add: take_bit_eq_mask)
  also have "\<dots> = take_bit k (unat x)" by (simp add: unsigned_take_bit_eq)
  finally show ?thesis by (simp add: take_bit_eq_mod)
qed

lemma unat_pow2:
  assumes "k < LENGTH('a)"
  shows "unat ((2::'a::len word) ^ k) = 2 ^ k"
  using assms by transfer (simp add: take_bit_eq_mod nat_power_eq)

lemma unat_Suc_word:
  fixes x :: "'a::len word"
  assumes "unat x < 2 ^ LENGTH('a) - 1"
  shows "unat (x + 1) = Suc (unat x)"
proof -
  have "unat x + 1 < 2 ^ LENGTH('a)" using assms by linarith
  then show ?thesis by (simp add: unat_word_ariths)
qed

section \<open>Lists\<close>

lemma nth_update_set_nonzero:
  "j < length xs \<Longrightarrow> set (xs[j := v]) - {0} \<subseteq> insert v (set xs - {0})"
  by (auto dest: set_update_subset_insert [THEN subsetD])

lemma in_set_update_zero:
  assumes "j < length xs" and "xs ! j = 0"
  shows "set (xs[j := v]) - {0} = (set xs - {0}) \<union> ({v} - {0})"
proof
  show "set (xs[j := v]) - {0} \<subseteq> (set xs - {0}) \<union> ({v} - {0})"
    by (auto dest: set_update_subset_insert [THEN subsetD])
  have "x \<in> set (xs[j := v])" if "x \<in> set xs" "x \<noteq> 0" for x
  proof -
    from that(1) obtain i where "i < length xs" "xs ! i = x" by (auto simp: in_set_conv_nth)
    with that(2) assms have "xs[j := v] ! i = x" by (metis nth_list_update_neq)
    with \<open>i < length xs\<close> show ?thesis by (metis length_list_update nth_mem)
  qed
  moreover have "v \<in> set (xs[j := v])" using assms(1) by (rule set_update_memI)
  ultimately show "(set xs - {0}) \<union> ({v} - {0}) \<subseteq> set (xs[j := v]) - {0}" by blast
qed

end
