(* ===== verification/Clib.thy ===== *)
theory Clib
  imports Prelude "HOL-Library.Char_ord"
begin

text \<open>
  The parts of the C library the program reads numbers and environment variables with:
  \<open>getenv\<close>, \<open>strtol\<close>, \<open>strtod\<close>, the integer conversions of \<open>printf\<close>, and the facts about them
  that the components share.
\<close>

section \<open>The environment of the process\<close>

type_synonym env_vars = "c_string \<Rightarrow> c_string option"

definition getenv_nonempty :: "env_vars \<Rightarrow> c_string \<Rightarrow> c_string option" where
  "getenv_nonempty env name =
     (case env name of Some v \<Rightarrow> if v = [] then None else Some v | None \<Rightarrow> None)"

section \<open>Printing integers\<close>

definition digit_char :: "nat \<Rightarrow> char" where
  "digit_char n = char_of (48 + n)"

definition digit_val :: "char \<Rightarrow> nat" where
  "digit_val ch = of_char ch - 48"

fun dec_nat :: "nat \<Rightarrow> c_string" where
  "dec_nat n = (if n < 10 then [digit_char n] else dec_nat (n div 10) @ [digit_char (n mod 10)])"

declare dec_nat.simps [simp del]

definition dec_int :: "int \<Rightarrow> c_string" where
  "dec_int i = (if i < 0 then CHR ''-'' # dec_nat (nat (- i)) else dec_nat (nat i))"

lemma of_char_digit: "n < 10 \<Longrightarrow> of_char (digit_char n) = 48 + n"
  by (simp add: digit_char_def)

lemma digit_char_facts [simp]:
  "n < 10 \<Longrightarrow> c_isdigit (digit_char n)" "n < 10 \<Longrightarrow> digit_val (digit_char n) = n"
  "n < 10 \<Longrightarrow> \<not> c_isspace (digit_char n)"
  by (simp_all add: c_isdigit_def digit_val_def c_isspace_def of_char_digit)

lemma dec_nat_digits: "list_all c_isdigit (dec_nat n)"
  by (induction n rule: dec_nat.induct) (subst dec_nat.simps, simp)

lemma dec_nat_nonempty [simp]: "dec_nat n \<noteq> []" "[] \<noteq> dec_nat n"
  by (subst dec_nat.simps, simp)+

lemma length_dec_nat: "n < 10 ^ k \<Longrightarrow> 0 < k \<Longrightarrow> length (dec_nat n) \<le> k"
proof (induction n arbitrary: k rule: dec_nat.induct)
  case (1 n)
  show ?case
  proof (cases "n < 10")
    case True
    then show ?thesis using 1(3) by (subst dec_nat.simps) simp
  next
    case False
    then obtain j where k: "k = Suc j" "0 < j" using 1(2,3) by (cases k; cases "k - 1") auto
    then have "n div 10 < 10 ^ j" using 1(2) by (simp add: less_mult_imp_div_less)
    from 1(1) [OF False this k(2)] False k(1) show ?thesis by (subst dec_nat.simps) simp
  qed
qed

lemma length_dec_u64: "length (dec_nat (unat (w :: u64))) \<le> 20"
proof -
  have "unat w < 2 ^ 64" using unsigned_less [of w] by simp
  also have "\<dots> < (10::nat) ^ 20" by simp
  finally show ?thesis by (rule length_dec_nat) simp
qed

section \<open>Reading integers: \<open>strtol (s, &end, 10)\<close>\<close>

text \<open>The value read, the text at \<open>*end\<close>, and whether \<open>errno\<close> is \<open>ERANGE\<close>; \<open>long\<close> has 64 bits.\<close>

definition digits_val :: "nat \<Rightarrow> (char \<Rightarrow> nat) \<Rightarrow> c_string \<Rightarrow> nat" where
  "digits_val base val s = foldl (\<lambda>acc ch. base * acc + val ch) 0 s"

definition read_sign :: "c_string \<Rightarrow> bool \<times> c_string" where
  "read_sign s = (case s of [] \<Rightarrow> (False, s)
     | ch # r \<Rightarrow> if ch = CHR ''-'' then (True, r) else if ch = CHR ''+'' then (False, r)
                 else (False, s))"

definition strtol10 :: "c_string \<Rightarrow> int \<times> c_string \<times> bool" where
  "strtol10 s =
     (let (neg, r) = read_sign (skip_spaces s);
          ds = takeWhile c_isdigit r
      in if ds = [] then (0, s, False)
         else let n = int (digits_val 10 digit_val ds); v = (if neg then - n else n);
                  rest = dropWhile c_isdigit r
              in if v > 2 ^ 63 - 1 then (2 ^ 63 - 1, rest, True)
                 else if v < - (2 ^ 63) then (- (2 ^ 63), rest, True)
                 else (v, rest, False))"

lemma digits_val_snoc: "digits_val b f (s @ [ch]) = b * digits_val b f s + f ch"
  by (simp add: digits_val_def)

lemma digits_val_dec: "digits_val 10 digit_val (dec_nat n) = n"
proof (induction n rule: dec_nat.induct)
  case (1 n)
  show ?case
  proof (cases "n < 10")
    case True
    then show ?thesis by (subst dec_nat.simps) (simp add: digits_val_def)
  next
    case False
    then show ?thesis using 1 by (subst dec_nat.simps) (simp add: digits_val_snoc)
  qed
qed

text \<open>Reading back a printed number, with whatever non-digit follows it.\<close>

lemma dec_nat_first: "\<exists>ch r. dec_nat n = ch # r \<and> c_isdigit ch"
  using dec_nat_digits [of n] dec_nat_nonempty(1) [of n] by (cases "dec_nat n") auto

lemma digit_not_special:
  "c_isdigit ch \<Longrightarrow> \<not> c_isspace ch \<and> ch \<noteq> CHR ''-'' \<and> ch \<noteq> CHR ''+''"
  by (auto simp: c_isdigit_def c_isspace_def Let_def)

lemma takeWhile_all_append:
  "list_all P xs \<Longrightarrow> (ys = [] \<or> \<not> P (hd ys)) \<Longrightarrow>
    takeWhile P (xs @ ys) = xs \<and> dropWhile P (xs @ ys) = ys"
  by (induction xs) (auto simp: takeWhile_eq_Nil_iff dropWhile_eq_self_iff)

lemma strtol10_dec:
  assumes "n < 2 ^ 63" and "rest = [] \<or> \<not> c_isdigit (hd rest)"
  shows "strtol10 (dec_nat n @ rest) = (int n, rest, False)"
proof -
  obtain ch r where f: "dec_nat n = ch # r" "c_isdigit ch" using dec_nat_first by blast
  have s: "skip_spaces (dec_nat n @ rest) = dec_nat n @ rest"
    "read_sign (dec_nat n @ rest) = (False, dec_nat n @ rest)"
    using digit_not_special [OF f(2)] f(1) by (simp_all add: skip_spaces_def read_sign_def)
  have "int n < int (2 ^ 63)" using assms(1) by (rule of_nat_less_iff [THEN iffD2])
  then have "int n \<le> 2 ^ 63 - 1" by simp
  then show ?thesis
    using takeWhile_all_append [OF dec_nat_digits assms(2), of n] s
    by (simp add: strtol10_def digits_val_dec)
qed

section \<open>Reading doubles: \<open>strtod (s, &end)\<close>\<close>

datatype c_double = Finite real | Infinite bool | NotANumber

definition c_tolower :: "char \<Rightarrow> char" where
  "c_tolower ch =
     (let n = (of_char ch :: nat) in if 65 \<le> n \<and> n \<le> 90 then char_of (n + 32) else ch)"

definition hex_digit_val :: "char \<Rightarrow> nat" where
  "hex_digit_val ch =
     (if c_isdigit ch then digit_val ch else of_char (c_tolower ch) - 87)"

definition c_isxdigit :: "char \<Rightarrow> bool" where
  "c_isxdigit ch =
     (c_isdigit ch \<or> (let n = (of_char (c_tolower ch) :: nat) in 97 \<le> n \<and> n \<le> 102))"

definition strip_word :: "c_string \<Rightarrow> c_string \<Rightarrow> c_string option" where
  "strip_word w s =
     (if map c_tolower (take (length w) s) = w then Some (drop (length w) s) else None)"

text \<open>Digits with an optional point: the digits, how many follow the point, and the rest.\<close>

definition read_mantissa :: "(char \<Rightarrow> bool) \<Rightarrow> c_string \<Rightarrow> c_string \<times> nat \<times> c_string" where
  "read_mantissa isd s =
     (let ints = takeWhile isd s; r = dropWhile isd s
      in case r of
           [] \<Rightarrow> (ints, 0, r)
         | ch # r' \<Rightarrow>
             if ch = CHR ''.'' \<and> (ints \<noteq> [] \<or> takeWhile isd r' \<noteq> [])
             then (ints @ takeWhile isd r', length (takeWhile isd r'), dropWhile isd r')
             else (ints, 0, r))"

definition read_exponent :: "char \<Rightarrow> c_string \<Rightarrow> int \<times> c_string" where
  "read_exponent mark s =
     (case s of [] \<Rightarrow> (0, s)
      | ch # r \<Rightarrow>
          if c_tolower ch \<noteq> mark then (0, s)
          else let (neg, r') = read_sign r; ds = takeWhile c_isdigit r'; n = int (digits_val 10 digit_val ds)
               in if ds = [] then (0, s) else (if neg then - n else n, dropWhile c_isdigit r'))"

definition real_scale :: "nat \<Rightarrow> int \<Rightarrow> real" where
  "real_scale b e = (if 0 \<le> e then real b ^ nat e else 1 / real b ^ nat (- e))"

definition nan_tail :: "c_string \<Rightarrow> c_string" where
  "nan_tail s =
     (case s of [] \<Rightarrow> s
      | ch # r \<Rightarrow>
          let body = takeWhile (\<lambda>x. c_isxdigit x \<or> x = CHR ''_'' \<or>
                        (let n = (of_char (c_tolower x) :: nat) in 97 \<le> n \<and> n \<le> 122)) r
          in if ch = CHR ''('' \<and> drop (length body) r \<noteq> [] \<and> hd (drop (length body) r) = CHR '')''
             then drop (Suc (length body)) r else s)"

text \<open>
  Values at or above \<open>2^1024 - 2^970\<close> round to infinity and set \<open>ERANGE\<close>; non-zero values below
  the smallest normal number set it as well.
\<close>

definition strtod :: "fpu \<Rightarrow> c_string \<Rightarrow> c_double \<times> c_string \<times> bool" where
  "strtod fp s =
     (let (neg, r) = read_sign (skip_spaces s);
          finish = (\<lambda>x rest.
            let a = (if neg then - x else x) in
            if x \<ge> 2 ^ 1024 - 2 ^ 970 then (Infinite neg, rest, True)
            else (Finite (rnd fp a), rest, 0 < x \<and> x < 1 / 2 ^ 1022));
          decimal = (let (ds, frac, r1) = read_mantissa c_isdigit r;
                         (e, r2) = read_exponent (CHR ''e'') r1
                     in if ds = [] then (Finite 0, s, False)
                        else finish (real (digits_val 10 digit_val ds) * real_scale 10 (e - int frac)) r2)
      in case strip_word ''infinity'' r of Some r' \<Rightarrow> (Infinite neg, r', False)
         | None \<Rightarrow> (case strip_word ''inf'' r of Some r' \<Rightarrow> (Infinite neg, r', False)
         | None \<Rightarrow> (case strip_word ''nan'' r of Some r' \<Rightarrow> (NotANumber, nan_tail r', False)
         | None \<Rightarrow> (case strip_word ''0x'' r of
             Some r' \<Rightarrow>
               (let (ds, frac, r1) = read_mantissa c_isxdigit r';
                    (e, r2) = read_exponent (CHR ''p'') r1
                in if ds = [] then decimal
                   else finish (real (digits_val 16 hex_digit_val ds) * real_scale 2 (e - 4 * int frac)) r2)
           | None \<Rightarrow> decimal))))"

end
