(* ===== verification/Nv_Mab.thy ===== *)
theory Nv_Mab
  imports Prelude Clib
begin

text \<open>
  The mutation-arm bandit of \<open>src/src/afl-fuzz-nv-mab.c\<close>: its tunables and their environment
  overrides, the choice of an arm (warm-up, then UCB), the reward update, and the pending
  record that links a generated input to the reward it will earn.
\<close>

section \<open>Data\<close>

text \<open>\<open>nv_arm_id_t\<close> is a C enumeration stored as an integer; the code tests its range.\<close>

type_synonym nv_arm_id = int

abbreviation (input) NV_ARM_FIELD_VALUE :: nv_arm_id where "NV_ARM_FIELD_VALUE \<equiv> 0"
abbreviation (input) NV_ARM_BOUNDARY :: nv_arm_id where "NV_ARM_BOUNDARY \<equiv> 1"
abbreviation (input) NV_ARM_STRUCTURE :: nv_arm_id where "NV_ARM_STRUCTURE \<equiv> 2"
abbreviation (input) NV_ARM_MAX :: nv_arm_id where "NV_ARM_MAX \<equiv> 3"

record nv_arm =
  pulls :: u64
  mean_reward :: real
  pos_cnt :: u64
  sum_reward :: real

record nv_mab =
  arms :: "nv_arm list"
  total_pulls :: u64
  mab_c :: real
  enabled_mask :: u32
  last_arm :: nv_arm_id
  pending_arm :: nv_arm_id
  pending_selected_arm :: nv_arm_id
  pending_selected_valid :: bool
  pending_iteration :: u64
  pending_update :: bool
  pending_ledger_terminal_recorded :: bool
  update_source :: u8
  min_explore :: u64
  cold_start_picks :: u64
  ucb_picks :: u64
  initialized :: bool

definition mab_arm :: "nv_mab \<Rightarrow> nv_arm_id \<Rightarrow> nv_arm" where
  "mab_arm mab a = arms mab ! nat a"

section \<open>Tunables\<close>

definition NV_MAB_DEFAULT_C :: real where "NV_MAB_DEFAULT_C = 5 / 100"
definition NV_MAB_MAX_MIN_EXPLORE :: int where "NV_MAB_MAX_MIN_EXPLORE = 1000000"
definition NV_MAB_DEFAULT_MIN_EXPLORE :: u64 where "NV_MAB_DEFAULT_MIN_EXPLORE = 8"

definition nv_env_value :: "env_vars \<Rightarrow> c_string \<Rightarrow> c_string option" where
  "nv_env_value env name =
     (case env name of None \<Rightarrow> None
      | Some v \<Rightarrow> let s = skip_spaces v in if s = [] then None else Some s)"

definition nv_str_is_terminated :: "c_string \<Rightarrow> bool" where
  "nv_str_is_terminated rest \<longleftrightarrow> skip_spaces rest = []"

text \<open>An override that is valid, or \<open>None\<close> where the C function returns 0.\<close>

definition nv_mab_env_c :: "fpu \<Rightarrow> env_vars \<Rightarrow> real option" where
  "nv_mab_env_c fp env =
     (case nv_env_value env ''NV_MAB_C'' of
        None \<Rightarrow> None
      | Some raw \<Rightarrow>
          let (v, rest, erange) = strtod fp raw in
          if \<not> nv_str_is_terminated rest \<or> rest = raw then None
          else if erange then None
          else (case v of Finite x \<Rightarrow> if x \<le> 0 then None else Some x | _ \<Rightarrow> None))"

definition nv_mab_env_min_explore :: "env_vars \<Rightarrow> u64 option" where
  "nv_mab_env_min_explore env =
     (case nv_env_value env ''NV_MAB_MIN_EXPLORE'' of
        None \<Rightarrow> None
      | Some raw \<Rightarrow>
          let (v, rest, erange) = strtol10 raw in
          if \<not> nv_str_is_terminated rest \<or> rest = raw then None
          else if erange \<or> v < 1 \<or> v > NV_MAB_MAX_MIN_EXPLORE then None
          else Some (of_int v))"

definition nv_mab_init_defaults :: "fpu \<Rightarrow> env_vars \<Rightarrow> nv_mab \<Rightarrow> nv_mab" where
  "nv_mab_init_defaults fp env mab =
     mab\<lparr>mab_c := (case nv_mab_env_c fp env of
                      Some v \<Rightarrow> v | None \<Rightarrow> dlit fp NV_MAB_DEFAULT_C),
         min_explore := (case nv_mab_env_min_explore env of
                      Some v \<Rightarrow> v | None \<Rightarrow> NV_MAB_DEFAULT_MIN_EXPLORE),
         initialized := True\<rparr>"

section \<open>Picking an arm\<close>

definition nv_arm_enabled :: "u32 \<Rightarrow> nv_arm_id \<Rightarrow> bool" where
  "nv_arm_enabled scope_mask arm =
     (if arm = NV_ARM_FIELD_VALUE then scope_mask AND 0x1 \<noteq> 0
      else if arm = NV_ARM_BOUNDARY then scope_mask AND 0x2 \<noteq> 0
      else if arm = NV_ARM_STRUCTURE then scope_mask AND 0x4 \<noteq> 0
      else False)"

text \<open>The arms of \<open>for (a = 0; a < NV_ARM_MAX; ++a)\<close>, in order.\<close>

definition arm_ids :: "nv_arm_id list" where
  "arm_ids = [NV_ARM_FIELD_VALUE, NV_ARM_BOUNDARY, NV_ARM_STRUCTURE]"

text \<open>The warm-up loop carries \<open>least\<close> and \<open>least_seen\<close>.\<close>

fun least_pulled :: "nv_mab \<Rightarrow> u32 \<Rightarrow> nv_arm_id list \<Rightarrow> nv_arm_id \<times> u64 \<Rightarrow> nv_arm_id \<times> u64" where
  "least_pulled mab msk [] acc = acc"
| "least_pulled mab msk (a # as) (least, least_seen) =
     least_pulled mab msk as
       (if \<not> nv_arm_enabled msk a then (least, least_seen)
        else if least = NV_ARM_MAX \<or> pulls (mab_arm mab a) < least_seen
        then (a, pulls (mab_arm mab a)) else (least, least_seen))"

definition ucb_score :: "fpu \<Rightarrow> nv_mab \<Rightarrow> nv_arm_id \<Rightarrow> real" where
  "ucb_score fp mab a =
     (let ln_total = fp_log fp (dadd fp (d_of_u64 fp (total_pulls mab)) 1) in
      dadd fp (mean_reward (mab_arm mab a))
        (dmul fp (mab_c mab)
          (fp_sqrt fp (ddiv fp ln_total (d_of_u64 fp (pulls (mab_arm mab a)))))))"

text \<open>
  The UCB loop carries \<open>best_ucb\<close> and \<open>best\<close>. An arm without pulls is returned at once
  (\<open>Inl\<close>), which skips the \<open>ucb_picks\<close> counter.
\<close>

fun ucb_loop :: "fpu \<Rightarrow> nv_mab \<Rightarrow> u32 \<Rightarrow> nv_arm_id list \<Rightarrow> real \<times> nv_arm_id \<Rightarrow>
    nv_arm_id + nv_arm_id" where
  "ucb_loop fp mab msk [] (best_ucb, best) = Inr best"
| "ucb_loop fp mab msk (a # as) (best_ucb, best) =
     (if \<not> nv_arm_enabled msk a then ucb_loop fp mab msk as (best_ucb, best)
      else if pulls (mab_arm mab a) = 0 then Inl a
      else if ucb_score fp mab a > best_ucb
      then ucb_loop fp mab msk as (ucb_score fp mab a, a)
      else ucb_loop fp mab msk as (best_ucb, best))"

definition effective_mask :: "u32 \<Rightarrow> u32" where
  "effective_mask scope_mask = (if scope_mask = 0 then 0x7 else scope_mask)"

definition nv_mab_pick :: "fpu \<Rightarrow> env_vars \<Rightarrow> nv_mab \<Rightarrow> u32 \<Rightarrow> nv_arm_id \<times> nv_mab" where
  "nv_mab_pick fp env mab0 scope_mask =
     (let mab = (if initialized mab0 then mab0 else nv_mab_init_defaults fp env mab0);
          msk = effective_mask scope_mask;
          (least, least_seen) = least_pulled mab msk arm_ids (NV_ARM_MAX, 0)
      in if least = NV_ARM_MAX then (NV_ARM_FIELD_VALUE, mab)
         else if least_seen < min_explore mab
         then (least, mab\<lparr>cold_start_picks := cold_start_picks mab + 1\<rparr>)
         else (case ucb_loop fp mab msk arm_ids (- (10 ^ 100), NV_ARM_FIELD_VALUE) of
                 Inl a \<Rightarrow> (a, mab)
               | Inr best \<Rightarrow> (best, mab\<lparr>ucb_picks := ucb_picks mab + 1\<rparr>)))"

section \<open>Reward update and the pending record\<close>

definition arm_update :: "fpu \<Rightarrow> real \<Rightarrow> nv_arm \<Rightarrow> nv_arm" where
  "arm_update fp reward a =
     (let p = pulls a + 1; mean = mean_reward a in
      \<lparr>pulls = p,
       mean_reward = dadd fp mean (ddiv fp (dsub fp reward mean) (d_of_u64 fp p)),
       pos_cnt = (if reward > 0 then pos_cnt a + 1 else pos_cnt a),
       sum_reward = dadd fp (sum_reward a) reward\<rparr>)"

definition nv_mab_update :: "fpu \<Rightarrow> nv_mab \<Rightarrow> nv_arm_id \<Rightarrow> real \<Rightarrow> nv_mab" where
  "nv_mab_update fp mab arm reward =
     (if arm < 0 \<or> arm \<ge> NV_ARM_MAX then mab
      else mab\<lparr>total_pulls := total_pulls mab + 1,
               arms := (arms mab)[nat arm := arm_update fp reward (mab_arm mab arm)]\<rparr>)"

definition nv_mab_terminal_ledger_suppresses_cleanup :: "c_string ptr \<Rightarrow> bool" where
  "nv_mab_terminal_ledger_suppresses_cleanup outcome = (outcome = Some ''arm_mismatch'')"

definition nv_mab_begin_pending ::
    "nv_arm_id \<Rightarrow> nv_arm_id \<Rightarrow> u64 \<Rightarrow> u8 \<Rightarrow> nv_mab \<Rightarrow> nv_mab" where
  "nv_mab_begin_pending selected_arm actual_used_arm iteration_id source mab =
     mab\<lparr>pending_arm := actual_used_arm,
         pending_selected_arm := selected_arm,
         pending_selected_valid := True,
         pending_iteration := iteration_id,
         pending_update := True,
         pending_ledger_terminal_recorded := False,
         update_source := source\<rparr>"


section \<open>The loops compute first minima\<close>

text \<open>\<open>arg_min_list f xs\<close> is the first element of \<open>xs\<close> at which \<open>f\<close> is least.\<close>

lemma arg_min_list_Cons2:
  fixes f :: "'a \<Rightarrow> 'b::linorder"
  shows "arg_min_list f (a # b # zs) =
    (if f b < f a then arg_min_list f (b # zs) else arg_min_list f (a # zs))"
proof (cases zs)
  case (Cons c cs)
  have "f (arg_min_list f (b # zs)) \<le> f b" by (rule f_arg_min_list_f [THEN eq_refl, THEN order_trans]) auto
  then show ?thesis using Cons by (auto simp: Let_def)
qed auto

lemma arg_min_list_least:
  fixes f :: "'a \<Rightarrow> 'b::linorder"
  assumes "xs \<noteq> []"
  shows "arg_min_list f xs \<in> set xs" and "x \<in> set xs \<Longrightarrow> f (arg_min_list f xs) \<le> f x"
  using arg_min_list_in [OF assms] f_arg_min_list_f [OF assms, of f] by auto

lemma arg_min_list_first:
  fixes f :: "'a::linorder \<Rightarrow> 'b::linorder"
  assumes "sorted_wrt (<) xs" and "x \<in> set xs" and "f x = f (arg_min_list f xs)"
  shows "arg_min_list f xs \<le> x"
  using assms
proof (induction xs)
  case (Cons y ys)
  show ?case
  proof (cases ys)
    case Nil
    then show ?thesis using Cons.prems by simp
  next
    case (Cons z zs)
    have "arg_min_list f ys \<in> set ys" "\<And>v. v \<in> set ys \<Longrightarrow> f (arg_min_list f ys) \<le> f v"
      using arg_min_list_least [of ys] Cons by auto
    then show ?thesis using Cons.IH Cons.prems Cons
      by (auto simp: Let_def less_imp_le split: if_splits)
  qed
qed simp

definition enabled_arms :: "u32 \<Rightarrow> nv_arm_id list" where
  "enabled_arms msk = filter (nv_arm_enabled msk) arm_ids"

lemma enabled_arms_range: "a \<in> set (enabled_arms msk) \<Longrightarrow> 0 \<le> a \<and> a < NV_ARM_MAX"
proof -
  assume "a \<in> set (enabled_arms msk)"
  then have "a \<in> set arm_ids" unfolding enabled_arms_def by simp
  then show ?thesis by (auto simp: arm_ids_def)
qed

lemma distinct_enabled_arms: "distinct (enabled_arms msk)"
  by (simp add: enabled_arms_def arm_ids_def)

lemma least_pulled_arg_min:
  assumes "NV_ARM_MAX \<notin> set as" and "a \<noteq> NV_ARM_MAX"
  shows "least_pulled mab msk as (a, pulls (mab_arm mab a)) =
    (let l = arg_min_list (\<lambda>a. pulls (mab_arm mab a)) (a # filter (nv_arm_enabled msk) as)
     in (l, pulls (mab_arm mab l)))"
  using assms
proof (induction as arbitrary: a)
  case (Cons b as)
  then show ?case by (cases "nv_arm_enabled msk b") (simp_all only: least_pulled.simps filter.simps if_True if_False simp_thms not_less arg_min_list_Cons2 set_simps insert_iff de_Morgan_disj split: if_split, auto)
qed simp

lemma least_pulled_skip:
  "filter (nv_arm_enabled msk) as = [] \<Longrightarrow> least_pulled mab msk as acc = acc"
  by (induction as) (cases acc; auto split: if_splits)+

lemma least_pulled_start:
  assumes "NV_ARM_MAX \<notin> set as" and "filter (nv_arm_enabled msk) as \<noteq> []"
  shows "least_pulled mab msk as (NV_ARM_MAX, z) =
    (let l = arg_min_list (\<lambda>a. pulls (mab_arm mab a)) (filter (nv_arm_enabled msk) as)
     in (l, pulls (mab_arm mab l)))"
  using assms
proof (induction as)
  case (Cons b as)
  show ?case
  proof (cases "nv_arm_enabled msk b")
    case True
    then show ?thesis using Cons.prems least_pulled_arg_min [of as b mab msk] by simp
  next
    case False
    then show ?thesis using Cons by simp
  qed
qed simp

lemma ucb_loop_arg_min:
  assumes "\<And>b. b \<in> set as \<Longrightarrow> nv_arm_enabled msk b \<Longrightarrow> pulls (mab_arm mab b) \<noteq> 0"
  shows "ucb_loop fp mab msk as (ucb_score fp mab a, a) =
    Inr (arg_min_list (\<lambda>a. - ucb_score fp mab a) (a # filter (nv_arm_enabled msk) as))"
  using assms
proof (induction as arbitrary: a)
  case (Cons b as)
  then show ?case by (cases "nv_arm_enabled msk b") (simp_all add: arg_min_list_Cons2 del: arg_min_list.simps(2))
qed simp

lemma ucb_loop_start:
  assumes "\<And>b. b \<in> set as \<Longrightarrow> nv_arm_enabled msk b \<Longrightarrow>
      pulls (mab_arm mab b) \<noteq> 0 \<and> ucb_score fp mab b > z"
    and "filter (nv_arm_enabled msk) as \<noteq> []"
  shows "ucb_loop fp mab msk as (z, a0) =
    Inr (arg_min_list (\<lambda>a. - ucb_score fp mab a) (filter (nv_arm_enabled msk) as))"
  using assms
proof (induction as)
  case (Cons b as)
  show ?case
  proof (cases "nv_arm_enabled msk b")
    case True
    then show ?thesis using Cons.prems ucb_loop_arg_min [of as msk mab fp b] by simp
  next
    case False
    then show ?thesis using Cons by simp
  qed
qed simp


section \<open>Choosing an arm\<close>

text \<open>
  A bandit the code can have: three arms and, once initialised, a non-negative coefficient; the
  means are finite doubles far above the sentinel \<open>-1e100\<close>.
\<close>

definition mab_wf :: "nv_mab \<Rightarrow> bool" where
  "mab_wf mab \<longleftrightarrow> length (arms mab) = 3 \<and> (initialized mab \<longrightarrow> 0 < min_explore mab)"

definition ucb_ready :: "fpu \<Rightarrow> nv_mab \<Rightarrow> bool" where
  "ucb_ready fp mab \<longleftrightarrow> (initialized mab \<longrightarrow> 0 \<le> mab_c mab) \<and>
     (\<forall>a \<in> set arm_ids. is_double fp (mean_reward (mab_arm mab a)) \<and>
        - (10 ^ 100) < mean_reward (mab_arm mab a))"

definition picked_arm :: "fpu \<Rightarrow> env_vars \<Rightarrow> nv_mab \<Rightarrow> u32 \<Rightarrow> nv_arm_id" where
  "picked_arm fp env mab scope_mask = fst (nv_mab_pick fp env mab scope_mask)"

definition ready_mab :: "fpu \<Rightarrow> env_vars \<Rightarrow> nv_mab \<Rightarrow> nv_mab" where
  "ready_mab fp env mab = (if initialized mab then mab else nv_mab_init_defaults fp env mab)"

lemma env_c_positive: "nv_mab_env_c fp env = Some v \<Longrightarrow> 0 < v"
  by (auto simp: nv_mab_env_c_def Let_def split: option.splits prod.splits if_splits c_double.splits)

lemma env_min_explore_range:
  assumes "nv_mab_env_min_explore env = Some v"
  shows "1 \<le> unat v \<and> unat v \<le> 1000000"
proof -
  have "\<exists>i :: int. 1 \<le> i \<and> i \<le> 1000000 \<and> v = of_int i"
    using assms unfolding nv_mab_env_min_explore_def NV_MAB_MAX_MIN_EXPLORE_def Let_def
    by (auto split: option.splits prod.splits if_splits simp: not_less)
  then obtain i :: int where i: "1 \<le> i" "i \<le> 1000000" and v: "v = of_int i" by blast
  have "unat v = nat i" using i unfolding v
    by (simp add: unsigned_of_int take_bit_int_eq_self)
  then show ?thesis using i by (simp add: le_nat_iff nat_le_iff)
qed

lemma env_min_explore_dec:
  assumes "1 \<le> n" and "n \<le> 1000000" and "env ''NV_MAB_MIN_EXPLORE'' = Some (dec_nat n)"
  shows "nv_mab_env_min_explore env = Some (of_nat n)"
proof -
  have "strtol10 (dec_nat n) = (int n, [], False)"
    using strtol10_dec [of n "[]"] assms(2) by simp
  moreover have "nv_env_value env ''NV_MAB_MIN_EXPLORE'' = Some (dec_nat n)"
    using assms(3) dec_nat_first [of n] digit_not_special
    by (auto simp: nv_env_value_def skip_spaces_def)
  ultimately show ?thesis using assms(1,2)
    by (simp add: nv_mab_env_min_explore_def NV_MAB_MAX_MIN_EXPLORE_def nv_str_is_terminated_def
        skip_spaces_def)
qed

lemma init_defaults_ready:
  "min_explore (nv_mab_init_defaults fp env mab) \<noteq> 0"
  "fpu_ok fp \<Longrightarrow> 0 \<le> mab_c (nv_mab_init_defaults fp env mab)"
  "initialized (nv_mab_init_defaults fp env mab)"
  "arms (nv_mab_init_defaults fp env mab) = arms mab"
  "total_pulls (nv_mab_init_defaults fp env mab) = total_pulls mab"
  using env_min_explore_range [of env] env_c_positive [of fp env]
  by (auto simp: nv_mab_init_defaults_def NV_MAB_DEFAULT_MIN_EXPLORE_def NV_MAB_DEFAULT_C_def
      dlit_def rnd_nonneg less_imp_le split: option.splits)

lemma ready_mab_facts:
  assumes "mab_wf mab"
  shows "mab_wf (ready_mab fp env mab)" "initialized (ready_mab fp env mab)"
    "0 < min_explore (ready_mab fp env mab)" "arms (ready_mab fp env mab) = arms mab"
    "mab_arm (ready_mab fp env mab) = mab_arm mab"
    "fpu_ok fp \<Longrightarrow> ucb_ready fp mab \<Longrightarrow> ucb_ready fp (ready_mab fp env mab)"
  using assms init_defaults_ready [of fp env mab]
  by (auto simp: ready_mab_def mab_wf_def ucb_ready_def mab_arm_def word_neq_0_conv)

lemma d_of_u64_nonneg: "fpu_ok fp \<Longrightarrow> 0 \<le> d_of_u64 fp w"
  unfolding d_of_u64_def by (erule rnd_nonneg) (rule of_nat_0_le_iff)

lemma ucb_score_above_sentinel:
  assumes fp: "fpu_ok fp" and r: "ucb_ready fp mab" "initialized mab" and a: "a \<in> set arm_ids"
  shows "- (10 ^ 100) < ucb_score fp mab a"
proof -
  let ?t = "dadd fp (d_of_u64 fp (total_pulls mab)) 1"
  let ?q = "ddiv fp (fp_log fp ?t) (d_of_u64 fp (pulls (mab_arm mab a)))"
  have "1 \<le> ?t"
    using fpu_ok_facts(1) [OF fp, of 1 "d_of_u64 fp (total_pulls mab) + 1"]
      fpu_ok_facts(7) [OF fp] d_of_u64_nonneg [OF fp] by (simp add: dadd_def)
  then have "0 \<le> fp_log fp ?t" by (rule fpu_ok_facts(4) [OF fp])
  then have "0 \<le> ?q"
    unfolding ddiv_def by (intro rnd_nonneg [OF fp] divide_nonneg_nonneg d_of_u64_nonneg [OF fp])
  then have "0 \<le> fp_sqrt fp ?q" by (rule fpu_ok_facts(5) [OF fp])
  moreover have "0 \<le> mab_c mab" using r by (simp add: ucb_ready_def)
  ultimately have "0 \<le> dmul fp (mab_c mab) (fp_sqrt fp ?q)"
    unfolding dmul_def by (intro rnd_nonneg [OF fp] mult_nonneg_nonneg)
  moreover have "is_double fp (mean_reward (mab_arm mab a))"
    "- (10 ^ 100) < mean_reward (mab_arm mab a)"
    using r(1) a by (auto simp: ucb_ready_def)
  ultimately show ?thesis
    unfolding ucb_score_def Let_def using dadd_nonneg_le [OF fp] by (metis less_le_trans)
qed

text \<open>What a pick does, with the loops replaced by first minima.\<close>

lemma pick_nothing_enabled:
  assumes "enabled_arms (effective_mask scope) = []"
  shows "nv_mab_pick fp env mab scope = (NV_ARM_FIELD_VALUE, ready_mab fp env mab)"
proof -
  have "least_pulled m (effective_mask scope) arm_ids acc = acc" for m acc
    using assms by (intro least_pulled_skip) (simp add: enabled_arms_def)
  then show ?thesis by (simp add: nv_mab_pick_def ready_mab_def Let_def)
qed

lemma pick_spec:
  fixes fp env mab
  assumes en: "enabled_arms (effective_mask scope) \<noteq> []"
  defines "m \<equiv> ready_mab fp env mab"
  defines "l \<equiv> arg_min_list (\<lambda>a. pulls (mab_arm m a)) (enabled_arms (effective_mask scope))"
  shows "nv_mab_pick fp env mab scope =
    (if pulls (mab_arm m l) < min_explore m
     then (l, m\<lparr>cold_start_picks := cold_start_picks m + 1\<rparr>)
     else (case ucb_loop fp m (effective_mask scope) arm_ids (- (10 ^ 100), NV_ARM_FIELD_VALUE) of
             Inl a \<Rightarrow> (a, m)
           | Inr best \<Rightarrow> (best, m\<lparr>ucb_picks := ucb_picks m + 1\<rparr>)))"
proof -
  let ?k = "effective_mask scope"
  have "l \<in> set (enabled_arms ?k)" unfolding l_def by (rule arg_min_list_least(1) [OF en])
  then have l: "l \<noteq> NV_ARM_MAX" using enabled_arms_range by fastforce
  have "NV_ARM_MAX \<notin> set arm_ids" by (simp add: arm_ids_def)
  then have "least_pulled m ?k arm_ids (NV_ARM_MAX, 0) = (l, pulls (mab_arm m l))"
    using least_pulled_start [of arm_ids ?k m 0] en
    by (simp add: l_def enabled_arms_def Let_def)
  then show ?thesis using l
    unfolding nv_mab_pick_def ready_mab_def [symmetric] m_def [symmetric] Let_def by simp
qed

lemma pick_ucb:
  fixes fp env mab
  assumes en: "enabled_arms (effective_mask scope) \<noteq> []"
    and fp: "fpu_ok fp" and wf: "mab_wf mab" "ucb_ready fp mab"
    and full: "\<And>a. a \<in> set (enabled_arms (effective_mask scope)) \<Longrightarrow>
      min_explore (ready_mab fp env mab) \<le> pulls (mab_arm mab a)"
  defines "m \<equiv> ready_mab fp env mab"
  shows "nv_mab_pick fp env mab scope =
    (arg_min_list (\<lambda>a. - ucb_score fp m a) (enabled_arms (effective_mask scope)),
     m\<lparr>ucb_picks := ucb_picks m + 1\<rparr>)"
proof -
  let ?k = "effective_mask scope"
  note r = ready_mab_facts [OF wf(1), of fp env]
  have "ucb_loop fp m ?k arm_ids (- (10 ^ 100), NV_ARM_FIELD_VALUE) =
      Inr (arg_min_list (\<lambda>a. - ucb_score fp m a) (enabled_arms ?k))"
    unfolding enabled_arms_def
  proof (rule ucb_loop_start)
    fix b assume b: "b \<in> set arm_ids" "nv_arm_enabled ?k b"
    then have "b \<in> set (enabled_arms ?k)" by (simp add: enabled_arms_def)
    then have "pulls (mab_arm m b) \<noteq> 0"
      using full r(3,5) unfolding m_def by (metis word_not_simps(1) linorder_not_less)
    moreover have "- (10 ^ 100) < ucb_score fp m b"
      unfolding m_def by (rule ucb_score_above_sentinel [OF fp r(6) [OF fp wf(2)] r(2) b(1)])
    ultimately show "pulls (mab_arm m b) \<noteq> 0 \<and> - (10 ^ 100) < ucb_score fp m b" ..
  qed (use en in \<open>simp add: enabled_arms_def\<close>)
  moreover have "\<not> pulls (mab_arm m (arg_min_list (\<lambda>a. pulls (mab_arm m a)) (enabled_arms ?k)))
      < min_explore m"
    using full arg_min_list_least(1) [OF en] r(5) unfolding m_def not_less by metis
  ultimately show ?thesis unfolding pick_spec [OF en] m_def [symmetric] by simp
qed

section \<open>Rounds: pick an arm, then reward it\<close>

definition mab_round :: "fpu \<Rightarrow> env_vars \<Rightarrow> u32 \<Rightarrow> real \<Rightarrow> nv_mab \<Rightarrow> nv_mab" where
  "mab_round fp env scope reward mab =
     (let (a, m) = nv_mab_pick fp env mab scope in nv_mab_update fp m a reward)"

text \<open>How many warm-up samples the enabled arms still lack.\<close>

definition warmup_deficit :: "u32 \<Rightarrow> nv_mab \<Rightarrow> nat" where
  "warmup_deficit scope mab =
     (\<Sum>a \<leftarrow> enabled_arms (effective_mask scope).
        unat (min_explore mab) - unat (pulls (mab_arm mab a)))"

lemma mab_arm_update:
  assumes "length (arms mab) = 3" and "0 \<le> a" "a < NV_ARM_MAX" and "0 \<le> b" "b < NV_ARM_MAX"
  shows "mab_arm (nv_mab_update fp mab a r) b =
    (if a = b then arm_update fp r (mab_arm mab a) else mab_arm mab b)"
  using assms by (auto simp: nv_mab_update_def mab_arm_def nth_list_update nat_eq_iff)

lemma nv_mab_update_frame [frame_simps]:
  "length (arms (nv_mab_update fp mab a r)) = length (arms mab)"
  "min_explore (nv_mab_update fp mab a r) = min_explore mab"
  "initialized (nv_mab_update fp mab a r) = initialized mab"
  "cold_start_picks (nv_mab_update fp mab a r) = cold_start_picks mab"
  "ucb_picks (nv_mab_update fp mab a r) = ucb_picks mab"
  "mab_c (nv_mab_update fp mab a r) = mab_c mab"
  by (simp_all add: nv_mab_update_def)

lemma mab_arm_cold [simp]: "mab_arm (mab\<lparr>cold_start_picks := x\<rparr>) = mab_arm mab"
  by (rule ext) (simp add: mab_arm_def)

lemma warmup_step:
  assumes wf: "mab_wf mab" "initialized mab" and d: "0 < warmup_deficit scope mab"
  shows "warmup_deficit scope (mab_round fp env scope r mab) = warmup_deficit scope mab - 1"
    and "cold_start_picks (mab_round fp env scope r mab) = cold_start_picks mab + 1"
    and "ucb_picks (mab_round fp env scope r mab) = ucb_picks mab"
    and "mab_wf (mab_round fp env scope r mab)" "initialized (mab_round fp env scope r mab)"
proof -
  let ?E = "enabled_arms (effective_mask scope)"
  let ?p = "\<lambda>a. unat (pulls (mab_arm mab a))" and ?k = "unat (min_explore mab)"
  let ?l = "arg_min_list (\<lambda>a. pulls (mab_arm mab a)) ?E"
  have m: "ready_mab fp env mab = mab" using wf(2) by (simp add: ready_mab_def)
  have en: "?E \<noteq> []" using d by (auto simp: warmup_deficit_def)
  have "warmup_deficit scope mab \<noteq> 0" using d by simp
  then obtain a where a: "a \<in> set ?E" "0 < ?k - ?p a"
    unfolding warmup_deficit_def sum_list_eq_0_iff by auto
  have "pulls (mab_arm mab ?l) \<le> pulls (mab_arm mab a)"
    by (rule arg_min_list_least(2) [OF en a(1)])
  then have less: "?p ?l < ?k" using a(2) by (simp add: word_le_nat_alt)
  have pick: "nv_mab_pick fp env mab scope = (?l, mab\<lparr>cold_start_picks := cold_start_picks mab + 1\<rparr>)"
    using less unfolding pick_spec [OF en] m by (simp add: word_less_nat_alt)
  have lin: "?l \<in> set ?E" by (rule arg_min_list_least(1) [OF en])
  note lr = enabled_arms_range [OF lin]
  let ?m = "mab_round fp env scope r mab"
  have mr: "?m = nv_mab_update fp (mab\<lparr>cold_start_picks := cold_start_picks mab + 1\<rparr>) ?l r"
    by (simp add: mab_round_def pick)
  have "?k < 2 ^ 64" using unsigned_less [of "min_explore mab"] by simp
  then have "unat (pulls (mab_arm mab ?l) + 1) = Suc (?p ?l)"
    using less by (intro unat_Suc_word) simp
  then have arm: "unat (pulls (mab_arm ?m b)) = (if b = ?l then Suc (?p ?l) else ?p b)"
    if "b \<in> set ?E" for b
    using mab_arm_update [of "mab\<lparr>cold_start_picks := cold_start_picks mab + 1\<rparr>" ?l b fp r]
      lr enabled_arms_range [OF that] wf(1)
    by (simp add: mr mab_wf_def arm_update_def Let_def)
  have min: "min_explore ?m = min_explore mab" by (simp add: mr frame_simps)
  show "cold_start_picks ?m = cold_start_picks mab + 1" "ucb_picks ?m = ucb_picks mab"
    "initialized ?m" "mab_wf ?m"
    using wf by (simp_all add: mr frame_simps mab_wf_def)
  have split: "warmup_deficit scope x = (?k - unat (pulls (mab_arm x ?l))) +
      (\<Sum>b \<leftarrow> remove1 ?l ?E. ?k - unat (pulls (mab_arm x b)))"
    if "min_explore x = min_explore mab" for x
    unfolding warmup_deficit_def that by (rule sum_list_map_remove1 [OF lin])
  have rest: "(\<Sum>b \<leftarrow> remove1 ?l ?E. ?k - unat (pulls (mab_arm ?m b))) =
      (\<Sum>b \<leftarrow> remove1 ?l ?E. ?k - ?p b)"
    using distinct_enabled_arms arm by (intro arg_cong [of _ _ sum_list] map_cong) auto
  show "warmup_deficit scope ?m = warmup_deficit scope mab - 1"
    unfolding split [OF min] split [OF refl] rest using arm [OF lin] less by simp
qed


text \<open>Replaying a log of updates on a fresh bandit.\<close>

definition zero_arm :: nv_arm where
  "zero_arm = \<lparr>pulls = 0, mean_reward = 0, pos_cnt = 0, sum_reward = 0\<rparr>"

definition calloc_mab :: nv_mab where
  "calloc_mab = \<lparr>arms = replicate 3 zero_arm, total_pulls = 0, mab_c = 0, enabled_mask = 0,
     last_arm = 0, pending_arm = 0, pending_selected_arm = 0, pending_selected_valid = False,
     pending_iteration = 0, pending_update = False, pending_ledger_terminal_recorded = False,
     update_source = 0, min_explore = 0, cold_start_picks = 0, ucb_picks = 0,
     initialized = False\<rparr>"

definition mab_replay :: "fpu \<Rightarrow> (nv_arm_id \<times> real) list \<Rightarrow> nv_mab \<Rightarrow> nv_mab" where
  "mab_replay fp us mab = foldl (\<lambda>m (a, r). nv_mab_update fp m a r) mab us"

definition rewards_of :: "nv_arm_id \<Rightarrow> (nv_arm_id \<times> real) list \<Rightarrow> real list" where
  "rewards_of a us = map snd (filter (\<lambda>u. fst u = a) us)"

lemma mab_replay_snoc: "mab_replay fp (us @ [(a, r)]) mab = nv_mab_update fp (mab_replay fp us mab) a r"
  by (simp add: mab_replay_def)

lemma mab_replay_length: "length (arms (mab_replay fp us mab)) = length (arms mab)"
  by (induction us rule: rev_induct) (auto simp: mab_replay_def frame_simps)

lemma rewards_of_snoc:
  "rewards_of a (us @ [(b, r)]) = rewards_of a us @ (if b = a then [r] else [])"
  by (simp add: rewards_of_def)

lemma rewards_of_length: "length (rewards_of a us) \<le> length us"
  by (simp add: rewards_of_def)

text \<open>In exact arithmetic the incremental mean is the mean.\<close>

lemma arm_update_exact:
  assumes "unat (pulls a) = n" and "n < 2 ^ 64 - 1"
    and "mean_reward a * real n = sum_reward a"
  shows "mean_reward (arm_update exact_fpu r a) * real (Suc n) = sum_reward (arm_update exact_fpu r a)"
    and "unat (pulls (arm_update exact_fpu r a)) = Suc n"
    and "sum_reward (arm_update exact_fpu r a) = sum_reward a + r"
proof -
  show p: "unat (pulls (arm_update exact_fpu r a)) = Suc n"
    using assms unat_Suc_word [of "pulls a"] by (simp add: arm_update_def Let_def)
  show s: "sum_reward (arm_update exact_fpu r a) = sum_reward a + r"
    by (simp add: arm_update_def Let_def)
  have "d_of_u64 exact_fpu (pulls a + 1) = real (Suc n)"
    using p by (simp only: arm_update_def Let_def nv_arm.simps exact_ops)
  then have "mean_reward (arm_update exact_fpu r a) =
      mean_reward a + (r - mean_reward a) / real (Suc n)"
    by (simp only: arm_update_def Let_def nv_arm.simps exact_ops)
  then have "mean_reward (arm_update exact_fpu r a) * real (Suc n) =
      mean_reward a * real (Suc n) + (r - mean_reward a)"
    by (simp add: distrib_right del: of_nat_Suc)
  also have "\<dots> = mean_reward a * real n + r" by (simp add: algebra_simps)
  finally show "mean_reward (arm_update exact_fpu r a) * real (Suc n) =
      sum_reward (arm_update exact_fpu r a)" using assms(3) s by simp
qed

lemma replay_total:
  assumes "length (arms mab) = 3" and "total_pulls mab = sum_list (map pulls (arms mab))"
  shows "total_pulls (mab_replay fp us mab) = sum_list (map pulls (arms (mab_replay fp us mab)))"
proof (induction us rule: rev_induct)
  case (snoc u us)
  obtain a r where u: "u = (a, r)" by force
  let ?m = "mab_replay fp us mab"
  obtain x y z where xyz: "arms ?m = [x, y, z]"
    using mab_replay_length [of fp us mab] assms(1)
    by (auto simp: numeral_3_eq_3 length_Suc_conv)
  consider "a < 0 \<or> a \<ge> 3" | "a = 0" | "a = 1" | "a = 2" by linarith
  then show ?case
    unfolding u mab_replay_snoc
    by cases (use snoc.IH xyz in \<open>simp_all add: nv_mab_update_def mab_arm_def arm_update_def Let_def\<close>)
qed (use assms in \<open>simp add: mab_replay_def\<close>)

lemma replay_arm:
  assumes "length us < 2 ^ 64" and "0 \<le> a" "a < NV_ARM_MAX"
  shows "unat (pulls (mab_arm (mab_replay exact_fpu us calloc_mab) a)) = length (rewards_of a us) \<and>
    sum_reward (mab_arm (mab_replay exact_fpu us calloc_mab) a) = sum_list (rewards_of a us) \<and>
    mean_reward (mab_arm (mab_replay exact_fpu us calloc_mab) a) * real (length (rewards_of a us)) =
      sum_list (rewards_of a us)"
  using assms(1)
proof (induction us rule: rev_induct)
  case Nil
  have "mab_arm calloc_mab a = zero_arm"
    using assms(2,3) by (simp add: mab_arm_def calloc_mab_def)
  then show ?case by (simp add: mab_replay_def rewards_of_def zero_arm_def)
next
  case (snoc u us)
  obtain b r where u: "u = (b, r)" by force
  let ?m = "mab_replay exact_fpu us calloc_mab"
  have len: "length (arms ?m) = 3" by (simp add: mab_replay_length calloc_mab_def)
  note IH = snoc.IH [THEN conjunct1] snoc.IH [THEN conjunct2, THEN conjunct1]
    snoc.IH [THEN conjunct2, THEN conjunct2]
  have small: "length us < 2 ^ 64" "length us < 2 ^ 64 - 1" using snoc.prems by simp_all
  show ?case
  proof (cases "b = a")
    case True
    have arm: "mab_arm (nv_mab_update exact_fpu ?m a r) a = arm_update exact_fpu r (mab_arm ?m a)"
      using mab_arm_update [OF len assms(2,3) assms(2,3)] by simp
    have n: "length (rewards_of a us) < 2 ^ 64 - 1"
      using rewards_of_length [of a us] small(2) by linarith
    have mean: "mean_reward (mab_arm ?m a) * real (length (rewards_of a us)) = sum_reward (mab_arm ?m a)"
      using IH(2,3) [OF small(1)] by simp
    show ?thesis
      using arm_update_exact [OF IH(1) [OF small(1)] n mean, of r] IH(2) [OF small(1)] True arm
      unfolding u mab_replay_snoc rewards_of_snoc by simp
  next
    case False
    have "mab_arm (nv_mab_update exact_fpu ?m b r) a = mab_arm ?m a"
    proof (cases "0 \<le> b \<and> b < NV_ARM_MAX")
      case True
      then show ?thesis using mab_arm_update [OF len _ _ assms(2,3)] False by simp
    qed (auto simp: nv_mab_update_def not_le)
    then show ?thesis using snoc.IH [OF small(1)] False
      unfolding u mab_replay_snoc rewards_of_snoc by simp
  qed
qed


section \<open>Properties\<close>

text \<open>
  Whatever the history of the bandit, \<open>nv_mab_pick\<close> returns an arm of the task scope (all
  three arms when the scope is 0), and falls back to FIELD_VALUE only if the scope has no arm.
\<close>

theorem pick_is_enabled:
  assumes "fpu_ok fp" and "mab_wf mab" and "ucb_ready fp mab"
  shows "if \<exists>a \<in> set arm_ids. nv_arm_enabled (effective_mask scope) a
    then nv_arm_enabled (effective_mask scope) (fst (nv_mab_pick fp env mab scope))
    else fst (nv_mab_pick fp env mab scope) = NV_ARM_FIELD_VALUE"
proof (cases "enabled_arms (effective_mask scope) = []")
  case True
  then have "\<not> (\<exists>a \<in> set arm_ids. nv_arm_enabled (effective_mask scope) a)"
    by (simp add: enabled_arms_def filter_empty_conv)
  then show ?thesis using pick_nothing_enabled [OF True] by simp
next
  case en: False
  let ?E = "enabled_arms (effective_mask scope)" and ?m = "ready_mab fp env mab"
  have "fst (nv_mab_pick fp env mab scope) \<in> set ?E"
  proof (cases "\<forall>a \<in> set ?E. min_explore ?m \<le> pulls (mab_arm mab a)")
    case True
    then show ?thesis using pick_ucb [OF en assms(1-3)] arg_min_list_least(1) [OF en] by simp
  next
    case False
    then obtain a where "a \<in> set ?E" "pulls (mab_arm ?m a) < min_explore ?m"
      using ready_mab_facts(5) [OF assms(2)] by (metis not_le)
    then have "pulls (mab_arm ?m (arg_min_list (\<lambda>a. pulls (mab_arm ?m a)) ?E)) < min_explore ?m"
      using arg_min_list_least(2) [OF en, of a "\<lambda>a. pulls (mab_arm ?m a)"] by simp
    then show ?thesis using pick_spec [OF en] arg_min_list_least(1) [OF en] by simp
  qed
  then show ?thesis by (auto simp: enabled_arms_def)
qed

lemma calloc_mab_ready: "mab_wf calloc_mab" "ucb_ready exact_fpu calloc_mab"
  by (simp_all add: mab_wf_def ucb_ready_def calloc_mab_def arm_ids_def mab_arm_def zero_arm_def)

theorem pick_is_enabled_witness:
  "nv_arm_enabled 0x4 (fst (nv_mab_pick exact_fpu (\<lambda>_. None) calloc_mab 0x4))"
  using pick_is_enabled [OF fpu_ok_exact calloc_mab_ready, where scope = 4 and env = "\<lambda>_. None"]
  by (simp add: arm_ids_def nv_arm_enabled_def effective_mask_def)

text \<open>
  The warm-up is complete after exactly the number of samples the enabled arms lack: each
  round picks an enabled arm below \<open>min_explore\<close>, whatever the rewards are, no round is served by
  UCB, and afterwards every enabled arm has at least \<open>min_explore\<close> samples.
\<close>

theorem warmup_completes:
  assumes "mab_wf mab" and "initialized mab" and "length rs = warmup_deficit scope mab"
    and "end_mab = foldl (\<lambda>m r. mab_round fp env scope r m) mab rs"
  shows "(\<forall>a \<in> set (enabled_arms (effective_mask scope)).
      min_explore end_mab \<le> pulls (mab_arm end_mab a)) \<and>
    cold_start_picks end_mab = cold_start_picks mab + of_nat (length rs) \<and>
    ucb_picks end_mab = ucb_picks mab"
  using assms
proof (induction rs arbitrary: mab)
  case Nil
  then have "warmup_deficit scope mab = 0" by simp
  then have "\<forall>a \<in> set (enabled_arms (effective_mask scope)).
      min_explore mab \<le> pulls (mab_arm mab a)"
    unfolding warmup_deficit_def sum_list_eq_0_iff by (auto simp: word_le_nat_alt)
  then show ?case using Nil by simp
next
  case (Cons r rs)
  then have "0 < warmup_deficit scope mab" by simp
  note s = warmup_step [OF Cons.prems(1,2) this, of fp env r]
  have "length rs = warmup_deficit scope (mab_round fp env scope r mab)"
    using Cons.prems(3) s(1) by simp
  from Cons.IH [OF s(4,5) this] Cons.prems(4) s(2,3) show ?case by simp
qed

definition warm_mab :: nv_mab where
  "warm_mab = calloc_mab\<lparr>min_explore := 1, mab_c := 1, initialized := True\<rparr>"

theorem warmup_completes_witness:
  "cold_start_picks (foldl (\<lambda>m r. mab_round exact_fpu (\<lambda>_. None) 0x4 r m) warm_mab [5]) = 1"
proof -
  have "mab_wf warm_mab" "initialized warm_mab" "length [5 :: real] = warmup_deficit 0x4 warm_mab"
    by (simp_all add: mab_wf_def warm_mab_def calloc_mab_def warmup_deficit_def enabled_arms_def
        arm_ids_def nv_arm_enabled_def effective_mask_def mab_arm_def zero_arm_def)
  from warmup_completes [OF this refl, of exact_fpu "\<lambda>_. None"] show ?thesis
    by (simp add: warm_mab_def calloc_mab_def)
qed

text \<open>
  C7 Once every enabled arm has its warm-up samples, the arm picked has the largest UCB score of
  the enabled arms, and no arm before it has the same score; the pick counts as a UCB pick.
\<close>

theorem pick_maximises_ucb:
  assumes "fpu_ok fp" and "mab_wf mab" and "ucb_ready fp mab" and "initialized mab"
    and "enabled_arms (effective_mask scope) \<noteq> []"
    and "\<And>a. a \<in> set (enabled_arms (effective_mask scope)) \<Longrightarrow>
      min_explore mab \<le> pulls (mab_arm mab a)"
    and "nv_mab_pick fp env mab scope = (best, mab')"
    and "b \<in> set (enabled_arms (effective_mask scope))"
  shows "ucb_score fp mab b \<le> ucb_score fp mab best \<and>
    (ucb_score fp mab b = ucb_score fp mab best \<longrightarrow> best \<le> b) \<and>
    mab' = mab\<lparr>ucb_picks := ucb_picks mab + 1\<rparr>"
proof -
  let ?E = "enabled_arms (effective_mask scope)"
  have m: "ready_mab fp env mab = mab" using assms(4) by (simp add: ready_mab_def)
  have p: "best = arg_min_list (\<lambda>a. - ucb_score fp mab a) ?E"
    "mab' = mab\<lparr>ucb_picks := ucb_picks mab + 1\<rparr>"
    using pick_ucb [OF assms(5,1-3), of env] assms(6,7) unfolding m by simp_all
  have "sorted_wrt (<) ?E"
    unfolding enabled_arms_def by (rule sorted_wrt_filter) (simp add: arm_ids_def)
  then show ?thesis
    using arg_min_list_least(2) [OF assms(5), of b "\<lambda>a. - ucb_score fp mab a"] p
      arg_min_list_first [of ?E b "\<lambda>a. - ucb_score fp mab a"] assms(8) by auto
qed

theorem pick_maximises_ucb_witness:
  "ucb_picks (snd (nv_mab_pick exact_fpu (\<lambda>_. None) (nv_mab_update exact_fpu warm_mab 2 1) 0x4)) = 1"
proof -
  let ?m = "nv_mab_update exact_fpu warm_mab 2 1"
  have r: "mab_wf ?m" "ucb_ready exact_fpu ?m" "initialized ?m"
    by (simp_all add: mab_wf_def ucb_ready_def nv_mab_update_def warm_mab_def calloc_mab_def
        arm_ids_def mab_arm_def zero_arm_def arm_update_def numeral_2_eq_2 numeral_3_eq_3)
  have e: "enabled_arms (effective_mask 0x4) = [2]"
    by (simp add: enabled_arms_def arm_ids_def nv_arm_enabled_def effective_mask_def)
  have w: "min_explore ?m \<le> pulls (mab_arm ?m a)" if "a \<in> set (enabled_arms (effective_mask 0x4))" for a
    using that unfolding e
    by (simp add: nv_mab_update_def warm_mab_def calloc_mab_def mab_arm_def zero_arm_def
        arm_update_def Let_def)
  obtain best m' where p: "nv_mab_pick exact_fpu (\<lambda>_. None) ?m 0x4 = (best, m')" by force
  have "2 \<in> set (enabled_arms (effective_mask 0x4))" "enabled_arms (effective_mask 0x4) \<noteq> []"
    unfolding e by simp_all
  from pick_maximises_ucb [OF fpu_ok_exact r(1,2,3) this(2) w p this(1)]
  have "m' = ?m\<lparr>ucb_picks := ucb_picks ?m + 1\<rparr>" by simp
  then have "ucb_picks m' = 1" by (simp add: frame_simps warm_mab_def calloc_mab_def)
  then show ?thesis unfolding p by simp
qed

text \<open>
  Replaying any log of updates on a fresh bandit keeps \<open>total_pulls\<close> equal to the sum of the
  arms' pulls, in the 64-bit arithmetic of the code and under any rounding.
\<close>

theorem replay_total_pulls:
  "total_pulls (mab_replay fp us calloc_mab) = sum_list (map pulls (arms (mab_replay fp us calloc_mab)))"
  by (rule replay_total) (simp_all add: calloc_mab_def zero_arm_def numeral_3_eq_3)

text \<open>
  In exact arithmetic each arm holds the statistics of its own updates: the number of its
  rewards, their sum, and as its mean the incremental update's value, which is sum over number.
\<close>

theorem replay_mean_exact:
  assumes "length us < 2 ^ 64" and "0 \<le> a" and "a < NV_ARM_MAX"
    and "arm = mab_arm (mab_replay exact_fpu us calloc_mab) a"
  shows "unat (pulls arm) = length (rewards_of a us) \<and>
    sum_reward arm = sum_list (rewards_of a us) \<and>
    (rewards_of a us \<noteq> [] \<longrightarrow>
      mean_reward arm = sum_list (rewards_of a us) / real (length (rewards_of a us)))"
  using replay_arm [OF assms(1-3)] assms(4) by (simp add: field_simps)

theorem replay_mean_exact_witness:
  "mean_reward (mab_arm (mab_replay exact_fpu [(1, 6), (0, 2), (1, 4)] calloc_mab) 1) = 5"
  using replay_mean_exact [OF _ _ _ refl, of "[(1, 6), (0, 2), (1, 4)]" 1]
  by (simp add: rewards_of_def)

text \<open>
  Initialisation leaves tunables in range whatever the environment holds: a coefficient that
  is positive (or the rounded default 0.05) and a warm-up between 1 and 1000000; a decimal
  number in that range set in \<open>NV_MAB_MIN_EXPLORE\<close> takes effect, an absent variable leaves 8.
\<close>

theorem init_defaults_in_range:
  assumes "m = nv_mab_init_defaults fp env mab"
  shows "initialized m \<and> 1 \<le> unat (min_explore m) \<and> unat (min_explore m) \<le> 1000000 \<and>
    (if nv_mab_env_c fp env = None then mab_c m = rnd fp (5 / 100) else 0 < mab_c m) \<and>
    (env ''NV_MAB_MIN_EXPLORE'' = None \<longrightarrow> min_explore m = 8) \<and>
    (\<forall>n. 1 \<le> n \<and> n \<le> 1000000 \<and> env ''NV_MAB_MIN_EXPLORE'' = Some (dec_nat n) \<longrightarrow>
       min_explore m = of_nat n)"
proof -
  have none: "env ''NV_MAB_MIN_EXPLORE'' = None \<Longrightarrow> nv_mab_env_min_explore env = None"
    by (simp add: nv_mab_env_min_explore_def nv_env_value_def)
  have some: "nv_mab_env_min_explore env = Some (of_nat n)"
    if "1 \<le> n" "n \<le> 1000000" "env ''NV_MAB_MIN_EXPLORE'' = Some (dec_nat n)" for n
    using that by (rule env_min_explore_dec)
  show ?thesis
    using env_min_explore_range [of env] env_c_positive [of fp env] none some assms
    by (auto simp: nv_mab_init_defaults_def NV_MAB_DEFAULT_MIN_EXPLORE_def NV_MAB_DEFAULT_C_def
        dlit_def split: option.splits)
qed

theorem init_defaults_in_range_witness:
  "min_explore (nv_mab_init_defaults exact_fpu [''NV_MAB_MIN_EXPLORE'' \<mapsto> ''20''] calloc_mab) = 20"
proof -
  have "dec_nat 20 = ''20''" 
    by (simp add: dec_nat.simps digit_char_def char_of_eq_iff)
  then show ?thesis
    using init_defaults_in_range [OF refl, of exact_fpu "[''NV_MAB_MIN_EXPLORE'' \<mapsto> ''20'']" calloc_mab]
    by (auto dest!: spec [of _ 20])
qed

end
