(* ===== verification/Nv_Audit.thy ===== *)
theory Nv_Audit
  imports Nv_Mab
begin

text \<open>
  The audit trail of the bandit (\<open>src/src/afl-fuzz-nv-mab.c\<close>, second half): the update journal,
  the execution ledger and the clearing of the pending record. The two files are fields of the
  state (they are distinct files); what the operating system answers to \<open>open\<close>, \<open>write\<close>, \<open>fsync\<close>
  and \<open>close\<close> is an argument of every operation.
\<close>

section \<open>Appending a line to a file\<close>

text \<open>
  One use of a content: whether \<open>open\<close>, \<open>fsync\<close>, \<open>close\<close> succeed, and what the \<open>k\<close>-th \<open>write\<close>
  answers for the bytes that are left. Bytes that were written stay in the file.
\<close>

record io_answers =
  io_open :: bool
  io_write :: "nat \<Rightarrow> nat \<Rightarrow> int"
  io_fsync :: bool
  io_close :: bool

function write_loop :: "(nat \<Rightarrow> nat \<Rightarrow> int) \<Rightarrow> nat \<Rightarrow> c_string \<Rightarrow> c_string \<Rightarrow> bool \<times> c_string" where
  "write_loop wr k line content =
     (if line = [] then (True, content)
      else let n = wr k (length line) in
           if n \<le> 0 then (False, content)
           else write_loop wr (Suc k) (drop (nat n) line) (content @ take (nat n) line))"
  by pat_completeness auto
termination by (relation "measure (\<lambda>(wr, k, line, content). length line)") auto

declare write_loop.simps [simp del]

definition append_line :: "io_answers \<Rightarrow> c_string \<Rightarrow> c_string \<Rightarrow> bool \<times> c_string" where
  "append_line io line content =
     (if \<not> io_open io then (False, content)
      else let (ok, file') = write_loop (io_write io) 0 line content in
           if \<not> ok then (False, file')
           else if \<not> io_fsync io then (False, file')
           else if \<not> io_close io then (False, file')
           else (True, file'))"

lemma write_loop_steps:
  "write_loop wr k [] content = (True, content)"
  "line \<noteq> [] \<Longrightarrow> wr k (length line) \<le> 0 \<Longrightarrow> write_loop wr k line content = (False, content)"
  "line \<noteq> [] \<Longrightarrow> \<not> wr k (length line) \<le> 0 \<Longrightarrow> write_loop wr k line content =
     write_loop wr (Suc k) (drop (nat (wr k (length line))) line)
       (content @ take (nat (wr k (length line))) line)"
  by (subst write_loop.simps, simp add: Let_def)+

text \<open>A success appends the whole line; a failure leaves a prefix of it behind.\<close>

lemma write_loop_appends:
  "\<exists>part rest. snd (write_loop wr k line content) = content @ part \<and> line = part @ rest \<and>
     (fst (write_loop wr k line content) \<longleftrightarrow> rest = [])"
proof (induction wr k line content rule: write_loop.induct)
  case (1 wr k line content)
  consider "line = []" | "line \<noteq> []" "wr k (length line) \<le> 0"
    | "line \<noteq> []" "\<not> wr k (length line) \<le> 0" by blast
  then show ?case
  proof cases
    case 3
    let ?n = "nat (wr k (length line))"
    let ?w = "write_loop wr (Suc k) (drop ?n line) (content @ take ?n line)"
    obtain d r where d: "snd ?w = (content @ take ?n line) @ d" "drop ?n line = d @ r"
      "fst ?w \<longleftrightarrow> r = []"
      using 1 [OF 3(1) refl 3(2)] by blast
    have "line = (take ?n line @ d) @ r" using d(2) by (metis append.assoc append_take_drop_id)
    moreover have "snd (write_loop wr k line content) = content @ (take ?n line @ d)"
      using d(1) by (simp add: write_loop_steps(3) [of line wr k, OF 3])
    moreover have "fst (write_loop wr k line content) \<longleftrightarrow> r = []"
      using d(3) by (simp add: write_loop_steps(3) [of line wr k, OF 3])
    ultimately show ?thesis by blast
  qed (simp_all add: write_loop_steps)
qed

lemma append_line_ok: "fst (append_line io line content) \<Longrightarrow> snd (append_line io line content) = content @ line"
  using write_loop_appends [of "io_write io" 0 line content]
  by (auto simp: append_line_def Let_def split: prod.splits if_splits)

lemma append_line_prefix:
  "\<exists>part rest. line = part @ rest \<and> snd (append_line io line content) = content @ part"
  using write_loop_appends [of "io_write io" 0 line content]
  by (auto simp: append_line_def Let_def split: prod.splits if_splits)

definition good_io :: io_answers where
  "good_io = \<lparr>io_open = True, io_write = (\<lambda>k n. int n), io_fsync = True, io_close = True\<rparr>"

lemma append_line_good [simp]: "append_line good_io line content = (True, content @ line)"
  by (cases "line = []") (simp_all add: append_line_def good_io_def write_loop_steps)

section \<open>State\<close>

record nv_audit =
  afl_mab :: nv_mab
  stop_soon :: u8
  journal_file :: c_string
  nv_mab_journal_enabled :: bool
  nv_mab_journal_audit_invalid :: bool
  nv_mab_journal_error_count :: u64
  nv_mab_journal_record_count :: u64
  nv_mab_journal_pending_cleared_count :: u64
  nv_mab_journal_mismatch_count :: u64
  ledger_file :: c_string
  nv_execution_ledger_enabled :: bool
  nv_execution_ledger_audit_invalid :: bool
  nv_execution_ledger_error_count :: u64
  nv_execution_ledger_record_count :: u64

record nv_mab_journal_update =
  upd_exec_seq :: u64
  upd_selected_arm :: nv_arm_id
  upd_actual_used_arm :: nv_arm_id
  upd_arm_match :: bool
  upd_reward :: real
  upd_harness_native_coverage :: real
  upd_security_state :: real
  upd_exception :: real
  upd_recovery :: real
  upd_http_4xx_penalty :: real
  upd_security_state_new :: u8
  upd_update_source :: u8

section \<open>The update journal\<close>

definition nv_mab_journal_write :: "env_vars \<Rightarrow> io_answers \<Rightarrow> c_string \<Rightarrow>
    'a nv_audit_scheme \<Rightarrow> bool \<times> 'a nv_audit_scheme" where
  "nv_mab_journal_write env io line afl =
     (case getenv_nonempty env ''NV_MAB_JOURNAL_PATH'' of
        None \<Rightarrow> (True, afl)
      | Some path \<Rightarrow>
          let afl = afl\<lparr>nv_mab_journal_enabled := True\<rparr>;
              (ok, file') = append_line io line (journal_file afl);
              afl = afl\<lparr>journal_file := file'\<rparr>
          in if ok then
               (True, afl\<lparr>nv_mab_journal_record_count := nv_mab_journal_record_count afl + 1\<rparr>)
             else
               (False, afl\<lparr>nv_mab_journal_error_count := nv_mab_journal_error_count afl + 1,
                           nv_mab_journal_audit_invalid := True,
                           stop_soon := 1\<rparr>))"

definition json_bool :: "bool \<Rightarrow> c_string" where
  "json_bool b = (if b then ''true'' else ''false'')"

definition newline :: c_string where
  "newline = [CHR 0x0A]"

text \<open>The \<open>snprintf\<close> of the record; \<open>g17\<close> is the conversion \<open>%.17g\<close>.\<close>

definition journal_record :: "(real \<Rightarrow> c_string) \<Rightarrow> nv_mab_journal_update \<Rightarrow> nv_arm \<Rightarrow> nv_arm \<Rightarrow> c_string" where
  \<open>journal_record g17 update before after =
     ''{"schema_version":1,"event":"mab_update",'' @
     ''"exec_seq":'' @ dec_nat (unat (upd_exec_seq update)) @
     '',"selected_arm":'' @ dec_int (upd_selected_arm update) @
     '',"actual_used_arm":'' @ dec_int (upd_actual_used_arm update) @
     '',"arm_match":'' @ json_bool (upd_arm_match update) @
     '',"reward":'' @ g17 (upd_reward update) @
     '',"reward_components":{"harness_native_coverage":'' @ g17 (upd_harness_native_coverage update) @
     '',"security_state":'' @ g17 (upd_security_state update) @
     '',"exception":'' @ g17 (upd_exception update) @
     '',"recovery":'' @ g17 (upd_recovery update) @
     '',"http_4xx_penalty":'' @ g17 (upd_http_4xx_penalty update) @
     ''},"security_state_new":'' @ dec_nat (unat (upd_security_state_new update)) @
     '',"pulls_before":'' @ dec_nat (unat (pulls before)) @
     '',"pulls_after":'' @ dec_nat (unat (pulls after)) @
     '',"sum_before":'' @ g17 (sum_reward before) @
     '',"sum_after":'' @ g17 (sum_reward after) @
     '',"mean_after":'' @ g17 (mean_reward after) @
     '',"positive_after":'' @ dec_nat (unat (pos_cnt after)) @
     '',"update_source":'' @ dec_nat (unat (upd_update_source update)) @ ''}'' @ newline\<close>

definition nv_mab_journal_commit_update :: "fpu \<Rightarrow> (real \<Rightarrow> c_string) \<Rightarrow> env_vars \<Rightarrow> io_answers \<Rightarrow>
    nv_mab_journal_update ptr \<Rightarrow> 'a nv_audit_scheme \<Rightarrow> bool \<times> 'a nv_audit_scheme" where
  "nv_mab_journal_commit_update fp g17 env io update_ptr afl =
     (case update_ptr of
        None \<Rightarrow> (False, afl)
      | Some update \<Rightarrow>
          if upd_selected_arm update < 0 \<or> upd_selected_arm update \<ge> NV_ARM_MAX \<or>
             upd_actual_used_arm update < 0 \<or> upd_actual_used_arm update \<ge> NV_ARM_MAX \<or>
             \<not> upd_arm_match update \<or> upd_exec_seq update = 0
          then (False, afl)
          else
            let arm = upd_actual_used_arm update;
                before = mab_arm (afl_mab afl) arm;
                afl = afl\<lparr>afl_mab := nv_mab_update fp (afl_mab afl) arm (upd_reward update)\<rparr>;
                line = journal_record g17 update before (mab_arm (afl_mab afl) arm)
            in if length line \<ge> 2048 then
                 (False, afl\<lparr>nv_mab_journal_error_count := nv_mab_journal_error_count afl + 1,
                             nv_mab_journal_audit_invalid := True,
                             stop_soon := 1\<rparr>)
               else nv_mab_journal_write env io line afl)"

definition event_record :: "c_string \<Rightarrow> c_string ptr \<Rightarrow> nv_arm_id \<Rightarrow> nv_arm_id \<Rightarrow> c_string" where
  \<open>event_record event reason selected_arm actual_used_arm =
     ''{"schema_version":1,"event":"'' @ event @
     ''","reason":"'' @ (case reason of None \<Rightarrow> [] | Some r \<Rightarrow> r) @
     ''","selected_arm":'' @ dec_int selected_arm @
     '',"actual_used_arm":'' @ dec_int actual_used_arm @ ''}'' @ newline\<close>

definition nv_mab_journal_append_event :: "env_vars \<Rightarrow> io_answers \<Rightarrow> c_string ptr \<Rightarrow> c_string ptr \<Rightarrow>
    nv_arm_id \<Rightarrow> nv_arm_id \<Rightarrow> 'a nv_audit_scheme \<Rightarrow> bool \<times> 'a nv_audit_scheme" where
  "nv_mab_journal_append_event env io event_ptr reason selected_arm actual_used_arm afl =
     (case event_ptr of
        None \<Rightarrow> (False, afl)
      | Some event \<Rightarrow>
          if event = [] then (False, afl)
          else
            let line = event_record event reason selected_arm actual_used_arm in
            if length line \<ge> 512 then (False, afl)
            else
              let (ok, afl) = nv_mab_journal_write env io line afl;
                  afl = (if ok \<and> event = ''mab_pending_cleared''
                         then afl\<lparr>nv_mab_journal_pending_cleared_count :=
                                    nv_mab_journal_pending_cleared_count afl + 1\<rparr> else afl);
                  afl = (if ok \<and> event = ''mab_update_mismatch''
                         then afl\<lparr>nv_mab_journal_mismatch_count :=
                                    nv_mab_journal_mismatch_count afl + 1\<rparr> else afl)
              in (ok, afl))"

section \<open>The execution ledger\<close>

text \<open>What the caller says of one execution; the C function takes these as arguments.\<close>

record ledger_entry =
  le_iteration_id :: u64
  le_selected_arm :: nv_arm_id
  le_actual_used_arm :: nv_arm_id
  le_counted_execution :: bool
  le_harness_invoked :: bool
  le_target_invoked :: bool
  le_body_validated :: bool
  le_status_observed :: bool
  le_exec_seq :: u64
  le_http_status :: int
  le_outcome :: "c_string ptr"
  le_cleanup_reason :: "c_string ptr"

definition cleanup_reason_text :: "c_string ptr \<Rightarrow> c_string" where
  \<open>cleanup_reason_text reason =
     (case reason of None \<Rightarrow> ''null''
      | Some r \<Rightarrow>
          if r = ''budget_boundary'' then ''"budget_boundary"''
          else if r = ''invalid_input'' then ''"invalid_input"''
          else if r = ''invalid_exec_identity'' then ''"invalid_exec_identity"''
          else if r = ''pending_no_exec_id'' then ''"pending_no_exec_id"''
          else if r = ''arm_mismatch'' then ''"arm_mismatch"''
          else if r = ''timeout'' then ''"timeout"''
          else if r = ''skip'' then ''"skip"''
          else ''"stop_soon"'')\<close>

definition ledger_record :: "ledger_entry \<Rightarrow> c_string \<Rightarrow> c_string" where
  \<open>ledger_record e outcome =
     ''{"schema_version":1,"event":"execution",'' @
     ''"iteration_id":'' @ dec_nat (unat (le_iteration_id e)) @
     '',"input_id":"unavailable","stage":"fuzz","selected_arm":'' @ dec_int (le_selected_arm e) @
     '',"actual_used_arm":'' @ dec_int (le_actual_used_arm e) @
     '',"arm_match":'' @ json_bool (le_actual_used_arm e = le_selected_arm e) @
     '',"counted_execution":'' @ json_bool (le_counted_execution e) @
     '',"harness_invoked":'' @ json_bool (le_harness_invoked e) @
     '',"target_invoked":'' @ json_bool (le_target_invoked e) @
     '',"body_validated":'' @ json_bool (le_body_validated e) @
     '',"status_observed":'' @ json_bool (le_status_observed e) @
     '',"exec_seq":'' @ (if le_status_observed e \<and> le_exec_seq e > 0
                        then dec_nat (unat (le_exec_seq e)) else ''null'') @
     '',"http_status":'' @ dec_int (le_http_status e) @
     '',"mab_outcome":"'' @ outcome @
     ''","pending_cleanup_reason":'' @ cleanup_reason_text (le_cleanup_reason e) @ ''}'' @ newline\<close>

definition ledger_rejects :: "ledger_entry \<Rightarrow> bool" where
  "ledger_rejects e \<longleftrightarrow>
     le_outcome e = None \<or> le_outcome e = Some [] \<or> le_iteration_id e = 0 \<or>
     le_selected_arm e < 0 \<or> le_selected_arm e \<ge> NV_ARM_MAX \<or>
     ((le_actual_used_arm e < 0 \<or> le_actual_used_arm e \<ge> NV_ARM_MAX) \<and>
      le_actual_used_arm e \<noteq> NV_ARM_MAX) \<or>
     (\<not> le_status_observed e \<and> le_exec_seq e \<noteq> 0)"

definition ledger_fail :: "'a nv_audit_scheme \<Rightarrow> 'a nv_audit_scheme" where
  "ledger_fail afl = afl\<lparr>nv_execution_ledger_audit_invalid := True,
     nv_execution_ledger_error_count := nv_execution_ledger_error_count afl + 1\<rparr>"

definition nv_execution_ledger_append :: "env_vars \<Rightarrow> io_answers \<Rightarrow> ledger_entry \<Rightarrow>
    'a nv_audit_scheme \<Rightarrow> bool \<times> 'a nv_audit_scheme" where
  "nv_execution_ledger_append env io e afl =
     (case getenv_nonempty env ''NV_EXECUTION_LEDGER_PATH'' of
        None \<Rightarrow> (True, afl)
      | Some path \<Rightarrow>
          if ledger_rejects e then (False, ledger_fail afl)
          else
            let outcome = the (le_outcome e);
                anon = (le_status_observed e \<and> le_exec_seq e = 0);
                e = (if anon then e\<lparr>le_status_observed := False\<rparr> else e)
            in if anon \<and> outcome \<noteq> ''invalid_exec_identity'' then (False, ledger_fail afl)
               else
                 let afl = afl\<lparr>nv_execution_ledger_enabled := True\<rparr>;
                     line = ledger_record e outcome
                 in if length line \<ge> 1024 then (False, (ledger_fail afl)\<lparr>stop_soon := 1\<rparr>)
                    else
                      let (ok, file') = append_line io line (ledger_file afl);
                          afl = afl\<lparr>ledger_file := file'\<rparr>
                      in if ok then
                           (True, afl\<lparr>nv_execution_ledger_record_count :=
                                        nv_execution_ledger_record_count afl + 1\<rparr>)
                         else (False, (ledger_fail afl)\<lparr>stop_soon := 1\<rparr>))"

section \<open>Clearing the pending record\<close>

text \<open>The first answer is for the journal, the second for the ledger.\<close>

definition nv_mab_journal_clear_pending :: "env_vars \<Rightarrow> io_answers \<times> io_answers \<Rightarrow> c_string ptr \<Rightarrow>
    'a nv_audit_scheme \<Rightarrow> bool \<times> 'a nv_audit_scheme" where
  "nv_mab_journal_clear_pending env io2 reason afl =
     (if \<not> pending_update (afl_mab afl) then (True, afl)
      else
        let mab = afl_mab afl;
            arm = pending_arm mab;
            selected_arm = (if pending_selected_valid mab then pending_selected_arm mab else arm);
            iteration = pending_iteration mab;
            (ok, afl) = nv_mab_journal_append_event env (fst io2) (Some ''mab_pending_cleared'')
                          reason selected_arm arm afl;
            (ok, afl) =
              (if ok \<and> iteration \<noteq> 0 \<and> \<not> pending_ledger_terminal_recorded (afl_mab afl) \<and>
                  env ''NV_EXECUTION_LEDGER_PATH'' \<noteq> None
               then nv_execution_ledger_append env (snd io2)
                      \<lparr>le_iteration_id = iteration, le_selected_arm = selected_arm,
                       le_actual_used_arm = arm, le_counted_execution = False,
                       le_harness_invoked = True, le_target_invoked = False,
                       le_body_validated = False, le_status_observed = False, le_exec_seq = 0,
                       le_http_status = 0, le_outcome = Some ''pending_cleanup'',
                       le_cleanup_reason = reason\<rparr> afl
               else (ok, afl))
        in (ok, afl\<lparr>afl_mab := (afl_mab afl)\<lparr>pending_update := False, pending_iteration := 0,
                   pending_selected_arm := NV_ARM_FIELD_VALUE, pending_selected_valid := False,
                   pending_ledger_terminal_recorded := False, update_source := 0\<rparr>\<rparr>))"


section \<open>The interface of an audit log\<close>

text \<open>
  What the auditor of a run relies on: an append that succeeds adds exactly the encoded entry
  and counts it; one that fails adds at most a part of the entry, does not count it, and marks
  the audit invalid for good.
\<close>

locale audit_log =
  fixes append :: "'e \<Rightarrow> 's \<Rightarrow> bool \<times> 's"
    and encode :: "'e \<Rightarrow> c_string"
    and content :: "'s \<Rightarrow> c_string"
    and records :: "'s \<Rightarrow> u64"
    and invalid :: "'s \<Rightarrow> bool"
  assumes append_ok: "fst (append e s) \<Longrightarrow> content (snd (append e s)) = content s @ encode e"
    and append_counts: "fst (append e s) \<Longrightarrow> records (snd (append e s)) = records s + 1"
    and append_keeps: "fst (append e s) \<Longrightarrow> invalid (snd (append e s)) = invalid s"
    and append_fails: "\<not> fst (append e s) \<Longrightarrow> invalid (snd (append e s))"
    and fail_uncounted: "\<not> fst (append e s) \<Longrightarrow> records (snd (append e s)) = records s"
    and fail_part: "\<not> fst (append e s) \<Longrightarrow>
      \<exists>part rest. encode e = part @ rest \<and> content (snd (append e s)) = content s @ part"

definition append_all :: "('e \<Rightarrow> 's \<Rightarrow> bool \<times> 's) \<Rightarrow> 'e list \<Rightarrow> 's \<Rightarrow> 's" where
  "append_all app es s = foldl (\<lambda>s e. snd (app e s)) s es"

lemma append_all_simps [simp]:
  "append_all app [] s = s" "append_all app (e # es) s = append_all app es (snd (app e s))"
  by (simp_all add: append_all_def)

context audit_log begin

lemma invalid_sticks: "invalid s \<Longrightarrow> invalid (append_all append es s)"
proof (induction es arbitrary: s)
  case (Cons e es)
  then have "invalid (snd (append e s))"
    using append_keeps [of e s] append_fails [of e s] by (cases "fst (append e s)") auto
  then show ?case using Cons.IH by simp
qed simp

lemma valid_log_complete:
  "\<not> invalid (append_all append es s) \<Longrightarrow>
    content (append_all append es s) = content s @ concat (map encode es) \<and>
    records (append_all append es s) = records s + of_nat (length es)"
proof (induction es arbitrary: s)
  case (Cons e es)
  then have v: "\<not> invalid (append_all append es (snd (append e s)))" by simp
  then have "fst (append e s)" using append_fails [of e s] invalid_sticks by blast
  then show ?case using Cons.IH [OF v] append_ok append_counts by simp
qed simp

lemma valid_log_all_ok:
  "\<not> invalid (append_all append es s) \<Longrightarrow> e \<in> set es \<Longrightarrow> \<exists>s'. fst (append e s')"
proof (induction es arbitrary: s)
  case (Cons d ds)
  then have v: "\<not> invalid (append_all append ds (snd (append d s)))" by simp
  then have "fst (append d s)" using append_fails [of d s] invalid_sticks by blast
  then show ?case using Cons.IH [OF v] Cons.prems(2) by auto
qed simp

end

section \<open>The journal and the ledger are audit logs\<close>

definition with_var :: "c_string \<Rightarrow> char \<times> c_string \<Rightarrow> env_vars \<Rightarrow> env_vars" where
  "with_var name v env = env(name \<mapsto> fst v # snd v)"

lemma getenv_with_var [simp]: "getenv_nonempty (with_var name v env) name = Some (fst v # snd v)"
  by (simp add: getenv_nonempty_def with_var_def)

lemma with_var_idem:
  assumes "getenv_nonempty env name = Some path"
  obtains v where "with_var name v env = env"
proof -
  obtain c cs where "path = c # cs" "env name = Some (c # cs)"
    using assms by (cases path) (auto simp: getenv_nonempty_def split: option.splits if_splits)
  then have "with_var name (c, cs) env = env" by (auto simp: with_var_def)
  then show thesis by (rule that)
qed

lemma journal_write_cases:
  assumes "getenv_nonempty env ''NV_MAB_JOURNAL_PATH'' = Some path"
    and "append_line io line (journal_file afl) = (ok, out)"
  shows "nv_mab_journal_write env io line afl =
    (ok, if ok then afl\<lparr>nv_mab_journal_enabled := True, journal_file := out,
           nv_mab_journal_record_count := nv_mab_journal_record_count afl + 1\<rparr>
         else afl\<lparr>nv_mab_journal_enabled := True, journal_file := out,
           nv_mab_journal_error_count := nv_mab_journal_error_count afl + 1,
           nv_mab_journal_audit_invalid := True, stop_soon := 1\<rparr>)"
  using assms by (simp add: nv_mab_journal_write_def Let_def)

definition journal_put :: "char \<times> c_string \<Rightarrow> env_vars \<Rightarrow> c_string \<times> io_answers \<Rightarrow>
    'a nv_audit_scheme \<Rightarrow> bool \<times> 'a nv_audit_scheme" where
  "journal_put v env e afl =
     nv_mab_journal_write (with_var ''NV_MAB_JOURNAL_PATH'' v env) (snd e) (fst e) afl"

interpretation journal: audit_log "journal_put v env" fst journal_file
  nv_mab_journal_record_count nv_mab_journal_audit_invalid
  for v env
proof -
  have *: "journal_put v env e s = (ok, if ok then s\<lparr>nv_mab_journal_enabled := True, journal_file := out,
           nv_mab_journal_record_count := nv_mab_journal_record_count s + 1\<rparr>
         else s\<lparr>nv_mab_journal_enabled := True, journal_file := out,
           nv_mab_journal_error_count := nv_mab_journal_error_count s + 1,
           nv_mab_journal_audit_invalid := True, stop_soon := 1\<rparr>)"
    if "append_line (snd e) (fst e) (journal_file s) = (ok, out)" for e ok out and s :: "'a nv_audit_scheme"
    using journal_write_cases [OF getenv_with_var that] by (simp add: journal_put_def)
  show "audit_log (journal_put v env :: _ \<Rightarrow> 'a nv_audit_scheme \<Rightarrow> _) fst journal_file
    nv_mab_journal_record_count nv_mab_journal_audit_invalid"
  proof
    fix e and s :: "'a nv_audit_scheme"
    obtain ok out where a: "append_line (snd e) (fst e) (journal_file s) = (ok, out)" by force
    have part: "\<exists>part rest. fst e = part @ rest \<and> out = journal_file s @ part"
      using append_line_prefix [of "fst e" "snd e" "journal_file s"] a by simp
    have ok: "ok \<Longrightarrow> out = journal_file s @ fst e"
      using append_line_ok [of "snd e" "fst e" "journal_file s"] a by simp
    show "fst (journal_put v env e s) \<Longrightarrow>
        journal_file (snd (journal_put v env e s)) = journal_file s @ fst e"
      using ok unfolding * [OF a] by simp
    show "\<not> fst (journal_put v env e s) \<Longrightarrow> \<exists>part rest. fst e = part @ rest \<and>
        journal_file (snd (journal_put v env e s)) = journal_file s @ part"
      using part unfolding * [OF a] by simp
  qed (case_tac "append_line (snd e) (fst e) (journal_file s)", simp add: *)+
qed

definition ledger_put :: "char \<times> c_string \<Rightarrow> env_vars \<Rightarrow> ledger_entry \<times> io_answers \<Rightarrow>
    'a nv_audit_scheme \<Rightarrow> bool \<times> 'a nv_audit_scheme" where
  "ledger_put v env e afl =
     nv_execution_ledger_append (with_var ''NV_EXECUTION_LEDGER_PATH'' v env) (snd e) (fst e) afl"

text \<open>The entry as it is written: without an execution id the status counts as unobserved.\<close>

definition ledger_normal :: "ledger_entry \<Rightarrow> ledger_entry" where
  "ledger_normal e =
     (if le_status_observed e \<and> le_exec_seq e = 0 then e\<lparr>le_status_observed := False\<rparr> else e)"

definition ledger_line :: "ledger_entry \<times> io_answers \<Rightarrow> c_string" where
  "ledger_line e = ledger_record (ledger_normal (fst e)) (the (le_outcome (fst e)))"

text \<open>Entries refused before the file is touched.\<close>

definition ledger_refused :: "ledger_entry \<Rightarrow> bool" where
  "ledger_refused e \<longleftrightarrow> ledger_rejects e \<or>
     (le_status_observed e \<and> le_exec_seq e = 0 \<and> the (le_outcome e) \<noteq> ''invalid_exec_identity'')"

lemma ledger_append_cases:
  assumes "getenv_nonempty env ''NV_EXECUTION_LEDGER_PATH'' = Some path"
    and "append_line io (ledger_line (e, io)) (ledger_file afl) = (ok, out)"
  shows "nv_execution_ledger_append env io e afl =
    (if ledger_refused e then (False, ledger_fail afl)
     else if length (ledger_line (e, io)) \<ge> 1024
     then (False, (ledger_fail (afl\<lparr>nv_execution_ledger_enabled := True\<rparr>))\<lparr>stop_soon := 1\<rparr>)
     else if ok then (True, afl\<lparr>nv_execution_ledger_enabled := True, ledger_file := out,
       nv_execution_ledger_record_count := nv_execution_ledger_record_count afl + 1\<rparr>)
     else (False, (ledger_fail (afl\<lparr>nv_execution_ledger_enabled := True,
       ledger_file := out\<rparr>))\<lparr>stop_soon := 1\<rparr>))"
proof (cases "le_status_observed e \<and> le_exec_seq e = 0")
  case True
  then show ?thesis using assms
    by (cases "the (le_outcome e) = ''invalid_exec_identity''")
       (simp_all add: nv_execution_ledger_append_def ledger_refused_def ledger_line_def
        ledger_normal_def Let_def)
next
  case False
  then have "ledger_refused e = ledger_rejects e" "ledger_normal e = e"
    by (auto simp: ledger_refused_def ledger_normal_def)
  moreover have f: "(le_status_observed e \<and> le_exec_seq e = 0) = False" using False by blast
  ultimately show ?thesis using assms
    unfolding nv_execution_ledger_append_def ledger_line_def Let_def f by simp
qed

lemma ledger_fail_simps [simp, frame_simps]:
  "ledger_file (ledger_fail afl) = ledger_file afl"
  "nv_execution_ledger_record_count (ledger_fail afl) = nv_execution_ledger_record_count afl"
  "nv_execution_ledger_audit_invalid (ledger_fail afl)"
  "afl_mab (ledger_fail afl) = afl_mab afl"
  "stop_soon (ledger_fail afl) = stop_soon afl"
  by (simp_all add: ledger_fail_def)

interpretation ledger: audit_log "ledger_put v env" ledger_line ledger_file
  nv_execution_ledger_record_count nv_execution_ledger_audit_invalid
  for v env
proof -
  note c = ledger_append_cases [OF getenv_with_var]
  show "audit_log (ledger_put v env :: _ \<Rightarrow> 'a nv_audit_scheme \<Rightarrow> _) ledger_line ledger_file
    nv_execution_ledger_record_count nv_execution_ledger_audit_invalid"
  proof
    fix e and s :: "'a nv_audit_scheme"
    obtain ok out where a: "append_line (snd e) (ledger_line (fst e, snd e)) (ledger_file s) = (ok, out)"
      by force
    have part: "\<exists>part rest. ledger_line e = part @ rest \<and> out = ledger_file s @ part"
      using append_line_prefix [of "ledger_line e" "snd e" "ledger_file s"] a by simp
    have ok: "ok \<Longrightarrow> out = ledger_file s @ ledger_line e"
      using append_line_ok [of "snd e" "ledger_line e" "ledger_file s"] a by simp
    note w = ledger_put_def c [OF a]
    show "fst (ledger_put v env e s) \<Longrightarrow>
        ledger_file (snd (ledger_put v env e s)) = ledger_file s @ ledger_line e"
      using ok unfolding w by (simp split: if_splits)
    have none: "\<exists>part rest. ledger_line e = part @ rest \<and> ledger_file s = ledger_file s @ part"
      by (rule exI [of _ "[]"]) simp
    show "\<not> fst (ledger_put v env e s) \<Longrightarrow> \<exists>part rest. ledger_line e = part @ rest \<and>
        ledger_file (snd (ledger_put v env e s)) = ledger_file s @ part"
      using part none unfolding w by (simp split: if_splits)
    show "fst (ledger_put v env e s) \<Longrightarrow> nv_execution_ledger_record_count (snd (ledger_put v env e s)) =
        nv_execution_ledger_record_count s + 1"
      unfolding w by (simp split: if_splits)
    show "fst (ledger_put v env e s) \<Longrightarrow> nv_execution_ledger_audit_invalid (snd (ledger_put v env e s)) =
        nv_execution_ledger_audit_invalid s"
      unfolding w by (simp split: if_splits)
    show "\<not> fst (ledger_put v env e s) \<Longrightarrow> nv_execution_ledger_audit_invalid (snd (ledger_put v env e s))"
      unfolding w by (simp split: if_splits)
    show "\<not> fst (ledger_put v env e s) \<Longrightarrow> nv_execution_ledger_record_count (snd (ledger_put v env e s)) =
        nv_execution_ledger_record_count s"
      unfolding w by (simp split: if_splits)
  qed
qed


section \<open>Sizes\<close>

lemma length_dec_word:
  fixes w :: "'a::len word"
  assumes "2 ^ LENGTH('a) \<le> (10::nat) ^ k" and "0 < k"
  shows "length (dec_nat (unat w)) \<le> k"
proof (rule length_dec_nat [OF _ assms(2)])
  have "unat w < 2 ^ LENGTH('a)" by (rule unsigned_less)
  with assms(1) show "unat w < 10 ^ k" by linarith
qed

lemma length_dec_arm:
  assumes "0 \<le> a" and "a \<le> NV_ARM_MAX"
  shows "length (dec_int a) \<le> Suc 0"
  using assms length_dec_nat [of "nat a" 1] by (simp add: dec_int_def nat_less_iff)

lemma length_dec_int32:
  assumes "- (2 ^ 31) \<le> i" and "i < 2 ^ 31"
  shows "length (dec_int i) \<le> 11"
proof -
  have "nat i < 10 ^ 10" "nat (- i) < 10 ^ 10" using assms by (simp_all add: nat_less_iff)
  then have "length (dec_nat (nat i)) \<le> 10" "length (dec_nat (nat (- i))) \<le> 10"
    by (auto intro: length_dec_nat)
  then show ?thesis by (simp add: dec_int_def)
qed

lemma journal_record_fits:
  assumes g: "\<And>x. length (g17 x) \<le> 24"
    and arms: "0 \<le> upd_selected_arm u" "upd_selected_arm u < NV_ARM_MAX"
      "0 \<le> upd_actual_used_arm u" "upd_actual_used_arm u < NV_ARM_MAX"
  shows "length (journal_record g17 u before after) < 2048"
proof -
  have w64: "length (dec_nat (unat w)) \<le> 20" for w :: u64 by (rule length_dec_word) simp_all
  have w8: "length (dec_nat (unat w)) \<le> 3" for w :: u8 by (rule length_dec_word) simp_all
  have a: "length (dec_int (upd_selected_arm u)) \<le> 1" "length (dec_int (upd_actual_used_arm u)) \<le> 1"
    using arms length_dec_arm by simp_all
  have b: "length (json_bool (upd_arm_match u)) \<le> 5" by (simp add: json_bool_def)
  show ?thesis
    using w64 [of "upd_exec_seq u"] w64 [of "pulls before"] w64 [of "pulls after"]
      w64 [of "pos_cnt after"] w8 [of "upd_security_state_new u"] w8 [of "upd_update_source u"]
      a b g [of "upd_reward u"] g [of "upd_harness_native_coverage u"] g [of "upd_security_state u"]
      g [of "upd_exception u"] g [of "upd_recovery u"] g [of "upd_http_4xx_penalty u"]
      g [of "sum_reward before"] g [of "sum_reward after"] g [of "mean_reward after"]
    by (simp add: journal_record_def newline_def)
qed

lemma ledger_record_fits:
  assumes "\<not> ledger_rejects e" and "length outcome \<le> 400"
    and "- (2 ^ 31) \<le> le_http_status e" and "le_http_status e < 2 ^ 31"
  shows "length (ledger_record e outcome) < 1024"
proof -
  have w64: "length (dec_nat (unat w)) \<le> 20" for w :: u64 by (rule length_dec_word) simp_all
  have a: "length (dec_int (le_selected_arm e)) \<le> 1" "length (dec_int (le_actual_used_arm e)) \<le> 1"
    using assms(1) length_dec_arm [of "le_selected_arm e"] length_dec_arm [of "le_actual_used_arm e"]
    unfolding ledger_rejects_def by auto
  have b: "length (json_bool x) \<le> 5" for x by (simp add: json_bool_def)
  have s: "length (if le_status_observed e \<and> le_exec_seq e > 0
      then dec_nat (unat (le_exec_seq e)) else ''null'') \<le> 20"
    using w64 [of "le_exec_seq e"] by simp
  have c: "length (cleanup_reason_text (le_cleanup_reason e)) \<le> 23"
    by (simp add: cleanup_reason_text_def split: option.splits)
  show ?thesis
    using w64 [of "le_iteration_id e"] a s c assms(2) length_dec_int32 [OF assms(3,4)]
      b [of "le_actual_used_arm e = le_selected_arm e"] b [of "le_counted_execution e"]
      b [of "le_harness_invoked e"] b [of "le_target_invoked e"] b [of "le_body_validated e"]
      b [of "le_status_observed e"]
    unfolding ledger_record_def newline_def by (simp del: if_split)
qed



section \<open>What the appends leave alone\<close>

lemma append_event_frame [frame_simps]:
  "afl_mab (snd (nv_mab_journal_append_event env io ev r s a afl)) = afl_mab afl"
  "ledger_file (snd (nv_mab_journal_append_event env io ev r s a afl)) = ledger_file afl"
  "nv_execution_ledger_record_count (snd (nv_mab_journal_append_event env io ev r s a afl)) =
     nv_execution_ledger_record_count afl"
  by (auto simp: nv_mab_journal_append_event_def nv_mab_journal_write_def Let_def
      split: option.splits prod.splits if_splits)

lemma ledger_append_frame:
  "afl_mab (snd (nv_execution_ledger_append env io e afl)) = afl_mab afl"
  "nv_execution_ledger_record_count (snd (nv_execution_ledger_append env io e afl)) \<in>
     {nv_execution_ledger_record_count afl, nv_execution_ledger_record_count afl + 1}"
  by (auto simp: nv_execution_ledger_append_def Let_def split: option.splits prod.splits if_splits)

section \<open>Properties\<close>

definition update_admissible :: "nv_mab_journal_update \<Rightarrow> bool" where
  "update_admissible u \<longleftrightarrow>
     0 \<le> upd_selected_arm u \<and> upd_selected_arm u < NV_ARM_MAX \<and>
     0 \<le> upd_actual_used_arm u \<and> upd_actual_used_arm u < NV_ARM_MAX \<and>
     upd_arm_match u \<and> upd_exec_seq u \<noteq> 0"

text \<open>
  C9 Committing an update rewards the arm exactly once and never rolls it back: an update with
  arms in range that match and with an execution id reaches the bandit whatever the files answer,
  any other update leaves the whole state alone, and a commit that reports failure has marked
  the audit invalid and asked the fuzzer to stop.
\<close>

theorem commit_update_authoritative:
  assumes "nv_mab_journal_commit_update fp g17 env io (Some u) afl = (ok, afl')"
  shows "if update_admissible u
    then afl_mab afl' = nv_mab_update fp (afl_mab afl) (upd_actual_used_arm u) (upd_reward u) \<and>
      (\<not> ok \<longrightarrow> nv_mab_journal_audit_invalid afl' \<and> stop_soon afl' = 1)
    else \<not> ok \<and> afl' = afl"
  using assms
  by (auto simp: nv_mab_journal_commit_update_def nv_mab_journal_write_def update_admissible_def
      Let_def not_less not_le split: if_splits option.splits prod.splits)

definition start_audit :: nv_audit where
  "start_audit = \<lparr>afl_mab = calloc_mab, stop_soon = 0, journal_file = [],
     nv_mab_journal_enabled = False, nv_mab_journal_audit_invalid = False,
     nv_mab_journal_error_count = 0, nv_mab_journal_record_count = 0,
     nv_mab_journal_pending_cleared_count = 0, nv_mab_journal_mismatch_count = 0,
     ledger_file = [], nv_execution_ledger_enabled = False,
     nv_execution_ledger_audit_invalid = False, nv_execution_ledger_error_count = 0,
     nv_execution_ledger_record_count = 0\<rparr>"

definition sample_update :: nv_mab_journal_update where
  "sample_update = \<lparr>upd_exec_seq = 7, upd_selected_arm = 1, upd_actual_used_arm = 1,
     upd_arm_match = True, upd_reward = 10, upd_harness_native_coverage = 0,
     upd_security_state = 10, upd_exception = 0, upd_recovery = 0, upd_http_4xx_penalty = 0,
     upd_security_state_new = 1, upd_update_source = 1\<rparr>"

theorem commit_update_authoritative_witness:
  "total_pulls (afl_mab (snd (nv_mab_journal_commit_update exact_fpu (\<lambda>_. ''0'') (\<lambda>_. None)
     good_io (Some sample_update) start_audit))) = 1"
proof -
  obtain ok s where r: "nv_mab_journal_commit_update exact_fpu (\<lambda>_. ''0'') (\<lambda>_. None)
     good_io (Some sample_update) start_audit = (ok, s)" by force
  have "update_admissible sample_update" by (simp add: update_admissible_def sample_update_def)
  with commit_update_authoritative [OF r]
  have "afl_mab s = nv_mab_update exact_fpu calloc_mab 1 10"
    by (simp add: sample_update_def start_audit_def)
  then show ?thesis by (simp add: r nv_mab_update_def calloc_mab_def)
qed

text \<open>
  A journal whose audit is still valid is complete: after any sequence of appends under any
  behaviour of the file system, the file holds every line in order, whole, and the record count
  has grown by their number.
\<close>

theorem valid_journal_complete:
  assumes "getenv_nonempty env ''NV_MAB_JOURNAL_PATH'' = Some path"
    and "afl' = foldl (\<lambda>s (line, io). snd (nv_mab_journal_write env io line s)) afl lines"
    and "\<not> nv_mab_journal_audit_invalid afl'"
  shows "journal_file afl' = journal_file afl @ concat (map fst lines) \<and>
    nv_mab_journal_record_count afl' = nv_mab_journal_record_count afl + of_nat (length lines)"
proof -
  obtain v where "with_var ''NV_MAB_JOURNAL_PATH'' v env = env"
    using assms(1) by (rule with_var_idem)
  then have "afl' = append_all (journal_put v env) lines afl"
    by (simp add: assms(2) append_all_def journal_put_def case_prod_unfold)
  then show ?thesis using journal.valid_log_complete assms(3) by simp
qed

theorem valid_journal_complete_witness:
  "journal_file (foldl (\<lambda>s (line, io). snd (nv_mab_journal_write [''NV_MAB_JOURNAL_PATH'' \<mapsto> ''j''] io line s))
     start_audit [(''a'', good_io), (''b'', good_io)]) = ''ab''"
  using valid_journal_complete [of "[''NV_MAB_JOURNAL_PATH'' \<mapsto> ''j'']" "''j''" _ start_audit
      "[(''a'', good_io), (''b'', good_io)]", OF _ refl]
  by (simp add: getenv_nonempty_def nv_mab_journal_write_def start_audit_def)

text \<open>
  C8 A ledger whose audit is still valid holds exactly the entries handed to it, and each is
  well formed: an outcome, a positive iteration, arms in range, and an execution id only
  together with an observed status.
\<close>

theorem valid_ledger_complete:
  assumes "getenv_nonempty env ''NV_EXECUTION_LEDGER_PATH'' = Some path"
    and "afl' = foldl (\<lambda>s (e, io). snd (nv_execution_ledger_append env io e s)) afl es"
    and "\<not> nv_execution_ledger_audit_invalid afl'"
  shows "ledger_file afl' = ledger_file afl @ concat (map ledger_line es) \<and>
    nv_execution_ledger_record_count afl' = nv_execution_ledger_record_count afl + of_nat (length es) \<and>
    (\<forall>(e, io) \<in> set es. \<not> ledger_rejects e \<and>
      (le_status_observed (ledger_normal e) \<longleftrightarrow> le_exec_seq e \<noteq> 0))"
proof -
  obtain v where v: "with_var ''NV_EXECUTION_LEDGER_PATH'' v env = env"
    using assms(1) by (rule with_var_idem)
  then have run: "afl' = append_all (ledger_put v env) es afl"
    by (simp add: assms(2) append_all_def ledger_put_def case_prod_unfold)
  have "\<not> ledger_rejects e \<and> (le_status_observed (ledger_normal e) \<longleftrightarrow> le_exec_seq e \<noteq> 0)"
    if mem: "(e, io) \<in> set es" for e io
  proof -
    obtain s :: "'a nv_audit_scheme" where s: "fst (ledger_put v env (e, io) s)"
      using ledger.valid_log_all_ok [of v env es afl "(e, io)"] assms(3) mem run by blast
    obtain ok out where a: "append_line io (ledger_line (e, io)) (ledger_file s) = (ok, out)" by force
    have "\<not> ledger_refused e"
      using s ledger_append_cases [OF assms(1) a] v by (auto simp: ledger_put_def split: if_splits)
    then show ?thesis by (auto simp: ledger_refused_def ledger_normal_def ledger_rejects_def)
  qed
  then show ?thesis using ledger.valid_log_complete [of v env es afl] assms(3) run by auto
qed

definition sample_entry :: ledger_entry where
  "sample_entry = \<lparr>le_iteration_id = 1, le_selected_arm = 0, le_actual_used_arm = 0,
     le_counted_execution = True, le_harness_invoked = True, le_target_invoked = True,
     le_body_validated = True, le_status_observed = True, le_exec_seq = 1, le_http_status = 200,
     le_outcome = Some ''mab_update'', le_cleanup_reason = None\<rparr>"

theorem valid_ledger_complete_witness:
  "ledger_file (foldl (\<lambda>s (e, io). snd (nv_execution_ledger_append [''NV_EXECUTION_LEDGER_PATH'' \<mapsto> ''l''] io e s))
     start_audit [(sample_entry, good_io)]) = ledger_line (sample_entry, good_io)"
proof -
  let ?env = "[''NV_EXECUTION_LEDGER_PATH'' \<mapsto> ''l'']"
  let ?s = "snd (nv_execution_ledger_append ?env good_io sample_entry start_audit)"
  have env: "getenv_nonempty ?env ''NV_EXECUTION_LEDGER_PATH'' = Some ''l''"
    by (simp add: getenv_nonempty_def)
  have ok: "\<not> ledger_rejects sample_entry" "\<not> ledger_refused sample_entry"
    by (simp_all add: ledger_rejects_def ledger_refused_def sample_entry_def)
  have "length (ledger_line (sample_entry, good_io)) < 1024"
    unfolding ledger_line_def
    by (rule ledger_record_fits) (simp_all add: ledger_normal_def ledger_rejects_def sample_entry_def)
  then have "\<not> nv_execution_ledger_audit_invalid ?s"
    using ledger_append_cases [OF env append_line_good, of sample_entry start_audit] ok
    by (simp add: start_audit_def)
  then show ?thesis
    using valid_ledger_complete [OF env, of ?s start_audit "[(sample_entry, good_io)]"]
    by (simp add: start_audit_def)
qed

text \<open>
  After \<open>nv_mab_journal_clear_pending\<close> nothing is pending, whatever the files answered: the
  reward statistics are untouched, a second call changes nothing, and the ledger gains at most
  one record, none if the execution already has its terminal record.
\<close>

theorem clear_pending_once:
  assumes "nv_mab_journal_clear_pending env ios reason afl = (ok, afl')"
  shows "\<not> pending_update (afl_mab afl') \<and>
    arms (afl_mab afl') = arms (afl_mab afl) \<and> total_pulls (afl_mab afl') = total_pulls (afl_mab afl) \<and>
    nv_mab_journal_clear_pending env ios2 reason2 afl' = (True, afl') \<and>
    nv_execution_ledger_record_count afl' \<in>
      {nv_execution_ledger_record_count afl, nv_execution_ledger_record_count afl + 1} \<and>
    (pending_ledger_terminal_recorded (afl_mab afl) \<longrightarrow> ledger_file afl' = ledger_file afl)"
proof (cases "pending_update (afl_mab afl)")
  case True
  let ?m = "afl_mab afl"
  let ?sel = "if pending_selected_valid ?m then pending_selected_arm ?m else pending_arm ?m"
  obtain ok1 a1 where e1: "nv_mab_journal_append_event env (fst ios) (Some ''mab_pending_cleared'')
      reason ?sel (pending_arm ?m) afl = (ok1, a1)" by force
  note j = append_event_frame [of env "fst ios" "Some ''mab_pending_cleared''" reason ?sel
      "pending_arm ?m" afl, unfolded e1 snd_conv]
  let ?e = "\<lparr>le_iteration_id = pending_iteration ?m, le_selected_arm = ?sel,
     le_actual_used_arm = pending_arm ?m, le_counted_execution = False, le_harness_invoked = True,
     le_target_invoked = False, le_body_validated = False, le_status_observed = False,
     le_exec_seq = 0, le_http_status = 0, le_outcome = Some ''pending_cleanup'',
     le_cleanup_reason = reason\<rparr>"
  let ?go = "ok1 \<and> pending_iteration ?m \<noteq> 0 \<and> \<not> pending_ledger_terminal_recorded (afl_mab a1) \<and>
      env ''NV_EXECUTION_LEDGER_PATH'' \<noteq> None"
  obtain ok2 a2 where e2: "(if ?go then nv_execution_ledger_append env (snd ios) ?e a1
      else (ok1, a1)) = (ok2, a2)" by force
  have r: "afl' = a2\<lparr>afl_mab := (afl_mab a2)\<lparr>pending_update := False, pending_iteration := 0,
      pending_selected_arm := NV_ARM_FIELD_VALUE, pending_selected_valid := False,
      pending_ledger_terminal_recorded := False, update_source := 0\<rparr>\<rparr>"
    using assms True e1 e2 by (simp add: nv_mab_journal_clear_pending_def Let_def)
  have l: "afl_mab a2 = ?m \<and> nv_execution_ledger_record_count a2 \<in>
      {nv_execution_ledger_record_count a1, nv_execution_ledger_record_count a1 + 1}"
    using ledger_append_frame [of env "snd ios" ?e a1] e2 j by (auto split: if_splits)
  moreover have "ledger_file a2 = ledger_file a1" if "pending_ledger_terminal_recorded ?m"
    using e2 j that by simp
  ultimately show ?thesis using j by (simp add: r nv_mab_journal_clear_pending_def)
next
  case False
  then show ?thesis using assms by (simp add: nv_mab_journal_clear_pending_def)
qed

theorem clear_pending_once_witness:
  "\<not> pending_update (afl_mab (snd (nv_mab_journal_clear_pending (\<lambda>_. None) (good_io, good_io)
     (Some ''timeout'') (start_audit\<lparr>afl_mab := nv_mab_begin_pending 1 1 5 1 calloc_mab\<rparr>))))"
  using clear_pending_once [OF prod.collapse [symmetric]] by blast

text \<open>
  The record buffers are large enough: with \<open>%.17g\<close> conversions of at most 24 characters
  every update record fits its 2048 bytes, and every admitted ledger record fits its 1024 bytes
  for outcome words up to 400 characters and any 32-bit status code, so neither append can be
  lost to truncation.
\<close>

theorem audit_records_fit:
  assumes "\<And>x. length (g17 x) \<le> 24" and "update_admissible u"
    and "\<not> ledger_rejects e" and "length outcome \<le> 400"
    and "- (2 ^ 31) \<le> le_http_status e" and "le_http_status e < 2 ^ 31"
  shows "length (journal_record g17 u before after) < 2048 \<and>
    length (ledger_record e outcome) < 1024"
  using journal_record_fits [of g17 u before after] ledger_record_fits [of e outcome] assms
  by (simp add: update_admissible_def)

theorem audit_records_fit_witness:
  "length (ledger_record sample_entry ''mab_update'') < 1024"
proof -
  have "update_admissible sample_update" by (simp add: update_admissible_def sample_update_def)
  then show ?thesis
    using audit_records_fit [of "\<lambda>_. ''0''" sample_update sample_entry "''mab_update''"]
    by (simp add: ledger_rejects_def sample_entry_def)
qed

end
