(* ===== verification/Json.thy ===== *)
theory Json
  imports Clib
begin

text \<open>
  The documents the program reads through cJSON (a vendored library: its parser is an argument
  of every operation that reads a document). Here are the value it returns and the accessors
  the program uses on it, and the C conversions of its numbers.
\<close>

section \<open>Values\<close>

text \<open>A number has its \<open>valuedouble\<close> and its \<open>valueint\<close>; a string its \<open>valuestring\<close> pointer.\<close>

datatype json =
    JFalse
  | JTrue
  | JNull
  | JNumber c_double int
  | JString "c_string ptr"
  | JArray "json list"
  | JObject "(c_string \<times> json) list"

type_synonym json_parser = "c_string \<Rightarrow> json option"

fun json_get :: "json \<Rightarrow> c_string \<Rightarrow> json ptr" where
  "json_get (JObject members) name = map_of members name"
| "json_get _ name = None"

text \<open>\<open>cJSON_IsString (x) && x->valuestring\<close>, and the string.\<close>

fun json_string :: "json ptr \<Rightarrow> c_string ptr" where
  "json_string (Some (JString s)) = s"
| "json_string _ = None"

text \<open>\<open>cJSON_IsNumber (x)\<close>, and \<open>valuedouble\<close> or \<open>valueint\<close>.\<close>

fun json_double :: "json ptr \<Rightarrow> c_double option" where
  "json_double (Some (JNumber d i)) = Some d"
| "json_double _ = None"

fun json_int :: "json ptr \<Rightarrow> int option" where
  "json_int (Some (JNumber d i)) = Some i"
| "json_int _ = None"

definition json_is_true :: "json ptr \<Rightarrow> bool" where
  "json_is_true j \<longleftrightarrow> j = Some JTrue"

definition json_is_bool :: "json ptr \<Rightarrow> bool" where
  "json_is_bool j \<longleftrightarrow> j = Some JTrue \<or> j = Some JFalse"

section \<open>Doubles in comparisons and casts\<close>

text \<open>\<open>Infinite True\<close> is minus infinity; every comparison with a NaN is false.\<close>

fun cd_le :: "c_double \<Rightarrow> c_double \<Rightarrow> bool" where
  "cd_le NotANumber _ = False"
| "cd_le _ NotANumber = False"
| "cd_le (Finite x) (Finite y) = (x \<le> y)"
| "cd_le (Infinite True) _ = True"
| "cd_le (Infinite False) y = (y = Infinite False)"
| "cd_le (Finite x) (Infinite neg) = (\<not> neg)"

fun cd_less :: "c_double \<Rightarrow> c_double \<Rightarrow> bool" where
  "cd_less NotANumber _ = False"
| "cd_less _ NotANumber = False"
| "cd_less (Finite x) (Finite y) = (x < y)"
| "cd_less (Infinite True) y = (y \<noteq> Infinite True)"
| "cd_less (Infinite False) y = False"
| "cd_less (Finite x) (Infinite neg) = (\<not> neg)"

fun cd_nonzero :: "c_double \<Rightarrow> bool" where
  "cd_nonzero (Finite x) = (x \<noteq> 0)"
| "cd_nonzero _ = True"

fun cd_finite :: "c_double \<Rightarrow> bool" where
  "cd_finite (Finite x) = True"
| "cd_finite _ = False"

text \<open>
  The integer cast truncates towards zero and keeps the low bits; of values outside the range
  of the type, for which C leaves the result open, the non-finite ones give 0.
\<close>

definition trunc :: "real \<Rightarrow> int" where
  "trunc x = (if 0 \<le> x then \<lfloor>x\<rfloor> else \<lceil>x\<rceil>)"

fun cd_word :: "c_double \<Rightarrow> 'a::len word" where
  "cd_word (Finite x) = of_int (trunc x)"
| "cd_word _ = 0"

fun cd_int :: "c_double \<Rightarrow> int" where
  "cd_int (Finite x) = trunc x"
| "cd_int _ = 0"

definition json_word :: "json ptr \<Rightarrow> 'a::len word" where
  "json_word j = (case json_double j of Some d \<Rightarrow> cd_word d | None \<Rightarrow> 0)"

lemma cd_word_nat [simp]: "cd_word (Finite (real n)) = of_nat n"
  by (simp add: trunc_def)

section \<open>Strings\<close>

definition str_prefix :: "c_string \<Rightarrow> c_string \<Rightarrow> bool" where
  "str_prefix p s \<longleftrightarrow> take (length p) s = p"

text \<open>\<open>strstr (s, w) != NULL\<close>.\<close>

fun str_contains :: "c_string \<Rightarrow> c_string \<Rightarrow> bool" where
  "str_contains w [] = (w = [])"
| "str_contains w (ch # s) = (str_prefix w (ch # s) \<or> str_contains w s)"

text \<open>\<open>snprintf\<close> into a buffer of \<open>n\<close> bytes: the text that arrives.\<close>

definition buf_cut :: "nat \<Rightarrow> c_string \<Rightarrow> c_string" where
  "buf_cut n s = take (n - 1) s"

lemma buf_cut_id [simp]: "length s < n \<Longrightarrow> buf_cut n s = s"
  by (simp add: buf_cut_def)

lemma length_buf_cut: "0 < n \<Longrightarrow> length (buf_cut n s) < n"
  by (simp add: buf_cut_def)

text \<open>\<open>strtoul (s, &end, 0)\<close>: the base comes from the prefix; an overflow saturates.\<close>

definition strtoul0 :: "c_string \<Rightarrow> u64 \<times> c_string" where
  "strtoul0 s =
     (let (neg, r) = read_sign (skip_spaces s);
          hex = (strip_word ''0x'' r \<noteq> None \<and> takeWhile c_isxdigit (drop 2 r) \<noteq> []);
          oct = (r \<noteq> [] \<and> hd r = CHR ''0'');
          (base, isd, val, body) =
            (if hex then (16, c_isxdigit, hex_digit_val, drop 2 r)
             else if oct then (8, (\<lambda>ch. c_isdigit ch \<and> digit_val ch < 8), digit_val, r)
             else (10, c_isdigit, digit_val, r));
          ds = takeWhile isd body
      in if ds = [] then (0, s)
         else let n = digits_val base val ds;
                  rest = dropWhile isd body
              in if n > 2 ^ 64 - 1 then (- 1, rest)
                 else (if neg then - of_nat n else of_nat n, rest))"

end
