(* ===== verification/Nv_Task.thy ===== *)
theory Nv_Task
  imports Nv_Audit Json
begin

text \<open>
  The task file and the target configuration of \<open>src/src/afl-fuzz.c\<close>: mutation scope, target
  type, tunables with their precedence, and the endpoint allowlist.
\<close>

section \<open>State\<close>

datatype nv_target_type = NV_TARGET_UNKNOWN | NV_TARGET_HTTP_API | NV_TARGET_BINARY

record nv_task_cfg =
  target_type :: nv_target_type
  target_endpoint :: "c_string ptr"
  seed_source :: "c_string ptr"
  seed_location :: "c_string ptr"
  mutation_scope :: u32
  max_test_cases :: u64
  time_budget_sec :: u64
  enable_validity :: bool
  validity_threshold :: c_double
  validity_endpoint :: "c_string ptr"

record nv_config = nv_audit +
  nv_task :: nv_task_cfg
  nv_task_path :: "c_string ptr"
  nv_tcfg_loaded :: bool
  nv_allow_cnt :: u32
  nv_allow_pairs :: "c_string ptr list"
  nv_target_cfg_path :: "c_string ptr"

text \<open>What the program finds on disk: the content of a file it can open.\<close>

type_synonym files = "c_string \<Rightarrow> c_string option"

datatype fatal = Fatal c_string

section \<open>Scope and target type\<close>

definition nv_parse_scope_one_text :: "c_string ptr \<Rightarrow> u32" where
  "nv_parse_scope_one_text s_ptr =
     (case s_ptr of None \<Rightarrow> 0
      | Some s \<Rightarrow>
          if s = [] then 0
          else let (vv, rest) = strtoul0 s in
            if rest \<noteq> s \<and> rest = [] then (ucast vv :: u32) AND 0x7
            else
              let msk = 0;
                  msk = (if str_contains ''field'' s \<or> str_contains ''field_value'' s
                         then msk OR 0x1 else msk);
                  msk = (if str_contains ''bound'' s \<or> str_contains ''boundary'' s
                         then msk OR 0x2 else msk);
                  msk = (if str_contains ''struct'' s \<or> str_contains ''structure'' s
                         then msk OR 0x4 else msk)
              in msk AND 0x7)"

text \<open>One round of \<open>cJSON_ArrayForEach\<close>.\<close>

definition scope_item :: "json \<Rightarrow> u32 \<Rightarrow> u32" where
  "scope_item it msk =
     (case it of
        JString (Some s) \<Rightarrow> msk OR nv_parse_scope_one_text (Some s)
      | JNumber d i \<Rightarrow> msk OR (cd_word d AND 0x7)
      | _ \<Rightarrow> msk)"

definition nv_parse_scope :: "json ptr \<Rightarrow> u32" where
  "nv_parse_scope scope_ptr =
     (let DEFAULT_SCOPE = 0x7 in
      case scope_ptr of
        None \<Rightarrow> DEFAULT_SCOPE
      | Some (JNumber d i) \<Rightarrow>
          let v = cd_word d AND 0x7 in if v = 0 then DEFAULT_SCOPE else v
      | Some (JString (Some s)) \<Rightarrow>
          let msk = nv_parse_scope_one_text (Some s) in if msk = 0 then DEFAULT_SCOPE else msk
      | Some (JArray items) \<Rightarrow>
          let msk = fold scope_item items 0
          in if msk = 0 then DEFAULT_SCOPE else msk AND 0x7
      | _ \<Rightarrow> DEFAULT_SCOPE)"

definition nv_parse_target_type :: "json ptr \<Rightarrow> nv_target_type" where
  "nv_parse_target_type tt =
     (case tt of
        None \<Rightarrow> NV_TARGET_UNKNOWN
      | Some (JNumber d v) \<Rightarrow>
          if v = 1 then NV_TARGET_HTTP_API else if v = 2 then NV_TARGET_BINARY
          else NV_TARGET_UNKNOWN
      | Some (JString (Some s)) \<Rightarrow>
          if s = ''http_api'' \<or> s = ''http'' \<or> s = ''rest'' then NV_TARGET_HTTP_API
          else if s = ''binary'' then NV_TARGET_BINARY
          else NV_TARGET_UNKNOWN
      | _ \<Rightarrow> NV_TARGET_UNKNOWN)"

section \<open>The endpoint allowlist\<close>

definition allow_rule_matches :: "c_string \<Rightarrow> c_string \<Rightarrow> bool" where
  "allow_rule_matches rule key \<longleftrightarrow>
     rule = key \<or>
     (rule \<noteq> [] \<and> last rule = CHR ''*'' \<and>
      take (length rule - 1) rule = take (length rule - 1) key)"

definition nv_is_allowed_pair :: "'a nv_config_scheme \<Rightarrow> c_string \<Rightarrow> c_string \<Rightarrow> bool" where
  "nv_is_allowed_pair afl method path =
     (if \<not> nv_tcfg_loaded afl then True
      else
        let key = buf_cut 1024 (method @ '' '' @ path) in
        list_ex (\<lambda>i. case nv_allow_pairs afl ! i of
                       None \<Rightarrow> False | Some rule \<Rightarrow> allow_rule_matches rule key)
          [0..<unat (nv_allow_cnt afl)])"

text \<open>An entry of \<open>endpoints\<close> that has both strings.\<close>

definition endpoint_key :: "json \<Rightarrow> (c_string \<times> c_string) option" where
  "endpoint_key it =
     (case it of
        JObject members \<Rightarrow>
          (case (json_string (json_get it ''method''), json_string (json_get it ''path'')) of
             (Some ms, Some ps) \<Rightarrow> Some (ms, ps) | _ \<Rightarrow> None)
      | _ \<Rightarrow> None)"

text \<open>The second pass writes the keys into the array that was sized by the first.\<close>

fun fill_allow_pairs :: "json list \<Rightarrow> u32 \<Rightarrow> u32 \<Rightarrow> c_string ptr list \<Rightarrow> c_string ptr list" where
  "fill_allow_pairs [] idx cnt pairs = pairs"
| "fill_allow_pairs (it # eps) idx cnt pairs =
     (case endpoint_key it of
        None \<Rightarrow> fill_allow_pairs eps idx cnt pairs
      | Some (ms, ps) \<Rightarrow>
          let pairs = pairs[unat idx := Some (buf_cut 1024 (ms @ '' '' @ ps))]; idx = idx + 1
          in if idx \<ge> cnt then pairs else fill_allow_pairs eps idx cnt pairs)"

definition nv_load_target_cfg :: "env_vars \<Rightarrow> files \<Rightarrow> json_parser \<Rightarrow> 'a nv_config_scheme \<Rightarrow>
    'a nv_config_scheme" where
  "nv_load_target_cfg env fs parse afl =
     (if nv_tcfg_loaded afl then afl
      else case getenv_nonempty env ''NV_TARGET_CONFIG'' of
        None \<Rightarrow> afl\<lparr>nv_tcfg_loaded := False\<rparr>
      | Some p \<Rightarrow>
          let afl = afl\<lparr>nv_target_cfg_path := Some p\<rparr> in
          (case fs p of
             None \<Rightarrow> afl\<lparr>nv_tcfg_loaded := False\<rparr>
           | Some buf \<Rightarrow>
               if buf = [] \<or> length buf > 1024 * 1024 then afl\<lparr>nv_tcfg_loaded := False\<rparr>
               else (case parse buf of
                  None \<Rightarrow> afl\<lparr>nv_tcfg_loaded := False\<rparr>
                | Some doc \<Rightarrow>
                    (case json_get doc ''endpoints'' of
                       Some (JArray eps) \<Rightarrow>
                         let cnt = fold (\<lambda>it c. if endpoint_key it = None then c else c + 1) eps 0;
                             pairs = fill_allow_pairs eps 0 cnt (replicate (unat cnt) None)
                         in afl\<lparr>nv_allow_cnt := cnt, nv_allow_pairs := pairs, nv_tcfg_loaded := True\<rparr>
                     | _ \<Rightarrow> afl\<lparr>nv_tcfg_loaded := False\<rparr>))))"

section \<open>The task file\<close>

definition set_if :: "c_string ptr \<Rightarrow> c_string ptr \<Rightarrow> c_string ptr" where
  "set_if new old = (case new of Some s \<Rightarrow> Some s | None \<Rightarrow> old)"

text \<open>The bandit part: defaults and environment, then \<open>task.json\<close>, then a fresh start.\<close>

definition nv_task_mab :: "fpu \<Rightarrow> env_vars \<Rightarrow> json \<Rightarrow> u32 \<Rightarrow> nv_mab \<Rightarrow> nv_mab" where
  "nv_task_mab fp env doc scope mab =
     (let mab = mab\<lparr>enabled_mask := scope, total_pulls := 0\<rparr>;
          mab = nv_mab_init_defaults fp env mab;
          mab = (case json_double (json_get doc ''mab_c'') of
                   Some (Finite c) \<Rightarrow>
                     if c > 0 \<and> nv_mab_env_c fp env = None then mab\<lparr>mab_c := c\<rparr> else mab
                 | _ \<Rightarrow> mab);
          mab = (case json_double (json_get doc ''mab_min_explore'') of
                   Some (Finite x) \<Rightarrow>
                     if x \<ge> 1 \<and> x \<le> of_int NV_MAB_MAX_MIN_EXPLORE \<and> nv_mab_env_min_explore env = None
                     then mab\<lparr>min_explore := of_int (trunc x)\<rparr> else mab
                 | _ \<Rightarrow> mab)
      in mab\<lparr>cold_start_picks := 0, ucb_picks := 0, last_arm := NV_ARM_FIELD_VALUE,
             pending_arm := NV_ARM_FIELD_VALUE, pending_update := False, update_source := 0,
             arms := replicate 3 zero_arm\<rparr>)"

definition nv_task_fields :: "json \<Rightarrow> nv_task_cfg \<Rightarrow> nv_task_cfg" where
  "nv_task_fields doc task =
     (let field = json_get doc;
          task = task\<lparr>target_type := nv_parse_target_type (field ''target_type''),
            target_endpoint := set_if (json_string (field ''target_endpoint'')) (target_endpoint task),
            seed_source := set_if (json_string (field ''seed_source'')) (seed_source task),
            seed_location := set_if (json_string (field ''seed_location'')) (seed_location task),
            mutation_scope := nv_parse_scope (field ''mutation_scope'')\<rparr>;
          task = (case json_double (field ''max_test_cases'') of
                    Some d \<Rightarrow> task\<lparr>max_test_cases := cd_word d\<rparr> | None \<Rightarrow> task);
          task = (case json_double (field ''time_budget'') of
                    Some d \<Rightarrow> task\<lparr>time_budget_sec := cd_word d\<rparr> | None \<Rightarrow> task);
          ev = field ''enable_validity'';
          task = task\<lparr>enable_validity :=
                   (if json_is_bool ev then json_is_true ev
                    else case json_double ev of Some d \<Rightarrow> cd_nonzero d | None \<Rightarrow> False)\<rparr>;
          task = task\<lparr>validity_threshold :=
                   (case json_double (field ''validity_threshold'') of
                      Some d \<Rightarrow> d | None \<Rightarrow> Finite 0)\<rparr>
      in task\<lparr>validity_endpoint := json_string (field ''validity_endpoint'')\<rparr>)"

definition nv_load_task_json :: "fpu \<Rightarrow> env_vars \<Rightarrow> files \<Rightarrow> json_parser \<Rightarrow> c_string \<Rightarrow>
    'a nv_config_scheme \<Rightarrow> fatal + 'a nv_config_scheme" where
  "nv_load_task_json fp env fs parse path afl =
     (case fs path of
        None \<Rightarrow> Inl (Fatal (''Cannot open nv_task file: '' @ path))
      | Some data \<Rightarrow>
          (case parse data of
             None \<Rightarrow> Inl (Fatal (''nv_task JSON parse failed: '' @ path))
           | Some doc \<Rightarrow>
               let task = nv_task_fields doc (nv_task afl);
                   afl = afl\<lparr>nv_task := task,
                     afl_mab := nv_task_mab fp env doc (mutation_scope task) (afl_mab afl)\<rparr>;
                   afl = (if path = [] then afl else afl\<lparr>nv_task_path := Some path\<rparr>)
               in Inr (nv_load_target_cfg env fs parse afl)))"

section \<open>The scope always has an arm\<close>

lemma u32_low3: "(x :: u32) AND 7 = 0 \<longleftrightarrow> x AND 1 = 0 \<and> x AND 2 = 0 \<and> x AND 4 = 0"
proof -
  have "(7 :: u32) = 1 OR (2 OR 4)" by simp
  then show ?thesis by (simp only: bit.conj_disj_distrib or_eq_0_iff)
qed

lemma and_7_idem: "(x :: u32) AND 7 AND 7 = x AND 7"
  by (rule bit_word_eqI) (auto simp: bit_simps)

lemma scope_one_text_low: "nv_parse_scope_one_text s AND 7 = nv_parse_scope_one_text s"
  by (cases s) (simp_all add: nv_parse_scope_one_text_def Let_def split_beta and_7_idem)

lemma scope_items_low: "msk AND 7 = msk \<Longrightarrow> fold scope_item items msk AND 7 = fold scope_item items msk"
proof (induction items arbitrary: msk)
  case (Cons it items)
  have "(x OR y) AND 7 = x OR y" if "x AND 7 = x" "y AND 7 = y" for x y :: u32
    using that by (simp only: bit.conj_disj_distrib2)
  then have "scope_item it msk AND 7 = scope_item it msk"
    using Cons.prems scope_one_text_low and_7_idem
    by (auto simp: scope_item_def split: json.splits option.splits)
  then show ?case using Cons.IH by simp
qed simp

lemma scope_nonzero: "nv_parse_scope j \<noteq> 0"
  using scope_items_low [of 0]
  by (auto simp: nv_parse_scope_def Let_def split: option.splits json.splits if_splits)

lemma scope_low: "nv_parse_scope j AND 7 = nv_parse_scope j"
  using scope_one_text_low [of "Some _"]
  by (auto simp: nv_parse_scope_def Let_def and_7_idem
      split: option.splits json.splits if_splits)

lemma scope_enables: "x \<noteq> 0 \<Longrightarrow> x AND 7 = x \<Longrightarrow> \<exists>a \<in> set arm_ids. nv_arm_enabled x a"
  using u32_low3 [of x] by (auto simp: arm_ids_def nv_arm_enabled_def)

section \<open>Loading the allowlist\<close>

definition endpoint_keys :: "json list \<Rightarrow> (c_string \<times> c_string) list" where
  "endpoint_keys eps = List.map_filter endpoint_key eps"

definition allow_key :: "c_string \<times> c_string \<Rightarrow> c_string" where
  "allow_key e = buf_cut 1024 (fst e @ '' '' @ snd e)"

lemma endpoint_keys_simps [simp]:
  "endpoint_keys [] = []"
  "endpoint_keys (it # eps) =
     (case endpoint_key it of None \<Rightarrow> endpoint_keys eps | Some e \<Rightarrow> e # endpoint_keys eps)"
  by (simp_all add: endpoint_keys_def List.map_filter_def split: option.splits)

lemma endpoint_keys_length: "length (endpoint_keys eps) \<le> length eps"
  by (induction eps) (auto split: option.splits)

lemma count_endpoints:
  "fold (\<lambda>it (c :: u32). if endpoint_key it = None then c else c + 1) eps c =
    c + of_nat (length (endpoint_keys eps))"
  by (induction eps arbitrary: c) (auto split: option.splits)

lemma fill_allow_pairs_eq:
  assumes "unat cnt = unat idx + length (endpoint_keys eps)" and "length pairs = unat cnt"
  shows "fill_allow_pairs eps idx cnt pairs =
    take (unat idx) pairs @ map (Some \<circ> allow_key) (endpoint_keys eps)"
  using assms
proof (induction eps arbitrary: idx pairs)
  case Nil
  then show ?case by simp
next
  case (Cons it eps)
  show ?case
  proof (cases "endpoint_key it")
    case None
    then show ?thesis using Cons by simp
  next
    case (Some e)
    let ?p = "pairs[unat idx := Some (allow_key e)]"
    have lt: "unat idx < unat cnt" using Cons.prems Some by simp
    have "unat cnt < 2 ^ LENGTH(32)" by (rule unsigned_less)
    then have "unat idx < 2 ^ LENGTH(32) - 1" using lt by linarith
    then have suc: "unat (idx + 1) = Suc (unat idx)" by (rule unat_Suc_word)
    have t: "take (Suc (unat idx)) ?p = take (unat idx) pairs @ [Some (allow_key e)]"
      using lt Cons.prems(2) by (simp add: take_Suc_conv_app_nth)
    have step: "fill_allow_pairs (it # eps) idx cnt pairs =
        (if idx + 1 \<ge> cnt then ?p else fill_allow_pairs eps (idx + 1) cnt ?p)"
      using Some by (cases e) (simp add: allow_key_def Let_def)
    show ?thesis
    proof (cases "endpoint_keys eps = []")
      case True
      then have c: "unat cnt = Suc (unat idx)" using Cons.prems Some by simp
      then have "cnt \<le> idx + 1" using suc by (simp add: word_le_nat_alt)
      moreover have "?p = take (Suc (unat idx)) ?p" using c Cons.prems(2) by simp
      ultimately show ?thesis using step t True Some by simp
    next
      case False
      then have "0 < length (endpoint_keys eps)" by simp
      then have "unat (idx + 1) < unat cnt" using Cons.prems(1) Some suc by simp
      then have "\<not> cnt \<le> idx + 1" by (simp add: word_le_nat_alt)
      moreover have "fill_allow_pairs eps (idx + 1) cnt ?p =
          take (unat (idx + 1)) ?p @ map (Some \<circ> allow_key) (endpoint_keys eps)"
        using Cons.prems Some suc by (intro Cons.IH) simp_all
      ultimately show ?thesis using step t suc Some by simp
    qed
  qed
qed

lemma load_cfg_pairs:
  assumes "\<not> nv_tcfg_loaded afl" and "getenv_nonempty env ''NV_TARGET_CONFIG'' = Some p"
    and "fs p = Some buf" and "buf \<noteq> []" and "length buf \<le> 1024 * 1024"
    and "parse buf = Some doc" and "json_get doc ''endpoints'' = Some (JArray eps)"
    and "length eps < 2 ^ 32"
  shows "nv_tcfg_loaded (nv_load_target_cfg env fs parse afl)"
    and "nv_allow_pairs (nv_load_target_cfg env fs parse afl) = map (Some \<circ> allow_key) (endpoint_keys eps)"
    and "unat (nv_allow_cnt (nv_load_target_cfg env fs parse afl)) = length (endpoint_keys eps)"
proof -
  let ?n = "length (endpoint_keys eps)" and ?c = "of_nat (length (endpoint_keys eps)) :: u32"
  have "?n < 2 ^ 32" using assms(8) endpoint_keys_length [of eps] by simp
  then have n: "unat ?c = ?n" by (simp add: unsigned_of_nat take_bit_eq_mod)
  have f: "fill_allow_pairs eps 0 ?c (replicate (unat ?c) None) = map (Some \<circ> allow_key) (endpoint_keys eps)"
    using fill_allow_pairs_eq [of ?c 0 eps "replicate (unat ?c) None"] n by simp
  have l: "nv_load_target_cfg env fs parse afl = afl\<lparr>nv_target_cfg_path := Some p,
      nv_allow_cnt := ?c, nv_allow_pairs := map (Some \<circ> allow_key) (endpoint_keys eps),
      nv_tcfg_loaded := True\<rparr>"
    using assms f by (simp add: nv_load_target_cfg_def count_endpoints Let_def)
  show "nv_tcfg_loaded (nv_load_target_cfg env fs parse afl)"
    "nv_allow_pairs (nv_load_target_cfg env fs parse afl) = map (Some \<circ> allow_key) (endpoint_keys eps)"
    "unat (nv_allow_cnt (nv_load_target_cfg env fs parse afl)) = ?n"
    unfolding l using n by simp_all
qed

section \<open>Properties\<close>

text \<open>
  Whatever \<open>mutation_scope\<close> says (a number, a word, a list, nonsense or nothing), the scope
  the task ends up with is a non-empty set of the three arms.
\<close>

theorem scope_never_empty:
  "nv_parse_scope j \<noteq> 0 \<and> nv_parse_scope j AND 0x7 = nv_parse_scope j \<and>
   (\<exists>a \<in> set arm_ids. nv_arm_enabled (effective_mask (nv_parse_scope j)) a)"
  using scope_nonzero [of j] scope_low [of j] scope_enables [of "nv_parse_scope j"]
  by (simp add: effective_mask_def)

text \<open>
  The bandit's tunables obey the documented precedence: a valid environment override wins
  over a valid \<open>task.json\<close> value, which wins over the compiled default; an invalid value of
  either layer counts as absent. Loading starts the bandit afresh, with the task's scope.
\<close>

theorem task_precedence:
  assumes "fs path = Some data" and "parse data = Some doc"
    and "nv_load_task_json fp env fs parse path afl = Inr afl'"
  defines "m \<equiv> afl_mab afl'" and "c \<equiv> json_double (json_get doc ''mab_c'')"
    and "e \<equiv> json_double (json_get doc ''mab_min_explore'')"
  shows "mab_c m = (case (nv_mab_env_c fp env, c) of
        (Some v, _) \<Rightarrow> v
      | (None, Some (Finite x)) \<Rightarrow> if x > 0 then x else rnd fp (5 / 100)
      | _ \<Rightarrow> rnd fp (5 / 100)) \<and>
    min_explore m = (case (nv_mab_env_min_explore env, e) of
        (Some v, _) \<Rightarrow> v
      | (None, Some (Finite x)) \<Rightarrow> if 1 \<le> x \<and> x \<le> 1000000 then of_int \<lfloor>x\<rfloor> else 8
      | _ \<Rightarrow> 8) \<and>
    initialized m \<and> arms m = replicate 3 zero_arm \<and> total_pulls m = 0 \<and> \<not> pending_update m \<and>
    enabled_mask m = nv_parse_scope (json_get doc ''mutation_scope'')"
proof -
  have frame: "afl_mab (nv_load_target_cfg env fs parse s) = afl_mab s" for s :: "'a nv_config_scheme"
    by (auto simp: nv_load_target_cfg_def Let_def split: option.splits json.splits)
  have scope: "mutation_scope (nv_task_fields doc t) = nv_parse_scope (json_get doc ''mutation_scope'')" for t
    by (auto simp: nv_task_fields_def Let_def split: option.splits)
  have m: "m = nv_task_mab fp env doc (nv_parse_scope (json_get doc ''mutation_scope'')) (afl_mab afl)"
    using assms(1-3) frame unfolding m_def
    by (auto simp: nv_load_task_json_def Let_def scope split: if_splits)
  have tr: "trunc x = \<lfloor>x\<rfloor>" if "1 \<le> x" for x using that by (simp add: trunc_def)
  show ?thesis unfolding m c_def e_def
    by (auto simp: nv_task_mab_def nv_mab_init_defaults_def Let_def dlit_def NV_MAB_DEFAULT_C_def
        NV_MAB_DEFAULT_MIN_EXPLORE_def NV_MAB_MAX_MIN_EXPLORE_def tr
        split: option.splits c_double.splits)
qed

definition empty_task :: nv_task_cfg where
  "empty_task = \<lparr>target_type = NV_TARGET_UNKNOWN, target_endpoint = None, seed_source = None,
     seed_location = None, mutation_scope = 0, max_test_cases = 0, time_budget_sec = 0,
     enable_validity = False, validity_threshold = Finite 0, validity_endpoint = None\<rparr>"

definition start_config :: nv_config where
  "start_config = nv_audit.extend start_audit
     \<lparr>nv_task = empty_task, nv_task_path = None, nv_tcfg_loaded = False, nv_allow_cnt = 0,
      nv_allow_pairs = [], nv_target_cfg_path = None\<rparr>"

theorem task_precedence_witness:
  "\<exists>afl'. nv_load_task_json exact_fpu (\<lambda>_. None) [''t'' \<mapsto> ''x'']
      (\<lambda>_. Some (JObject [(''mab_c'', JNumber (Finite 2) 2)])) ''t'' start_config = Inr afl' \<and>
    mab_c (afl_mab afl') = 2 \<and> min_explore (afl_mab afl') = 8"
proof -
  let ?parse = "\<lambda>_ :: c_string. Some (JObject [(''mab_c'', JNumber (Finite 2) 2)])"
  obtain s where s: "nv_load_task_json exact_fpu (\<lambda>_. None) [''t'' \<mapsto> ''x''] ?parse ''t'' start_config = Inr s"
    by (simp add: nv_load_task_json_def Let_def)
  have "nv_mab_env_c exact_fpu (\<lambda>_. None) = None" "nv_mab_env_min_explore (\<lambda>_. None) = None"
    by (simp_all add: nv_mab_env_c_def nv_mab_env_min_explore_def nv_env_value_def)
  then show ?thesis using task_precedence [OF _ _ s, of "''x''"] s by simp
qed

text \<open>
  Once a target configuration is loaded, a request passes the allowlist exactly if some
  well-formed entry of its \<open>endpoints\<close> equals \<open>METHOD PATH\<close> or ends in \<open>*\<close> and is a prefix of it;
  malformed entries are skipped and do not shift or hide the others.
\<close>

theorem allowlist_exact:
  assumes "\<not> nv_tcfg_loaded afl" and "getenv_nonempty env ''NV_TARGET_CONFIG'' = Some p"
    and "fs p = Some buf" and "buf \<noteq> []" and "length buf \<le> 1024 * 1024"
    and "parse buf = Some doc" and "json_get doc ''endpoints'' = Some (JArray eps)"
    and "length eps < 2 ^ 32"
  shows "nv_is_allowed_pair (nv_load_target_cfg env fs parse afl) method path \<longleftrightarrow>
    (\<exists>it \<in> set eps. \<exists>ms ps. endpoint_key it = Some (ms, ps) \<and>
       allow_rule_matches (buf_cut 1024 (ms @ '' '' @ ps)) (buf_cut 1024 (method @ '' '' @ path)))"
proof -
  note l = load_cfg_pairs [of afl env p fs buf parse doc eps, OF assms]
  let ?key = "buf_cut 1024 (method @ '' '' @ path)"
  have "nv_is_allowed_pair (nv_load_target_cfg env fs parse afl) method path \<longleftrightarrow>
      (\<exists>i < length (endpoint_keys eps). allow_rule_matches (allow_key (endpoint_keys eps ! i)) ?key)"
    using l by (auto simp: nv_is_allowed_pair_def list_ex_iff Let_def)
  also have "\<dots> \<longleftrightarrow> (\<exists>e \<in> set (endpoint_keys eps). allow_rule_matches (allow_key e) ?key)"
    by (metis in_set_conv_nth)
  also have "set (endpoint_keys eps) = {e. \<exists>it \<in> set eps. endpoint_key it = Some e}"
    by (induction eps) (auto split: option.splits)
  finally show ?thesis by (auto simp: allow_key_def)
qed

theorem allowlist_exact_witness:
  "nv_is_allowed_pair (nv_load_target_cfg [''NV_TARGET_CONFIG'' \<mapsto> ''c''] [''c'' \<mapsto> ''x'']
     (\<lambda>_. Some (JObject [(''endpoints'', JArray [JNull, JObject
        [(''method'', JString (Some ''GET'')), (''path'', JString (Some ''/a*''))]])]))
     start_config) ''GET'' ''/abc''"
proof -
  let ?item = "JObject [(''method'', JString (Some ''GET'')), (''path'', JString (Some ''/a*''))]"
  let ?doc = "JObject [(''endpoints'', JArray [JNull, ?item])]"
  have l: "\<not> nv_tcfg_loaded start_config"
    by (simp add: start_config_def nv_audit.extend_def start_audit_def)
  have g: "getenv_nonempty [''NV_TARGET_CONFIG'' \<mapsto> ''c''] ''NV_TARGET_CONFIG'' = Some ''c''"
    by (simp add: getenv_nonempty_def)
  have k: "endpoint_key ?item = Some (''GET'', ''/a*'')" by (simp add: endpoint_key_def)
  have m: "allow_rule_matches (buf_cut 1024 (''GET'' @ '' '' @ ''/a*'')) (buf_cut 1024 (''GET'' @ '' '' @ ''/abc''))"
    by (simp add: allow_rule_matches_def)
  have "\<exists>it \<in> set [JNull, ?item]. \<exists>ms ps. endpoint_key it = Some (ms, ps) \<and>
      allow_rule_matches (buf_cut 1024 (ms @ '' '' @ ps)) (buf_cut 1024 (''GET'' @ '' '' @ ''/abc''))"
    using k m by auto
  then show ?thesis
    using allowlist_exact [of start_config "[''NV_TARGET_CONFIG'' \<mapsto> ''c'']" "''c''" "[''c'' \<mapsto> ''x'']"
        "''x''" "\<lambda>_. Some ?doc" ?doc "[JNull, ?item]" "''GET''" "''/abc''", OF l g]
    by simp
qed

end
