(* ===== verification/Nv_Validity.thy ===== *)
theory Nv_Validity
  imports Nv_Task
begin

text \<open>
  Input validity (\<open>src/src/afl-fuzz-run.c\<close>): the Unix-socket path and Base64 encoders, the
  scoring request and its answer, the rules an input must meet before it is run, and the
  accounting of what was rejected.
\<close>

section \<open>State and verdicts\<close>

datatype nv_vreason =
    NV_V_OK | NV_V_REJ_PARSE | NV_V_REJ_RULE | NV_V_REJ_RPC_FAIL
  | NV_V_REJ_ALLOW | NV_V_REJ_DOCID | NV_V_REJ_BODY | NV_V_REJ_SCORE

record nv_valid = nv_config +
  nv_valid_cnt :: u64
  nv_invalid_cnt :: u64
  nv_invalid_parse_cnt :: u64
  nv_invalid_rule_cnt :: u64
  nv_invalid_rpc_fail_cnt :: u64
  nv_invalid_allow_cnt :: u64
  nv_invalid_docid_cnt :: u64
  nv_invalid_body_cnt :: u64
  nv_invalid_score_cnt :: u64

definition nv_v_is_reject :: "nv_vreason \<Rightarrow> bool" where
  "nv_v_is_reject r \<longleftrightarrow> r \<noteq> NV_V_OK"

section \<open>The socket path\<close>

definition copy_if_fits :: "c_string \<Rightarrow> nat \<Rightarrow> c_string option" where
  "copy_if_fits p out_sz = (if length p \<ge> out_sz then None else Some p)"

text \<open>\<open>snprintf (out, out_sz, "/%s", p)\<close>, refused when it is truncated or only the slash.\<close>

definition slash_if_fits :: "c_string \<Rightarrow> nat \<Rightarrow> c_string option" where
  "slash_if_fits p out_sz =
     (let w = length p + 1 in if w > 1 \<and> w < out_sz then Some (CHR ''/'' # p) else None)"

definition nv_parse_unix_path :: "c_string ptr \<Rightarrow> nat \<Rightarrow> c_string option" where
  "nv_parse_unix_path endpoint out_sz =
     (case endpoint of
        None \<Rightarrow> None
      | Some p \<Rightarrow>
          if out_sz < 2 then None
          else if p \<noteq> [] \<and> hd p = CHR ''/'' then copy_if_fits p out_sz
          else if str_prefix ''unix://'' p then
            let p = drop 7 p in
            if p = [] then None
            else if hd p = CHR ''/'' then copy_if_fits p out_sz
            else slash_if_fits p out_sz
          else if str_prefix ''unix:'' p then
            let p = drop 5 p in
            if p = [] then None
            else if hd p \<noteq> CHR ''/'' then slash_if_fits p out_sz
            else copy_if_fits p out_sz
          else None)"

section \<open>Base64\<close>

definition nv_b64_table :: c_string where
  "nv_b64_table = ''ABCDEFGHIJKLMNOPQRSTUVWXYZabcdefghijklmnopqrstuvwxyz0123456789+/''"

definition b64_char :: "u32 \<Rightarrow> char" where
  "b64_char sextet = nv_b64_table ! unat (sextet AND 0x3F)"

text \<open>One round of the loop: octets behind the end count as 0.\<close>

definition b64_group :: "u8 \<Rightarrow> u8 \<Rightarrow> u8 \<Rightarrow> c_string" where
  "b64_group a b c =
     (let triple = push_bit 16 (ucast a) + push_bit 8 (ucast b) + ucast c :: u32
      in [b64_char (drop_bit 18 triple), b64_char (drop_bit 12 triple),
          b64_char (drop_bit 6 triple), b64_char triple])"

fun b64_loop :: "bytes \<Rightarrow> c_string" where
  "b64_loop [] = []"
| "b64_loop [a] = b64_group a 0 0"
| "b64_loop [a, b] = b64_group a b 0"
| "b64_loop (a # b # c # rest) = b64_group a b c @ b64_loop rest"

definition nv_base64_encode :: "bytes \<Rightarrow> c_string" where
  "nv_base64_encode data =
     (if data = [] then []
      else let out = b64_loop data; j = length out; m = length data mod 3
           in if m = 1 then out[j - 2 := CHR ''='', j - 1 := CHR ''='']
              else if m = 2 then out[j - 1 := CHR ''='']
              else out)"

section \<open>Taking a request apart\<close>

definition chars_of :: "bytes \<Rightarrow> c_string" where
  "chars_of bs = map (\<lambda>b. char_of (unat b)) bs"

definition bytes_of :: "c_string \<Rightarrow> bytes" where
  "bytes_of s = map (\<lambda>ch. of_nat (of_char ch)) s"

text \<open>\<open>memchr\<close> and \<open>memmem\<close>: the position of the first match.\<close>

fun memchr :: "'a list \<Rightarrow> 'a \<Rightarrow> nat option" where
  "memchr [] x = None"
| "memchr (y # ys) x = (if y = x then Some 0 else map_option Suc (memchr ys x))"

fun memmem :: "'a list \<Rightarrow> 'a list \<Rightarrow> nat option" where
  "memmem [] w = (if w = [] then Some 0 else None)"
| "memmem (y # ys) w =
     (if take (length w) (y # ys) = w then Some 0 else map_option Suc (memmem ys w))"

text \<open>
  \<open>sscanf (line, "%15s %255s", method, path)\<close>: leading white space is skipped, a word ends at
  white space or at its width; the line ends at its first NUL.
\<close>

definition scan_word :: "nat \<Rightarrow> c_string \<Rightarrow> c_string \<times> c_string" where
  "scan_word width s =
     (let r = skip_spaces s; w = take width (takeWhile (\<lambda>ch. \<not> c_isspace ch) r)
      in (w, drop (length w) r))"

definition scan_request_line :: "c_string \<Rightarrow> (c_string \<times> c_string) option" where
  "scan_request_line line =
     (let s = takeWhile (\<lambda>ch. ch \<noteq> CHR 0x00) line;
          (method, r) = scan_word 15 s; (path, _) = scan_word 255 r
      in if method = [] \<or> path = [] then None else Some (method, path))"

definition lf2 :: c_string where "lf2 = [CHR 0x0A, CHR 0x0A]"
definition crlf2 :: c_string where "crlf2 = [CHR 0x0D, CHR 0x0A, CHR 0x0D, CHR 0x0A]"

text \<open>The separator of head and body, and where the body starts.\<close>

definition find_separator :: "c_string \<Rightarrow> nat option" where
  "find_separator buf = (case memmem buf lf2 of Some i \<Rightarrow> Some i | None \<Rightarrow> memmem buf crlf2)"

definition body_start :: "c_string \<Rightarrow> nat \<Rightarrow> nat" where
  "body_start buf sep = sep + (if buf ! sep = CHR 0x0D then 4 else 2)"

definition ends_with :: "c_string \<Rightarrow> c_string \<Rightarrow> bool" where
  "ends_with s w \<longleftrightarrow> length w \<le> length s \<and> drop (length s - length w) s = w"

section \<open>The external score\<close>

text \<open>
  What the other end of the socket does: whether each call succeeds, the eight bytes or the
  text it answers. \<open>print_envelope\<close> is cJSON's printer of the request object.
\<close>

record rpc_answers =
  rpc_connect :: bool
  rpc_send :: bool
  rpc_bin :: "c_double option"
  rpc_text :: "c_string option"

definition rpc_body :: "c_string \<Rightarrow> c_string \<times> c_string" where
  "rpc_body buf =
     (case find_separator buf of
        None \<Rightarrow> (buf, ''metadata_update'')
      | Some sep \<Rightarrow>
          let body = drop (body_start buf sep) buf;
              scenario =
                (case memchr buf (CHR 0x0A) of
                   None \<Rightarrow> ''metadata_update''
                 | Some lsz \<Rightarrow>
                     if lsz < 512 then
                       (case scan_request_line (take lsz buf) of
                          Some (method, path) \<Rightarrow>
                            if ends_with path ''/content'' then ''content_update''
                            else ''metadata_update''
                        | None \<Rightarrow> ''metadata_update'')
                     else ''metadata_update'')
          in (body, scenario))"

definition rpc_request :: "(c_string \<Rightarrow> c_string \<Rightarrow> c_string) \<Rightarrow> c_string \<Rightarrow> bytes" where
  "rpc_request print_envelope buf =
     (let (body, scenario) = rpc_body buf;
          json_str = print_envelope scenario (nv_base64_encode (bytes_of body));
          json_len = of_nat (length json_str) :: u32
      in [ucast (json_len AND 0xff), ucast (drop_bit 8 json_len AND 0xff),
          ucast (drop_bit 16 json_len AND 0xff), ucast (drop_bit 24 json_len AND 0xff)] @
         bytes_of json_str)"

text \<open>The score, or \<open>None\<close> where \<open>*ok\<close> stays 0.\<close>

definition nv_validity_rpc_score_unix :: "fpu \<Rightarrow> env_vars \<Rightarrow> (bytes \<Rightarrow> rpc_answers) \<Rightarrow>
    (c_string \<Rightarrow> c_string \<Rightarrow> c_string) \<Rightarrow> 'a nv_config_scheme \<Rightarrow> c_string \<Rightarrow> c_double option" where
  "nv_validity_rpc_score_unix fp env peer print_envelope afl buf =
     (case validity_endpoint (nv_task afl) of
        None \<Rightarrow> None
      | Some ep \<Rightarrow>
          if ep = [] then None
          else if nv_parse_unix_path (Some ep) 108 = None then None
          else
            let answer = peer (rpc_request print_envelope buf) in
            if \<not> rpc_connect answer then None
            else if \<not> rpc_send answer then None
            else if env ''NV_RPC_FMT'' = Some ''bin'' then rpc_bin answer
            else (case rpc_text answer of
                None \<Rightarrow> None
              | Some r \<Rightarrow>
                  if r = [] then None
                  else let resp = takeWhile (\<lambda>ch. ch \<noteq> CHR 0x00) (take 63 r);
                           s = skip_spaces resp;
                           (v, rest, erange) = strtod fp s
                       in if erange \<or> rest = s then None else Some v))"

section \<open>The rules\<close>

definition is_json_content :: "c_string \<Rightarrow> nat \<Rightarrow> c_string \<Rightarrow> bool" where
  "is_json_content buf sep path =
     (let head = take sep buf in
      case memmem head ''Content-Type:'' of
        None \<Rightarrow> True
      | Some i \<Rightarrow>
          (case memchr (drop i head) (CHR 0x0A) of
             None \<Rightarrow> True
           | Some eol \<Rightarrow>
               if memmem (take eol (drop i head)) ''text/plain'' \<noteq> None
               then \<not> ends_with path ''/content'' else True))"

definition body_space :: "char \<Rightarrow> bool" where
  "body_space ch \<longleftrightarrow> ch = CHR '' '' \<or> ch = CHR 0x09 \<or> ch = CHR 0x0D \<or> ch = CHR 0x0A"

definition body_rejected :: "c_string \<Rightarrow> c_string \<Rightarrow> bool" where
  "body_rejected buf path =
     (case find_separator buf of
        None \<Rightarrow> False
      | Some sep \<Rightarrow>
          let body = dropWhile body_space (drop (body_start buf sep) buf) in
          is_json_content buf sep path \<and> body \<noteq> [] \<and>
          hd body \<noteq> CHR ''{'' \<and> hd body \<noteq> CHR ''['')"

definition score_verdict :: "fpu \<Rightarrow> env_vars \<Rightarrow> (bytes \<Rightarrow> rpc_answers) \<Rightarrow>
    (c_string \<Rightarrow> c_string \<Rightarrow> c_string) \<Rightarrow> 'a nv_config_scheme \<Rightarrow> c_string \<Rightarrow> nv_vreason" where
  "score_verdict fp env peer print_envelope afl buf =
     (case validity_endpoint (nv_task afl) of
        None \<Rightarrow> NV_V_OK
      | Some ep \<Rightarrow>
          if ep = [] then NV_V_OK
          else (case nv_validity_rpc_score_unix fp env peer print_envelope afl buf of
              None \<Rightarrow> NV_V_REJ_RPC_FAIL
            | Some score \<Rightarrow>
                let th = validity_threshold (nv_task afl) in
                if cd_less (Finite 0) th \<and> cd_le th score then NV_V_REJ_SCORE else NV_V_OK))"

definition nv_validity_check :: "fpu \<Rightarrow> env_vars \<Rightarrow> (bytes \<Rightarrow> rpc_answers) \<Rightarrow>
    (c_string \<Rightarrow> c_string \<Rightarrow> c_string) \<Rightarrow> 'a nv_config_scheme \<Rightarrow> bytes ptr \<Rightarrow> nv_vreason" where
  "nv_validity_check fp env peer print_envelope afl buf_ptr =
     (case buf_ptr of
        None \<Rightarrow> NV_V_REJ_RULE
      | Some bs \<Rightarrow>
          if bs = [] then NV_V_REJ_RULE
          else if length bs > 4096 then NV_V_REJ_RULE
          else
            let buf = chars_of bs in
            (case memchr buf (CHR 0x0A) of
               None \<Rightarrow> NV_V_REJ_PARSE
             | Some lsz \<Rightarrow>
                 if lsz \<ge> 512 then NV_V_REJ_RULE
                 else (case scan_request_line (take lsz buf) of
                     None \<Rightarrow> NV_V_REJ_PARSE
                   | Some (method, path) \<Rightarrow>
                       let method = map c_toupper method in
                       if hd path \<noteq> CHR ''/'' then NV_V_REJ_RULE
                       else
                         let path = takeWhile (\<lambda>ch. ch \<noteq> CHR ''?'') path in
                         if \<not> nv_is_allowed_pair afl method path then NV_V_REJ_ALLOW
                         else if body_rejected buf path then NV_V_REJ_BODY
                         else score_verdict fp env peer print_envelope afl buf)))"

section \<open>Accounting\<close>

definition nv_account_invalid :: "'a nv_valid_scheme \<Rightarrow> nv_vreason \<Rightarrow> 'a nv_valid_scheme" where
  "nv_account_invalid afl vr =
     (let afl = afl\<lparr>nv_invalid_cnt := nv_invalid_cnt afl + 1\<rparr> in
      if vr = NV_V_REJ_PARSE then afl\<lparr>nv_invalid_parse_cnt := nv_invalid_parse_cnt afl + 1\<rparr>
      else if vr = NV_V_REJ_RPC_FAIL
      then afl\<lparr>nv_invalid_rpc_fail_cnt := nv_invalid_rpc_fail_cnt afl + 1\<rparr>
      else
        let afl = afl\<lparr>nv_invalid_rule_cnt := nv_invalid_rule_cnt afl + 1\<rparr> in
        if vr = NV_V_REJ_ALLOW then afl\<lparr>nv_invalid_allow_cnt := nv_invalid_allow_cnt afl + 1\<rparr>
        else if vr = NV_V_REJ_DOCID then afl\<lparr>nv_invalid_docid_cnt := nv_invalid_docid_cnt afl + 1\<rparr>
        else if vr = NV_V_REJ_BODY then afl\<lparr>nv_invalid_body_cnt := nv_invalid_body_cnt afl + 1\<rparr>
        else if vr = NV_V_REJ_SCORE then afl\<lparr>nv_invalid_score_cnt := nv_invalid_score_cnt afl + 1\<rparr>
        else afl)"

definition nv_account_valid :: "'a nv_valid_scheme \<Rightarrow> 'a nv_valid_scheme" where
  "nv_account_valid afl = afl\<lparr>nv_valid_cnt := nv_valid_cnt afl + 1\<rparr>"

section \<open>Base64 can be read back\<close>

definition b64_val :: "char \<Rightarrow> nat" where
  "b64_val ch = (if ch = CHR ''='' then 0 else length (takeWhile (\<lambda>x. x \<noteq> ch) nv_b64_table))"

definition b64_triple :: "char \<Rightarrow> char \<Rightarrow> char \<Rightarrow> char \<Rightarrow> nat" where
  "b64_triple w x y z = ((b64_val w * 64 + b64_val x) * 64 + b64_val y) * 64 + b64_val z"

text \<open>The decoder of RFC 4648: padding shortens the last group.\<close>

fun b64_decode :: "c_string \<Rightarrow> bytes" where
  "b64_decode (w # x # y # z # rest) =
     (let t = b64_triple w x y z in
      take (if y = CHR ''='' then 1 else if z = CHR ''='' then 2 else 3)
        [of_nat (t div 65536), of_nat (t div 256), of_nat t] @ b64_decode rest)"
| "b64_decode _ = []"

lemma nth_first_index:
  "distinct xs \<Longrightarrow> k < length xs \<Longrightarrow> length (takeWhile (\<lambda>x. x \<noteq> xs ! k) xs) = k"
proof (induction xs arbitrary: k)
  case (Cons x xs)
  then show ?case by (cases k) auto
qed simp

lemma b64_table_facts: "distinct nv_b64_table" "length nv_b64_table = 64" "CHR ''='' \<notin> set nv_b64_table"
  by (simp_all add: nv_b64_table_def)

lemma b64_val_char:
  shows "b64_val (b64_char s) = unat s mod 64" and "b64_char s \<noteq> CHR ''=''"
proof -
  have m: "unat (s AND 0x3F) = unat s mod 64"
    using unat_and_mask_pow2 [of "64 :: u32" 6 s] by simp
  have "unat (s AND 0x3F) < length nv_b64_table" unfolding m b64_table_facts by simp
  then show "b64_char s \<noteq> CHR ''=''" unfolding b64_char_def using b64_table_facts(3) nth_mem by metis
  then show "b64_val (b64_char s) = unat s mod 64"
    using nth_first_index [OF b64_table_facts(1)] b64_table_facts(2) m
    by (simp add: b64_val_def b64_char_def)
qed

lemma sextets:
  fixes t :: nat
  assumes "t < 16777216"
  shows "((t div 262144 mod 64 * 64 + t div 4096 mod 64) * 64 + t div 64 mod 64) * 64 + t mod 64 = t"
proof -
  have join: "((d * 64 + r2) * 64 + r1) * 64 + r0 = s"
    if "s = q * 64 + r0" "q = p * 64 + r1" "p = d * 64 + r2" for s q p d r0 r1 r2 :: nat
    using that by simp
  show ?thesis
  proof (rule join)
    show "t = t div 64 * 64 + t mod 64" by simp
    show "t div 64 = t div 4096 * 64 + t div 64 mod 64"
      using div_mult_mod_eq [of "t div 64" 64] by (simp add: div_mult2_eq [symmetric])
    have "t div 262144 < 64" using assms by (simp add: less_mult_imp_div_less)
    then show "t div 4096 = t div 262144 mod 64 * 64 + t div 4096 mod 64"
      using div_mult_mod_eq [of "t div 4096" 64] by (simp add: div_mult2_eq [symmetric])
  qed
qed

lemma u8_small: "unat (b :: u8) < 256"
  using unsigned_less [of b] by simp

lemma power_numeral_helper: "(2 :: nat) ^ 18 = 262144" "(2 :: nat) ^ 12 = 4096" "(2 :: nat) ^ 6 = 64"
  by simp_all

lemma b64_group_reads:
  obtains w x y z where "b64_group a b c = [w, x, y, z]"
    "CHR ''='' \<notin> {w, x, y, z}"
    "b64_triple w x y z = unat a * 65536 + unat b * 256 + unat c"
    "b64_val y = (unat a * 65536 + unat b * 256 + unat c) div 64 mod 64"
    "b64_val z = (unat a * 65536 + unat b * 256 + unat c) mod 64"
proof -
  let ?t = "push_bit 16 (ucast a) + push_bit 8 (ucast b) + ucast c :: u32"
  let ?n = "unat a * 65536 + unat b * 256 + unat c"
  have n: "?n < 16777216" using u8_small [of a] u8_small [of b] u8_small [of c] by simp
  have "?t = of_nat ?n" by (simp add: push_bit_eq_mult)
  then have t: "unat ?t = ?n" using n by (simp add: unsigned_of_nat take_bit_eq_mod del: of_nat_add of_nat_mult)
  have d: "unat (drop_bit k ?t) = ?n div 2 ^ k" for k
    using t by (subst unat_drop_bit_eq) (simp only: drop_bit_eq_div)
  show thesis
  proof (rule that)
    show "b64_group a b c = [b64_char (drop_bit 18 ?t), b64_char (drop_bit 12 ?t),
        b64_char (drop_bit 6 ?t), b64_char ?t]" by (simp add: b64_group_def Let_def)
    show "CHR ''='' \<notin> {b64_char (drop_bit 18 ?t), b64_char (drop_bit 12 ?t),
        b64_char (drop_bit 6 ?t), b64_char ?t}" using b64_val_char(2) by (metis empty_iff insert_iff)
    show "b64_triple (b64_char (drop_bit 18 ?t)) (b64_char (drop_bit 12 ?t))
        (b64_char (drop_bit 6 ?t)) (b64_char ?t) = ?n"
      unfolding b64_triple_def b64_val_char d t using sextets [OF n] by (simp only: power_numeral_helper)
    show "b64_val (b64_char (drop_bit 6 ?t)) = ?n div 64 mod 64"
      unfolding b64_val_char d power_numeral_helper ..
    show "b64_val (b64_char ?t) = ?n mod 64" unfolding b64_val_char t ..
  qed
qed

lemma length_b64_loop: "length (b64_loop data) = (length data + 2) div 3 * 4"
proof (induction data rule: b64_loop.induct)
  case (4 a b c rest)
  have "(length (a # b # c # rest) + 2) div 3 = Suc ((length rest + 2) div 3)"
    using div_add_self1 [of 3 "length rest + 2"] by simp
  then show ?case using 4 by (simp add: b64_group_def Let_def)
qed (simp_all add: b64_group_def Let_def)

lemma pad_digits:
  fixes x y z :: nat
  shows "x * 65536 div 64 mod 64 = 0" "x * 65536 mod 64 = 0" "(x * 65536 + y * 256) mod 64 = 0"
    "z < 256 \<Longrightarrow> (x * 65536 + y * 256 + z) mod 256 = z"
proof -
  have "x * 65536 div 64 = 64 * (x * 16)" by simp
  then show "x * 65536 div 64 mod 64 = 0" by simp
  have "x * 65536 = 64 * (x * 1024)" "x * 65536 + y * 256 = 64 * (x * 1024 + y * 4)" by simp_all
  then show "x * 65536 mod 64 = 0" "(x * 65536 + y * 256) mod 64 = 0" by (metis mod_mult_self1_is_0)+
  have "x * 65536 + y * 256 + z = z + 256 * (x * 256 + y)" by simp
  then show "z < 256 \<Longrightarrow> (x * 65536 + y * 256 + z) mod 256 = z" by (metis mod_less mod_mult_self2)
qed

lemma of_nat_u8_parts:
  "(of_nat ((unat (a :: u8) * 65536 + unat (b :: u8) * 256 + unat (c :: u8)) div 65536) :: u8) = a"
  "(of_nat ((unat a * 65536 + unat b * 256 + unat c) div 256) :: u8) = b"
  "(of_nat (unat a * 65536 + unat b * 256 + unat c) :: u8) = c"
proof -
  note s = u8_small [of a] u8_small [of b] u8_small [of c]
  have "(unat a * 65536 + unat b * 256 + unat c) div 65536 = unat a" using s by simp
  then show "(of_nat ((unat a * 65536 + unat b * 256 + unat c) div 65536) :: u8) = a" by simp
  have "(unat a * 65536 + unat b * 256 + unat c) div 256 = unat a * 256 + unat b" using s by simp
  moreover have "(of_nat (unat a * 256 + unat b) :: u8) = b"
    using u8_small [of b]
    by (simp add: word_unat_eq_iff unsigned_of_nat take_bit_eq_mod del: of_nat_add of_nat_mult)
  ultimately show "(of_nat ((unat a * 65536 + unat b * 256 + unat c) div 256) :: u8) = b" by simp
  have "(unat a * 65536 + unat b * 256 + unat c) mod 256 = unat c" using s(3) by (rule pad_digits(4))
  then show "(of_nat (unat a * 65536 + unat b * 256 + unat c) :: u8) = c"
    by (simp add: word_unat_eq_iff unsigned_of_nat take_bit_eq_mod del: of_nat_add of_nat_mult)
qed

lemma encode_group: "nv_base64_encode (a # b # c # rest) = b64_group a b c @ nv_base64_encode rest"
proof (cases "rest = []")
  case True
  then show ?thesis by (simp add: nv_base64_encode_def Let_def)
next
  case False
  have g: "length (b64_group a b c) = 4" by (simp add: b64_group_def Let_def)
  have l: "4 \<le> length (b64_loop rest)" using False by (cases rest) (simp_all add: length_b64_loop)
  have m: "length (a # b # c # rest) mod 3 = length rest mod 3" by simp
  let ?g = "b64_group a b c" and ?o = "b64_loop rest"
  have u: "(?g @ ?o)[length (?g @ ?o) - k := x] = ?g @ ?o[length ?o - k := x]" if "k \<le> 2" for k x
  proof -
    have "\<not> length (?g @ ?o) - k < length ?g" using that l g by simp
    moreover have "length (?g @ ?o) - k - length ?g = length ?o - k" using g by simp
    ultimately show ?thesis by (simp only: list_update_append if_False)
  qed
  have u2: "(?g @ ?o)[length (?g @ ?o) - 2 := x, length (?g @ ?o) - 1 := x] =
      ?g @ ?o[length ?o - 2 := x, length ?o - 1 := x]" for x
  proof -
    have "\<not> length (?g @ ?o) - 1 < length ?g" using l g unfolding length_append by linarith
    moreover have "length (?g @ ?o) - 1 - length ?g = length ?o - 1" using g by simp
    ultimately show ?thesis using u [of 2 x] by (simp only: list_update_append if_False)
  qed
  show ?thesis
    using False u [of 1 "CHR ''=''"] u2 [of "CHR ''=''"]
    unfolding nv_base64_encode_def m Let_def b64_loop.simps by simp
qed

lemma b64_roundtrip: "b64_decode (nv_base64_encode data) = data"
proof (induction data rule: b64_loop.induct)
  case 1
  then show ?case by (simp add: nv_base64_encode_def)
next
  case (2 a)
  obtain w x y z where g: "b64_group a 0 0 = [w, x, y, z]" "CHR ''='' \<notin> {w, x, y, z}"
    "b64_triple w x y z = unat a * 65536 + unat (0 :: u8) * 256 + unat (0 :: u8)"
    "b64_val y = (unat a * 65536 + unat (0 :: u8) * 256 + unat (0 :: u8)) div 64 mod 64"
    "b64_val z = (unat a * 65536 + unat (0 :: u8) * 256 + unat (0 :: u8)) mod 64"
    by (rule b64_group_reads)
  have "b64_val y = 0" "b64_val z = 0" using g(4,5) pad_digits(1,2) by simp_all
  then have t: "b64_triple w x (CHR ''='') (CHR ''='') = unat a * 65536"
    using g(3) by (simp add: b64_triple_def b64_val_def)
  have e: "nv_base64_encode [a] = [w, x, CHR ''='', CHR ''='']"
    by (simp add: nv_base64_encode_def g(1) Let_def)
  show ?case unfolding e b64_decode.simps Let_def t using of_nat_u8_parts(1) [of a 0 0] by simp
next
  case (3 a b)
  obtain w x y z where g: "b64_group a b 0 = [w, x, y, z]" "CHR ''='' \<notin> {w, x, y, z}"
    "b64_triple w x y z = unat a * 65536 + unat b * 256 + unat (0 :: u8)"
    "b64_val y = (unat a * 65536 + unat b * 256 + unat (0 :: u8)) div 64 mod 64"
    "b64_val z = (unat a * 65536 + unat b * 256 + unat (0 :: u8)) mod 64"
    by (rule b64_group_reads)
  have "b64_val z = 0" using g(5) pad_digits(3) by simp
  then have t: "b64_triple w x y (CHR ''='') = unat a * 65536 + unat b * 256"
    using g(3) by (simp add: b64_triple_def b64_val_def)
  have e: "nv_base64_encode [a, b] = [w, x, y, CHR ''='']"
    by (simp add: nv_base64_encode_def g(1) Let_def)
  have "y \<noteq> CHR ''=''" using g(2) by auto
  then show ?case unfolding e b64_decode.simps Let_def t using of_nat_u8_parts(1,2) [of a b 0]
    by simp
next
  case (4 a b c rest)
  obtain w x y z where g: "b64_group a b c = [w, x, y, z]" "CHR ''='' \<notin> {w, x, y, z}"
    "b64_triple w x y z = unat a * 65536 + unat b * 256 + unat c"
    using b64_group_reads [of a b c] by metis
  have ne: "y \<noteq> CHR ''=''" "z \<noteq> CHR ''=''" using g(2) by auto
  show ?case unfolding encode_group g(1) append.simps b64_decode.simps Let_def g(3) 4
    using ne of_nat_u8_parts [of a b c] by simp
qed


lemma base64_length: "length (nv_base64_encode data) = (length data + 2) div 3 * 4"
  by (simp add: nv_base64_encode_def Let_def length_b64_loop)

section \<open>Where an accepted request has been\<close>

lemma check_never_docid: "nv_validity_check fp env peer pr afl buf \<noteq> NV_V_REJ_DOCID"
  by (auto simp: nv_validity_check_def score_verdict_def Let_def split: option.splits if_splits)

text \<open>The separator found first is \<open>LF LF\<close> anywhere, also behind a \<open>CRLF CRLF\<close>.\<close>

lemma memmem_Some:
  "memmem s w = Some i \<Longrightarrow> take (length w) (drop i s) = w \<and> i + length w \<le> length s"
proof (induction s arbitrary: i)
  case (Cons y ys)
  show ?case
  proof (cases "take (length w) (y # ys) = w")
    case True
    then have "length w \<le> length (y # ys)" by (metis length_take min.cobounded1)
    then show ?thesis using True Cons.prems by simp
  next
    case False
    then obtain j where "memmem ys w = Some j" "i = Suc j" using Cons.prems by auto
    then show ?thesis using Cons.IH by auto
  qed
qed (simp split: if_splits)

text \<open>Two inputs the body rule rejects, see the header.\<close>

definition text_plain_request :: c_string where
  "text_plain_request = ''PUT /n/content HTTP/1.1'' @ newline @ ''Content-Type: text/plain'' @ lf2 @ ''hello''"

lemma text_plain_last_header_rejected: "body_rejected text_plain_request ''/n/content''"
  by code_simp

definition crlf_json_request :: c_string where
  "crlf_json_request = ''POST /n HTTP/1.1'' @ crlf2 @ ''{'' @ lf2 @ ''1}''"

lemma blank_line_in_json_rejected: "body_rejected crlf_json_request ''/n''"
  by code_simp

section \<open>Properties\<close>

text \<open>
  The socket path is either refused or a non-empty absolute path that fits its buffer of
  \<open>sun_path\<close> size, so the copy into the socket address is never truncated.
\<close>

theorem unix_path_fits:
  assumes "nv_parse_unix_path endpoint out_sz = Some path"
  shows "length path < out_sz \<and> path \<noteq> [] \<and> hd path = CHR ''/''"
  using assms
  by (auto simp: nv_parse_unix_path_def copy_if_fits_def slash_if_fits_def Let_def
      split: option.splits if_splits)

theorem unix_path_fits_witness:
  "nv_parse_unix_path (Some ''unix://tmp/x'') 108 = Some ''/tmp/x'' \<and> length ''/tmp/x'' < 108"
proof -
  have "nv_parse_unix_path (Some ''unix://tmp/x'') 108 = Some ''/tmp/x''" by code_simp
  then show ?thesis using unix_path_fits by blast
qed

text \<open>
  The Base64 body of the scoring request loses nothing: a standard decoder returns the
  bytes, and the text has the length its buffer was allocated for.
\<close>

theorem base64_roundtrip:
  "b64_decode (nv_base64_encode data) = data \<and>
   length (nv_base64_encode data) = (length data + 2) div 3 * 4"
  using b64_roundtrip base64_length by blast

text \<open>
  The frame of a scoring request is a little-endian length followed by exactly that many
  bytes, the printed envelope with the Base64 body and the scenario of the request.
\<close>

theorem rpc_frame:
  assumes "json = print_envelope (snd (rpc_body buf)) (nv_base64_encode (bytes_of (fst (rpc_body buf))))"
    and "length json < 2 ^ 32"
  shows "\<exists>a b c d. rpc_request print_envelope buf = [a, b, c, d] @ bytes_of json \<and>
    unat a + 256 * (unat b + 256 * (unat c + 256 * unat d)) = length json"
proof -
  let ?n = "of_nat (length json) :: u32"
  have n: "unat ?n = length json" using assms(2) by (simp add: unsigned_of_nat take_bit_eq_mod)
  have byte: "unat (ucast (drop_bit k ?n AND 0xff) :: u8) = length json div 2 ^ k mod 256" for k
  proof -
    have "unat (drop_bit k ?n) = length json div 2 ^ k"
      using n by (subst unat_drop_bit_eq) (simp only: drop_bit_eq_div)
    moreover have "unat (drop_bit k ?n AND 0xff) = unat (drop_bit k ?n) mod 256"
      using unat_and_mask_pow2 [of "256 :: u32" 8 "drop_bit k ?n"] by simp
    ultimately show ?thesis by (simp only: unsigned_ucast_eq take_bit_eq_mod) simp
  qed
  have r: "rpc_request print_envelope buf =
      [ucast (drop_bit 0 ?n AND 0xff), ucast (drop_bit 8 ?n AND 0xff), ucast (drop_bit 16 ?n AND 0xff),
       ucast (drop_bit 24 ?n AND 0xff)] @ bytes_of json"
    unfolding rpc_request_def assms(1) by (simp add: Let_def split_beta)
  have digits: "x mod 256 + 256 * (x div 256 mod 256 + 256 * (x div 65536 mod 256 + 256 * (x div 16777216 mod 256))) = x"
    if "x < 4294967296" for x :: nat
  proof -
    have join: "r0 + 256 * (r1 + 256 * (r2 + 256 * r3)) = s"
      if "s = q * 256 + r0" "q = p * 256 + r1" "p = r3 * 256 + r2" for s q p r0 r1 r2 r3 :: nat
      using that by simp
    show ?thesis
    proof (rule join)
      show "x = x div 256 * 256 + x mod 256" by simp
      show "x div 256 = x div 65536 * 256 + x div 256 mod 256"
        using div_mult_mod_eq [of "x div 256" 256] by (simp add: div_mult2_eq [symmetric])
      have "x div 16777216 < 256" using that by (simp add: less_mult_imp_div_less)
      then show "x div 65536 = x div 16777216 mod 256 * 256 + x div 65536 mod 256"
        using div_mult_mod_eq [of "x div 65536" 256] by (simp add: div_mult2_eq [symmetric])
    qed
  qed
  show ?thesis unfolding r
    by (intro exI conjI, rule refl) (unfold byte, use digits [of "length json"] assms(2) in simp)
qed

theorem rpc_frame_witness:
  "\<exists>a b c d. rpc_request (\<lambda>s b. s @ b) ''x'' = [a, b, c, d] @ bytes_of (''metadata_update'' @ nv_base64_encode (bytes_of ''x''))"
proof -
  have b: "rpc_body ''x'' = (''x'', ''metadata_update'')" by code_simp
  have "length (nv_base64_encode (bytes_of ''x'')) = 4"
    using base64_length [of "bytes_of ''x''"] by (simp add: bytes_of_def)
  then show ?thesis using rpc_frame [OF refl, of "\<lambda>s b. s @ b" "''x''"] by (auto simp: b)
qed


definition get_request :: c_string where
  "get_request = ''GET /a'' @ newline"


definition account :: "nv_vreason \<Rightarrow> 'a nv_valid_scheme \<Rightarrow> 'a nv_valid_scheme" where
  "account vr afl = (if nv_v_is_reject vr then nv_account_invalid afl vr else nv_account_valid afl)"

lemma fold_counter:
  fixes g :: "'s \<Rightarrow> u64"
  assumes "\<And>v s. g (f v s) = g s + (if P v then 1 else 0)"
  shows "g (fold f vs s) = g s + of_nat (length (filter P vs))"
  by (induction vs arbitrary: s) (simp_all add: assms)

lemma account_steps:
  "nv_invalid_cnt (account v afl) = nv_invalid_cnt afl + (if nv_v_is_reject v then 1 else 0)"
  "nv_valid_cnt (account v afl) = nv_valid_cnt afl + (if v = NV_V_OK then 1 else 0)"
  "nv_invalid_parse_cnt (account v afl) = nv_invalid_parse_cnt afl + (if v = NV_V_REJ_PARSE then 1 else 0)"
  "nv_invalid_rpc_fail_cnt (account v afl) = nv_invalid_rpc_fail_cnt afl + (if v = NV_V_REJ_RPC_FAIL then 1 else 0)"
  "nv_invalid_rule_cnt (account v afl) = nv_invalid_rule_cnt afl +
     (if v \<notin> {NV_V_OK, NV_V_REJ_PARSE, NV_V_REJ_RPC_FAIL} then 1 else 0)"
  "nv_invalid_allow_cnt (account v afl) = nv_invalid_allow_cnt afl + (if v = NV_V_REJ_ALLOW then 1 else 0)"
  "nv_invalid_docid_cnt (account v afl) = nv_invalid_docid_cnt afl + (if v = NV_V_REJ_DOCID then 1 else 0)"
  "nv_invalid_body_cnt (account v afl) = nv_invalid_body_cnt afl + (if v = NV_V_REJ_BODY then 1 else 0)"
  "nv_invalid_score_cnt (account v afl) = nv_invalid_score_cnt afl + (if v = NV_V_REJ_SCORE then 1 else 0)"
  by (cases v; simp add: account_def nv_account_invalid_def nv_account_valid_def nv_v_is_reject_def Let_def)+

text \<open>
  The rejection statistics add up: after the verdicts of any run of checks each counter has
  grown by the number of its verdicts, the three families (parse, RPC failure, rule) are
  together all rejections, and the document-id counter has not moved, because no check produces
  that verdict.
\<close>

theorem accounting_exact:
  assumes "vs = map (\<lambda>(env, peer, buf). nv_validity_check fp env peer pr cfg buf) inputs"
    and "afl' = fold account vs afl"
  shows "nv_valid_cnt afl' = nv_valid_cnt afl + of_nat (length (filter (\<lambda>v. v = NV_V_OK) vs)) \<and>
    nv_invalid_cnt afl' = nv_invalid_cnt afl + of_nat (length (filter nv_v_is_reject vs)) \<and>
    nv_invalid_allow_cnt afl' = nv_invalid_allow_cnt afl + of_nat (length (filter (\<lambda>v. v = NV_V_REJ_ALLOW) vs)) \<and>
    nv_invalid_body_cnt afl' = nv_invalid_body_cnt afl + of_nat (length (filter (\<lambda>v. v = NV_V_REJ_BODY) vs)) \<and>
    nv_invalid_score_cnt afl' = nv_invalid_score_cnt afl + of_nat (length (filter (\<lambda>v. v = NV_V_REJ_SCORE) vs)) \<and>
    nv_invalid_docid_cnt afl' = nv_invalid_docid_cnt afl \<and>
    nv_invalid_cnt afl' - nv_invalid_cnt afl =
      (nv_invalid_parse_cnt afl' - nv_invalid_parse_cnt afl) +
      (nv_invalid_rpc_fail_cnt afl' - nv_invalid_rpc_fail_cnt afl) +
      (nv_invalid_rule_cnt afl' - nv_invalid_rule_cnt afl)"
proof -
  have nodoc: "filter (\<lambda>v. v = NV_V_REJ_DOCID) vs = []"
    by (auto simp: assms(1) filter_empty_conv check_never_docid)
  have split: "length (filter nv_v_is_reject us) = length (filter (\<lambda>v. v = NV_V_REJ_PARSE) us) +
      length (filter (\<lambda>v. v = NV_V_REJ_RPC_FAIL) us) +
      length (filter (\<lambda>v. v \<notin> {NV_V_OK, NV_V_REJ_PARSE, NV_V_REJ_RPC_FAIL}) us)" for us
    by (induction us) (auto simp: nv_v_is_reject_def)
  note c =
    fold_counter [of nv_invalid_cnt account "nv_v_is_reject" vs afl, OF account_steps(1)]
    fold_counter [of nv_valid_cnt account "\<lambda>v. v = NV_V_OK" vs afl, OF account_steps(2)]
    fold_counter [of nv_invalid_parse_cnt account "\<lambda>v. v = NV_V_REJ_PARSE" vs afl, OF account_steps(3)]
    fold_counter [of nv_invalid_rpc_fail_cnt account "\<lambda>v. v = NV_V_REJ_RPC_FAIL" vs afl, OF account_steps(4)]
    fold_counter [of nv_invalid_rule_cnt account "\<lambda>v. v \<notin> {NV_V_OK, NV_V_REJ_PARSE, NV_V_REJ_RPC_FAIL}" vs afl, OF account_steps(5)]
    fold_counter [of nv_invalid_allow_cnt account "\<lambda>v. v = NV_V_REJ_ALLOW" vs afl, OF account_steps(6)]
    fold_counter [of nv_invalid_docid_cnt account "\<lambda>v. v = NV_V_REJ_DOCID" vs afl, OF account_steps(7)]
    fold_counter [of nv_invalid_body_cnt account "\<lambda>v. v = NV_V_REJ_BODY" vs afl, OF account_steps(8)]
    fold_counter [of nv_invalid_score_cnt account "\<lambda>v. v = NV_V_REJ_SCORE" vs afl, OF account_steps(9)]
  show ?thesis unfolding assms(2) c split nodoc by simp
qed

definition start_valid :: nv_valid where
  "start_valid = nv_config.extend start_config
     \<lparr>nv_valid_cnt = 0, nv_invalid_cnt = 0, nv_invalid_parse_cnt = 0, nv_invalid_rule_cnt = 0,
      nv_invalid_rpc_fail_cnt = 0, nv_invalid_allow_cnt = 0, nv_invalid_docid_cnt = 0,
      nv_invalid_body_cnt = 0, nv_invalid_score_cnt = 0\<rparr>"

theorem accounting_exact_witness:
  "nv_invalid_docid_cnt (fold account (map (\<lambda>(env, peer, buf).
      nv_validity_check exact_fpu env peer (\<lambda>_ _. []) start_config buf) [(\<lambda>_. None, \<lambda>_. undefined, None)])
      start_valid) = 0"
proof -
  have "nv_invalid_docid_cnt start_valid = 0" by (simp add: start_valid_def nv_config.extend_def)
  then show ?thesis
    using accounting_exact [OF refl refl, of exact_fpu "\<lambda>_ _. []" start_config
        "[(\<lambda>_. None, \<lambda>_. undefined, None)]" start_valid] by simp
qed

end
