(* ===== verification/Nv_Covset.thy ===== *)
theory Nv_Covset
  imports Prelude
begin

text \<open>
  \<open>src/afl-fuzz-nv-covset.c\<close>: canonicalisation of the three components of a security-state
  key, the replay identity of status documents, and the open-addressed set of observed states.
  Also \<open>nv_fnv1a64\<close>, \<open>nv_covset_init\<close> and \<open>nv_covset_insert\<close> of \<open>src/afl-fuzz-run.c\<close>, which
  produce the hashes and own the table. The interface \<open>state_set\<close> states what the observer
  relies on; the table discharges it for every power-of-two capacity.
\<close>

section \<open>Key canonicalisation\<close>

definition NV_KNOWN_METHODS :: "c_string list" where
  "NV_KNOWN_METHODS =
     [''GET'', ''POST'', ''PUT'', ''PATCH'', ''DELETE'', ''HEAD'', ''OPTIONS'']"

definition NV_KNOWN_CLASSES :: "c_string list" where
  "NV_KNOWN_CLASSES =
     [''2xx'', ''3xx'', ''4xx'', ''5xx'', ''conn_refused'', ''timeout'']"

definition NV_PATH_MALFORMED :: c_string where
  "NV_PATH_MALFORMED = ''malformed_path''"

definition NV_STATE_PATH_MAX :: nat where
  "NV_STATE_PATH_MAX = 200"

text \<open>The lookup loops: the first entry that \<open>strcmp\<close> finds equal.\<close>

fun first_equal :: "c_string \<Rightarrow> c_string list \<Rightarrow> c_string option" where
  "first_equal s [] = None"
| "first_equal s (k # ks) = (if s = k then Some k else first_equal s ks)"

definition nv_canon_method :: "c_string ptr \<Rightarrow> c_string" where
  "nv_canon_method m = (case m of None \<Rightarrow> ''INVALID'' | Some s \<Rightarrow>
     (let s1 = skip_spaces s; s2 = strip_end_spaces s1; n = length s2 in
      if n = 0 \<or> n \<ge> 16 then ''INVALID''
      else case first_equal (map c_toupper s2) NV_KNOWN_METHODS of
             Some k \<Rightarrow> k | None \<Rightarrow> ''INVALID''))"

definition nv_canon_class :: "c_string ptr \<Rightarrow> c_string" where
  "nv_canon_class c = (case c of None \<Rightarrow> ''other'' | Some s \<Rightarrow>
     (case first_equal s NV_KNOWN_CLASSES of Some k \<Rightarrow> k | None \<Rightarrow> ''other''))"

text \<open>\<open>None\<close> is the NULL the function returns for a path that is usable as it is.\<close>

definition nv_canon_path_label :: "c_string ptr \<Rightarrow> c_string ptr" where
  "nv_canon_path_label p = (case p of None \<Rightarrow> Some NV_PATH_MALFORMED | Some s \<Rightarrow>
     (case s of [] \<Rightarrow> Some NV_PATH_MALFORMED | ch # _ \<Rightarrow>
       if ch \<noteq> CHR ''/'' then Some NV_PATH_MALFORMED
       else if length s > NV_STATE_PATH_MAX then Some NV_PATH_MALFORMED
       else if list_ex (\<lambda>b. (of_char b :: nat) < 0x20 \<or> (of_char b :: nat) > 0x7e) s
       then Some NV_PATH_MALFORMED else None))"

lemma first_equal_in: "first_equal s ks = (if s \<in> set ks then Some s else None)"
  by (induction ks) auto

lemma nv_canon_method_range:
  "nv_canon_method m \<in> set NV_KNOWN_METHODS \<union> {''INVALID''}"
  by (auto simp: nv_canon_method_def first_equal_in Let_def split: option.splits)

lemma nv_canon_class_range:
  "nv_canon_class c \<in> set NV_KNOWN_CLASSES \<union> {''other''}"
  by (auto simp: nv_canon_class_def first_equal_in split: option.splits)

section \<open>Status replay identity\<close>

datatype status_verdict = NV_STATUS_ACCEPT | NV_STATUS_REPLAY

text \<open>
  The two marks are passed by pointer: \<open>None\<close> for a null pointer. The result carries both
  marks as they stand on return.
\<close>

definition nv_status_is_fresh ::
    "u64 \<Rightarrow> u64 \<Rightarrow> u64 ptr \<Rightarrow> u64 ptr \<Rightarrow> status_verdict \<times> u64 ptr \<times> u64 ptr" where
  "nv_status_is_fresh exec_seq legacy_stamp last_exec_seq last_stamp =
     (case (last_exec_seq, last_stamp) of
        (Some les, Some ls) \<Rightarrow>
          if exec_seq \<noteq> 0 then
            (if exec_seq \<le> les then (NV_STATUS_REPLAY, Some les, Some ls)
             else (NV_STATUS_ACCEPT, Some exec_seq, Some ls))
          else if legacy_stamp = ls then (NV_STATUS_REPLAY, Some les, Some ls)
          else (NV_STATUS_ACCEPT, Some les, Some legacy_stamp)
      | _ \<Rightarrow> (NV_STATUS_ACCEPT, last_exec_seq, last_stamp))"

section \<open>The observed-state table\<close>

datatype covset_result = NV_COVSET_EXISTING | NV_COVSET_INSERTED | NV_COVSET_SATURATED

text \<open>The \<open>for\<close> loop; the first argument is the number of probes left, \<open>cap - probe\<close>.\<close>

fun covset_probe :: "nat \<Rightarrow> u64 list \<Rightarrow> u32 \<Rightarrow> u32 \<Rightarrow> u32 \<Rightarrow> u64 \<Rightarrow>
    covset_result \<times> u64 list \<times> u32" where
  "covset_probe 0 slots msk i used h = (NV_COVSET_SATURATED, slots, used)"
| "covset_probe (Suc k) slots msk i used h =
     (let cur = slots ! unat i in
      if cur = 0 then (NV_COVSET_INSERTED, slots[unat i := h], used + 1)
      else if cur = h then (NV_COVSET_EXISTING, slots, used)
      else covset_probe k slots msk ((i + 1) AND msk) used h)"

definition nv_covset_insert_into ::
    "u64 list ptr \<Rightarrow> u32 \<Rightarrow> u32 ptr \<Rightarrow> u64 \<Rightarrow> covset_result \<times> u64 list ptr \<times> u32 ptr" where
  "nv_covset_insert_into slots cap used h =
     (case (slots, used) of
        (Some sl, Some us) \<Rightarrow>
          if cap = 0 then (NV_COVSET_SATURATED, slots, used)
          else (let msk = cap - 1;
                    (r, sl', us') = covset_probe (unat cap) sl msk (ucast h AND msk) us h
                in (r, Some sl', Some us'))
      | _ \<Rightarrow> (NV_COVSET_SATURATED, slots, used))"

section \<open>The owner of the table\<close>

record covset_st =
  nv_covset :: "u64 list ptr"
  nv_cov_cap :: u32
  nv_cov_used :: u32
  nv_sec_state_saturated :: bool
  nv_sec_state_dropped :: u64

definition nv_covset_init :: "covset_st \<Rightarrow> covset_st" where
  "nv_covset_init st = (case nv_covset st of Some _ \<Rightarrow> st
     | None \<Rightarrow> st\<lparr>nv_cov_cap := push_bit 16 1, nv_cov_used := 0,
         nv_covset := Some (replicate (unat (push_bit 16 1 :: u32)) 0)\<rparr>)"

definition nv_covset_insert :: "covset_st \<Rightarrow> u64 \<Rightarrow> covset_result \<times> covset_st" where
  "nv_covset_insert st0 h =
     (let st = nv_covset_init st0;
          (r, sl, us) = nv_covset_insert_into (nv_covset st) (nv_cov_cap st)
                          (Some (nv_cov_used st)) h;
          st' = st\<lparr>nv_covset := sl,
                   nv_cov_used := (case us of Some u \<Rightarrow> u | None \<Rightarrow> nv_cov_used st)\<rparr>
      in (r, if r = NV_COVSET_SATURATED
             then st'\<lparr>nv_sec_state_saturated := True,
                      nv_sec_state_dropped := nv_sec_state_dropped st' + 1\<rparr>
             else st'))"

text \<open>64-bit FNV-1a over the key, with 0 folded onto 1: 0 marks a free slot.\<close>

definition fnv_step :: "u64 \<Rightarrow> char \<Rightarrow> u64" where
  "fnv_step h ch = (h XOR word_of_nat (of_char ch)) * 1099511628211"

definition nv_fnv1a64 :: "c_string \<Rightarrow> u64" where
  "nv_fnv1a64 s = (let h = foldl fnv_step 1469598103934665603 s in if h \<noteq> 0 then h else 1)"

lemma nv_fnv1a64_nonzero [simp]: "nv_fnv1a64 s \<noteq> 0"
  by (simp add: nv_fnv1a64_def Let_def)

section \<open>Abstraction and invariant of the table\<close>

text \<open>
  The table stands for the set of its non-zero slots. With \<open>n = 2 ^ k\<close> slots a hash starts at
  \<open>home\<close>, and the invariant of linear probing without deletion says that every stored hash is
  reached from its home slot through occupied slots only.
\<close>

definition cov_set :: "u64 list \<Rightarrow> u64 set" where
  "cov_set slots = set slots - {0}"

definition home :: "nat \<Rightarrow> u64 \<Rightarrow> nat" where
  "home n h = unat (ucast h :: u32) mod n"

definition reached :: "u64 list \<Rightarrow> u64 \<Rightarrow> nat \<Rightarrow> bool" where
  "reached slots h d \<longleftrightarrow>
     (\<forall>e < d. slots ! ((home (length slots) h + e) mod length slots) \<notin> {0, h})"

definition cov_table :: "u64 list \<Rightarrow> bool" where
  "cov_table slots \<longleftrightarrow> (\<exists>k < 32. length slots = 2 ^ k) \<and>
     (\<forall>j < length slots. slots ! j \<noteq> 0 \<longrightarrow>
        (\<exists>d < length slots. j = (home (length slots) (slots ! j) + d) mod length slots \<and>
           reached slots (slots ! j) d))"

lemma cov_table_length: "cov_table slots \<Longrightarrow> 0 < length slots"
  by (auto simp: cov_table_def)

text \<open>What a probe sequence returns: it stops at the first slot that is free or holds the hash.\<close>

lemma covset_probe_run:
  assumes len: "length slots = 2 ^ k" and k: "k < 32"
    and i: "unat i = (home (length slots) h + d) mod length slots"
    and n: "n + d = length slots" and r: "reached slots h d"
  shows "covset_probe n slots (2 ^ k - 1) i used h =
    (if \<exists>e < length slots. reached slots h e \<and>
          slots ! ((home (length slots) h + e) mod length slots) \<in> {0, h}
     then let e = (LEAST e. slots ! ((home (length slots) h + e) mod length slots) \<in> {0, h});
              j = (home (length slots) h + e) mod length slots in
          (if slots ! j = 0 then (NV_COVSET_INSERTED, slots[j := h], used + 1)
           else (NV_COVSET_EXISTING, slots, used))
     else (NV_COVSET_SATURATED, slots, used))"
  using i n r
proof (induction n arbitrary: i d)
  case 0
  have "\<not> (\<exists>e < length slots. reached slots h e \<and>
          slots ! ((home (length slots) h + e) mod length slots) \<in> {0, h})"
    using 0 by (auto simp: reached_def)
  then show ?case by auto
next
  case (Suc n)
  let ?p = "\<lambda>e. slots ! ((home (length slots) h + e) mod length slots)"
  show ?case
  proof (cases "?p d \<in> {0, h}")
    case True
    have least: "(LEAST e. ?p e \<in> {0, h}) = d"
      using True Suc.prems(3) by (intro Least_equality) (auto simp: reached_def not_less [symmetric])
    have ex: "\<exists>e < length slots. reached slots h e \<and> ?p e \<in> {0, h}"
      using True Suc.prems by (intro exI [of _ d]) auto
    show ?thesis using True ex unfolding least
      by (auto simp: Suc.prems(1) Let_def)
  next
    case False
    have pos: "0 < length slots" using len by simp
    have lt: "unat i < 2 ^ k" using Suc.prems(1) len by simp
    have "(2::nat) ^ k \<le> 2 ^ 31" using k by (intro power_increasing) auto
    then have "unat i < 2 ^ LENGTH(32) - 1" using lt by simp
    then have "unat (i + 1) = Suc (unat i)" by (rule unat_Suc_word)
    moreover have "unat ((i + 1) AND (2 ^ k - 1)) = unat (i + 1) mod 2 ^ k"
      using k by (intro unat_and_mask_pow2) auto
    ultimately have a: "unat ((i + 1) AND (2 ^ k - 1)) =
        (home (length slots) h + Suc d) mod length slots"
      using Suc.prems(1) len by (simp add: mod_Suc_eq)
    have b: "n + Suc d = length slots" using Suc.prems(2) by simp
    have c: "reached slots h (Suc d)"
      using Suc.prems(3) False by (auto simp: reached_def less_Suc_eq)
    note IH = Suc.IH [OF a b c]
    have "slots ! unat i \<noteq> 0" "slots ! unat i \<noteq> h" using False Suc.prems(1) by auto
    then show ?thesis using IH by (simp add: Let_def)
  qed
qed

lemma ring_position:
  assumes "j < n" obtains e where "e < n" "(a + e) mod n = (j::nat)"
proof
  have n: "0 < n" using assms by simp
  let ?e = "(j + n - a mod n) mod n"
  show "?e < n" using n by simp
  have "a mod n < n" using n by simp
  then have "a mod n + (j + n - a mod n) = j + n" by simp
  then have "(a mod n + (j + n - a mod n)) mod n = j" using assms by simp
  then show "(a + ?e) mod n = j" by (simp add: mod_add_left_eq mod_add_right_eq)
qed

lemma ring_inj:
  assumes "(a + d) mod n = (a + e) mod n" and "d < n" and "e < (n::nat)"
  shows "d = e"
proof -
  have *: "x = y" if "(a + x) mod n = (a + y) mod n" "x < n" "y < n" "x \<le> y" for x y
  proof -
    have "n dvd (a + y) - (a + x)" using that by (metis add_le_cancel_left mod_eq_dvd_iff_nat)
    then have "n dvd y - x" using that by simp
    moreover have "y - x < n" using that by simp
    ultimately have "y - x = 0" using nat_dvd_not_less by blast
    with that show ?thesis by simp
  qed
  show ?thesis using * [of d e] * [of e d] assms by (cases "d \<le> e") auto
qed

text \<open>A stored hash occupies one slot only, so the set counts the occupied slots.\<close>

lemma cov_table_inj:
  assumes t: "cov_table slots" and a: "a < length slots" and b: "b < length slots"
    and eq: "slots ! a = slots ! b" and nz: "slots ! a \<noteq> 0"
  shows "a = b"
proof -
  let ?v = "slots ! a" and ?n = "length slots"
  from t a nz obtain d where d: "d < ?n" "a = (home ?n ?v + d) mod ?n" "reached slots ?v d"
    unfolding cov_table_def by blast
  from t b nz eq obtain e where e: "e < ?n" "b = (home ?n ?v + e) mod ?n" "reached slots ?v e"
    unfolding cov_table_def by (metis (no_types, lifting))
  have "\<not> d < e"
  proof
    assume "d < e"
    then have "slots ! ((home ?n ?v + d) mod ?n) \<notin> {0, ?v}" using e(3) unfolding reached_def by blast
    then show False unfolding d(2) [symmetric] by simp
  qed
  moreover have "\<not> e < d"
  proof
    assume "e < d"
    then have "slots ! ((home ?n ?v + e) mod ?n) \<notin> {0, ?v}" using d(3) unfolding reached_def by blast
    then have "slots ! b \<notin> {0, ?v}" by (subst e(2))
    then show False using eq by simp
  qed
  ultimately have "d = e" by simp
  then show ?thesis using d(2) e(2) by (rule_tac trans [OF d(2)]) simp
qed

lemma card_cov_set:
  assumes "cov_table slots"
  shows "card (cov_set slots) = card {j. j < length slots \<and> slots ! j \<noteq> 0}"
proof -
  have "inj_on ((!) slots) {j. j < length slots \<and> slots ! j \<noteq> 0}"
  proof (rule inj_onI)
    fix x y
    assume "x \<in> {j. j < length slots \<and> slots ! j \<noteq> 0}"
      and "y \<in> {j. j < length slots \<and> slots ! j \<noteq> 0}" and "slots ! x = slots ! y"
    then show "x = y" by (intro cov_table_inj [OF assms]) simp_all
  qed
  note inj = this
  have img: "(!) slots ` {j. j < length slots \<and> slots ! j \<noteq> 0} = cov_set slots"
    by (auto simp: cov_set_def in_set_conv_nth)
  from inj have "card ((!) slots ` {j. j < length slots \<and> slots ! j \<noteq> 0}) =
      card {j. j < length slots \<and> slots ! j \<noteq> 0}" by (rule card_image)
  then show ?thesis unfolding img .
qed

lemma cov_set_full:
  assumes "cov_table slots"
  shows "card (cov_set slots) \<le> length slots"
    and "card (cov_set slots) < length slots \<longleftrightarrow> (\<exists>j < length slots. slots ! j = 0)"
proof -
  let ?A = "{j. j < length slots \<and> slots ! j \<noteq> 0}"
  have sub: "?A \<subseteq> {..< length slots}" by blast
  have fin: "finite {..< length slots}" by simp
  have c: "card (cov_set slots) = card ?A" by (rule card_cov_set [OF assms])
  have "card ?A \<le> card {..< length slots}" by (rule card_mono [OF fin sub])
  then show "card (cov_set slots) \<le> length slots" unfolding c by simp
  show "card (cov_set slots) < length slots \<longleftrightarrow> (\<exists>j < length slots. slots ! j = 0)"
  proof
    assume lt: "card (cov_set slots) < length slots"
    show "\<exists>j < length slots. slots ! j = 0"
    proof (rule ccontr)
      assume "\<not> ?thesis"
      then have "?A = {..< length slots}" by blast
      then show False using lt unfolding c by simp
    qed
  next
    assume "\<exists>j < length slots. slots ! j = 0"
    then have "?A \<subset> {..< length slots}" by blast
    then have "card ?A < card {..< length slots}" by (rule psubset_card_mono [OF fin])
    then show "card (cov_set slots) < length slots" unfolding c by simp
  qed
qed

lemma cov_table_replicate: "k < 32 \<Longrightarrow> cov_table (replicate (2 ^ k) 0)"
  by (auto simp: cov_table_def)

section \<open>Insertion implements set insertion with a capacity\<close>

lemma insert_into_run:
  assumes t: "cov_table slots" and cap: "unat cap = length slots"
  shows "nv_covset_insert_into (Some slots) cap (Some used) h =
    (let (r, sl, us) =
      (if \<exists>e < length slots. reached slots h e \<and>
          slots ! ((home (length slots) h + e) mod length slots) \<in> {0, h}
       then let e = (LEAST e. slots ! ((home (length slots) h + e) mod length slots) \<in> {0, h});
                j = (home (length slots) h + e) mod length slots in
            (if slots ! j = 0 then (NV_COVSET_INSERTED, slots[j := h], used + 1)
             else (NV_COVSET_EXISTING, slots, used))
       else (NV_COVSET_SATURATED, slots, used)) in (r, Some sl, Some us))"
proof -
  from t obtain k where k: "length slots = 2 ^ k" "k < 32" by (auto simp: cov_table_def)
  have capw: "cap = 2 ^ k"
  proof (rule word_unat_eq_iff [THEN iffD2])
    show "unat cap = unat ((2::u32) ^ k)" using cap k by (simp add: unat_pow2)
  qed
  have nz: "cap \<noteq> 0" using cap k by auto
  have start: "unat (ucast h AND (2 ^ k - 1) :: u32) =
      (home (length slots) h + 0) mod length slots"
    using k by (simp add: unat_and_mask_pow2 home_def)
  have r0: "reached slots h 0" by (simp add: reached_def)
  note run = covset_probe_run [OF k start _ r0, of "length slots" used]
  show ?thesis
    using nz run by (simp add: nv_covset_insert_into_def cap capw [symmetric] Let_def)
qed

lemma insert_present:
  assumes t: "cov_table slots" and cap: "unat cap = length slots"
    and h: "h \<in> cov_set slots"
  shows "nv_covset_insert_into (Some slots) cap (Some used) h =
    (NV_COVSET_EXISTING, Some slots, Some used)"
proof -
  let ?p = "\<lambda>e. slots ! ((home (length slots) h + e) mod length slots)"
  from h obtain j where j: "j < length slots" "slots ! j = h" and nz: "h \<noteq> 0"
    by (auto simp: cov_set_def in_set_conv_nth)
  with t obtain d where d: "d < length slots"
      "j = (home (length slots) h + d) mod length slots" "reached slots h d"
    unfolding cov_table_def by blast
  have pd: "?p d = h" using d(2) j by simp
  have least: "(LEAST e. ?p e \<in> {0, h}) = d"
  proof (rule Least_equality)
    show "?p d \<in> {0, h}" using pd by simp
    show "d \<le> e" if "?p e \<in> {0, h}" for e
      using that d(3) unfolding reached_def by (meson not_less)
  qed
  have "\<exists>e < length slots. reached slots h e \<and> ?p e \<in> {0, h}"
    using d pd by blast
  then show ?thesis unfolding insert_into_run [OF t cap] least using pd nz by (simp add: Let_def)
qed

lemma insert_full:
  assumes t: "cov_table slots" and cap: "unat cap = length slots"
    and h: "h \<notin> cov_set slots" and full: "card (cov_set slots) = length slots"
  shows "nv_covset_insert_into (Some slots) cap (Some used) h =
    (NV_COVSET_SATURATED, Some slots, Some used)"
proof -
  have "slots ! j \<noteq> 0" if "j < length slots" for j
    using cov_set_full(2) [OF t] full that by auto
  moreover from this have "slots ! j \<noteq> h" if "j < length slots" for j
    using h that by (auto simp: cov_set_def)
  moreover have "0 < length slots" using t by (rule cov_table_length)
  ultimately have no: "\<not> (\<exists>e < length slots. reached slots h e \<and>
      slots ! ((home (length slots) h + e) mod length slots) \<in> {0, h})" by auto
  show ?thesis unfolding insert_into_run [OF t cap] if_not_P [OF no] by simp
qed

text \<open>Filling the first free slot of the probe sequence keeps every stored hash reachable.\<close>

lemma cov_table_fill:
  assumes t: "cov_table slots" and d: "d < length slots"
    and j: "j = (home (length slots) h + d) mod length slots"
    and free: "slots ! j = 0" and r: "reached slots h d" and h: "h \<noteq> 0" "h \<notin> cov_set slots"
  shows "cov_table (slots[j := h])"
proof -
  let ?n = "length slots"
  have jn: "j < ?n" using j cov_table_length [OF t] by simp
  have other: "j \<noteq> (home ?n h + e) mod ?n" if "e < d" for e
    using ring_inj [of "home ?n h" e ?n d] that d j by auto
  have new: "reached (slots[j := h]) h d"
    using r other unfolding reached_def by auto
  have old: "\<exists>d' < ?n. i = (home ?n (slots ! i) + d') mod ?n \<and>
      reached (slots[j := h]) (slots ! i) d'" if i: "i < ?n" "slots ! i \<noteq> 0" for i
  proof -
    from t i obtain d' where d': "d' < ?n" "i = (home ?n (slots ! i) + d') mod ?n"
      "reached slots (slots ! i) d'" unfolding cov_table_def by blast
    have "j \<noteq> (home ?n (slots ! i) + e) mod ?n" if "e < d'" for e
      using d'(3) that free unfolding reached_def by auto
    then have "reached (slots[j := h]) (slots ! i) d'"
      using d'(3) unfolding reached_def by auto
    with d' show ?thesis by blast
  qed
  have "\<exists>d' < ?n. i = (home ?n (slots[j := h] ! i) + d') mod ?n \<and>
      reached (slots[j := h]) (slots[j := h] ! i) d'" if "i < ?n" "slots[j := h] ! i \<noteq> 0" for i
  proof (cases "i = j")
    case True
    then show ?thesis using new d j jn by auto
  next
    case False
    then show ?thesis using old [of i] that by simp
  qed
  then show ?thesis using t unfolding cov_table_def by simp
qed

lemma insert_fresh:
  assumes t: "cov_table slots" and cap: "unat cap = length slots"
    and h: "h \<noteq> 0" "h \<notin> cov_set slots" and room: "card (cov_set slots) < length slots"
  obtains sl where "nv_covset_insert_into (Some slots) cap (Some used) h =
      (NV_COVSET_INSERTED, Some sl, Some (used + 1))"
    "cov_table sl" "length sl = length slots" "cov_set sl = insert h (cov_set slots)"
proof -
  let ?n = "length slots"
  let ?p = "\<lambda>e. slots ! ((home ?n h + e) mod ?n)"
  let ?d = "LEAST e. ?p e \<in> {0, h}"
  let ?j = "(home ?n h + ?d) mod ?n"
  obtain i where i: "i < ?n" "slots ! i = 0" using room cov_set_full(2) [OF t] by blast
  obtain e where e: "e < ?n" "(home ?n h + e) mod ?n = i" using i(1) by (rule ring_position)
  then have pe: "?p e \<in> {0, h}" using i(2) by simp
  then have pd: "?p ?d \<in> {0, h}" by (rule LeastI)
  have dn: "?d < ?n" using Least_le [of "\<lambda>e. ?p e \<in> {0, h}", OF pe] e(1) by simp
  have r: "reached slots h ?d" unfolding reached_def using not_less_Least by blast
  have jn: "?j < ?n" using cov_table_length [OF t] by simp
  then have "slots ! ?j \<noteq> h" using h nth_mem unfolding cov_set_def by (metis Diff_iff empty_iff insert_iff)
  with pd have free: "slots ! ?j = 0" by simp
  have ex: "\<exists>e < ?n. reached slots h e \<and> ?p e \<in> {0, h}" using dn r pd by blast
  have "nv_covset_insert_into (Some slots) cap (Some used) h =
      (NV_COVSET_INSERTED, Some (slots[?j := h]), Some (used + 1))"
    unfolding insert_into_run [OF t cap] using ex free by (simp add: Let_def)
  moreover have "cov_table (slots[?j := h])" by (rule cov_table_fill [OF t dn refl free r h])
  moreover have "cov_set (slots[?j := h]) = insert h (cov_set slots)"
    using in_set_update_zero [OF jn free, of h] h(1) by (auto simp: cov_set_def)
  ultimately show ?thesis using that by simp
qed

section \<open>The interface of the observed-state set\<close>

text \<open>
  What the observer of security states relies on: a set of non-zero hashes with a fixed
  capacity, whose insertion reports whether the state was there, is new, or was dropped.
\<close>

locale state_set =
  fixes put :: "'s \<Rightarrow> u64 \<Rightarrow> covset_result \<times> 's"
    and states :: "'s \<Rightarrow> u64 set"
    and capacity :: "'s \<Rightarrow> nat"
    and invar :: "'s \<Rightarrow> bool"
  assumes put_invar: "invar s \<Longrightarrow> h \<noteq> 0 \<Longrightarrow> invar (snd (put s h))"
    and put_capacity: "invar s \<Longrightarrow> h \<noteq> 0 \<Longrightarrow> capacity (snd (put s h)) = capacity s"
    and states_finite: "invar s \<Longrightarrow> finite (states s)"
    and states_bound: "invar s \<Longrightarrow> card (states s) \<le> capacity s"
    and put_result: "invar s \<Longrightarrow> h \<noteq> 0 \<Longrightarrow> fst (put s h) =
      (if h \<in> states s then NV_COVSET_EXISTING
       else if card (states s) < capacity s then NV_COVSET_INSERTED else NV_COVSET_SATURATED)"
    and put_states: "invar s \<Longrightarrow> h \<noteq> 0 \<Longrightarrow> states (snd (put s h)) =
      (if fst (put s h) = NV_COVSET_INSERTED then insert h (states s) else states s)"

fun observe_all :: "('s \<Rightarrow> u64 \<Rightarrow> covset_result \<times> 's) \<Rightarrow> 's \<Rightarrow> u64 list \<Rightarrow>
    covset_result list \<times> 's" where
  "observe_all put s [] = ([], s)"
| "observe_all put s (h # hs) =
     (let (r, s1) = put s h; (rs, s2) = observe_all put s1 hs in (r # rs, s2))"

context state_set begin

lemma observe_invar:
  "invar s \<Longrightarrow> 0 \<notin> set hs \<Longrightarrow>
    invar (snd (observe_all put s hs)) \<and> capacity (snd (observe_all put s hs)) = capacity s"
proof (induction hs arbitrary: s)
  case (Cons h hs)
  then have "h \<noteq> 0" "0 \<notin> set hs" by auto
  with Cons show ?case
    using put_invar [of s h] put_capacity [of s h] by (simp add: Let_def split_beta)
qed simp

text \<open>Every \<open>INSERTED\<close> answer stands for one more recorded state, and no other answer does.\<close>

lemma observe_new_count:
  "invar s \<Longrightarrow> 0 \<notin> set hs \<Longrightarrow>
    card (states (snd (observe_all put s hs))) =
      card (states s) + count_list (fst (observe_all put s hs)) NV_COVSET_INSERTED"
proof (induction hs arbitrary: s)
  case (Cons h hs)
  then have h: "h \<noteq> 0" "0 \<notin> set hs" by auto
  have "card (states (snd (put s h))) =
      card (states s) + (if fst (put s h) = NV_COVSET_INSERTED then 1 else 0)"
    using put_states [OF Cons.prems(1) h(1)] put_result [OF Cons.prems(1) h(1)]
      states_finite [OF Cons.prems(1)] by (simp split: if_splits)
  with Cons.IH [OF put_invar [OF Cons.prems(1) h(1)] h(2)] show ?case
    by (simp add: Let_def split_beta)
qed simp

lemma observe_room:
  "invar s \<Longrightarrow> 0 \<notin> set hs \<Longrightarrow> card (states s \<union> set hs) \<le> capacity s \<Longrightarrow>
    states (snd (observe_all put s hs)) = states s \<union> set hs \<and>
    NV_COVSET_SATURATED \<notin> set (fst (observe_all put s hs))"
proof (induction hs arbitrary: s)
  case (Cons h hs)
  then have h: "h \<noteq> 0" "0 \<notin> set hs" by auto
  let ?s = "snd (put s h)"
  have fin: "finite (states s \<union> set (h # hs))" using states_finite [OF Cons.prems(1)] by simp
  have notfull: "card (states s) < capacity s" if "h \<notin> states s"
  proof -
    have "states s \<subset> states s \<union> set (h # hs)" using that by auto
    from psubset_card_mono [OF fin this] Cons.prems(3) show ?thesis by simp
  qed
  have st: "states ?s = insert h (states s)" and r: "fst (put s h) \<noteq> NV_COVSET_SATURATED"
    using put_result [OF Cons.prems(1) h(1)] put_states [OF Cons.prems(1) h(1)] notfull by auto
  have "card (states ?s \<union> set hs) \<le> capacity ?s"
    using Cons.prems(3) put_capacity [OF Cons.prems(1) h(1)] st by simp
  from Cons.IH [OF put_invar [OF Cons.prems(1) h(1)] h(2) this] st r show ?case
    by (simp add: Let_def split_beta)
qed simp

end

definition covset_states :: "covset_st \<Rightarrow> u64 set" where
  "covset_states st = (case nv_covset st of None \<Rightarrow> {} | Some sl \<Rightarrow> cov_set sl)"

definition covset_capacity :: "covset_st \<Rightarrow> nat" where
  "covset_capacity st = (case nv_covset st of None \<Rightarrow> 65536 | Some sl \<Rightarrow> length sl)"

definition covset_inv :: "covset_st \<Rightarrow> bool" where
  "covset_inv st = (case nv_covset st of None \<Rightarrow> True | Some sl \<Rightarrow>
     cov_table sl \<and> unat (nv_cov_cap st) = length sl \<and>
     unat (nv_cov_used st) = card (cov_set sl))"

lemma nv_covset_init_facts:
  assumes "covset_inv st"
  obtains sl where "nv_covset (nv_covset_init st) = Some sl" "cov_table sl"
    "unat (nv_cov_cap (nv_covset_init st)) = length sl"
    "unat (nv_cov_used (nv_covset_init st)) = card (cov_set sl)"
    "covset_states st = cov_set sl" "covset_capacity st = length sl"
proof (cases "nv_covset st")
  case None
  have "unat (push_bit 16 1 :: u32) = 65536" by (simp add: push_bit_eq_mult)
  moreover have "cov_table (replicate (2 ^ 16) 0)" by (rule cov_table_replicate) simp
  moreover have "cov_set (replicate 65536 0) = {}" by (simp add: cov_set_def)
  ultimately show thesis using None
    by (intro that [of "replicate 65536 0"])
       (simp_all add: nv_covset_init_def covset_states_def covset_capacity_def)
next
  case (Some sl)
  then show thesis using assms
    by (intro that [of sl])
       (simp_all add: nv_covset_init_def covset_inv_def covset_states_def covset_capacity_def)
qed

lemma cov_length_bound:
  assumes "cov_table sl" shows "length sl \<le> 2 ^ 31"
proof -
  obtain k where "length sl = 2 ^ k" "k < 32" using assms by (auto simp: cov_table_def)
  moreover from this have "(2::nat) ^ k \<le> 2 ^ 31" by (intro power_increasing) auto
  ultimately show ?thesis by simp
qed

text \<open>One insertion through the owner, all three answers.\<close>

lemma nv_covset_insert_spec:
  assumes inv: "covset_inv st" and h: "h \<noteq> 0"
  shows "fst (nv_covset_insert st h) =
      (if h \<in> covset_states st then NV_COVSET_EXISTING
       else if card (covset_states st) < covset_capacity st then NV_COVSET_INSERTED
       else NV_COVSET_SATURATED)"
    and "covset_states (snd (nv_covset_insert st h)) =
      (if fst (nv_covset_insert st h) = NV_COVSET_INSERTED then insert h (covset_states st)
       else covset_states st)"
    and "covset_inv (snd (nv_covset_insert st h))"
    and "covset_capacity (snd (nv_covset_insert st h)) = covset_capacity st"
proof -
  obtain sl where sl: "nv_covset (nv_covset_init st) = Some sl" "cov_table sl"
    "unat (nv_cov_cap (nv_covset_init st)) = length sl"
    "unat (nv_cov_used (nv_covset_init st)) = card (cov_set sl)"
    and abs: "covset_states st = cov_set sl" "covset_capacity st = length sl"
    using inv by (rule nv_covset_init_facts)
  let ?cap = "nv_cov_cap (nv_covset_init st)" and ?us = "nv_cov_used (nv_covset_init st)"
  have "fst (nv_covset_insert st h) = (if h \<in> cov_set sl then NV_COVSET_EXISTING
       else if card (cov_set sl) < length sl then NV_COVSET_INSERTED else NV_COVSET_SATURATED) \<and>
    covset_states (snd (nv_covset_insert st h)) =
      (if fst (nv_covset_insert st h) = NV_COVSET_INSERTED then insert h (cov_set sl)
       else cov_set sl) \<and> covset_inv (snd (nv_covset_insert st h)) \<and>
    covset_capacity (snd (nv_covset_insert st h)) = length sl"
  proof -
    consider (old) "h \<in> cov_set sl" | (new) "h \<notin> cov_set sl" "card (cov_set sl) < length sl"
      | (full) "h \<notin> cov_set sl" "card (cov_set sl) = length sl"
      using cov_set_full(1) [OF sl(2)] by fastforce
    then show ?thesis
    proof cases
      case old
      from insert_present [OF sl(2,3) old, of ?us] show ?thesis using old sl
        by (simp add: nv_covset_insert_def Let_def covset_states_def covset_inv_def
            covset_capacity_def)
    next
      case new
      obtain sl' where sl': "nv_covset_insert_into (Some sl) ?cap (Some ?us) h =
          (NV_COVSET_INSERTED, Some sl', Some (?us + 1))"
        "cov_table sl'" "length sl' = length sl" "cov_set sl' = insert h (cov_set sl)"
        using insert_fresh [OF sl(2,3) h new, of ?us] by blast
      have "unat ?us < 2 ^ LENGTH(32) - 1"
        using sl(4) new(2) cov_length_bound [OF sl(2)] by simp
      then have "unat (?us + 1) = Suc (card (cov_set sl))"
        using unat_Suc_word sl(4) by metis
      then show ?thesis using sl sl' new
        by (simp add: nv_covset_insert_def Let_def covset_states_def covset_inv_def
            covset_capacity_def cov_set_def)
    next
      case full
      from insert_full [OF sl(2,3) full, of ?us] show ?thesis using full sl
        by (simp add: nv_covset_insert_def Let_def covset_states_def covset_inv_def
            covset_capacity_def)
    qed
  qed
  then show "fst (nv_covset_insert st h) =
      (if h \<in> covset_states st then NV_COVSET_EXISTING
       else if card (covset_states st) < covset_capacity st then NV_COVSET_INSERTED
       else NV_COVSET_SATURATED)"
    and "covset_states (snd (nv_covset_insert st h)) =
      (if fst (nv_covset_insert st h) = NV_COVSET_INSERTED then insert h (covset_states st)
       else covset_states st)"
    and "covset_inv (snd (nv_covset_insert st h))"
    and "covset_capacity (snd (nv_covset_insert st h)) = covset_capacity st"
    unfolding abs by blast+
qed

interpretation cov: state_set nv_covset_insert covset_states covset_capacity covset_inv
proof unfold_locales
  fix s h
  assume s: "covset_inv s"
  obtain sl where "covset_states s = cov_set sl" "covset_capacity s = length sl" "cov_table sl"
    using s by (rule nv_covset_init_facts)
  then show "finite (covset_states s)" and "card (covset_states s) \<le> covset_capacity s"
    using cov_set_full(1) by (auto simp: cov_set_def)
qed (fact nv_covset_insert_spec)+

section \<open>Properties\<close>

text \<open>
  C4 Inserting a hash through \<open>nv_covset_insert\<close> is set insertion with a capacity: it answers
  EXISTING exactly for recorded hashes, INSERTED exactly for new ones while there is room, and
  SATURATED exactly when the table is full of other hashes; only INSERTED changes the set, and
  the probing invariant with the used counter is kept.
\<close>

theorem covset_insert_refines:
  assumes "covset_inv st" and "h \<noteq> 0"
  shows "fst (nv_covset_insert st h) =
      (if h \<in> covset_states st then NV_COVSET_EXISTING
       else if card (covset_states st) < covset_capacity st then NV_COVSET_INSERTED
       else NV_COVSET_SATURATED) \<and>
    covset_states (snd (nv_covset_insert st h)) =
      (if fst (nv_covset_insert st h) = NV_COVSET_INSERTED then insert h (covset_states st)
       else covset_states st) \<and>
    covset_inv (snd (nv_covset_insert st h))"
  using cov.put_result [OF assms] cov.put_states [OF assms] cov.put_invar [OF assms] by blast

definition two_slots :: covset_st where
  "two_slots = \<lparr>nv_covset = Some [0, 0], nv_cov_cap = 2, nv_cov_used = 0,
     nv_sec_state_saturated = False, nv_sec_state_dropped = 0\<rparr>"

lemma two_slots_inv: "covset_inv two_slots"
proof -
  have "cov_table [0, 0]" using cov_table_replicate [of 1] by (simp add: numeral_2_eq_2)
  then show ?thesis by (simp add: covset_inv_def two_slots_def cov_set_def)
qed

theorem covset_insert_refines_witness:
  "covset_inv two_slots \<and> fst (nv_covset_insert two_slots 7) = NV_COVSET_INSERTED \<and>
   covset_states (snd (nv_covset_insert two_slots 7)) = {7}"
  using covset_insert_refines [OF two_slots_inv, of 7] two_slots_inv
  by (simp add: two_slots_def covset_states_def covset_capacity_def cov_set_def)

text \<open>
  Starting with no table, after any sequence of observed keys the number of INSERTED answers
  is the number of recorded states, and as long as at most 65536 distinct hashes occur no state
  is dropped and the recorded set is exactly the set of their hashes.
\<close>

theorem covset_new_states_exact:
  assumes "nv_covset st = None"
    and "run = observe_all nv_covset_insert st (map nv_fnv1a64 keys)"
  shows "card (covset_states (snd run)) = count_list (fst run) NV_COVSET_INSERTED \<and>
    (card (nv_fnv1a64 ` set keys) \<le> 65536 \<longrightarrow>
      covset_states (snd run) = nv_fnv1a64 ` set keys \<and> NV_COVSET_SATURATED \<notin> set (fst run))"
proof -
  have inv: "covset_inv st" and none: "covset_states st = {}" "covset_capacity st = 65536"
    using assms(1) by (simp_all add: covset_inv_def covset_states_def covset_capacity_def)
  have nz: "0 \<notin> set (map nv_fnv1a64 keys)" by (auto simp: eq_commute [of 0])
  show ?thesis
    using cov.observe_new_count [OF inv nz] cov.observe_room [OF inv nz] none assms(2) by simp
qed

definition no_table :: covset_st where
  "no_table = \<lparr>nv_covset = None, nv_cov_cap = 0, nv_cov_used = 0,
     nv_sec_state_saturated = False, nv_sec_state_dropped = 0\<rparr>"

theorem covset_new_states_exact_witness:
  "covset_states (snd (observe_all nv_covset_insert no_table
     (map nv_fnv1a64 [''GET /|2xx'', ''GET /|2xx'']))) = {nv_fnv1a64 ''GET /|2xx''}"
  using covset_new_states_exact [of no_table _ "[''GET /|2xx'', ''GET /|2xx'']", OF _ refl]
  by (simp add: no_table_def)

text \<open>Feeding a sequence of status documents \<open>(exec_seq, stamp)\<close>; the accepted ones.\<close>

fun accepted :: "u64 \<Rightarrow> u64 \<Rightarrow> (u64 \<times> u64) list \<Rightarrow> (u64 \<times> u64) list" where
  "accepted les ls [] = []"
| "accepted les ls ((e, s) # ds) =
     (case nv_status_is_fresh e s (Some les) (Some ls) of
        (v, Some les', Some ls') \<Rightarrow>
          (if v = NV_STATUS_ACCEPT then [(e, s)] else []) @ accepted les' ls' ds
      | _ \<Rightarrow> [])"

text \<open>
  Whatever status documents arrive, the execution ids that are accepted are strictly
  increasing and above the mark the run started with, so no execution is consumed twice and no
  stale document moves the mark back; documents without an id do not disturb this.
\<close>

theorem status_ids_strictly_increase:
  "sorted_wrt (<) (les # filter (\<lambda>e. e \<noteq> 0) (map fst (accepted les ls ds)))"
proof (induction ds arbitrary: les ls)
  case (Cons d ds)
  obtain e s where d: "d = (e, s)" by force
  show ?case
  proof (cases "e = 0")
    case True
    have eq: "filter (\<lambda>e. e \<noteq> 0) (map fst (accepted les ls (d # ds))) =
        filter (\<lambda>e. e \<noteq> 0) (map fst (accepted les (if s = ls then ls else s) ds))"
      using True d by (simp add: nv_status_is_fresh_def)
    show ?thesis unfolding eq by (rule Cons)
  next
    case False
    show ?thesis
    proof (cases "e \<le> les")
      case True
      have eq: "accepted les ls (d # ds) = accepted les ls ds"
        using True False d by (simp add: nv_status_is_fresh_def)
      show ?thesis unfolding eq by (rule Cons)
    next
      case less: False
      have eq: "filter (\<lambda>e. e \<noteq> 0) (map fst (accepted les ls (d # ds))) =
          e # filter (\<lambda>e. e \<noteq> 0) (map fst (accepted e ls ds))"
        using less False d by (simp add: nv_status_is_fresh_def)
      have "sorted_wrt (<) (e # filter (\<lambda>e. e \<noteq> 0) (map fst (accepted e ls ds)))" by (rule Cons)
      moreover have "les < e" using less by simp
      ultimately show ?thesis unfolding eq by (auto intro: less_trans)
    qed
  qed
qed simp

end
