(* ===== verification/Nv_Observe.thy ===== *)
theory Nv_Observe
  imports Nv_Validity Nv_Covset
begin

text \<open>
  Observation of the target's security state (\<open>src/src/afl-fuzz-run.c\<close>): reading the status
  document or the status ledger the harness writes, folding it into the set of observed states,
  waiting for the document of the execution just finished, the reward, and the second reader
  \<open>nv_read_status_json\<close> that the error statistics use.
\<close>

section \<open>State\<close>

record nv_seen = nv_valid +
  covset :: covset_st
  nv_http_status_ok :: u64
  nv_http_status_fail :: u64
  nv_ncov_hit :: u64
  nv_last_status_seq :: u64
  nv_err_cnt :: u64
  nv_rec_cnt :: u64
  nv_rec_ms_sum :: u64
  nv_status_cnt :: u64
  nv_sec_state_obs :: u64
  nv_sec_state_new_total :: u64
  nv_sec_state_delta_last :: u64
  nv_sec_state_seed_credit :: u64
  nv_last_exec_seq :: u64
  nv_sec_state_replays :: u64
  nv_sec_state_reward_src_seq :: u64
  queue_cur_ss_cov_cnt :: "u64 ptr"
  ledger_offset :: nat
  state_trace :: c_string

text \<open>
  \<open>queue_cur_ss_cov_cnt\<close> is \<open>queue_cur->ss_cov_cnt\<close>, with \<open>None\<close> for a null \<open>queue_cur\<close>;
  \<open>ledger_offset\<close> is the function's static variable; \<open>state_trace\<close> is the content of the file
  \<open>NV_STATE_TRACE_PATH\<close>.
\<close>

record nv_state_obs =
  obs_has :: bool
  obs_is_exception :: bool
  obs_recovered :: bool
  obs_is_4xx :: bool
  obs_ncov_delta :: u64
  obs_new_states :: u64
  obs_state_id :: u64
  obs_exec_seq :: u64
  obs_http_status :: int
  obs_validation_reject :: bool

definition no_obs :: nv_state_obs where
  "no_obs = \<lparr>obs_has = False, obs_is_exception = False, obs_recovered = False, obs_is_4xx = False,
     obs_ncov_delta = 0, obs_new_states = 0, obs_state_id = 0, obs_exec_seq = 0,
     obs_http_status = 0, obs_validation_reject = False\<rparr>"

text \<open>What is on disk when the observer looks: the ledger and the snapshot, if they open.\<close>

record status_world =
  world_ledger :: "c_string option"
  world_snapshot :: "c_string option"

section \<open>Which text is read\<close>

datatype status_text = Status_fail | Status_nothing | Status_text c_string "nat option"

text \<open>\<open>getline\<close> from the offset; a line counts only with its newline.\<close>

definition first_line :: "c_string \<Rightarrow> c_string option" where
  "first_line s = (case memchr s (CHR 0x0A) of None \<Rightarrow> None | Some i \<Rightarrow> Some (take (Suc i) s))"

definition read_status_text :: "env_vars \<Rightarrow> status_world \<Rightarrow> nat \<Rightarrow> status_text" where
  "read_status_text env w offset =
     (case getenv_nonempty env ''NV_STATUS_LEDGER_PATH'' of
        Some ledger_path \<Rightarrow>
          (case world_ledger w of
             None \<Rightarrow> Status_fail
           | Some ledger \<Rightarrow>
               (case first_line (drop offset ledger) of
                  None \<Rightarrow> Status_nothing
                | Some line \<Rightarrow>
                    if length line > 65536 then Status_nothing
                    else Status_text line (Some (offset + length line))))
      | None \<Rightarrow>
          (case world_snapshot w of
             None \<Rightarrow> Status_fail
           | Some buf \<Rightarrow>
               if buf = [] \<or> length buf > 65536 then Status_fail else Status_text buf None))"

section \<open>One observation\<close>

definition doc_exec_seq :: "json \<Rightarrow> u64" where
  "doc_exec_seq doc =
     (case json_double (json_get doc ''exec_seq'') of
        Some d \<Rightarrow> if cd_less (Finite 0) d then cd_word d else 0 | None \<Rightarrow> 0)"

definition doc_stamp :: "json \<Rightarrow> u64" where
  "doc_stamp doc =
     (let ts_ms = json_word (json_get doc ''ts_ms'') :: u64;
          body_hash16 = json_word (json_get doc ''body_hash16'') :: u32;
          stamp = (if ts_ms \<noteq> 0 then ts_ms XOR push_bit 32 (ucast body_hash16) else 0)
      in if stamp = 0 then 1 else stamp)"

definition doc_text :: "json \<Rightarrow> c_string \<Rightarrow> c_string \<Rightarrow> c_string" where
  "doc_text doc name dflt =
     (case json_string (json_get doc name) of Some s \<Rightarrow> s | None \<Rightarrow> dflt)"

definition doc_int :: "json \<Rightarrow> c_string \<Rightarrow> int" where
  "doc_int doc name = (case json_int (json_get doc name) of Some i \<Rightarrow> i | None \<Rightarrow> 0)"

text \<open>The canonical key \<open>METHOD PATH|CLASS\<close>, and the canonical class.\<close>

definition state_key :: "'a nv_config_scheme \<Rightarrow> json \<Rightarrow> c_string" where
  "state_key afl doc =
     (let cmethod = nv_canon_method (Some (doc_text doc ''method'' ''UNK''));
          pathv = doc_text doc ''path'' ''/'';
          ccls = nv_canon_class (Some (doc_text doc ''class'' ''other''));
          cpath = (case nv_canon_path_label (Some pathv) of
                     Some l \<Rightarrow> l
                   | None \<Rightarrow> if nv_is_allowed_pair afl cmethod pathv then pathv else ''unknown_path'')
      in buf_cut 1024 (cmethod @ '' '' @ cpath @ ''|'' @ ccls))"

definition doc_class :: "json \<Rightarrow> c_string" where
  "doc_class doc = nv_canon_class (Some (doc_text doc ''class'' ''other''))"

definition hex_digit :: "nat \<Rightarrow> char" where
  "hex_digit n = (if n < 10 then char_of (48 + n) else char_of (87 + n))"

fun hex_nat :: "nat \<Rightarrow> c_string" where
  "hex_nat n = (if n < 16 then [hex_digit n] else hex_nat (n div 16) @ [hex_digit (n mod 16)])"

declare hex_nat.simps [simp del]

definition trace_record :: "u64 \<Rightarrow> c_string \<Rightarrow> u64 \<Rightarrow> u64 \<Rightarrow> c_string" where
  \<open>trace_record seq key h new =
     ''{"exec_seq":'' @ dec_nat (unat seq) @ '',"state":"'' @ key @ ''","state_id":"'' @
     hex_nat (unat h) @ ''","new":'' @ dec_nat (unat new) @ ''}'' @ newline\<close>

text \<open>The error and recovery counters, after the document is known to be fresh.\<close>

definition count_errors :: "json \<Rightarrow> 'a nv_seen_scheme \<Rightarrow> 'a nv_seen_scheme" where
  "count_errors doc afl =
     (let is_exc_flag = doc_int doc ''is_exception'';
          afl = (if is_exc_flag \<noteq> 0 then afl\<lparr>nv_err_cnt := nv_err_cnt afl + 1\<rparr> else afl);
          recover_ms = json_word (json_get doc ''recover_ms'') :: u64;
          recovered = doc_int doc ''recovered'';
          afl = (if is_exc_flag \<noteq> 0 \<and> recovered \<noteq> 0
                 then afl\<lparr>nv_rec_cnt := nv_rec_cnt afl + 1,
                          nv_rec_ms_sum := nv_rec_ms_sum afl + recover_ms\<rparr> else afl);
          ncov_delta = json_word (json_get doc ''ncov_delta'') :: u64
      in if ncov_delta > 0 then afl\<lparr>nv_ncov_hit := nv_ncov_hit afl + 1\<rparr> else afl)"

text \<open>The observation handed to the caller.\<close>

definition make_obs :: "json \<Rightarrow> u64 \<Rightarrow> u64 \<Rightarrow> bool \<Rightarrow> nv_state_obs" where
  "make_obs doc exec_seq h is_new =
     (let ccls = doc_class doc; vr = json_get doc ''validation_reject'' in
      \<lparr>obs_has = True,
       obs_is_exception = (doc_int doc ''timeout'' \<noteq> 0 \<or> ccls = ''5xx'' \<or> ccls = ''conn_refused''),
       obs_recovered = (doc_int doc ''recovered'' \<noteq> 0),
       obs_is_4xx = (ccls = ''4xx''),
       obs_ncov_delta = json_word (json_get doc ''ncov_delta''),
       obs_new_states = (if is_new then 1 else 0),
       obs_state_id = h,
       obs_exec_seq = exec_seq,
       obs_http_status = (case json_double (json_get doc ''http_code'') of
                            Some d \<Rightarrow> cd_int d | None \<Rightarrow> 0),
       obs_validation_reject = (json_is_true vr \<or>
         (case json_double vr of Some d \<Rightarrow> cd_nonzero d | None \<Rightarrow> False))\<rparr>)"

text \<open>The opt-in audit trail, and the credit of the seed that reached a new state. The trace file
  is taken to open; when it does not, the program goes on without the record.\<close>

definition trace_state :: "env_vars \<Rightarrow> c_string \<Rightarrow> nv_state_obs \<Rightarrow> 'a nv_seen_scheme \<Rightarrow> 'a nv_seen_scheme" where
  "trace_state env key obs afl =
     (if getenv_nonempty env ''NV_STATE_TRACE_PATH'' = None then afl
      else afl\<lparr>state_trace := state_trace afl @
             trace_record (obs_exec_seq obs) key (obs_state_id obs) (obs_new_states obs)\<rparr>)"

definition credit_seed :: "'a nv_seen_scheme \<Rightarrow> 'a nv_seen_scheme" where
  "credit_seed afl =
     (let afl = afl\<lparr>nv_sec_state_new_total := nv_sec_state_new_total afl + 1\<rparr> in
      case queue_cur_ss_cov_cnt afl of
        None \<Rightarrow> afl
      | Some c \<Rightarrow> afl\<lparr>queue_cur_ss_cov_cnt := Some (c + 1),
                      nv_sec_state_seed_credit := nv_sec_state_seed_credit afl + 1\<rparr>)"

text \<open>Folding a fresh document into the state set.\<close>

definition fold_state :: "env_vars \<Rightarrow> json \<Rightarrow> u64 \<Rightarrow> 'a nv_seen_scheme \<Rightarrow>
    nv_state_obs \<times> 'a nv_seen_scheme" where
  "fold_state env doc exec_seq afl =
     (let key = state_key afl doc;
          h = nv_fnv1a64 key;
          (r, cov) = nv_covset_insert (covset afl) h;
          is_new = (r = NV_COVSET_INSERTED);
          obs = make_obs doc exec_seq h is_new;
          afl = afl\<lparr>covset := cov, nv_sec_state_obs := nv_sec_state_obs afl + 1,
                    nv_sec_state_delta_last := obs_new_states obs\<rparr>;
          afl = trace_state env key obs afl
      in (obs, if is_new then credit_seed afl else afl))"

definition nv_observe_security_state_once :: "env_vars \<Rightarrow> json_parser \<Rightarrow> status_world \<Rightarrow> u64 \<Rightarrow>
    'a nv_seen_scheme \<Rightarrow> nv_state_obs \<times> 'a nv_seen_scheme" where
  "nv_observe_security_state_once env parse w minimum_exec_seq afl =
     (case read_status_text env w (ledger_offset afl) of
        Status_fail \<Rightarrow> (no_obs, afl\<lparr>nv_http_status_fail := nv_http_status_fail afl + 1\<rparr>)
      | Status_nothing \<Rightarrow> (no_obs, afl)
      | Status_text buf candidate_end \<Rightarrow>
          (case parse buf of
             None \<Rightarrow> (no_obs, afl\<lparr>nv_http_status_fail := nv_http_status_fail afl + 1\<rparr>)
           | Some doc \<Rightarrow>
               let exec_seq = doc_exec_seq doc;
                   afl = afl\<lparr>nv_http_status_ok := nv_http_status_ok afl + 1\<rparr>
               in if minimum_exec_seq \<noteq> 0 \<and> (exec_seq = 0 \<or> exec_seq \<le> minimum_exec_seq)
                  then (no_obs, afl)
                  else
                    (case nv_status_is_fresh exec_seq (doc_stamp doc) (Some (nv_last_exec_seq afl))
                            (Some (nv_last_status_seq afl)) of
                       (verdict, last_exec, last_stamp) \<Rightarrow>
                         let afl = afl\<lparr>nv_last_exec_seq := the last_exec,
                                       nv_last_status_seq := the last_stamp\<rparr>
                         in if verdict = NV_STATUS_REPLAY
                            then (no_obs, afl\<lparr>nv_sec_state_replays := nv_sec_state_replays afl + 1\<rparr>)
                            else
                              let afl = afl\<lparr>nv_status_cnt := nv_status_cnt afl + 1,
                                    ledger_offset := (case candidate_end of
                                       Some e \<Rightarrow> e | None \<Rightarrow> ledger_offset afl)\<rparr>
                              in fold_state env doc exec_seq (count_errors doc afl))))"

section \<open>Waiting for the execution's own document\<close>

text \<open>
  \<open>worlds k\<close> is what is on disk at the \<open>k\<close>-th attempt; the first argument is the number of
  attempts left, of 1000.
\<close>

fun observe_attempts :: "nat \<Rightarrow> env_vars \<Rightarrow> json_parser \<Rightarrow> (nat \<Rightarrow> status_world) \<Rightarrow> nat \<Rightarrow> u64 \<Rightarrow>
    'a nv_seen_scheme \<Rightarrow> nv_state_obs option \<times> 'a nv_seen_scheme" where
  "observe_attempts 0 env parse worlds k baseline afl = (None, afl)"
| "observe_attempts (Suc n) env parse worlds k baseline afl =
     (let (obs, afl) = nv_observe_security_state_once env parse (worlds k) baseline afl
      in if obs_has obs \<and> (baseline = 0 \<or> obs_exec_seq obs > baseline) then (Some obs, afl)
         else observe_attempts n env parse worlds (Suc k) baseline afl)"

definition nv_observe_security_state_after_execution :: "env_vars \<Rightarrow> json_parser \<Rightarrow>
    (nat \<Rightarrow> status_world) \<Rightarrow> 'a nv_seen_scheme \<Rightarrow> nv_state_obs \<times> 'a nv_seen_scheme" where
  "nv_observe_security_state_after_execution env parse worlds afl =
     (case observe_attempts 1000 env parse worlds 0 (nv_last_exec_seq afl) afl of
        (Some obs, afl) \<Rightarrow> (obs, afl)
      | (None, afl) \<Rightarrow> (no_obs, afl\<lparr>nv_http_status_fail := nv_http_status_fail afl + 1\<rparr>))"

section \<open>Reward\<close>

definition NV_REWARD_HARNESS_NCOV :: real where "NV_REWARD_HARNESS_NCOV = 1000"
definition NV_REWARD_NEW_SECURITY_STATE :: real where "NV_REWARD_NEW_SECURITY_STATE = 10"
definition NV_REWARD_EXCEPTION :: real where "NV_REWARD_EXCEPTION = 5"
definition NV_REWARD_RECOVERED :: real where "NV_REWARD_RECOVERED = 2"
definition NV_REWARD_4XX_PENALTY :: real where "NV_REWARD_4XX_PENALTY = 1 / 10"

definition nv_reward_from_obs :: "fpu \<Rightarrow> nv_state_obs \<Rightarrow> real" where
  "nv_reward_from_obs fp obs =
     (if \<not> obs_has obs then 0
      else
        let reward = 0;
            reward = dadd fp reward (dmul fp NV_REWARD_HARNESS_NCOV (d_of_u64 fp (obs_ncov_delta obs)));
            reward = dadd fp reward (dmul fp NV_REWARD_NEW_SECURITY_STATE (d_of_u64 fp (obs_new_states obs)));
            reward = dadd fp reward (if obs_is_exception obs then NV_REWARD_EXCEPTION else 0);
            reward = dadd fp reward (if obs_recovered obs then NV_REWARD_RECOVERED else 0)
        in if obs_is_4xx obs then dsub fp reward (dlit fp NV_REWARD_4XX_PENALTY) else reward)"

section \<open>The status document of the error statistics\<close>

record nv_status =
  st_is_exception :: bool
  st_http_code :: int
  st_recovered :: bool
  st_recover_ms :: u64

definition json_flag :: "json ptr \<Rightarrow> bool" where
  "json_flag j \<longleftrightarrow> json_is_true j \<or>
     (case json_double j of Some d \<Rightarrow> cd_nonzero d | None \<Rightarrow> False)"

text \<open>\<open>None\<close> where the function returns 0; \<open>status_file\<close> is what the named file holds.\<close>

definition nv_read_status_json :: "json_parser \<Rightarrow> c_string option \<Rightarrow> nv_status option" where
  "nv_read_status_json parse status_file =
     (case status_file of
        None \<Rightarrow> None
      | Some buf \<Rightarrow>
          if buf = [] \<or> length buf > 128 * 1024 then None
          else (case parse buf of
              None \<Rightarrow> None
            | Some doc \<Rightarrow> Some \<lparr>st_is_exception = json_flag (json_get doc ''is_exception''),
                st_http_code = (case json_double (json_get doc ''http_code'') of
                                  Some d \<Rightarrow> cd_int d | None \<Rightarrow> 0),
                st_recovered = json_flag (json_get doc ''recovered''),
                st_recover_ms = (case json_double (json_get doc ''recover_ms'') of
                                   Some d \<Rightarrow> if cd_less (Finite 0) d then cd_word d else 0
                                 | None \<Rightarrow> 0)\<rparr>))"

section \<open>Keys\<close>

definition state_triple :: "'a nv_config_scheme \<Rightarrow> json \<Rightarrow> c_string \<times> c_string \<times> c_string" where
  "state_triple afl doc =
     (let cmethod = nv_canon_method (Some (doc_text doc ''method'' ''UNK''));
          pathv = doc_text doc ''path'' ''/'';
          cpath = (case nv_canon_path_label (Some pathv) of
                     Some l \<Rightarrow> l
                   | None \<Rightarrow> if nv_is_allowed_pair afl cmethod pathv then pathv else ''unknown_path'')
      in (cmethod, cpath, doc_class doc))"

lemma canon_method_shape:
  "length (nv_canon_method m) \<le> 7 \<and> CHR '' '' \<notin> set (nv_canon_method m)"
  using nv_canon_method_range [of m] by (auto simp: NV_KNOWN_METHODS_def)

lemma canon_class_shape:
  "length (nv_canon_class c) \<le> 12 \<and> CHR ''|'' \<notin> set (nv_canon_class c)"
  using nv_canon_class_range [of c] by (auto simp: NV_KNOWN_CLASSES_def)

lemma canon_path_shape:
  "nv_canon_path_label (Some p) = None \<Longrightarrow> length p \<le> 200"
  "nv_canon_path_label (Some p) = Some l \<Longrightarrow> l = ''malformed_path''"
  by (auto simp: nv_canon_path_label_def NV_PATH_MALFORMED_def NV_STATE_PATH_MAX_def
      split: list.splits if_splits)

lemma state_key_triple:
  assumes "state_triple afl doc = (m, p, c)"
  shows "state_key afl doc = m @ '' '' @ p @ ''|'' @ c" and "length (state_key afl doc) < 240"
    and "CHR '' '' \<notin> set m" and "CHR ''|'' \<notin> set c"
proof -
  have m: "length m \<le> 7 \<and> CHR '' '' \<notin> set m"
    using assms canon_method_shape by (auto simp: state_triple_def Let_def)
  have c: "length c \<le> 12 \<and> CHR ''|'' \<notin> set c"
    using assms canon_class_shape by (auto simp: state_triple_def doc_class_def Let_def)
  have p: "length p \<le> 200"
    using assms canon_path_shape(1)
    by (auto simp: state_triple_def Let_def dest!: canon_path_shape(2) split: option.splits if_splits)
  have k: "state_key afl doc = buf_cut 1024 (m @ '' '' @ p @ ''|'' @ c)"
    using assms by (auto simp: state_triple_def state_key_def doc_class_def Let_def)
  have l: "length (m @ '' '' @ p @ ''|'' @ c) < 240" using m c p by simp
  then have "buf_cut 1024 (m @ '' '' @ p @ ''|'' @ c) = m @ '' '' @ p @ ''|'' @ c"
    by (intro buf_cut_id) linarith
  then show "state_key afl doc = m @ '' '' @ p @ ''|'' @ c" using k by simp
  with l show "length (state_key afl doc) < 240" by simp
  show "CHR '' '' \<notin> set m" "CHR ''|'' \<notin> set c" using m c by auto
qed

lemma split_at_first:
  "x \<notin> set as \<Longrightarrow> x \<notin> set bs \<Longrightarrow> as @ x # r = bs @ x # s \<Longrightarrow> as = bs \<and> r = s"
proof (induction as arbitrary: bs)
  case Nil
  then show ?case by (cases bs) auto
next
  case (Cons a as)
  then show ?case by (cases bs) auto
qed

lemma key_parts_unique:
  assumes "m @ '' '' @ p @ ''|'' @ c = m' @ '' '' @ p' @ ''|'' @ c'"
    and "CHR '' '' \<notin> set m" "CHR '' '' \<notin> set m'" "CHR ''|'' \<notin> set c" "CHR ''|'' \<notin> set c'"
  shows "m = m' \<and> p = p' \<and> c = c'"
proof -
  have mp: "m = m' \<and> p @ ''|'' @ c = p' @ ''|'' @ c'"
    using split_at_first [OF assms(2,3), of "p @ ''|'' @ c" "p' @ ''|'' @ c'"] assms(1) by simp
  then have "rev (p @ ''|'' @ c) = rev (p' @ ''|'' @ c')" by simp
  then have "rev c @ CHR ''|'' # rev p = rev c' @ CHR ''|'' # rev p'" by simp
  then have "rev c = rev c' \<and> rev p = rev p'"
    using split_at_first [of "CHR ''|''" "rev c" "rev c'" "rev p" "rev p'"] assms(4,5) by simp
  then show ?thesis using mp by simp
qed

section \<open>What one observation does to the state\<close>

text \<open>The counters an observation keeps in step.\<close>

definition seen_inv :: "'a nv_seen_scheme \<Rightarrow> bool" where
  "seen_inv afl \<longleftrightarrow> covset_inv (covset afl) \<and>
     nv_sec_state_new_total afl = of_nat (card (covset_states (covset afl))) \<and>
     nv_sec_state_obs afl = nv_status_cnt afl"

lemma count_errors_frame [simp]:
  "covset (count_errors doc afl) = covset afl"
  "nv_sec_state_new_total (count_errors doc afl) = nv_sec_state_new_total afl"
  "nv_sec_state_obs (count_errors doc afl) = nv_sec_state_obs afl"
  "nv_status_cnt (count_errors doc afl) = nv_status_cnt afl"
  "nv_last_exec_seq (count_errors doc afl) = nv_last_exec_seq afl"
  "ledger_offset (count_errors doc afl) = ledger_offset afl"
  by (simp_all add: count_errors_def Let_def)

lemma trace_state_frame [simp]:
  "covset (trace_state env key obs afl) = covset afl"
  "nv_sec_state_new_total (trace_state env key obs afl) = nv_sec_state_new_total afl"
  "nv_sec_state_obs (trace_state env key obs afl) = nv_sec_state_obs afl"
  "nv_status_cnt (trace_state env key obs afl) = nv_status_cnt afl"
  "nv_last_exec_seq (trace_state env key obs afl) = nv_last_exec_seq afl"
  "ledger_offset (trace_state env key obs afl) = ledger_offset afl"
  by (simp_all add: trace_state_def)

lemma credit_seed_frame [simp]:
  "covset (credit_seed afl) = covset afl"
  "nv_sec_state_new_total (credit_seed afl) = nv_sec_state_new_total afl + 1"
  "nv_sec_state_obs (credit_seed afl) = nv_sec_state_obs afl"
  "nv_status_cnt (credit_seed afl) = nv_status_cnt afl"
  "nv_last_exec_seq (credit_seed afl) = nv_last_exec_seq afl"
  "ledger_offset (credit_seed afl) = ledger_offset afl"
  by (simp_all add: credit_seed_def Let_def split: option.splits)

lemma make_obs_simps [simp]:
  "obs_has (make_obs doc seq h new)" "obs_exec_seq (make_obs doc seq h new) = seq"
  "obs_new_states (make_obs doc seq h new) = (if new then 1 else 0)"
  by (simp_all add: make_obs_def Let_def)

lemma fold_state_frame:
  shows "nv_status_cnt (snd (fold_state env doc seq afl)) = nv_status_cnt afl"
    "nv_last_exec_seq (snd (fold_state env doc seq afl)) = nv_last_exec_seq afl"
    "ledger_offset (snd (fold_state env doc seq afl)) = ledger_offset afl"
    "obs_has (fst (fold_state env doc seq afl))"
    "obs_exec_seq (fst (fold_state env doc seq afl)) = seq"
    "nv_sec_state_obs (snd (fold_state env doc seq afl)) = nv_sec_state_obs afl + 1"
  by (simp_all add: fold_state_def Let_def split_beta)

lemma fold_state_new:
  assumes "covset_inv (covset afl)"
    and "nv_sec_state_new_total afl = of_nat (card (covset_states (covset afl)))"
  shows "covset_inv (covset (snd (fold_state env doc seq afl)))"
    and "nv_sec_state_new_total (snd (fold_state env doc seq afl)) =
      of_nat (card (covset_states (covset (snd (fold_state env doc seq afl)))))"
proof -
  let ?h = "nv_fnv1a64 (state_key afl doc)"
  obtain r cov' where p: "nv_covset_insert (covset afl) ?h = (r, cov')" by force
  have h: "?h \<noteq> 0" by simp
  have c: "covset (snd (fold_state env doc seq afl)) = cov'"
    and n: "nv_sec_state_new_total (snd (fold_state env doc seq afl)) =
      nv_sec_state_new_total afl + (if r = NV_COVSET_INSERTED then 1 else 0)"
    using p by (simp_all add: fold_state_def Let_def)
  show "covset_inv (covset (snd (fold_state env doc seq afl)))"
    unfolding c using cov.put_invar [OF assms(1) h] p by simp
  have "card (covset_states cov') = card (covset_states (covset afl)) +
      (if r = NV_COVSET_INSERTED then 1 else 0)"
    using cov.put_states [OF assms(1) h] cov.put_result [OF assms(1) h] p
      cov.states_finite [OF assms(1)] by (auto split: if_splits)
  then show "nv_sec_state_new_total (snd (fold_state env doc seq afl)) =
      of_nat (card (covset_states (covset (snd (fold_state env doc seq afl)))))"
    unfolding c n using assms(2) by simp
qed

text \<open>The branches of one observation.\<close>

lemma fresh_shape: "\<exists>v y z. nv_status_is_fresh s d (Some a) (Some b) = (v, Some y, Some z)"
proof (cases "s \<noteq> 0")
  case True
  then show ?thesis by (cases "s \<le> a") (simp_all add: nv_status_is_fresh_def)
next
  case False
  then show ?thesis by (cases "d = b") (simp_all add: nv_status_is_fresh_def)
qed

lemma observe_once_branches:
  fixes afl :: "'a nv_seen_scheme"
  assumes "nv_observe_security_state_once env parse w mn afl = (obs, afl')"
  obtains (none) "obs = no_obs" "covset afl' = covset afl"
      "nv_sec_state_new_total afl' = nv_sec_state_new_total afl"
      "nv_sec_state_obs afl' = nv_sec_state_obs afl" "nv_status_cnt afl' = nv_status_cnt afl"
      "nv_last_exec_seq afl' = nv_last_exec_seq afl" "ledger_offset afl' = ledger_offset afl"
    | (fresh) doc e y z buf where
      "read_status_text env w (ledger_offset afl) = Status_text buf e" "parse buf = Some doc"
      "doc_exec_seq doc \<noteq> 0 \<Longrightarrow> nv_last_exec_seq afl < doc_exec_seq doc \<and> y = doc_exec_seq doc"
      "doc_exec_seq doc = 0 \<Longrightarrow> y = nv_last_exec_seq afl"
      "mn \<noteq> 0 \<Longrightarrow> mn < doc_exec_seq doc"
      "(obs, afl') = fold_state env doc (doc_exec_seq doc) (count_errors doc
        (afl\<lparr>nv_http_status_ok := nv_http_status_ok afl + 1, nv_last_exec_seq := y,
             nv_last_status_seq := z, nv_status_cnt := nv_status_cnt afl + 1,
             ledger_offset := (case e of Some x \<Rightarrow> x | None \<Rightarrow> ledger_offset afl)\<rparr>))"
proof (cases "read_status_text env w (ledger_offset afl)")
  case Status_fail
  then show thesis using assms by (intro none) (auto simp: nv_observe_security_state_once_def)
next
  case Status_nothing
  then show thesis using assms by (intro none) (auto simp: nv_observe_security_state_once_def)
next
  case (Status_text buf e)
  show thesis
  proof (cases "parse buf")
    case None
    then show thesis using assms Status_text
      by (intro none) (auto simp: nv_observe_security_state_once_def)
  next
    case (Some doc)
    let ?s = "doc_exec_seq doc"
    note o = nv_observe_security_state_once_def [of env parse w mn afl, unfolded Status_text
        status_text.case Some option.case Let_def]
    show thesis
    proof (cases "mn \<noteq> 0 \<and> (?s = 0 \<or> ?s \<le> mn)")
      case True
      have "(obs, afl') = (no_obs, afl\<lparr>nv_http_status_ok := nv_http_status_ok afl + 1\<rparr>)"
        using assms unfolding o if_P [OF True] by simp
      then show thesis by (intro none) simp_all
    next
      case False
      let ?a = "afl\<lparr>nv_http_status_ok := nv_http_status_ok afl + 1\<rparr>"
      obtain v y z where f: "nv_status_is_fresh ?s (doc_stamp doc) (Some (nv_last_exec_seq afl))
          (Some (nv_last_status_seq afl)) = (v, Some y, Some z)"
        by (metis fresh_shape)
      have y: "?s \<noteq> 0 \<Longrightarrow> v = NV_STATUS_ACCEPT \<Longrightarrow> nv_last_exec_seq afl < ?s \<and> y = ?s"
        "?s = 0 \<Longrightarrow> y = nv_last_exec_seq afl" "v = NV_STATUS_REPLAY \<Longrightarrow> y = nv_last_exec_seq afl"
        using f by (auto simp: nv_status_is_fresh_def split: if_splits)
      have "nv_status_is_fresh ?s (doc_stamp doc) (Some (nv_last_exec_seq ?a))
          (Some (nv_last_status_seq ?a)) = (v, Some y, Some z)" using f by simp
      note r = assms [unfolded o if_not_P [OF False] this prod.case option.sel]
      show thesis
      proof (cases v)
        case NV_STATUS_REPLAY
        then show thesis using r y(3) by (intro none) auto
      next
        case NV_STATUS_ACCEPT
        have n: "mn \<noteq> 0 \<Longrightarrow> mn < ?s" using False by auto
        show thesis
          by (rule fresh [OF Status_text Some y(1) [OF _ NV_STATUS_ACCEPT] y(2) n, of z])
             (use r NV_STATUS_ACCEPT in \<open>cases e; simp\<close>)+
      qed
    qed
  qed
qed

lemma observe_once_seen:
  assumes "seen_inv afl"
  shows "seen_inv (snd (nv_observe_security_state_once env parse w mn afl))"
proof -
  obtain obs afl' where r: "nv_observe_security_state_once env parse w mn afl = (obs, afl')" by force
  from r have "seen_inv afl'"
  proof (cases rule: observe_once_branches)
    case none
    then show ?thesis using assms by (simp add: seen_inv_def)
  next
    case (fresh doc e y z buf)
    let ?a = "count_errors doc (afl\<lparr>nv_http_status_ok := nv_http_status_ok afl + 1,
      nv_last_exec_seq := y, nv_last_status_seq := z, nv_status_cnt := nv_status_cnt afl + 1,
      ledger_offset := (case e of Some x \<Rightarrow> x | None \<Rightarrow> ledger_offset afl)\<rparr>)"
    have a: "covset_inv (covset ?a)" "nv_sec_state_new_total ?a = of_nat (card (covset_states (covset ?a)))"
      "nv_sec_state_obs ?a + 1 = nv_status_cnt ?a"
      using assms by (simp_all add: seen_inv_def)
    have "afl' = snd (fold_state env doc (doc_exec_seq doc) ?a)" using fresh(6) by (metis snd_conv)
    moreover have "nv_sec_state_obs (snd (fold_state env doc (doc_exec_seq doc) ?a)) =
        nv_status_cnt (snd (fold_state env doc (doc_exec_seq doc) ?a))"
      unfolding fold_state_frame(1,6) by (rule a(3))
    ultimately show ?thesis
      unfolding seen_inv_def using fold_state_new [OF a(1,2), of env doc "doc_exec_seq doc"] by blast
  qed
  then show ?thesis by (simp add: r)
qed

section \<open>Sequences of observations\<close>

type_synonym look = "status_world \<times> u64"

definition observe_looks :: "env_vars \<Rightarrow> json_parser \<Rightarrow> look list \<Rightarrow> 'a nv_seen_scheme \<Rightarrow> 'a nv_seen_scheme" where
  "observe_looks env parse looks afl =
     fold (\<lambda>(w, mn) a. snd (nv_observe_security_state_once env parse w mn a)) looks afl"

lemma fold_state_states:
  assumes "covset_inv (covset afl)"
  shows "covset_states (covset afl) \<subseteq> covset_states (covset (snd (fold_state env doc seq afl)))"
proof -
  have "covset (snd (fold_state env doc seq afl)) =
      snd (nv_covset_insert (covset afl) (nv_fnv1a64 (state_key afl doc)))"
    by (simp add: fold_state_def Let_def split_beta)
  then show ?thesis using cov.put_states [OF assms, of "nv_fnv1a64 (state_key afl doc)"]
    by (auto split: if_splits)
qed

lemma observe_once_states:
  assumes "seen_inv afl" and "nv_observe_security_state_once env parse w mn afl = (obs, afl')"
  shows "covset_states (covset afl) \<subseteq> covset_states (covset afl')"
  using assms(2)
proof (cases rule: observe_once_branches)
  case none
  then show ?thesis by simp
next
  case (fresh doc e y z buf)
  let ?a = "count_errors doc (afl\<lparr>nv_http_status_ok := nv_http_status_ok afl + 1,
    nv_last_exec_seq := y, nv_last_status_seq := z, nv_status_cnt := nv_status_cnt afl + 1,
    ledger_offset := (case e of Some x \<Rightarrow> x | None \<Rightarrow> ledger_offset afl)\<rparr>)"
  have "covset ?a = covset afl" by simp
  moreover have "afl' = snd (fold_state env doc (doc_exec_seq doc) ?a)" using fresh(6) by (metis snd_conv)
  ultimately show ?thesis
    using fold_state_states [of ?a env doc "doc_exec_seq doc"] assms(1) by (simp add: seen_inv_def)
qed

lemma observe_looks_seen:
  "seen_inv afl \<Longrightarrow> seen_inv (observe_looks env parse looks afl) \<and>
     covset_states (covset afl) \<subseteq> covset_states (covset (observe_looks env parse looks afl))"
proof (induction looks arbitrary: afl)
  case Nil
  then show ?case by (simp add: observe_looks_def)
next
  case (Cons l looks)
  obtain w mn where l: "l = (w, mn)" by force
  obtain obs a where r: "nv_observe_security_state_once env parse w mn afl = (obs, a)" by force
  have "seen_inv a" using observe_once_seen [OF Cons.prems, of env parse w mn] r by simp
  moreover have "observe_looks env parse (l # looks) afl = observe_looks env parse looks a"
    using r l by (simp add: observe_looks_def)
  ultimately show ?case
    using Cons.IH [of a] observe_once_states [OF Cons.prems r] by simp blast
qed

section \<open>The wait for the execution's document\<close>

lemma observe_attempts_found:
  assumes "observe_attempts n env parse worlds k b afl = (Some obs, afl')"
  shows "obs_has obs \<and> (b = 0 \<or> b < obs_exec_seq obs) \<and>
    (\<exists>j o1 buf doc e. k \<le> j \<and> j < k + n \<and> read_status_text env (worlds j) o1 = Status_text buf e \<and>
       parse buf = Some doc \<and> doc_exec_seq doc = obs_exec_seq obs)"
  using assms
proof (induction n arbitrary: k afl)
  case 0
  then show ?case by simp
next
  case (Suc n)
  obtain o1 a where r: "nv_observe_security_state_once env parse (worlds k) b afl = (o1, a)" by force
  show ?case
  proof (cases "obs_has o1 \<and> (b = 0 \<or> obs_exec_seq o1 > b)")
    case True
    then have eq: "o1 = obs" using Suc.prems r by simp
    from r show ?thesis
    proof (cases rule: observe_once_branches)
      case none
      then show ?thesis using True by (simp add: no_obs_def)
    next
      case (fresh doc e y z buf)
      have "obs_exec_seq obs = doc_exec_seq doc"
        using arg_cong [OF fresh(6), of fst] eq by (simp add: fold_state_frame)
      then show ?thesis using fresh(1,2) True eq
        by (metis Suc_leI add_Suc_right le_add1 le_less_trans less_add_same_cancel1 zero_less_Suc order_refl)
    qed
  next
    case False
    then have "observe_attempts n env parse worlds (Suc k) b a = (Some obs, afl')"
      using Suc.prems r by auto
    from Suc.IH [OF this] show ?thesis by (metis Suc_leD add_Suc add_Suc_right)
  qed
qed

text \<open>An attempt that returns nothing has recorded nothing.\<close>

lemma observe_once_has:
  assumes "nv_observe_security_state_once env parse w mn afl = (obs, afl')"
  shows "if obs_has obs then mn \<noteq> 0 \<longrightarrow> mn < obs_exec_seq obs
    else covset afl' = covset afl \<and> nv_sec_state_obs afl' = nv_sec_state_obs afl \<and>
      nv_last_exec_seq afl' = nv_last_exec_seq afl \<and> ledger_offset afl' = ledger_offset afl"
  using assms
proof (cases rule: observe_once_branches)
  case none
  then show ?thesis by (simp add: no_obs_def)
next
  case (fresh doc e y z buf)
  have "obs = fst (fold_state env doc (doc_exec_seq doc) (count_errors doc
        (afl\<lparr>nv_http_status_ok := nv_http_status_ok afl + 1, nv_last_exec_seq := y,
             nv_last_status_seq := z, nv_status_cnt := nv_status_cnt afl + 1,
             ledger_offset := (case e of Some x \<Rightarrow> x | None \<Rightarrow> ledger_offset afl)\<rparr>)))"
    using fresh(6) by (metis fst_conv)
  then show ?thesis using fresh(5) by (simp add: fold_state_frame)
qed

lemma observe_attempts_missed:
  assumes "observe_attempts n env parse worlds k b afl = (None, afl')"
  shows "covset afl' = covset afl \<and> nv_sec_state_obs afl' = nv_sec_state_obs afl \<and>
    nv_last_exec_seq afl' = nv_last_exec_seq afl \<and> ledger_offset afl' = ledger_offset afl"
  using assms
proof (induction n arbitrary: k afl)
  case 0
  then show ?case by simp
next
  case (Suc n)
  obtain o1 a where r: "nv_observe_security_state_once env parse (worlds k) b afl = (o1, a)" by force
  have h: "\<not> obs_has o1" and n: "observe_attempts n env parse worlds (Suc k) b a = (None, afl')"
    using Suc.prems r observe_once_has [OF r] by (auto split: if_splits)
  show ?case using Suc.IH [OF n] observe_once_has [OF r] h by simp
qed

section \<open>A line that is never left\<close>

text \<open>A ledger line that is stale, replayed or does not parse.\<close>

definition dead_line :: "json_parser \<Rightarrow> u64 \<Rightarrow> c_string \<Rightarrow> bool" where
  "dead_line parse les line \<longleftrightarrow>
     (case parse line of None \<Rightarrow> True
      | Some doc \<Rightarrow> doc_exec_seq doc \<noteq> 0 \<and> doc_exec_seq doc \<le> les)"

lemma memchr_append: "c \<notin> set s \<Longrightarrow> memchr (s @ c # r) c = Some (length s)"
  by (induction s) auto

lemma first_line_append:
  "CHR 0x0A \<notin> set s \<Longrightarrow> first_line (s @ CHR 0x0A # r) = Some (s @ [CHR 0x0A])"
  by (simp add: first_line_def memchr_append)

lemma observe_once_dead:
  assumes "getenv_nonempty env ''NV_STATUS_LEDGER_PATH'' = Some lp"
    and "world_ledger w = Some (pre @ s @ CHR 0x0A # r)" and "CHR 0x0A \<notin> set s"
    and "ledger_offset afl = length pre" and "dead_line parse (nv_last_exec_seq afl) (s @ [CHR 0x0A])"
    and "nv_observe_security_state_once env parse w mn afl = (obs, afl')"
  shows "\<not> obs_has obs"
  using assms(6)
proof (cases rule: observe_once_branches)
  case none
  then show ?thesis by (simp add: no_obs_def)
next
  case (fresh doc e y z buf)
  have "buf = s @ [CHR 0x0A]"
    using fresh(1) assms(1-4)
    by (simp add: read_status_text_def first_line_append split: if_splits)
  then show ?thesis using fresh(2,3) assms(5) by (auto simp: dead_line_def)
qed

lemma observe_attempts_dead:
  assumes env: "getenv_nonempty env ''NV_STATUS_LEDGER_PATH'' = Some lp"
    and led: "\<And>j. world_ledger (worlds j) = Some (pre @ s @ CHR 0x0A # r j)" and s: "CHR 0x0A \<notin> set s"
    and off: "ledger_offset afl = length pre"
    and dead: "dead_line parse (nv_last_exec_seq afl) (s @ [CHR 0x0A])"
  shows "fst (observe_attempts n env parse worlds k b afl) = None"
  using off dead
proof (induction n arbitrary: k afl)
  case 0
  then show ?case by simp
next
  case (Suc n)
  obtain o1 a where r: "nv_observe_security_state_once env parse (worlds k) b afl = (o1, a)" by force
  have h: "\<not> obs_has o1" using observe_once_dead [OF env led s Suc.prems r] .
  then have "ledger_offset a = length pre" "dead_line parse (nv_last_exec_seq a) (s @ [CHR 0x0A])"
    using observe_once_has [OF r] Suc.prems by simp_all
  from Suc.IH [OF this, of "Suc k"] show ?case using r h by simp
qed

section \<open>Reward arithmetic\<close>

lemma rnd_int_exact:
  assumes "fpu_ok fp" and "x = real n" and "n \<le> 2 ^ 53"
  shows "rnd fp x = x"
  using fpu_ok_facts(6) [OF assms(1,3)] assms(2) by simp

lemma of_nat_le_one: "n \<le> 1 \<Longrightarrow> real n \<le> 1" by simp
lemma of_nat_ge_one: "1 \<le> n \<Longrightarrow> 1 \<le> real n" by simp

lemma reward_before_penalty:
  assumes fp: "fpu_ok fp" and o: "obs_has obs" and n: "unat (obs_ncov_delta obs) \<le> 10 ^ 12"
    and s: "unat (obs_new_states obs) \<le> 1"
  defines "r \<equiv> 1000 * real (unat (obs_ncov_delta obs)) + 10 * real (unat (obs_new_states obs)) +
      (if obs_is_exception obs then 5 else 0) + (if obs_recovered obs then 2 else 0)"
  shows "nv_reward_from_obs fp obs =
    (if obs_is_4xx obs then rnd fp (r - rnd fp (1 / 10)) else r)"
    and "\<exists>k. r = real k \<and> k \<le> 10 ^ 15 + 17"
proof -
  define a b e c where "a = unat (obs_ncov_delta obs)" "b = unat (obs_new_states obs)"
    "e = (if obs_is_exception obs then 5 else 0 :: nat)" "c = (if obs_recovered obs then 2 else 0 :: nat)"
  note abec = this
  have l: "a \<le> 10 ^ 12" "b \<le> 1" "e \<le> 5" "c \<le> 2" using n s by (simp_all add: abec)
  have r: "r = real (1000 * a + 10 * b + e + c)" by (simp add: r_def abec)
  then show "\<exists>k. r = real k \<and> k \<le> 10 ^ 15 + 17" using l by (intro exI [of _ "1000 * a + 10 * b + e + c"]) simp
  have i: "rnd fp (real k) = real k" if "k \<le> 10 ^ 15 + 17" for k
    using that by (intro fpu_ok_facts(6) [OF fp]) simp
  have e1: "d_of_u64 fp (obs_ncov_delta obs) = real a" "d_of_u64 fp (obs_new_states obs) = real b"
    using i [of a] i [of b] l by (simp_all add: d_of_u64_def abec)
  have e2: "dmul fp 1000 (real a) = real (1000 * a)" "dmul fp 10 (real b) = real (10 * b)"
    using i [of "1000 * a"] i [of "10 * b"] l by (simp_all add: dmul_def)
  have e3: "dadd fp 0 (real (1000 * a)) = real (1000 * a)"
    "dadd fp (real (1000 * a)) (real (10 * b)) = real (1000 * a + 10 * b)"
    "dadd fp (real (1000 * a + 10 * b)) (real e) = real (1000 * a + 10 * b + e)"
    "dadd fp (real (1000 * a + 10 * b + e)) (real c) = real (1000 * a + 10 * b + e + c)"
    using i [of "1000 * a"] i [of "1000 * a + 10 * b"] i [of "1000 * a + 10 * b + e"]
      i [of "1000 * a + 10 * b + e + c"] l by (simp_all add: dadd_def)
  have e4: "(if obs_is_exception obs then 5 else 0) = real e" "(if obs_recovered obs then 2 else 0) = real c"
    by (simp_all add: abec)
  show "nv_reward_from_obs fp obs =
      (if obs_is_4xx obs then rnd fp (r - rnd fp (1 / 10)) else r)"
    by (simp only: nv_reward_from_obs_def Let_def NV_REWARD_HARNESS_NCOV_def
        NV_REWARD_NEW_SECURITY_STATE_def NV_REWARD_EXCEPTION_def NV_REWARD_RECOVERED_def
        NV_REWARD_4XX_PENALTY_def dsub_def dlit_def r o e1 e2 e3 e4 not_True_eq_False if_False)
qed

lemma reward_range:
  assumes fp: "fpu_ok fp" and o: "obs_has obs" and n: "unat (obs_ncov_delta obs) \<le> 10 ^ 12"
    and s: "unat (obs_new_states obs) \<le> 1"
  shows "1 \<le> unat (obs_ncov_delta obs) \<Longrightarrow>
      1000 * real (unat (obs_ncov_delta obs)) - 1 \<le> nv_reward_from_obs fp obs"
    and "nv_reward_from_obs fp obs \<le> 1000 * real (unat (obs_ncov_delta obs)) + 17"
proof -
  define r where "r = 1000 * real (unat (obs_ncov_delta obs)) + 10 * real (unat (obs_new_states obs)) +
      (if obs_is_exception obs then 5 else 0) + (if obs_recovered obs then 2 else 0)"
  note b = reward_before_penalty [OF assms, folded r_def]
  obtain k where k: "r = real k" "k \<le> 10 ^ 15 + 17" using b(2) by blast
  have kk: "rnd fp r = r" using k fpu_ok_facts(6) [OF fp, of k] by simp
  have "0 \<le> real (unat (obs_new_states obs))" "real (unat (obs_new_states obs)) \<le> 1"
    by (rule of_nat_0_le_iff) (rule of_nat_le_one [OF s])
  moreover have "0 \<le> x \<Longrightarrow> x \<le> 1 \<Longrightarrow> a \<le> a + 10 * x + (if P then 5 else 0) + (if Q then 2 else 0) \<and>
      a + 10 * x + (if P then 5 else 0) + (if Q then 2 else 0) \<le> a + 17" for a x :: real and P Q by simp
  ultimately have lo: "1000 * real (unat (obs_ncov_delta obs)) \<le> r" and
    hi: "r \<le> 1000 * real (unat (obs_ncov_delta obs)) + 17" unfolding r_def by blast+
  have p: "0 \<le> rnd fp (1 / 10)" "rnd fp (1 / 10) \<le> 1"
    using rnd_nonneg [OF fp, of "1/10"] fpu_ok_facts(1) [OF fp, of "1/10" 1] fpu_ok_facts(7) [OF fp] by simp_all
  have u: "rnd fp (r - rnd fp (1 / 10)) \<le> r" using fpu_ok_facts(1) [OF fp, of "r - rnd fp (1 / 10)" r] kk p by simp
  have d: "1000 * real (unat (obs_ncov_delta obs)) - 1 \<le> rnd fp (r - rnd fp (1 / 10))"
    if "obs_is_4xx obs" "1 \<le> unat (obs_ncov_delta obs)"
  proof -
    define m where "m = 1000 * unat (obs_ncov_delta obs) - 1"
    have m: "m \<le> 2 ^ 53" "real m = 1000 * real (unat (obs_ncov_delta obs)) - 1"
      using n that by (simp_all add: m_def of_nat_diff)
    have "real m \<le> r - rnd fp (1 / 10)" using lo p m by simp
    then show ?thesis
      using fpu_ok_facts(1) [OF fp, of "real m"] fpu_ok_facts(6) [OF fp m(1)] m(2) by simp
  qed
  show "nv_reward_from_obs fp obs \<le> 1000 * real (unat (obs_ncov_delta obs)) + 17"
    using b(1) u hi by auto
  show "1000 * real (unat (obs_ncov_delta obs)) - 1 \<le> nv_reward_from_obs fp obs"
    if "1 \<le> unat (obs_ncov_delta obs)"
    using b(1) d [OF _ that] lo by (cases "obs_is_4xx obs") auto
qed


section \<open>Properties\<close>

text \<open>
  The canonical key separates states: it is never cut by its buffer, and two documents get the
  same key only when they agree on canonical method, canonical path and canonical class, so
  distinct states are confused only by a collision of the 64-bit hash.
\<close>

theorem state_key_exact:
  "length (state_key afl d1) < 1023 \<and>
   (state_key afl d1 = state_key afl d2 \<longleftrightarrow> state_triple afl d1 = state_triple afl d2)"
proof -
  obtain m p c where t: "state_triple afl d1 = (m, p, c)" by (metis prod_cases3)
  obtain m' p' c' where t': "state_triple afl d2 = (m', p', c')" by (metis prod_cases3)
  note k = state_key_triple [OF t] and k' = state_key_triple [OF t']
  show ?thesis using k(2) key_parts_unique [of m p c m' p' c'] k k' t t' by auto
qed

text \<open>
  Whatever sequence of documents is looked at, the total of new states is the number of
  distinct states recorded, every accepted document is one observation, no state is forgotten
  and the table stays well formed.
\<close>

theorem observations_count_states:
  fixes afl :: "'a nv_seen_scheme"
  assumes "seen_inv afl" and "after = observe_looks env parse looks afl"
  shows "nv_sec_state_new_total after = of_nat (card (covset_states (covset after))) \<and>
    nv_sec_state_obs after = nv_status_cnt after \<and>
    covset_states (covset afl) \<subseteq> covset_states (covset after) \<and> covset_inv (covset after)"
  using observe_looks_seen [OF assms(1), of env parse looks] assms(2) by (simp add: seen_inv_def)

definition start_seen :: nv_seen where
  "start_seen = \<lparr>afl_mab = calloc_mab, stop_soon = 0, journal_file = [],
     nv_mab_journal_enabled = False, nv_mab_journal_audit_invalid = False,
     nv_mab_journal_error_count = 0, nv_mab_journal_record_count = 0,
     nv_mab_journal_pending_cleared_count = 0, nv_mab_journal_mismatch_count = 0,
     ledger_file = [], nv_execution_ledger_enabled = False,
     nv_execution_ledger_audit_invalid = False, nv_execution_ledger_error_count = 0,
     nv_execution_ledger_record_count = 0,
     nv_task = empty_task, nv_task_path = None, nv_tcfg_loaded = False, nv_allow_cnt = 0,
     nv_allow_pairs = [], nv_target_cfg_path = None,
     nv_valid_cnt = 0, nv_invalid_cnt = 0, nv_invalid_parse_cnt = 0, nv_invalid_rule_cnt = 0,
     nv_invalid_rpc_fail_cnt = 0, nv_invalid_allow_cnt = 0, nv_invalid_docid_cnt = 0,
     nv_invalid_body_cnt = 0, nv_invalid_score_cnt = 0,
     covset = \<lparr>nv_covset = None, nv_cov_cap = 0, nv_cov_used = 0,
       nv_sec_state_saturated = False, nv_sec_state_dropped = 0\<rparr>,
     nv_http_status_ok = 0, nv_http_status_fail = 0, nv_ncov_hit = 0, nv_last_status_seq = 0,
     nv_err_cnt = 0, nv_rec_cnt = 0, nv_rec_ms_sum = 0, nv_status_cnt = 0, nv_sec_state_obs = 0,
     nv_sec_state_new_total = 0, nv_sec_state_delta_last = 0, nv_sec_state_seed_credit = 0,
     nv_last_exec_seq = 4, nv_sec_state_replays = 0, nv_sec_state_reward_src_seq = 0,
     queue_cur_ss_cov_cnt = None, ledger_offset = 0, state_trace = []\<rparr>"

lemma start_seen_inv: "seen_inv start_seen"
  by (simp add: seen_inv_def start_seen_def covset_inv_def covset_states_def)

definition seq5 :: json where
  "seq5 = JObject [(''exec_seq'', JNumber (Finite 5) 5)]"

definition snapshot :: status_world where
  "snapshot = \<lparr>world_ledger = None, world_snapshot = Some ''x''\<rparr>"

lemma seq5_doc: "doc_exec_seq seq5 = 5"
  by (simp add: doc_exec_seq_def seq5_def trunc_def)

lemma snapshot_read: "read_status_text (\<lambda>_. None) snapshot n = Status_text ''x'' None"
  by (simp add: read_status_text_def snapshot_def getenv_nonempty_def)

lemma observe_seq5:
  assumes "nv_last_exec_seq afl = 4"
  defines "obs \<equiv> fst (nv_observe_security_state_once (\<lambda>_. None) (\<lambda>_. Some seq5) snapshot 4 afl)"
  shows "obs_has obs" and "obs_exec_seq obs = 5" and "\<not> obs_validation_reject obs"
proof -
  have "nv_last_exec_seq (afl\<lparr>nv_http_status_ok := n\<rparr>) = 4" for n using assms(1) by simp
  then show "obs_has obs" "obs_exec_seq obs = 5" "\<not> obs_validation_reject obs"
    by (simp_all add: obs_def nv_observe_security_state_once_def snapshot_read seq5_doc Let_def
        nv_status_is_fresh_def fold_state_frame)
      (simp add: fold_state_def make_obs_def Let_def split_beta seq5_def json_is_true_def)
qed

lemma observe_after_seq5:
  assumes "nv_last_exec_seq afl = 4"
  defines "obs \<equiv> fst (nv_observe_security_state_after_execution (\<lambda>_. None) (\<lambda>_. Some seq5) (\<lambda>_. snapshot) afl)"
  shows "obs_has obs" and "obs_exec_seq obs = 5" and "\<not> obs_validation_reject obs"
proof -
  obtain o1 a1 where o1: "nv_observe_security_state_once (\<lambda>_. None) (\<lambda>_. Some seq5) snapshot 4
      afl = (o1, a1)" by force
  have "observe_attempts (Suc n) (\<lambda>_. None) (\<lambda>_. Some seq5) (\<lambda>_. snapshot) 0 4 afl = (Some o1, a1)" for n
    using observe_seq5 [OF assms(1)] o1 by simp
  from this [of "1000 - 1"]
  have "observe_attempts 1000 (\<lambda>_. None) (\<lambda>_. Some seq5) (\<lambda>_. snapshot) 0 4 afl = (Some o1, a1)"
    by (simp del: observe_attempts.simps)
  then have "obs = o1" by (simp add: obs_def nv_observe_security_state_after_execution_def assms(1))
  then show "obs_has obs" "obs_exec_seq obs = 5" "\<not> obs_validation_reject obs"
    using observe_seq5 [OF assms(1)] o1 by simp_all
qed

theorem observations_count_states_witness:
  "unat (nv_sec_state_new_total (observe_looks (\<lambda>_. None) (\<lambda>_. Some seq5) [(snapshot, 4)] start_seen)) =
   unat (of_nat (card (covset_states (covset
     (observe_looks (\<lambda>_. None) (\<lambda>_. Some seq5) [(snapshot, 4)] start_seen)))) :: u64)"
  using observations_count_states [OF start_seen_inv refl, of "\<lambda>_. None" "\<lambda>_. Some seq5" "[(snapshot, 4)]"]
  by simp

text \<open>
  C5 The observation credited to an execution really belongs to it: once some execution has been
  identified, an observation returned after the next one carries a later execution number, read
  from a document that was on disk at one of the 1000 attempts; when none arrives in time,
  nothing is recorded.
\<close>

theorem observation_attributed:
  fixes afl :: "'a nv_seen_scheme"
  assumes "nv_observe_security_state_after_execution env parse worlds afl = (obs, after)"
  shows "if obs_has obs
    then (nv_last_exec_seq afl = 0 \<or> nv_last_exec_seq afl < obs_exec_seq obs) \<and>
      (\<exists>j<1000. \<exists>offset buf doc e. read_status_text env (worlds j) offset = Status_text buf e \<and>
         parse buf = Some doc \<and> doc_exec_seq doc = obs_exec_seq obs)
    else obs = no_obs \<and> covset after = covset afl \<and> nv_sec_state_obs after = nv_sec_state_obs afl"
proof -
  obtain r a where r: "observe_attempts 1000 env parse worlds 0 (nv_last_exec_seq afl) afl = (r, a)" by force
  show ?thesis
  proof (cases r)
    case None
    then show ?thesis using assms r observe_attempts_missed [of 1000 env parse worlds 0 _ afl a]
      by (auto simp: nv_observe_security_state_after_execution_def no_obs_def)
  next
    case (Some o1)
    then show ?thesis using assms r
        observe_attempts_found [of 1000 env parse worlds 0 "nv_last_exec_seq afl" afl o1 a]
      by (auto simp: nv_observe_security_state_after_execution_def)
  qed
qed

theorem observation_attributed_witness:
  "4 < obs_exec_seq (fst (nv_observe_security_state_after_execution (\<lambda>_. None) (\<lambda>_. Some seq5)
     (\<lambda>_. snapshot) start_seen))"
proof -
  have b: "nv_last_exec_seq start_seen = 4" by (simp add: start_seen_def)
  show ?thesis
    using observation_attributed [OF prod.collapse [symmetric], of "\<lambda>_. None" "\<lambda>_. Some seq5" "\<lambda>_. snapshot" start_seen]
      observe_after_seq5(1) [OF b] b by simp
qed

text \<open>
  C6 A dead line stops the ledger for good: when the line at the reading position is stale,
  replayed or does not parse, every attempt reads that line again, whatever the harness appends
  behind it; the execution gets no observation, the position does not move, and so the same
  holds after every later execution.
\<close>

theorem dead_line_blocks:
  fixes afl :: "'a nv_seen_scheme"
  assumes "getenv_nonempty env ''NV_STATUS_LEDGER_PATH'' = Some lp"
    and "\<forall>j. world_ledger (worlds j) = Some (pre @ s @ CHR 0x0A # r j)" and "CHR 0x0A \<notin> set s"
    and "ledger_offset afl = length pre"
    and "dead_line parse (nv_last_exec_seq afl) (s @ [CHR 0x0A])"
  shows "\<exists>after. nv_observe_security_state_after_execution env parse worlds afl = (no_obs, after) \<and>
    ledger_offset after = ledger_offset afl \<and> nv_last_exec_seq after = nv_last_exec_seq afl"
proof -
  obtain r a where r: "observe_attempts 1000 env parse worlds 0 (nv_last_exec_seq afl) afl = (r, a)" by force
  have "r = None"
    using observe_attempts_dead [OF assms(1) _ assms(3-5), of worlds, OF spec [OF assms(2)]] r by (metis fst_conv)
  then show ?thesis using observe_attempts_missed [of 1000 env parse worlds 0 _ afl a] r
    by (simp add: nv_observe_security_state_after_execution_def)
qed

theorem dead_line_blocks_witness:
  "fst (nv_observe_security_state_after_execution [''NV_STATUS_LEDGER_PATH'' \<mapsto> ''l''] (\<lambda>_. None)
     (\<lambda>k. \<lparr>world_ledger = Some (''bad'' @ CHR 0x0A # replicate k (CHR ''x'')), world_snapshot = None\<rparr>)
     start_seen) = no_obs"
proof -
  have "getenv_nonempty [''NV_STATUS_LEDGER_PATH'' \<mapsto> ''l''] ''NV_STATUS_LEDGER_PATH'' = Some ''l''"
    by (simp add: getenv_nonempty_def)
  from dead_line_blocks [OF this, of "\<lambda>k. \<lparr>world_ledger = Some (''bad'' @ CHR 0x0A # replicate k (CHR ''x'')),
      world_snapshot = None\<rparr>" "[]" "''bad''" "\<lambda>k. replicate k (CHR ''x'')" start_seen "\<lambda>_. None"]
  show ?thesis by (auto simp: dead_line_def start_seen_def)
qed

text \<open>
  An execution that gained harness coverage is always rewarded above one that did not, under
  any rounding and whatever else the two observations say; without a penalty the reward is the
  exact weighted sum, and no observation means no reward.
\<close>

theorem reward_ranks_coverage:
  assumes "fpu_ok fp" and "obs_has o1" and "1 \<le> unat (obs_ncov_delta o1)"
    and "unat (obs_ncov_delta o1) \<le> 10 ^ 12" and "unat (obs_new_states o1) \<le> 1"
    and "obs_ncov_delta o2 = 0" and "unat (obs_new_states o2) \<le> 1"
  shows "nv_reward_from_obs fp o2 < nv_reward_from_obs fp o1 \<and> nv_reward_from_obs fp no_obs = 0 \<and>
    (\<not> obs_is_4xx o1 \<longrightarrow> nv_reward_from_obs fp o1 =
      1000 * real (unat (obs_ncov_delta o1)) + 10 * real (unat (obs_new_states o1)) +
      (if obs_is_exception o1 then 5 else 0) + (if obs_recovered o1 then 2 else 0))"
proof -
  have "nv_reward_from_obs fp o2 \<le> 17"
    using reward_range(2) [OF assms(1) _ _ assms(7)] assms(6)
    by (cases "obs_has o2") (simp_all add: nv_reward_from_obs_def)
  moreover have "999 \<le> nv_reward_from_obs fp o1"
  proof -
    have "1 \<le> real (unat (obs_ncov_delta o1))" by (rule of_nat_ge_one [OF assms(3)])
    then show ?thesis using reward_range(1) [OF assms(1,2,4,5,3)] by linarith
  qed
  moreover have "nv_reward_from_obs fp no_obs = 0"
    by (simp add: nv_reward_from_obs_def no_obs_def)
  ultimately show ?thesis using reward_before_penalty(1) [OF assms(1,2,4,5)] by simp
qed


theorem reward_ranks_coverage_witness:
  "nv_reward_from_obs exact_fpu (no_obs\<lparr>obs_has := True, obs_is_exception := True\<rparr>) <
   nv_reward_from_obs exact_fpu (no_obs\<lparr>obs_has := True, obs_ncov_delta := 2, obs_is_4xx := True\<rparr>)"
  using reward_ranks_coverage [OF fpu_ok_exact,
      of "no_obs\<lparr>obs_has := True, obs_ncov_delta := 2, obs_is_4xx := True\<rparr>"
         "no_obs\<lparr>obs_has := True, obs_is_exception := True\<rparr>"]
  by (simp add: no_obs_def)

end
