(* ===== verification/Nv_Exec.thy ===== *)
theory Nv_Exec
  imports Nv_Observe
begin

text \<open>
  One execution of a mutated input: the accounting of \<open>fuzz_run_target\<close> and the handler
  \<open>common_fuzz_stuff\<close> (\<open>src/src/afl-fuzz-run.c\<close>), which filters the input, runs it, observes the
  security state, writes the terminal ledger record and settles the pending bandit update; and
  the step of \<open>src/src/afl-fuzz-one.c\<close> that picks an arm, calls the custom mutator and opens the
  pending update. The target, the scorer, the files and the queue bookkeeping of a new input are
  answers in an \<open>exec_world\<close>.
\<close>

section \<open>State and world\<close>

datatype fsrv_run_result = FSRV_RUN_OK | FSRV_RUN_TMOUT | FSRV_RUN_CRASH | FSRV_RUN_ERROR
  | FSRV_RUN_NOINST | FSRV_RUN_NOBITS

record nv_run = nv_seen +
  queue_cur_set :: bool
  stage_name :: "c_string ptr"
  nv_total_valid_exec :: u64
  nv_rec_total :: u64
  nv_rec_success :: u64
  nv_rec_time_sum_ms :: u64
  nv_err_exec :: u64
  nv_execution_iteration :: u64
  subseq_tmouts :: u32
  cur_skipped_items :: u32
  skip_requested :: bool
  queued_discovered :: u32

text \<open>
  \<open>ew_write\<close> is \<open>write_to_testcase\<close>: the input as it reaches the target, empty when it is refused;
  \<open>ew_signal\<close> is the value a signal gave \<open>stop_soon\<close> during the run, 0 for none; \<open>ew_save\<close> is
  \<open>save_if_interesting\<close> and \<open>ew_stats\<close> the statistics screen, when it is due.
\<close>

record 's exec_world =
  ew_write :: "bytes \<Rightarrow> bytes"
  ew_peer :: "bytes \<Rightarrow> rpc_answers"
  ew_print :: "c_string \<Rightarrow> c_string \<Rightarrow> c_string"
  ew_result :: fsrv_run_result
  ew_signal :: u8
  ew_status_file :: "c_string option"
  ew_run_look :: status_world
  ew_looks :: "nat \<Rightarrow> status_world"
  ew_reject_io :: io_answers
  ew_terminal_io :: io_answers
  ew_clear_io :: "io_answers \<times> io_answers"
  ew_commit_io :: io_answers
  ew_final_io :: io_answers
  ew_save :: "bytes \<Rightarrow> fsrv_run_result \<Rightarrow> 's \<Rightarrow> u32 \<times> 's"
  ew_stats :: "'s \<Rightarrow> 's"

text \<open>A handler that may return early.\<close>

datatype 's flow = Return bool 's | Continue 's

section \<open>Running the target\<close>

definition nv_counts :: "'a nv_run_scheme \<Rightarrow> bool" where
  "nv_counts afl \<longleftrightarrow> queue_cur_set afl \<and>
     (case stage_name afl of None \<Rightarrow> True
      | Some st \<Rightarrow> st \<noteq> ''dry_run'' \<and> st \<noteq> ''calibration'')"

definition count_recovery :: "nv_status \<Rightarrow> 'a nv_run_scheme \<Rightarrow> 'a nv_run_scheme" where
  "count_recovery st afl =
     (let afl = afl\<lparr>nv_rec_total := nv_rec_total afl + 1\<rparr> in
      if st_recovered st
      then afl\<lparr>nv_rec_success := nv_rec_success afl + 1,
               nv_rec_time_sum_ms := nv_rec_time_sum_ms afl + st_recover_ms st\<rparr>
      else afl)"

definition count_result :: "env_vars \<Rightarrow> json_parser \<Rightarrow> 's exec_world \<Rightarrow> bool \<Rightarrow> 'a nv_run_scheme \<Rightarrow>
    bool \<times> 'a nv_run_scheme" where
  "count_result env parse w nv_counted afl =
     (let status = nv_read_status_json parse (ew_status_file w);
          res = ew_result w
      in if res = FSRV_RUN_CRASH \<or> res = FSRV_RUN_TMOUT \<or> res = FSRV_RUN_ERROR
         then (True, case status of Some st \<Rightarrow> count_recovery st afl | None \<Rightarrow> afl)
         else if res = FSRV_RUN_OK
         then (case status of
                 None \<Rightarrow> (False, afl)
               | Some st \<Rightarrow>
                   let is_err = (st_is_exception st \<or> st_http_code st \<ge> 500);
                       afl = (if nv_counted \<and> is_err then count_recovery st afl else afl);
                       afl = (if \<not> nv_counted \<and> getenv_nonempty env ''NV_STATUS_PATH'' \<noteq> None
                              then snd (nv_observe_security_state_once env parse (ew_run_look w) 0 afl)
                              else afl)
                   in (is_err, afl))
         else (False, afl))"

text \<open>The run itself, and the count of valid executions.\<close>

definition count_run :: "'s exec_world \<Rightarrow> 'a nv_run_scheme \<Rightarrow> 'a nv_run_scheme" where
  "count_run w afl =
     (let afl = (if ew_signal w \<noteq> 0 then afl\<lparr>stop_soon := ew_signal w\<rparr> else afl)
      in if nv_counts afl then afl\<lparr>nv_total_valid_exec := nv_total_valid_exec afl + 1\<rparr> else afl)"

definition fuzz_run_target :: "env_vars \<Rightarrow> json_parser \<Rightarrow> 's exec_world \<Rightarrow> 'a nv_run_scheme \<Rightarrow>
    fsrv_run_result \<times> 'a nv_run_scheme" where
  "fuzz_run_target env parse w afl =
     (let afl = count_run w afl;
          nv_counted = nv_counts afl
      in if nv_counted \<and> max_test_cases (nv_task afl) \<noteq> 0 \<and>
            max_test_cases (nv_task afl) \<le> nv_total_valid_exec afl
         then (ew_result w, afl\<lparr>stop_soon := 2\<rparr>)
         else let (is_err, afl) = count_result env parse w nv_counted afl
              in (ew_result w, if nv_counted \<and> is_err
                               then afl\<lparr>nv_err_exec := nv_err_exec afl + 1\<rparr> else afl))"

section \<open>One mutated input\<close>

abbreviation (input) TMOUT_LIMIT :: u32 where "TMOUT_LIMIT \<equiv> 250"

definition cfs_selected_arm :: "nv_mab \<Rightarrow> nv_arm_id" where
  "cfs_selected_arm mab =
     (if pending_update mab
      then (if pending_selected_valid mab then pending_selected_arm mab else pending_arm mab)
      else NV_ARM_FIELD_VALUE)"

text \<open>The validity filter.\<close>

definition cfs_filter :: "fpu \<Rightarrow> env_vars \<Rightarrow> 's exec_world \<Rightarrow> u64 \<Rightarrow> nv_arm_id \<Rightarrow> bytes \<Rightarrow>
    'a nv_run_scheme \<Rightarrow> 'a nv_run_scheme flow" where
  "cfs_filter fp env w iteration_id selected_arm out_buf afl =
     (if enable_validity (nv_task afl) then
        let vr = nv_validity_check fp env (ew_peer w) (ew_print w) afl (Some out_buf)
        in if nv_v_is_reject vr then
             let afl = nv_account_invalid afl vr;
                 (_, afl) = nv_execution_ledger_append env (ew_reject_io w)
                   (ledger_entry.make iteration_id selected_arm selected_arm False True False False
                      False 0 0 (Some ''body_validation_reject'') (Some ''invalid_input'')) afl;
                 (_, afl) = nv_mab_journal_clear_pending env (ew_clear_io w) (Some ''invalid_input'') afl
             in Return False afl
           else Continue (nv_account_valid afl)
      else Continue afl)"

text \<open>The terminal record of the execution.\<close>

definition cfs_outcome :: "nv_state_obs \<Rightarrow> nv_arm_id \<Rightarrow> nv_arm_id \<Rightarrow> 'a nv_run_scheme \<Rightarrow> c_string" where
  "cfs_outcome obs selected_arm actual_arm afl =
     (let pending = pending_update (afl_mab afl) in
      if obs_validation_reject obs then ''body_validation_reject''
      else if stop_soon afl \<noteq> 0 \<and> pending then ''pending_cleanup''
      else if pending \<and> actual_arm \<noteq> selected_arm then ''arm_mismatch''
      else if pending \<and> obs_exec_seq obs = 0 then ''invalid_exec_identity''
      else if pending then ''committed_update''
      else ''target_execution_no_mab'')"

definition cfs_terminal :: "env_vars \<Rightarrow> 's exec_world \<Rightarrow> u64 \<Rightarrow> nv_arm_id \<Rightarrow> nv_state_obs \<Rightarrow>
    'a nv_run_scheme \<Rightarrow> 'a nv_run_scheme flow" where
  "cfs_terminal env w iteration_id selected_arm obs afl =
     (let mab = afl_mab afl;
          actual_arm = (if pending_update mab then pending_arm mab else selected_arm);
          outcome = cfs_outcome obs selected_arm actual_arm afl;
          rej = obs_validation_reject obs;
          (ok, afl) =
            (if outcome \<noteq> ''committed_update'' \<and> outcome \<noteq> ''pending_cleanup''
             then nv_execution_ledger_append env (ew_terminal_io w)
                    (ledger_entry.make iteration_id selected_arm actual_arm (\<not> rej) True
                       (\<not> rej \<and> obs_has obs) (\<not> rej \<and> obs_has obs) (\<not> rej \<and> obs_exec_seq obs > 0)
                       (if rej then 0 else obs_exec_seq obs) (if rej then 0 else obs_http_status obs)
                       (Some outcome) None) afl
             else (True, afl))
      in if \<not> ok then Return True afl
         else if pending_update (afl_mab afl) \<and> nv_mab_terminal_ledger_suppresses_cleanup (Some outcome)
         then Continue (afl\<lparr>afl_mab := (afl_mab afl)\<lparr>pending_ledger_terminal_recorded := True\<rparr>\<rparr>)
         else Continue afl)"

text \<open>Stop requests, repeated timeouts and skip requests.\<close>

definition cfs_stop :: "env_vars \<Rightarrow> 's exec_world \<Rightarrow> fsrv_run_result \<Rightarrow> 'a nv_run_scheme \<Rightarrow>
    'a nv_run_scheme flow" where
  "cfs_stop env w fault afl =
     (let clear = (\<lambda>reason s. snd (nv_mab_journal_clear_pending env (ew_clear_io w) (Some reason) s)) in
      if stop_soon afl \<noteq> 0 then
        Return True (clear
          (if stop_soon afl = 2 \<and> max_test_cases (nv_task afl) \<noteq> 0 \<and>
              nv_total_valid_exec afl \<ge> max_test_cases (nv_task afl)
           then ''budget_boundary'' else ''stop_soon'') afl)
      else if fault = FSRV_RUN_TMOUT \<and> subseq_tmouts afl > TMOUT_LIMIT then
        Return True (clear ''timeout'' (afl\<lparr>subseq_tmouts := subseq_tmouts afl + 1,
                                          cur_skipped_items := cur_skipped_items afl + 1\<rparr>))
      else
        let afl = (if fault = FSRV_RUN_TMOUT then afl\<lparr>subseq_tmouts := subseq_tmouts afl + 1\<rparr>
                   else afl\<lparr>subseq_tmouts := 0\<rparr>)
        in if skip_requested afl then
             Return True (clear ''skip'' (afl\<lparr>skip_requested := False,
                                            cur_skipped_items := cur_skipped_items afl + 1\<rparr>))
           else Continue afl)"

text \<open>The update record built from an observation.\<close>

definition update_of_obs :: "fpu \<Rightarrow> nv_arm_id \<Rightarrow> nv_state_obs \<Rightarrow> nv_mab_journal_update" where
  "update_of_obs fp reward_arm obs =
     \<lparr>upd_exec_seq = obs_exec_seq obs, upd_selected_arm = reward_arm,
      upd_actual_used_arm = reward_arm, upd_arm_match = True,
      upd_reward = nv_reward_from_obs fp obs,
      upd_harness_native_coverage = dmul fp NV_REWARD_HARNESS_NCOV (d_of_u64 fp (obs_ncov_delta obs)),
      upd_security_state = dmul fp NV_REWARD_NEW_SECURITY_STATE (d_of_u64 fp (obs_new_states obs)),
      upd_exception = (if obs_is_exception obs then NV_REWARD_EXCEPTION else 0),
      upd_recovery = (if obs_recovered obs then NV_REWARD_RECOVERED else 0),
      upd_http_4xx_penalty = (if obs_is_4xx obs then dlit fp NV_REWARD_4XX_PENALTY else 0),
      upd_security_state_new = (if obs_new_states obs \<noteq> 0 then 1 else 0), upd_update_source = 1\<rparr>"

definition cfs_commit :: "fpu \<Rightarrow> (real \<Rightarrow> c_string) \<Rightarrow> env_vars \<Rightarrow> 's exec_world \<Rightarrow> u64 \<Rightarrow> nv_arm_id \<Rightarrow>
    nv_state_obs \<Rightarrow> 'a nv_run_scheme \<Rightarrow> 'a nv_run_scheme flow" where
  "cfs_commit fp g17 env w iteration_id selected_arm obs afl =
     (let reward_arm = pending_arm (afl_mab afl);
          record = (\<lambda>outcome. ledger_entry.make iteration_id selected_arm reward_arm True True True True
                      True (obs_exec_seq obs) (obs_http_status obs) (Some outcome) None);
          afl = afl\<lparr>afl_mab := (afl_mab afl)\<lparr>pending_update := False, update_source := 0\<rparr>,
                    nv_sec_state_reward_src_seq := obs_exec_seq obs\<rparr>;
          (committed, afl) = nv_mab_journal_commit_update fp g17 env (ew_commit_io w)
             (Some (update_of_obs fp reward_arm obs)) afl
      in if \<not> committed
         then Return True (snd (nv_execution_ledger_append env (ew_final_io w)
                                  (record ''mab_commit_failed'') afl))
         else let (ok, afl) = nv_execution_ledger_append env (ew_final_io w)
                                (record ''committed_update'') afl
              in if \<not> ok then Return True afl
                 else Continue (afl\<lparr>afl_mab := (afl_mab afl)\<lparr>pending_ledger_terminal_recorded := True\<rparr>\<rparr>))"

text \<open>The hand-off of the observation to the bandit.\<close>

definition cfs_reward :: "fpu \<Rightarrow> (real \<Rightarrow> c_string) \<Rightarrow> env_vars \<Rightarrow> 's exec_world \<Rightarrow> u64 \<Rightarrow> nv_arm_id \<Rightarrow>
    nv_state_obs \<Rightarrow> 'a nv_run_scheme \<Rightarrow> 'a nv_run_scheme flow" where
  "cfs_reward fp g17 env w iteration_id selected_arm obs afl =
     (let mab = afl_mab afl;
          clear = (\<lambda>reason. Return False (snd (nv_mab_journal_clear_pending env (ew_clear_io w)
                              (Some reason) afl)))
      in if \<not> pending_update mab then Continue afl
         else if pending_selected_valid mab \<and> pending_arm mab \<noteq> pending_selected_arm mab
         then clear ''arm_mismatch''
         else if obs_validation_reject obs then clear ''invalid_input''
         else if obs_exec_seq obs = 0 then clear ''invalid_exec_identity''
         else cfs_commit fp g17 env w iteration_id selected_arm obs afl)"

text \<open>After the run and its observation.\<close>

definition cfs_settle :: "fpu \<Rightarrow> (real \<Rightarrow> c_string) \<Rightarrow> env_vars \<Rightarrow> ('a nv_run_scheme) exec_world \<Rightarrow> u64 \<Rightarrow>
    nv_arm_id \<Rightarrow> bytes \<Rightarrow> fsrv_run_result \<Rightarrow> nv_state_obs \<Rightarrow> 'a nv_run_scheme \<Rightarrow> bool \<times> 'a nv_run_scheme" where
  "cfs_settle fp g17 env w iteration_id selected_arm out_buf fault obs afl =
     (case cfs_terminal env w iteration_id selected_arm obs afl of
        Return r afl \<Rightarrow> (r, afl)
      | Continue afl \<Rightarrow>
          (case cfs_stop env w fault afl of
             Return r afl \<Rightarrow> (r, afl)
           | Continue afl \<Rightarrow>
               let (found, afl) = ew_save w out_buf fault afl;
                   afl = afl\<lparr>queued_discovered := queued_discovered afl + found\<rparr>
               in (case cfs_reward fp g17 env w iteration_id selected_arm obs afl of
                     Return r afl \<Rightarrow> (r, afl)
                   | Continue afl \<Rightarrow> (False, ew_stats w afl))))"

definition common_fuzz_stuff :: "fpu \<Rightarrow> (real \<Rightarrow> c_string) \<Rightarrow> env_vars \<Rightarrow> json_parser \<Rightarrow>
    ('a nv_run_scheme) exec_world \<Rightarrow> bytes \<Rightarrow> 'a nv_run_scheme \<Rightarrow> bool \<times> 'a nv_run_scheme" where
  "common_fuzz_stuff fp g17 env parse w buf afl =
     (let afl = afl\<lparr>nv_execution_iteration := nv_execution_iteration afl + 1\<rparr>;
          iteration_id = nv_execution_iteration afl;
          selected_arm = cfs_selected_arm (afl_mab afl);
          out_buf = ew_write w buf
      in if out_buf = []
         then (False, snd (nv_mab_journal_clear_pending env (ew_clear_io w) (Some ''invalid_input'') afl))
         else (case cfs_filter fp env w iteration_id selected_arm out_buf afl of
             Return r afl \<Rightarrow> (r, afl)
           | Continue afl \<Rightarrow>
               let (fault, afl) = fuzz_run_target env parse w afl;
                   (obs, afl) = nv_observe_security_state_after_execution env parse (ew_looks w) afl
               in cfs_settle fp g17 env w iteration_id selected_arm out_buf fault obs afl))"

section \<open>The custom-mutator step\<close>

definition arm_digit :: "nv_arm_id \<Rightarrow> c_string" where
  "arm_digit arm = [char_of (48 + nat arm)]"

text \<open>The arm the mutator says it used, \<open>NV_ARM_MAX\<close> when it names none.\<close>

definition reported_arm :: "c_string option \<Rightarrow> nv_arm_id" where
  "reported_arm nv_used =
     (case nv_used of
        Some [ch] \<Rightarrow> let n = int (of_char ch) in
          if 48 \<le> n \<and> n < 48 + NV_ARM_MAX then n - 48 else NV_ARM_MAX
      | _ \<Rightarrow> NV_ARM_MAX)"

text \<open>
  \<open>mutate\<close> is the custom mutator given \<open>NV_CUR_ARM\<close>: its output (\<open>None\<close> for a null buffer) and
  \<open>NV_JSON_ARM_USED\<close> as it left it. The result says how the stage goes on: \<open>None\<close> leaves the loop
  over the mutators (a null buffer), \<open>Some abort\<close> is whether the entry is abandoned.
\<close>

definition custom_mutator_step :: "fpu \<Rightarrow> (real \<Rightarrow> c_string) \<Rightarrow> env_vars \<Rightarrow> json_parser \<Rightarrow>
    ('a nv_run_scheme) exec_world \<Rightarrow> io_answers \<Rightarrow>
    (c_string \<Rightarrow> nat \<times> bytes ptr \<times> c_string option) \<Rightarrow> 'a nv_run_scheme \<Rightarrow>
    bool option \<times> 'a nv_run_scheme" where
  "custom_mutator_step fp g17 env parse w event_io mutate afl =
     (let (arm, mab) = nv_mab_pick fp env (afl_mab afl) (mutation_scope (nv_task afl));
          afl = afl\<lparr>afl_mab := mab\<lparr>last_arm := arm\<rparr>\<rparr>;
          (mutated_size, mutated_buf, nv_used) = mutate (arm_digit arm)
      in if mutated_size = 0 then (Some False, afl)
         else case mutated_buf of
           None \<Rightarrow> (None, afl)
         | Some buf \<Rightarrow>
             let begin_pending = (\<lambda>actual source s. s\<lparr>afl_mab :=
                   nv_mab_begin_pending arm actual (nv_execution_iteration s + 1) source (afl_mab s)\<rparr>);
                 run = (\<lambda>s. (case common_fuzz_stuff fp g17 env parse w (take mutated_size buf) s of
                                (abort_now, s) \<Rightarrow> (Some abort_now, s)))
             in if nv_used = Some (arm_digit arm) then run (begin_pending arm 1 afl)
                else
                  let actual_arm = reported_arm nv_used;
                      (ok, afl) = nv_mab_journal_append_event env event_io
                                    (Some ''mab_update_mismatch'') (Some '''') arm actual_arm afl
                  in if \<not> ok then (Some True, afl)
                     else run (begin_pending actual_arm 0 afl))"

section \<open>What the parts leave alone\<close>

definition bandit_stats :: "nv_mab \<Rightarrow> nv_arm list \<times> u64" where
  "bandit_stats mab = (arms mab, total_pulls mab)"

lemma bandit_stats_simps [simp]:
  "bandit_stats (m\<lparr>pending_update := b\<rparr>) = bandit_stats m"
  "bandit_stats (m\<lparr>update_source := s\<rparr>) = bandit_stats m"
  "bandit_stats (m\<lparr>last_arm := a\<rparr>) = bandit_stats m"
  "bandit_stats (m\<lparr>pending_ledger_terminal_recorded := b\<rparr>) = bandit_stats m"
  "bandit_stats (nv_mab_begin_pending x y z v m) = bandit_stats m"
  by (simp_all add: bandit_stats_def nv_mab_begin_pending_def)

lemma bandit_stats_update:
  "bandit_stats m = bandit_stats m' \<Longrightarrow>
   bandit_stats (nv_mab_update fp m a r) = bandit_stats (nv_mab_update fp m' a r)"
  by (auto simp: bandit_stats_def nv_mab_update_def mab_arm_def Let_def)

lemma clear_pending_mab:
  "\<not> pending_update (afl_mab (snd (nv_mab_journal_clear_pending env ios reason afl)))"
  "bandit_stats (afl_mab (snd (nv_mab_journal_clear_pending env ios reason afl))) = bandit_stats (afl_mab afl)"
  by (auto simp: nv_mab_journal_clear_pending_def Let_def split_beta bandit_stats_def
      ledger_append_frame(1) append_event_frame(1))

lemma ledger_append_fail:
  "nv_execution_ledger_append env io e afl = (False, s) \<Longrightarrow> nv_execution_ledger_audit_invalid s"
  by (auto simp: nv_execution_ledger_append_def ledger_fail_def Let_def
      split: option.splits prod.splits if_splits)

lemma count_errors_frame2 [simp]:
  "afl_mab (count_errors doc afl) = afl_mab afl"
  "stop_soon (count_errors doc afl) = stop_soon afl"
  "nv_task (count_errors doc afl) = nv_task afl"
  "nv_total_valid_exec (count_errors doc afl) = nv_total_valid_exec afl"
  "nv_err_exec (count_errors doc afl) = nv_err_exec afl"
  "nv_rec_total (count_errors doc afl) = nv_rec_total afl"
  "queue_cur_set (count_errors doc afl) = queue_cur_set afl"
  "stage_name (count_errors doc afl) = stage_name afl"
  "skip_requested (count_errors doc afl) = skip_requested afl"
  "subseq_tmouts (count_errors doc afl) = subseq_tmouts afl"
  by (simp_all add: count_errors_def Let_def)

lemma trace_state_frame2 [simp]:
  "afl_mab (trace_state env key obs afl) = afl_mab afl"
  "stop_soon (trace_state env key obs afl) = stop_soon afl"
  "nv_task (trace_state env key obs afl) = nv_task afl"
  "nv_total_valid_exec (trace_state env key obs afl) = nv_total_valid_exec afl"
  "nv_err_exec (trace_state env key obs afl) = nv_err_exec afl"
  "nv_rec_total (trace_state env key obs afl) = nv_rec_total afl"
  "queue_cur_set (trace_state env key obs afl) = queue_cur_set afl"
  "stage_name (trace_state env key obs afl) = stage_name afl"
  "skip_requested (trace_state env key obs afl) = skip_requested afl"
  "subseq_tmouts (trace_state env key obs afl) = subseq_tmouts afl"
  by (simp_all add: trace_state_def)

lemma credit_seed_frame2 [simp]:
  "afl_mab (credit_seed afl) = afl_mab afl"
  "stop_soon (credit_seed afl) = stop_soon afl"
  "nv_task (credit_seed afl) = nv_task afl"
  "nv_total_valid_exec (credit_seed afl) = nv_total_valid_exec afl"
  "nv_err_exec (credit_seed afl) = nv_err_exec afl"
  "nv_rec_total (credit_seed afl) = nv_rec_total afl"
  "queue_cur_set (credit_seed afl) = queue_cur_set afl"
  "stage_name (credit_seed afl) = stage_name afl"
  "skip_requested (credit_seed afl) = skip_requested afl"
  "subseq_tmouts (credit_seed afl) = subseq_tmouts afl"
  by (simp_all add: credit_seed_def Let_def split: option.split)

lemma fold_state_frame2 [simp]:
  "afl_mab (snd (fold_state env doc seq afl)) = afl_mab afl"
  "stop_soon (snd (fold_state env doc seq afl)) = stop_soon afl"
  "nv_task (snd (fold_state env doc seq afl)) = nv_task afl"
  "nv_total_valid_exec (snd (fold_state env doc seq afl)) = nv_total_valid_exec afl"
  "nv_err_exec (snd (fold_state env doc seq afl)) = nv_err_exec afl"
  "nv_rec_total (snd (fold_state env doc seq afl)) = nv_rec_total afl"
  "queue_cur_set (snd (fold_state env doc seq afl)) = queue_cur_set afl"
  "stage_name (snd (fold_state env doc seq afl)) = stage_name afl"
  "skip_requested (snd (fold_state env doc seq afl)) = skip_requested afl"
  "subseq_tmouts (snd (fold_state env doc seq afl)) = subseq_tmouts afl"
  by (simp_all add: fold_state_def Let_def split_beta)

lemma observe_once_frame [simp]:
  "afl_mab (snd (nv_observe_security_state_once env parse w mn afl)) = afl_mab afl"
  "stop_soon (snd (nv_observe_security_state_once env parse w mn afl)) = stop_soon afl"
  "nv_task (snd (nv_observe_security_state_once env parse w mn afl)) = nv_task afl"
  "nv_total_valid_exec (snd (nv_observe_security_state_once env parse w mn afl)) = nv_total_valid_exec afl"
  "nv_err_exec (snd (nv_observe_security_state_once env parse w mn afl)) = nv_err_exec afl"
  "nv_rec_total (snd (nv_observe_security_state_once env parse w mn afl)) = nv_rec_total afl"
  "queue_cur_set (snd (nv_observe_security_state_once env parse w mn afl)) = queue_cur_set afl"
  "stage_name (snd (nv_observe_security_state_once env parse w mn afl)) = stage_name afl"
  "skip_requested (snd (nv_observe_security_state_once env parse w mn afl)) = skip_requested afl"
  "subseq_tmouts (snd (nv_observe_security_state_once env parse w mn afl)) = subseq_tmouts afl"
  by (simp_all add: nv_observe_security_state_once_def Let_def split_beta split: status_text.split option.split)

text \<open>What an observation keeps of the rest of the state.\<close>

definition unobserved :: "'a nv_run_scheme \<Rightarrow> 'b nv_run_scheme \<Rightarrow> bool" where
  "unobserved afl s \<longleftrightarrow> afl_mab s = afl_mab afl \<and>
    stop_soon s = stop_soon afl \<and>
    nv_task s = nv_task afl \<and>
    nv_total_valid_exec s = nv_total_valid_exec afl \<and>
    nv_err_exec s = nv_err_exec afl \<and>
    nv_rec_total s = nv_rec_total afl \<and>
    queue_cur_set s = queue_cur_set afl \<and>
    stage_name s = stage_name afl \<and>
    skip_requested s = skip_requested afl \<and>
    subseq_tmouts s = subseq_tmouts afl"

lemma observe_attempts_frame:
  fixes afl :: "'a nv_run_scheme"
  shows "unobserved afl (snd (observe_attempts n env parse worlds k b afl))"
proof (induction n arbitrary: k afl)
  case (Suc n)
  obtain o1 s where r: "nv_observe_security_state_once env parse (worlds k) b afl = (o1, s)" by force
  have "unobserved afl s"
    using observe_once_frame [of env parse "worlds k" b afl] r by (simp add: unobserved_def)
  then show ?case using Suc.IH [of s "Suc k"] r by (simp add: unobserved_def)
qed (simp add: unobserved_def)

lemma observe_after_frame:
  fixes afl :: "'a nv_run_scheme"
  shows "unobserved afl (snd (nv_observe_security_state_after_execution env parse worlds afl))"
proof -
  obtain r s where "observe_attempts 1000 env parse worlds 0 (nv_last_exec_seq afl) afl = (r, s)" by force
  moreover from this have "unobserved afl s"
    using observe_attempts_frame [of afl 1000 env parse worlds 0 "nv_last_exec_seq afl"] by simp
  ultimately show ?thesis
    by (cases r) (simp_all add: nv_observe_security_state_after_execution_def unobserved_def)
qed

lemma nv_counts_frame [simp]:
  "nv_counts (afl\<lparr>stop_soon := v\<rparr>) = nv_counts afl"
  "nv_counts (afl\<lparr>nv_total_valid_exec := n\<rparr>) = nv_counts afl"
  by (simp_all add: nv_counts_def)

lemma count_run_frame [simp]:
  "nv_counts (count_run w afl) = nv_counts afl" "nv_task (count_run w afl) = nv_task afl"
  "nv_total_valid_exec (count_run w afl) = nv_total_valid_exec afl + (if nv_counts afl then 1 else 0)"
  "stop_soon (count_run w afl) = (if ew_signal w \<noteq> 0 then ew_signal w else stop_soon afl)"
  "afl_mab (count_run w afl) = afl_mab afl" "nv_err_exec (count_run w afl) = nv_err_exec afl"
  "nv_rec_total (count_run w afl) = nv_rec_total afl"
  by (simp_all add: count_run_def Let_def)

lemma count_recovery_frame [simp]:
  "afl_mab (count_recovery st afl) = afl_mab afl"
  "nv_total_valid_exec (count_recovery st afl) = nv_total_valid_exec afl"
  "nv_err_exec (count_recovery st afl) = nv_err_exec afl"
  "nv_rec_total (count_recovery st afl) = nv_rec_total afl + 1"
  "stop_soon (count_recovery st afl) = stop_soon afl"
  "nv_task (count_recovery st afl) = nv_task afl"
  "stage_name (count_recovery st afl) = stage_name afl"
  "skip_requested (count_recovery st afl) = skip_requested afl"
  "subseq_tmouts (count_recovery st afl) = subseq_tmouts afl"
  "queue_cur_set (count_recovery st afl) = queue_cur_set afl"
  by (simp_all add: count_recovery_def Let_def)

lemma count_result_frame [simp]:
  "afl_mab (snd (count_result env parse w c afl)) = afl_mab afl"
  "stop_soon (snd (count_result env parse w c afl)) = stop_soon afl"
  "nv_task (snd (count_result env parse w c afl)) = nv_task afl"
  "nv_total_valid_exec (snd (count_result env parse w c afl)) = nv_total_valid_exec afl"
  "nv_err_exec (snd (count_result env parse w c afl)) = nv_err_exec afl"
  "queue_cur_set (snd (count_result env parse w c afl)) = queue_cur_set afl"
  "stage_name (snd (count_result env parse w c afl)) = stage_name afl"
  "skip_requested (snd (count_result env parse w c afl)) = skip_requested afl"
  "subseq_tmouts (snd (count_result env parse w c afl)) = subseq_tmouts afl"
  by (simp_all add: count_result_def Let_def split: option.split)

lemma fuzz_run_target_mab [simp]:
  "afl_mab (snd (fuzz_run_target env parse w afl)) = afl_mab afl"
  by (simp add: fuzz_run_target_def Let_def split_beta)

lemma account_mab [simp]:
  "afl_mab (nv_account_invalid afl vr) = afl_mab afl" "afl_mab (nv_account_valid afl) = afl_mab afl"
  by (simp_all add: nv_account_invalid_def nv_account_valid_def Let_def)

section \<open>The parts of the handler\<close>

lemma cfs_filter_mab:
  "case cfs_filter fp env w it sel buf afl of
     Return r s \<Rightarrow> \<not> r \<and> \<not> pending_update (afl_mab s) \<and> bandit_stats (afl_mab s) = bandit_stats (afl_mab afl)
   | Continue s \<Rightarrow> afl_mab s = afl_mab afl"
  by (simp add: cfs_filter_def Let_def split_beta clear_pending_mab ledger_append_frame(1))

lemma cfs_terminal_mab:
  "case cfs_terminal env w it sel obs afl of
     Return r s \<Rightarrow> r \<and> nv_execution_ledger_audit_invalid s \<and> afl_mab s = afl_mab afl
   | Continue s \<Rightarrow> afl_mab s = afl_mab afl \<or>
       afl_mab s = (afl_mab afl)\<lparr>pending_ledger_terminal_recorded := True\<rparr>"
proof -
  obtain ok s where r: "(if cfs_outcome obs sel (if pending_update (afl_mab afl) then pending_arm (afl_mab afl) else sel) afl \<noteq> ''committed_update'' \<and>
        cfs_outcome obs sel (if pending_update (afl_mab afl) then pending_arm (afl_mab afl) else sel) afl \<noteq> ''pending_cleanup''
      then nv_execution_ledger_append env (ew_terminal_io w)
        (ledger_entry.make it sel (if pending_update (afl_mab afl) then pending_arm (afl_mab afl) else sel)
           (\<not> obs_validation_reject obs) True
           (\<not> obs_validation_reject obs \<and> obs_has obs) (\<not> obs_validation_reject obs \<and> obs_has obs)
           (\<not> obs_validation_reject obs \<and> obs_exec_seq obs > 0)
           (if obs_validation_reject obs then 0 else obs_exec_seq obs)
           (if obs_validation_reject obs then 0 else obs_http_status obs)
           (Some (cfs_outcome obs sel (if pending_update (afl_mab afl) then pending_arm (afl_mab afl) else sel) afl)) None) afl
      else (True, afl)) = (ok, s)" (is "(if ?c then ?l else ?n) = _") by force
  have s: "afl_mab s = afl_mab afl" "\<not> ok \<Longrightarrow> nv_execution_ledger_audit_invalid s"
    using r ledger_append_frame(1) [of env "ew_terminal_io w" _ afl]
    by (auto split: if_splits dest: ledger_append_fail) (metis snd_conv)+
  show ?thesis
    using s unfolding cfs_terminal_def Let_def r by (cases ok) simp_all
qed

lemma cfs_stop_mab:
  "case cfs_stop env w fault afl of
     Return r s \<Rightarrow> \<not> pending_update (afl_mab s) \<and> bandit_stats (afl_mab s) = bandit_stats (afl_mab afl)
   | Continue s \<Rightarrow> afl_mab s = afl_mab afl"
  by (simp add: cfs_stop_def Let_def clear_pending_mab)

lemma commit_update_mab:
  assumes "nv_mab_journal_commit_update fp g17 env io (Some u) afl = (ok, s)"
  shows "if update_admissible u
    then afl_mab s = nv_mab_update fp (afl_mab afl) (upd_actual_used_arm u) (upd_reward u)
    else \<not> ok \<and> s = afl"
  using assms
  by (auto simp: nv_mab_journal_commit_update_def nv_mab_journal_write_def update_admissible_def
      Let_def not_less not_le split: if_splits option.splits prod.splits)

lemma update_pending [simp]: "pending_update (nv_mab_update fp m a r) = pending_update m"
  by (simp add: nv_mab_update_def)

lemma update_of_obs_simps [simp]:
  "upd_actual_used_arm (update_of_obs fp a obs) = a" "upd_reward (update_of_obs fp a obs) = nv_reward_from_obs fp obs"
  "update_admissible (update_of_obs fp a obs) \<longleftrightarrow> 0 \<le> a \<and> a < NV_ARM_MAX \<and> obs_exec_seq obs \<noteq> 0"
  by (auto simp: update_of_obs_def update_admissible_def)

definition flow_state :: "'s flow \<Rightarrow> 's" where
  "flow_state f = (case f of Return r s \<Rightarrow> s | Continue s \<Rightarrow> s)"

lemma cfs_commit_mab:
  assumes "0 \<le> pending_arm (afl_mab afl)" "pending_arm (afl_mab afl) < NV_ARM_MAX" "obs_exec_seq obs \<noteq> 0"
  shows "\<not> pending_update (afl_mab (flow_state (cfs_commit fp g17 env w it sel obs afl))) \<and>
    bandit_stats (afl_mab (flow_state (cfs_commit fp g17 env w it sel obs afl))) =
      bandit_stats (nv_mab_update fp (afl_mab afl) (pending_arm (afl_mab afl)) (nv_reward_from_obs fp obs))"
proof -
  let ?a = "pending_arm (afl_mab afl)" and ?u = "update_of_obs fp (pending_arm (afl_mab afl)) obs"
  let ?s = "afl\<lparr>afl_mab := (afl_mab afl)\<lparr>pending_update := False, update_source := 0\<rparr>,
    nv_sec_state_reward_src_seq := obs_exec_seq obs\<rparr>"
  obtain ok s where r: "nv_mab_journal_commit_update fp g17 env (ew_commit_io w) (Some ?u) ?s = (ok, s)" by force
  have "afl_mab s = nv_mab_update fp (afl_mab ?s) ?a (nv_reward_from_obs fp obs)"
    using commit_update_mab [OF r] assms by simp
  moreover have "bandit_stats (afl_mab ?s) = bandit_stats (afl_mab afl)" by simp
  ultimately have s: "\<not> pending_update (afl_mab s) \<and> bandit_stats (afl_mab s) =
      bandit_stats (nv_mab_update fp (afl_mab afl) ?a (nv_reward_from_obs fp obs))"
    using bandit_stats_update [of "afl_mab ?s" "afl_mab afl"] by simp
  have e: "afl_mab (snd (nv_execution_ledger_append env (ew_final_io w) e s)) = afl_mab s" for e
    by (rule ledger_append_frame)
  show ?thesis
  proof (cases ok)
    case True
    obtain b t where b: "nv_execution_ledger_append env (ew_final_io w)
        (ledger_entry.make it sel ?a True True True True True (obs_exec_seq obs) (obs_http_status obs)
           (Some ''committed_update'') None) s = (b, t)" by force
    have "afl_mab t = afl_mab s" using e b by (metis snd_conv)
    then show ?thesis using s r True b by (simp add: cfs_commit_def Let_def flow_state_def)
  next
    case False
    then show ?thesis using s r e by (simp add: cfs_commit_def Let_def flow_state_def)
  qed
qed

lemma cfs_commit_refused:
  assumes "\<not> (0 \<le> pending_arm (afl_mab afl) \<and> pending_arm (afl_mab afl) < NV_ARM_MAX \<and> obs_exec_seq obs \<noteq> 0)"
  shows "\<not> pending_update (afl_mab (flow_state (cfs_commit fp g17 env w it sel obs afl))) \<and>
    bandit_stats (afl_mab (flow_state (cfs_commit fp g17 env w it sel obs afl))) = bandit_stats (afl_mab afl)"
proof -
  let ?u = "update_of_obs fp (pending_arm (afl_mab afl)) obs"
  let ?s = "afl\<lparr>afl_mab := (afl_mab afl)\<lparr>pending_update := False, update_source := 0\<rparr>,
    nv_sec_state_reward_src_seq := obs_exec_seq obs\<rparr>"
  obtain ok s where r: "nv_mab_journal_commit_update fp g17 env (ew_commit_io w) (Some ?u) ?s = (ok, s)" by force
  have "\<not> update_admissible ?u" using assms by simp
  then have "\<not> ok \<and> s = ?s" using commit_update_mab [OF r] by simp
  then show ?thesis using r
    by (simp add: cfs_commit_def Let_def flow_state_def ledger_append_frame(1))
qed

lemma count_result_verdict:
  assumes "count_result env parse w c afl = (e, s)"
  defines "status \<equiv> nv_read_status_json parse (ew_status_file w)"
  defines "failed \<equiv> ew_result w \<in> {FSRV_RUN_CRASH, FSRV_RUN_TMOUT, FSRV_RUN_ERROR} \<or>
      (ew_result w = FSRV_RUN_OK \<and> (\<exists>st. status = Some st \<and> (st_is_exception st \<or> 500 \<le> st_http_code st)))"
  shows "e = failed"
    and "nv_rec_total s = nv_rec_total afl \<or>
      nv_rec_total s = nv_rec_total afl + 1 \<and> failed \<and> status \<noteq> None"
proof -
  have "e = failed \<and> (nv_rec_total s = nv_rec_total afl \<or>
      nv_rec_total s = nv_rec_total afl + 1 \<and> failed \<and> status \<noteq> None)"
    using assms(1) unfolding count_result_def failed_def status_def [symmetric] Let_def
    by (cases status; cases "ew_result w"; clarsimp split: if_splits)
  then show "e = failed" "nv_rec_total s = nv_rec_total afl \<or>
      nv_rec_total s = nv_rec_total afl + 1 \<and> failed \<and> status \<noteq> None" by blast+
qed

section \<open>When the bandit is fed\<close>

definition rewardable :: "nv_mab \<Rightarrow> nv_state_obs \<Rightarrow> bool" where
  "rewardable m obs \<longleftrightarrow> pending_update m \<and>
     (pending_selected_valid m \<longrightarrow> pending_arm m = pending_selected_arm m) \<and>
     0 \<le> pending_arm m \<and> pending_arm m < NV_ARM_MAX \<and>
     \<not> obs_validation_reject obs \<and> obs_exec_seq obs \<noteq> 0"

definition fed :: "fpu \<Rightarrow> nv_mab \<Rightarrow> nv_state_obs \<Rightarrow> nv_mab" where
  "fed fp m obs = nv_mab_update fp m (pending_arm m) (nv_reward_from_obs fp obs)"

lemma cfs_reward_mab:
  shows "\<not> pending_update (afl_mab (flow_state (cfs_reward fp g17 env w it sel obs afl)))"
    and "rewardable (afl_mab afl) obs \<Longrightarrow>
      bandit_stats (afl_mab (flow_state (cfs_reward fp g17 env w it sel obs afl))) = bandit_stats (fed fp (afl_mab afl) obs)"
    and "\<not> rewardable (afl_mab afl) obs \<Longrightarrow>
      bandit_stats (afl_mab (flow_state (cfs_reward fp g17 env w it sel obs afl))) = bandit_stats (afl_mab afl)"
proof -
  let ?m = "afl_mab afl"
  consider (idle) "\<not> pending_update ?m"
    | (clear) "\<exists>reason. cfs_reward fp g17 env w it sel obs afl =
        Return False (snd (nv_mab_journal_clear_pending env (ew_clear_io w) reason afl))"
        "\<not> rewardable ?m obs"
    | (commit) "cfs_reward fp g17 env w it sel obs afl = cfs_commit fp g17 env w it sel obs afl"
        "\<not> obs_validation_reject obs" "obs_exec_seq obs \<noteq> 0" "pending_update ?m"
        "pending_selected_valid ?m \<longrightarrow> pending_arm ?m = pending_selected_arm ?m"
  proof (cases "pending_update ?m \<and> (pending_selected_valid ?m \<longrightarrow> pending_arm ?m = pending_selected_arm ?m) \<and>
      \<not> obs_validation_reject obs \<and> obs_exec_seq obs \<noteq> 0")
    case True
    then show thesis by (intro commit) (auto simp: cfs_reward_def)
  next
    case False
    have "\<exists>reason. cfs_reward fp g17 env w it sel obs afl =
        Return False (snd (nv_mab_journal_clear_pending env (ew_clear_io w) reason afl))"
      if "pending_update ?m" using False that by (auto simp: cfs_reward_def Let_def)
    moreover have "\<not> rewardable ?m obs" using False by (auto simp: rewardable_def)
    ultimately show thesis using idle clear by blast
  qed
  then have "\<not> pending_update (afl_mab (flow_state (cfs_reward fp g17 env w it sel obs afl))) \<and>
    bandit_stats (afl_mab (flow_state (cfs_reward fp g17 env w it sel obs afl))) =
      bandit_stats (if rewardable ?m obs then fed fp ?m obs else ?m)"
  proof cases
    case idle
    then show ?thesis by (simp add: cfs_reward_def flow_state_def rewardable_def)
  next
    case clear
    then show ?thesis by (auto simp: flow_state_def clear_pending_mab)
  next
    case commit
    show ?thesis
    proof (cases "0 \<le> pending_arm ?m \<and> pending_arm ?m < NV_ARM_MAX")
      case True
      then show ?thesis using cfs_commit_mab [where fp = fp and ?g17.0 = g17 and env = env and w = w and it = it and sel = sel and obs = obs and afl = afl] commit
        by (simp add: rewardable_def fed_def)
    next
      case False
      then show ?thesis using cfs_commit_refused [where fp = fp and ?g17.0 = g17 and env = env and w = w and it = it and sel = sel and obs = obs and afl = afl] commit
        by (auto simp: rewardable_def)
    qed
  qed
  then show "\<not> pending_update (afl_mab (flow_state (cfs_reward fp g17 env w it sel obs afl)))"
    "rewardable ?m obs \<Longrightarrow> bandit_stats (afl_mab (flow_state (cfs_reward fp g17 env w it sel obs afl))) = bandit_stats (fed fp ?m obs)"
    "\<not> rewardable ?m obs \<Longrightarrow> bandit_stats (afl_mab (flow_state (cfs_reward fp g17 env w it sel obs afl))) = bandit_stats ?m"
    by simp_all
qed

text \<open>The bookkeeping of a new input and the statistics screen do not touch the bandit.\<close>

definition quiet :: "('a nv_run_scheme) exec_world \<Rightarrow> bool" where
  "quiet w \<longleftrightarrow> (\<forall>buf fault s. afl_mab (snd (ew_save w buf fault s)) = afl_mab s) \<and>
     (\<forall>s. afl_mab (ew_stats w s) = afl_mab s)"

lemma rewardable_recorded [simp]:
  "rewardable (m\<lparr>pending_ledger_terminal_recorded := b\<rparr>) obs = rewardable m obs"
  by (simp add: rewardable_def)

lemma fed_recorded [simp]:
  "bandit_stats (fed fp (m\<lparr>pending_ledger_terminal_recorded := b\<rparr>) obs) = bandit_stats (fed fp m obs)"
  using bandit_stats_update [of "m\<lparr>pending_ledger_terminal_recorded := b\<rparr>" m] by (simp add: fed_def)

lemma settle_tail:
  assumes q: "quiet w"
    and r: "(let (found, s) = ew_save w buf fault s; s = s\<lparr>queued_discovered := queued_discovered s + found\<rparr>
       in case cfs_reward fp g17 env w it sel obs s of Return r s \<Rightarrow> (r, s)
          | Continue s \<Rightarrow> (False, ew_stats w s)) = (abort, after)"
  shows "\<not> pending_update (afl_mab after) \<and> bandit_stats (afl_mab after) =
    bandit_stats (if rewardable (afl_mab s) obs then fed fp (afl_mab s) obs else afl_mab s)"
proof -
  obtain found s1 where s1: "ew_save w buf fault s = (found, s1)" by force
  define s2 where "s2 = s1\<lparr>queued_discovered := queued_discovered s1 + found\<rparr>"
  have m: "afl_mab s2 = afl_mab s"
  proof -
    have "afl_mab s1 = afl_mab s" using q s1 unfolding quiet_def by (metis snd_conv)
    then show ?thesis by (simp add: s2_def)
  qed
  have a: "(case cfs_reward fp g17 env w it sel obs s2 of Return r s \<Rightarrow> (r, s)
          | Continue s \<Rightarrow> (False, ew_stats w s)) = (abort, after)"
    using r s1 by (simp add: s2_def)
  have "afl_mab after = afl_mab (flow_state (cfs_reward fp g17 env w it sel obs s2))"
    using a q by (auto simp: flow_state_def quiet_def split: flow.splits)
  then show ?thesis using cfs_reward_mab [where fp = fp and ?g17.0 = g17 and env = env and w = w and it = it and sel = sel and obs = obs and afl = s2] m by auto
qed

lemma cfs_settle_mab:
  assumes "quiet w" and "cfs_settle fp g17 env w it sel buf fault obs afl = (abort, after)"
  shows "(\<not> pending_update (afl_mab after) \<or> abort \<and> nv_execution_ledger_audit_invalid after) \<and>
    (bandit_stats (afl_mab after) = bandit_stats (afl_mab afl) \<or>
     rewardable (afl_mab afl) obs \<and> bandit_stats (afl_mab after) = bandit_stats (fed fp (afl_mab afl) obs))"
proof (cases "cfs_terminal env w it sel obs afl")
  case (Return r s)
  then show ?thesis using assms(2) cfs_terminal_mab [where env = env and w = w and it = it and sel = sel and obs = obs and afl = afl] by (simp add: cfs_settle_def)
next
  case (Continue s)
  then have m: "bandit_stats (afl_mab s) = bandit_stats (afl_mab afl)"
    "rewardable (afl_mab s) obs = rewardable (afl_mab afl) obs"
    "bandit_stats (fed fp (afl_mab s) obs) = bandit_stats (fed fp (afl_mab afl) obs)"
    using cfs_terminal_mab [where env = env and w = w and it = it and sel = sel and obs = obs and afl = afl] by auto
  show ?thesis
  proof (cases "cfs_stop env w fault s")
    case (Return r u)
    then show ?thesis using assms(2) \<open>cfs_terminal env w it sel obs afl = Continue s\<close>
        cfs_stop_mab [where env = env and w = w and fault = fault and afl = s] m by (simp add: cfs_settle_def)
  next
    case (Continue u)
    then have "afl_mab u = afl_mab s" using cfs_stop_mab [where env = env and w = w and fault = fault and afl = s] by simp
    moreover have "(let (found, s) = ew_save w buf fault u;
         s = s\<lparr>queued_discovered := queued_discovered s + found\<rparr>
       in case cfs_reward fp g17 env w it sel obs s of Return r s \<Rightarrow> (r, s)
          | Continue s \<Rightarrow> (False, ew_stats w s)) = (abort, after)"
      using assms(2) Continue \<open>cfs_terminal env w it sel obs afl = Continue s\<close>
      by (simp add: cfs_settle_def)
    ultimately show ?thesis using settle_tail [OF assms(1)] m by auto
  qed
qed

section \<open>Concrete runs\<close>

definition start_run :: nv_run where
  "start_run = nv_seen.extend start_seen
     \<lparr>queue_cur_set = True, stage_name = None, nv_total_valid_exec = 0, nv_rec_total = 0,
      nv_rec_success = 0, nv_rec_time_sum_ms = 0, nv_err_exec = 0, nv_execution_iteration = 0,
      subseq_tmouts = 0, cur_skipped_items = 0, skip_requested = False, queued_discovered = 0\<rparr>"

definition calm_world :: "nv_run exec_world" where
  "calm_world = \<lparr>ew_write = (\<lambda>b. b), ew_peer = (\<lambda>_. undefined), ew_print = (\<lambda>_ _. []),
     ew_result = FSRV_RUN_OK, ew_signal = 0, ew_status_file = None, ew_run_look = snapshot,
     ew_looks = (\<lambda>_. snapshot), ew_reject_io = good_io, ew_terminal_io = good_io,
     ew_clear_io = (good_io, good_io), ew_commit_io = good_io, ew_final_io = good_io,
     ew_save = (\<lambda>_ _ s. (0, s)), ew_stats = (\<lambda>s. s)\<rparr>"

lemma calm_quiet: "quiet calm_world"
  by (simp add: quiet_def calm_world_def)

text \<open>One arm pending: arm 1, selected and used.\<close>

definition pending_run :: nv_run where
  "pending_run = start_run\<lparr>afl_mab := nv_mab_begin_pending 1 1 1 1 calloc_mab\<rparr>"

lemma pending_run_simps [simp]:
  "nv_last_exec_seq pending_run = 4" "nv_counts pending_run" "stop_soon pending_run = 0"
  "\<not> enable_validity (nv_task pending_run)" "max_test_cases (nv_task pending_run) = 0"
  "afl_mab pending_run = nv_mab_begin_pending 1 1 1 1 calloc_mab"
  "\<not> skip_requested pending_run" "nv_err_exec pending_run = 0"
  by (simp_all add: pending_run_def start_run_def nv_seen.extend_def start_seen_def nv_counts_def
      empty_task_def)

section \<open>Properties\<close>

text \<open>
  \<open>fuzz_run_target\<close> accounts for each run on its own: a run counts exactly if a queue entry
  is being fuzzed outside dry run and calibration; the counted run that reaches the budget
  requests the stop, and is the only one whose verdict is not classified; a counted failing run
  adds one error, an uncounted one none; recoveries are looked for only on failing runs.
\<close>

theorem run_accounting:
  fixes afl :: "'a nv_run_scheme"
  assumes "fuzz_run_target env parse w afl = (res, after)"
  defines "budget \<equiv> max_test_cases (nv_task afl)"
    and "status \<equiv> nv_read_status_json parse (ew_status_file w)"
  defines "failed \<equiv> ew_result w \<in> {FSRV_RUN_CRASH, FSRV_RUN_TMOUT, FSRV_RUN_ERROR} \<or>
      (ew_result w = FSRV_RUN_OK \<and> (\<exists>st. status = Some st \<and> (st_is_exception st \<or> 500 \<le> st_http_code st)))"
    and "hit \<equiv> nv_counts afl \<and> budget \<noteq> 0 \<and> budget \<le> nv_total_valid_exec afl + 1"
  shows "res = ew_result w \<and> afl_mab after = afl_mab afl \<and>
    nv_total_valid_exec after = nv_total_valid_exec afl + (if nv_counts afl then 1 else 0) \<and>
    stop_soon after = (if hit then 2 else if ew_signal w \<noteq> 0 then ew_signal w else stop_soon afl) \<and>
    nv_err_exec after = nv_err_exec afl + (if nv_counts afl \<and> failed \<and> \<not> hit then 1 else 0) \<and>
    nv_rec_total after - nv_rec_total afl \<in> {0, 1} \<and>
    (nv_rec_total after \<noteq> nv_rec_total afl \<longrightarrow> failed \<and> status \<noteq> None \<and> \<not> hit)"
proof -
  let ?t = "count_run w afl"
  have r: "(res, after) = (if hit then (ew_result w, ?t\<lparr>stop_soon := 2\<rparr>)
      else (ew_result w, if nv_counts afl \<and> fst (count_result env parse w (nv_counts afl) ?t)
         then (snd (count_result env parse w (nv_counts afl) ?t))\<lparr>nv_err_exec :=
                nv_err_exec (snd (count_result env parse w (nv_counts afl) ?t)) + 1\<rparr>
         else snd (count_result env parse w (nv_counts afl) ?t)))"
    using assms(1) unfolding hit_def budget_def fuzz_run_target_def Let_def split_beta count_run_frame
    by (cases "nv_counts afl") simp_all
  show ?thesis
  proof (cases hit)
    case True
    then have "res = ew_result w" "after = ?t\<lparr>stop_soon := 2\<rparr>" using r by simp_all
    then show ?thesis using True by (simp add: hit_def)
  next
    case False
    obtain e u where u: "count_result env parse w (nv_counts afl) ?t = (e, u)" by force
    have a: "res = ew_result w" "after = (if nv_counts afl \<and> e then u\<lparr>nv_err_exec := nv_err_exec u + 1\<rparr> else u)"
      using r False unfolding u by simp_all
    have f: "afl_mab u = afl_mab ?t" "stop_soon u = stop_soon ?t" "nv_err_exec u = nv_err_exec ?t"
      "nv_total_valid_exec u = nv_total_valid_exec ?t"
      using count_result_frame [of env parse w "nv_counts afl" ?t] unfolding u snd_conv by blast+
    have e: "e = failed" "nv_rec_total u = nv_rec_total afl \<or> nv_rec_total u = nv_rec_total afl + 1 \<and> failed \<and> status \<noteq> None"
      using count_result_verdict [OF u] unfolding failed_def status_def by simp_all
    show ?thesis using a f e False by (cases "nv_counts afl \<and> e") auto
  qed
qed

theorem run_accounting_witness:
  "nv_err_exec (snd (fuzz_run_target (\<lambda>_. None) (\<lambda>_. None)
     (calm_world\<lparr>ew_result := FSRV_RUN_CRASH\<rparr>) pending_run)) = 1"
  using run_accounting [OF prod.collapse [symmetric], of "\<lambda>_. None" "\<lambda>_. None"
      "calm_world\<lparr>ew_result := FSRV_RUN_CRASH\<rparr>" pending_run]
  by simp

lemma common_fuzz_stuff_mab:
  fixes afl :: "'a nv_run_scheme"
  assumes q: "quiet w" and r: "common_fuzz_stuff fp g17 env parse w buf afl = (abort, after)"
  shows "(\<not> pending_update (afl_mab after) \<or> abort \<and> nv_execution_ledger_audit_invalid after) \<and>
    (bandit_stats (afl_mab after) = bandit_stats (afl_mab afl) \<or>
     (\<exists>obs (s :: 'a nv_run_scheme). obs = fst (nv_observe_security_state_after_execution env parse (ew_looks w) s) \<and>
        rewardable (afl_mab afl) obs \<and>
        bandit_stats (afl_mab after) = bandit_stats (fed fp (afl_mab afl) obs)))"
proof -
  let ?a = "afl\<lparr>nv_execution_iteration := nv_execution_iteration afl + 1\<rparr>"
  let ?it = "nv_execution_iteration ?a" and ?sel = "cfs_selected_arm (afl_mab ?a)"
  have a: "afl_mab ?a = afl_mab afl" by simp
  note c = r [unfolded common_fuzz_stuff_def Let_def]
  show ?thesis
  proof (cases "ew_write w buf = []")
    case True
    then have "after = snd (nv_mab_journal_clear_pending env (ew_clear_io w) (Some ''invalid_input'') ?a)"
      using c by simp
    then show ?thesis using clear_pending_mab [of env "ew_clear_io w" "Some ''invalid_input''" ?a]
      unfolding a by blast
  next
    case False
    note f = cfs_filter_mab [where fp = fp and env = env and w = w and it = ?it and sel = ?sel and
        buf = "ew_write w buf" and afl = ?a]
    show ?thesis
    proof (cases "cfs_filter fp env w ?it ?sel (ew_write w buf) ?a")
      case (Return x s)
      then have "after = s" using c False by simp
      then show ?thesis using f Return unfolding a by simp
    next
      case (Continue s)
      obtain fault post where post: "fuzz_run_target env parse w s = (fault, post)" by force
      obtain obs seen where seen: "nv_observe_security_state_after_execution env parse (ew_looks w) post =
          (obs, seen)" by force
      have m: "afl_mab seen = afl_mab afl"
        using f Continue fuzz_run_target_mab [of env parse w s]
          observe_after_frame [of post env parse "ew_looks w"]
        unfolding post seen unobserved_def a by simp
      have "cfs_settle fp g17 env w ?it ?sel (ew_write w buf) fault obs seen = (abort, after)"
        using c False Continue post seen by simp
      note d = cfs_settle_mab [OF q this, unfolded m]
      have o: "obs = fst (nv_observe_security_state_after_execution env parse (ew_looks w) post)"
        by (simp add: seen)
      show ?thesis
        by (rule conjI [OF conjunct1 [OF d] disjE [OF conjunct2 [OF d]]], erule disjI1)
          (rule disjI2, rule exI [of _ obs], rule exI [of _ post], rule conjI [OF o])
    qed
  qed
qed

text \<open>
  C1 One execution feeds the bandit at most once, and only with its own evidence: the arms'
  statistics either stay, or receive the one reward of the observation made after this run, for
  the pending arm, when that arm is the selected one, the document carries an execution number
  and is no rejection. Afterwards nothing is pending, unless the ledger refused the terminal
  record, and then the execution bails out with its audit marked invalid.
\<close>

theorem bandit_fed_at_most_once:
  fixes afl :: "'a nv_run_scheme"
  assumes "quiet w" and "common_fuzz_stuff fp g17 env parse w buf afl = (abort, after)"
  shows "(\<not> pending_update (afl_mab after) \<or> abort \<and> nv_execution_ledger_audit_invalid after) \<and>
    (bandit_stats (afl_mab after) = bandit_stats (afl_mab afl) \<or>
     (\<exists>obs (s :: 'a nv_run_scheme). obs = fst (nv_observe_security_state_after_execution env parse (ew_looks w) s) \<and>
        rewardable (afl_mab afl) obs \<and>
        bandit_stats (afl_mab after) = bandit_stats (fed fp (afl_mab afl) obs)))"
  using common_fuzz_stuff_mab [OF assms] .

theorem bandit_fed_at_most_once_witness:
  "bandit_stats (afl_mab (snd (common_fuzz_stuff exact_fpu (\<lambda>_. ''0'') (\<lambda>_. None) (\<lambda>_. Some seq5)
      calm_world [65] start_run))) = bandit_stats (afl_mab start_run)"
proof -
  have "\<not> pending_update (afl_mab start_run)"
    by (simp add: start_run_def nv_seen.extend_def start_seen_def calloc_mab_def)
  then show ?thesis
    using bandit_fed_at_most_once [OF calm_quiet prod.collapse [symmetric], of exact_fpu "\<lambda>_. ''0''"
        "\<lambda>_. None" "\<lambda>_. Some seq5" "[65]" start_run]
    by (simp add: rewardable_def)
qed

text \<open>
  C3 The reward is not lost: when the input passes the filter and nothing stops the entry after
  the run, an observation that is rewardable reaches the pending arm, whatever the journal, the
  ledger and the scorer answer.
\<close>

theorem reward_delivered:
  fixes afl :: "'a nv_run_scheme"
  assumes "quiet w" and "common_fuzz_stuff fp g17 env parse w buf afl = (abort, after)"
    and "ew_write w buf \<noteq> []"
    and "a = afl\<lparr>nv_execution_iteration := nv_execution_iteration afl + 1\<rparr>"
    and "enable_validity (nv_task afl) \<Longrightarrow>
      nv_validity_check fp env (ew_peer w) (ew_print w) a (Some (ew_write w buf)) = NV_V_OK"
    and "start = (if enable_validity (nv_task afl) then nv_account_valid a else a)"
    and "fuzz_run_target env parse w start = (fault, post)"
    and "nv_observe_security_state_after_execution env parse (ew_looks w) post = (obs, seen)"
    and "stop_soon post = 0" and "\<not> (fault = FSRV_RUN_TMOUT \<and> subseq_tmouts seen > TMOUT_LIMIT)"
    and "\<not> skip_requested seen" and "rewardable (afl_mab afl) obs"
  shows "bandit_stats (afl_mab after) =
    bandit_stats (nv_mab_update fp (afl_mab afl) (pending_arm (afl_mab afl)) (nv_reward_from_obs fp obs))"
proof -
  let ?it = "nv_execution_iteration a" and ?sel = "cfs_selected_arm (afl_mab a)"
  let ?next = "if fault = FSRV_RUN_TMOUT then seen\<lparr>subseq_tmouts := subseq_tmouts seen + 1\<rparr>
    else seen\<lparr>subseq_tmouts := 0\<rparr>"
  have f: "cfs_filter fp env w ?it ?sel (ew_write w buf) a = Continue start"
    using assms(4-6) by (simp add: cfs_filter_def nv_v_is_reject_def)
  have m: "afl_mab seen = afl_mab afl" "stop_soon seen = 0"
  proof -
    have "afl_mab start = afl_mab afl" using assms(4,6) by simp
    then show "afl_mab seen = afl_mab afl" "stop_soon seen = 0"
      using fuzz_run_target_mab [of env parse w start] assms(9)
        observe_after_frame [of post env parse "ew_looks w"]
      unfolding assms(7,8) unobserved_def by simp_all
  qed
  have rw: "pending_update (afl_mab afl)" "?sel = pending_arm (afl_mab afl)"
    "\<not> obs_validation_reject obs" "obs_exec_seq obs \<noteq> 0"
    using assms(4,12) by (auto simp: rewardable_def cfs_selected_arm_def)
  have t: "cfs_terminal env w ?it ?sel obs seen = Continue seen"
    unfolding cfs_terminal_def Let_def using m rw
    by (simp add: cfs_outcome_def nv_mab_terminal_ledger_suppresses_cleanup_def)
  have s: "cfs_stop env w fault seen = Continue ?next"
    unfolding cfs_stop_def Let_def using m(2) assms(10,11) by simp
  have n: "afl_mab ?next = afl_mab afl" using m(1) by simp
  have c: "cfs_settle fp g17 env w ?it ?sel (ew_write w buf) fault obs seen = (abort, after)"
    using assms(2,3,7,8) f unfolding common_fuzz_stuff_def Let_def assms(4) [symmetric] by simp
  have "(let (found, s) = ew_save w (ew_write w buf) fault ?next;
         s = s\<lparr>queued_discovered := queued_discovered s + found\<rparr>
       in case cfs_reward fp g17 env w ?it ?sel obs s of Return r s \<Rightarrow> (r, s)
          | Continue s \<Rightarrow> (False, ew_stats w s)) = (abort, after)"
    using c unfolding cfs_settle_def t flow.case s .
  from settle_tail [OF assms(1) this] assms(12) n show ?thesis by (simp add: fed_def)
qed

theorem reward_delivered_witness:
  "total_pulls (afl_mab (snd (common_fuzz_stuff exact_fpu (\<lambda>_. ''0'') (\<lambda>_. None) (\<lambda>_. Some seq5)
      calm_world [65] pending_run))) = 1"
proof -
  let ?a = "pending_run\<lparr>nv_execution_iteration := nv_execution_iteration pending_run + 1\<rparr>"
  have run: "fuzz_run_target (\<lambda>_. None) (\<lambda>_. Some seq5) calm_world
      (if enable_validity (nv_task pending_run) then nv_account_valid ?a else ?a) =
      (FSRV_RUN_OK, count_run calm_world ?a)"
    by (simp add: fuzz_run_target_def count_result_def nv_read_status_json_def calm_world_def Let_def)
  have post: "nv_last_exec_seq (count_run calm_world ?a) = 4" "stop_soon (count_run calm_world ?a) = 0"
    by (simp_all add: count_run_def calm_world_def Let_def)
  obtain obs seen where seen: "nv_observe_security_state_after_execution (\<lambda>_. None) (\<lambda>_. Some seq5)
      (ew_looks calm_world) (count_run calm_world ?a) = (obs, seen)" by force
  have o: "obs_exec_seq obs = 5" "\<not> obs_validation_reject obs"
    using observe_after_seq5 [OF post(1)] seen by (simp_all add: calm_world_def)
  have "skip_requested seen = False"
    using observe_after_frame [of "count_run calm_world ?a" "\<lambda>_. None" "\<lambda>_. Some seq5" "ew_looks calm_world"]
    unfolding seen unobserved_def by (simp add: count_run_def calm_world_def Let_def)
  with o have "bandit_stats (afl_mab (snd (common_fuzz_stuff exact_fpu (\<lambda>_. ''0'') (\<lambda>_. None)
      (\<lambda>_. Some seq5) calm_world [65] pending_run))) =
      bandit_stats (nv_mab_update exact_fpu (afl_mab pending_run) (pending_arm (afl_mab pending_run))
        (nv_reward_from_obs exact_fpu obs))"
    by (intro reward_delivered [OF calm_quiet prod.collapse [symmetric] _ refl _ refl run seen])
      (simp_all add: post calm_world_def rewardable_def nv_mab_begin_pending_def)
  then show ?thesis
    by (simp add: bandit_stats_def nv_mab_update_def nv_mab_begin_pending_def calloc_mab_def)
qed

lemma nv_mab_pick_stats:
  "bandit_stats (snd (nv_mab_pick fp env mab scope)) = bandit_stats mab"
  by (simp add: nv_mab_pick_def nv_mab_init_defaults_def bandit_stats_def Let_def split_beta
      split: sum.split option.split)

lemma reported_arm_exact:
  assumes "reported_arm nv_used = arm" and "arm < NV_ARM_MAX"
  shows "0 \<le> arm" and "nv_used = Some (arm_digit arm)"
proof -
  obtain ch where ch: "nv_used = Some [ch]" "48 \<le> int (of_char ch)" "int (of_char ch) - 48 = arm"
    using assms by (auto simp: reported_arm_def Let_def split: option.splits list.splits if_splits)
  show "0 \<le> arm" using ch by simp
  have "(of_char ch :: nat) = 48 + nat arm" using ch by linarith
  then have "char_of (48 + nat arm) = ch" by (metis char_of_char)
  then show "nv_used = Some (arm_digit arm)" using ch(1) by (simp add: arm_digit_def)
qed

text \<open>
  C2 Only the arm that was really used is rewarded: over a whole custom-mutator step, from picking
  the arm to the end of the execution, the statistics change only when the mutator reported the
  picked arm, and then by one reward to that arm, from a document that carries an execution number.
\<close>

theorem only_used_arm_rewarded:
  fixes afl :: "'a nv_run_scheme"
  assumes q: "quiet w" and step: "custom_mutator_step fp g17 env parse w event_io mutate afl = (r, after)"
    and pick: "fst (nv_mab_pick fp env (afl_mab afl) (mutation_scope (nv_task afl))) = arm"
    and used: "snd (snd (mutate (arm_digit arm))) = nv_used"
  shows "bandit_stats (afl_mab after) = bandit_stats (afl_mab afl) \<or>
    nv_used = Some (arm_digit arm) \<and>
    (\<exists>obs. obs_exec_seq obs \<noteq> 0 \<and> \<not> obs_validation_reject obs \<and>
       bandit_stats (afl_mab after) =
         bandit_stats (nv_mab_update fp (afl_mab afl) arm (nv_reward_from_obs fp obs)))"
proof -
  obtain mab where p: "nv_mab_pick fp env (afl_mab afl) (mutation_scope (nv_task afl)) = (arm, mab)"
    using pick by (cases "nv_mab_pick fp env (afl_mab afl) (mutation_scope (nv_task afl))") auto
  have m: "bandit_stats mab = bandit_stats (afl_mab afl)"
    using nv_mab_pick_stats [of fp env "afl_mab afl" "mutation_scope (nv_task afl)"] p by simp
  obtain sz mbuf where u: "mutate (arm_digit arm) = (sz, mbuf, nv_used)"
    using used by (cases "mutate (arm_digit arm)") auto
  let ?a = "afl\<lparr>afl_mab := mab\<lparr>last_arm := arm\<rparr>\<rparr>"
  note s = step [unfolded custom_mutator_step_def p u prod.case Let_def]
  have run: ?thesis
    if s: "common_fuzz_stuff fp g17 env parse w buf (t\<lparr>afl_mab := nv_mab_begin_pending arm actual it src (afl_mab t)\<rparr>) =
        (abort, after)" and t: "bandit_stats (afl_mab t) = bandit_stats (afl_mab afl)"
      and act: "actual = arm \<Longrightarrow> actual < NV_ARM_MAX \<Longrightarrow> nv_used = Some (arm_digit arm)"
    for buf t actual it src abort
  proof -
    let ?t = "t\<lparr>afl_mab := nv_mab_begin_pending arm actual it src (afl_mab t)\<rparr>"
    have pend: "pending_arm (afl_mab ?t) = actual" "pending_selected_arm (afl_mab ?t) = arm"
      "pending_selected_valid (afl_mab ?t)" "bandit_stats (afl_mab ?t) = bandit_stats (afl_mab afl)"
      using t by (simp_all add: nv_mab_begin_pending_def bandit_stats_def)
    from conjunct2 [OF common_fuzz_stuff_mab [OF q s]] show ?thesis
    proof (elim disjE exE conjE)
      assume "bandit_stats (afl_mab after) = bandit_stats (afl_mab ?t)"
      then show ?thesis using pend by simp
    next
      fix obs and s :: "'a nv_run_scheme"
      assume rw: "rewardable (afl_mab ?t) obs" and f: "bandit_stats (afl_mab after) = bandit_stats (fed fp (afl_mab ?t) obs)"
      have c: "actual = arm" "actual < NV_ARM_MAX" "obs_exec_seq obs \<noteq> 0" "\<not> obs_validation_reject obs"
        using rw pend by (simp_all add: rewardable_def)
      have "bandit_stats (afl_mab after) =
          bandit_stats (nv_mab_update fp (afl_mab afl) arm (nv_reward_from_obs fp obs))"
        using f bandit_stats_update [OF pend(4)] pend(1) c(1) by (simp add: fed_def)
      then show ?thesis using act c by blast
    qed
  qed
  show ?thesis
  proof (cases "sz = 0 \<or> mbuf = None")
    case True
    then have "after = ?a" using s by (cases "sz = 0") auto
    then show ?thesis using m by simp
  next
    case False
    then obtain buf where b: "sz \<noteq> 0" "mbuf = Some buf" by auto
    show ?thesis
    proof (cases "nv_used = Some (arm_digit arm)")
      case True
      obtain abort u where c: "common_fuzz_stuff fp g17 env parse w (take sz buf)
          (?a\<lparr>afl_mab := nv_mab_begin_pending arm arm (nv_execution_iteration ?a + 1) 1 (afl_mab ?a)\<rparr>) = (abort, u)"
        by force
      have "after = u" using s b True c by simp
      then show ?thesis using run [OF c [folded \<open>after = u\<close>]] m True by simp
    next
      case False
      obtain ok t where e: "nv_mab_journal_append_event env event_io (Some ''mab_update_mismatch'')
          (Some '''') arm (reported_arm nv_used) ?a = (ok, t)" by force
      have t: "bandit_stats (afl_mab t) = bandit_stats (afl_mab afl)"
        using append_event_frame(1) [of env event_io "Some ''mab_update_mismatch''" "Some ''''" arm
            "reported_arm nv_used" ?a] m unfolding e by simp
      obtain abort u where c: "common_fuzz_stuff fp g17 env parse w (take sz buf)
          (t\<lparr>afl_mab := nv_mab_begin_pending arm (reported_arm nv_used) (nv_execution_iteration t + 1) 0
             (afl_mab t)\<rparr>) = (abort, u)" by force
      have "after = (if ok then u else t)" using s b False unfolding e by (simp add: c split: if_splits)
      moreover have ?thesis if "after = u"
        using run [OF c [folded that] t] reported_arm_exact(2) [of nv_used arm] by blast
      ultimately show ?thesis using t by (cases ok) auto
    qed
  qed
qed

theorem only_used_arm_rewarded_witness:
  "bandit_stats (afl_mab (snd (custom_mutator_step exact_fpu (\<lambda>_. ''0'') (\<lambda>_. None) (\<lambda>_. Some seq5)
     calm_world good_io (\<lambda>_. (1, Some [65], None)) start_run))) = bandit_stats (afl_mab start_run)"
  using only_used_arm_rewarded [OF calm_quiet prod.collapse [symmetric] refl refl,
      of exact_fpu "\<lambda>_. ''0''" "\<lambda>_. None" "\<lambda>_. Some seq5" good_io "\<lambda>_. (1, Some [65], None)" start_run]
  by simp

end
