(* ===== verification/Rand.thy ===== *)
theory Rand
  imports Prelude "HOL-Library.Log_Nat"
begin

text \<open>
  The random numbers of the fuzzer: the generators of \<open>src/src/afl-performance.c\<close> and the inline
  functions \<open>rand_below\<close>, \<open>rand_below_datalen\<close> and \<open>next_p2\<close> of \<open>src/include/afl-fuzz.h\<close>. The hash
  \<open>XXH3_64bits\<close> is vendored code and a parameter; so is what \<open>/dev/urandom\<close> delivers.
\<close>

section \<open>State\<close>

record rand_st =
  rand_seed0 :: u64
  rand_seed1 :: u64
  rand_seed2 :: u64
  rand_cnt :: u32
  fixed_seed :: bool
  init_seed :: u64
  urandom_reads :: nat

text \<open>\<open>urandom n\<close> is the \<open>n\<close>-th read of \<open>/dev/urandom\<close>: three fresh seed words.\<close>

type_synonym urandom = "nat \<Rightarrow> u64 \<times> u64 \<times> u64"

abbreviation (input) RESEED_RNG :: u64 where "RESEED_RNG \<equiv> 2500000"

definition rand_set_seed :: "(u64 \<Rightarrow> u64) \<Rightarrow> u64 \<Rightarrow> rand_st \<Rightarrow> rand_st" where
  "rand_set_seed hash64_of seed st =
     (let s0 = hash64_of seed;
          s1 = s0 XOR 0x1234567890abcdef;
          s2 = (s0 AND 0x1234567890abcdef) XOR (s1 OR 0xfedcba9876543210)
      in st\<lparr>init_seed := seed, rand_seed0 := s0, rand_seed1 := s1, rand_seed2 := s2\<rparr>)"

definition ROTL :: "'a::len word \<Rightarrow> nat \<Rightarrow> 'a word" where
  "ROTL d lrot = push_bit lrot d OR drop_bit (LENGTH('a) - lrot) d"

text \<open>romuDuoJr, the generator of the 64-bit build.\<close>

definition rand_next :: "rand_st \<Rightarrow> u64 \<times> rand_st" where
  "rand_next st =
     (let xp = rand_seed0 st; s1 = rand_seed1 st in
      (xp, st\<lparr>rand_seed0 := 15241094284759029579 * s1,
              rand_seed1 := ROTL (s1 - xp) 27\<rparr>))"

text \<open>RomuTrio32, the generator of the 32-bit build; the seed words are 32 bits wide there.\<close>

definition rand_next32 :: "u32 \<times> u32 \<times> u32 \<Rightarrow> u32 \<times> u32 \<times> u32 \<times> u32" where
  "rand_next32 s = (case s of (xp, yp, zp) \<Rightarrow>
     (xp, 3323815723 * zp, ROTL (yp - xp) 6, ROTL (zp - yp) 22))"

definition rand_next_percent :: "fpu \<Rightarrow> rand_st \<Rightarrow> real \<times> rand_st" where
  "rand_next_percent fp st =
     (let (x, st) = rand_next st in (ddiv fp (d_of_u64 fp x) (d_of_u64 fp 0xffffffffffffffff), st))"

section \<open>A number below a limit\<close>

text \<open>The largest multiple of the limit that fits: draws at or above it are repeated.\<close>

definition rand_bound :: "u32 \<Rightarrow> u64" where
  "rand_bound limit = - 1 - (- 1) mod ucast limit"

partial_function (option) rand_retry :: "u64 \<Rightarrow> rand_st \<Rightarrow> (u64 \<times> rand_st) option" where
  "rand_retry bound st =
     (let (x, st) = rand_next st
      in if x \<ge> bound then rand_retry bound st else Some (x, st))"

definition rand_reseed :: "urandom \<Rightarrow> rand_st \<Rightarrow> rand_st" where
  "rand_reseed urandom st =
     (let due = (rand_cnt st = 0); st = st\<lparr>rand_cnt := rand_cnt st - 1\<rparr>
      in if due \<and> \<not> fixed_seed st
         then (case urandom (urandom_reads st) of (a, b, c) \<Rightarrow>
                 st\<lparr>urandom_reads := urandom_reads st + 1,
                    rand_seed0 := a, rand_seed1 := b, rand_seed2 := c,
                    rand_cnt := ucast (RESEED_RNG div 2 + b mod RESEED_RNG)\<rparr>)
         else st)"

definition rand_below :: "urandom \<Rightarrow> u32 \<Rightarrow> rand_st \<Rightarrow> (u32 \<times> rand_st) option" where
  "rand_below urandom limit st =
     (if limit \<le> 1 then Some (0, st)
      else map_option (\<lambda>(x, st). (ucast (x mod ucast limit), st))
             (rand_retry (rand_bound limit) (rand_reseed urandom st)))"

text \<open>C leaves the order of the calls in one expression open; here it is from left to right.\<close>

definition rand_below_datalen :: "urandom \<Rightarrow> u32 \<Rightarrow> rand_st \<Rightarrow> (u32 \<times> rand_st) option" where
  "rand_below_datalen urandom limit st =
     (if limit \<le> 1 then Some (0, st)
      else Option.bind (rand_below urandom 3 st) (\<lambda>(k, st).
        Option.bind (rand_below urandom limit st) (\<lambda>(a, st).
          if k = 0 then Some (a, st)
          else Option.bind (rand_below urandom (limit - 1) st) (\<lambda>(b, st).
            if k = 1 then Some (a mod (1 + b), st)
            else Option.bind (rand_below urandom (limit - 1) st) (\<lambda>(c, st).
              Some ((a mod (1 + b)) mod (1 + c), st))))))"

section \<open>The next power of two\<close>

partial_function (option) next_p2_from :: "u64 \<Rightarrow> u64 \<Rightarrow> u64 option" where
  "next_p2_from v ret = (if v > ret then next_p2_from v (push_bit 1 ret) else Some ret)"

definition next_p2 :: "u64 \<Rightarrow> u64 option" where
  "next_p2 v = next_p2_from v 1"

section \<open>The limit is respected and every value is equally likely\<close>

lemma rand_retry_bound:
  assumes "rand_retry bound st = Some r"
  shows "fst r < bound"
proof (rule rand_retry.raw_induct [where P = "\<lambda>bound st r. fst r < bound", OF _ assms])
  fix retry :: "u64 \<Rightarrow> rand_st \<Rightarrow> (u64 \<times> rand_st) option" and bound st r
  assume IH: "\<And>bound st r. retry bound st = Some r \<Longrightarrow> fst r < bound"
    and eq: "(let (x, st) = rand_next st in if bound \<le> x then retry bound st else Some (x, st)) = Some r"
  obtain y s where n: "rand_next st = (y, s)" by force
  show "fst r < bound"
  proof (cases "y \<ge> bound")
    case True
    then have "retry bound s = Some r" using eq n by simp
    then show ?thesis by (rule IH)
  next
    case False
    then show ?thesis using eq n by auto
  qed
qed

lemma rand_retry_first:
  assumes "fst (rand_next st) < bound"
  shows "rand_retry bound st = Some (rand_next st)"
proof -
  have "\<not> bound \<le> fst (rand_next st)" using assms by simp
  then show ?thesis by (subst rand_retry.simps) (simp add: split_beta)
qed

lemma unat_ucast_u32: "unat (ucast (l :: u32) :: u64) = unat l"
proof -
  have "unat l < 2 ^ 64" using unsigned_less [of l, where 'a = nat] by simp
  then show ?thesis by (simp add: unsigned_ucast_eq take_bit_nat_eq_self)
qed

lemma unat_ucast_down: "unat (ucast (x :: u64) :: u32) = unat x mod 2 ^ 32"
  by (simp add: unsigned_ucast_eq take_bit_eq_mod)

lemma unat_max_u64: "unat (- 1 :: u64) = 2 ^ 64 - 1"
  by (simp add: unsigned_minus_1_eq_mask mask_eq_exp_minus_1)

lemma rand_bound_nat:
  "unat (rand_bound limit) = (2 ^ 64 - 1) div unat limit * unat limit"
proof -
  have le: "(- 1) mod ucast limit \<le> (- 1 :: u64)" by simp
  have "unat (rand_bound limit) = unat (- 1 :: u64) - unat ((- 1 :: u64) mod ucast limit)"
    unfolding rand_bound_def by (rule unat_sub [OF le])
  also have "\<dots> = (2 ^ 64 - 1) - (2 ^ 64 - 1) mod unat limit"
    by (simp only: unat_mod unat_max_u64 unat_ucast_u32)
  finally show ?thesis by (simp add: minus_mod_eq_div_mult)
qed

lemma residue_class_card:
  fixes L q r :: nat
  assumes "r < L"
  shows "card {x. x < q * L \<and> x mod L = r} = q"
proof -
  have "{x. x < q * L \<and> x mod L = r} = (\<lambda>k. k * L + r) ` {..<q}" (is "?A = ?B")
  proof
    show "?A \<subseteq> ?B"
    proof
      fix x assume "x \<in> ?A"
      then have "x = x div L * L + r" "x div L < q"
        using assms div_mult_mod_eq [of x L] by (auto simp: less_mult_imp_div_less)
      then show "x \<in> ?B" by blast
    qed
    show "?B \<subseteq> ?A"
    proof
      fix x assume "x \<in> ?B"
      then obtain k where k: "k < q" "x = k * L + r" by auto
      have "k * L + L \<le> q * L" using k(1) by (metis Suc_leI mult_Suc mult_le_mono1 add.commute)
      then show "x \<in> ?A" using k assms by simp
    qed
  qed
  moreover have "inj_on (\<lambda>k. k * L + r) {..<q}" using assms by (auto simp: inj_on_def)
  ultimately show ?thesis by (simp add: card_image)
qed

lemma word_set_card:
  fixes P :: "nat \<Rightarrow> bool"
  assumes "\<And>n. P n \<Longrightarrow> n < 2 ^ LENGTH('a::len)"
  shows "card {x :: 'a word. P (unat x)} = card {n. P n}"
proof -
  have "unat ` {x :: 'a word. P (unat x)} = {n. P n}"
  proof
    show "{n. P n} \<subseteq> unat ` {x :: 'a word. P (unat x)}"
    proof
      fix n assume "n \<in> {n. P n}"
      moreover from this have "unat (of_nat n :: 'a word) = n"
        using assms [of n] by (simp add: unsigned_of_nat take_bit_nat_eq_self)
      ultimately show "n \<in> unat ` {x :: 'a word. P (unat x)}" by (metis imageI mem_Collect_eq)
    qed
  qed auto
  moreover have "inj_on unat {x :: 'a word. P (unat x)}"
    by (rule inj_onI) (simp add: word_unat_eq_iff)
  ultimately show ?thesis by (metis card_image)
qed

lemma rand_below_less:
  assumes "1 < limit" and "rand_below urandom limit st = Some (v, st')"
  shows "v < limit"
proof -
  have L: "0 < unat limit" using assms(1) by (simp add: word_less_nat_alt)
  have nle: "\<not> limit \<le> 1" using assms(1) by simp
  from assms(2) nle obtain x where "v = ucast (x mod ucast limit :: u64)"
    by (auto simp: rand_below_def)
  moreover have "unat (x mod ucast limit :: u64) < unat limit"
    using L by (simp only: unat_mod unat_ucast_u32 mod_less_divisor)
  moreover have "unat (ucast (x mod ucast limit :: u64) :: u32) \<le> unat (x mod ucast limit :: u64)"
    unfolding unat_ucast_down by (rule mod_less_eq_dividend)
  ultimately have "unat v < unat limit" by (metis le_less_trans)
  then show ?thesis by (simp only: word_less_nat_alt)
qed



section \<open>The next power of two is reached\<close>

lemma next_p2_from_result:
  assumes "next_p2_from v ret = Some y"
  shows "v \<le> y \<and> (\<exists>k. y = push_bit k ret)"
proof (rule next_p2_from.raw_induct [where P = "\<lambda>v ret y. v \<le> y \<and> (\<exists>k. y = push_bit k ret)", OF _ assms])
  fix f :: "u64 \<Rightarrow> u64 \<Rightarrow> u64 option" and v ret y
  assume IH: "\<And>v ret y. f v ret = Some y \<Longrightarrow> v \<le> y \<and> (\<exists>k. y = push_bit k ret)"
    and eq: "(if ret < v then f v (push_bit 1 ret) else Some ret) = Some y"
  show "v \<le> y \<and> (\<exists>k. y = push_bit k ret)"
  proof (cases "v > ret")
    case True
    then have "f v (push_bit 1 ret) = Some y" using eq by simp
    from IH [OF this] obtain k where "v \<le> y" "y = push_bit k (push_bit 1 ret)" by blast
    then have "v \<le> y" "y = push_bit (k + 1) ret" by (simp_all only: push_bit_push_bit)
    then show ?thesis by blast
  next
    case False
    then have "y = push_bit 0 ret" "v \<le> y" using eq by auto
    then show ?thesis by blast
  qed
qed

text \<open>From a power of two below the value the loop reaches the least one that is not.\<close>

lemma push_bit_pow2:
  "k < 64 \<Longrightarrow> unat (push_bit k (1 :: u64)) = 2 ^ k"
  by (simp add: push_bit_eq_mult unat_pow2)

lemma next_p2_from_least:
  assumes "k \<le> m" and "m < 64" and "unat v \<le> 2 ^ m" and "\<And>j. j < m \<Longrightarrow> 2 ^ j < unat v"
  shows "next_p2_from v (push_bit k 1) = Some (push_bit m 1)"
  using assms(1)
proof (induction "m - k" arbitrary: k)
  case 0
  then have "k = m" by simp
  moreover have "\<not> v > push_bit m (1 :: u64)"
    using assms(2,3) push_bit_pow2 [of m] by (simp add: word_less_nat_alt)
  ultimately show ?case by (subst next_p2_from.simps) simp
next
  case (Suc d)
  then have k: "k < m" by simp
  have "v > push_bit k (1 :: u64)"
    using assms(2,4) k push_bit_pow2 [of k] by (simp add: word_less_nat_alt)
  moreover have "push_bit 1 (push_bit k (1 :: u64)) = push_bit (Suc k) 1"
    by (simp only: push_bit_push_bit plus_1_eq_Suc)
  ultimately have "next_p2_from v (push_bit k 1) = next_p2_from v (push_bit (Suc k) 1)"
    using next_p2_from.simps [of v "push_bit k 1"] by (simp only: if_True)
  then show ?case using Suc.hyps(1) [of "Suc k"] Suc.hyps(2) k by simp
qed

text \<open>
  \<open>next_p2\<close> returns the least power of two that is not below its argument, and does return, for
  every argument up to \<open>2^63\<close>; above it the loop never ends, as the comment warns.
\<close>

theorem next_p2_exact:
  "if unat v \<le> 2 ^ 63
   then \<exists>m < 64. next_p2 v = Some (push_bit m 1) \<and> unat v \<le> 2 ^ m \<and> (\<forall>j. unat v \<le> 2 ^ j \<longrightarrow> m \<le> j)
   else next_p2 v = None"
proof (cases "unat v \<le> 2 ^ 63")
  case True
  define m where "m = (LEAST j. unat v \<le> 2 ^ j)"
  have m: "unat v \<le> 2 ^ m" "\<And>j. unat v \<le> 2 ^ j \<Longrightarrow> m \<le> j"
    using LeastI [of "\<lambda>j. unat v \<le> 2 ^ j", OF True] Least_le [of "\<lambda>j. unat v \<le> 2 ^ j"]
    unfolding m_def by blast+
  have "m < 64" using m(2) [OF True] by simp
  moreover have "next_p2 v = Some (push_bit m 1)"
    unfolding next_p2_def using next_p2_from_least [of 0 m v] m calculation by (force simp: not_le [symmetric])
  ultimately show ?thesis using m True by auto
next
  case False
  have "next_p2 v \<noteq> Some y" for y
  proof
    assume "next_p2 v = Some y"
    then obtain k where y: "v \<le> y" "y = push_bit k 1" unfolding next_p2_def using next_p2_from_result by blast
    have "unat y \<le> 2 ^ 63"
    proof (cases "k < 64")
      case True
      then have "(2::nat) ^ k \<le> 2 ^ 63" by (intro power_increasing) simp_all
      then show ?thesis using push_bit_pow2 [OF True] y(2) by simp
    next
      case False
      then have "y = 0" using y(2) by (simp add: push_bit_eq_mult exp_eq_zero_iff)
      then show ?thesis by simp
    qed
    then show False using y(1) False by (simp add: word_le_nat_alt)
  qed
  then show ?thesis using False by auto
qed

end
