(* ===== verification/Coverage.thy ===== *)
theory Coverage
  imports Prelude
begin

text \<open>
  Coverage maps: the word-at-a-time routines of \<open>src/include/coverage-64.h\<close> and
  \<open>coverage-32.h\<close> and their users in \<open>src/src/afl-fuzz-bitmap.c\<close>. A map is the list of its
  bytes; the code reads it through \<open>u64 *\<close> or \<open>u32 *\<close> pointers, so a cell is a word made of
  the bytes it covers.
\<close>

section \<open>Words and their bytes\<close>

definition byte_at :: "nat \<Rightarrow> 'a::len word \<Rightarrow> u8" where
  "byte_at k w = ucast (drop_bit (8 * k) w)"

fun of_bytes :: "u8 list \<Rightarrow> 'a::len word" where
  "of_bytes [] = 0"
| "of_bytes (b # bs) = ucast b OR push_bit 8 (of_bytes bs)"

definition to_bytes :: "nat \<Rightarrow> 'a::len word \<Rightarrow> u8 list" where
  "to_bytes n w = map (\<lambda>k. byte_at k w) [0..<n]"

lemma length_to_bytes [simp]: "length (to_bytes n w) = n"
  by (simp add: to_bytes_def)

lemma nth_to_bytes [simp]: "k < n \<Longrightarrow> to_bytes n w ! k = byte_at k w"
  by (simp add: to_bytes_def)

lemma bit_byte_at: "bit (byte_at k (w :: 'a::len word)) j \<longleftrightarrow> j < 8 \<and> bit w (8 * k + j)"
  by (auto simp: byte_at_def bit_simps)

lemma bit_of_bytes:
  "bit (of_bytes bs :: 'a::len word) n \<longleftrightarrow>
     n < LENGTH('a) \<and> n div 8 < length bs \<and> bit (bs ! (n div 8)) (n mod 8)"
proof (induction bs arbitrary: n)
  case (Cons b bs)
  show ?case
  proof (cases "n < 8")
    case True
    then show ?thesis by (auto simp: bit_simps)
  next
    case False
    then have n: "n div 8 = Suc ((n - 8) div 8)" "n mod 8 = (n - 8) mod 8"
      by (simp_all add: le_div_geq le_mod_geq)
    have "\<not> bit b n" using False bit_imp_le_length [of b n] by auto
    then show ?thesis using False unfolding n of_bytes.simps
      by (auto simp: bit_simps Cons)
  qed
qed simp

lemma byte_of_bytes:
  assumes "k < length bs" and "8 * length bs \<le> LENGTH('a)"
  shows "byte_at k (of_bytes bs :: 'a::len word) = bs ! k"
proof (rule bit_word_eqI)
  fix j assume "j < LENGTH(8)"
  then have "j < 8" by simp
  then have "(8 * k + j) div 8 = k" "(8 * k + j) mod 8 = j" by auto
  moreover have "8 * k + j < LENGTH('a)" using assms \<open>j < 8\<close> by linarith
  ultimately show "bit (byte_at k (of_bytes bs :: 'a word)) j \<longleftrightarrow> bit (bs ! k) j"
    using assms \<open>j < 8\<close> by (simp add: bit_byte_at bit_of_bytes)
qed

lemma to_bytes_of_bytes:
  assumes "length bs = n" and "8 * n \<le> LENGTH('a)"
  shows "to_bytes n (of_bytes bs :: 'a::len word) = bs"
  using assms by (intro nth_equalityI) (simp_all add: byte_of_bytes)

lemma of_bytes_to_bytes:
  assumes "8 * n = LENGTH('a)"
  shows "(of_bytes (to_bytes n w) :: 'a::len word) = w"
proof (rule bit_word_eqI)
  fix j assume j: "j < LENGTH('a)"
  then have "j div 8 < n" using assms by linarith
  moreover have "8 * (j div 8) + j mod 8 = j" by simp
  ultimately show "bit (of_bytes (to_bytes n w) :: 'a word) j \<longleftrightarrow> bit w j"
    using j by (simp add: bit_of_bytes bit_byte_at)
qed

lemma word_eq_bytesI:
  assumes "8 * n = LENGTH('a)" and "\<And>k. k < n \<Longrightarrow> byte_at k (v :: 'a::len word) = byte_at k w"
  shows "v = w"
proof -
  have "to_bytes n v = to_bytes n w" using assms(2) by (intro nth_equalityI) simp_all
  then show ?thesis by (metis of_bytes_to_bytes [OF assms(1)])
qed

lemma byte_at_ops [simp]:
  "byte_at k (v AND w) = byte_at k v AND byte_at k w"
  "byte_at k 0 = 0"
  by (auto simp: bit_byte_at bit_simps intro!: bit_word_eqI)

lemma byte_at_not:
  assumes "8 * k + 8 \<le> LENGTH('a)"
  shows "byte_at k (NOT (w :: 'a::len word)) = NOT (byte_at k w)"
  using assms by (auto simp: bit_byte_at bit_simps intro!: bit_word_eqI)

lemma word_zero_bytes:
  assumes "8 * n = LENGTH('a)"
  shows "(w :: 'a::len word) = 0 \<longleftrightarrow> (\<forall>k < n. byte_at k w = 0)"
  using word_eq_bytesI [OF assms, of w 0] by auto

section \<open>Classes of hit counts\<close>

definition simplify_lookup :: "u8 \<Rightarrow> u8" where
  "simplify_lookup b = (if b = 0 then 1 else 128)"

definition count_class_lookup8 :: "u8 \<Rightarrow> u8" where
  "count_class_lookup8 b =
     (if b = 0 then 0 else if b = 1 then 1 else if b = 2 then 2 else if b = 3 then 4
      else if b \<le> 7 then 8 else if b \<le> 15 then 16 else if b \<le> 31 then 32
      else if b \<le> 127 then 64 else 128)"

text \<open>The table is an array indexed by \<open>u16\<close>; the two loops overwrite every entry.\<close>

definition class_index :: "nat \<Rightarrow> nat \<Rightarrow> u16" where
  "class_index b1 b2 = of_nat (b1 * 2 ^ 8 + b2)"

definition init_class_row :: "nat \<Rightarrow> (u16 \<Rightarrow> u16) \<Rightarrow> u16 \<Rightarrow> u16" where
  "init_class_row b1 = fold (\<lambda>b2 t. t(class_index b1 b2 :=
     push_bit 8 (ucast (count_class_lookup8 (of_nat b1))) OR
     ucast (count_class_lookup8 (of_nat b2)))) [0..<256]"

definition init_count_class16 :: "(u16 \<Rightarrow> u16) \<Rightarrow> u16 \<Rightarrow> u16" where
  "init_count_class16 table = fold init_class_row [0..<256] table"

definition count_class16 :: "u16 \<Rightarrow> u16" where
  "count_class16 x =
     push_bit 8 (ucast (count_class_lookup8 (ucast (drop_bit 8 x)))) OR
     ucast (count_class_lookup8 (ucast x))"

lemma fold_update_all:
  assumes "\<And>k. k \<in> set ks \<Longrightarrow> val k = g (key k)"
  shows "fold (\<lambda>k t. t(key k := val k)) ks t x = (if x \<in> key ` set ks then g x else t x)"
  using assms by (induction ks arbitrary: t) auto

lemma class_index_parts:
  assumes "b1 < 256" and "b2 < 256"
  shows "(ucast (drop_bit 8 (class_index b1 b2)) :: u8) = of_nat b1"
    and "(ucast (class_index b1 b2) :: u8) = of_nat b2"
proof -
  have u: "unat (class_index b1 b2) = b1 * 256 + b2"
    unfolding class_index_def using assms
    by (simp add: unsigned_of_nat take_bit_eq_mod del: of_nat_add of_nat_mult)
  show "(ucast (drop_bit 8 (class_index b1 b2)) :: u8) = of_nat b1"
    using assms u by (simp add: word_unat_eq_iff unsigned_of_nat unat_drop_bit_eq unsigned_ucast_eq
        take_bit_eq_mod drop_bit_eq_div unat_div)
  show "(ucast (class_index b1 b2) :: u8) = of_nat b2"
    using assms u by (simp add: word_unat_eq_iff unsigned_of_nat unsigned_ucast_eq take_bit_eq_mod)
qed

lemma class_index_surj: "\<exists>b1 < 256. \<exists>b2 < 256. x = class_index b1 b2"
proof -
  have "unat x < 256 * 256" using unsigned_less [of x] by simp
  then have "unat x div 256 < 256" "unat x mod 256 < 256" by auto
  moreover have "x = class_index (unat x div 256) (unat x mod 256)"
    by (simp add: class_index_def del: of_nat_add of_nat_mult)
  ultimately show ?thesis by blast
qed

lemma init_class_row_eq:
  assumes "b1 < 256"
  shows "init_class_row b1 t x =
    (if x \<in> class_index b1 ` {..<256} then count_class16 x else t x)"
proof -
  have "init_class_row b1 t x =
      (if x \<in> class_index b1 ` set [0..<256] then count_class16 x else t x)"
    unfolding init_class_row_def
    by (rule fold_update_all) (use assms in \<open>simp add: count_class16_def class_index_parts\<close>)
  then show ?thesis by (simp add: atLeast0LessThan)
qed

lemma init_rows_eq:
  assumes "set bs \<subseteq> {..<256}"
  shows "fold init_class_row bs t x =
    (if \<exists>b1 \<in> set bs. x \<in> class_index b1 ` {..<256} then count_class16 x else t x)"
  using assms by (induction bs arbitrary: t) (simp_all add: init_class_row_eq)

lemma init_count_class16_eq: "init_count_class16 table = count_class16"
proof
  fix x :: u16
  have "\<exists>b1 \<in> set [0..<256]. x \<in> class_index b1 ` {..<256}"
    using class_index_surj [of x] by fastforce
  moreover have "set [0..<256] \<subseteq> {..<256::nat}" by auto
  ultimately show "init_count_class16 table x = count_class16 x"
    unfolding init_count_class16_def by (simp only: init_rows_eq if_True)
qed

section \<open>Cells: the map through a word pointer\<close>

text \<open>
  \<open>while (i--) { ... mem++ }\<close> over \<open>i\<close> cells of \<open>w\<close> bytes, and the part of the map behind them.
\<close>

fun map_cells :: "nat \<Rightarrow> (u8 list \<Rightarrow> u8 list) \<Rightarrow> nat \<Rightarrow> bytes \<Rightarrow> bytes" where
  "map_cells w f 0 m = m"
| "map_cells w f (Suc i) m = f (take w m) @ map_cells w f i (drop w m)"

lemma map_cells_bytewise:
  assumes "\<And>bs. length bs = w \<Longrightarrow> f bs = map g bs" and "w * i \<le> length m"
  shows "map_cells w f i m = map g (take (w * i) m) @ drop (w * i) m"
  using assms(2)
proof (induction i arbitrary: m)
  case (Suc i)
  then have "length (take w m) = w" "w * i \<le> length (drop w m)" by auto
  then have "map_cells w f (Suc i) m =
      map g (take w m) @ map g (take (w * i) (drop w m)) @ drop (w * i) (drop w m)"
    using Suc.IH assms(1) by simp
  also have "\<dots> = map g (take (w + w * i) m) @ drop (w + w * i) m"
    by (simp add: take_add add.commute)
  finally show ?case by simp
qed simp

section \<open>Word routines, 64-bit flavour\<close>

definition mem16_64 :: "u64 \<Rightarrow> u16 list" where
  "mem16_64 word = map (\<lambda>k. ucast (drop_bit (16 * k) word)) [0..<4]"

fun of_mem16 :: "u16 list \<Rightarrow> 'a::len word" where
  "of_mem16 [] = 0"
| "of_mem16 (h # hs) = ucast h OR push_bit 16 (of_mem16 hs)"

definition classify_word64 :: "u64 \<Rightarrow> u64" where
  "classify_word64 word = of_mem16 (map count_class16 (mem16_64 word))"

definition simplify_cell64 :: "bytes \<Rightarrow> bytes" where
  "simplify_cell64 mem =
     (if (of_bytes mem :: u64) \<noteq> 0 then map simplify_lookup mem
      else to_bytes 8 (0x0101010101010101 :: u64))"

definition simplify_trace64 :: "u32 \<Rightarrow> bytes \<Rightarrow> bytes" where
  "simplify_trace64 map_size mem = map_cells 8 simplify_cell64 (unat (drop_bit 3 map_size)) mem"

definition classify_cell64 :: "bytes \<Rightarrow> bytes" where
  "classify_cell64 mem =
     (let v = (of_bytes mem :: u64) in if v \<noteq> 0 then to_bytes 8 (classify_word64 v) else mem)"

definition classify_counts64 :: "u32 \<Rightarrow> bytes \<Rightarrow> bytes" where
  "classify_counts64 map_size trace = map_cells 8 classify_cell64 (unat (drop_bit 3 map_size)) trace"

definition discover_word64 :: "u8 \<Rightarrow> u64 \<Rightarrow> u64 \<Rightarrow> u8 \<times> u64" where
  "discover_word64 ret current virgin =
     (if current AND virgin \<noteq> 0 then
        ((if ret < 2 then
            (if list_ex (\<lambda>(c, v). c \<noteq> 0 \<and> v = 0xff) (zip (to_bytes 8 current) (to_bytes 8 virgin))
             then 2 else 1)
          else ret), virgin AND NOT current)
      else (ret, virgin))"

section \<open>Word routines, 32-bit flavour\<close>

definition mem16_32 :: "u32 \<Rightarrow> u16 list" where
  "mem16_32 word = map (\<lambda>k. ucast (drop_bit (16 * k) word)) [0..<2]"

definition classify_word32 :: "u32 \<Rightarrow> u32" where
  "classify_word32 word = of_mem16 (map count_class16 (mem16_32 word))"

definition simplify_cell32 :: "bytes \<Rightarrow> bytes" where
  "simplify_cell32 mem =
     (if (of_bytes mem :: u32) \<noteq> 0 then map simplify_lookup mem
      else to_bytes 4 (0x01010101 :: u32))"

definition simplify_trace32 :: "u32 \<Rightarrow> bytes \<Rightarrow> bytes" where
  "simplify_trace32 map_size mem = map_cells 4 simplify_cell32 (unat (drop_bit 2 map_size)) mem"

definition classify_cell32 :: "bytes \<Rightarrow> bytes" where
  "classify_cell32 mem =
     (let v = (of_bytes mem :: u32) in if v \<noteq> 0 then to_bytes 4 (classify_word32 v) else mem)"

definition classify_counts32 :: "u32 \<Rightarrow> bytes \<Rightarrow> bytes" where
  "classify_counts32 map_size trace = map_cells 4 classify_cell32 (unat (drop_bit 2 map_size)) trace"

definition discover_word32 :: "u8 \<Rightarrow> u32 \<Rightarrow> u32 \<Rightarrow> u8 \<times> u32" where
  "discover_word32 ret current virgin =
     (if current AND virgin \<noteq> 0 then
        ((if ret < 2 then
            (if list_ex (\<lambda>(c, v). c \<noteq> 0 \<and> v = 0xff) (zip (to_bytes 4 current) (to_bytes 4 virgin))
             then 2 else 1)
          else ret), virgin AND NOT current)
      else (ret, virgin))"

section \<open>The word routines work byte by byte\<close>

lemma bit_of_mem16:
  "bit (of_mem16 hs :: 'a::len word) n \<longleftrightarrow>
     n < LENGTH('a) \<and> n div 16 < length hs \<and> bit (hs ! (n div 16)) (n mod 16)"
proof (induction hs arbitrary: n)
  case (Cons h hs)
  show ?case
  proof (cases "n < 16")
    case True
    then show ?thesis by (auto simp: bit_simps)
  next
    case False
    then have n: "n div 16 = Suc ((n - 16) div 16)" "n mod 16 = (n - 16) mod 16"
      by (simp_all add: le_div_geq le_mod_geq)
    have "\<not> bit h n" using False bit_imp_le_length [of h n] by auto
    then show ?thesis using False unfolding n of_mem16.simps
      by (auto simp: bit_simps Cons)
  qed
qed simp

lemma byte_count_class16:
  "byte_at 0 (count_class16 x) = count_class_lookup8 (byte_at 0 x)"
  "byte_at 1 (count_class16 x) = count_class_lookup8 (byte_at 1 x)"
  by (rule bit_word_eqI, auto simp: count_class16_def byte_at_def bit_simps dest: bit_imp_le_length)+

lemma count_class_lookup8_0 [simp]: "count_class_lookup8 0 = 0"
  by (simp add: count_class_lookup8_def)

text \<open>The byte \<open>k\<close> of a word is the byte \<open>k mod 2\<close> of its half-word \<open>k div 2\<close>.\<close>

lemma byte_of_mem16:
  assumes "k div 2 < length hs" and "16 * length hs \<le> LENGTH('a)"
  shows "byte_at k (of_mem16 hs :: 'a::len word) = byte_at (k mod 2) (hs ! (k div 2))"
proof (rule bit_word_eqI)
  fix j assume "j < LENGTH(8)"
  then have j: "j < 8" by simp
  have e: "8 * k + j = 16 * (k div 2) + (8 * (k mod 2) + j)" by presburger
  have l: "8 * (k mod 2) + j < 16" using j by linarith
  have "(8 * k + j) div 16 = k div 2" "(8 * k + j) mod 16 = 8 * (k mod 2) + j"
    unfolding e using l by auto
  moreover have "8 * k + j < LENGTH('a)" using assms l unfolding e by linarith
  ultimately show "bit (byte_at k (of_mem16 hs :: 'a word)) j \<longleftrightarrow>
      bit (byte_at (k mod 2) (hs ! (k div 2))) j"
    using assms j by (simp add: bit_byte_at bit_of_mem16)
qed

lemma byte_of_half:
  "byte_at (k mod 2) (ucast (drop_bit (16 * (k div 2)) (w :: 'a::len word)) :: u16) = byte_at k w"
proof (rule bit_word_eqI)
  fix j assume "j < LENGTH(8)"
  then have l: "8 * (k mod 2) + j < LENGTH(16)" by simp
  have e: "16 * (k div 2) + (8 * (k mod 2) + j) = 8 * k + j" by presburger
  show "bit (byte_at (k mod 2) (ucast (drop_bit (16 * (k div 2)) w) :: u16)) j \<longleftrightarrow>
      bit (byte_at k w) j"
    using l unfolding bit_byte_at bit_unsigned_iff bit_drop_bit_eq comp_def e by auto
qed

lemma classify_word_bytes:
  "k < 8 \<Longrightarrow> byte_at k (classify_word64 v) = count_class_lookup8 (byte_at k v)"
  "k < 4 \<Longrightarrow> byte_at k (classify_word32 w) = count_class_lookup8 (byte_at k w)"
proof -
  have half: "byte_at (k mod 2) (count_class16 x) = count_class_lookup8 (byte_at (k mod 2) x)" for x
    using byte_count_class16 [of x] by (cases "k mod 2 = 0") auto
  show "k < 8 \<Longrightarrow> byte_at k (classify_word64 v) = count_class_lookup8 (byte_at k v)"
    unfolding classify_word64_def mem16_64_def
    by (subst byte_of_mem16) (auto simp: half byte_of_half)
  show "k < 4 \<Longrightarrow> byte_at k (classify_word32 w) = count_class_lookup8 (byte_at k w)"
    unfolding classify_word32_def mem16_32_def
    by (subst byte_of_mem16) (auto simp: half byte_of_half)
qed

section \<open>State and the scanning loops\<close>

text \<open>
  The parts of \<open>afl_state_t\<close> and of its \<open>afl_forkserver_t\<close> these routines use. A virgin map is
  passed by address; the only use of the address is \<open>virgin_map == afl->virgin_bits\<close>.
\<close>

record cov_st =
  trace_bits :: bytes
  map_size :: u32
  real_map_size :: u32
  virgin_bits :: bytes
  virgin_tmout :: bytes
  virgin_crash :: bytes
  bitmap_changed :: bool

datatype virgin_map = VIRGIN_BITS | VIRGIN_TMOUT | VIRGIN_CRASH

fun virgin_of :: "virgin_map \<Rightarrow> 'a cov_st_scheme \<Rightarrow> bytes" where
  "virgin_of VIRGIN_BITS afl = virgin_bits afl"
| "virgin_of VIRGIN_TMOUT afl = virgin_tmout afl"
| "virgin_of VIRGIN_CRASH afl = virgin_crash afl"

fun set_virgin :: "virgin_map \<Rightarrow> bytes \<Rightarrow> 'a cov_st_scheme \<Rightarrow> 'a cov_st_scheme" where
  "set_virgin VIRGIN_BITS m afl = afl\<lparr>virgin_bits := m\<rparr>"
| "set_virgin VIRGIN_TMOUT m afl = afl\<lparr>virgin_tmout := m\<rparr>"
| "set_virgin VIRGIN_CRASH m afl = afl\<lparr>virgin_crash := m\<rparr>"

fun discover_cells :: "nat \<Rightarrow> (u8 \<Rightarrow> bytes \<Rightarrow> bytes \<Rightarrow> u8 \<times> bytes) \<Rightarrow> nat \<Rightarrow> u8 \<Rightarrow> bytes \<Rightarrow> bytes \<Rightarrow>
    u8 \<times> bytes" where
  "discover_cells w d 0 ret current virgin = (ret, virgin)"
| "discover_cells w d (Suc i) ret current virgin =
     (let (ret1, cell) = d ret (take w current) (take w virgin);
          (ret2, rest) = discover_cells w d i ret1 (drop w current) (drop w virgin)
      in (ret2, cell @ rest))"

definition discover_cell64 :: "u8 \<Rightarrow> bytes \<Rightarrow> bytes \<Rightarrow> u8 \<times> bytes" where
  "discover_cell64 ret current virgin =
     (if (of_bytes current :: u64) \<noteq> 0 then
        let (r, v) = discover_word64 ret (of_bytes current) (of_bytes virgin) in (r, to_bytes 8 v)
      else (ret, virgin))"

definition discover_cell32 :: "u8 \<Rightarrow> bytes \<Rightarrow> bytes \<Rightarrow> u8 \<times> bytes" where
  "discover_cell32 ret current virgin =
     (if (of_bytes current :: u32) \<noteq> 0 then
        let (r, v) = discover_word32 ret (of_bytes current) (of_bytes virgin) in (r, to_bytes 4 v)
      else (ret, virgin))"

text \<open>\<open>w64\<close> says whether the program is built with \<open>WORD_SIZE_64\<close>.\<close>

definition has_new_bits :: "bool \<Rightarrow> 'a cov_st_scheme \<Rightarrow> virgin_map \<Rightarrow> u8 \<times> 'a cov_st_scheme" where
  "has_new_bits w64 afl vm =
     (let (ret, virgin) =
        (if w64 then discover_cells 8 discover_cell64 (unat (drop_bit 3 (real_map_size afl + 7))) 0
                       (trace_bits afl) (virgin_of vm afl)
         else discover_cells 4 discover_cell32 (unat (drop_bit 2 (real_map_size afl + 3))) 0
                       (trace_bits afl) (virgin_of vm afl));
        afl = set_virgin vm virgin afl
      in (ret, if ret \<noteq> 0 \<and> vm = VIRGIN_BITS then afl\<lparr>bitmap_changed := True\<rparr> else afl))"

definition classify_counts :: "bool \<Rightarrow> 'a cov_st_scheme \<Rightarrow> 'a cov_st_scheme" where
  "classify_counts w64 afl = afl\<lparr>trace_bits :=
     (if w64 then classify_counts64 (map_size afl) (trace_bits afl)
      else classify_counts32 (map_size afl) (trace_bits afl))\<rparr>"

definition simplify_trace :: "bool \<Rightarrow> 'a cov_st_scheme \<Rightarrow> bytes \<Rightarrow> bytes" where
  "simplify_trace w64 afl mem =
     (if w64 then simplify_trace64 (map_size afl) mem else simplify_trace32 (map_size afl) mem)"

text \<open>
  \<open>skim\<close>: one pass of its loop looks at four cells; the portable version tests each cell, the
  AVX2 and AVX-512 versions first compute which cells are zero.
\<close>

definition hot64 :: "bytes \<Rightarrow> bytes \<Rightarrow> bool" where
  "hot64 virgin current \<longleftrightarrow> (of_bytes current :: u64) \<noteq> 0 \<and>
     classify_word64 (of_bytes current) AND of_bytes virgin \<noteq> 0"

definition hot32 :: "bytes \<Rightarrow> bytes \<Rightarrow> bool" where
  "hot32 virgin current \<longleftrightarrow> (of_bytes current :: u32) \<noteq> 0 \<and>
     classify_word32 (of_bytes current) AND of_bytes virgin \<noteq> 0"

definition cell :: "nat \<Rightarrow> nat \<Rightarrow> bytes \<Rightarrow> bytes" where
  "cell w k m = take w (drop (w * k) m)"

fun skim_loop :: "nat \<Rightarrow> (bytes \<Rightarrow> bytes \<Rightarrow> bool) \<Rightarrow> nat \<Rightarrow> bytes \<Rightarrow> bytes \<Rightarrow> bool" where
  "skim_loop w hot 0 virgin current = False"
| "skim_loop w hot (Suc g) virgin current =
     (if hot (cell w 0 virgin) (cell w 0 current) then True
      else if hot (cell w 1 virgin) (cell w 1 current) then True
      else if hot (cell w 2 virgin) (cell w 2 current) then True
      else if hot (cell w 3 virgin) (cell w 3 current) then True
      else skim_loop w hot g (drop (4 * w) virgin) (drop (4 * w) current))"

text \<open>\<open>_mm256_movemask_epi8\<close> of the comparison with zero: a byte of ones per zero cell.\<close>

definition zero_mask256 :: "bytes \<Rightarrow> u32" where
  "zero_mask256 current = of_bytes
     (map (\<lambda>k. if (of_bytes (cell 8 k current) :: u64) = 0 then 0xff else 0) [0..<4])"

definition classify_hits :: "bytes \<Rightarrow> bytes \<Rightarrow> bool" where
  "classify_hits virgin current \<longleftrightarrow> classify_word64 (of_bytes current) AND of_bytes virgin \<noteq> 0"

fun skim_avx2 :: "nat \<Rightarrow> bytes \<Rightarrow> bytes \<Rightarrow> bool" where
  "skim_avx2 0 virgin current = False"
| "skim_avx2 (Suc g) virgin current =
     (let m = zero_mask256 current in
      if m = - 1 then skim_avx2 g (drop 32 virgin) (drop 32 current)
      else if m AND 0xff = 0 \<and> classify_hits (cell 8 0 virgin) (cell 8 0 current) then True
      else if m AND 0xff00 = 0 \<and> classify_hits (cell 8 1 virgin) (cell 8 1 current) then True
      else if m AND 0xff0000 = 0 \<and> classify_hits (cell 8 2 virgin) (cell 8 2 current) then True
      else if m AND 0xff000000 = 0 \<and> classify_hits (cell 8 3 virgin) (cell 8 3 current) then True
      else skim_avx2 g (drop 32 virgin) (drop 32 current))"

text \<open>\<open>_mm512_testn_epi64_mask\<close>: one bit per zero cell; one pass looks at eight cells.\<close>

definition zero_mask512 :: "bytes \<Rightarrow> u8" where
  "zero_mask512 current =
     fold (\<lambda>k m. if (of_bytes (cell 8 k current) :: u64) = 0 then m OR push_bit k 1 else m) [0..<8] 0"

fun skim_avx512 :: "nat \<Rightarrow> bytes \<Rightarrow> bytes \<Rightarrow> bool" where
  "skim_avx512 0 virgin current = False"
| "skim_avx512 (Suc g) virgin current =
     (let m = zero_mask512 current in
      if m = 0xff then skim_avx512 g (drop 64 virgin) (drop 64 current)
      else if list_ex (\<lambda>k. \<not> bit m k \<and> classify_hits (cell 8 k virgin) (cell 8 k current)) [0..<8]
      then True
      else skim_avx512 g (drop 64 virgin) (drop 64 current))"

definition skim :: "bool \<Rightarrow> bytes \<Rightarrow> bytes \<Rightarrow> nat \<Rightarrow> bool" where
  "skim w64 virgin current len =
     (if w64 then skim_loop 8 hot64 ((len + 31) div 32) virgin current
      else skim_loop 4 hot32 ((len + 15) div 16) virgin current)"

definition has_new_bits_unclassified ::
    "bool \<Rightarrow> 'a cov_st_scheme \<Rightarrow> virgin_map \<Rightarrow> bool \<Rightarrow> u8 \<times> bool \<times> 'a cov_st_scheme" where
  "has_new_bits_unclassified w64 afl vm classified =
     (if \<not> skim w64 (virgin_of vm afl) (trace_bits afl) (unat (map_size afl))
      then (0, classified, afl)
      else let (ret, afl) = has_new_bits w64 (classify_counts w64 afl) vm in (ret, True, afl))"

section \<open>Counting\<close>

text \<open>The loops over \<open>u32\<close> cells; the popcount is the compiler's builtin.\<close>

fun cells32 :: "nat \<Rightarrow> bytes \<Rightarrow> u32 list" where
  "cells32 0 m = []"
| "cells32 (Suc i) m = of_bytes (take 4 m) # cells32 i (drop 4 m)"

definition builtin_popcount :: "u32 \<Rightarrow> u32" where
  "builtin_popcount v = of_nat (length (filter (bit v) [0..<32]))"

definition count_bits :: "'a cov_st_scheme \<Rightarrow> bytes \<Rightarrow> u32" where
  "count_bits afl mem =
     fold (\<lambda>v ret. if v = 0xffffffff then ret + 32 else ret + builtin_popcount v)
       (cells32 (unat (drop_bit 2 (real_map_size afl + 3))) mem) 0"

definition count_bytes :: "'a cov_st_scheme \<Rightarrow> bytes \<Rightarrow> u32" where
  "count_bytes afl mem =
     fold (\<lambda>v ret. if v = 0 then ret else
         let ret = (if v AND 0x000000ff \<noteq> 0 then ret + 1 else ret);
             ret = (if v AND 0x0000ff00 \<noteq> 0 then ret + 1 else ret);
             ret = (if v AND 0x00ff0000 \<noteq> 0 then ret + 1 else ret)
         in if v AND 0xff000000 \<noteq> 0 then ret + 1 else ret)
       (cells32 (unat (drop_bit 2 (real_map_size afl + 3))) mem) 0"

definition count_non_255_bytes :: "'a cov_st_scheme \<Rightarrow> bytes \<Rightarrow> u32" where
  "count_non_255_bytes afl mem =
     fold (\<lambda>v ret. if v = 0xffffffff then ret else
         let ret = (if v AND 0x000000ff \<noteq> 0x000000ff then ret + 1 else ret);
             ret = (if v AND 0x0000ff00 \<noteq> 0x0000ff00 then ret + 1 else ret);
             ret = (if v AND 0x00ff0000 \<noteq> 0x00ff0000 then ret + 1 else ret)
         in if v AND 0xff000000 \<noteq> 0xff000000 then ret + 1 else ret)
       (cells32 (unat (drop_bit 2 (real_map_size afl + 3))) mem) 0"

text \<open>\<open>dst[i >> 3] |= 1 << (i & 7)\<close> for every non-zero byte \<open>i\<close> of the map.\<close>

definition minimize_bits :: "'a cov_st_scheme \<Rightarrow> bytes \<Rightarrow> bytes \<Rightarrow> bytes" where
  "minimize_bits afl dst src =
     fold (\<lambda>i dst. if src ! i \<noteq> 0
                   then dst[i div 8 := dst ! (i div 8) OR push_bit (i mod 8) 1] else dst)
       [0..<unat (map_size afl)] dst"

section \<open>The interface of a word flavour\<close>

text \<open>What the routines promise of maps, byte by byte.\<close>

definition novelty :: "bytes \<Rightarrow> bytes \<Rightarrow> u8" where
  "novelty current virgin =
     (if list_ex (\<lambda>(c, v). c \<noteq> 0 \<and> v = 0xff) (zip current virgin) then 2
      else if list_ex (\<lambda>(c, v). c AND v \<noteq> 0) (zip current virgin) then 1 else 0)"

definition clear_seen :: "bytes \<Rightarrow> bytes \<Rightarrow> bytes" where
  "clear_seen current virgin = map2 (\<lambda>c v. v AND NOT c) current virgin"

locale word_flavour =
  fixes w :: nat
    and classify_cell :: "bytes \<Rightarrow> bytes"
    and simplify_cell :: "bytes \<Rightarrow> bytes"
    and discover_cell :: "u8 \<Rightarrow> bytes \<Rightarrow> bytes \<Rightarrow> u8 \<times> bytes"
    and hot :: "bytes \<Rightarrow> bytes \<Rightarrow> bool"
  assumes classify_bytes: "length c = w \<Longrightarrow> classify_cell c = map count_class_lookup8 c"
    and simplify_bytes: "length c = w \<Longrightarrow> simplify_cell c = map simplify_lookup c"
    and discover_bytes: "length c = w \<Longrightarrow> length v = w \<Longrightarrow> ret \<le> 2 \<Longrightarrow>
      discover_cell ret c v = (max ret (novelty c v), clear_seen c v)"
    and hot_bytes: "length c = w \<Longrightarrow> length v = w \<Longrightarrow>
      hot v c \<longleftrightarrow> list_ex (\<lambda>(c, v). count_class_lookup8 c AND v \<noteq> 0) (zip c v)"

lemma novelty_append:
  assumes "length c = length v"
  shows "novelty (c @ cs) (v @ vs) = max (novelty c v) (novelty cs vs)"
proof -
  have "\<not> (2::u8) \<le> 1" by (simp add: word_le_nat_alt)
  then show ?thesis using assms by (auto simp: novelty_def max_def)
qed

lemma novelty_le: "novelty c v \<le> 2"
  by (simp add: novelty_def)

lemma clear_seen_append:
  "length c = length v \<Longrightarrow> clear_seen (c @ cs) (v @ vs) = clear_seen c v @ clear_seen cs vs"
  by (simp add: clear_seen_def)

context word_flavour begin

lemma classify_loop:
  "w * i \<le> length m \<Longrightarrow>
    map_cells w classify_cell i m = map count_class_lookup8 (take (w * i) m) @ drop (w * i) m"
  by (rule map_cells_bytewise [OF classify_bytes])

lemma simplify_loop:
  "w * i \<le> length m \<Longrightarrow>
    map_cells w simplify_cell i m = map simplify_lookup (take (w * i) m) @ drop (w * i) m"
  by (rule map_cells_bytewise [OF simplify_bytes])

lemma discover_loop:
  assumes "w * i \<le> length c" and "w * i \<le> length v" and "ret \<le> 2"
  shows "discover_cells w discover_cell i ret c v =
    (max ret (novelty (take (w * i) c) (take (w * i) v)),
     clear_seen (take (w * i) c) (take (w * i) v) @ drop (w * i) v)"
  using assms
proof (induction i arbitrary: ret c v)
  case 0
  then show ?case by (simp add: novelty_def clear_seen_def)
next
  case (Suc i)
  have len: "length (take w c) = w" "length (take w v) = w" using Suc.prems by auto
  have d: "discover_cell ret (take w c) (take w v) =
      (max ret (novelty (take w c) (take w v)), clear_seen (take w c) (take w v))"
    by (rule discover_bytes [OF len Suc.prems(3)])
  have r: "discover_cells w discover_cell i (max ret (novelty (take w c) (take w v))) (drop w c) (drop w v) =
    (max (max ret (novelty (take w c) (take w v))) (novelty (take (w * i) (drop w c)) (take (w * i) (drop w v))),
     clear_seen (take (w * i) (drop w c)) (take (w * i) (drop w v)) @ drop (w * i) (drop w v))"
    using Suc.prems novelty_le by (intro Suc.IH) auto
  have s: "take (w * Suc i) x = take w x @ take (w * i) (drop w x)" for x :: bytes
    by (simp add: take_add)
  show ?case
    unfolding discover_cells.simps d Let_def prod.case r s
    using len by (simp add: novelty_append clear_seen_append max.assoc add.commute)
qed

lemma skim_loop_bytes:
  assumes "4 * w * g \<le> length c" and "4 * w * g \<le> length v"
  shows "skim_loop w hot g v c \<longleftrightarrow>
    list_ex (\<lambda>(c, v). count_class_lookup8 c AND v \<noteq> 0) (zip (take (4 * w * g) c) (take (4 * w * g) v))"
  using assms
proof (induction g arbitrary: c v)
  case (Suc g)
  let ?P = "\<lambda>(c, v). count_class_lookup8 c AND v \<noteq> 0"
  have len: "length (cell w k c) = w" "length (cell w k v) = w" if "k < 4" for k
  proof -
    have "w * Suc k \<le> w * 4" using that by (intro mult_le_mono2) simp
    moreover have "w * 4 \<le> length c" "w * 4 \<le> length v" using Suc.prems by simp_all
    ultimately have "w \<le> length c - w * k" "w \<le> length v - w * k"
      unfolding mult_Suc_right by linarith+
    then show "length (cell w k c) = w" "length (cell w k v) = w"
      by (simp_all add: cell_def)
  qed
  have four: "take (4 * w) x = cell w 0 x @ cell w 1 x @ cell w 2 x @ cell w 3 x" for x :: bytes
  proof -
    have "4 * w = w + (w + (w + w))" by simp
    then have "take (4 * w) x = take (w + (w + (w + w))) x" by (rule arg_cong)
    also have "\<dots> = cell w 0 x @ cell w 1 x @ cell w 2 x @ cell w 3 x"
      unfolding take_add by (simp add: cell_def mult_2_right algebra_simps numeral_3_eq_3)
    finally show ?thesis .
  qed
  have split: "take (4 * w * Suc g) x = take (4 * w) x @ take (4 * w * g) (drop (4 * w) x)" for x :: bytes
    by (simp add: take_add)
  have head: "list_ex ?P (zip (take (4 * w) c) (take (4 * w) v)) \<longleftrightarrow>
      (\<exists>k \<in> {0, 1, 2, 3}. hot (cell w k v) (cell w k c))"
    unfolding four using len by (simp add: hot_bytes)
  have "length (take (4 * w) c) = length (take (4 * w) v)" using Suc.prems by simp
  then have z: "zip (take (4 * w * Suc g) c) (take (4 * w * Suc g) v) =
      zip (take (4 * w) c) (take (4 * w) v) @
      zip (take (4 * w * g) (drop (4 * w) c)) (take (4 * w * g) (drop (4 * w) v))"
    unfolding split by (rule zip_append)
  have ih: "skim_loop w hot g (drop (4 * w) v) (drop (4 * w) c) \<longleftrightarrow>
    list_ex ?P (zip (take (4 * w * g) (drop (4 * w) c)) (take (4 * w * g) (drop (4 * w) v)))"
    using Suc.prems by (intro Suc.IH) auto
  show ?case unfolding z list_ex_append head skim_loop.simps ih by auto
qed simp

end

section \<open>Both flavours implement the interface\<close>

lemma count_class_lookup8_pos [simp]: "count_class_lookup8 b = 0 \<longleftrightarrow> b = 0"
  by (auto simp: count_class_lookup8_def)

lemma zip_bytes_ex:
  assumes "length c = n" and "length v = n"
  shows "list_ex P (zip c v) \<longleftrightarrow> (\<exists>k < n. P (c ! k, v ! k))"
  using assms by (auto simp: list_ex_length)

lemma of_bytes_and_zero:
  assumes "length c = n" and "length v = n" and "8 * n = LENGTH('a)"
  shows "of_bytes c AND of_bytes v \<noteq> (0 :: 'a::len word) \<longleftrightarrow> list_ex (\<lambda>(c, v). c AND v \<noteq> 0) (zip c v)"
  using assms unfolding zip_bytes_ex [OF assms(1,2)]
  by (subst word_zero_bytes [OF assms(3)]) (simp add: byte_of_bytes)

lemma of_bytes_zero:
  assumes "length c = n" and "8 * n = LENGTH('a)"
  shows "(of_bytes c :: 'a::len word) = 0 \<longleftrightarrow> (\<forall>b \<in> set c. b = 0)"
  using assms by (subst word_zero_bytes [OF assms(2)]) (auto simp: byte_of_bytes all_set_conv_all_nth)

lemma to_bytes_clear:
  assumes "length c = n" and "length v = n" and "8 * n = LENGTH('a)"
  shows "to_bytes n (of_bytes v AND NOT (of_bytes c :: 'a::len word)) = clear_seen c v"
  using assms by (intro nth_equalityI) (simp_all add: clear_seen_def byte_at_not byte_of_bytes)

lemma clear_seen_id:
  assumes "length c = length v" and "\<not> list_ex (\<lambda>(c, v). c AND v \<noteq> 0) (zip c v)"
  shows "clear_seen c v = v"
proof (rule nth_equalityI)
  fix i assume "i < length (clear_seen c v)"
  then have i: "i < length c" "i < length v" by (simp_all add: clear_seen_def)
  then have z: "c ! i AND v ! i = 0"
    using assms zip_bytes_ex [OF refl assms(1) [symmetric]] by auto
  have "v ! i AND NOT (c ! i) = v ! i"
  proof (rule bit_word_eqI)
    fix n assume "n < LENGTH(8)"
    have "\<not> bit (c ! i AND v ! i) n" unfolding z by simp
    then show "bit (v ! i AND NOT (c ! i)) n \<longleftrightarrow> bit (v ! i) n"
      using \<open>n < LENGTH(8)\<close> by (auto simp: bit_simps)
  qed
  then show "clear_seen c v ! i = v ! i" using i by (simp add: clear_seen_def)
qed (use assms in \<open>simp add: clear_seen_def\<close>)

text \<open>A pristine byte that is hit is in particular a byte with new bits.\<close>

lemma pristine_hits:
  assumes "list_ex (\<lambda>(c, v). c \<noteq> 0 \<and> v = 0xff) (zip c (v :: bytes))"
  shows "list_ex (\<lambda>(c, v). c AND v \<noteq> 0) (zip c v)"
proof -
  have "(0xff :: u8) = - 1" by simp
  then have full: "c AND (0xff :: u8) = c" for c :: u8 by (metis and.right_neutral)
  obtain x y where xy: "(x, y) \<in> set (zip c v)" "x \<noteq> 0" "y = 0xff"
    using assms unfolding list_ex_iff by blast
  have "x AND y \<noteq> 0" using xy(2) full unfolding xy(3) by simp
  then show ?thesis using xy(1) unfolding list_ex_iff by blast
qed


lemma u8_less_2: "(r :: u8) < 2 \<Longrightarrow> r \<le> 1"
  by uint_arith

lemma discover_level:
  assumes "ret \<le> (2 :: u8)"
    and "list_ex (\<lambda>(c, v). c AND v \<noteq> 0) (zip c v)"
  shows "(if ret < 2 then (if list_ex (\<lambda>(c, v). c \<noteq> 0 \<and> v = 0xff) (zip c v) then 2 else 1) else ret) =
    max ret (novelty c v)"
proof (cases "ret < 2")
  case True
  then have r: "ret \<le> 1" by (rule u8_less_2)
  show ?thesis
  proof (cases "list_ex (\<lambda>(c, v). c \<noteq> 0 \<and> v = 0xff) (zip c v)")
    case pristine: True
    then have "novelty c v = 2" by (simp add: novelty_def)
    then show ?thesis using True pristine max_absorb2 [OF assms(1)] by simp
  next
    case False
    then have "novelty c v = 1" using assms(2) by (simp add: novelty_def)
    then show ?thesis using True False max_absorb2 [OF r] by simp
  qed
next
  case False
  then have "ret = 2" using assms(1) by simp
  then show ?thesis using False max_absorb1 [OF novelty_le [of c v]] by simp
qed

lemma discover_cell_bytes:
  fixes d :: "u8 \<Rightarrow> 'a::len word \<Rightarrow> 'a word \<Rightarrow> u8 \<times> 'a word"
  assumes len: "length c = n" "length v = n" and n: "8 * n = LENGTH('a)" and ret: "ret \<le> (2 :: u8)"
    and d: "\<And>r. d r (of_bytes c :: 'a word) (of_bytes v) =
      (if (of_bytes c :: 'a word) AND of_bytes v \<noteq> 0 then
        ((if r < 2 then
            (if list_ex (\<lambda>(c, v). c \<noteq> 0 \<and> v = 0xff)
                  (zip (to_bytes n (of_bytes c :: 'a word)) (to_bytes n (of_bytes v :: 'a word)))
             then 2 else 1)
          else r), of_bytes v AND NOT (of_bytes c))
      else (r, of_bytes v))"
  shows "(if (of_bytes c :: 'a word) \<noteq> 0
      then let (r, u) = d ret (of_bytes c) (of_bytes v) in (r, to_bytes n u) else (ret, v)) =
    (max ret (novelty c v), clear_seen c v)"
proof (cases "list_ex (\<lambda>(c, v). c AND v \<noteq> 0) (zip c v)")
  case True
  then have nz: "(of_bytes c :: 'a word) AND of_bytes v \<noteq> 0"
    unfolding of_bytes_and_zero [OF len n] .
  then have "(of_bytes c :: 'a word) \<noteq> 0" by auto
  moreover have "d ret (of_bytes c) (of_bytes v) =
      (max ret (novelty c v), of_bytes v AND NOT (of_bytes c :: 'a word))"
    using nz n len discover_level [OF ret True] by (simp only: d to_bytes_of_bytes order_refl simp_thms if_True)
  ultimately show ?thesis by (simp add: to_bytes_clear [OF len n])
next
  case False
  then have z: "(of_bytes c :: 'a word) AND of_bytes v = 0"
    using of_bytes_and_zero [OF len n] by blast
  have "novelty c v = 0" using False pristine_hits by (auto simp: novelty_def)
  moreover have "clear_seen c v = v" by (rule clear_seen_id) (use len False in auto)
  ultimately show ?thesis using z n len by (simp add: d to_bytes_of_bytes)
qed

lemma hot_cell_bytes:
  fixes f :: "'a::len word \<Rightarrow> 'a word"
  assumes len: "length c = n" "length v = n" and n: "8 * n = LENGTH('a)"
    and f: "\<And>k w. k < n \<Longrightarrow> byte_at k (f w :: 'a word) = count_class_lookup8 (byte_at k w)"
  shows "(of_bytes c :: 'a word) \<noteq> 0 \<and> f (of_bytes c) AND of_bytes v \<noteq> 0 \<longleftrightarrow>
    list_ex (\<lambda>(c, v). count_class_lookup8 c AND v \<noteq> 0) (zip c v)"
proof -
  have b: "byte_at k (f (of_bytes c) AND of_bytes v) = count_class_lookup8 (c ! k) AND v ! k" if "k < n" for k
    using that len f byte_of_bytes [of k c, where 'a = 'a] byte_of_bytes [of k v, where 'a = 'a] n
    by simp
  then have "f (of_bytes c) AND of_bytes v \<noteq> 0 \<longleftrightarrow>
      list_ex (\<lambda>(c, v). count_class_lookup8 c AND v \<noteq> 0) (zip c v)"
    unfolding zip_bytes_ex [OF len] prod.case word_zero_bytes [OF n] by (metis b)
  moreover have "list_ex (\<lambda>(c, v). count_class_lookup8 c AND v \<noteq> 0) (zip c v) \<Longrightarrow>
      (of_bytes c :: 'a word) \<noteq> 0"
    unfolding zip_bytes_ex [OF len] of_bytes_zero [OF len(1) n] using len by (auto simp: all_set_conv_all_nth)
  ultimately show ?thesis by blast
qed

lemma classify_cell_bytes:
  assumes "length c = n" and n: "8 * n = LENGTH('a::len)"
    and f: "\<And>k w. k < n \<Longrightarrow> byte_at k (f w :: 'a word) = count_class_lookup8 (byte_at k w)"
  shows "(let v = of_bytes c :: 'a word in if v \<noteq> 0 then to_bytes n (f v) else c) =
    map count_class_lookup8 c"
proof (cases "(of_bytes c :: 'a word) = 0")
  case True
  then have "\<forall>b \<in> set c. b = 0" using of_bytes_zero [OF assms(1) n] by blast
  then have "map count_class_lookup8 c = map (\<lambda>b. b) c" by (intro map_cong) auto
  then show ?thesis using True by simp
next
  case False
  have "to_bytes n (f (of_bytes c)) = map count_class_lookup8 c"
    using assms by (intro nth_equalityI) (simp_all add: byte_of_bytes)
  then show ?thesis using False by simp
qed

lemma simplify_cell_bytes:
  assumes "length c = n" and n: "8 * n = LENGTH('a::len)"
    and "to_bytes n ones = replicate n (1 :: u8)"
  shows "(if (of_bytes c :: 'a word) \<noteq> 0 then map simplify_lookup c else to_bytes n ones) =
    map simplify_lookup c"
proof (cases "(of_bytes c :: 'a word) = 0")
  case True
  then have "\<forall>b \<in> set c. b = 0" using of_bytes_zero [OF assms(1) n] by blast
  then have "map simplify_lookup c = map (\<lambda>b. 1) c"
    by (intro map_cong) (auto simp: simplify_lookup_def)
  then show ?thesis using True assms(1,3) by (simp add: map_replicate_const)
qed simp

interpretation flavour64: word_flavour 8 classify_cell64 simplify_cell64 discover_cell64 hot64
proof
  fix c v :: bytes and ret :: u8
  have eight: "8 * 8 = LENGTH(64)" by simp
  have ones: "to_bytes 8 (0x0101010101010101 :: u64) = replicate 8 1" by code_simp
  assume c: "length c = 8"
  show "classify_cell64 c = map count_class_lookup8 c"
    unfolding classify_cell64_def using c eight
    by (rule classify_cell_bytes) (rule classify_word_bytes(1))
  show "simplify_cell64 c = map simplify_lookup c"
    unfolding simplify_cell64_def using c eight
    by (rule simplify_cell_bytes) (rule ones)
  assume v: "length v = 8"
  show "hot64 v c \<longleftrightarrow> list_ex (\<lambda>(c, v). count_class_lookup8 c AND v \<noteq> 0) (zip c v)"
    unfolding hot64_def using c v eight by (rule hot_cell_bytes) (rule classify_word_bytes(1))
  assume "ret \<le> 2"
  then show "discover_cell64 ret c v = (max ret (novelty c v), clear_seen c v)"
    unfolding discover_cell64_def using c v eight
    by (intro discover_cell_bytes) (assumption+, rule discover_word64_def)
qed

interpretation flavour32: word_flavour 4 classify_cell32 simplify_cell32 discover_cell32 hot32
proof
  fix c v :: bytes and ret :: u8
  have four: "8 * 4 = LENGTH(32)" by simp
  have ones: "to_bytes 4 (0x01010101 :: u32) = replicate 4 1" by code_simp
  assume c: "length c = 4"
  show "classify_cell32 c = map count_class_lookup8 c"
    unfolding classify_cell32_def using c four
    by (rule classify_cell_bytes) (rule classify_word_bytes(2))
  show "simplify_cell32 c = map simplify_lookup c"
    unfolding simplify_cell32_def using c four
    by (rule simplify_cell_bytes) (rule ones)
  assume v: "length v = 4"
  show "hot32 v c \<longleftrightarrow> list_ex (\<lambda>(c, v). count_class_lookup8 c AND v \<noteq> 0) (zip c v)"
    unfolding hot32_def using c v four by (rule hot_cell_bytes) (rule classify_word_bytes(2))
  assume "ret \<le> 2"
  then show "discover_cell32 ret c v = (max ret (novelty c v), clear_seen c v)"
    unfolding discover_cell32_def using c v four
    by (intro discover_cell_bytes) (assumption+, rule discover_word32_def)
qed


section \<open>Whole maps\<close>

text \<open>The sizes the program sets up: full maps of a multiple of 64 bytes.\<close>

definition cov_ok :: "'a cov_st_scheme \<Rightarrow> bool" where
  "cov_ok afl \<longleftrightarrow> 64 dvd unat (map_size afl) \<and> real_map_size afl \<le> map_size afl \<and>
     length (trace_bits afl) = unat (map_size afl) \<and>
     (\<forall>vm. length (virgin_of vm afl) = unat (map_size afl))"

text \<open>The bytes \<open>has_new_bits\<close> looks at: the real size rounded up to whole words.\<close>

definition scanned :: "bool \<Rightarrow> 'a cov_st_scheme \<Rightarrow> nat" where
  "scanned w64 afl =
     (if w64 then 8 * ((unat (real_map_size afl) + 7) div 8)
      else 4 * ((unat (real_map_size afl) + 3) div 4))"

lemma round_up_bounds:
  fixes r m :: nat
  assumes "64 dvd m" and "r \<le> m"
  shows "8 * ((r + 7) div 8) \<le> m" "4 * ((r + 3) div 4) \<le> m"
proof -
  obtain k where k: "m = 64 * k" using assms(1) by blast
  have "(r + 7) div 8 \<le> (64 * k + 7) div 8" "(r + 3) div 4 \<le> (64 * k + 3) div 4"
    using assms(2) k by (simp_all add: div_le_mono)
  moreover have "(64 * k + 7) div 8 = 8 * k" "(64 * k + 3) div 4 = 16 * k" by simp_all
  ultimately show "8 * ((r + 7) div 8) \<le> m" "4 * ((r + 3) div 4) \<le> m" using k by linarith+
qed

lemma room_below_2_32:
  fixes r m :: nat
  assumes "64 dvd m" and "r \<le> m" and "m < 4294967296"
  shows "r + 7 < 4294967296"
  using assms by presburger

lemma unat_plus_u32:
  fixes x y :: u32
  shows "unat x + unat y < 4294967296 \<Longrightarrow> unat (x + y) = unat x + unat y"
  by (simp add: unat_word_ariths)

lemma unat_drop_bit_div: "unat (drop_bit n w) = unat w div 2 ^ n"
  by (subst unat_drop_bit_eq) (rule drop_bit_eq_div)

lemma cov_ok_bound:
  assumes "cov_ok afl"
  shows "unat (real_map_size afl) + 7 < 4294967296" "scanned w64 afl \<le> unat (map_size afl)"
proof -
  have d: "64 dvd unat (map_size afl)" "unat (real_map_size afl) \<le> unat (map_size afl)"
    using assms unfolding cov_ok_def word_le_nat_alt by blast+
  have "unat (map_size afl) < 4294967296" using unsigned_less [of "map_size afl"] by simp
  with d show "unat (real_map_size afl) + 7 < 4294967296" by (rule room_below_2_32)
  show "scanned w64 afl \<le> unat (map_size afl)"
    unfolding scanned_def using round_up_bounds [OF d] by (cases w64) (simp_all only: if_True if_False)
qed

lemma cells_of_map:
  assumes "cov_ok afl"
  shows "8 * unat (drop_bit 3 (real_map_size afl + 7)) = scanned True afl"
    and "4 * unat (drop_bit 2 (real_map_size afl + 3)) = scanned False afl"
    and "8 * unat (drop_bit 3 (map_size afl)) = unat (map_size afl)"
    and "4 * unat (drop_bit 2 (map_size afl)) = unat (map_size afl)"
proof -
  have "unat (7 :: u32) = 7" "unat (3 :: u32) = 3" by simp_all
  then have s: "unat (real_map_size afl + 7) = unat (real_map_size afl) + 7"
    "unat (real_map_size afl + 3) = unat (real_map_size afl) + 3"
    using cov_ok_bound(1) [OF assms] unat_plus_u32 [of "real_map_size afl" 7]
      unat_plus_u32 [of "real_map_size afl" 3] by linarith+
  show "8 * unat (drop_bit 3 (real_map_size afl + 7)) = scanned True afl"
    "4 * unat (drop_bit 2 (real_map_size afl + 3)) = scanned False afl"
    unfolding unat_drop_bit_div s scanned_def by simp_all
  have d: "64 dvd unat (map_size afl)" using assms by (simp only: cov_ok_def)
  have "8 * (x div 2 ^ 3) = x" "4 * (x div 2 ^ 2) = x" if "64 dvd x" for x :: nat
    using that by auto
  from this [OF d] show "8 * unat (drop_bit 3 (map_size afl)) = unat (map_size afl)"
    "4 * unat (drop_bit 2 (map_size afl)) = unat (map_size afl)"
    unfolding unat_drop_bit_div .
qed

lemma has_new_bits_scan:
  fixes w64
  assumes ok: "cov_ok afl"
  defines "n \<equiv> scanned w64 afl"
  shows "(if w64 then discover_cells 8 discover_cell64 (unat (drop_bit 3 (real_map_size afl + 7))) 0
                       (trace_bits afl) (virgin_of vm afl)
         else discover_cells 4 discover_cell32 (unat (drop_bit 2 (real_map_size afl + 3))) 0
                       (trace_bits afl) (virgin_of vm afl)) =
    (novelty (take n (trace_bits afl)) (take n (virgin_of vm afl)),
     clear_seen (take n (trace_bits afl)) (take n (virgin_of vm afl)) @ drop n (virgin_of vm afl))"
proof -
  note b = cov_ok_bound(2) [OF ok] and c = cells_of_map [OF ok]
  have len: "length (trace_bits afl) = unat (map_size afl)" "length (virgin_of vm afl) = unat (map_size afl)"
    using ok by (simp_all add: cov_ok_def)
  have z: "max 0 x = x" for x :: u8 by (simp add: max_def)
  show ?thesis
  proof (cases w64)
    case True
    then show ?thesis
      using flavour64.discover_loop [of "unat (drop_bit 3 (real_map_size afl + 7))" "trace_bits afl" "virgin_of vm afl" 0]
        b [of True] len unfolding c n_def by (simp add: z)
  next
    case False
    then show ?thesis
      using flavour32.discover_loop [of "unat (drop_bit 2 (real_map_size afl + 3))" "trace_bits afl" "virgin_of vm afl" 0]
        b [of False] len unfolding c n_def by (simp add: z)
  qed
qed

lemma virgin_frame [simp]:
  "virgin_of vm (set_virgin vm m afl) = m"
  "vm' \<noteq> vm \<Longrightarrow> virgin_of vm' (set_virgin vm m afl) = virgin_of vm' afl"
  "trace_bits (set_virgin vm m afl) = trace_bits afl"
  "map_size (set_virgin vm m afl) = map_size afl"
  "real_map_size (set_virgin vm m afl) = real_map_size afl"
  "virgin_of vm' (afl\<lparr>bitmap_changed := b\<rparr>) = virgin_of vm' afl"
  "virgin_of vm' (afl\<lparr>trace_bits := tr\<rparr>) = virgin_of vm' afl"
  by ((cases vm; cases vm'; simp), (cases vm; cases vm'; simp), (cases vm; simp), (cases vm; simp),
      (cases vm; simp), (cases vm'; simp), (cases vm'; simp))


lemma has_new_bits_eq:
  assumes "cov_ok afl" and "n = scanned w64 afl"
    and "ret = novelty (take n (trace_bits afl)) (take n (virgin_of vm afl))"
    and "m = clear_seen (take n (trace_bits afl)) (take n (virgin_of vm afl)) @
      drop n (virgin_of vm afl)"
  shows "has_new_bits w64 afl vm = (ret, (set_virgin vm m afl)
    \<lparr>bitmap_changed := bitmap_changed afl \<or> (ret \<noteq> 0 \<and> vm = VIRGIN_BITS)\<rparr>)"
proof -
  have h: "has_new_bits w64 afl vm = (ret, if ret \<noteq> 0 \<and> vm = VIRGIN_BITS
      then (set_virgin vm m afl)\<lparr>bitmap_changed := True\<rparr> else set_virgin vm m afl)"
    unfolding has_new_bits_def has_new_bits_scan [OF assms(1)] Let_def prod.case
    by (simp only: assms(2-))
  have "set_virgin vm m afl = (set_virgin vm m afl)\<lparr>bitmap_changed := bitmap_changed afl\<rparr>"
    by (cases vm) simp_all
  then show ?thesis unfolding h by (cases "ret \<noteq> 0 \<and> vm = VIRGIN_BITS") (simp_all only: simp_thms if_True if_False)
qed

lemma classify_counts_eq:
  assumes "cov_ok afl"
  shows "trace_bits (classify_counts w64 afl) = map count_class_lookup8 (trace_bits afl)"
proof -
  have len: "length (trace_bits afl) = unat (map_size afl)" using assms by (simp add: cov_ok_def)
  note c = cells_of_map(3,4) [OF assms]
  have "classify_counts64 (map_size afl) (trace_bits afl) = map count_class_lookup8 (trace_bits afl)"
    using flavour64.classify_loop [of "unat (drop_bit 3 (map_size afl))" "trace_bits afl"] len
    unfolding classify_counts64_def c by simp
  moreover have "classify_counts32 (map_size afl) (trace_bits afl) = map count_class_lookup8 (trace_bits afl)"
    using flavour32.classify_loop [of "unat (drop_bit 2 (map_size afl))" "trace_bits afl"] len
    unfolding classify_counts32_def c by simp
  ultimately show ?thesis by (simp add: classify_counts_def)
qed

lemma classify_counts_frame [simp]:
  "virgin_of vm (classify_counts w64 afl) = virgin_of vm afl"
  "map_size (classify_counts w64 afl) = map_size afl"
  "real_map_size (classify_counts w64 afl) = real_map_size afl"
  "scanned w (classify_counts w64 afl) = scanned w afl"
  by (simp_all add: classify_counts_def scanned_def)

lemma classify_counts_ok: "cov_ok afl \<Longrightarrow> cov_ok (classify_counts w64 afl)"
  using classify_counts_eq [of afl w64] by (simp add: cov_ok_def)

lemma simplify_trace_eq:
  assumes "cov_ok afl" and "length mem = unat (map_size afl)"
  shows "simplify_trace w64 afl mem = map simplify_lookup mem"
proof -
  note c = cells_of_map(3,4) [OF assms(1)]
  have "simplify_trace64 (map_size afl) mem = map simplify_lookup mem"
    using flavour64.simplify_loop [of "unat (drop_bit 3 (map_size afl))" mem] assms(2)
    unfolding simplify_trace64_def c by simp
  moreover have "simplify_trace32 (map_size afl) mem = map simplify_lookup mem"
    using flavour32.simplify_loop [of "unat (drop_bit 2 (map_size afl))" mem] assms(2)
    unfolding simplify_trace32_def c by simp
  ultimately show ?thesis by (simp add: simplify_trace_def)
qed

lemma skim_eq:
  assumes "64 dvd len" and "length virgin = len" and "length current = len"
  shows "skim w64 virgin current len \<longleftrightarrow>
    list_ex (\<lambda>(c, v). count_class_lookup8 c AND v \<noteq> 0) (zip current virgin)"
proof -
  obtain k where k: "len = 64 * k" using assms(1) by blast
  have g: "(len + 31) div 32 = 2 * k" "(len + 15) div 16 = 4 * k" unfolding k by simp_all
  have "skim_loop 8 hot64 (2 * k) virgin current \<longleftrightarrow>
      list_ex (\<lambda>(c, v). count_class_lookup8 c AND v \<noteq> 0) (zip current virgin)"
    using flavour64.skim_loop_bytes [of "2 * k" current virgin] assms(2,3) k by simp
  moreover have "skim_loop 4 hot32 (4 * k) virgin current \<longleftrightarrow>
      list_ex (\<lambda>(c, v). count_class_lookup8 c AND v \<noteq> 0) (zip current virgin)"
    using flavour32.skim_loop_bytes [of "4 * k" current virgin] assms(2,3) k by simp
  ultimately show ?thesis by (simp only: skim_def g if_cancel)
qed

lemma novelty_zero_iff:
  "novelty c v = 0 \<longleftrightarrow> \<not> list_ex (\<lambda>(c, v). c AND v \<noteq> 0) (zip c v)"
  using pristine_hits [of c v] by (auto simp: novelty_def)

lemma novelty_cleared:
  assumes "length c = length v"
  shows "novelty c (clear_seen c v) = 0"
proof -
  have z: "x AND (y AND NOT x) = 0" for x y :: u8
    by (rule bit_word_eqI) (simp add: bit_simps)
  then show ?thesis using assms
    unfolding novelty_zero_iff by (auto simp: list_ex_length clear_seen_def z)
qed

section \<open>The vector versions of \<open>skim\<close>\<close>

lemma byte_mask_zero:
  assumes "8 * k + 8 \<le> LENGTH('a)"
  shows "(m :: 'a::len word) AND push_bit (8 * k) 0xff = 0 \<longleftrightarrow> byte_at k m = 0"
proof -
  have m: "bit (m AND push_bit (8 * k) 0xff) j \<longleftrightarrow> bit m j \<and> 8 * k \<le> j \<and> j < 8 * k + 8" for j
  proof -
    have ff: "(0xff :: 'a word) = mask 8" by (simp add: mask_eq_exp_minus_1)
    show ?thesis using assms bit_imp_le_length [of m j] unfolding ff
      by (auto simp: bit_simps)
  qed
  show ?thesis
  proof
    assume z: "m AND push_bit (8 * k) 0xff = 0"
    show "byte_at k m = 0"
    proof (rule bit_word_eqI)
      fix j assume "j < LENGTH(8)"
      then show "bit (byte_at k m) j \<longleftrightarrow> bit (0 :: u8) j"
        using m [of "8 * k + j"] unfolding z by (simp add: bit_byte_at)
    qed
  next
    assume b: "byte_at k m = 0"
    show "m AND push_bit (8 * k) 0xff = 0"
    proof (rule bit_word_eqI)
      fix j assume "j < LENGTH('a)"
      have "\<not> bit m j" if "8 * k \<le> j" "j < 8 * k + 8"
        using that bit_byte_at [of k m "j - 8 * k"] unfolding b by simp
      then show "bit (m AND push_bit (8 * k) 0xff) j \<longleftrightarrow> bit (0 :: 'a word) j"
        unfolding m by auto
    qed
  qed
qed

lemma u32_byte_masks:
  "(m :: u32) AND 0xff = 0 \<longleftrightarrow> byte_at 0 m = 0"
  "(m :: u32) AND 0xff00 = 0 \<longleftrightarrow> byte_at 1 m = 0"
  "(m :: u32) AND 0xff0000 = 0 \<longleftrightarrow> byte_at 2 m = 0"
  "(m :: u32) AND 0xff000000 = 0 \<longleftrightarrow> byte_at 3 m = 0"
  using byte_mask_zero [of 0 m] byte_mask_zero [of 1 m] byte_mask_zero [of 2 m] byte_mask_zero [of 3 m]
  by (simp_all add: push_bit_eq_mult)

lemma u32_bytes_eqI:
  assumes "byte_at 0 v = byte_at 0 (w :: u32)" "byte_at 1 v = byte_at 1 w"
    "byte_at 2 v = byte_at 2 w" "byte_at 3 v = byte_at 3 w"
  shows "v = w"
proof (rule word_eq_bytesI [of 4])
  fix k :: nat assume "k < 4"
  then have "k = 0 \<or> k = 1 \<or> k = 2 \<or> k = 3" by linarith
  then show "byte_at k v = byte_at k w" using assms by auto
qed simp

lemma zero_mask256_bytes:
  assumes "k < 4"
  shows "byte_at k (zero_mask256 c) = (if (of_bytes (cell 8 k c) :: u64) = 0 then 0xff else 0)"
  unfolding zero_mask256_def by (subst byte_of_bytes) (use assms in auto)

lemma skim_avx2_eq: "skim_avx2 g v c = skim_loop 8 hot64 g v c"
proof (induction g arbitrary: v c)
  case (Suc g)
  let ?z = "\<lambda>k. (of_bytes (cell 8 k c) :: u64) = 0"
  have ff: "byte_at k (- 1 :: u32) = 0xff" if "k < 4" for k
  proof -
    have "byte_at k (NOT 0 :: u32) = NOT 0" using that by (subst byte_at_not) simp_all
    then show ?thesis by simp
  qed
  have m: "zero_mask256 c = - 1 \<longleftrightarrow> ?z 0 \<and> ?z 1 \<and> ?z 2 \<and> ?z 3"
  proof
    assume "zero_mask256 c = - 1"
    then have "byte_at k (zero_mask256 c) = 0xff" if "k < 4" for k using ff [OF that] by simp
    from this [of 0] this [of 1] this [of 2] this [of 3] show "?z 0 \<and> ?z 1 \<and> ?z 2 \<and> ?z 3"
      by (simp add: zero_mask256_bytes split: if_splits)
  next
    assume z: "?z 0 \<and> ?z 1 \<and> ?z 2 \<and> ?z 3"
    show "zero_mask256 c = - 1"
    proof (rule word_eq_bytesI [of 4])
      fix k :: nat assume k: "k < 4"
      then have "k = 0 \<or> k = 1 \<or> k = 2 \<or> k = 3" by linarith
      then have "?z k" using z by auto
      then show "byte_at k (zero_mask256 c) = byte_at k (- 1 :: u32)"
        unfolding ff [OF k] zero_mask256_bytes [OF k] by (rule if_P)
    qed simp
  qed
  have h: "zero_mask256 c AND 0xff = 0 \<longleftrightarrow> \<not> ?z 0" "zero_mask256 c AND 0xff00 = 0 \<longleftrightarrow> \<not> ?z 1"
    "zero_mask256 c AND 0xff0000 = 0 \<longleftrightarrow> \<not> ?z 2" "zero_mask256 c AND 0xff000000 = 0 \<longleftrightarrow> \<not> ?z 3"
    unfolding u32_byte_masks by (simp_all add: zero_mask256_bytes)
  have hot: "hot64 (cell 8 k v) (cell 8 k c) \<longleftrightarrow> \<not> ?z k \<and> classify_hits (cell 8 k v) (cell 8 k c)" for k
    by (simp add: hot64_def classify_hits_def)
  show ?case unfolding skim_avx2.simps skim_loop.simps Let_def m h hot Suc.IH by auto
qed simp

lemma zero_mask512_bits:
  assumes "k < 8"
  shows "bit (zero_mask512 c) k \<longleftrightarrow> (of_bytes (cell 8 k c) :: u64) = 0"
proof -
  have "bit (fold (\<lambda>k m. if P k then m OR push_bit k 1 else m) ks m0) j \<longleftrightarrow>
      bit (m0 :: u8) j \<or> (j < 8 \<and> j \<in> set ks \<and> P j)" for P ks m0 j
    by (induction ks arbitrary: m0) (auto simp: bit_simps bit_1_iff)
  then show ?thesis using assms by (simp add: zero_mask512_def)
qed

lemma skim_avx512_eq: "skim_avx512 g v c = skim_loop 8 hot64 (2 * g) v c"
proof (induction g arbitrary: v c)
  case (Suc g)
  let ?z = "\<lambda>k. (of_bytes (cell 8 k c) :: u64) = 0"
  have full: "zero_mask512 c = 0xff \<longleftrightarrow> (\<forall>k < 8. ?z k)"
  proof
    have ff: "(0xff :: u8) = mask 8" by (simp add: mask_eq_exp_minus_1)
    { assume "zero_mask512 c = 0xff"
      then have "bit (zero_mask512 c) k" if "k < 8" for k using that unfolding ff by (simp add: bit_simps)
      then show "\<forall>k < 8. ?z k" by (auto simp: zero_mask512_bits) }
    assume "\<forall>k < 8. ?z k"
    then show "zero_mask512 c = 0xff"
      unfolding ff by (intro bit_word_eqI) (auto simp: zero_mask512_bits bit_simps)
  qed
  have hot: "hot64 (cell 8 k v) (cell 8 k c) \<longleftrightarrow> \<not> ?z k \<and> classify_hits (cell 8 k v) (cell 8 k c)" for k
    by (simp add: hot64_def classify_hits_def)
  have up: "list_ex P [0..<8] \<longleftrightarrow> P 0 \<or> P 1 \<or> P 2 \<or> P 3 \<or> P 4 \<or> P 5 \<or> P 6 \<or> P 7" for P
    by (simp add: upt_rec numeral_eq_Suc)
  have ex: "list_ex (\<lambda>k. \<not> bit (zero_mask512 c) k \<and> classify_hits (cell 8 k v) (cell 8 k c)) [0..<8] \<longleftrightarrow>
      list_ex (\<lambda>k. hot64 (cell 8 k v) (cell 8 k c)) [0..<8]"
    unfolding list_ex_iff by (auto simp: hot zero_mask512_bits)
  have later: "cell 8 k (drop 32 x) = cell 8 (k + 4) x" for k x by (simp add: cell_def add.commute)
  have "2 * Suc g = Suc (Suc (2 * g))" by simp
  then have rhs: "skim_loop 8 hot64 (2 * Suc g) v c \<longleftrightarrow>
      list_ex (\<lambda>k. hot64 (cell 8 k v) (cell 8 k c)) [0..<8] \<or> skim_loop 8 hot64 (2 * g) (drop 64 v) (drop 64 c)"
    unfolding up by (simp add: later)
  have none: "\<not> list_ex (\<lambda>k. hot64 (cell 8 k v) (cell 8 k c)) [0..<8]" if "\<forall>k < 8. ?z k"
    using that by (auto simp: list_ex_iff hot)
  show ?case unfolding rhs skim_avx512.simps Let_def full ex Suc.IH using none by auto
qed simp

section \<open>The counting loops count bytes\<close>

text \<open>A loop over cells that adds, for each cell, a count over its bytes.\<close>

lemma cell_count_loop:
  fixes f :: "u32 \<Rightarrow> u32 \<Rightarrow> u32"
  assumes "\<And>v r. f v r = r + of_nat (sum_list (map g (to_bytes 4 v)))"
    and "4 * i \<le> length m"
  shows "fold f (cells32 i m) r = r + of_nat (sum_list (map g (take (4 * i) m)))"
  using assms(2)
proof (induction i arbitrary: m r)
  case (Suc i)
  have l: "length (take 4 m) = 4" "4 * i \<le> length (drop 4 m)" using Suc.prems by auto
  have c: "to_bytes 4 (of_bytes (take 4 m) :: u32) = take 4 m"
    by (rule to_bytes_of_bytes) (use l in simp_all)
  have s: "take (4 * Suc i) m = take 4 m @ take (4 * i) (drop 4 m)" by (simp add: take_add)
  have "fold f (cells32 (Suc i) m) r = fold f (cells32 i (drop 4 m)) (f (of_bytes (take 4 m)) r)"
    by simp
  also have "\<dots> = f (of_bytes (take 4 m)) r + of_nat (sum_list (map g (take (4 * i) (drop 4 m))))"
    by (rule Suc.IH [OF l(2)])
  also have "f (of_bytes (take 4 m)) r = r + of_nat (sum_list (map g (take 4 m)))"
    unfolding assms(1) c ..
  finally show ?case unfolding s by simp
qed simp

lemma to_bytes_4: "to_bytes 4 v = [byte_at 0 v, byte_at 1 v, byte_at 2 v, byte_at 3 v]"
  by (simp add: to_bytes_def upt_rec numeral_eq_Suc)

lemma count_filter_sum: "sum_list (map (\<lambda>b. if P b then 1 else 0) xs) = length (filter P xs)"
  by (induction xs) auto

lemma u32_all_ones: "(v :: u32) = 0xffffffff \<longleftrightarrow>
    byte_at 0 v = 0xff \<and> byte_at 1 v = 0xff \<and> byte_at 2 v = 0xff \<and> byte_at 3 v = 0xff"
proof -
  have "to_bytes 4 (0xffffffff :: u32) = replicate 4 0xff" by code_simp
  then have "byte_at 0 (0xffffffff :: u32) = 0xff" "byte_at 1 (0xffffffff :: u32) = 0xff"
    "byte_at 2 (0xffffffff :: u32) = 0xff" "byte_at 3 (0xffffffff :: u32) = 0xff"
    unfolding to_bytes_4 by (simp_all add: numeral_eq_Suc)
  then show ?thesis by (auto intro!: u32_bytes_eqI)
qed

lemma byte_not_ones: "byte_at k (NOT (v :: u32)) = 0 \<longleftrightarrow> byte_at k v = 0xff" if "k < 4"
proof -
  have "byte_at k (NOT v) = NOT (byte_at k v)" using that by (intro byte_at_not) simp
  moreover have "NOT x = 0 \<longleftrightarrow> x = (0xff :: u8)" for x
  proof -
    have "(0xff :: u8) = NOT 0" by simp
    then show ?thesis by (metis bit.double_compl)
  qed
  ultimately show ?thesis by simp
qed

lemma u32_full_masks:
  "(v :: u32) AND 0xff = 0xff \<longleftrightarrow> byte_at 0 v = 0xff"
  "(v :: u32) AND 0xff00 = 0xff00 \<longleftrightarrow> byte_at 1 v = 0xff"
  "(v :: u32) AND 0xff0000 = 0xff0000 \<longleftrightarrow> byte_at 2 v = 0xff"
  "(v :: u32) AND 0xff000000 = 0xff000000 \<longleftrightarrow> byte_at 3 v = 0xff"
proof -
  have "v AND m = m \<longleftrightarrow> NOT v AND m = 0" for m :: u32
    by (auto simp: bit_eq_iff bit_simps)
  then show "(v :: u32) AND 0xff = 0xff \<longleftrightarrow> byte_at 0 v = 0xff"
    "(v :: u32) AND 0xff00 = 0xff00 \<longleftrightarrow> byte_at 1 v = 0xff"
    "(v :: u32) AND 0xff0000 = 0xff0000 \<longleftrightarrow> byte_at 2 v = 0xff"
    "(v :: u32) AND 0xff000000 = 0xff000000 \<longleftrightarrow> byte_at 3 v = 0xff"
    using byte_not_ones [of _ v] unfolding u32_byte_masks [symmetric] by (auto simp: u32_byte_masks)
qed

lemma count_bytes_eq:
  assumes "cov_ok afl" and "length mem = unat (map_size afl)"
  shows "unat (count_bytes afl mem) = length (filter (\<lambda>b. b \<noteq> 0) (take (scanned False afl) mem))"
    and "unat (count_non_255_bytes afl mem) = length (filter (\<lambda>b. b \<noteq> 0xff) (take (scanned False afl) mem))"
proof -
  let ?i = "unat (drop_bit 2 (real_map_size afl + 3))"
  note c = cells_of_map(2) [OF assms(1)]
  have i: "4 * ?i \<le> length mem" unfolding c assms(2) by (rule cov_ok_bound(2) [OF assms(1)])
  have small: "length (filter P (take (scanned False afl) mem)) < 4294967296" for P
  proof -
    have "length (filter P (take (scanned False afl) mem)) \<le> length mem"
      by (rule order_trans [OF length_filter_le]) simp
    moreover have "unat (map_size afl) < 4294967296" using unsigned_less [of "map_size afl"] by simp
    ultimately show ?thesis using assms(2) by linarith
  qed
  have "count_bytes afl mem =
      0 + of_nat (sum_list (map (\<lambda>b. if b \<noteq> 0 then 1 else 0) (take (4 * ?i) mem)))"
    unfolding count_bytes_def
  proof (rule cell_count_loop [OF _ i])
    fix v r :: u32
    show "(if v = 0 then r else
         let ret = (if v AND 0x000000ff \<noteq> 0 then r + 1 else r);
             ret = (if v AND 0x0000ff00 \<noteq> 0 then ret + 1 else ret);
             ret = (if v AND 0x00ff0000 \<noteq> 0 then ret + 1 else ret)
         in if v AND 0xff000000 \<noteq> 0 then ret + 1 else ret) =
       r + of_nat (sum_list (map (\<lambda>b. if b \<noteq> 0 then 1 else 0) (to_bytes 4 v)))"
      by (cases "v = 0") (simp_all add: Let_def to_bytes_4 u32_byte_masks)
  qed
  then show "unat (count_bytes afl mem) = length (filter (\<lambda>b. b \<noteq> 0) (take (scanned False afl) mem))"
    using small by (simp add: count_filter_sum c unsigned_of_nat take_bit_eq_mod)
  have "count_non_255_bytes afl mem =
      0 + of_nat (sum_list (map (\<lambda>b. if b \<noteq> 0xff then 1 else 0) (take (4 * ?i) mem)))"
    unfolding count_non_255_bytes_def
  proof (rule cell_count_loop [OF _ i])
    fix v r :: u32
    show "(if v = 0xffffffff then r else
         let ret = (if v AND 0x000000ff \<noteq> 0x000000ff then r + 1 else r);
             ret = (if v AND 0x0000ff00 \<noteq> 0x0000ff00 then ret + 1 else ret);
             ret = (if v AND 0x00ff0000 \<noteq> 0x00ff0000 then ret + 1 else ret)
         in if v AND 0xff000000 \<noteq> 0xff000000 then ret + 1 else ret) =
       r + of_nat (sum_list (map (\<lambda>b. if b \<noteq> 0xff then 1 else 0) (to_bytes 4 v)))"
    proof (cases "v = 0xffffffff")
      case True
      then have "to_bytes 4 v = [0xff, 0xff, 0xff, 0xff]" unfolding u32_all_ones to_bytes_4 by simp
      then show ?thesis unfolding if_P [OF True] by simp
    next
      case False
      then show ?thesis unfolding if_not_P [OF False] u32_full_masks to_bytes_4 by (simp add: Let_def)
    qed
  qed
  then show "unat (count_non_255_bytes afl mem) =
      length (filter (\<lambda>b. b \<noteq> 0xff) (take (scanned False afl) mem))"
    using small by (simp add: count_filter_sum c unsigned_of_nat take_bit_eq_mod)
qed

definition byte_popcount :: "u8 \<Rightarrow> nat" where
  "byte_popcount b = length (filter (bit b) [0..<8])"

lemma popcount_bytes:
  "length (filter (bit (v :: u32)) [0..<32]) = sum_list (map byte_popcount (to_bytes 4 v))"
proof -
  have seg: "length (filter (bit v) [8 * k..<8 * k + 8]) = byte_popcount (byte_at k v)" for k
  proof -
    have m: "[8 * k..<8 * k + 8] = map (\<lambda>i. i + 8 * k) [0..<8]"
      using map_add_upt [of "8 * k" 8] by (simp add: add.commute)
    have f: "filter (bit v \<circ> (\<lambda>i. i + 8 * k)) [0..<8] = filter (bit (byte_at k v)) [0..<8]"
      by (rule filter_cong) (auto simp: bit_byte_at add.commute)
    show ?thesis unfolding m filter_map length_map f byte_popcount_def ..
  qed
  have up: "[0..<32] = [0..<8] @ [8..<16] @ [16..<24] @ [24..<32::nat]"
    using upt_add_eq_append [of 0 8 24] upt_add_eq_append [of 8 16 16] upt_add_eq_append [of 16 24 8]
    by simp
  have "length (filter (bit v) [0..<32]) = length (filter (bit v) [0..<8]) +
      length (filter (bit v) [8..<16]) + length (filter (bit v) [16..<24]) +
      length (filter (bit v) [24..<32])"
    unfolding up filter_append length_append by simp
  then show ?thesis unfolding to_bytes_4 using seg [of 0] seg [of 1] seg [of 2] seg [of 3] by simp
qed

lemma byte_popcount_ff: "byte_popcount 0xff = 8"
proof -
  have "(0xff :: u8) = NOT 0" by simp
  then show ?thesis unfolding byte_popcount_def by (simp only: bit_not_iff) simp
qed

lemma all_ones_bytes: "to_bytes 4 (0xffffffff :: u32) = [0xff, 0xff, 0xff, 0xff]"
  using u32_all_ones [THEN iffD1, OF refl] unfolding to_bytes_4 by blast

lemma byte_popcount_le: "byte_popcount b \<le> 8"
  unfolding byte_popcount_def by (rule order_trans [OF length_filter_le]) simp

lemma count_bits_eq:
  assumes "cov_ok afl" and "length mem = unat (map_size afl)" and "unat (map_size afl) < 2 ^ 29"
  shows "unat (count_bits afl mem) = sum_list (map byte_popcount (take (scanned False afl) mem))"
proof -
  let ?i = "unat (drop_bit 2 (real_map_size afl + 3))"
  note c = cells_of_map(2) [OF assms(1)]
  have i: "4 * ?i \<le> length mem" unfolding c assms(2) by (rule cov_ok_bound(2) [OF assms(1)])
  have ones: "builtin_popcount 0xffffffff = 32"
    unfolding builtin_popcount_def popcount_bytes all_ones_bytes by (simp add: byte_popcount_ff)
  have "count_bits afl mem = 0 + of_nat (sum_list (map byte_popcount (take (4 * ?i) mem)))"
    unfolding count_bits_def
  proof (rule cell_count_loop [OF _ i])
    fix v r :: u32
    have p: "builtin_popcount v = of_nat (sum_list (map byte_popcount (to_bytes 4 v)))"
      unfolding builtin_popcount_def popcount_bytes ..
    show "(if v = 0xffffffff then r + 32 else r + builtin_popcount v) =
        r + of_nat (sum_list (map byte_popcount (to_bytes 4 v)))"
      unfolding p [symmetric] using ones by (cases "v = 0xffffffff") (simp_all only: if_True if_False simp_thms)
  qed
  moreover have "sum_list (map byte_popcount xs) \<le> 8 * length xs" for xs
    using byte_popcount_le by (induction xs) (auto intro: add_mono)
  from this [of "take (scanned False afl) mem"]
  have "sum_list (map byte_popcount (take (scanned False afl) mem)) < 4294967296"
    using assms(2,3) by (simp add: min_def split: if_splits)
  ultimately show ?thesis by (simp add: c unsigned_of_nat take_bit_eq_mod)
qed

lemma set_bit_step:
  fixes d :: bytes
  assumes "n div 8 < length d" and "j < length d" and "b < 8"
  shows "bit ((if P then d[n div 8 := d ! (n div 8) OR push_bit (n mod 8) 1] else d) ! j) b \<longleftrightarrow>
    bit (d ! j) b \<or> 8 * j + b = n \<and> P"
proof -
  have "8 * j + b = n \<longleftrightarrow> n div 8 = j \<and> b = n mod 8" using assms(3) by auto
  then show ?thesis using assms
    by (cases P; cases "n div 8 = j") (auto simp: bit_simps bit_1_iff)
qed

lemma minimize_prefix:
  fixes dst :: bytes
  assumes "n \<le> 8 * length dst"
  shows "length (fold (\<lambda>i dst. if src ! i \<noteq> 0
        then dst[i div 8 := dst ! (i div 8) OR push_bit (i mod 8) 1] else dst) [0..<n] dst) = length dst \<and>
    (\<forall>j < length dst. \<forall>b < 8. bit (fold (\<lambda>i dst. if src ! i \<noteq> 0
        then dst[i div 8 := dst ! (i div 8) OR push_bit (i mod 8) 1] else dst) [0..<n] dst ! j) b \<longleftrightarrow>
      bit (dst ! j) b \<or> 8 * j + b < n \<and> src ! (8 * j + b) \<noteq> (0 :: u8))"
  using assms
proof (induction n)
  case (Suc n)
  let ?d = "fold (\<lambda>i dst. if src ! i \<noteq> 0
        then dst[i div 8 := dst ! (i div 8) OR push_bit (i mod 8) 1] else dst) [0..<n] dst"
  have IH: "length ?d = length dst" "\<And>j b. j < length dst \<Longrightarrow> b < 8 \<Longrightarrow>
      bit (?d ! j) b \<longleftrightarrow> bit (dst ! j) b \<or> 8 * j + b < n \<and> src ! (8 * j + b) \<noteq> 0"
    using Suc by auto
  have "n div 8 < length ?d" using Suc.prems IH(1) by linarith
  note step = set_bit_step [OF this, of _ _ "src ! n \<noteq> 0"]
  have "bit ((if src ! n \<noteq> 0 then ?d[n div 8 := ?d ! (n div 8) OR push_bit (n mod 8) 1] else ?d) ! j) b \<longleftrightarrow>
      bit (dst ! j) b \<or> 8 * j + b < Suc n \<and> src ! (8 * j + b) \<noteq> 0"
    if "j < length dst" "b < 8" for j b
    using step [of j b] that IH unfolding less_Suc_eq by (auto simp only: IH(1) IH(2) [OF that])
  then show ?case using IH(1) by simp
qed simp


section \<open>Properties\<close>

text \<open>
  C12 \<open>classify_counts\<close>, which works on half-words through the 65536-entry table that
  \<open>init_count_class16\<close> builds, replaces every byte of the trace by its hit-count class and
  nothing else, in the 64-bit and in the 32-bit build alike.
\<close>

theorem classify_counts_bytewise:
  assumes "cov_ok afl"
  shows "classify_counts w64 afl = afl\<lparr>trace_bits := map count_class_lookup8 (trace_bits afl)\<rparr> \<and>
    init_count_class16 table = count_class16"
  using classify_counts_eq [OF assms, of w64] init_count_class16_eq [of table]
  by (simp add: classify_counts_def)

definition blank_cov :: "bytes \<Rightarrow> cov_st" where
  "blank_cov trace = \<lparr>trace_bits = trace, map_size = 64, real_map_size = 60,
     virgin_bits = replicate 64 0xff, virgin_tmout = replicate 64 0xff,
     virgin_crash = replicate 64 0xff, bitmap_changed = False\<rparr>"

lemma blank_cov_ok: "length trace = 64 \<Longrightarrow> cov_ok (blank_cov trace)"
proof -
  assume t: "length trace = 64"
  have "length (virgin_of vm (blank_cov trace)) = 64" for vm
    by (cases vm) (simp_all add: blank_cov_def)
  then show ?thesis using t by (simp add: cov_ok_def) (simp add: blank_cov_def)
qed

theorem classify_counts_bytewise_witness:
  "trace_bits (classify_counts True (blank_cov (replicate 64 5))) = replicate 64 8"
proof -
  have "cov_ok (blank_cov (replicate 64 5))" by (rule blank_cov_ok) simp
  moreover have "count_class_lookup8 5 = 8" by code_simp
  ultimately show ?thesis
    using classify_counts_bytewise [of "blank_cov (replicate 64 5)" True] by (simp add: blank_cov_def)
qed

text \<open>
  C11 \<open>has_new_bits\<close> answers 2 if a hit byte is still pristine in the virgin map, 1 if only new
  hit-count bits show up, 0 otherwise; it clears exactly the bits seen, leaves the other virgin
  maps and the bytes behind the scanned words alone, and notes a changed bitmap exactly when
  something was found in \<open>virgin_bits\<close>. Both builds scan to the end of the last word.
\<close>

theorem has_new_bits_bytewise:
  assumes "cov_ok afl" and "n = scanned w64 afl" and "has_new_bits w64 afl vm = (ret, afl')"
  shows "ret = novelty (take n (trace_bits afl)) (take n (virgin_of vm afl)) \<and>
    virgin_of vm afl' =
      clear_seen (take n (trace_bits afl)) (take n (virgin_of vm afl)) @ drop n (virgin_of vm afl) \<and>
    (\<forall>vm'. vm' \<noteq> vm \<longrightarrow> virgin_of vm' afl' = virgin_of vm' afl) \<and>
    trace_bits afl' = trace_bits afl \<and>
    (bitmap_changed afl' \<longleftrightarrow> bitmap_changed afl \<or> (ret \<noteq> 0 \<and> vm = VIRGIN_BITS))"
  using has_new_bits_eq [OF assms(1,2) refl refl, of vm] assms(3) by auto

theorem has_new_bits_bytewise_witness:
  "fst (has_new_bits True (blank_cov (replicate 64 1)) VIRGIN_CRASH) = 2"
proof -
  have ok: "cov_ok (blank_cov (replicate 64 1))" by (rule blank_cov_ok) simp
  obtain r s where h: "has_new_bits True (blank_cov (replicate 64 1)) VIRGIN_CRASH = (r, s)" by force
  have "novelty (replicate n 1) (replicate n 0xff) = 2" if "n \<noteq> 0" for n
    using that by (cases n) (auto simp: novelty_def)
  moreover have "scanned True (blank_cov (replicate 64 1)) = 64"
    by (simp add: scanned_def blank_cov_def)
  ultimately show ?thesis
    using has_new_bits_bytewise [OF ok refl h] h by (simp add: blank_cov_def)
qed

text \<open>
  \<open>has_new_bits\<close> updates the map so that nothing is reported twice: calling it again on the
  same trace answers 0 and changes nothing.
\<close>

theorem has_new_bits_once:
  assumes "cov_ok afl" and "has_new_bits w64 afl vm = (ret, afl')"
  shows "has_new_bits w64 afl' vm = (0, afl')"
proof -
  let ?n = "scanned w64 afl" and ?t = "trace_bits afl" and ?v = "virgin_of vm afl"
  have n: "?n \<le> unat (map_size afl)" by (rule cov_ok_bound(2) [OF assms(1)])
  have len: "length ?t = unat (map_size afl)" "length ?v = unat (map_size afl)"
    using assms(1) by (simp_all add: cov_ok_def)
  let ?w = "clear_seen (take ?n ?t) (take ?n ?v) @ drop ?n ?v"
  have cl: "length (clear_seen (take ?n ?t) (take ?n ?v)) = ?n"
    using n len by (simp add: clear_seen_def)
  obtain b where a: "afl' = (set_virgin vm ?w afl)\<lparr>bitmap_changed := b\<rparr>"
    using has_new_bits_eq [OF assms(1) refl refl refl, of w64 vm] assms(2) by auto
  have ok: "cov_ok afl'"
  proof -
    have "length (virgin_of vm' afl') = unat (map_size afl)" for vm'
      using assms(1) cl len n by (cases "vm' = vm") (simp_all add: a cov_ok_def)
    then show ?thesis using assms(1) by (simp add: cov_ok_def a)
  qed
  have s: "scanned w64 afl' = ?n" by (simp add: scanned_def a)
  have z: "novelty (take ?n ?t) (clear_seen (take ?n ?t) (take ?n ?v)) = 0"
    using n len by (intro novelty_cleared) simp
  have c: "clear_seen (take ?n ?t) (clear_seen (take ?n ?t) (take ?n ?v)) =
      clear_seen (take ?n ?t) (take ?n ?v)"
    using z cl n len by (intro clear_seen_id) (simp_all add: novelty_zero_iff)
  have "(set_virgin vm ?w afl')\<lparr>bitmap_changed := bitmap_changed afl'\<rparr> = afl'"
    by (cases vm) (simp_all add: a)
  then show ?thesis
    using has_new_bits_eq [OF ok refl refl refl, of w64 vm] z c cl by (simp add: s) (simp add: a)
qed

theorem has_new_bits_once_witness:
  "fst (has_new_bits False (snd (has_new_bits False (blank_cov (replicate 64 1)) VIRGIN_BITS)) VIRGIN_BITS) = 0"
  using has_new_bits_once [OF blank_cov_ok prod.collapse [symmetric], of "replicate 64 1" False VIRGIN_BITS]
  by simp

text \<open>
  The one-pass shortcut \<open>has_new_bits_unclassified\<close> agrees with the slow path: when the trace
  is zero behind its real size, its answer and the virgin map it leaves are those of
  \<open>has_new_bits\<close> after \<open>classify_counts\<close>, and it keeps the raw trace exactly if the answer is 0.
\<close>

theorem unclassified_agrees:
  assumes "cov_ok afl" and "drop (scanned w64 afl) (trace_bits afl) =
      replicate (unat (map_size afl) - scanned w64 afl) 0"
    and "has_new_bits w64 (classify_counts w64 afl) vm = (ret, slow)"
    and "has_new_bits_unclassified w64 afl vm False = (ret', classified, fast)"
  shows "ret' = ret \<and> virgin_of vm fast = virgin_of vm slow \<and> (classified \<longleftrightarrow> ret \<noteq> 0) \<and>
    trace_bits fast = (if ret = 0 then trace_bits afl else map count_class_lookup8 (trace_bits afl))"
proof -
  let ?n = "scanned w64 afl" and ?v = "virgin_of vm afl"
  let ?t = "map count_class_lookup8 (trace_bits afl)"
  note c = classify_counts_eq [OF assms(1), of w64]
  have len: "length (trace_bits afl) = unat (map_size afl)" "length ?v = unat (map_size afl)"
    "64 dvd unat (map_size afl)" using assms(1) by (simp_all add: cov_ok_def)
  have slow: "ret = novelty (take ?n ?t) (take ?n ?v)"
    "virgin_of vm slow = clear_seen (take ?n ?t) (take ?n ?v) @ drop ?n ?v" "trace_bits slow = ?t"
    using has_new_bits_eq [OF classify_counts_ok [OF assms(1)] refl refl refl, of w64 w64 vm] assms(3) c
    by auto
  have tail: "drop ?n ?t = replicate (unat (map_size afl) - ?n) 0"
    using assms(2) by (simp add: drop_map)
  let ?P = "\<lambda>(c :: u8, v). c AND v \<noteq> 0"
  have "zip ?t ?v = zip (take ?n ?t) (take ?n ?v) @ zip (drop ?n ?t) (drop ?n ?v)"
    using zip_append [of "take ?n ?t" "take ?n ?v" "drop ?n ?t" "drop ?n ?v"] len by simp
  moreover have "\<not> list_ex ?P (zip (drop ?n ?t) (drop ?n ?v))"
    unfolding tail by (auto simp: list_ex_iff dest: set_zip_leftD)
  ultimately have all: "list_ex ?P (zip ?t ?v) \<longleftrightarrow> list_ex ?P (zip (take ?n ?t) (take ?n ?v))"
    by simp
  have skim: "skim w64 ?v (trace_bits afl) (unat (map_size afl)) \<longleftrightarrow> ret \<noteq> 0"
    unfolding skim_eq [OF len(3,2,1)] slow(1) novelty_zero_iff all [symmetric]
    by (simp add: zip_map1 list_ex_iff split_beta)
  show ?thesis
  proof (cases "ret = 0")
    case True
    then have "\<not> list_ex ?P (zip (take ?n ?t) (take ?n ?v))" using slow(1) novelty_zero_iff by metis
    then have "clear_seen (take ?n ?t) (take ?n ?v) = take ?n ?v"
      using len by (intro clear_seen_id) simp_all
    then show ?thesis using True skim assms(4) slow by (simp add: has_new_bits_unclassified_def)
  next
    case False
    then show ?thesis using skim assms(3,4) slow by (simp add: has_new_bits_unclassified_def)
  qed
qed

theorem unclassified_agrees_witness:
  "fst (has_new_bits_unclassified True (blank_cov (replicate 64 0)) VIRGIN_BITS False) = 0"
proof -
  let ?s = "blank_cov (replicate 64 0)"
  have ok: "cov_ok ?s" by (rule blank_cov_ok) simp
  have t: "drop (scanned True ?s) (trace_bits ?s) = replicate (unat (map_size ?s) - scanned True ?s) 0"
    by (simp add: scanned_def blank_cov_def)
  obtain r s where h: "has_new_bits True (classify_counts True ?s) VIRGIN_BITS = (r, s)" by force
  obtain r' b f where u: "has_new_bits_unclassified True ?s VIRGIN_BITS False = (r', b, f)"
    by (metis prod_cases3)
  have "\<not> list_ex (\<lambda>(c, v). count_class_lookup8 c AND v \<noteq> 0) (zip (replicate 64 0) (replicate 64 0xff))"
    by (simp add: zip_replicate list_ex_iff)
  then have "\<not> skim True (virgin_of VIRGIN_BITS ?s) (trace_bits ?s) 64"
    using skim_eq [of 64 "virgin_of VIRGIN_BITS ?s" "trace_bits ?s" True] by (simp add: blank_cov_def)
  then have "\<not> b" using u by (simp add: has_new_bits_unclassified_def blank_cov_def)
  then show ?thesis using unclassified_agrees [OF ok t h u] u by simp
qed

text \<open>
  The three versions of \<open>skim\<close> (portable, AVX2, AVX-512) find new bits in the same traces.
\<close>

theorem skim_versions_agree:
  "skim_avx2 (2 * g) virgin current = skim_loop 8 hot64 (2 * g) virgin current \<and>
   skim_avx512 g virgin current = skim_loop 8 hot64 (2 * g) virgin current"
  using skim_avx2_eq skim_avx512_eq by blast

text \<open>
  The statistics loops count what they say: \<open>count_bytes\<close> the bytes that are not 0,
  \<open>count_non_255_bytes\<close> those that are not 255, \<open>count_bits\<close> the bits that are set, over the
  real map size rounded up to whole 32-bit words, without overflow for maps below 512 MB.
\<close>

theorem counts_exact:
  assumes "cov_ok afl" and "length mem = unat (map_size afl)" and "unat (map_size afl) < 2 ^ 29"
    and "m = take (scanned False afl) mem"
  shows "unat (count_bytes afl mem) = length (filter (\<lambda>b. b \<noteq> 0) m) \<and>
    unat (count_non_255_bytes afl mem) = length (filter (\<lambda>b. b \<noteq> 0xff) m) \<and>
    unat (count_bits afl mem) = sum_list (map byte_popcount m)"
  using count_bytes_eq [OF assms(1,2)] count_bits_eq [OF assms(1-3)] assms(4) by simp

theorem counts_exact_witness:
  "unat (count_bytes (blank_cov (replicate 64 1)) (replicate 64 3)) = 60"
proof -
  have "cov_ok (blank_cov (replicate 64 1))" by (rule blank_cov_ok) simp
  from counts_exact [OF this _ _ refl, of "replicate 64 3"] show ?thesis
    by (simp add: blank_cov_def scanned_def)
qed

text \<open>
  \<open>minimize_bits\<close> sets bit \<open>i mod 8\<close> of byte \<open>i div 8\<close> exactly for the non-zero bytes \<open>i\<close> of the
  map, keeps the bits that were set, and stays within a bitmap of \<open>map_size / 8\<close> bytes.
\<close>

theorem minimize_bits_exact:
  assumes "unat (map_size afl) \<le> 8 * length dst"
  shows "length (minimize_bits afl dst src) = length dst \<and>
    (\<forall>j < length dst. \<forall>b < 8. bit (minimize_bits afl dst src ! j) b \<longleftrightarrow>
      bit (dst ! j) b \<or> 8 * j + b < unat (map_size afl) \<and> src ! (8 * j + b) \<noteq> 0)"
  unfolding minimize_bits_def by (rule minimize_prefix [OF assms])

theorem minimize_bits_exact_witness:
  "bit (minimize_bits (blank_cov []) (replicate 8 0) (replicate 64 1) ! 1) 3"
  using minimize_bits_exact [of "blank_cov []" "replicate 8 0" "replicate 64 1"]
  by (simp add: blank_cov_def)

end
