(* ===== verification/Queue.thy ===== *)
theory Queue
  imports Rand Coverage Json "HOL-Library.Multiset"
begin

text \<open>
  The corpus queue of \<open>src/src/afl-fuzz-queue.c\<close>: the entries, appending one, the text detector,
  and the favoured set. The favoured set is chosen in two steps: every map byte has a top-rated
  entry, the cheapest that reached it (\<open>update_bitmap_score\<close>), and \<open>cull_queue\<close> marks as favoured
  enough of these to cover every byte.
\<close>

section \<open>State\<close>

text \<open>An entry is referred to by its \<open>id\<close>, its position in \<open>queue_buf\<close>.\<close>

type_synonym qid = nat

record queue_entry =
  fname :: c_string
  q_len :: u32
  q_id :: u32
  cal_failed :: u8
  trim_done :: bool
  was_fuzzed :: bool
  passed_det :: bool
  has_new_cov :: bool
  var_behavior :: bool
  favored :: bool
  fs_redundant :: bool
  is_ascii :: bool
  disabled :: bool
  bitmap_size :: u32
  fuzz_level :: u32
  n_fuzz_entry :: u32
  exec_us :: u64
  handicap :: u64
  depth :: u64
  exec_cksum :: u64
  tc_ref :: u32
  ss_cov_cnt :: u64
  ss_selected_cnt :: u64
  ss_prob :: real
  perf_score :: real
  weight :: real
  mother :: "qid ptr"
  trace_mini :: "bytes ptr"
  testcase_buf :: "bytes ptr"

datatype power_schedule = EXPLORE | MMOPT | EXPLOIT | FAST | COE | LIN | QUAD | RARE | SEEK

fun schedule_no :: "power_schedule \<Rightarrow> nat" where
  "schedule_no EXPLORE = 0"
| "schedule_no MMOPT = 1"
| "schedule_no EXPLOIT = 2"
| "schedule_no FAST = 3"
| "schedule_no COE = 4"
| "schedule_no LIN = 5"
| "schedule_no QUAD = 6"
| "schedule_no RARE = 7"
| "schedule_no SEEK = 8"

record afl_queue = cov_st +
  queue_buf :: "queue_entry list"
  queue_cur :: "qid ptr"
  queued_items :: u32
  active_items :: u32
  pending_not_fuzzed :: u32
  queued_favored :: u32
  pending_favored :: u32
  smallest_favored :: int
  ready_for_splicing_count :: u32
  cur_depth :: u32
  max_depth :: u32
  cycles_wo_finds :: u64
  start_time :: u64
  last_find_time :: u64
  longest_find_time :: u64
  schedule :: power_schedule
  q_fixed_seed :: bool
  n_fuzz :: "u32 list"
  top_rated :: "qid ptr list"
  top_rated_candidates :: "u32 list list"
  last_scored_idx :: int
  map_tmp_buf :: bytes
  score_changed :: bool
  non_instrumented_mode :: bool
  reinit_table :: bool
  afl_disable_redundant :: bool
  cmplog_mode :: bool

definition entry :: "'a afl_queue_scheme \<Rightarrow> qid \<Rightarrow> queue_entry" where
  "entry afl q = queue_buf afl ! q"

definition set_entry :: "qid \<Rightarrow> (queue_entry \<Rightarrow> queue_entry) \<Rightarrow> 'a afl_queue_scheme \<Rightarrow> 'a afl_queue_scheme" where
  "set_entry q f afl = afl\<lparr>queue_buf := (queue_buf afl)[q := f (entry afl q)]\<rparr>"

section \<open>Markers\<close>

text \<open>The marker file is created first; when that fails the program ends.\<close>

definition mark_as_det_done :: "bool \<Rightarrow> qid \<Rightarrow> 'a afl_queue_scheme \<Rightarrow> 'a afl_queue_scheme option" where
  "mark_as_det_done created q afl =
     (if created then Some (set_entry q (\<lambda>e. e\<lparr>passed_det := True\<rparr>) afl) else None)"

definition mark_as_redundant :: "qid \<Rightarrow> bool \<Rightarrow> 'a afl_queue_scheme \<Rightarrow> 'a afl_queue_scheme" where
  "mark_as_redundant q state afl =
     (if state = fs_redundant (entry afl q) then afl
      else
        let afl = set_entry q (\<lambda>e. e\<lparr>fs_redundant := state\<rparr>) afl;
            afl = (if state then set_entry q (\<lambda>e. e\<lparr>trace_mini := None\<rparr>) afl else afl)
        in if state \<and> afl_disable_redundant afl
           then set_entry q (\<lambda>e. e\<lparr>disabled := True\<rparr>) afl else afl)"

section \<open>Text detection\<close>

text \<open>The tests of one byte, and the length of the multi-byte sequence at the head, 0 for none.\<close>

definition text_byte :: "u8 \<Rightarrow> bool" where
  "text_byte b \<longleftrightarrow> b = 0x09 \<or> b = 0x0A \<or> b = 0x0D \<or> 0x20 \<le> b \<and> b \<le> 0x7E"

text \<open>\<open>isascii (b) || isprint (b)\<close>, in the C locale.\<close>

definition ascii_byte :: "u8 \<Rightarrow> bool" where
  "ascii_byte b \<longleftrightarrow> b \<le> 0x7F"

definition cont_byte :: "u8 \<Rightarrow> u8 \<Rightarrow> u8 \<Rightarrow> bool" where
  "cont_byte lo hi b \<longleftrightarrow> lo \<le> b \<and> b \<le> hi"

fun utf8_two :: "bytes \<Rightarrow> bool" where
  "utf8_two (a # b # _) \<longleftrightarrow> cont_byte 0xC2 0xDF a \<and> cont_byte 0x80 0xBF b"
| "utf8_two _ = False"

fun utf8_three :: "bytes \<Rightarrow> bool" where
  "utf8_three (a # b # c # _) \<longleftrightarrow>
     a = 0xE0 \<and> cont_byte 0xA0 0xBF b \<and> cont_byte 0x80 0xBF c \<or>
     (cont_byte 0xE1 0xEC a \<or> a = 0xEE \<or> a = 0xEF) \<and> cont_byte 0x80 0xBF b \<and> cont_byte 0x80 0xBF c \<or>
     a = 0xED \<and> cont_byte 0x80 0x9F b \<and> cont_byte 0x80 0xBF c"
| "utf8_three _ = False"

fun utf8_four :: "bytes \<Rightarrow> bool" where
  "utf8_four (a # b # c # d # _) \<longleftrightarrow>
     a = 0xF0 \<and> cont_byte 0x90 0xBF b \<and> cont_byte 0x80 0xBF c \<and> cont_byte 0x80 0xBF d \<or>
     cont_byte 0xF1 0xF3 a \<and> cont_byte 0x80 0xBF b \<and> cont_byte 0x80 0xBF c \<and> cont_byte 0x80 0xBF d \<or>
     a = 0xF4 \<and> cont_byte 0x80 0x8F b \<and> cont_byte 0x80 0xBF c \<and> cont_byte 0x80 0xBF d"
| "utf8_four _ = False"

text \<open>
  The loop over the buffer: the counters of ASCII bytes and of UTF-8 characters, and the number
  of continuation bytes, by which \<open>check_if_text\<close> lowers \<open>comp\<close>.
\<close>

function text_scan :: "bytes \<Rightarrow> u32 \<times> u32 \<times> nat \<Rightarrow> u32 \<times> u32 \<times> nat" where
  "text_scan [] s = s"
| "text_scan (b # bs) (ascii, utf8, conts) =
     (if text_byte b then text_scan bs (ascii + 1, utf8 + 1, conts)
      else
        let ascii = (if ascii_byte b then ascii + 1 else ascii)
        in if utf8_two (b # bs) then text_scan (drop 1 bs) (ascii, utf8 + 1, conts + 1)
           else if utf8_three (b # bs) then text_scan (drop 2 bs) (ascii, utf8 + 1, conts + 2)
           else if utf8_four (b # bs) then text_scan (drop 3 bs) (ascii, utf8 + 1, conts + 3)
           else text_scan bs (ascii, utf8, conts))"
  by pat_completeness auto
termination by (relation "measure (length \<circ> fst)") auto

definition check_if_text_buf :: "bytes \<Rightarrow> u8" where
  "check_if_text_buf buf =
     (let (ascii, utf8, _) = text_scan buf (0, 0, 0)
      in ucast (if utf8 > ascii then utf8 else ascii))"

abbreviation (input) AFL_TXT_MIN_LEN :: u32 where "AFL_TXT_MIN_LEN \<equiv> 12"
abbreviation (input) AFL_TXT_MAX_LEN :: u32 where "AFL_TXT_MAX_LEN \<equiv> 65535"
abbreviation (input) AFL_TXT_MIN_PERCENT :: u32 where "AFL_TXT_MIN_PERCENT \<equiv> 99"

text \<open>
  \<open>contents\<close> is what the file holds, \<open>None\<close> if it does not open. \<open>MAX_FILE\<close> is above the maximal
  length, so its cut never applies. A read of fewer bytes than the length is given up. The
  division \<open>(utf8 * 100) / comp\<close> is of a \<open>u32\<close> by a \<open>ssize_t\<close> and stored in a \<open>u32\<close>.
\<close>

definition check_if_text :: "bytes option \<Rightarrow> queue_entry \<Rightarrow> u8" where
  "check_if_text contents q =
     (if q_len q < AFL_TXT_MIN_LEN \<or> q_len q > AFL_TXT_MAX_LEN then 0
      else case contents of
        None \<Rightarrow> 0
      | Some file_bytes \<Rightarrow>
          let len = unat (q_len q); buf = take len file_bytes
          in if length buf \<noteq> len then 0
             else
               let (ascii, utf8, conts) = text_scan buf (0, 0, 0);
                   comp = len - conts;
                   percent_utf8 = of_nat (unat (utf8 * 100) div comp) :: u32;
                   percent_ascii = (ascii * 100) div q_len q
               in if percent_utf8 \<ge> percent_ascii \<and> percent_utf8 \<ge> AFL_TXT_MIN_PERCENT then 2
                  else if percent_ascii \<ge> AFL_TXT_MIN_PERCENT then 1 else 0)"

section \<open>Appending an entry\<close>

definition new_entry :: "'a afl_queue_scheme \<Rightarrow> c_string \<Rightarrow> u32 \<Rightarrow> bool \<Rightarrow> queue_entry" where
  "new_entry afl fn len passed =
     \<lparr>fname = fn, q_len = len, q_id = queued_items afl, cal_failed = 0, trim_done = False,
      was_fuzzed = False, passed_det = passed, has_new_cov = False, var_behavior = False,
      favored = False, fs_redundant = False, is_ascii = False, disabled = False, bitmap_size = 0,
      fuzz_level = 0, n_fuzz_entry = 0, exec_us = 0, handicap = 0,
      depth = ucast (cur_depth afl + 1), exec_cksum = 0, tc_ref = 0, ss_cov_cnt = 0,
      ss_selected_cnt = 0, ss_prob = 1, perf_score = 100, weight = 1, mother = queue_cur afl,
      trace_mini = None, testcase_buf = None\<rparr>"

text \<open>
  \<open>cur_time\<close> is the clock and \<open>contents\<close> the new file, which only the text check reads. The
  notification of the custom mutators does not touch this state.
\<close>

definition add_to_queue :: "u64 \<Rightarrow> bytes option \<Rightarrow> c_string \<Rightarrow> u32 \<Rightarrow> bool \<Rightarrow> 'a afl_queue_scheme \<Rightarrow>
    'a afl_queue_scheme" where
  "add_to_queue cur_time contents fn len passed afl =
     (let q = new_entry afl fn len passed;
          q = (if cmplog_mode afl \<and> \<not> is_ascii q then q\<lparr>is_ascii := check_if_text contents q \<noteq> 0\<rparr> else q);
          longest = (if start_time afl \<noteq> 0 \<and> longest_find_time afl < cur_time - last_find_time afl
                     then (if last_find_time afl = 0 then cur_time - start_time afl
                           else cur_time - last_find_time afl)
                     else longest_find_time afl)
      in afl\<lparr>max_depth := (if depth q > ucast (max_depth afl) then ucast (depth q) else max_depth afl),
             ready_for_splicing_count := (if q_len q > 4 then ready_for_splicing_count afl + 1
                                          else ready_for_splicing_count afl),
             queued_items := queued_items afl + 1,
             active_items := active_items afl + 1,
             pending_not_fuzzed := pending_not_fuzzed afl + 1,
             cycles_wo_finds := 0,
             queue_buf := queue_buf afl @ [q],
             longest_find_time := longest,
             last_find_time := cur_time\<rparr>)"

section \<open>Rating\<close>

text \<open>\<open>next_pow2\<close> of \<open>include/alloc-inl.h\<close>.\<close>

definition next_pow2 :: "u64 \<Rightarrow> u64" where
  "next_pow2 n =
     (let out = n - 1;
          out = out OR drop_bit 1 out;
          out = out OR drop_bit 2 out;
          out = out OR drop_bit 4 out;
          out = out OR drop_bit 8 out;
          out = out OR drop_bit 16 out
      in out + 1)"

definition fuzz_rank :: "'a afl_queue_scheme \<Rightarrow> queue_entry \<Rightarrow> u64" where
  "fuzz_rank afl q =
     (if schedule_no (schedule afl) \<ge> schedule_no FAST \<and> schedule_no (schedule afl) < schedule_no RARE
      then 0
      else if schedule afl = RARE then next_pow2 (ucast (n_fuzz afl ! unat (n_fuzz_entry q)))
      else ucast (fuzz_level q))"

definition fav_factor :: "'a afl_queue_scheme \<Rightarrow> queue_entry \<Rightarrow> u64" where
  "fav_factor afl q =
     (if schedule_no (schedule afl) \<ge> schedule_no RARE \<or> q_fixed_seed afl
      then ucast (push_bit 2 (q_len q)) else exec_us q * ucast (q_len q))"

text \<open>Dropping the previous winner's reference, and its bitmap with the last one.\<close>

definition release_winner :: "qid \<Rightarrow> 'a afl_queue_scheme \<Rightarrow> 'a afl_queue_scheme" where
  "release_winner w =
     set_entry w (\<lambda>e. let e = e\<lparr>tc_ref := tc_ref e - 1\<rparr>
                      in if tc_ref e = 0 then e\<lparr>trace_mini := None\<rparr> else e)"

text \<open>\<open>mini_len\<close> is the size the caller gives the bitmap.\<close>

definition insert_winner :: "nat \<Rightarrow> qid \<Rightarrow> nat \<Rightarrow> 'a afl_queue_scheme \<Rightarrow> 'a afl_queue_scheme" where
  "insert_winner mini_len q i afl =
     (let mini = minimize_bits afl (replicate mini_len 0) (trace_bits afl);
          afl = set_entry q (\<lambda>e. e\<lparr>tc_ref := tc_ref e + 1,
                  trace_mini := (case trace_mini e of None \<Rightarrow> Some mini | Some m \<Rightarrow> Some m)\<rparr>) afl
      in afl\<lparr>top_rated := (top_rated afl)[i := Some q], score_changed := True\<rparr>)"

text \<open>The contest for one map byte.\<close>

definition contest :: "nat \<Rightarrow> qid \<Rightarrow> nat \<Rightarrow> 'a afl_queue_scheme \<Rightarrow> 'a afl_queue_scheme" where
  "contest mini_len q i afl =
     (case top_rated afl ! i of
        None \<Rightarrow> insert_winner mini_len q i afl
      | Some w \<Rightarrow>
          if fuzz_rank afl (entry afl q) > fuzz_rank afl (entry afl w) then afl
          else if fav_factor afl (entry afl q) > fav_factor afl (entry afl w) then afl
          else insert_winner mini_len q i (release_winner w afl))"

definition score_slot :: "qid \<Rightarrow> nat \<Rightarrow> 'a afl_queue_scheme \<Rightarrow> 'a afl_queue_scheme" where
  "score_slot q i afl =
     (if trace_bits afl ! i \<noteq> 0 then contest ((unat (map_size afl) + 7) div 8) q i afl else afl)"

definition update_bitmap_score :: "qid \<Rightarrow> bool \<Rightarrow> 'a afl_queue_scheme \<Rightarrow> 'a afl_queue_scheme" where
  "update_bitmap_score q have_trace afl =
     (if disabled (entry afl q) \<or> \<not> have_trace then afl
      else fold (score_slot q) [0..<unat (map_size afl)] afl)"

definition update_bitmap_rescore :: "qid \<Rightarrow> nat \<Rightarrow> 'a afl_queue_scheme \<Rightarrow> 'a afl_queue_scheme" where
  "update_bitmap_rescore q i afl =
     (if disabled (entry afl q) then afl else contest (unat (map_size afl) div 8) q i afl)"

section \<open>Culling\<close>

text \<open>\<open>temp_v\<close> has a bit for every map byte that is not covered yet.\<close>

definition cover_bits :: "nat \<Rightarrow> bytes \<Rightarrow> bytes \<Rightarrow> bytes" where
  "cover_bits len mini temp_v =
     fold (\<lambda>j v. if mini ! j \<noteq> 0 then v[j := v ! j AND NOT (mini ! j)] else v) (rev [0..<len]) temp_v"

definition mark_favored :: "qid \<Rightarrow> 'a afl_queue_scheme \<Rightarrow> 'a afl_queue_scheme" where
  "mark_favored w afl =
     (let e = entry afl w in
      if favored e \<or> disabled e then afl
      else
        let afl = set_entry w (\<lambda>e. e\<lparr>favored := True\<rparr>) afl;
            afl = afl\<lparr>queued_favored := queued_favored afl + 1\<rparr>
        in if was_fuzzed e then afl
           else afl\<lparr>pending_favored := pending_favored afl + 1,
                    smallest_favored := (if smallest_favored afl < 0 \<or>
                                            smallest_favored afl > int (unat (q_id e))
                                         then int (unat (q_id e)) else smallest_favored afl)\<rparr>)"

definition cull_slot :: "nat \<Rightarrow> nat \<Rightarrow> 'a afl_queue_scheme \<Rightarrow> 'a afl_queue_scheme" where
  "cull_slot len i afl =
     (case top_rated afl ! i of
        None \<Rightarrow> afl
      | Some w \<Rightarrow>
          (case trace_mini (entry afl w) of
             None \<Rightarrow> afl
           | Some mini \<Rightarrow>
               if bit (map_tmp_buf afl ! (i div 8)) (i mod 8)
               then mark_favored w (afl\<lparr>map_tmp_buf := cover_bits len mini (map_tmp_buf afl)\<rparr>)
               else afl))"

definition redundant_pass :: "'a afl_queue_scheme \<Rightarrow> 'a afl_queue_scheme" where
  "redundant_pass afl =
     fold (\<lambda>i afl. if \<not> disabled (entry afl i)
                   then mark_as_redundant i (\<not> favored (entry afl i)) afl else afl)
       [0..<unat (queued_items afl)] afl"

definition cull_queue :: "'a afl_queue_scheme \<Rightarrow> 'a afl_queue_scheme" where
  "cull_queue afl =
     (if \<not> score_changed afl \<or> non_instrumented_mode afl then afl
      else
        let len = unat (map_size afl) div 8;
            afl = afl\<lparr>score_changed := False,
                      map_tmp_buf := replicate len 255 @ drop len (map_tmp_buf afl),
                      queued_favored := 0, pending_favored := 0,
                      queue_buf := map (\<lambda>e. e\<lparr>favored := False\<rparr>) (queue_buf afl),
                      smallest_favored := -1\<rparr>;
            afl = fold (cull_slot len) [0..<unat (map_size afl)] afl
        in (redundant_pass afl)\<lparr>reinit_table := True\<rparr>)"

section \<open>Scoring everything again\<close>

text \<open>\<open>run i\<close> is the trace of running entry \<open>i\<close> once.\<close>

definition enroll :: "u32 \<Rightarrow> bytes \<Rightarrow> u32 list list \<Rightarrow> u32 list list" where
  "enroll qid_of trace cands =
     map (\<lambda>(t, c). if t \<noteq> 0 then c @ [qid_of] else c) (zip trace cands)"

fun enroll_from :: "(qid \<Rightarrow> bytes) \<Rightarrow> qid list \<Rightarrow> 'a afl_queue_scheme \<Rightarrow> 'a afl_queue_scheme" where
  "enroll_from run [] afl = afl"
| "enroll_from run (i # is) afl =
     (let afl = (if disabled (entry afl i) then afl
                 else afl\<lparr>trace_bits := run i,
                          top_rated_candidates := enroll (q_id (entry afl i)) (run i) (top_rated_candidates afl)\<rparr>)
      in enroll_from run is (afl\<lparr>last_scored_idx := int i\<rparr>))"

definition recalculate_all_scores :: "(qid \<Rightarrow> bytes) \<Rightarrow> 'a afl_queue_scheme \<Rightarrow> 'a afl_queue_scheme" where
  "recalculate_all_scores run afl =
     (let afl = enroll_from run [nat (last_scored_idx afl + 1)..<unat (queued_items afl)] afl
      in fold (\<lambda>i afl. fold (\<lambda>c afl. update_bitmap_rescore (unat c) i afl) (top_rated_candidates afl ! i) afl)
           [0..<unat (map_size afl)] afl)"
section \<open>Entries\<close>

lemma entry_set_entry [simp]:
  "entry (set_entry q f afl) p = (if p = q \<and> q < length (queue_buf afl) then f (entry afl q) else entry afl p)"
  by (cases "q < length (queue_buf afl)"; cases "p = q") (simp_all add: entry_def set_entry_def list_update_beyond)

lemma set_entry_simps [simp]:
  "length (queue_buf (set_entry q f afl)) = length (queue_buf afl)"
  "top_rated (set_entry q f afl) = top_rated afl" "trace_bits (set_entry q f afl) = trace_bits afl"
  "map_size (set_entry q f afl) = map_size afl" "schedule (set_entry q f afl) = schedule afl"
  "q_fixed_seed (set_entry q f afl) = q_fixed_seed afl" "n_fuzz (set_entry q f afl) = n_fuzz afl"
  "map_tmp_buf (set_entry q f afl) = map_tmp_buf afl" "queued_items (set_entry q f afl) = queued_items afl"
  "queued_favored (set_entry q f afl) = queued_favored afl"
  "pending_favored (set_entry q f afl) = pending_favored afl"
  "smallest_favored (set_entry q f afl) = smallest_favored afl"
  "afl_disable_redundant (set_entry q f afl) = afl_disable_redundant afl"
  "score_changed (set_entry q f afl) = score_changed afl"
  by (simp_all add: set_entry_def)

section \<open>Rounding up to a power of two\<close>

definition smeared :: "nat \<Rightarrow> u64 \<Rightarrow> u64 \<Rightarrow> bool" where
  "smeared t m x \<longleftrightarrow> (\<forall>i. bit x i \<longleftrightarrow> (\<exists>j<t. bit m (i + j)))"

lemma smeared_step: "smeared t m x \<Longrightarrow> smeared (t + t) m (x OR drop_bit t x)"
proof (unfold smeared_def, intro allI)
  fix i assume x: "\<forall>i. bit x i \<longleftrightarrow> (\<exists>j<t. bit m (i + j))"
  have "(\<exists>j<t + t. bit m (i + j)) \<longleftrightarrow> (\<exists>j<t. bit m (i + j)) \<or> (\<exists>j<t. bit m (t + i + j))" (is "?l \<longleftrightarrow> ?r")
  proof
    assume ?l
    then obtain j where j: "j < t + t" "bit m (i + j)" by blast
    show ?r
    proof (cases "j < t")
      case False
      then have "j - t < t" "bit m (t + i + (j - t))" using j by (simp_all add: ac_simps)
      then show ?thesis by blast
    qed (use j in blast)
  next
    assume ?r
    then consider j where "j < t" "bit m (i + j)" | j where "j < t" "bit m (i + (t + j))"
      by (auto simp: ac_simps)
    then show ?l
    proof cases
      case 1
      then show ?thesis by (intro exI [of _ j]) simp
    next
      case 2
      then show ?thesis by (intro exI [of _ "t + j"]) simp
    qed
  qed
  then show "bit (x OR drop_bit t x) i \<longleftrightarrow> (\<exists>j<t + t. bit m (i + j))"
    using x by (simp add: bit_or_iff bit_drop_bit_eq)
qed

lemma next_pow2_smeared: "\<exists>x. smeared 32 (n - 1) x \<and> next_pow2 n = x + 1"
proof -
  have "smeared 1 (n - 1) (n - 1)" by (simp add: smeared_def)
  from smeared_step [OF smeared_step [OF smeared_step [OF smeared_step [OF smeared_step [OF this]]]]]
  show ?thesis unfolding next_pow2_def Let_def by (intro exI conjI) (simp_all add: numeral_eq_Suc)
qed

lemma high_bit_ex:
  fixes m :: u64
  assumes "m \<noteq> 0"
  shows "\<exists>k<64. bit m k \<and> (\<forall>j>k. \<not> bit m j)"
proof -
  let ?B = "{j. bit m j}"
  have len: "j < 64" if "bit m j" for j using bit_imp_le_length [OF that] by simp
  have ne: "?B \<noteq> {}" using assms by (metis (mono_tags) Collect_empty_eq bit_eq_iff bit_0_eq bot_apply bot_bool_def)
  have fin: "finite ?B" by (rule finite_subset [of _ "{..<64}"]) (use len in auto)
  have "bit m (Max ?B)" using Max_in [OF fin ne] by simp
  moreover have "\<not> bit m j" if "j > Max ?B" for j
  proof
    assume "bit m j"
    then have "j \<le> Max ?B" by (intro Max_ge [OF fin]) simp
    with that show False by simp
  qed
  ultimately show ?thesis using len by blast
qed

lemma high_bit_bounds:
  fixes m :: u64
  assumes "k < 64" and "bit m k" and "\<forall>j>k. \<not> bit m j"
  shows "2 ^ k \<le> unat m" and "unat m < 2 ^ Suc k"
proof -
  have "take_bit (Suc k) m = m" using assms(3) by (auto simp: bit_eq_iff bit_take_bit_iff less_Suc_eq_le not_less)
  
  then have "take_bit (Suc k) (unat m) = unat m" by (metis unsigned_take_bit_eq)
  then show "unat m < 2 ^ Suc k" by (metis take_bit_nat_less_exp)
  have "bit (unat m) k" using assms(2) by (simp add: bit_unsigned_iff)
  then have "unat m div 2 ^ k \<noteq> 0" by (auto simp: bit_iff_odd elim: oddE)
  then show "2 ^ k \<le> unat m" by (metis div_less not_le)
qed

theorem next_pow2_exact:
  assumes "1 \<le> unat n" and "unat n \<le> 2 ^ 32"
  shows "\<exists>k. unat (next_pow2 n) = 2 ^ k \<and> unat n \<le> 2 ^ k \<and> 2 ^ k < 2 * unat n"
proof -
  obtain x where x: "smeared 32 (n - 1) x" "next_pow2 n = x + 1" using next_pow2_smeared by blast
  have m: "unat (n - 1) = unat n - 1"
    using assms(1) by (metis unat_1 unat_sub_if' unsigned_1)
  show ?thesis
  proof (cases "n - 1 = 0")
    case True
    then have "\<not> bit x i" for i using x(1) by (simp add: smeared_def)
    then have "x = 0" by (simp add: bit_eq_iff)
    then show ?thesis using x(2) True m assms by (intro exI [of _ 0]) simp
  next
    case False
    then obtain k where k: "k < 64" "bit (n - 1) k" "\<forall>j>k. \<not> bit (n - 1) j" using high_bit_ex by blast
    from high_bit_bounds [OF this] have b: "2 ^ k \<le> unat n - 1" "unat n - 1 < 2 ^ Suc k" using m by simp_all
    then have "(2::nat) ^ k < 2 ^ 32" using assms by linarith
    then have k32: "k < 32" by (rule power_less_imp_less_exp [rotated]) simp
    have "bit x i \<longleftrightarrow> i \<le> k" for i
    proof -
      have "bit x i \<longleftrightarrow> (\<exists>j<32. bit (n - 1) (i + j))" using x(1) by (simp add: smeared_def)
      also have "\<dots> \<longleftrightarrow> i \<le> k"
      proof
        show "i \<le> k" if "\<exists>j<32. bit (n - 1) (i + j)" using that k(3) by (metis le_add1 not_le order.strict_trans2)
        show "\<exists>j<32. bit (n - 1) (i + j)" if "i \<le> k" using that k32 k(2) by (intro exI [of _ "k - i"]) simp
      qed
      finally show ?thesis .
    qed
    then have "x = mask (Suc k)" using k32 by (auto simp: bit_eq_iff bit_mask_iff less_Suc_eq_le)
    then have "next_pow2 n = 2 ^ Suc k - 1 + 1" unfolding x(2) by (simp only: mask_eq_exp_minus_1)
    then have "next_pow2 n = 2 ^ Suc k" by (simp only: diff_add_cancel)
    moreover have "unat ((2::u64) ^ Suc k) = 2 ^ Suc k" by (rule unat_pow2) (use k32 in simp)
    ultimately have "unat (next_pow2 n) = 2 ^ Suc k" by (simp only:)
    moreover have "unat n \<le> 2 ^ Suc k" "2 ^ Suc k < 2 * unat n" using b assms unfolding power_Suc by linarith+
    ultimately show ?thesis by blast
  qed
qed

theorem next_pow2_exact_witness: "\<exists>k. unat (next_pow2 1000) = 2 ^ k \<and> (1000::nat) \<le> 2 ^ k \<and> 2 ^ k < (2000::nat)"
  using next_pow2_exact [of 1000] by simp

text \<open>Above 32 bits the missing last shift shows.\<close>

lemma next_pow2_above_32_bits: "next_pow2 (2 ^ 33 + 1) = 2 ^ 34 - 3"
  by (simp add: next_pow2_def)
section \<open>The contest for a map byte\<close>

text \<open>The references an entry is due: the number of slots it holds.\<close>

definition slots_held :: "qid ptr list \<Rightarrow> qid \<Rightarrow> nat" where
  "slots_held tr q = count (mset tr) (Some q)"

lemma slots_held_update:
  assumes "i < length tr"
  shows "slots_held (tr[i := Some q]) p =
     (if p = q then Suc (slots_held tr p - of_bool (tr ! i = Some p))
      else slots_held tr p - of_bool (tr ! i = Some p))"
  using assms by (auto simp: slots_held_def mset_update)

lemma slots_held_le: "slots_held tr q \<le> length tr"
  unfolding slots_held_def by (metis count_le_size size_mset)

lemma slots_held_pos: "i < length tr \<Longrightarrow> tr ! i = Some q \<Longrightarrow> 0 < slots_held tr q"
  by (auto simp: slots_held_def in_set_conv_nth)

text \<open>
  Every slot names an entry, an entry's reference count is the number of slots it holds, and
  only an entry with references keeps a bitmap.
\<close>

definition refs_ok :: "'a afl_queue_scheme \<Rightarrow> bool" where
  "refs_ok afl \<longleftrightarrow>
     length (top_rated afl) = unat (map_size afl) \<and>
     (\<forall>w. Some w \<in> set (top_rated afl) \<longrightarrow> w < length (queue_buf afl)) \<and>
     (\<forall>q < length (queue_buf afl). unat (tc_ref (entry afl q)) = slots_held (top_rated afl) q) \<and>
     (\<forall>q < length (queue_buf afl). trace_mini (entry afl q) \<noteq> None \<longrightarrow> tc_ref (entry afl q) \<noteq> 0)"

text \<open>The fields of an entry that its rating reads.\<close>

definition same_rating :: "queue_entry \<Rightarrow> queue_entry \<Rightarrow> bool" where
  "same_rating e e' \<longleftrightarrow> fuzz_level e = fuzz_level e' \<and> n_fuzz_entry e = n_fuzz_entry e' \<and>
     q_len e = q_len e' \<and> exec_us e = exec_us e' \<and> disabled e = disabled e' \<and> favored e = favored e'"

definition rating_frame :: "'a afl_queue_scheme \<Rightarrow> 'a afl_queue_scheme \<Rightarrow> bool" where
  "rating_frame s t \<longleftrightarrow> length (queue_buf s) = length (queue_buf t) \<and> map_size s = map_size t \<and>
     trace_bits s = trace_bits t \<and> schedule s = schedule t \<and> q_fixed_seed s = q_fixed_seed t \<and>
     n_fuzz s = n_fuzz t \<and> length (top_rated s) = length (top_rated t) \<and>
     (\<forall>p. same_rating (entry s p) (entry t p))"

lemma rating_frame_refl: "rating_frame s s"
  by (simp add: rating_frame_def same_rating_def)

lemma rating_frame_trans: "rating_frame s t \<Longrightarrow> rating_frame t u \<Longrightarrow> rating_frame s u"
  by (simp add: rating_frame_def same_rating_def)

lemma rating_frame_ranks:
  assumes "rating_frame s t"
  shows "fuzz_rank s (entry s p) = fuzz_rank t (entry t p)" "fav_factor s (entry s p) = fav_factor t (entry t p)"
  using assms by (simp_all add: rating_frame_def same_rating_def fuzz_rank_def fav_factor_def)

lemma rating_frame_release: "rating_frame (release_winner w s) s"
  by (simp add: rating_frame_def same_rating_def release_winner_def Let_def)

lemma rating_frame_insert: "rating_frame (insert_winner ml q i s) s"
proof -
  have "entry (insert_winner ml q i s) p = entry (set_entry q (\<lambda>e. e\<lparr>tc_ref := tc_ref e + 1,
      trace_mini := (case trace_mini e of None \<Rightarrow> Some (minimize_bits s (replicate ml 0) (trace_bits s)) | Some m \<Rightarrow> Some m)\<rparr>) s) p" for p
    by (simp add: insert_winner_def Let_def entry_def)
  then show ?thesis
    by (simp add: rating_frame_def same_rating_def) (simp add: insert_winner_def Let_def)
qed

lemma rating_frame_contest: "rating_frame (contest ml q i s) s"
  using rating_frame_trans [OF rating_frame_insert rating_frame_release]
  by (auto simp: contest_def rating_frame_insert rating_frame_refl split: option.splits)

text \<open>The slot is free, or its holder is not cheaper by either measure.\<close>

definition beats :: "'a afl_queue_scheme \<Rightarrow> qid \<Rightarrow> nat \<Rightarrow> bool" where
  "beats afl q i \<longleftrightarrow>
     (case top_rated afl ! i of None \<Rightarrow> True
      | Some w \<Rightarrow> fuzz_rank afl (entry afl q) \<le> fuzz_rank afl (entry afl w) \<and>
                  fav_factor afl (entry afl q) \<le> fav_factor afl (entry afl w))"

lemma release_winner_top_rated [simp]: "top_rated (release_winner w s) = top_rated s"
  by (simp add: release_winner_def)

lemma insert_winner_top_rated [simp]: "top_rated (insert_winner ml q i s) = (top_rated s)[i := Some q]"
  by (simp add: insert_winner_def Let_def)

lemma contest_top_rated:
  "top_rated (contest ml q i s) = (if beats s q i then (top_rated s)[i := Some q] else top_rated s)"
  by (auto simp: contest_def beats_def split: option.splits)

lemma contest_nth:
  "i < length (top_rated s) \<Longrightarrow>
    top_rated (contest ml q i s) ! j = (if j = i \<and> beats s q i then Some q else top_rated s ! j)"
  by (auto simp: contest_top_rated)

section \<open>References\<close>

lemma unat_pred: "(x :: 'a::len word) \<noteq> 0 \<Longrightarrow> unat (x - 1) = unat x - 1"
  by (metis One_nat_def unat_1 unat_gt_0 unat_sub word_le_nat_alt less_eq_Suc_le)

lemma refs_okD:
  assumes "refs_ok s"
  shows "length (top_rated s) = unat (map_size s)"
    "i < length (top_rated s) \<Longrightarrow> top_rated s ! i = Some w \<Longrightarrow> w < length (queue_buf s)"
    "q < length (queue_buf s) \<Longrightarrow> unat (tc_ref (entry s q)) = slots_held (top_rated s) q"
    "q < length (queue_buf s) \<Longrightarrow> trace_mini (entry s q) \<noteq> None \<Longrightarrow> tc_ref (entry s q) \<noteq> 0"
  using assms by (auto simp: refs_ok_def) (metis nth_mem)

text \<open>Between the release and the insertion the holder of slot \<open>i\<close> is one reference short.\<close>

definition refs_short :: "nat \<Rightarrow> 'a afl_queue_scheme \<Rightarrow> bool" where
  "refs_short i s \<longleftrightarrow>
     length (top_rated s) = unat (map_size s) \<and>
     (\<forall>w. Some w \<in> set (top_rated s) \<longrightarrow> w < length (queue_buf s)) \<and>
     (\<forall>q < length (queue_buf s). unat (tc_ref (entry s q)) =
        slots_held (top_rated s) q - of_bool (top_rated s ! i = Some q)) \<and>
     (\<forall>q < length (queue_buf s). trace_mini (entry s q) \<noteq> None \<longrightarrow> tc_ref (entry s q) \<noteq> 0)"

lemma release_winner_short:
  assumes ok: "refs_ok s" and i: "i < length (top_rated s)" "top_rated s ! i = Some w"
  shows "refs_short i (release_winner w s)"
proof -
  have w: "w < length (queue_buf s)" using refs_okD(2) [OF ok i] .
  have nz: "tc_ref (entry s w) \<noteq> 0"
    using slots_held_pos [OF i] refs_okD(3) [OF ok w] by (metis less_irrefl unat_0)
  show ?thesis
    using ok unat_pred [OF nz] refs_okD(3) [OF ok w] i
    by (auto simp: refs_short_def refs_ok_def release_winner_def Let_def)
qed

lemma insert_winner_refs:
  assumes "refs_short i s" and i: "i < length (top_rated s)" and q: "q < length (queue_buf s)"
  shows "refs_ok (insert_winner ml q i s)"
proof -
  let ?t = "insert_winner ml q i s"
  have fr: "length (queue_buf ?t) = length (queue_buf s)" "map_size ?t = map_size s"
    using rating_frame_insert [of ml q i s] by (simp_all add: rating_frame_def)
  have e: "tc_ref (entry ?t p) = (if p = q then tc_ref (entry s p) + 1 else tc_ref (entry s p))"
     "p \<noteq> q \<Longrightarrow> trace_mini (entry ?t p) = trace_mini (entry s p)" if "p < length (queue_buf s)" for p
    using that by (auto simp: insert_winner_def Let_def entry_def set_entry_def nth_list_update)
  have len: "length (top_rated s) = unat (map_size s)" using assms(1) by (simp add: refs_short_def)
  have lt: "slots_held (top_rated s) q - of_bool (top_rated s ! i = Some q) < length (top_rated s)"
    using slots_held_le [of "(top_rated s)[i := Some q]" q] slots_held_update [OF i, of q q] by simp
  have tc: "unat (tc_ref (entry s q)) < unat (map_size s)"
    using lt assms(1) q len by (simp add: refs_short_def)
  moreover have "unat (map_size s) < 2 ^ 32" using unsigned_less [of "map_size s"] by simp
  ultimately have suc: "unat (tc_ref (entry s q) + 1) = Suc (unat (tc_ref (entry s q)))"
    by (intro unat_Suc_word) simp
  then have "tc_ref (entry s q) + 1 \<noteq> 0" by (metis Zero_not_Suc unat_0)
  then show ?thesis
    unfolding refs_ok_def fr insert_winner_top_rated
    using assms suc e len slots_held_update [OF i, of q]
    by (auto simp: refs_short_def dest!: set_update_subset_insert [THEN subsetD])
qed

lemma contest_refs [inv_intros]:
  assumes "refs_ok s" and "i < length (top_rated s)" and "q < length (queue_buf s)"
  shows "refs_ok (contest ml q i s)"
proof (cases "top_rated s ! i")
  case None
  then have "refs_short i s" using assms by (simp add: refs_short_def refs_ok_def)
  then show ?thesis using None assms insert_winner_refs by (simp add: contest_def)
next
  case (Some w)
  have "length (queue_buf (release_winner w s)) = length (queue_buf s)" by (simp add: release_winner_def)
  then show ?thesis
    using assms insert_winner_refs [OF release_winner_short [OF assms(1,2) Some]] Some
    by (simp add: contest_def)
qed
section \<open>Rating a new entry\<close>

lemma score_slot_frame: "rating_frame (score_slot q i s) s"
  by (simp add: score_slot_def rating_frame_contest rating_frame_refl)

lemma rating_frameD:
  assumes "rating_frame s t"
  shows "length (queue_buf s) = length (queue_buf t)" "map_size s = map_size t" "trace_bits s = trace_bits t"
    "length (top_rated s) = length (top_rated t)" "disabled (entry s p) = disabled (entry t p)"
  using assms by (simp_all add: rating_frame_def same_rating_def)

lemma score_fold_frame: "rating_frame (fold (score_slot q) is s) s"
proof (induction "is" arbitrary: s)
  case (Cons i "is")
  then show ?case using rating_frame_trans [OF Cons.IH score_slot_frame] by simp
qed (simp add: rating_frame_refl)

lemma score_fold_refs:
  assumes "refs_ok s" and "\<forall>i\<in>set is. i < length (top_rated s)" and "q < length (queue_buf s)"
  shows "refs_ok (fold (score_slot q) is s)"
  using assms
proof (induction "is" arbitrary: s)
  case (Cons i "is")
  note fr = rating_frameD [OF score_slot_frame [of q i s]]
  have "refs_ok (score_slot q i s)" using Cons.prems by (simp add: score_slot_def contest_refs)
  then show ?case using Cons.IH [of "score_slot q i s"] Cons.prems(2,3) fr by simp
qed simp

lemma beats_frame:
  assumes "rating_frame s t" and "top_rated s ! i = top_rated t ! i"
  shows "beats s q i = beats t q i"
  using assms rating_frame_ranks [OF assms(1)] by (simp add: beats_def split: option.split)

lemma score_fold_winners:
  assumes "distinct is" and "\<forall>i\<in>set is. i < length (top_rated s)"
  shows "top_rated (fold (score_slot q) is s) ! j =
    (if j \<in> set is \<and> trace_bits s ! j \<noteq> 0 \<and> beats s q j then Some q else top_rated s ! j)"
  using assms
proof (induction "is" arbitrary: s)
  case (Cons i "is")
  let ?t = "score_slot q i s"
  have fr: "rating_frame ?t s" by (rule score_slot_frame)
  have t: "top_rated ?t ! k = (if k = i \<and> trace_bits s ! i \<noteq> 0 \<and> beats s q i then Some q else top_rated s ! k)" for k
    using contest_nth [of i s _ q k] Cons.prems(2) by (cases "k = i") (simp_all add: score_slot_def)
  have b: "k \<noteq> i \<Longrightarrow> beats ?t q k = beats s q k" for k
    by (rule beats_frame [OF fr]) (use t in simp)
  have "fold (score_slot q) (i # is) s = fold (score_slot q) is ?t" by simp
  then show ?case
    using Cons.IH [of ?t] Cons.prems t b [of j] rating_frameD(3,4) [OF fr] by auto
qed simp

text \<open>
  C13 \<open>update_bitmap_score\<close> gives the entry exactly the map bytes its trace reaches and whose
  present holder is neither less fuzzed (by the schedule's measure) nor cheaper, leaves every other
  slot alone, and keeps the books: after it an entry's \<open>tc_ref\<close> is the number of slots it holds
  and only entries that hold slots keep a bitmap.
\<close>

theorem update_bitmap_score_exact:
  assumes "refs_ok s" and "q < length (queue_buf s)" and "\<not> disabled (entry s q)"
  shows "refs_ok (update_bitmap_score q True s) \<and>
    (\<forall>i < unat (map_size s). top_rated (update_bitmap_score q True s) ! i =
       (if trace_bits s ! i \<noteq> 0 \<and> beats s q i then Some q else top_rated s ! i))"
proof -
  have i: "\<forall>i\<in>set [0..<unat (map_size s)]. i < length (top_rated s)" using refs_okD(1) [OF assms(1)] by simp
  show ?thesis
    unfolding update_bitmap_score_def
    using assms score_fold_refs [OF assms(1) i assms(2)] score_fold_winners [OF distinct_upt i] by simp
qed

text \<open>A queue of three entries over a map of 16 bytes, for the witnesses.\<close>

definition small_entry :: "u32 \<Rightarrow> u32 \<Rightarrow> queue_entry" where
  "small_entry i len = \<lparr>fname = [], q_len = len, q_id = i, cal_failed = 0, trim_done = False,
      was_fuzzed = False, passed_det = False, has_new_cov = False, var_behavior = False,
      favored = False, fs_redundant = False, is_ascii = False, disabled = False, bitmap_size = 0,
      fuzz_level = 0, n_fuzz_entry = 0, exec_us = 1, handicap = 0,
      depth = 1, exec_cksum = 0, tc_ref = 0, ss_cov_cnt = 0,
      ss_selected_cnt = 0, ss_prob = 1, perf_score = 100, weight = 1, mother = None,
      trace_mini = None, testcase_buf = None\<rparr>"

definition small_queue :: "bytes \<Rightarrow> afl_queue" where
  "small_queue trace = cov_st.extend ((blank_cov trace)\<lparr>map_size := 16\<rparr>)
     \<lparr>queue_buf = [small_entry 0 30, small_entry 1 40, small_entry 2 20], queue_cur = None,
      queued_items = 3, active_items = 3, pending_not_fuzzed = 3,
      queued_favored = 0, pending_favored = 0, smallest_favored = -1, ready_for_splicing_count = 3,
      cur_depth = 0, max_depth = 1, cycles_wo_finds = 0, start_time = 0, last_find_time = 0,
      longest_find_time = 0, schedule = EXPLORE, q_fixed_seed = False, n_fuzz = [],
      top_rated = replicate 16 None, top_rated_candidates = replicate 16 [], last_scored_idx = -1,
      map_tmp_buf = replicate 2 0, score_changed = False, non_instrumented_mode = False,
      reinit_table = False, afl_disable_redundant = False, cmplog_mode = False\<rparr>"

lemma small_queue_sel [simp]:
  "queue_buf (small_queue tr) = [small_entry 0 30, small_entry 1 40, small_entry 2 20]"
  "top_rated (small_queue tr) = replicate 16 None" "map_size (small_queue tr) = 16"
  "trace_bits (small_queue tr) = tr" "queued_items (small_queue tr) = 3"
  by (simp_all add: small_queue_def cov_st.defs blank_cov_def)

lemma small_queue_refs: "refs_ok (small_queue tr)"
  by (simp add: refs_ok_def slots_held_def entry_def small_entry_def All_less_Suc)

theorem update_bitmap_score_exact_witness:
  "top_rated (update_bitmap_score 1 True (small_queue (replicate 16 2))) ! 5 = Some 1"
  using update_bitmap_score_exact [OF small_queue_refs, of 1 "replicate 16 2"]
  by (simp add: entry_def small_entry_def beats_def)
section \<open>Culling\<close>

lemma cover_fold:
  assumes "distinct js" and "\<forall>j\<in>set js. j < length v"
  shows "length (fold (\<lambda>j v. if mini ! j \<noteq> 0 then v[j := v ! j AND NOT (mini ! j)] else v) js v) = length v \<and>
    (\<forall>k. fold (\<lambda>j v. if mini ! j \<noteq> 0 then v[j := v ! j AND NOT (mini ! j)] else v) js v ! k =
       (if k \<in> set js then v ! k AND NOT (mini ! k) else v ! k))"
  using assms
proof (induction js arbitrary: v)
  case (Cons j js)
  then show ?case by (auto simp: Cons.IH nth_list_update)
qed simp

lemma cover_bits_nth:
  assumes "len \<le> length v"
  shows "length (cover_bits len mini v) = length v"
    "cover_bits len mini v ! k = (if k < len then v ! k AND NOT (mini ! k) else v ! k)"
  using cover_fold [of "rev [0..<len]" v mini] assms by (simp_all add: cover_bits_def)

text \<open>Bit \<open>i\<close> of a bitmap.\<close>

definition map_bit :: "bytes \<Rightarrow> nat \<Rightarrow> bool" where
  "map_bit v i \<longleftrightarrow> bit (v ! (i div 8)) (i mod 8)"

lemma map_bit_cover:
  "len \<le> length v \<Longrightarrow> i < 8 * len \<Longrightarrow> map_bit (cover_bits len mini v) i \<longleftrightarrow> map_bit v i \<and> \<not> map_bit mini i"
proof -
  assume a: "len \<le> length v" "i < 8 * len"
  have "i mod 8 < 8" by simp
  moreover have "i div 8 < len" using a(2) by (simp add: less_mult_imp_div_less mult.commute)
  ultimately show ?thesis using a by (simp add: map_bit_def cover_bits_nth bit_and_iff bit_not_iff)
qed

text \<open>
  The queue \<open>cull_queue\<close> works on: an entry per id, every slot holding an entry, the map a whole
  number of bitmap bytes.
\<close>

definition queue_ok :: "'a afl_queue_scheme \<Rightarrow> bool" where
  "queue_ok s \<longleftrightarrow>
     length (queue_buf s) = unat (queued_items s) \<and>
     (\<forall>q < length (queue_buf s). unat (q_id (entry s q)) = q) \<and>
     (\<forall>w. Some w \<in> set (top_rated s) \<longrightarrow> w < length (queue_buf s)) \<and>
     length (top_rated s) = unat (map_size s) \<and>
     8 dvd unat (map_size s) \<and> unat (map_size s) div 8 \<le> length (map_tmp_buf s)"

definition favs :: "'a afl_queue_scheme \<Rightarrow> qid set" where
  "favs s = {q. q < length (queue_buf s) \<and> favored (entry s q)}"

definition pendings :: "'a afl_queue_scheme \<Rightarrow> qid set" where
  "pendings s = {q. q < length (queue_buf s) \<and> favored (entry s q) \<and> \<not> was_fuzzed (entry s q)}"

lemma finite_favs [simp]: "finite (favs s)" "finite (pendings s)"
  by (simp_all add: favs_def pendings_def)

text \<open>The least of the pending favourites, -1 when there is none.\<close>

definition least_pending :: "'a afl_queue_scheme \<Rightarrow> int" where
  "least_pending s = (if pendings s = {} then -1 else int (Min (pendings s)))"

definition fav_books :: "'a afl_queue_scheme \<Rightarrow> bool" where
  "fav_books s \<longleftrightarrow>
     unat (queued_favored s) = card (favs s) \<and> unat (pending_favored s) = card (pendings s) \<and>
     smallest_favored s = least_pending s"

lemma card_favs_less: "length (queue_buf s) = unat (queued_items s) \<Longrightarrow> q < length (queue_buf s) \<Longrightarrow> q \<notin> favs s \<Longrightarrow>
    card (favs s) < 2 ^ 32 - 1 \<and> card (pendings s) < 2 ^ 32 - 1"
proof -
  assume a: "length (queue_buf s) = unat (queued_items s)" "q < length (queue_buf s)" "q \<notin> favs s"
  have "card (favs s) \<le> card ({..<length (queue_buf s)} - {q})"
    by (rule card_mono) (use a(3) in \<open>auto simp: favs_def\<close>)
  moreover have "card (pendings s) \<le> card (favs s)" by (rule card_mono) (auto simp: favs_def pendings_def)
  moreover have "unat (queued_items s) < 2 ^ 32" using unsigned_less [of "queued_items s"] by simp
  ultimately show ?thesis using a(1,2) by auto
qed

definition cull_frame :: "'a afl_queue_scheme \<Rightarrow> 'a afl_queue_scheme \<Rightarrow> bool" where
  "cull_frame s t \<longleftrightarrow>
     length (queue_buf t) = length (queue_buf s) \<and> top_rated t = top_rated s \<and> map_size t = map_size s \<and>
     queued_items t = queued_items s \<and> length (map_tmp_buf t) = length (map_tmp_buf s) \<and>
     afl_disable_redundant t = afl_disable_redundant s \<and> score_changed t = score_changed s \<and>
     (\<forall>p. entry t p = (entry s p)\<lparr>favored := favored (entry t p)\<rparr>)"

lemma cull_frame_refl: "cull_frame s s"
  by (simp add: cull_frame_def)

lemma cull_frame_trans: "cull_frame s t \<Longrightarrow> cull_frame t u \<Longrightarrow> cull_frame s u"
  unfolding cull_frame_def by (metis queue_entry.surjective queue_entry.update_convs(10))

lemma cull_frameD:
  assumes "cull_frame s t"
  shows "length (queue_buf t) = length (queue_buf s)" "top_rated t = top_rated s" "map_size t = map_size s"
    "queued_items t = queued_items s" "length (map_tmp_buf t) = length (map_tmp_buf s)"
    "was_fuzzed (entry t p) = was_fuzzed (entry s p)" "disabled (entry t p) = disabled (entry s p)"
    "q_id (entry t p) = q_id (entry s p)" "trace_mini (entry t p) = trace_mini (entry s p)"
    "fs_redundant (entry t p) = fs_redundant (entry s p)"
proof -
  have e: "entry t p = (entry s p)\<lparr>favored := favored (entry t p)\<rparr>" using assms unfolding cull_frame_def by blast
  show "was_fuzzed (entry t p) = was_fuzzed (entry s p)" "disabled (entry t p) = disabled (entry s p)"
    "q_id (entry t p) = q_id (entry s p)" "trace_mini (entry t p) = trace_mini (entry s p)"
    "fs_redundant (entry t p) = fs_redundant (entry s p)"
    by (subst e, simp)+
qed (use assms in \<open>simp_all add: cull_frame_def\<close>)

lemma entry_update_simps [simp]:
  "entry (s\<lparr>queued_favored := a\<rparr>) p = entry s p" "entry (s\<lparr>pending_favored := a\<rparr>) p = entry s p"
  "entry (s\<lparr>smallest_favored := k\<rparr>) p = entry s p" "entry (s\<lparr>map_tmp_buf := v\<rparr>) p = entry s p"
  "entry (s\<lparr>reinit_table := b\<rparr>) p = entry s p" "entry (s\<lparr>score_changed := b\<rparr>) p = entry s p"
  by (simp_all add: entry_def)

lemma mark_favored_frame: "cull_frame s (mark_favored w s)"
  by (auto simp: cull_frame_def mark_favored_def Let_def)

lemma mark_favored_favs:
  assumes "w < length (queue_buf s)"
  shows "favored (entry (mark_favored w s) p) \<longleftrightarrow> favored (entry s p) \<or> p = w \<and> \<not> disabled (entry s w)"
  using assms by (auto simp: mark_favored_def Let_def)

lemma mark_favored_counts:
  assumes "\<not> favored (entry s w)" and "\<not> disabled (entry s w)"
  shows "queued_favored (mark_favored w s) = queued_favored s + 1"
    "pending_favored (mark_favored w s) = (if was_fuzzed (entry s w) then pending_favored s else pending_favored s + 1)"
    "smallest_favored (mark_favored w s) =
       (if was_fuzzed (entry s w) \<or> 0 \<le> smallest_favored s \<and> smallest_favored s \<le> int (unat (q_id (entry s w)))
        then smallest_favored s else int (unat (q_id (entry s w))))"
  using assms by (auto simp: mark_favored_def Let_def)

lemma mark_favored_books:
  assumes s: "fav_books s" and len: "length (queue_buf s) = unat (queued_items s)"
    and id: "unat (q_id (entry s w)) = w" and w: "w < length (queue_buf s)"
  shows "fav_books (mark_favored w s)"
proof (cases "favored (entry s w) \<or> disabled (entry s w)")
  case True
  then show ?thesis using s by (simp add: mark_favored_def)
next
  case False
  let ?t = "mark_favored w s"
  have nin: "w \<notin> favs s" "w \<notin> pendings s" using False by (simp_all add: favs_def pendings_def)
  have fv: "favs ?t = insert w (favs s)" 
    using False w mark_favored_favs [OF w] cull_frameD(1) [OF mark_favored_frame [of s w]]
    by (auto simp: favs_def)
  have pd: "pendings ?t = (if was_fuzzed (entry s w) then pendings s else insert w (pendings s))"
    using False w mark_favored_favs [OF w] cull_frameD(1,6) [OF mark_favored_frame [of s w]]
    by (auto simp: pendings_def)
  have suc: "unat (queued_favored s + 1) = Suc (card (favs s))" "unat (pending_favored s + 1) = Suc (card (pendings s))"
    using card_favs_less [OF len w nin(1)] s unat_Suc_word [of "queued_favored s"] unat_Suc_word [of "pending_favored s"]
    by (simp_all add: fav_books_def)
  obtain m where m: "m = Min (pendings s)" by blast
  have "smallest_favored ?t = least_pending ?t"
  proof (cases "pendings s = {}")
    case True
    then show ?thesis using mark_favored_counts(3) [of s w] False s id unfolding least_pending_def pd
      by (simp add: fav_books_def least_pending_def)
  next
    case ne: False
    then have "smallest_favored s = int m" "Min (insert w (pendings s)) = min w m"
      using s m by (simp_all add: fav_books_def least_pending_def)
    then show ?thesis using mark_favored_counts(3) [of s w] False ne id m [symmetric] unfolding least_pending_def pd
      by (simp add: min_def)
  qed
  then show ?thesis
    using mark_favored_counts(1,2) [of s w] False suc nin s unfolding fav_books_def fv pd by simp
qed
text \<open>The loop over the slots, when those in \<open>D\<close> are done.\<close>

definition cull_inv :: "'a afl_queue_scheme \<Rightarrow> nat set \<Rightarrow> 'a afl_queue_scheme \<Rightarrow> bool" where
  "cull_inv s D t \<longleftrightarrow>
     cull_frame s t \<and> fav_books t \<and>
     (\<forall>q < length (queue_buf s). favored (entry t q) \<longrightarrow> Some q \<in> set (top_rated s) \<and> \<not> disabled (entry s q) \<and> trace_mini (entry s q) \<noteq> None) \<and>
     (\<forall>k < unat (map_size s). \<not> map_bit (map_tmp_buf t) k \<longrightarrow>
        (\<exists>w m. w < length (queue_buf s) \<and> trace_mini (entry s w) = Some m \<and> map_bit m k \<and> (favored (entry t w) \<or> disabled (entry s w)))) \<and>
     (\<forall>i\<in>D. \<forall>w m. top_rated s ! i = Some w \<longrightarrow> trace_mini (entry s w) = Some m \<longrightarrow> map_bit m i \<longrightarrow>
        \<not> map_bit (map_tmp_buf t) i)"

lemma cull_slot_mark:
  assumes "top_rated t ! i = Some w" and "trace_mini (entry t w) = Some mini" and "map_bit (map_tmp_buf t) i"
  shows "cull_slot len i t = mark_favored w (t\<lparr>map_tmp_buf := cover_bits len mini (map_tmp_buf t)\<rparr>)"
  using assms by (simp add: cull_slot_def map_bit_def)

lemma mark_favored_tmp [simp]: "map_tmp_buf (mark_favored w t) = map_tmp_buf t"
  by (simp add: mark_favored_def Let_def)

lemma cull_slot_step:
  assumes ok: "queue_ok s" and inv: "cull_inv s D t" and i: "i < unat (map_size s)"
  shows "cull_inv s (insert i D) (cull_slot (unat (map_size s) div 8) i t)"
proof -
  have fr: "cull_frame s t" using inv by (simp add: cull_inv_def)
  note f = cull_frameD [OF fr]
  consider "top_rated s ! i = None" | w where "top_rated s ! i = Some w" "trace_mini (entry s w) = None"
    | w m where "top_rated s ! i = Some w" "trace_mini (entry s w) = Some m" "\<not> map_bit (map_tmp_buf t) i"
    | w m where "top_rated s ! i = Some w" "trace_mini (entry s w) = Some m" "map_bit (map_tmp_buf t) i"
    by (cases "top_rated s ! i") auto
  then show ?thesis
  proof cases
    case (4 w m)
    let ?len = "unat (map_size s) div 8"
    let ?c = "t\<lparr>map_tmp_buf := cover_bits ?len m (map_tmp_buf t)\<rparr>"
    let ?t = "mark_favored w ?c"
    have t: "cull_slot ?len i t = ?t" using cull_slot_mark [of t i w m] 4 f by simp
    have ty: "length (top_rated s) = unat (map_size s)" using ok by (simp add: queue_ok_def)
    have wset: "Some w \<in> set (top_rated s)" using 4(1) i ty by (metis nth_mem)
    then have w: "w < length (queue_buf s)" using ok unfolding queue_ok_def by blast
    have len: "?len \<le> length (map_tmp_buf t)" "8 * ?len = unat (map_size s)" using ok f by (simp_all add: queue_ok_def)
    have fc: "cull_frame s ?c" using fr len by (simp add: cull_frame_def cover_bits_nth)
    have ft: "cull_frame s ?t" by (rule cull_frame_trans [OF fc mark_favored_frame])
    have bits: "map_bit (map_tmp_buf ?t) k \<longleftrightarrow> map_bit (map_tmp_buf t) k \<and> \<not> map_bit m k" if "k < unat (map_size s)" for k
      using map_bit_cover [OF len(1), of k m] that len(2) by simp
    have "fav_books ?c" using inv by (simp add: cull_inv_def fav_books_def favs_def pendings_def least_pending_def)
    moreover have "length (queue_buf ?c) = unat (queued_items ?c)" "unat (q_id (entry ?c w)) = w" "w < length (queue_buf ?c)"
      using ok w f by (simp_all add: queue_ok_def)
    ultimately have bk: "fav_books ?t" by (rule mark_favored_books)
    have fv: "favored (entry ?t p) \<longleftrightarrow> favored (entry t p) \<or> p = w \<and> \<not> disabled (entry s w)" for p
      using mark_favored_favs [of w ?c p] w f by simp
    have cl: "\<exists>w' m'. w' < length (queue_buf s) \<and> trace_mini (entry s w') = Some m' \<and> map_bit m' k \<and> (favored (entry ?t w') \<or> disabled (entry s w'))"
      if k: "k < unat (map_size s)" "\<not> map_bit (map_tmp_buf ?t) k" for k
    proof (cases "map_bit (map_tmp_buf t) k")
      case True
      then show ?thesis using k bits fv 4(2) w by blast
    next
      case False
      then show ?thesis using k(1) inv fv unfolding cull_inv_def by meson
    qed
    have dn: "\<not> map_bit (map_tmp_buf ?t) j" 
      if "j \<in> insert i D" "top_rated s ! j = Some w'" "trace_mini (entry s w') = Some m'" "map_bit m' j" for j w' m'
    proof (cases "j = i")
      case True
      then show ?thesis using that 4 bits [OF i] by simp
    next
      case False
      then have "\<not> map_bit (map_tmp_buf t) j" using that inv unfolding cull_inv_def by blast
      moreover have "\<not> map_bit (map_tmp_buf t) j \<Longrightarrow> \<not> map_bit (map_tmp_buf ?t) j"
        by (cases "j < unat (map_size s)") (use bits len in \<open>auto simp: map_bit_def cover_bits_nth\<close>)
      ultimately show ?thesis by blast
    qed
    have hs: "Some q \<in> set (top_rated s) \<and> \<not> disabled (entry s q) \<and> trace_mini (entry s q) \<noteq> None"
      if "q < length (queue_buf s)" "favored (entry ?t q)" for q
      using that fv [of q] inv wset 4(2) unfolding cull_inv_def by auto
    show ?thesis
      unfolding t cull_inv_def using ft bk hs cl dn by blast
  qed (use inv f in \<open>auto simp: cull_inv_def cull_slot_def map_bit_def split: option.split\<close>)
qed

lemma cull_fold_inv:
  assumes "queue_ok s" and "cull_inv s D t" and "\<forall>i\<in>set is. i < unat (map_size s)"
  shows "cull_inv s (D \<union> set is) (fold (cull_slot (unat (map_size s) div 8)) is t)"
  using assms(2,3)
proof (induction "is" arbitrary: D t)
  case (Cons i "is")
  have "cull_inv s (insert i D) (cull_slot (unat (map_size s) div 8) i t)"
    using cull_slot_step [OF assms(1)] Cons.prems by simp
  from Cons.IH [OF this] Cons.prems show ?case by simp
qed simp

section \<open>Marking the rest redundant\<close>

lemma mark_as_redundant_entry:
  "favored (entry (mark_as_redundant q b s) p) = favored (entry s p)"
  "was_fuzzed (entry (mark_as_redundant q b s) p) = was_fuzzed (entry s p)"
  "p \<noteq> q \<Longrightarrow> entry (mark_as_redundant q b s) p = entry s p"
  "q < length (queue_buf s) \<Longrightarrow> fs_redundant (entry (mark_as_redundant q b s) q) = b"
  by (auto simp: mark_as_redundant_def Let_def)

lemma mark_as_redundant_frame [simp]:
  "length (queue_buf (mark_as_redundant q b s)) = length (queue_buf s)"
  "queued_favored (mark_as_redundant q b s) = queued_favored s"
  "pending_favored (mark_as_redundant q b s) = pending_favored s"
  "smallest_favored (mark_as_redundant q b s) = smallest_favored s"
  "score_changed (mark_as_redundant q b s) = score_changed s"
  "top_rated (mark_as_redundant q b s) = top_rated s"
  "map_size (mark_as_redundant q b s) = map_size s"
  "queued_items (mark_as_redundant q b s) = queued_items s"
  by (auto simp: mark_as_redundant_def Let_def)

abbreviation (input) redundant_step :: "qid \<Rightarrow> 'a afl_queue_scheme \<Rightarrow> 'a afl_queue_scheme" where
  "redundant_step i s \<equiv> (if \<not> disabled (entry s i) then mark_as_redundant i (\<not> favored (entry s i)) s else s)"

lemma redundant_fold:
  assumes "distinct is" and "\<forall>i\<in>set is. i < length (queue_buf s)"
  shows "length (queue_buf (fold redundant_step is s)) = length (queue_buf s) \<and>
    queued_favored (fold redundant_step is s) = queued_favored s \<and>
    pending_favored (fold redundant_step is s) = pending_favored s \<and>
    smallest_favored (fold redundant_step is s) = smallest_favored s \<and>
    score_changed (fold redundant_step is s) = score_changed s \<and>
    (\<forall>p. favored (entry (fold redundant_step is s) p) = favored (entry s p) \<and>
         was_fuzzed (entry (fold redundant_step is s) p) = was_fuzzed (entry s p) \<and>
         (p \<notin> set is \<longrightarrow> entry (fold redundant_step is s) p = entry s p) \<and>
         (p \<in> set is \<longrightarrow> \<not> disabled (entry s p) \<longrightarrow> fs_redundant (entry (fold redundant_step is s) p) = (\<not> favored (entry s p))))"
  using assms
proof (induction "is" arbitrary: s)
  case (Cons i "is")
  let ?s = "redundant_step i s"
  have "length (queue_buf ?s) = length (queue_buf s)" by simp
  then have IH: "\<forall>i\<in>set is. i < length (queue_buf ?s)" "distinct is" using Cons.prems by simp_all
  have e: "favored (entry ?s p) = favored (entry s p)" "was_fuzzed (entry ?s p) = was_fuzzed (entry s p)"
    "p \<noteq> i \<Longrightarrow> entry ?s p = entry s p" for p
    by (simp_all add: mark_as_redundant_entry)
  have m: "\<not> disabled (entry s i) \<Longrightarrow> fs_redundant (entry ?s i) = (\<not> favored (entry s i))"
    using Cons.prems(2) by (simp add: mark_as_redundant_entry)
  note H = Cons.IH [OF IH(2,1)]
  have c: "queued_favored ?s = queued_favored s" "pending_favored ?s = pending_favored s"
    "smallest_favored ?s = smallest_favored s" "score_changed ?s = score_changed s" "length (queue_buf ?s) = length (queue_buf s)"
    by simp_all
  have st: "fold redundant_step (i # is) s = fold redundant_step is ?s" by simp
  have fin: "fs_redundant (entry (fold redundant_step is ?s) p) = (\<not> favored (entry s p))"
    if "p \<in> set (i # is)" "\<not> disabled (entry s p)" for p
  proof (cases "p = i")
    case True
    then have "p \<notin> set is" using Cons.prems(1) by simp
    then have "entry (fold redundant_step is ?s) p = entry ?s p" using H by blast
    then show ?thesis using m that(2) True by simp
  next
    case False
    then have "p \<in> set is" "\<not> disabled (entry ?s p)" using that e(3) [OF False] by simp_all
    then have "fs_redundant (entry (fold redundant_step is ?s) p) = (\<not> favored (entry ?s p))" using H by blast
    then show ?thesis using e(1) by simp
  qed
  show ?case unfolding st
    by (intro conjI allI impI)
      (use H c e fin in \<open>simp_all del: fold_simps\<close>)
qed simp
section \<open>What culling achieves\<close>

definition cull_reset :: "'a afl_queue_scheme \<Rightarrow> 'a afl_queue_scheme" where
  "cull_reset afl =
     (let len = unat (map_size afl) div 8 in
      afl\<lparr>score_changed := False,
          map_tmp_buf := replicate len 255 @ drop len (map_tmp_buf afl),
          queued_favored := 0, pending_favored := 0,
          queue_buf := map (\<lambda>e. e\<lparr>favored := False\<rparr>) (queue_buf afl),
          smallest_favored := -1\<rparr>)"

lemma cull_queue_eq:
  "score_changed s \<Longrightarrow> \<not> non_instrumented_mode s \<Longrightarrow>
    cull_queue s = (redundant_pass (fold (cull_slot (unat (map_size s) div 8)) [0..<unat (map_size s)] (cull_reset s)))
      \<lparr>reinit_table := True\<rparr>"
  by (simp add: cull_queue_def cull_reset_def Let_def)

lemma cull_reset_entry:
  "q < length (queue_buf s) \<Longrightarrow> entry (cull_reset s) q = (entry s q)\<lparr>favored := False\<rparr>"
  by (simp add: cull_reset_def Let_def entry_def)

lemma cull_reset_simps [simp]:
  "length (queue_buf (cull_reset s)) = length (queue_buf s)" "top_rated (cull_reset s) = top_rated s"
  "map_size (cull_reset s) = map_size s" "queued_items (cull_reset s) = queued_items s"
  "score_changed (cull_reset s) = False"
  by (simp_all add: cull_reset_def Let_def)

lemma cull_reset_ok: "queue_ok s \<Longrightarrow> queue_ok (cull_reset s)"
  unfolding queue_ok_def cull_reset_simps
  by (auto simp: cull_reset_entry) (simp add: cull_reset_def Let_def)

lemma byte_all_ones: "b < 8 \<Longrightarrow> bit (255 :: u8) b"
proof -
  assume "b < 8"
  then have "b \<in> set [0..<8]" by simp
  moreover have "\<forall>b\<in>set [0..<8]. bit (255 :: u8) b" by code_simp
  ultimately show ?thesis by blast
qed

lemma cull_reset_bits: 
  "i < 8 * (unat (map_size s) div 8) \<Longrightarrow> map_bit (map_tmp_buf (cull_reset s)) i"
  using byte_all_ones [of "i mod 8"]
  by (simp add: cull_reset_def Let_def map_bit_def nth_append less_mult_imp_div_less mult.commute)

lemma cull_reset_inv:
  assumes "queue_ok s"
  shows "cull_inv (cull_reset s) {} (cull_reset s)"
proof -
  have nf: "\<not> favored (entry (cull_reset s) q)" if "q < length (queue_buf s)" for q
    using that by (simp add: cull_reset_entry)
  then have "favs (cull_reset s) = {}" "pendings (cull_reset s) = {}" by (auto simp: favs_def pendings_def)
  then have "fav_books (cull_reset s)"
    by (simp add: fav_books_def least_pending_def) (simp add: cull_reset_def Let_def)
  moreover have "8 * (unat (map_size s) div 8) = unat (map_size s)" using assms by (simp add: queue_ok_def)
  ultimately show ?thesis using nf cull_reset_bits [of _ s] by (simp add: cull_inv_def cull_frame_refl)
qed

lemma cull_queue_result:
  assumes ok: "queue_ok s" and go: "score_changed s" "\<not> non_instrumented_mode s"
  obtains u where "cull_inv (cull_reset s) {0..<unat (map_size s)} u"
    "cull_queue s = (redundant_pass u)\<lparr>reinit_table := True\<rparr>"
proof -
  let ?u = "fold (cull_slot (unat (map_size s) div 8)) [0..<unat (map_size s)] (cull_reset s)"
  have "cull_inv (cull_reset s) {0..<unat (map_size s)} ?u"
    using cull_fold_inv [OF cull_reset_ok [OF ok] cull_reset_inv [OF ok], of "[0..<unat (map_size s)]"] by simp
  then show ?thesis using that cull_queue_eq [OF go] by blast
qed

lemma redundant_pass_facts:
  assumes "length (queue_buf u) = unat (queued_items u)"
  shows "length (queue_buf (redundant_pass u)) = length (queue_buf u)"
    "favored (entry (redundant_pass u) p) = favored (entry u p)"
    "was_fuzzed (entry (redundant_pass u) p) = was_fuzzed (entry u p)"
    "p < length (queue_buf u) \<Longrightarrow> \<not> disabled (entry u p) \<Longrightarrow> fs_redundant (entry (redundant_pass u) p) = (\<not> favored (entry u p))"
    "queued_favored (redundant_pass u) = queued_favored u" "pending_favored (redundant_pass u) = pending_favored u"
    "smallest_favored (redundant_pass u) = smallest_favored u" "score_changed (redundant_pass u) = score_changed u"
  using redundant_fold [of "[0..<unat (queued_items u)]" u] assms unfolding redundant_pass_def by simp_all

text \<open>
  After \<open>cull_queue\<close> the favoured entries cover the map: every map byte whose top-rated entry
  still has its bitmap, with the byte in it, is in the bitmap of a favoured entry, or of a disabled
  one; and only a top-rated, enabled entry with a bitmap is favoured.
\<close>

theorem cull_queue_covers:
  assumes "queue_ok s" and "score_changed s" and "\<not> non_instrumented_mode s"
  shows "(\<forall>i < unat (map_size s). \<forall>w m.
       top_rated s ! i = Some w \<longrightarrow> trace_mini (entry s w) = Some m \<longrightarrow> map_bit m i \<longrightarrow>
       (\<exists>w' m'. w' < length (queue_buf s) \<and> trace_mini (entry s w') = Some m' \<and> map_bit m' i \<and>
          (favored (entry (cull_queue s) w') \<or> disabled (entry s w')))) \<and>
    (\<forall>q < length (queue_buf s). favored (entry (cull_queue s) q) \<longrightarrow>
       Some q \<in> set (top_rated s) \<and> \<not> disabled (entry s q) \<and> trace_mini (entry s q) \<noteq> None)"
proof -
  obtain u where u: "cull_inv (cull_reset s) {0..<unat (map_size s)} u"
    "cull_queue s = (redundant_pass u)\<lparr>reinit_table := True\<rparr>" using cull_queue_result [OF assms] .
  have fr: "cull_frame (cull_reset s) u" using u(1) by (simp add: cull_inv_def)
  have len: "length (queue_buf u) = unat (queued_items u)" using cull_frameD(1,4) [OF fr] assms(1) by (simp add: queue_ok_def)
  have fv: "favored (entry (cull_queue s) q) = favored (entry u q)" for q
    using redundant_pass_facts(2) [OF len] u(2) by simp
  have e: "trace_mini (entry (cull_reset s) q) = trace_mini (entry s q)" "disabled (entry (cull_reset s) q) = disabled (entry s q)"
    if "q < length (queue_buf s)" for q using cull_reset_entry [OF that] by simp_all
  have cov: "\<forall>k < unat (map_size s). \<not> map_bit (map_tmp_buf u) k \<longrightarrow>
      (\<exists>w m. w < length (queue_buf s) \<and> trace_mini (entry (cull_reset s) w) = Some m \<and> map_bit m k \<and>
         (favored (entry u w) \<or> disabled (entry (cull_reset s) w)))"
    using u(1) by (simp add: cull_inv_def)
  have held: "w < length (queue_buf s)" if "i < unat (map_size s)" "top_rated s ! i = Some w" for i w
    using that assms(1) unfolding queue_ok_def by (metis nth_mem)
  have "\<exists>w' m'. w' < length (queue_buf s) \<and> trace_mini (entry s w') = Some m' \<and> map_bit m' i \<and>
          (favored (entry (cull_queue s) w') \<or> disabled (entry s w'))"
    if "i < unat (map_size s)" "top_rated s ! i = Some w" "trace_mini (entry s w) = Some m" "map_bit m i" for i w m
  proof -
    note i = that(1)
    have "\<not> map_bit (map_tmp_buf u) i"
      using u(1) that held [OF that(1,2)] e by (simp add: cull_inv_def)
    then obtain w' m' where "w' < length (queue_buf s)" "trace_mini (entry (cull_reset s) w') = Some m'" "map_bit m' i"
      "favored (entry u w') \<or> disabled (entry (cull_reset s) w')"
      using cov i by blast
    then show ?thesis using e fv by auto
  qed
  moreover have "Some q \<in> set (top_rated s) \<and> \<not> disabled (entry s q) \<and> trace_mini (entry s q) \<noteq> None"
    if "q < length (queue_buf s)" "favored (entry (cull_queue s) q)" for q
    using u(1) that e [OF that(1)] fv unfolding cull_inv_def cull_reset_simps by metis
  ultimately show ?thesis by blast
qed

text \<open>
  C14 The books of \<open>cull_queue\<close> are right: \<open>queued_favored\<close> and \<open>pending_favored\<close> count the favoured
  entries and those not fuzzed yet, \<open>smallest_favored\<close> is the least id among the latter or -1, every
  enabled entry is marked redundant exactly when it is not favoured, and a second call with no new
  winner changes nothing.
\<close>

theorem cull_queue_books:
  assumes "queue_ok s" and "score_changed s" and "\<not> non_instrumented_mode s"
  shows "unat (queued_favored (cull_queue s)) = card (favs (cull_queue s)) \<and>
    unat (pending_favored (cull_queue s)) = card (pendings (cull_queue s)) \<and>
    smallest_favored (cull_queue s) =
      (if pendings (cull_queue s) = {} then -1 else int (Min (pendings (cull_queue s)))) \<and>
    (\<forall>q < length (queue_buf s). \<not> disabled (entry s q) \<longrightarrow>
       fs_redundant (entry (cull_queue s) q) = (\<not> favored (entry (cull_queue s) q))) \<and>
    cull_queue (cull_queue s) = cull_queue s"
proof -
  obtain u where u: "cull_inv (cull_reset s) {0..<unat (map_size s)} u"
    "cull_queue s = (redundant_pass u)\<lparr>reinit_table := True\<rparr>" using cull_queue_result [OF assms] .
  have fr: "cull_frame (cull_reset s) u" and bk: "fav_books u" using u(1) by (simp_all add: cull_inv_def)
  have len: "length (queue_buf u) = unat (queued_items u)" "length (queue_buf u) = length (queue_buf s)"
    using cull_frameD(1,4) [OF fr] assms(1) by (simp_all add: queue_ok_def)
  note r = redundant_pass_facts [OF len(1)]
  have sets: "favs (cull_queue s) = favs u" "pendings (cull_queue s) = pendings u"
    using r u(2) by (simp_all add: favs_def pendings_def)
  have "\<not> score_changed (cull_queue s)" using u(2) r(8) fr by (simp add: cull_frame_def)
  then have "cull_queue (cull_queue s) = cull_queue s" by (simp add: cull_queue_def [of "cull_queue s"])
  moreover have "disabled (entry u q) = disabled (entry s q)" if "q < length (queue_buf s)" for q
    using cull_frameD(7) [OF fr] cull_reset_entry [OF that] by simp
  ultimately show ?thesis
    unfolding sets using bk r u(2) len(2) by (simp add: fav_books_def least_pending_def)
qed

text \<open>One run of entry \<open>q\<close> with trace \<open>tr\<close>, rated.\<close>

definition rated_run :: "bytes \<Rightarrow> qid \<Rightarrow> 'a afl_queue_scheme \<Rightarrow> 'a afl_queue_scheme" where
  "rated_run tr q s = update_bitmap_score q True (s\<lparr>trace_bits := tr\<rparr>)"

definition two_culls :: afl_queue where
  "two_culls =
     (let s = rated_run ([1, 1] @ replicate 14 0) 1 (small_queue []);
          s = cull_queue (rated_run ([0, 1] @ replicate 14 0) 0 s)
      in cull_queue (rated_run ([1, 0] @ replicate 14 0) 2 s))"

text \<open>
  Favouring forgets: entry 1 covers map bytes 0 and 1, entry 0 holds byte 1 more cheaply, and the
  first culling marks entry 0 redundant and frees its bitmap; when the still cheaper entry 2 then
  takes byte 0 from entry 1, the second culling skips byte 1, because its holder, enabled and
  top-rated, has no bitmap. No favoured entry reaches byte 1 any more.
\<close>

theorem culling_forgets_bytes:
  "top_rated two_culls ! 1 = Some 0 \<and> \<not> disabled (entry two_culls 0) \<and>
   map favored (queue_buf two_culls) = [False, False, True] \<and> trace_mini (entry two_culls 2) = Some [1, 0]"
  by code_simp

definition culling_queue :: afl_queue where
  "culling_queue = (small_queue [])\<lparr>score_changed := True,
     top_rated := [Some 1, Some 0] @ replicate 14 None,
     queue_buf := [(small_entry 0 30)\<lparr>trace_mini := Some [2, 0], tc_ref := 1\<rparr>,
                   (small_entry 1 40)\<lparr>trace_mini := Some [3, 0], tc_ref := 1\<rparr>, small_entry 2 20]\<rparr>"

lemma culling_queue_ok: "queue_ok culling_queue" "score_changed culling_queue" "\<not> non_instrumented_mode culling_queue"
  by (auto simp: culling_queue_def queue_ok_def entry_def small_entry_def All_less_Suc less_Suc_eq nth_append)
    (simp_all add: small_queue_def cov_st.defs)

theorem cull_queue_covers_witness: "favored (entry (cull_queue culling_queue) 1)"
proof -
  have "top_rated culling_queue ! 0 = Some 1" "trace_mini (entry culling_queue 1) = Some [3, 0]" "map_bit [3, 0] 0"
    "unat (map_size culling_queue) = 16"
    by (simp_all add: culling_queue_def entry_def map_bit_def)
  with cull_queue_covers [OF culling_queue_ok] obtain w m where
    w: "w < length (queue_buf culling_queue)" "trace_mini (entry culling_queue w) = Some m" "map_bit m 0"
       "favored (entry (cull_queue culling_queue) w) \<or> disabled (entry culling_queue w)"
    by (metis zero_less_numeral)
  then have "w = 1" by (auto simp: culling_queue_def entry_def small_entry_def map_bit_def less_Suc_eq)
  then show ?thesis using w(4) by (simp add: culling_queue_def entry_def small_entry_def)
qed

theorem cull_queue_books_witness: "cull_queue (cull_queue culling_queue) = cull_queue culling_queue"
  using cull_queue_books [OF culling_queue_ok] by blast

text \<open>A disabled holder hides the bytes of its bitmap: nothing is favoured here although entry 0 is enabled.\<close>

lemma disabled_holder_hides:
  "map favored (queue_buf (cull_queue (set_entry 1 (\<lambda>e. e\<lparr>disabled := True\<rparr>) culling_queue))) = [False, False, False]"
  by code_simp

end
