(* ===== verification/Queue_Steps.thy ===== *)
theory Queue_Steps
  imports Queue
begin

text \<open>
  The life of the queue: entries are appended, rated by their traces, marked, culled and rated
  again after a change of schedule, in any order; and what holds of the queue throughout.
\<close>

section \<open>What the operations leave alone\<close>

text \<open>The list of entries, their ids and the candidates; slots may change hands.\<close>

definition ids_frame :: "'a afl_queue_scheme \<Rightarrow> 'a afl_queue_scheme \<Rightarrow> bool" where
  "ids_frame s t \<longleftrightarrow>
     length (queue_buf t) = length (queue_buf s) \<and> queued_items t = queued_items s \<and>
     map_size t = map_size s \<and> length (map_tmp_buf t) = length (map_tmp_buf s) \<and>
     top_rated_candidates t = top_rated_candidates s \<and>
     (\<forall>p. q_id (entry t p) = q_id (entry s p))"

lemma ids_frame_refl [simp]: "ids_frame s s"
  by (simp add: ids_frame_def)

lemma ids_frame_trans: "ids_frame s t \<Longrightarrow> ids_frame t u \<Longrightarrow> ids_frame s u"
  by (simp add: ids_frame_def)

lemma ids_frame_set_entry: "(\<And>e. q_id (f e) = q_id e) \<Longrightarrow> ids_frame s (set_entry q f s)"
  by (simp add: ids_frame_def) (simp add: set_entry_def)

lemma ids_frame_fold:
  assumes "\<And>x t. ids_frame t (f x t)"
  shows "ids_frame s (fold f xs s)"
proof (induction xs arbitrary: s)
  case (Cons x xs)
  then show ?case using ids_frame_trans [OF assms Cons.IH] by simp
qed simp

lemma ids_frame_release: "ids_frame s (release_winner w s)"
  unfolding release_winner_def by (rule ids_frame_set_entry) (simp add: Let_def)

lemma ids_frame_insert: "ids_frame s (insert_winner ml q i s)"
proof -
  have "ids_frame t (t\<lparr>top_rated := tr, score_changed := True\<rparr>)" for t :: "'a afl_queue_scheme" and tr
    by (simp add: ids_frame_def entry_def)
  then show ?thesis
    unfolding insert_winner_def Let_def by (rule ids_frame_trans [rotated]) (rule ids_frame_set_entry, simp)
qed

lemma ids_frame_contest: "ids_frame s (contest ml q i s)"
  using ids_frame_trans [OF ids_frame_release ids_frame_insert]
  by (auto simp: contest_def ids_frame_insert split: option.split)

lemma set_entry_candidates [simp]: "top_rated_candidates (set_entry q f s) = top_rated_candidates s"
  by (simp add: set_entry_def)

lemma ids_frame_redundant: "ids_frame s (mark_as_redundant q b s)"
  by (simp add: ids_frame_def mark_as_redundant_def Let_def)

lemma ids_frame_cull_slot: "len \<le> length (map_tmp_buf s) \<Longrightarrow> ids_frame s (cull_slot len i s)"
proof -
  assume "len \<le> length (map_tmp_buf s)"
  then have c: "ids_frame s (s\<lparr>map_tmp_buf := cover_bits len m (map_tmp_buf s)\<rparr>)" for m
    by (simp add: ids_frame_def cover_bits_nth)
  have "top_rated_candidates (mark_favored w t) = top_rated_candidates t" for t :: "'a afl_queue_scheme" and w
    by (simp add: mark_favored_def Let_def)
  then have m: "ids_frame t (mark_favored w t)" for t :: "'a afl_queue_scheme" and w
    using cull_frameD(1,3,4,5,8) [OF mark_favored_frame [of t w]] by (simp add: ids_frame_def)
  show ?thesis using ids_frame_trans [OF c m] by (auto simp: cull_slot_def split: option.split)
qed

section \<open>The operations keep the invariant\<close>

text \<open>Every candidate is the id of an entry, and there is a list of candidates per map byte.\<close>

definition cands_ok :: "'a afl_queue_scheme \<Rightarrow> bool" where
  "cands_ok s \<longleftrightarrow> length (top_rated_candidates s) = unat (map_size s) \<and>
     (\<forall>cs\<in>set (top_rated_candidates s). \<forall>c\<in>set cs. unat c < length (queue_buf s))"

definition queue_inv :: "'a afl_queue_scheme \<Rightarrow> bool" where
  "queue_inv s \<longleftrightarrow> refs_ok s \<and> queue_ok s \<and> cands_ok s"

lemma queue_inv_cong:
  assumes "queue_buf t = queue_buf s" "top_rated t = top_rated s" "map_size t = map_size s"
    "queued_items t = queued_items s" "map_tmp_buf t = map_tmp_buf s" "top_rated_candidates t = top_rated_candidates s"
  shows "queue_inv t \<longleftrightarrow> queue_inv s"
  unfolding queue_inv_def refs_ok_def queue_ok_def cands_ok_def entry_def assms by simp

lemma frame_queue_ok:
  assumes "ids_frame s t" and "queue_ok s" and "refs_ok t"
  shows "queue_ok t"
  using assms by (simp add: ids_frame_def queue_ok_def refs_ok_def)

lemma frame_inv:
  assumes "ids_frame s t" and "queue_inv s" and "refs_ok t"
  shows "queue_inv t"
  using frame_queue_ok [OF assms(1) _ assms(3)] assms by (simp add: queue_inv_def cands_ok_def ids_frame_def)

text \<open>The marking operations leave slots and references alone; they may only drop bitmaps.\<close>

lemma refs_ok_mono:
  assumes "refs_ok s" and "top_rated t = top_rated s" and "map_size t = map_size s"
    and "length (queue_buf t) = length (queue_buf s)"
    and "\<And>p. p < length (queue_buf s) \<Longrightarrow> tc_ref (entry t p) = tc_ref (entry s p) \<and>
           (trace_mini (entry t p) = trace_mini (entry s p) \<or> trace_mini (entry t p) = None)"
  shows "refs_ok t"
  using assms unfolding refs_ok_def by (metis (no_types, lifting))

lemma refs_ok_redundant: "refs_ok s \<Longrightarrow> refs_ok (mark_as_redundant q b s)"
  by (erule refs_ok_mono) (auto simp: mark_as_redundant_def Let_def)

lemma redundant_inv [inv_intros]: "queue_inv s \<Longrightarrow> queue_inv (mark_as_redundant q b s)"
  by (rule frame_inv [OF ids_frame_redundant]) (simp_all add: queue_inv_def refs_ok_redundant)

lemma det_done_inv [inv_intros]: "queue_inv s \<Longrightarrow> mark_as_det_done ok q s = Some t \<Longrightarrow> queue_inv t"
proof -
  assume s: "queue_inv s" and t: "mark_as_det_done ok q s = Some t"
  have "t = set_entry q (\<lambda>e. e\<lparr>passed_det := True\<rparr>) s" using t by (simp add: mark_as_det_done_def split: if_splits)
  moreover have "refs_ok (set_entry q (\<lambda>e. e\<lparr>passed_det := True\<rparr>) s)"
    by (rule refs_ok_mono [of s]) (use s in \<open>simp_all add: queue_inv_def\<close>)
  ultimately show ?thesis using frame_inv [OF ids_frame_set_entry s] by simp
qed

lemma rate_inv [inv_intros]:
  assumes s: "queue_inv s" and q: "q < length (queue_buf s)"
  shows "queue_inv (update_bitmap_score q b s)"
proof -
  have "refs_ok (update_bitmap_score q b s)"
    using score_fold_refs [of s "[0..<unat (map_size s)]" q] s q
    by (simp add: update_bitmap_score_def queue_inv_def refs_okD(1))
  moreover have "ids_frame s (update_bitmap_score q b s)"
    unfolding update_bitmap_score_def
    by (simp add: ids_frame_fold score_slot_def ids_frame_contest)
  ultimately show ?thesis using frame_inv s by blast
qed

lemma rescore_inv:
  assumes "queue_inv s" and "i < unat (map_size s)" and "q < length (queue_buf s)"
  shows "queue_inv (update_bitmap_rescore q i s)" "ids_frame s (update_bitmap_rescore q i s)"
proof -
  show fr: "ids_frame s (update_bitmap_rescore q i s)" by (simp add: update_bitmap_rescore_def ids_frame_contest)
  have "refs_ok (update_bitmap_rescore q i s)"
    using assms by (simp add: update_bitmap_rescore_def queue_inv_def contest_refs refs_okD(1))
  then show "queue_inv (update_bitmap_rescore q i s)" using frame_inv [OF fr assms(1)] by blast
qed

lemma mark_favored_mini [simp]:
  "trace_mini (entry (mark_favored w s) p) = trace_mini (entry s p)" "tc_ref (entry (mark_favored w s) p) = tc_ref (entry s p)"
  "top_rated (mark_favored w s) = top_rated s" "map_size (mark_favored w s) = map_size s"
  "length (queue_buf (mark_favored w s)) = length (queue_buf s)"
  by (simp_all add: mark_favored_def Let_def)

lemma cull_slot_inv:
  assumes "queue_inv s" and "len \<le> length (map_tmp_buf s)"
  shows "queue_inv (cull_slot len i s)"
proof -
  have "refs_ok (cull_slot len i s)"
    by (rule refs_ok_mono [of s]) (use assms in \<open>auto simp: queue_inv_def cull_slot_def split: option.split\<close>)
  then show ?thesis using frame_inv [OF ids_frame_cull_slot [OF assms(2)] assms(1)] by blast
qed

lemma cull_inv [inv_intros]:
  fixes s :: "'a afl_queue_scheme"
  assumes s: "queue_inv s"
  shows "queue_inv (cull_queue s)"
proof (cases "score_changed s \<and> \<not> non_instrumented_mode s")
  case True
  let ?len = "unat (map_size s) div 8"
  have fold: "queue_inv (fold (cull_slot ?len) is t) \<and> ids_frame t (fold (cull_slot ?len) is t)"
    if "queue_inv t" "?len \<le> length (map_tmp_buf t)" for "is" t
    using that
  proof (induction "is" arbitrary: t)
    case (Cons i "is")
    have fr: "ids_frame t (cull_slot ?len i t)" by (rule ids_frame_cull_slot [OF Cons.prems(2)])
    then show ?case using Cons.IH [OF cull_slot_inv [OF Cons.prems]] Cons.prems(2) ids_frame_trans [OF fr]
      by (simp add: ids_frame_def)
  qed simp
  have "refs_ok (cull_reset s)" 
    by (rule refs_ok_mono [of s]) (use s in \<open>simp_all add: queue_inv_def cull_reset_entry\<close>)
  moreover have "cands_ok (cull_reset s)" using s by (simp add: queue_inv_def cands_ok_def) (simp add: cull_reset_def Let_def)
  ultimately have r: "queue_inv (cull_reset s)" using s by (simp add: queue_inv_def cull_reset_ok)
  have "?len \<le> length (map_tmp_buf (cull_reset s))" using r unfolding queue_inv_def queue_ok_def by simp
  then have u: "queue_inv (fold (cull_slot ?len) [0..<unat (map_size s)] (cull_reset s))" using fold [OF r] by blast
  have "queue_inv (redundant_pass t)" if "queue_inv t" for t :: "'a afl_queue_scheme"
  proof -
    have "queue_inv (fold redundant_step is t)" for "is"
      using that by (induction "is" arbitrary: t) (simp_all add: redundant_inv)
    then show ?thesis by (simp add: redundant_pass_def)
  qed
  moreover have "queue_inv (t\<lparr>reinit_table := True\<rparr>) \<longleftrightarrow> queue_inv t" for t :: "'a afl_queue_scheme"
    by (rule queue_inv_cong) simp_all
  ultimately show ?thesis using u cull_queue_eq [of s] True by simp
qed (use s in \<open>auto simp: cull_queue_def\<close>)

lemma entry_snoc:
  "entry (t :: 'a afl_queue_scheme) p = (if p < length (queue_buf s) then entry s p else e)"
  if "queue_buf t = queue_buf (s :: 'b afl_queue_scheme) @ [e]" and "p \<le> length (queue_buf s)"
  using that by (auto simp: entry_def nth_append)

lemma add_to_queue_frame:
  "\<exists>e. queue_buf (add_to_queue ct fc fn len p s) = queue_buf s @ [e] \<and> q_id e = queued_items s \<and> tc_ref e = 0 \<and>
    trace_mini e = None"
  "queued_items (add_to_queue ct fc fn len p s) = queued_items s + 1"
  "top_rated (add_to_queue ct fc fn len p s) = top_rated s" "map_size (add_to_queue ct fc fn len p s) = map_size s"
  "map_tmp_buf (add_to_queue ct fc fn len p s) = map_tmp_buf s"
  "top_rated_candidates (add_to_queue ct fc fn len p s) = top_rated_candidates s"
  by (simp_all add: add_to_queue_def new_entry_def Let_def)

lemma add_inv [inv_intros]:
  assumes s: "queue_inv s" and room: "unat (queued_items s) < 2 ^ 32 - 1"
  shows "queue_inv (add_to_queue ct fc fn len p s)"
proof -
  let ?t = "add_to_queue ct fc fn len p s" and ?n = "length (queue_buf s)"
  obtain e where e: "queue_buf ?t = queue_buf s @ [e]" "q_id e = queued_items s" "tc_ref e = 0" "trace_mini e = None"
    using add_to_queue_frame(1) by blast
  note f = add_to_queue_frame(2-6) [of ct fc fn len p s]
  note en = entry_snoc [OF e(1)]
  have n: "?n = unat (queued_items s)" "length (queue_buf ?t) = Suc ?n" "unat (queued_items s + 1) = Suc ?n"
    using s e(1) unat_Suc_word [of "queued_items s"] room by (simp_all add: queue_inv_def queue_ok_def)
  have hold: "\<forall>w. Some w \<in> set (top_rated s) \<longrightarrow> w < ?n" using s unfolding queue_inv_def queue_ok_def by blast
  then have "Some ?n \<notin> set (top_rated s)" by blast
  then have new: "slots_held (top_rated s) ?n = 0" by (simp add: slots_held_def)
  have "refs_ok ?t"
    using s new en e n(2) hold unfolding refs_ok_def queue_inv_def f by (auto simp: less_Suc_eq_le le_less)
  moreover have "queue_ok ?t"
    using s en e n hold unfolding queue_ok_def queue_inv_def f by (auto simp: less_Suc_eq_le le_less)
  moreover have "cands_ok ?t"
    using s n(2) unfolding cands_ok_def queue_inv_def f by (auto intro: less_SucI)
  ultimately show ?thesis by (simp add: queue_inv_def)
qed

section \<open>Scoring everything again\<close>

lemma enroll_cands:
  assumes "length trace = length cs"
  shows "length (enroll c trace cs) = length cs"
    "\<forall>xs\<in>set cs. \<forall>x\<in>set xs. P x \<Longrightarrow> P c \<Longrightarrow> \<forall>xs\<in>set (enroll c trace cs). \<forall>x\<in>set xs. P x"
  using assms by (auto simp: enroll_def dest!: set_zip_rightD)

lemma enroll_from_inv:
  assumes "queue_inv s" and "\<forall>i\<in>set is. i < length (queue_buf s)" and "\<forall>i. length (run i) = unat (map_size s)"
  shows "queue_inv (enroll_from run is s) \<and> length (queue_buf (enroll_from run is s)) = length (queue_buf s) \<and>
    map_size (enroll_from run is s) = map_size s"
  using assms
proof (induction "is" arbitrary: s)
  case (Cons i "is")
  let ?t = "(if disabled (entry s i) then s else s\<lparr>trace_bits := run i,
      top_rated_candidates := enroll (q_id (entry s i)) (run i) (top_rated_candidates s)\<rparr>)\<lparr>last_scored_idx := int i\<rparr>"
  have same: "queue_buf ?t = queue_buf s" "map_size ?t = map_size s" "top_rated ?t = top_rated s"
    "queued_items ?t = queued_items s" "map_tmp_buf ?t = map_tmp_buf s" "entry ?t p = entry s p" for p
    by (simp_all add: entry_def)
  have "unat (q_id (entry s i)) < length (queue_buf s)" using Cons.prems by (simp add: queue_inv_def queue_ok_def)
  moreover have "length (run i) = length (top_rated_candidates s)" using Cons.prems by (simp add: queue_inv_def cands_ok_def)
  ultimately have "cands_ok ?t"
    using Cons.prems(1) enroll_cands(1) [of "run i" "top_rated_candidates s"]
      enroll_cands(2) [of "run i" "top_rated_candidates s" "\<lambda>c. unat c < length (queue_buf s)" "q_id (entry s i)"]
    unfolding cands_ok_def same queue_inv_def by auto
  moreover have "refs_ok ?t \<and> queue_ok ?t" using Cons.prems(1) unfolding queue_inv_def refs_ok_def queue_ok_def same by blast
  ultimately have t: "queue_inv ?t" by (simp add: queue_inv_def)
  have "\<forall>i\<in>set is. i < length (queue_buf ?t)" "\<forall>i. length (run i) = unat (map_size ?t)"
    using Cons.prems(2,3) unfolding same by simp_all
  from Cons.IH [OF t this] show ?case unfolding same by (simp add: Let_def)
qed simp

text \<open>A step that keeps the invariant and the frame, taken for every element of a list.\<close>

lemma frame_fold_inv:
  assumes step: "\<And>x t. queue_inv t \<Longrightarrow> ids_frame s t \<Longrightarrow> x \<in> set xs \<Longrightarrow> queue_inv (f x t) \<and> ids_frame t (f x t)"
    and t: "queue_inv t" "ids_frame s t"
  shows "queue_inv (fold f xs t) \<and> ids_frame s (fold f xs t)"
  using step t
proof (induction xs arbitrary: t)
  case (Cons x xs)
  have x: "queue_inv (f x t)" "ids_frame s (f x t)"
    using Cons.prems(1) [OF Cons.prems(2,3), of x] ids_frame_trans [OF Cons.prems(3)] by auto
  show ?case using Cons.IH [OF Cons.prems(1) x] by simp
qed simp

lemma recalculate_inv [inv_intros]:
  assumes s: "queue_inv s" and run: "\<forall>i. length (run i) = unat (map_size s)"
  shows "queue_inv (recalculate_all_scores run s)"
proof -
  let ?is = "[nat (last_scored_idx s + 1)..<unat (queued_items s)]"
  define u where "u = enroll_from run ?is s"
  have "\<forall>i\<in>set ?is. i < length (queue_buf s)" using s by (simp add: queue_inv_def queue_ok_def)
  from enroll_from_inv [OF s this run] have u: "queue_inv u" by (simp add: u_def)
  let ?f = "\<lambda>i t. fold (\<lambda>c t. update_bitmap_rescore (unat c) i t) (top_rated_candidates t ! i) t"
  have step: "queue_inv (?f i t) \<and> ids_frame t (?f i t)"
    if t: "queue_inv t" "ids_frame u t" "i \<in> set [0..<unat (map_size u)]" for i t
  proof (rule frame_fold_inv [OF _ t(1) ids_frame_refl])
    have i: "i < unat (map_size t)" using t by (simp add: ids_frame_def)
    fix c r assume r: "queue_inv r" "ids_frame t r" "c \<in> set (top_rated_candidates t ! i)"
    have "top_rated_candidates t ! i \<in> set (top_rated_candidates t)"
      using t(1) i by (simp add: queue_inv_def cands_ok_def)
    then have "unat c < length (queue_buf t)" using t(1) r(3) unfolding queue_inv_def cands_ok_def by blast
    then have c: "unat c < length (queue_buf r)" "i < unat (map_size r)" using r(2) i by (simp_all add: ids_frame_def)
    show "queue_inv (update_bitmap_rescore (unat c) i r) \<and> ids_frame r (update_bitmap_rescore (unat c) i r)"
      using rescore_inv [OF r(1) c(2,1)] by blast
  qed
  have "queue_inv (fold ?f [0..<unat (map_size u)] u)"
    using frame_fold_inv [where f = ?f and s = u, OF _ u ids_frame_refl] step by blast
  then show ?thesis by (simp add: recalculate_all_scores_def Let_def u_def)
qed

section \<open>The queue over time\<close>

text \<open>
  The operations the fuzzer performs on the queue, in any order. A rating comes after a run, which
  leaves some trace; an entry may be disabled or change its measures (\<open>calibrate_case\<close>,
  \<open>fuzz_one\<close>); \<open>room\<close> is the limit of the 32-bit counter of entries.
\<close>

inductive queue_step :: "afl_queue \<Rightarrow> afl_queue \<Rightarrow> bool" where
  add: "unat (queued_items s) < 2 ^ 32 - 1 \<Longrightarrow> queue_step s (add_to_queue ct fc fn len p s)"
| rate: "q < length (queue_buf s) \<Longrightarrow> queue_step s (update_bitmap_score q b (s\<lparr>trace_bits := tr\<rparr>))"
| cull: "queue_step s (cull_queue s)"
| redundant: "queue_step s (mark_as_redundant q b s)"
| det_done: "mark_as_det_done ok q s = Some t \<Longrightarrow> queue_step s t"
| rescore_all: "\<forall>i. length (run i) = unat (map_size s) \<Longrightarrow> queue_step s (recalculate_all_scores run s)"
| schedule: "queue_step s (s\<lparr>schedule := sch, score_changed := True\<rparr>)"
| measure: "queue_step s (set_entry q (\<lambda>e. e\<lparr>exec_us := us, fuzz_level := l, was_fuzzed := w, disabled := d, q_len := len\<rparr>) s)"

inductive_simps queue_step_iff: "queue_step s t"

inductive queue_reach :: "afl_queue \<Rightarrow> afl_queue \<Rightarrow> bool" for init where
  start: "queue_reach init init"
| more: "queue_reach init s \<Longrightarrow> queue_step s t \<Longrightarrow> queue_reach init t"

lemma queue_step_inv: "queue_step s t \<Longrightarrow> queue_inv s \<Longrightarrow> queue_inv t"
proof (induction rule: queue_step.induct)
  case (rate q s b tr)
  have "queue_inv (s\<lparr>trace_bits := tr\<rparr>)" using rate.prems by (subst queue_inv_cong [of _ s]) simp_all
  then show ?case by (rule rate_inv) (use rate.hyps in simp)
next
  case (schedule s sch)
  then show ?case by (subst queue_inv_cong [of _ s]) simp_all
next
  case (measure s q len d w l us)
  let ?t = "set_entry q (\<lambda>e. e\<lparr>exec_us := us, fuzz_level := l, was_fuzzed := w, disabled := d, q_len := len\<rparr>) s"
  have "refs_ok ?t" by (rule refs_ok_mono [of s]) (use measure in \<open>simp_all add: queue_inv_def\<close>)
  then show ?case using frame_inv [OF ids_frame_set_entry measure] by simp
qed (blast intro: inv_intros)+

text \<open>
  C15 Whatever the fuzzer does to the queue, in any order, every slot names an entry of the queue, an
  entry's reference count is the number of map bytes it is top-rated for, an entry that holds no
  byte keeps no bitmap, and ids are positions.
\<close>

theorem queue_refs_invariant:
  assumes "queue_reach init s" and "queue_inv init"
  shows "(\<forall>w. Some w \<in> set (top_rated s) \<longrightarrow> w < length (queue_buf s)) \<and>
    (\<forall>q < length (queue_buf s). unat (q_id (entry s q)) = q \<and>
       unat (tc_ref (entry s q)) = slots_held (top_rated s) q \<and>
       (slots_held (top_rated s) q = 0 \<longrightarrow> trace_mini (entry s q) = None))"
proof -
  have "queue_inv s" using assms by (induction rule: queue_reach.induct) (auto intro: queue_step_inv)
  then have r: "refs_ok s" "queue_ok s" by (simp_all add: queue_inv_def)
  have "trace_mini (entry s q) = None" if "q < length (queue_buf s)" "slots_held (top_rated s) q = 0" for q
    using refs_okD(3,4) [OF r(1) that(1)] that(2) by (metis unat_eq_zero)
  then show ?thesis using r by (simp add: refs_ok_def queue_ok_def)
qed

lemma small_queue_inv: "queue_inv (small_queue tr)"
proof -
  have "queue_ok (small_queue tr)" "cands_ok (small_queue tr)"
    by (simp_all add: queue_ok_def cands_ok_def All_less_Suc entry_def small_entry_def)
      (simp_all add: small_queue_def cov_st.defs)
  then show ?thesis by (simp add: queue_inv_def small_queue_refs)
qed

theorem queue_refs_invariant_witness:
  "unat (tc_ref (entry (cull_queue (update_bitmap_score 1 True (small_queue []\<lparr>trace_bits := replicate 16 1\<rparr>))) 1)) =
   slots_held (top_rated (cull_queue (update_bitmap_score 1 True (small_queue []\<lparr>trace_bits := replicate 16 1\<rparr>)))) 1"
proof -
  let ?s = "cull_queue (update_bitmap_score 1 True (small_queue []\<lparr>trace_bits := replicate 16 1\<rparr>))"
  have r: "queue_reach (small_queue []) ?s"
    by (intro queue_reach.more [OF queue_reach.more [OF queue_reach.start queue_step.rate] queue_step.cull]) simp
  have "1 < length (queue_buf ?s)" by code_simp
  then show ?thesis using queue_refs_invariant [OF r small_queue_inv] by blast
qed

end
