(* ===== verification/Queue_Text.thy ===== *)
theory Queue_Text
  imports Queue
begin

text \<open>
  The text detector of the queue against the encoding it looks for: a text is a sequence of
  characters, each a printable ASCII byte, a tab or line end, or a well-formed UTF-8 sequence of
  two to four bytes (no overlong forms, no surrogates, at most \<open>U+10FFFF\<close>).
\<close>

definition text_char :: "bytes \<Rightarrow> bool" where
  "text_char c \<longleftrightarrow>
     length c = 1 \<and> text_byte (c ! 0) \<or> length c = 2 \<and> utf8_two c \<or>
     length c = 3 \<and> utf8_three c \<or> length c = 4 \<and> utf8_four c"

text \<open>The lead byte of a sequence decides which of the tests it passes.\<close>

lemma lead_byte:
  "utf8_two (a # bs) \<Longrightarrow> 0xC2 \<le> unat a \<and> unat a \<le> 0xDF"
  "utf8_three (a # bs) \<Longrightarrow> 0xE0 \<le> unat a \<and> unat a \<le> 0xEF"
  "utf8_four (a # bs) \<Longrightarrow> 0xF0 \<le> unat a \<and> unat a \<le> 0xF4"
  "text_byte a \<Longrightarrow> unat a \<le> 0x7E"
  "ascii_byte a \<Longrightarrow> unat a \<le> 0x7F"
proof -
  show "utf8_two (a # bs) \<Longrightarrow> 0xC2 \<le> unat a \<and> unat a \<le> 0xDF"
    by (cases bs) (simp_all add: cont_byte_def word_le_nat_alt)
  show "utf8_three (a # bs) \<Longrightarrow> 0xE0 \<le> unat a \<and> unat a \<le> 0xEF"
    by (cases bs; cases "tl bs") (auto simp: cont_byte_def word_le_nat_alt)
  show "utf8_four (a # bs) \<Longrightarrow> 0xF0 \<le> unat a \<and> unat a \<le> 0xF4"
    by (cases bs; cases "tl bs"; cases "tl (tl bs)") (auto simp: cont_byte_def word_le_nat_alt)
  show "text_byte a \<Longrightarrow> unat a \<le> 0x7E" "ascii_byte a \<Longrightarrow> unat a \<le> 0x7F"
    by (auto simp: text_byte_def ascii_byte_def word_le_nat_alt)
qed

lemma lead_excludes:
  "utf8_two (a # bs) \<Longrightarrow> \<not> text_byte a \<and> \<not> ascii_byte a"
  "utf8_three (a # bs) \<Longrightarrow> \<not> text_byte a \<and> \<not> ascii_byte a \<and> \<not> utf8_two (a # cs)"
  "utf8_four (a # bs) \<Longrightarrow> \<not> text_byte a \<and> \<not> ascii_byte a \<and> \<not> utf8_two (a # cs) \<and> \<not> utf8_three (a # cs)"
  using lead_byte(1-3) [of a bs] lead_byte(1-3) [of a cs] lead_byte(4,5) [of a] by linarith+

lemma length_cases:
  "length c = 2 \<Longrightarrow> \<exists>x y. c = [x, y]" "length c = 3 \<Longrightarrow> \<exists>x y z. c = [x, y, z]"
  "length c = 4 \<Longrightarrow> \<exists>x y z u. c = [x, y, z, u]"
  by (auto simp: numeral_eq_Suc length_Suc_conv)

lemma text_scan_multi:
  assumes "\<not> text_byte b \<and> \<not> ascii_byte b"
  shows "utf8_two (b # bs) \<Longrightarrow> text_scan (b # bs) (a, u, k) = text_scan (drop 1 bs) (a, u + 1, k + 1)"
    "\<not> utf8_two (b # bs) \<Longrightarrow> utf8_three (b # bs) \<Longrightarrow>
       text_scan (b # bs) (a, u, k) = text_scan (drop 2 bs) (a, u + 1, k + 2)"
    "\<not> utf8_two (b # bs) \<Longrightarrow> \<not> utf8_three (b # bs) \<Longrightarrow> utf8_four (b # bs) \<Longrightarrow>
       text_scan (b # bs) (a, u, k) = text_scan (drop 3 bs) (a, u + 1, k + 3)"
  using assms by (simp_all add: Let_def)

lemma text_scan_char:
  assumes "text_char c"
  shows "text_scan (c @ bs) (a, u, k) =
    text_scan bs (a + of_bool (length c = 1), u + 1, k + (length c - 1))"
  using assms unfolding text_char_def
proof (elim disjE conjE)
  assume "length c = 1" "text_byte (c ! 0)"
  then show ?thesis by (cases c) auto
next
  assume c: "length c = 2" "utf8_two c"
  then obtain x y where e: "c = [x, y]" using length_cases(1) by blast
  then have "utf8_two (x # y # bs)" using c by simp
  from text_scan_multi(1) [OF lead_excludes(1) [OF this] this] show ?thesis unfolding e by simp
next
  assume c: "length c = 3" "utf8_three c"
  then obtain x y z where e: "c = [x, y, z]" using length_cases(2) by blast
  then have three: "utf8_three (x # y # z # bs)" using c by simp
  note ex = lead_excludes(2) [OF three, of "y # z # bs"]
  have "text_scan (x # y # z # bs) (a, u, k) = text_scan (drop 2 (y # z # bs)) (a, u + 1, k + 2)"
    by (rule text_scan_multi(2)) (use ex three in blast)+
  then show ?thesis unfolding e by (simp del: text_scan.simps add: numeral_eq_Suc)
next
  assume c: "length c = 4" "utf8_four c"
  then obtain x y z v where e: "c = [x, y, z, v]" using length_cases(3) by blast
  then have four: "utf8_four (x # y # z # v # bs)" using c by simp
  note ex = lead_excludes(3) [OF four, of "y # z # v # bs"]
  have "text_scan (x # y # z # v # bs) (a, u, k) = text_scan (drop 3 (y # z # v # bs)) (a, u + 1, k + 3)"
    by (rule text_scan_multi(3)) (use ex four in blast)+
  then show ?thesis unfolding e by (simp del: text_scan.simps add: numeral_eq_Suc)
qed

definition ascii_chars :: "bytes list \<Rightarrow> nat" where
  "ascii_chars cs = length (filter (\<lambda>c. length c = 1) cs)"

lemma text_scan_chars:
  assumes "\<forall>c\<in>set cs. text_char c"
  shows "text_scan (concat cs) (a, u, k) =
    (a + of_nat (ascii_chars cs), u + of_nat (length cs), k + (length (concat cs) - length cs))"
  using assms
proof (induction cs arbitrary: a u k)
  case (Cons c cs)
  have l: "length c \<ge> 1" using Cons.prems by (auto simp: text_char_def)
  have "length (concat cs) \<ge> length cs"
    using Cons.prems by (induction cs) (auto simp: text_char_def)
  then show ?case using Cons l
    by (simp add: text_scan_char ascii_chars_def algebra_simps del: text_scan.simps)
qed (simp add: ascii_chars_def)

lemma chars_le: "\<forall>c\<in>set cs. text_char c \<Longrightarrow> length cs \<le> length (concat cs)"
  by (induction cs) (auto simp: text_char_def)

lemma ascii_chars_le: "ascii_chars cs \<le> length cs"
  by (simp add: ascii_chars_def)

text \<open>
  \<open>check_if_text\<close> accepts every well-formed text: a file of 12 to 65535 bytes that is a sequence
  of such characters is classified as UTF-8 (2), whatever the mix of one- to four-byte characters.
\<close>

theorem check_if_text_accepts:
  assumes "\<forall>c\<in>set cs. text_char c" and "12 \<le> length (concat cs)" and "length (concat cs) \<le> 65535"
    and "q_len q = of_nat (length (concat cs))"
  shows "check_if_text (Some (concat cs)) q = 2"
proof -
  let ?n = "length (concat cs)" and ?m = "length cs"
  have len: "unat (q_len q) = ?n" using assms(3,4) by (simp add: unat_of_nat take_bit_nat_eq_self)
  have m: "?m \<le> ?n" "0 < ?m" using chars_le [OF assms(1)] assms(2) by auto
  have rng: "\<not> q_len q < 12" "\<not> q_len q > 65535" using len assms(2,3) by (simp_all add: word_less_nat_alt)
  have sc: "text_scan (concat cs) (0, 0, 0) = (of_nat (ascii_chars cs), of_nat ?m, ?n - ?m)"
    using text_scan_chars [OF assms(1), of 0 0 0] by simp
  have hundred: "unat (of_nat k * 100 :: u32) = k * 100" if "k \<le> 65535" for k
    using that by (simp add: unat_word_ariths unat_of_nat take_bit_nat_eq_self)
  have u: "unat (of_nat ?m * 100 :: u32) div (?n - (?n - ?m)) = 100"
    using hundred [of ?m] m assms(3) by simp
  have "(of_nat (ascii_chars cs) * 100) div q_len q \<le> (100 :: u32)"
  proof -
    have "ascii_chars cs * 100 \<le> ?n * 100" using ascii_chars_le [of cs] m by simp
    then have "(ascii_chars cs * 100) div ?n \<le> 100" using m by (simp add: div_le_mono [of _ "?n * 100" ?n, THEN order_trans])
    then show ?thesis
      using len hundred [of "ascii_chars cs"] ascii_chars_le [of cs] m assms(3)
      by (simp add: word_le_nat_alt unat_div)
  qed
  then show ?thesis
    using rng len u sc unfolding check_if_text_def by (simp add: Let_def)
qed

theorem check_if_text_accepts_witness:
  "check_if_text (Some (concat (replicate 10 [0x61] @ [[0xC3, 0xA9]]))) (small_entry 0 12) = 2"
proof (rule check_if_text_accepts)
  have "text_char [0x61]" by (simp add: text_char_def text_byte_def)
  moreover have "text_char [0xC3, 0xA9]" by (simp add: text_char_def cont_byte_def)
  ultimately show "\<forall>c\<in>set (replicate 10 [0x61] @ [[0xC3, 0xA9]]). text_char c" by simp
qed (simp_all add: small_entry_def length_concat sum_list_replicate)

text \<open>
  \<open>check_if_text_buf\<close> counts the characters of a buffer but returns the count as one byte: on
  plain text the result is the length modulo 256, so a buffer of 256 printable bytes counts as no text.
\<close>

theorem check_if_text_buf_wraps:
  assumes "list_all text_byte buf" and "length buf < 2 ^ 32"
  shows "unat (check_if_text_buf buf) = length buf mod 256"
proof -
  have "text_scan buf (a, u, k) = (a + of_nat (length buf), u + of_nat (length buf), k)" for a u k
    using assms(1) by (induction buf arbitrary: a u k) (simp_all add: algebra_simps)
  then have "check_if_text_buf buf = ucast (of_nat (length buf) :: u32)" by (simp add: check_if_text_buf_def)
  then have "unat (check_if_text_buf buf) = take_bit 8 (unat (of_nat (length buf) :: u32))"
    by (simp add: unsigned_ucast_eq)
  also have "unat (of_nat (length buf) :: u32) = length buf" using assms(2) by (simp add: unat_of_nat take_bit_nat_eq_self)
  finally show ?thesis by (simp add: take_bit_eq_mod)
qed

theorem check_if_text_buf_wraps_witness: "check_if_text_buf (replicate 256 0x61) = 0"
  using check_if_text_buf_wraps [of "replicate 256 0x61"] by (simp add: list_all_iff text_byte_def unat_eq_zero)

end
