(* ===== verification/Sched.thy ===== *)
theory Sched
  imports Queue
begin

text \<open>
  Seed scheduling: the probability of a seed by the security states it reached
  (\<open>src/src/afl-fuzz-nv-sched.c\<close>), and \<open>select_next_queue_entry\<close>, \<open>create_alias_table\<close> and
  \<open>calculate_score\<close> of \<open>src/src/afl-fuzz-queue.c\<close>.
\<close>

section \<open>State\<close>

text \<open>
  The arithmetic of a machine: \<open>double\<close>, \<open>long double\<close>, and the two other logarithms. Values are
  finite; where the C result would not be (a quotient by zero, the logarithm of zero) the real
  operation of the model has some value and no theorem speaks of it.
\<close>

record sched_math =
  m_double :: fpu
  m_long :: fpu
  m_log2 :: "real \<Rightarrow> real"
  m_log10 :: "real \<Rightarrow> real"

definition exact_math :: sched_math where
  "exact_math = \<lparr>m_double = exact_fpu, m_long = exact_fpu, m_log2 = log 2, m_log10 = log 10\<rparr>"

record afl_sched = afl_queue +
  rng :: rand_st
  total_cal_us :: u64
  total_cal_cycles :: u64
  total_bitmap_size :: u64
  total_bitmap_entries :: u64
  havoc_max_mult :: u8
  queued_discovered :: u32
  limit_time_sig :: int
  fsrv_total_execs :: u64
  alias_probability :: "real list"
  alias_table :: "u32 list"
  seed_audit_enabled :: bool
  seed_audit_invalid :: bool
  seed_audit_error_count :: u64
  seed_audit_record_count :: u64
  seed_audit_expected_selection_count :: u64
  sched_stop_soon :: bool

definition d_of_u32 :: "fpu \<Rightarrow> u32 \<Rightarrow> real" where
  "d_of_u32 fp w = rnd fp (real (unat w))"

text \<open>A \<open>double\<close> stored in a \<open>u32\<close>: truncated towards zero. Out of range, where C leaves the
  result open, it wraps.\<close>

definition d_to_u32 :: "real \<Rightarrow> u32" where
  "d_to_u32 x = of_int (if 0 \<le> x then \<lfloor>x\<rfloor> else \<lceil>x\<rceil>)"

section \<open>The probability of a seed\<close>

definition ss_calc_prob :: "fpu \<Rightarrow> queue_entry \<Rightarrow> real" where
  "ss_calc_prob fp q =
     (let eps = dlit fp 0.01;
          alpha = dlit fp 0.7;
          num = d_of_u64 fp (ss_cov_cnt q + 1);
          den = fp_pow fp (d_of_u64 fp (ss_selected_cnt q + 1)) alpha;
          score = ddiv fp num den
      in if score < eps then eps else score)"

section \<open>The audit of selections\<close>

text \<open>
  What the environment and the file system answer: the path, whether the file opens, how many
  characters are written, whether it closes; \<open>fmt\<close> is the text of a \<open>double\<close> by \<open>%.17g\<close>.
\<close>

record seed_audit_io =
  audit_path :: "c_string ptr"
  audit_opens :: bool
  audit_writes :: "nat \<Rightarrow> int"
  audit_closes :: bool

definition seed_audit_line :: "(real \<Rightarrow> c_string) \<Rightarrow> queue_entry \<Rightarrow> c_string" where
  "seed_audit_line fmt q =
     ''{\"queue_id\":'' @ dec_nat (unat (q_id q)) @ '',\"depth\":'' @ dec_nat (unat (depth q)) @
     '',\"ss_cov_cnt\":'' @ dec_nat (unat (ss_cov_cnt q)) @
     '',\"ss_selected_cnt\":'' @ dec_nat (unat (ss_selected_cnt q)) @
     '',\"ss_prob\":'' @ fmt (ss_prob q) @ ''}'' @ [CHR 0x0A]"

definition ss_selection_audit_failure :: "'a afl_sched_scheme \<Rightarrow> bool \<times> 'a afl_sched_scheme" where
  "ss_selection_audit_failure afl =
     (False, afl\<lparr>seed_audit_error_count := seed_audit_error_count afl + 1,
                 seed_audit_invalid := True, sched_stop_soon := True\<rparr>)"

definition nv_seed_selection_audit_record ::
  "(real \<Rightarrow> c_string) \<Rightarrow> seed_audit_io \<Rightarrow> queue_entry ptr \<Rightarrow> 'a afl_sched_scheme \<Rightarrow> bool \<times> 'a afl_sched_scheme" where
  "nv_seed_selection_audit_record fmt io q afl =
     (case (audit_path io, q) of
        (Some path, Some q) \<Rightarrow>
          if path = [] then (True, afl)
          else
            let afl = afl\<lparr>seed_audit_enabled := True,
                          seed_audit_expected_selection_count := seed_audit_expected_selection_count afl + 1\<rparr>;
                n = length (seed_audit_line fmt q)
            in if n \<ge> 512 then ss_selection_audit_failure afl
               else if \<not> audit_opens io then ss_selection_audit_failure afl
               else if audit_writes io n \<noteq> int n then ss_selection_audit_failure afl
               else if \<not> audit_closes io then ss_selection_audit_failure afl
               else (True, afl\<lparr>seed_audit_record_count := seed_audit_record_count afl + 1\<rparr>)
      | _ \<Rightarrow> (True, afl))"

section \<open>Selecting the next seed\<close>

text \<open>Writing the probabilities, and their sum; \<open>queue_buf\<close> has no null entries below \<open>queued_items\<close>.\<close>

definition update_probs :: "fpu \<Rightarrow> 'a afl_sched_scheme \<Rightarrow> real \<times> 'a afl_sched_scheme" where
  "update_probs fp afl =
     fold (\<lambda>i (total, afl). let p = ss_calc_prob fp (entry afl i)
                            in (dadd fp total p, set_entry i (\<lambda>e. e\<lparr>ss_prob := p\<rparr>) afl))
       [0..<unat (queued_items afl)] (0, afl)"

fun roulette :: "fpu \<Rightarrow> real \<Rightarrow> real \<Rightarrow> nat \<Rightarrow> real list \<Rightarrow> nat option" where
  "roulette fp r acc i [] = None"
| "roulette fp r acc i (p # ps) =
     (let acc = dadd fp acc p in if acc \<ge> r then Some i else roulette fp r acc (Suc i) ps)"

definition take_seed :: "(real \<Rightarrow> c_string) \<Rightarrow> seed_audit_io \<Rightarrow> nat \<Rightarrow> 'a afl_sched_scheme \<Rightarrow> u32 \<times> 'a afl_sched_scheme" where
  "take_seed fmt io i afl =
     (let afl = set_entry i (\<lambda>e. e\<lparr>ss_selected_cnt := ss_selected_cnt e + 1\<rparr>) afl
      in (of_nat i, snd (nv_seed_selection_audit_record fmt io (Some (entry afl i)) afl)))"

definition select_next_queue_entry ::
  "fpu \<Rightarrow> urandom \<Rightarrow> (real \<Rightarrow> c_string) \<Rightarrow> seed_audit_io \<Rightarrow> 'a afl_sched_scheme \<Rightarrow> (u32 \<times> 'a afl_sched_scheme) option" where
  "select_next_queue_entry fp urandom fmt io afl =
     (if queued_items afl = 0 then Some (0, afl)
      else
        let (total, afl) = update_probs fp afl in
        if total \<le> 0 then
          map_option (\<lambda>(k, g). take_seed fmt io (unat k) (afl\<lparr>rng := g\<rparr>))
            (rand_below urandom (queued_items afl) (rng afl))
        else
          map_option (\<lambda>(k, g).
              let afl = afl\<lparr>rng := g\<rparr>;
                  r = dmul fp (ddiv fp (d_of_u32 fp k) (d_of_u32 fp 0x7fffffff)) total
              in case roulette fp r 0 0 (map ss_prob (take (unat (queued_items afl)) (queue_buf afl))) of
                   Some i \<Rightarrow> take_seed fmt io i afl
                 | None \<Rightarrow> take_seed fmt io (unat (queued_items afl) - 1) afl)
            (rand_below urandom 0x7fffffff (rng afl)))"
section \<open>The energy of a seed\<close>

definition POWER_BETA :: u32 where "POWER_BETA = 1"
definition MAX_FACTOR :: u32 where "MAX_FACTOR = 32"

text \<open>\<open>perf_score *= f\<close> for a \<open>double\<close> factor.\<close>

definition scale_score :: "fpu \<Rightarrow> u32 \<Rightarrow> real \<Rightarrow> u32" where
  "scale_score fp s f = d_to_u32 (dmul fp (d_of_u32 fp s) f)"

definition speed_score :: "fpu \<Rightarrow> u64 \<Rightarrow> u32 \<Rightarrow> u32" where
  "speed_score fp us avg =
     (if dmul fp (d_of_u64 fp us) (dlit fp 0.1) > d_of_u32 fp avg then 10
      else if dmul fp (d_of_u64 fp us) (dlit fp 0.25) > d_of_u32 fp avg then 25
      else if dmul fp (d_of_u64 fp us) (dlit fp 0.5) > d_of_u32 fp avg then 50
      else if dmul fp (d_of_u64 fp us) (dlit fp 0.75) > d_of_u32 fp avg then 75
      else if us * 4 < ucast avg then 300
      else if us * 3 < ucast avg then 200
      else if us * 2 < ucast avg then 150
      else 100)"

definition coverage_score :: "fpu \<Rightarrow> u32 \<Rightarrow> u32 \<Rightarrow> u32 \<Rightarrow> u32" where
  "coverage_score fp bms avg s =
     (if dmul fp (d_of_u32 fp bms) (dlit fp 0.3) > d_of_u32 fp avg then s * 3
      else if dmul fp (d_of_u32 fp bms) (dlit fp 0.5) > d_of_u32 fp avg then s * 2
      else if dmul fp (d_of_u32 fp bms) (dlit fp 0.75) > d_of_u32 fp avg then scale_score fp s (dlit fp 1.5)
      else if bms * 3 < avg then scale_score fp s (dlit fp 0.25)
      else if bms * 2 < avg then scale_score fp s (dlit fp 0.5)
      else if dmul fp (d_of_u32 fp bms) (dlit fp 1.5) < d_of_u32 fp avg then scale_score fp s (dlit fp 0.75)
      else s)"

text \<open>The bonus of a latecomer and the handicap it has left.\<close>

definition handicap_score :: "u64 \<Rightarrow> u32 \<Rightarrow> u32 \<times> u64" where
  "handicap_score h s =
     (if h \<ge> 4 then (s * 4, h - 4) else if h \<noteq> 0 then (s * 2, h - 1) else (s, h))"

definition depth_score :: "u64 \<Rightarrow> u32 \<Rightarrow> u32" where
  "depth_score d s =
     (if d \<le> 3 then s else if d \<le> 7 then s * 2 else if d \<le> 13 then s * 3
      else if d \<le> 25 then s * 4 else s * 5)"

definition hits_of :: "'a afl_sched_scheme \<Rightarrow> queue_entry \<Rightarrow> u32" where
  "hits_of afl q = n_fuzz afl ! unat (n_fuzz_entry q)"

definition log2_hits :: "sched_math \<Rightarrow> 'a afl_sched_scheme \<Rightarrow> queue_entry \<Rightarrow> real" where
  "log2_hits fm afl q = m_log2 fm (d_of_u32 (m_double fm) (hits_of afl q))"

text \<open>The mean of the logarithms over the enabled entries; no enabled entry ends the program.\<close>

definition coe_mean :: "sched_math \<Rightarrow> 'a afl_sched_scheme \<Rightarrow> real option" where
  "coe_mean fm afl =
     (let (mu, n) = fold (\<lambda>i (mu, n). if disabled (entry afl i) then (mu, n)
                          else (dadd (m_long fm) mu (log2_hits fm afl (entry afl i)), n + 1))
                      [0..<unat (queued_items afl)] (0 :: real, 0 :: u32)
      in if n = 0 then None else Some (ddiv (m_long fm) mu (real (unat n))))"

definition fast_factor :: "sched_math \<Rightarrow> 'a afl_sched_scheme \<Rightarrow> queue_entry \<Rightarrow> real" where
  "fast_factor fm afl q =
     (if fuzz_level q = 0 then 1
      else
        let k = d_to_u32 (log2_hits fm afl q);
            fp = m_double fm;
            f = (if k \<le> 1 then 4 else if k \<le> 3 then 3 else if k = 4 then 2 else if k = 5 then 1
                 else if favored q then 1
                 else if k = 6 then dlit fp 0.8 else if k = 7 then dlit fp 0.6 else dlit fp 0.4)
        in if favored q then dmul fp f (dlit fp 1.15) else f)"

text \<open>
  The factor of the schedule and the score; \<open>None\<close> is the end of the program: no enabled entry
  under \<open>COE\<close>, a division by zero under \<open>LIN\<close> and \<open>QUAD\<close>.
\<close>

definition schedule_score :: "sched_math \<Rightarrow> 'a afl_sched_scheme \<Rightarrow> queue_entry \<Rightarrow> u32 \<Rightarrow> (real \<times> u32) option" where
  "schedule_score fm afl q s =
     (let fp = m_double fm in
      case schedule afl of
        EXPLORE \<Rightarrow> Some (1, s)
      | SEEK \<Rightarrow> Some (1, s)
      | EXPLOIT \<Rightarrow> Some (d_of_u32 fp MAX_FACTOR, s)
      | COE \<Rightarrow>
          if fuzz_level q = 0 then Some (1, s)
          else (case coe_mean fm afl of
                  None \<Rightarrow> None
                | Some mu \<Rightarrow>
                    if log2_hits fm afl q > mu then Some (if favored q then 1 else 0, s)
                    else Some (fast_factor fm afl q, s))
      | FAST \<Rightarrow> Some (fast_factor fm afl q, s)
      | LIN \<Rightarrow>
          if fuzz_level q = 0 then Some (1, s)
          else if hits_of afl q + 1 = 0 then None
          else Some (d_of_u32 fp (fuzz_level q div (hits_of afl q + 1)), s)
      | QUAD \<Rightarrow>
          if fuzz_level q = 0 then Some (1, s)
          else if hits_of afl q + 1 = 0 then None
          else Some (d_of_u32 fp (fuzz_level q * fuzz_level q div (hits_of afl q + 1)), s)
      | MMOPT \<Rightarrow> Some (1, if ucast (max_depth afl) - depth q < 5 then s * 2 else s)
      | RARE \<Rightarrow>
          Some (1, scale_score fp (s + tc_ref q * 10)
                     (dsub fp 1 (ddiv fp (d_of_u32 fp (hits_of afl q)) (d_of_u64 fp (fsrv_total_execs afl))))))"

text \<open>The last part: the factor, the mode of MOpt, the floor and the ceiling.\<close>

definition finish_score :: "fpu \<Rightarrow> 'a afl_sched_scheme \<Rightarrow> queue_entry \<Rightarrow> real \<Rightarrow> u32 \<Rightarrow> u32" where
  "finish_score fp afl q factor s =
     (let s = (if schedule_no (schedule afl) \<ge> schedule_no EXPLOIT \<and> schedule_no (schedule afl) \<le> schedule_no QUAD
               then scale_score fp s (ddiv fp (if factor > d_of_u32 fp MAX_FACTOR then d_of_u32 fp MAX_FACTOR else factor)
                                              (d_of_u32 fp POWER_BETA))
               else s);
          s = (if limit_time_sig afl \<noteq> 0 \<and> ucast (max_depth afl) - depth q < 3 then s * 2
               else if schedule afl \<noteq> COE \<and> s < 1 then 1 else s);
          limit = ucast (havoc_max_mult afl) * 100
      in if s > limit then limit else s)"

definition calculate_score :: "sched_math \<Rightarrow> qid \<Rightarrow> 'a afl_sched_scheme \<Rightarrow> (u32 \<times> 'a afl_sched_scheme) option" where
  "calculate_score fm qi afl =
     (let fp = m_double fm; q = entry afl qi;
          cal_cycles = (ucast (total_cal_cycles afl) :: u32);
          bitmap_entries = (ucast (total_bitmap_entries afl) :: u32);
          cal_cycles = (if cal_cycles = 0 then 1 else cal_cycles);
          bitmap_entries = (if bitmap_entries = 0 then 1 else bitmap_entries);
          avg_exec_us = ucast (total_cal_us afl div ucast cal_cycles);
          avg_bitmap_size = ucast (total_bitmap_size afl div ucast bitmap_entries);
          s = (if schedule_no (schedule afl) < schedule_no RARE \<and> \<not> q_fixed_seed afl
               then speed_score fp (exec_us q) avg_exec_us else 100);
          s = coverage_score fp (bitmap_size q) avg_bitmap_size s;
          (s, h) = handicap_score (handicap q) s;
          s = depth_score (depth q) s
      in map_option (\<lambda>(factor, s). (finish_score fp afl q factor s, set_entry qi (\<lambda>e. e\<lparr>handicap := h\<rparr>) afl))
           (schedule_score fm afl q s))"

section \<open>The alias table\<close>

text \<open>The sums over the enabled entries: time, coverage, length, and how many they are.\<close>

definition weight_sums :: "fpu \<Rightarrow> 'a afl_sched_scheme \<Rightarrow> real \<times> real \<times> real \<times> u32" where
  "weight_sums fp afl =
     fold (\<lambda>i (us, bms, len, active).
             let q = entry afl i in
             if disabled q then (us, bms, len, active)
             else (dadd fp us (d_of_u64 fp (exec_us q)), dadd fp bms (fp_log fp (d_of_u32 fp (bitmap_size q))),
                   dadd fp len (d_of_u32 fp (q_len q)), active + 1))
       [0..<unat (queued_items afl)] (0, 0, 0, 0)"

definition time_weight :: "fpu \<Rightarrow> real \<Rightarrow> real \<Rightarrow> real" where
  "time_weight fp t w =
     (if t < dlit fp 0.1 then w else if t \<le> 0.25 then dmul fp w (dlit fp 0.95)
      else if t \<le> 0.5 then w else if t \<le> 0.75 then dmul fp w (dlit fp 1.05)
      else if t \<le> 1 then dmul fp w (dlit fp 1.1) else if t < 1.25 then dmul fp w (dlit fp 0.2)
      else if t \<le> 1.5 then w else if t \<le> 2 then dmul fp w (dlit fp 1.1)
      else if t \<le> 2.5 then w else if t \<le> 5 then dmul fp w (dlit fp 1.15)
      else if t \<le> 20 then dmul fp w (dlit fp 1.1) else w)"

definition len_weight :: "fpu \<Rightarrow> real \<Rightarrow> real \<Rightarrow> real" where
  "len_weight fp l w =
     (if l < dlit fp 0.1 then dmul fp w 0.5 else if l \<le> 0.5 then w
      else if l \<le> 1.25 then dmul fp w (dlit fp 1.05) else if l \<le> 1.75 then w
      else if l \<le> 2 then dmul fp w (dlit fp 0.95) else if l \<le> 5 then w
      else if l \<le> 10 then dmul fp w (dlit fp 1.05) else dmul fp w (dlit fp 1.15))"

definition coverage_weight :: "fpu \<Rightarrow> real \<Rightarrow> real \<Rightarrow> real" where
  "coverage_weight fp b w =
     (if b < dlit fp 0.1 then dmul fp w (dlit fp 0.01) else if b \<le> 0.25 then dmul fp w (dlit fp 0.55)
      else if b \<le> 0.5 then w else if b \<le> 0.75 then dmul fp w (dlit fp 1.2)
      else if b \<le> 1.25 then dmul fp w (dlit fp 1.3) else if b \<le> 1.75 then dmul fp w 1.25
      else if b \<le> 2 then w else if b \<le> 2.5 then dmul fp w (dlit fp 1.3) else dmul fp w 0.75)"

text \<open>The averages are those of the enabled entries.\<close>

definition entry_weight :: "sched_math \<Rightarrow> 'a afl_sched_scheme \<Rightarrow> real \<Rightarrow> real \<Rightarrow> real \<Rightarrow> queue_entry \<Rightarrow> real" where
  "entry_weight fm afl avg_us avg_bms avg_len q =
     (let fp = m_double fm; sn = schedule_no (schedule afl); hits = hits_of afl q;
          w = (if sn \<ge> schedule_no FAST \<and> sn \<le> schedule_no RARE \<and> hits \<noteq> 0
               then ddiv fp 1 (dadd fp (m_log10 fm (d_of_u32 fp hits)) 1) else 1);
          w = (if sn < schedule_no RARE then time_weight fp (ddiv fp (d_of_u64 fp (exec_us q)) avg_us) w else w);
          w = len_weight fp (ddiv fp (d_of_u32 fp (q_len q)) avg_len) w;
          w = coverage_weight fp (ddiv fp (d_of_u32 fp (bitmap_size q)) avg_bms) w;
          w = (if \<not> was_fuzzed q then dmul fp w 2.5 else w)
      in if fs_redundant q then dmul fp w 0.75 else w)"

text \<open>\<open>perf_score\<close> of entry \<open>i\<close> is set to the calculated score.\<close>

definition score_entry :: "sched_math \<Rightarrow> qid \<Rightarrow> 'a afl_sched_scheme \<Rightarrow> 'a afl_sched_scheme option" where
  "score_entry fm i afl =
     map_option (\<lambda>(s, afl). set_entry i (\<lambda>e. e\<lparr>perf_score := d_of_u32 (m_double fm) s\<rparr>) afl)
       (calculate_score fm i afl)"

fun weigh_entries :: "sched_math \<Rightarrow> real \<Rightarrow> real \<Rightarrow> real \<Rightarrow> qid list \<Rightarrow> real \<Rightarrow> 'a afl_sched_scheme \<Rightarrow>
    (real \<times> 'a afl_sched_scheme) option" where
  "weigh_entries fm us bms len [] tot afl = Some (tot, afl)"
| "weigh_entries fm us bms len (i # is) tot afl =
     (if disabled (entry afl i) then weigh_entries fm us bms len is tot afl
      else
        let w = entry_weight fm afl us bms len (entry afl i);
            afl = set_entry i (\<lambda>e. e\<lparr>weight := w\<rparr>) afl
        in case score_entry fm i afl of
             None \<Rightarrow> None
           | Some afl \<Rightarrow> weigh_entries fm us bms len is (dadd (m_double fm) tot w) afl)"

fun score_entries :: "sched_math \<Rightarrow> qid list \<Rightarrow> real \<Rightarrow> 'a afl_sched_scheme \<Rightarrow>
    (real \<times> 'a afl_sched_scheme) option" where
  "score_entries fm [] tot afl = Some (tot, afl)"
| "score_entries fm (i # is) tot afl =
     (if disabled (entry afl i) then score_entries fm is tot afl
      else (case score_entry fm i afl of
              None \<Rightarrow> None
            | Some afl \<Rightarrow> score_entries fm is (dadd (m_double fm) tot (perf_score (entry afl i))) afl))"

text \<open>Under \<open>MMOPT\<close> the last entries found count twice, after the sum has been taken.\<close>

definition boost_last :: "fpu \<Rightarrow> 'a afl_sched_scheme \<Rightarrow> 'a afl_sched_scheme" where
  "boost_last fp afl =
     (if schedule afl = MMOPT \<and> queued_discovered afl \<noteq> 0 then
        let n = queued_items afl;
            cnt = (if queued_discovered afl \<ge> 5 then 5 else queued_discovered afl)
        in fold (\<lambda>i afl. if disabled (entry afl i) then afl
                         else set_entry i (\<lambda>e. e\<lparr>weight := dmul fp (weight e) 2\<rparr>) afl)
             [unat (n - cnt)..<unat n] afl
      else afl)"

definition shares :: "fpu \<Rightarrow> (queue_entry \<Rightarrow> real) \<Rightarrow> real \<Rightarrow> 'a afl_sched_scheme \<Rightarrow> real list" where
  "shares fp f tot afl =
     map (\<lambda>i. let q = entry afl i in
              if disabled q then 0 else ddiv fp (dmul fp (f q) (d_of_u32 fp (queued_items afl))) tot)
       [0..<unat (queued_items afl)]"

text \<open>
  The arrays \<open>Small\<close> (filled from the start) and \<open>Large\<close> (filled from the end) are stacks; the lists
  have their tops first.
\<close>

definition split_shares :: "real list \<Rightarrow> nat list \<times> nat list" where
  "split_shares P =
     fold (\<lambda>j (small, large). if P ! j < 1 then (j # small, large) else (small, j # large))
       (rev [0..<length P]) ([], [])"

fun pair_up :: "fpu \<Rightarrow> nat list \<Rightarrow> nat list \<Rightarrow> real list \<Rightarrow> real list \<Rightarrow> u32 list \<Rightarrow>
    nat list \<times> nat list \<times> real list \<times> u32 list" where
  "pair_up fp (s # ss) (l # ls) P prob alias =
     (let prob = prob[s := P ! s];
          alias = alias[s := of_nat l];
          P = P[l := dsub fp (P ! l) (dsub fp 1 (P ! s))]
      in if P ! l < 1 then pair_up fp (l # ss) ls P prob alias
         else pair_up fp ss (l # ls) P prob alias)"
| "pair_up fp ss ls P prob alias = (ss, ls, prob, alias)"

definition fill_ones :: "nat list \<Rightarrow> real list \<Rightarrow> real list" where
  "fill_ones js prob = fold (\<lambda>j prob. prob[j := 1]) js prob"

definition alias_arrays :: "fpu \<Rightarrow> real list \<Rightarrow> real list \<times> u32 list" where
  "alias_arrays fp P =
     (let (small, large) = split_shares P;
          (small, large, prob, alias) = pair_up fp small large P (replicate (length P) 0) (replicate (length P) 0)
      in (fill_ones large (fill_ones small prob), alias))"

definition install_table :: "fpu \<Rightarrow> real list \<Rightarrow> 'a afl_sched_scheme \<Rightarrow> 'a afl_sched_scheme" where
  "install_table fp P afl =
     (let (prob, al) = alias_arrays fp P
      in afl\<lparr>alias_probability := prob, alias_table := al, reinit_table := False\<rparr>)"

definition create_alias_table :: "sched_math \<Rightarrow> 'a afl_sched_scheme \<Rightarrow> 'a afl_sched_scheme option" where
  "create_alias_table fm afl =
     (let fp = m_double fm; ids = [0..<unat (queued_items afl)]
      in if schedule_no (schedule afl) < schedule_no RARE then
           let (us, bms, len, active) = weight_sums fp afl;
               act = d_of_u32 fp active
           in map_option (\<lambda>(tot, afl). let afl = boost_last fp afl in install_table fp (shares fp weight tot afl) afl)
                (weigh_entries fm (ddiv fp us act) (ddiv fp bms act) (ddiv fp len act) ids 0 afl)
         else map_option (\<lambda>(tot, afl). install_table fp (shares fp perf_score tot afl) afl)
                (score_entries fm ids 0 afl))"

section \<open>The alias table is a table\<close>

text \<open>The loop state: the stacks hold different indices, small shares below 1, large ones not.\<close>

definition stacks_ok :: "nat \<Rightarrow> nat list \<Rightarrow> nat list \<Rightarrow> real list \<Rightarrow> real list \<Rightarrow> u32 list \<Rightarrow> bool" where
  "stacks_ok n ss ls P prob al \<longleftrightarrow>
     distinct (ss @ ls) \<and> set ss \<subseteq> {..<n} \<and> set ls \<subseteq> {..<n} \<and>
     length P = n \<and> length prob = n \<and> length al = n \<and>
     (\<forall>j\<in>set ss. 0 \<le> P ! j \<and> P ! j < 1) \<and> (\<forall>j\<in>set ls. 1 \<le> P ! j) \<and>
     (\<forall>i<n. 0 \<le> prob ! i \<and> prob ! i \<le> 1 \<and> unat (al ! i) < n)"

lemma unat_index: "(l :: nat) < n \<Longrightarrow> n < 2 ^ 32 \<Longrightarrow> unat (of_nat l :: u32) = l"
  by (simp add: unat_of_nat take_bit_nat_eq_self)

lemma dsub_rest_nonneg:
  assumes "fpu_ok fp" and "1 \<le> p" and "0 \<le> q" and "q < 1"
  shows "0 \<le> dsub fp p (dsub fp 1 q)"
proof -
  have "rnd fp (1 - q) \<le> rnd fp 1" using fpu_ok_facts(1) [OF assms(1), of "1 - q" 1] assms(3) by simp
  then have "rnd fp (1 - q) \<le> p" using fpu_ok_facts(7) [OF assms(1)] assms(2) by simp
  then show ?thesis unfolding dsub_def by (intro rnd_nonneg [OF assms(1)]) simp
qed

text \<open>One round of pairing, seen as the next state.\<close>

definition pair_step :: "fpu \<Rightarrow> nat \<Rightarrow> nat \<Rightarrow> real list \<Rightarrow> real list" where
  "pair_step fp s l P = P[l := dsub fp (P ! l) (dsub fp 1 (P ! s))]"

lemma pair_up_step:
  assumes "l < length P"
  shows "pair_up fp (s # ss) (l # ls) P prob al =
    (if pair_step fp s l P ! l < 1
     then pair_up fp (l # ss) ls (pair_step fp s l P) (prob[s := P ! s]) (al[s := of_nat l])
     else pair_up fp ss (l # ls) (pair_step fp s l P) (prob[s := P ! s]) (al[s := of_nat l]))"
  by (simp add: pair_step_def Let_def)

lemma stacks_step:
  assumes fp: "fpu_ok fp" and n: "n < 2 ^ 32" and ok: "stacks_ok n (s # ss) (l # ls) P prob al"
  defines "P' \<equiv> pair_step fp s l P"
  shows "P' ! l < 1 \<Longrightarrow> stacks_ok n (l # ss) ls P' (prob[s := P ! s]) (al[s := of_nat l])"
    "\<not> P' ! l < 1 \<Longrightarrow> stacks_ok n ss (l # ls) P' (prob[s := P ! s]) (al[s := of_nat l])"
proof -
  have d: "s < n" "l < n" "s \<noteq> l" "s \<notin> set ss" "s \<notin> set ls" "l \<notin> set ss" "l \<notin> set ls" "0 \<le> P ! s" "P ! s < 1" "1 \<le> P ! l"
    using ok by (auto simp: stacks_ok_def)
  have P': "P' ! l = dsub fp (P ! l) (dsub fp 1 (P ! s))" "j \<noteq> l \<Longrightarrow> P' ! j = P ! j" "length P' = n" for j
    using ok d by (simp_all add: P'_def pair_step_def stacks_ok_def)
  have nn: "0 \<le> P' ! l" using dsub_rest_nonneg [OF fp] d P' by simp
  have tab: "\<forall>i<n. 0 \<le> prob[s := P ! s] ! i \<and> prob[s := P ! s] ! i \<le> 1 \<and> unat (al[s := of_nat l] ! i) < n"
    using ok d unat_index [OF d(2) n] by (auto simp: stacks_ok_def nth_list_update)
  have old: "\<forall>j\<in>set ss. 0 \<le> P' ! j \<and> P' ! j < 1" "\<forall>j\<in>set ls. 1 \<le> P' ! j"
    using ok d P'(2) unfolding stacks_ok_def by (metis list.set_intros(2))+
  show "P' ! l < 1 \<Longrightarrow> stacks_ok n (l # ss) ls P' (prob[s := P ! s]) (al[s := of_nat l])"
    "\<not> P' ! l < 1 \<Longrightarrow> stacks_ok n ss (l # ls) P' (prob[s := P ! s]) (al[s := of_nat l])"
    using ok d nn tab old P' by (auto simp: stacks_ok_def)
qed

lemma stacks_ok_large: "stacks_ok n (s # ss) (l # ls) P prob al \<Longrightarrow> l < length P"
  by (auto simp: stacks_ok_def)

lemma pair_up_ok:
  assumes "fpu_ok fp" and "n < 2 ^ 32" and "stacks_ok n ss ls P prob al"
    and "pair_up fp ss ls P prob al = (ss', ls', prob', al')"
  shows "\<exists>P'. stacks_ok n ss' ls' P' prob' al' \<and> (ss' = [] \<or> ls' = [])"
  using assms(3,4)
proof (induction "length ss + length ls" arbitrary: ss ls P prob al rule: less_induct)
  case less
  show ?case
  proof (cases "ss = [] \<or> ls = []")
    case True
    then have "ss' = ss" "ls' = ls" "prob' = prob" "al' = al" using less.prems(2) by (cases ss; cases ls; simp)+
    then show ?thesis using True less.prems(1) by blast
  next
    case False
    then obtain s sr l lr where e: "ss = s # sr" "ls = l # lr" by (metis neq_Nil_conv)
    note ok = less.prems(1) [unfolded e] 
    note st = pair_up_step [OF stacks_ok_large [OF ok], of fp]
    note nx = stacks_step [OF assms(1,2) ok]
    show ?thesis
    proof (cases "pair_step fp s l P ! l < 1")
      case True
      show ?thesis by (rule less.hyps [OF _ nx(1) [OF True]]) (use less.prems(2) st True in \<open>simp_all add: e\<close>)
    next
      case False
      show ?thesis by (rule less.hyps [OF _ nx(2) [OF False]]) (use less.prems(2) st False in \<open>simp_all add: e\<close>)
    qed
  qed
qed

lemma fill_ones_nth:
  "length (fill_ones js prob) = length prob \<and>
   (\<forall>i < length prob. fill_ones js prob ! i = (if i \<in> set js then 1 else prob ! i))"
  unfolding fill_ones_def
  by (induction js arbitrary: prob) (auto simp: nth_list_update)

lemma split_shares_sets:
  "split_shares P = (filter (\<lambda>j. P ! j < 1) [0..<length P], filter (\<lambda>j. \<not> P ! j < 1) [0..<length P])"
proof -
  have "fold (\<lambda>j (small, large). if P ! j < 1 then (j # small, large) else (small, j # large)) (rev js) (ss, ls) =
    (filter (\<lambda>j. P ! j < 1) js @ ss, filter (\<lambda>j. \<not> P ! j < 1) js @ ls)" for js ss ls
    by (induction js arbitrary: ss ls rule: rev_induct) auto
  then show ?thesis by (simp add: split_shares_def)
qed

lemma split_shares_ok:
  assumes "split_shares P = (ss, ls)" and "\<forall>p\<in>set P. 0 \<le> p" and "P \<noteq> []"
  shows "stacks_ok (length P) ss ls P (replicate (length P) 0) (replicate (length P) 0)"
    "set ss \<union> set ls = {..<length P}"
proof -
  have e: "ss = filter (\<lambda>j. P ! j < 1) [0..<length P]" "ls = filter (\<lambda>j. \<not> P ! j < 1) [0..<length P]"
    using assms(1) by (simp_all add: split_shares_sets)
  show "stacks_ok (length P) ss ls P (replicate (length P) 0) (replicate (length P) 0)"
    using assms(2,3) unfolding e stacks_ok_def by (auto simp: not_less)
  show "set ss \<union> set ls = {..<length P}" unfolding e by auto
qed

lemma alias_arrays_cases:
  assumes "fpu_ok fp" and "length P < 2 ^ 32" and "\<forall>p\<in>set P. 0 \<le> p" and "P \<noteq> []"
  obtains ss ls P' prob al where
    "pair_up fp (fst (split_shares P)) (snd (split_shares P)) P (replicate (length P) 0) (replicate (length P) 0) = (ss, ls, prob, al)"
    "alias_arrays fp P = (fill_ones ls (fill_ones ss prob), al)"
    "stacks_ok (length P) ss ls P' prob al" "ss = [] \<or> ls = []"
proof -
  obtain ss0 ls0 where sp: "split_shares P = (ss0, ls0)" by force
  obtain ss ls prob al where
    pu: "pair_up fp ss0 ls0 P (replicate (length P) 0) (replicate (length P) 0) = (ss, ls, prob, al)"
    using prod_cases4 by blast
  from pair_up_ok [OF assms(1,2) split_shares_ok(1) [OF sp assms(3,4)] pu] show ?thesis
    using that pu sp by (auto simp: alias_arrays_def)
qed

text \<open>
  In any rounding mode \<open>create_alias_table\<close> builds a table that can be sampled: from shares that
  are not negative the pairing ends with one probability in \<open>[0, 1]\<close> and one alias per entry, and
  every alias names an entry.
\<close>

theorem alias_arrays_bounds:
  assumes "fpu_ok fp" and "length P < 2 ^ 32" and "\<forall>p\<in>set P. 0 \<le> p" and "P \<noteq> []"
    and "alias_arrays fp P = (prob, al)"
  shows "length prob = length P \<and> length al = length P \<and>
    (\<forall>i < length P. 0 \<le> prob ! i \<and> prob ! i \<le> 1 \<and> unat (al ! i) < length P)"
proof -
  obtain ss ls P' prob' al' where a: "alias_arrays fp P = (fill_ones ls (fill_ones ss prob'), al')"
    "stacks_ok (length P) ss ls P' prob' al'"
    using alias_arrays_cases [OF assms(1-4)] by metis
  have "length (fill_ones ss prob') = length P" using a(2) fill_ones_nth [of ss prob'] by (simp add: stacks_ok_def)
  then show ?thesis
    using a assms(5) fill_ones_nth [of ls "fill_ones ss prob'"] fill_ones_nth [of ss prob'] by (auto simp: stacks_ok_def)
qed

theorem alias_arrays_bounds_witness:
  "let (prob, al) = alias_arrays exact_fpu [1 / 2, 3 / 2] in length prob = 2 \<and> unat (al ! 0) < 2"
proof -
  obtain prob al where e: "alias_arrays exact_fpu [1 / 2, 3 / 2] = (prob, al)" by force
  have "length [1 / 2, 3 / 2 :: real] < 2 ^ 32" "\<forall>p\<in>set [1 / 2, 3 / 2 :: real]. 0 \<le> p" by simp_all
  from alias_arrays_bounds [OF fpu_ok_exact this _ e] have "length prob = 2 \<and> unat (al ! 0) < 2"
    by (auto simp: numeral_2_eq_2)
  then show ?thesis using e by simp
qed
section \<open>The alias table has the right odds\<close>

text \<open>
  With exact arithmetic: \<open>S\<close> are the indices on the stacks, and what an index still has to give away
  or has been given adds up to its share.
\<close>

definition given_to :: "nat set \<Rightarrow> real list \<Rightarrow> u32 list \<Rightarrow> nat \<Rightarrow> real" where
  "given_to D prob al i = (\<Sum>k\<in>D. if unat (al ! k) = i then 1 - prob ! k else 0)"

definition shares_kept :: "nat \<Rightarrow> real list \<Rightarrow> nat set \<Rightarrow> real list \<Rightarrow> real list \<Rightarrow> u32 list \<Rightarrow> bool" where
  "shares_kept n P0 S P prob al \<longleftrightarrow>
     (\<forall>i<n. (if i \<in> S then P ! i else prob ! i) + given_to ({..<n} - S) prob al i = P0 ! i) \<and>
     (\<Sum>j\<in>S. P ! j) = real (card S)"

lemma shares_step:
  assumes k: "shares_kept n P0 S P prob al" and S: "S \<subseteq> {..<n}" "s \<in> S" "l \<in> S" "s \<noteq> l"
    and len: "length P = n" "length prob = n" "length al = n" "n < 2 ^ 32"
  shows "shares_kept n P0 (S - {s}) (pair_step exact_fpu s l P) (prob[s := P ! s]) (al[s := of_nat l])"
proof -
  let ?P = "pair_step exact_fpu s l P" and ?pr = "prob[s := P ! s]" and ?al = "al[s := of_nat l]"
  have fin: "finite S" using S(1) finite_subset by blast
  have sl: "s < n" "l < n" using S by auto
  have P: "?P ! l = P ! l - (1 - P ! s)" "j \<noteq> l \<Longrightarrow> ?P ! j = P ! j" for j
    using sl len by (simp_all add: pair_step_def)
  have D: "{..<n} - (S - {s}) = insert s ({..<n} - S)" using S sl by auto
  have g: "given_to ({..<n} - (S - {s})) ?pr ?al i = (if i = l then 1 - P ! s else 0) + given_to ({..<n} - S) prob al i" for i
  proof -
    have "given_to ({..<n} - S) ?pr ?al i = given_to ({..<n} - S) prob al i"
      unfolding given_to_def
    proof (rule sum.cong [OF refl])
      fix x assume "x \<in> {..<n} - S"
      then have "x \<noteq> s" using S by blast
      then show "(if unat (?al ! x) = i then 1 - ?pr ! x else 0) = (if unat (al ! x) = i then 1 - prob ! x else 0)" by simp
    qed
    moreover have "unat (?al ! s) = l" "?pr ! s = P ! s" using sl len unat_index [of l n] by simp_all
    ultimately show ?thesis unfolding D using S by (auto simp: given_to_def)
  qed
  have "(if i \<in> S - {s} then ?P ! i else ?pr ! i) + given_to ({..<n} - (S - {s})) ?pr ?al i = P0 ! i" if i: "i < n" for i
  proof -
    have old: "(if i \<in> S then P ! i else prob ! i) + given_to ({..<n} - S) prob al i = P0 ! i"
      using k i by (simp add: shares_kept_def)
    consider "i = s" | "i = l" | "i \<noteq> s" "i \<noteq> l" by blast
    then show ?thesis
      by cases (use old S P g len sl in \<open>auto simp: nth_list_update\<close>)
  qed
  moreover have "(\<Sum>j\<in>S - {s}. ?P ! j) = real (card (S - {s}))"
  proof -
    have "(\<Sum>j\<in>S - {s}. ?P ! j) = ?P ! l + (\<Sum>j\<in>S - {s} - {l}. ?P ! j)"
      using fin S by (intro sum.remove) auto
    also have "(\<Sum>j\<in>S - {s} - {l}. ?P ! j) = (\<Sum>j\<in>S - {s} - {l}. P ! j)" by (rule sum.cong) (use P in auto)
    also have "\<dots> = (\<Sum>j\<in>S. P ! j) - P ! s - P ! l"
      using fin S by (simp add: sum_diff1)
    finally have "(\<Sum>j\<in>S - {s}. ?P ! j) = (\<Sum>j\<in>S. P ! j) - 1" using P(1) by simp
    also have "\<dots> = real (card S) - 1" using k by (simp add: shares_kept_def)
    also have "\<dots> = real (card (S - {s}))" using fin S card_gt_0_iff [of S] by (auto simp: of_nat_diff)
    finally show ?thesis .
  qed
  ultimately show ?thesis by (simp add: shares_kept_def)
qed

lemma pair_up_shares:
  assumes "n < 2 ^ 32" and "stacks_ok n ss ls P prob al" and "shares_kept n P0 (set ss \<union> set ls) P prob al"
    and "pair_up exact_fpu ss ls P prob al = (ss', ls', prob', al')"
  shows "\<exists>P'. stacks_ok n ss' ls' P' prob' al' \<and> shares_kept n P0 (set ss' \<union> set ls') P' prob' al' \<and> (ss' = [] \<or> ls' = [])"
  using assms(2-4)
proof (induction "length ss + length ls" arbitrary: ss ls P prob al rule: less_induct)
  case less
  show ?case
  proof (cases "ss = [] \<or> ls = []")
    case True
    then have "ss' = ss" "ls' = ls" "prob' = prob" "al' = al" using less.prems(3) by (cases ss; cases ls; simp)+
    then show ?thesis using True less.prems(1,2) by blast
  next
    case False
    then obtain s sr l lr where e: "ss = s # sr" "ls = l # lr" by (metis neq_Nil_conv)
    note ok = less.prems(1) [unfolded e]
    note st = pair_up_step [OF stacks_ok_large [OF ok], of exact_fpu]
    note nx = stacks_step [OF fpu_ok_exact assms(1) ok]
    let ?S = "set ss \<union> set ls"
    have S: "?S \<subseteq> {..<n}" "s \<in> ?S" "l \<in> ?S" "s \<noteq> l" "?S - {s} = set (l # sr) \<union> set lr" "?S - {s} = set sr \<union> set (l # lr)"
      using ok unfolding e by (auto simp: stacks_ok_def)
    have sh: "shares_kept n P0 (?S - {s}) (pair_step exact_fpu s l P) (prob[s := P ! s]) (al[s := of_nat l])"
      by (rule shares_step [OF less.prems(2) S(1-4)]) (use ok assms(1) in \<open>simp_all add: stacks_ok_def\<close>)
    show ?thesis
    proof (cases "pair_step exact_fpu s l P ! l < 1")
      case True
      show ?thesis
        by (rule less.hyps [OF _ nx(1) [OF True] sh [unfolded S(5)]]) (use less.prems(3) st True in \<open>simp_all add: e\<close>)
    next
      case False
      show ?thesis
        by (rule less.hyps [OF _ nx(2) [OF False] sh [unfolded S(6)]]) (use less.prems(3) st False in \<open>simp_all add: e\<close>)
    qed
  qed
qed

text \<open>What is left on a stack when the other is empty are shares of exactly 1.\<close>

lemma leftover_ones:
  assumes "stacks_ok n ss ls P prob al" and "shares_kept n P0 (set ss \<union> set ls) P prob al" and "ss = [] \<or> ls = []"
  shows "\<forall>j\<in>set ss \<union> set ls. P ! j = 1"
proof (cases "ss = []")
  case True
  have "(\<Sum>j\<in>set ls. P ! j - 1) = 0" using assms(2) True by (simp add: shares_kept_def sum_subtractf)
  moreover have "\<forall>j\<in>set ls. 0 \<le> P ! j - 1" using assms(1) by (simp add: stacks_ok_def)
  ultimately have "\<forall>j\<in>set ls. P ! j - 1 = 0" by (subst (asm) sum_nonneg_eq_0_iff) auto
  then show ?thesis using True by simp
next
  case False
  then have ls: "ls = []" using assms(3) by simp
  have "(\<Sum>j\<in>set ss. P ! j) < (\<Sum>j\<in>set ss. 1)"
    using assms(1) False by (intro sum_strict_mono) (auto simp: stacks_ok_def)
  moreover have "(\<Sum>j\<in>set ss. P ! j) = real (card (set ss))" using assms(2) ls by (simp add: shares_kept_def)
  ultimately show ?thesis by simp
qed

lemma alias_arrays_odds:
  assumes "length P < 2 ^ 32" and "\<forall>p\<in>set P. 0 \<le> p" and "sum_list P = real (length P)"
    and "alias_arrays exact_fpu P = (prob, al)" and "i < length P"
  shows "prob ! i + (\<Sum>k<length P. if unat (al ! k) = i then 1 - prob ! k else 0) = P ! i"
proof -
  let ?n = "length P"
  have ne: "P \<noteq> []" using assms(5) by auto
  obtain ss0 ls0 where sp: "split_shares P = (ss0, ls0)" by force
  obtain ss ls prob' al' where
    pu: "pair_up exact_fpu ss0 ls0 P (replicate ?n 0) (replicate ?n 0) = (ss, ls, prob', al')"
    using prod_cases4 by blast
  note S0 = split_shares_ok [OF sp assms(2) ne]
  have "shares_kept ?n P (set ss0 \<union> set ls0) P (replicate ?n 0) (replicate ?n 0)"
    using assms(3) unfolding S0(2) by (simp add: shares_kept_def given_to_def sum_list_sum_nth atLeast0LessThan)
  from pair_up_shares [OF assms(1) S0(1) this pu] obtain P' where
    ok: "stacks_ok ?n ss ls P' prob' al'" and sh: "shares_kept ?n P (set ss \<union> set ls) P' prob' al'"
    and one: "ss = [] \<or> ls = []" by blast
  let ?S = "set ss \<union> set ls"
  have fin: "prob = fill_ones ls (fill_ones ss prob')" "al = al'" using assms(4) sp pu by (simp_all add: alias_arrays_def)
  have len: "length prob' = ?n" using ok by (simp add: stacks_ok_def)
  have pr: "prob ! j = (if j \<in> ?S then 1 else prob' ! j)" if "j < ?n" for j
    using fill_ones_nth [of ls "fill_ones ss prob'"] fill_ones_nth [of ss prob'] fin len that by auto
  have sub: "?S \<subseteq> {..<?n}" using ok by (simp add: stacks_ok_def)
  have "(\<Sum>k<?n. if unat (al ! k) = i then 1 - prob ! k else 0) = given_to ({..<?n} - ?S) prob' al' i"
    unfolding given_to_def
    by (rule sum.mono_neutral_cong_right) (use pr fin sub in \<open>auto split: if_splits\<close>)
  moreover have "(if i \<in> ?S then P' ! i else prob' ! i) + given_to ({..<?n} - ?S) prob' al' i = P ! i"
    using sh assms(5) by (simp add: shares_kept_def)
  ultimately show ?thesis using pr [OF assms(5)] leftover_ones [OF ok sh one] by auto
qed

text \<open>
  The alias table draws with the right odds: with exact arithmetic, when the shares add up to the
  number of entries, drawing a column uniformly and then keeping it with its probability or moving
  to its alias gives every entry exactly its share.
\<close>

theorem alias_arrays_exact:
  assumes "length P < 2 ^ 32" and "\<forall>p\<in>set P. 0 \<le> p" and "sum_list P = real (length P)"
    and "alias_arrays exact_fpu P = (prob, al)" and "i < length P"
  shows "prob ! i + (\<Sum>k<length P. if unat (al ! k) = i then 1 - prob ! k else 0) = P ! i"
  by (rule alias_arrays_odds [OF assms])

theorem alias_arrays_exact_witness:
  "let P = [1 / 2, 2, 1 / 2]; (prob, al) = alias_arrays exact_fpu P in
     prob ! 1 + (\<Sum>k<length P. if unat (al ! k) = 1 then 1 - prob ! k else 0) = P ! 1"
proof -
  obtain prob al where e: "alias_arrays exact_fpu [1 / 2, 2, 1 / 2] = (prob, al)" by force
  have "prob ! 1 + (\<Sum>k<length [1 / 2, 2, 1 / 2 :: real]. if unat (al ! k) = 1 then 1 - prob ! k else 0) = [1 / 2, 2, 1 / 2] ! 1"
    by (rule alias_arrays_exact [OF _ _ _ e]) simp_all
  then show ?thesis unfolding Let_def e by (simp only: prod.case)
qed
section \<open>The bounds of the energy\<close>

lemma limit_word: "unat (ucast (m :: u8) * 100 :: u32) = unat m * 100"
proof -
  have "unat m < 256" using unsigned_less [of m] by simp
  moreover have "unat (ucast m :: u32) = unat m" using calculation by (simp add: unsigned_ucast_eq take_bit_nat_eq_self)
  ultimately show ?thesis by (simp add: unat_word_ariths)
qed

lemma capped_bounds:
  fixes x l :: u32
  shows "unat (if x > l then l else x) \<le> unat l" "1 \<le> unat l \<Longrightarrow> 1 \<le> unat x \<Longrightarrow> 1 \<le> unat (if x > l then l else x)"
  by (simp_all add: word_less_nat_alt)

lemma floored: "1 \<le> unat (if (x :: u32) < 1 then 1 else x)"
  by (simp add: word_less_nat_alt)

lemma finish_score_bounds:
  "unat (finish_score fp afl q f s) \<le> unat (havoc_max_mult afl) * 100"
  "havoc_max_mult afl \<noteq> 0 \<Longrightarrow> schedule afl \<noteq> COE \<Longrightarrow> limit_time_sig afl = 0 \<Longrightarrow> 1 \<le> unat (finish_score fp afl q f s)"
proof -
  show "unat (finish_score fp afl q f s) \<le> unat (havoc_max_mult afl) * 100"
    unfolding finish_score_def Let_def by (rule order_trans [OF capped_bounds(1)]) (simp only: limit_word)
  assume m: "havoc_max_mult afl \<noteq> 0" and c: "schedule afl \<noteq> COE" "limit_time_sig afl = 0"
  have l: "1 \<le> unat (ucast (havoc_max_mult afl) * 100 :: u32)"
    using m unat_gt_0 [of "havoc_max_mult afl"] by (simp add: limit_word)
  show "1 \<le> unat (finish_score fp afl q f s)"
    unfolding finish_score_def Let_def using c by (intro capped_bounds(2) l) (simp only: floored simp_thms if_False)
qed

text \<open>
  C18 A score is never above \<open>havoc_max_mult * 100\<close> and, outside \<open>COE\<close> (which may skip a seed) and the
  MOpt mode, never below 1, whatever the averages, the schedule and the rounding; calculating it
  uses up the seed's handicap by 4, or by 1 when less is left, and changes nothing else.
\<close>

theorem calculate_score_bounds:
  assumes "calculate_score fm qi afl = Some (s, t)"
  shows "unat s \<le> unat (havoc_max_mult afl) * 100 \<and>
    (havoc_max_mult afl = 0 \<or> schedule afl = COE \<or> limit_time_sig afl \<noteq> 0 \<or> 1 \<le> unat s) \<and>
    t = set_entry qi (\<lambda>e. e\<lparr>handicap := (if handicap e \<ge> 4 then handicap e - 4
                                           else if handicap e \<noteq> 0 then handicap e - 1 else 0)\<rparr>) afl"
proof -
  obtain f s' h where s: "s = finish_score (m_double fm) afl (entry afl qi) f s'"
    and t: "t = set_entry qi (\<lambda>e. e\<lparr>handicap := h\<rparr>) afl" "\<exists>x. h = snd (handicap_score (handicap (entry afl qi)) x)"
    using assms by (auto simp: calculate_score_def Let_def split: prod.splits) (metis snd_conv)
  have "h = (if handicap (entry afl qi) \<ge> 4 then handicap (entry afl qi) - 4
             else if handicap (entry afl qi) \<noteq> 0 then handicap (entry afl qi) - 1 else 0)"
    using t(2) by (auto simp: handicap_score_def)
  then have "t = set_entry qi (\<lambda>e. e\<lparr>handicap := (if handicap e \<ge> 4 then handicap e - 4
                                           else if handicap e \<noteq> 0 then handicap e - 1 else 0)\<rparr>) afl"
    using t(1) by (simp add: set_entry_def)
  then show ?thesis using finish_score_bounds [where afl = afl and q = "entry afl qi" and f = f and s = s' and fp = "m_double fm"]
    unfolding s by blast
qed

text \<open>The queue of three entries with the state of the scheduler, for the witnesses.\<close>

definition small_sched :: afl_sched where
  "small_sched = afl_queue.extend (small_queue (replicate 16 0))
     \<lparr>rng = \<lparr>rand_seed0 = 1, rand_seed1 = 2, rand_seed2 = 3, rand_cnt = 5, fixed_seed = False, init_seed = 0, urandom_reads = 0\<rparr>,
      total_cal_us = 3, total_cal_cycles = 3, total_bitmap_size = 30, total_bitmap_entries = 3,
      havoc_max_mult = 64, queued_discovered = 0, limit_time_sig = 0, fsrv_total_execs = 10,
      alias_probability = [], alias_table = [], seed_audit_enabled = False, seed_audit_invalid = False,
      seed_audit_error_count = 0, seed_audit_record_count = 0, seed_audit_expected_selection_count = 0,
      sched_stop_soon = False\<rparr>"

lemma small_sched_sel [simp]:
  "queue_buf small_sched = [small_entry 0 30, small_entry 1 40, small_entry 2 20]" "queued_items small_sched = 3"
  "schedule small_sched = EXPLORE" "havoc_max_mult small_sched = 64" "limit_time_sig small_sched = 0"
  "rng small_sched = \<lparr>rand_seed0 = 1, rand_seed1 = 2, rand_seed2 = 3, rand_cnt = 5, fixed_seed = False, init_seed = 0, urandom_reads = 0\<rparr>"
  by (simp_all add: small_sched_def small_queue_def afl_queue.defs cov_st.defs)

lemma explore_scores: "schedule afl = EXPLORE \<Longrightarrow> \<exists>s t. calculate_score fm qi afl = Some (s, t)"
  by (simp add: calculate_score_def schedule_score_def Let_def split: prod.split)

theorem calculate_score_bounds_witness:
  "\<exists>s t. calculate_score exact_math 0 small_sched = Some (s, t) \<and> 1 \<le> unat s \<and> unat s \<le> 6400"
proof -
  obtain s t where st: "calculate_score exact_math 0 small_sched = Some (s, t)"
    using explore_scores [of small_sched exact_math 0] by auto
  from calculate_score_bounds [OF st] show ?thesis using st by auto
qed

section \<open>The choice of a seed\<close>

lemma seed_audit_frame [simp]:
  "queue_buf (snd (nv_seed_selection_audit_record fmt io q afl)) = queue_buf afl"
  "rng (snd (nv_seed_selection_audit_record fmt io q afl)) = rng afl"
  by (auto simp: nv_seed_selection_audit_record_def ss_selection_audit_failure_def Let_def split: option.split)

text \<open>
  The audit of selections always balances: after any run of answers the selections that were due
  an audit record are those recorded plus those that failed, and a call that returns a failure has
  marked the run invalid and asked it to stop.
\<close>

theorem seed_audit_balanced:
  fixes afl :: "'a afl_sched_scheme"
  assumes "seed_audit_expected_selection_count afl = seed_audit_record_count afl + seed_audit_error_count afl"
    and r: "r = nv_seed_selection_audit_record fmt io q afl"
  shows "seed_audit_expected_selection_count (snd r) = seed_audit_record_count (snd r) + seed_audit_error_count (snd r) \<and>
    (fst r \<or> seed_audit_invalid (snd r) \<and> sched_stop_soon (snd r) \<and> seed_audit_enabled (snd r))"
  using assms(1) unfolding r
  by (auto simp: nv_seed_selection_audit_record_def ss_selection_audit_failure_def Let_def split: option.split)

theorem seed_audit_balanced_witness:
  "let io = \<lparr>audit_path = Some ''/tmp/a'', audit_opens = False, audit_writes = int, audit_closes = True\<rparr>;
       r = nv_seed_selection_audit_record (\<lambda>x. ''1'') io (Some (small_entry 0 30)) small_sched
   in seed_audit_expected_selection_count (snd r) = seed_audit_record_count (snd r) + seed_audit_error_count (snd r)"
proof -
  have "seed_audit_expected_selection_count small_sched = seed_audit_record_count small_sched + seed_audit_error_count small_sched"
    by (simp add: small_sched_def afl_queue.defs)
  from seed_audit_balanced [OF this refl] show ?thesis unfolding Let_def by blast
qed

lemma ss_calc_prob_facts:
  assumes "fpu_ok fp"
  shows "dlit fp 0.01 \<le> ss_calc_prob fp q" "is_double fp (ss_calc_prob fp q)"
  by (auto simp: ss_calc_prob_def Let_def not_less ddiv_def dlit_def intro: is_double_rnd [OF assms])

text \<open>The state and the total after the probabilities of the first entries are written.\<close>

lemma update_probs_prefix:
  assumes "k \<le> length (queue_buf afl)"
  shows "\<exists>tot t. fold (\<lambda>i (total, afl). let p = ss_calc_prob fp (entry afl i)
                            in (dadd fp total p, set_entry i (\<lambda>e. e\<lparr>ss_prob := p\<rparr>) afl)) [0..<k] (0, afl) = (tot, t) \<and>
     tot = foldl (dadd fp) 0 (map (\<lambda>i. ss_calc_prob fp (entry afl i)) [0..<k]) \<and>
     t = afl\<lparr>queue_buf := map (\<lambda>i. if i < k then (entry afl i)\<lparr>ss_prob := ss_calc_prob fp (entry afl i)\<rparr> else entry afl i)
                            [0..<length (queue_buf afl)]\<rparr>"
  using assms
proof (induction k)
  case 0
  have "map (\<lambda>i. entry afl i) [0..<length (queue_buf afl)] = queue_buf afl" by (simp add: entry_def map_nth)
  then show ?case by simp
next
  case (Suc k)
  then obtain tot t where IH: "fold (\<lambda>i (total, afl). let p = ss_calc_prob fp (entry afl i)
        in (dadd fp total p, set_entry i (\<lambda>e. e\<lparr>ss_prob := p\<rparr>) afl)) [0..<k] (0, afl) = (tot, t)"
    "tot = foldl (dadd fp) 0 (map (\<lambda>i. ss_calc_prob fp (entry afl i)) [0..<k])"
    "t = afl\<lparr>queue_buf := map (\<lambda>i. if i < k then (entry afl i)\<lparr>ss_prob := ss_calc_prob fp (entry afl i)\<rparr> else entry afl i)
                            [0..<length (queue_buf afl)]\<rparr>" by auto
  have e: "entry t k = entry afl k" using Suc.prems by (simp add: IH(3) entry_def)
  have "set_entry k (\<lambda>e. e\<lparr>ss_prob := ss_calc_prob fp (entry afl k)\<rparr>) t =
     afl\<lparr>queue_buf := map (\<lambda>i. if i < Suc k then (entry afl i)\<lparr>ss_prob := ss_calc_prob fp (entry afl i)\<rparr> else entry afl i)
                            [0..<length (queue_buf afl)]\<rparr>"
    unfolding set_entry_def e using Suc.prems
    by (simp add: IH(3)) (rule arg_cong [where f = "\<lambda>x. afl\<lparr>queue_buf := x\<rparr>"], rule nth_equalityI, auto simp: nth_list_update)
  then show ?case using IH(1,2) e by (simp add: Let_def)
qed

definition probs_of :: "fpu \<Rightarrow> 'a afl_sched_scheme \<Rightarrow> real list" where
  "probs_of fp afl = map (ss_calc_prob fp) (queue_buf afl)"

lemma update_probs_eq:
  assumes "length (queue_buf afl) = unat (queued_items afl)"
  shows "update_probs fp afl = (foldl (dadd fp) 0 (probs_of fp afl),
     afl\<lparr>queue_buf := map (\<lambda>e. e\<lparr>ss_prob := ss_calc_prob fp e\<rparr>) (queue_buf afl)\<rparr>)"
proof -
  have m: "map (\<lambda>i. f (entry afl i)) [0..<length (queue_buf afl)] = map f (queue_buf afl)" for f :: "queue_entry \<Rightarrow> 'b"
    by (rule nth_equalityI) (simp_all add: entry_def)
  have "map (\<lambda>i. if i < unat (queued_items afl) then (entry afl i)\<lparr>ss_prob := ss_calc_prob fp (entry afl i)\<rparr> else entry afl i)
          [0..<length (queue_buf afl)] = map (\<lambda>e. e\<lparr>ss_prob := ss_calc_prob fp e\<rparr>) (queue_buf afl)"
    by (rule nth_equalityI) (simp_all add: entry_def assms)
  then show ?thesis
    using update_probs_prefix [of "unat (queued_items afl)" afl fp] m [of "ss_calc_prob fp"] assms
    by (simp add: update_probs_def probs_of_def)
qed

lemma total_positive:
  assumes "fpu_ok fp" and "0 < dlit fp 0.01" and "ps \<noteq> []" and "\<forall>p\<in>set ps. dlit fp 0.01 \<le> p \<and> is_double fp p"
  shows "0 < foldl (dadd fp) 0 ps"
proof -
  have "a \<le> foldl (dadd fp) a ps" if "is_double fp a" "\<forall>p\<in>set ps. 0 \<le> p" for a ps
    using that
  proof (induction ps arbitrary: a)
    case (Cons p ps)
    have "a \<le> dadd fp a p" by (rule dadd_nonneg_le [OF assms(1) Cons.prems(1)]) (use Cons.prems(2) in simp)
    also have "\<dots> \<le> foldl (dadd fp) (dadd fp a p) ps"
      by (rule Cons.IH) (use Cons.prems(2) is_double_rnd [OF assms(1)] in \<open>simp_all add: dadd_def\<close>)
    finally show ?case by simp
  qed simp
  moreover obtain p qs where e: "ps = p # qs" using assms(3) by (cases ps) auto
  moreover have p: "dadd fp 0 p = p" "is_double fp p" "0 < p" using assms(2,4) e by (auto simp: dadd_def is_double_def)
  moreover have "\<forall>p\<in>set qs. 0 \<le> p" using assms(2,4) e by force
  ultimately have "p \<le> foldl (dadd fp) p qs" by blast
  then show ?thesis using p e by simp
qed

lemma roulette_range: "roulette fp r acc i ps = Some k \<Longrightarrow> i \<le> k \<and> k < i + length ps"
  by (induction ps arbitrary: acc i) (fastforce simp: Let_def split: if_splits)+
text \<open>What a successful selection is made of: the draw, the index and the seed taken.\<close>

definition pick_index :: "fpu \<Rightarrow> real list \<Rightarrow> u32 \<Rightarrow> nat" where
  "pick_index fp ps k =
     (case roulette fp (dmul fp (ddiv fp (d_of_u32 fp k) (d_of_u32 fp 0x7fffffff)) (foldl (dadd fp) 0 ps)) 0 0 ps of
        Some i \<Rightarrow> i | None \<Rightarrow> length ps - 1)"

lemma pick_index_range: "ps \<noteq> [] \<Longrightarrow> pick_index fp ps k < length ps"
  unfolding pick_index_def by (auto split: option.split dest!: roulette_range)

lemma take_seed_facts:
  assumes "i < length (queue_buf afl)" and "take_seed fmt io i afl = (q, t)"
  shows "q = of_nat i" "rng t = rng afl"
    "j < length (queue_buf afl) \<Longrightarrow> entry t j = (entry afl j)\<lparr>ss_selected_cnt := ss_selected_cnt (entry afl j) + (if j = i then 1 else 0)\<rparr>"
proof -
  have t: "queue_buf t = (queue_buf afl)[i := (entry afl i)\<lparr>ss_selected_cnt := ss_selected_cnt (entry afl i) + 1\<rparr>]" "rng t = rng afl" "q = of_nat i"
    using assms(2) by (auto simp: take_seed_def Let_def set_entry_def)
  show "q = of_nat i" "rng t = rng afl" using t by simp_all
  show "j < length (queue_buf afl) \<Longrightarrow> entry t j = (entry afl j)\<lparr>ss_selected_cnt := ss_selected_cnt (entry afl j) + (if j = i then 1 else 0)\<rparr>"
    using t(1) assms(1) by (simp add: entry_def nth_list_update)
qed

lemma select_unfold:
  assumes "fpu_ok fp" and "0 < dlit fp 0.01" and len: "length (queue_buf afl) = unat (queued_items afl)"
    and ne: "queued_items afl \<noteq> 0" and sel: "select_next_queue_entry fp urandom fmt io afl = Some (q, t)"
  obtains k g afl' where "rand_below urandom 0x7fffffff (rng afl) = Some (k, g)"
    "afl' = afl\<lparr>queue_buf := map (\<lambda>e. e\<lparr>ss_prob := ss_calc_prob fp e\<rparr>) (queue_buf afl), rng := g\<rparr>"
    "take_seed fmt io (pick_index fp (probs_of fp afl) k) afl' = (q, t)"
proof -
  let ?ps = "probs_of fp afl"
  let ?u = "afl\<lparr>queue_buf := map (\<lambda>e. e\<lparr>ss_prob := ss_calc_prob fp e\<rparr>) (queue_buf afl)\<rparr>"
  have ps: "?ps \<noteq> []" "length ?ps = unat (queued_items afl)" using ne len by (auto simp: probs_of_def unat_eq_zero)
  have pos: "0 < foldl (dadd fp) 0 ?ps"
    by (rule total_positive [OF assms(1,2) ps(1)]) (use ss_calc_prob_facts [OF assms(1)] in \<open>simp add: probs_of_def\<close>)
  have pm: "map ss_prob (take (unat (queued_items afl)) (queue_buf (?u\<lparr>rng := g\<rparr>))) = ?ps" for g
    using len by (simp add: probs_of_def)
  obtain k g where kg: "rand_below urandom 0x7fffffff (rng afl) = Some (k, g)"
    using sel ne pos by (auto simp: select_next_queue_entry_def update_probs_eq [OF len])
  have "take_seed fmt io (pick_index fp ?ps k) (?u\<lparr>rng := g\<rparr>) = (q, t)"
    using sel ne pos kg pm ps(2)
    by (simp add: select_next_queue_entry_def update_probs_eq [OF len] pick_index_def Let_def split: option.splits)
  then show ?thesis using that [OF kg] by simp
qed

text \<open>
  \<open>select_next_queue_entry\<close> selects one entry of the queue: in any rounding mode the index it
  returns is in the queue, exactly that entry's selection count goes up by one, every entry gets its
  current probability and nothing else of an entry changes; the uniform fallback is never taken,
  since every probability has a positive floor.
\<close>

theorem select_next_entry_valid:
  assumes "fpu_ok fp" and "0 < dlit fp 0.01" and "length (queue_buf afl) = unat (queued_items afl)"
    and "queued_items afl \<noteq> 0" and "select_next_queue_entry fp urandom fmt io afl = Some (q, t)"
  shows "unat q < unat (queued_items afl) \<and>
    (\<exists>k. rand_below urandom 0x7fffffff (rng afl) = Some (k, rng t)) \<and>
    (\<forall>j < unat (queued_items afl). entry t j = (entry afl j)
       \<lparr>ss_prob := ss_calc_prob fp (entry afl j),
        ss_selected_cnt := ss_selected_cnt (entry afl j) + (if j = unat q then 1 else 0)\<rparr>)"
proof -
  obtain k g afl' where k: "rand_below urandom 0x7fffffff (rng afl) = Some (k, g)"
    "afl' = afl\<lparr>queue_buf := map (\<lambda>e. e\<lparr>ss_prob := ss_calc_prob fp e\<rparr>) (queue_buf afl), rng := g\<rparr>"
    "take_seed fmt io (pick_index fp (probs_of fp afl) k) afl' = (q, t)" using select_unfold [OF assms] .
  let ?i = "pick_index fp (probs_of fp afl) k"
  have "probs_of fp afl \<noteq> []" "length (probs_of fp afl) = unat (queued_items afl)"
    using assms(3,4) by (auto simp: probs_of_def unat_eq_zero)
  then have i: "?i < unat (queued_items afl)" using pick_index_range by metis
  then have ib: "?i < length (queue_buf afl')" using assms(3) k(2) by simp
  note f = take_seed_facts [OF ib k(3)]
  have q: "unat q = ?i"
    using f(1) i unsigned_less [of "queued_items afl", where 'a = nat] by (simp add: unat_of_nat take_bit_nat_eq_self)
  have "entry afl' j = (entry afl j)\<lparr>ss_prob := ss_calc_prob fp (entry afl j)\<rparr>" if "j < unat (queued_items afl)" for j
    using that assms(3) by (simp add: k(2) entry_def)
  then show ?thesis using i q k(1) f(2,3) assms(3) by (simp add: k(2))
qed

lemma roulette_exact:
  "(case roulette exact_fpu r acc i ps of
      Some m \<Rightarrow> i \<le> m \<and> m < i + length ps \<and> r \<le> acc + sum_list (take (Suc (m - i)) ps) \<and>
        (m = i \<or> acc + sum_list (take (m - i) ps) < r)
    | None \<Rightarrow> ps = [] \<or> acc + sum_list ps < r)"
proof (induction ps arbitrary: acc i)
  case (Cons p ps)
  show ?case
  proof (cases "acc + p \<ge> r")
    case True
    then show ?thesis by (simp add: Let_def)
  next
    case False
    show ?thesis
    proof (cases "roulette exact_fpu r (acc + p) (Suc i) ps")
      case None
      then show ?thesis using Cons.IH [of "acc + p" "Suc i"] False by (auto simp: Let_def add.assoc)
    next
      case (Some m)
      then have m: "Suc i \<le> m" "m < Suc i + length ps" "r \<le> acc + p + sum_list (take (Suc (m - Suc i)) ps)"
        "m = Suc i \<or> acc + p + sum_list (take (m - Suc i) ps) < r"
        using Cons.IH [of "acc + p" "Suc i"] by simp_all
      obtain d where d: "m = Suc i + d" using m(1) le_Suc_ex by blast
      show ?thesis using m False Some unfolding d by (auto simp: Let_def add.assoc Suc_diff_le)
    qed
  qed
qed simp

text \<open>
  The roulette is fair to the weights: with exact arithmetic, for the draw \<open>k\<close> the entry selected is
  the one in whose interval the point \<open>k / 0x7fffffff\<close> of the way to the total falls, the intervals
  being as long as the entries' probabilities and laid out in the order of the queue.
\<close>

theorem select_next_entry_interval:
  assumes "length (queue_buf afl) = unat (queued_items afl)" and "queued_items afl \<noteq> 0"
    and "rand_below urandom 0x7fffffff (rng afl) = Some (k, g)"
    and "select_next_queue_entry exact_fpu urandom fmt io afl = Some (q, t)"
    and "p = probs_of exact_fpu afl" and "r = real (unat k) / real 0x7fffffff * sum_list p"
  shows "r \<le> sum_list (take (Suc (unat q)) p) \<and> (unat q = 0 \<or> sum_list (take (unat q) p) < r)"
proof -
  have eps: "0 < dlit exact_fpu 0.01" by simp
  obtain k' g' afl' where k: "rand_below urandom 0x7fffffff (rng afl) = Some (k', g')"
    "afl' = afl\<lparr>queue_buf := map (\<lambda>e. e\<lparr>ss_prob := ss_calc_prob exact_fpu e\<rparr>) (queue_buf afl), rng := g'\<rparr>"
    "take_seed fmt io (pick_index exact_fpu (probs_of exact_fpu afl) k') afl' = (q, t)"
    using select_unfold [OF fpu_ok_exact eps assms(1,2,4)] .
  have kk: "k' = k" using k(1) assms(3) by simp
  let ?i = "pick_index exact_fpu p k"
  have p: "p \<noteq> []" "length p = unat (queued_items afl)" using assms(1,2) by (auto simp: assms(5) probs_of_def unat_eq_zero)
  then have i: "?i < unat (queued_items afl)" using pick_index_range by metis
  have ib: "pick_index exact_fpu (probs_of exact_fpu afl) k' < length (queue_buf afl')"
    using i assms(1,5) kk by (simp add: k(2))
  have q: "unat q = ?i"
    using take_seed_facts(1) [OF ib k(3)] i kk assms(5) unsigned_less [of "queued_items afl", where 'a = nat]
    by (simp add: unat_of_nat take_bit_nat_eq_self)
  have fs: "foldl (dadd exact_fpu) a ps = a + sum_list ps" for a ps by (induction ps arbitrary: a) simp_all
  have pos: "0 < sum_list p"
    using total_positive [OF fpu_ok_exact eps p(1)] ss_calc_prob_facts [OF fpu_ok_exact] fs [of 0 p]
    by (simp add: assms(5) probs_of_def)
  have pt: "?i = (case roulette exact_fpu r 0 0 p of Some m \<Rightarrow> m | None \<Rightarrow> length p - 1)"
    by (simp add: pick_index_def fs assms(6) d_of_u32_def)
  have lt: "k < 0x7fffffff" by (rule rand_below_less [OF _ assms(3)]) simp
  have "unat k \<le> 0x7fffffff" using lt by (simp add: word_less_nat_alt)
  then have "real (unat k) \<le> real (0x7fffffff :: nat)" by (rule of_nat_mono)
  moreover obtain x where x: "x = real (unat k)" by blast
  ultimately have "x / real (0x7fffffff :: nat) \<le> 1" by simp
  then have "r \<le> 1 * sum_list p" unfolding assms(6) x [symmetric] by (intro mult_right_mono) (use pos in simp_all)
  then have "r \<le> sum_list p" by simp
  then have "roulette exact_fpu r 0 0 p \<noteq> None" using roulette_exact [where r = r and acc = 0 and i = 0 and ps = p] p(1) by (auto split: option.splits)
  then obtain m where m: "roulette exact_fpu r 0 0 p = Some m" by blast
  then show ?thesis using roulette_exact [where r = r and acc = 0 and i = 0 and ps = p] pt q by simp
qed

text \<open>A generator state whose first draw is at once below the bound.\<close>

lemma small_sched_draw: "\<exists>k g. rand_below (\<lambda>n. (0, 0, 0)) 0x7fffffff (rng small_sched) = Some (k, g)"
proof -
  have "rand_retry (rand_bound 0x7fffffff) (rand_reseed (\<lambda>n. (0, 0, 0)) (rng small_sched)) \<noteq> None"
  proof -
    have "1 < rand_bound 0x7fffffff" by code_simp
    then show ?thesis by (subst rand_retry_first) (simp_all add: rand_next_def rand_reseed_def Let_def)
  qed
  then show ?thesis by (auto simp: rand_below_def)
qed

lemma small_sched_select:
  "\<exists>q t. select_next_queue_entry exact_fpu (\<lambda>n. (0, 0, 0)) fmt io small_sched = Some (q, t)"
proof -
  obtain k g where "rand_below (\<lambda>n. (0, 0, 0)) 0x7fffffff (rng small_sched) = Some (k, g)" using small_sched_draw by blast
  moreover have "0 < foldl (dadd exact_fpu) 0 (probs_of exact_fpu small_sched)"
    by (rule total_positive) (use ss_calc_prob_facts [OF fpu_ok_exact] in \<open>simp_all add: probs_of_def\<close>)
  ultimately show ?thesis
    by (auto simp: select_next_queue_entry_def update_probs_eq Let_def split: option.split)
qed

theorem select_next_entry_valid_witness:
  "\<exists>q t. select_next_queue_entry exact_fpu (\<lambda>n. (0, 0, 0)) (\<lambda>x. ''0'')
       \<lparr>audit_path = None, audit_opens = True, audit_writes = int, audit_closes = True\<rparr> small_sched = Some (q, t) \<and>
     unat q < 3"
proof -
  let ?io = "\<lparr>audit_path = None, audit_opens = True, audit_writes = int, audit_closes = True\<rparr>"
  obtain q t where s: "select_next_queue_entry exact_fpu (\<lambda>n. (0, 0, 0)) (\<lambda>x. ''0'') ?io small_sched = Some (q, t)"
    using small_sched_select by blast
  have "unat q < unat (queued_items small_sched)"
    using select_next_entry_valid [OF fpu_ok_exact _ _ _ s] by simp
  then show ?thesis using s by auto
qed

theorem select_next_entry_interval_witness:
  "\<exists>q t k g. select_next_queue_entry exact_fpu (\<lambda>n. (0, 0, 0)) (\<lambda>x. ''0'')
       \<lparr>audit_path = None, audit_opens = True, audit_writes = int, audit_closes = True\<rparr> small_sched = Some (q, t) \<and>
     rand_below (\<lambda>n. (0, 0, 0)) 0x7fffffff (rng small_sched) = Some (k, g) \<and>
     real (unat k) / real 0x7fffffff * sum_list (probs_of exact_fpu small_sched)
       \<le> sum_list (take (Suc (unat q)) (probs_of exact_fpu small_sched))"
proof -
  let ?io = "\<lparr>audit_path = None, audit_opens = True, audit_writes = int, audit_closes = True\<rparr>"
  obtain q t where s: "select_next_queue_entry exact_fpu (\<lambda>n. (0, 0, 0)) (\<lambda>x. ''0'') ?io small_sched = Some (q, t)"
    using small_sched_select by blast
  obtain k g where k: "rand_below (\<lambda>n. (0, 0, 0)) 0x7fffffff (rng small_sched) = Some (k, g)" using small_sched_draw by blast
  show ?thesis using select_next_entry_interval [OF _ _ k s refl refl] s k by auto
qed
section \<open>The alias table of a queue\<close>

lemma factor_pos:
  "0 < w \<Longrightarrow> 0 < time_weight exact_fpu t w" "0 < w \<Longrightarrow> 0 < len_weight exact_fpu t w"
  "0 < w \<Longrightarrow> 0 < coverage_weight exact_fpu t w"
  by (simp_all add: time_weight_def len_weight_def coverage_weight_def)

lemma entry_weight_pos:
  assumes "m_double fm = exact_fpu" and "\<forall>x \<ge> 1. 0 \<le> m_log10 fm x"
  shows "0 < entry_weight fm afl us bms len q"
proof -
  have "0 \<le> m_log10 fm (real (unat h))" if "h \<noteq> 0" for h :: u32
    using assms(2) unat_gt_0 [of h] that by (metis One_nat_def Suc_leI of_nat_1 of_nat_le_iff)
  then have w: "0 < (if c \<and> h \<noteq> 0 then ddiv exact_fpu 1 (dadd exact_fpu (m_log10 fm (d_of_u32 exact_fpu h)) 1) else 1)" for c h
    by (simp add: d_of_u32_def add_nonneg_pos)
  show ?thesis
    unfolding entry_weight_def assms(1) Let_def
    using factor_pos w by (simp add: if_split_asm)
qed

lemma score_entry_frame:
  "score_entry fm i afl = Some t \<Longrightarrow> \<exists>h p. t = set_entry i (\<lambda>e. e\<lparr>handicap := h, perf_score := p\<rparr>) afl"
  by (auto simp: score_entry_def calculate_score_def Let_def set_entry_def entry_def split: prod.splits)
    (cases "i < length (queue_buf afl)"; auto simp: nth_list_update list_update_beyond; blast)

definition enabled :: "'a afl_sched_scheme \<Rightarrow> qid set" where
  "enabled afl = {i. i < length (queue_buf afl) \<and> \<not> disabled (entry afl i)}"

lemma weigh_entries_facts:
  fixes afl :: "'a afl_sched_scheme"
  assumes fm: "m_double fm = exact_fpu" "\<forall>x \<ge> 1. 0 \<le> m_log10 fm x"
    and w: "weigh_entries fm us bms len is s0 afl = Some (tot, t)"
    and "distinct is" and "\<forall>i\<in>set is. i < length (queue_buf afl)"
  shows "t = afl\<lparr>queue_buf := queue_buf t\<rparr> \<and> length (queue_buf t) = length (queue_buf afl) \<and>
    (\<forall>p. disabled (entry t p) = disabled (entry afl p)) \<and> (\<forall>p. p \<notin> set is \<longrightarrow> entry t p = entry afl p) \<and>
    (\<forall>p\<in>set is. \<not> disabled (entry afl p) \<longrightarrow> 0 < weight (entry t p)) \<and>
    tot = s0 + (\<Sum>p\<leftarrow>is. if disabled (entry afl p) then 0 else weight (entry t p))"
  using w assms(4,5)
proof (induction "is" arbitrary: s0 afl)
  case (Cons i "is")
  show ?case
  proof (cases "disabled (entry afl i)")
    case True
    then have w: "weigh_entries fm us bms len is s0 afl = Some (tot, t)" using Cons.prems(1) by simp
    from Cons.IH [OF this] Cons.prems(2,3) True show ?thesis by auto
  next
    case False
    let ?w = "entry_weight fm afl us bms len (entry afl i)"
    let ?a = "set_entry i (\<lambda>e. e\<lparr>weight := ?w\<rparr>) afl"
    obtain b where b: "score_entry fm i ?a = Some b" "weigh_entries fm us bms len is (s0 + ?w) b = Some (tot, t)"
      using Cons.prems(1) False fm(1) by (auto simp: Let_def split: option.splits)
    obtain h p where hp: "b = set_entry i (\<lambda>e. e\<lparr>handicap := h, perf_score := p\<rparr>) ?a" using score_entry_frame [OF b(1)] by blast
    have i: "i < length (queue_buf afl)" "i \<notin> set is" using Cons.prems by simp_all
    have fb: "length (queue_buf b) = length (queue_buf afl)" "disabled (entry b q) = disabled (entry afl q)"
      "q \<noteq> i \<Longrightarrow> entry b q = entry afl q" "weight (entry b i) = ?w" "b = afl\<lparr>queue_buf := queue_buf b\<rparr>" for q
      using i by (simp_all add: hp) (simp add: set_entry_def)
    have IH: "t = b\<lparr>queue_buf := queue_buf t\<rparr>" "length (queue_buf t) = length (queue_buf b)"
      "\<forall>p. disabled (entry t p) = disabled (entry b p)" "\<forall>p. p \<notin> set is \<longrightarrow> entry t p = entry b p"
      "\<forall>p\<in>set is. \<not> disabled (entry b p) \<longrightarrow> 0 < weight (entry t p)"
      "tot = s0 + ?w + (\<Sum>p\<leftarrow>is. if disabled (entry b p) then 0 else weight (entry t p))"
      using Cons.IH [OF b(2)] Cons.prems(2,3) fb(1) by auto
    have t: "t = afl\<lparr>queue_buf := queue_buf t\<rparr>" by (subst IH(1), subst fb(5)) simp
    have wi: "weight (entry t i) = ?w" using IH(4) i(2) fb(4) by simp
    have pos: "0 < ?w" by (rule entry_weight_pos [OF fm])
    show ?thesis
      using t IH(2-6) fb(1-3) wi pos False i by auto
  qed
qed simp

lemma sum_enabled:
  fixes afl :: "'a afl_sched_scheme"
  shows "(\<Sum>p\<leftarrow>[0..<length (queue_buf afl)]. if disabled (entry afl p) then 0 else f p) = (\<Sum>p\<in>enabled afl. f p)"
proof -
  have "(\<Sum>p\<leftarrow>[0..<length (queue_buf afl)]. if disabled (entry afl p) then 0 else f p) =
      (\<Sum>p\<in>{0..<length (queue_buf afl)}. if disabled (entry afl p) then 0 else f p)"
    by (simp add: interv_sum_list_conv_sum_set_nat)
  also have "\<dots> = (\<Sum>p\<in>enabled afl. f p)"
    by (rule sum.mono_neutral_cong_right) (auto simp: enabled_def)
  finally show ?thesis .
qed



end
