(* ===== verification/Testcase_Cache.thy ===== *)
theory Testcase_Cache
  imports Queue
begin

text \<open>
  The cache of testcases in memory, \<open>queue_testcase_*\<close> of \<open>src/src/afl-fuzz-queue.c\<close>: loading an
  entry with eviction of others, storing a new one, and replacing a trimmed one.
\<close>

section \<open>State\<close>

record afl_cache = afl_queue +
  cache_rng :: rand_st
  testcase_cache :: "qid ptr list"
  max_cache_size :: u64
  max_cache_entries :: u32
  cache_size :: u64
  max_cache_count :: u32
  cache_count :: u32
  smallest_free :: u32
  cache_evictions :: u32
  cache_do_once :: bool

text \<open>
  \<open>Out_of_bounds\<close> is an access past the array of the cache, undefined in C; \<open>Read_failed\<close> ends the
  program; \<open>None\<close> is a loop that does not end.
\<close>

datatype cache_error = Out_of_bounds | Read_failed

text \<open>\<open>files q\<close> is what the file of entry \<open>q\<close> holds; \<open>ck_read\<close> insists on the length.\<close>

type_synonym corpus = "qid \<Rightarrow> bytes ptr"

definition read_testcase :: "corpus \<Rightarrow> qid \<Rightarrow> u32 \<Rightarrow> bytes ptr" where
  "read_testcase files q len =
     (case files q of None \<Rightarrow> None
      | Some bs \<Rightarrow> if length bs < unat len then None else Some (take (unat len) bs))"

section \<open>Eviction\<close>

definition cache_over_size :: "u32 \<Rightarrow> 'a afl_cache_scheme \<Rightarrow> bool" where
  "cache_over_size len afl \<longleftrightarrow> cache_size afl + ucast len \<ge> max_cache_size afl"

definition cache_full :: "u32 \<Rightarrow> 'a afl_cache_scheme \<Rightarrow> bool" where
  "cache_full len afl \<longleftrightarrow>
     cache_over_size len afl \<and> cache_count afl > 1 \<or> cache_count afl \<ge> max_cache_entries afl - 1"

text \<open>The tail \<open>realloc\<close> adds is never read; it is null here.\<close>

definition resize_cache :: "nat \<Rightarrow> qid ptr list \<Rightarrow> qid ptr list" where
  "resize_cache n xs = take n xs @ replicate (n - length xs) None"

definition learn_max_entries :: "u32 \<Rightarrow> 'a afl_cache_scheme \<Rightarrow> 'a afl_cache_scheme" where
  "learn_max_entries len afl =
     (if cache_over_size len afl \<and> cache_count afl < max_cache_entries afl \<and>
         max_cache_count afl < max_cache_entries afl \<and> \<not> cache_do_once afl
      then
        let entries = (if max_cache_count afl > cache_count afl then max_cache_count afl + 1
                       else cache_count afl + 1)
        in afl\<lparr>max_cache_entries := entries, cache_do_once := True,
               testcase_cache := resize_cache (unat (entries + 1)) (testcase_cache afl)\<rparr>
      else afl)"

partial_function (option) pick_victim ::
  "urandom \<Rightarrow> 'a afl_cache_scheme \<Rightarrow> (cache_error + u32 \<times> 'a afl_cache_scheme) option" where
  "pick_victim urandom afl =
     Option.bind (rand_below urandom (max_cache_count afl) (cache_rng afl)) (\<lambda>(tid, g).
       let afl = afl\<lparr>cache_rng := g\<rparr> in
       if unat tid \<ge> length (testcase_cache afl) then Some (Inl Out_of_bounds)
       else if testcase_cache afl ! unat tid = None \<or> testcase_cache afl ! unat tid = queue_cur afl
            then pick_victim urandom afl
            else Some (Inr (tid, afl)))"

definition evict :: "u32 \<Rightarrow> 'a afl_cache_scheme \<Rightarrow> 'a afl_cache_scheme" where
  "evict tid afl =
     (case testcase_cache afl ! unat tid of
        None \<Rightarrow> afl
      | Some q \<Rightarrow>
          let afl = set_entry q (\<lambda>e. e\<lparr>testcase_buf := None\<rparr>) afl
          in afl\<lparr>cache_size := cache_size afl - ucast (q_len (entry afl q)),
                 testcase_cache := (testcase_cache afl)[unat tid := None],
                 cache_count := cache_count afl - 1,
                 cache_evictions := cache_evictions afl + 1,
                 smallest_free := (if tid < smallest_free afl then tid else smallest_free afl)\<rparr>)"

partial_function (option) make_room ::
  "urandom \<Rightarrow> u32 \<Rightarrow> u32 \<Rightarrow> 'a afl_cache_scheme \<Rightarrow> (cache_error + u32 \<times> 'a afl_cache_scheme) option" where
  "make_room urandom len tid afl =
     (if cache_full len afl then
        Option.bind (pick_victim urandom (learn_max_entries len afl)) (\<lambda>r.
          case r of Inl e \<Rightarrow> Some (Inl e)
          | Inr (tid, afl) \<Rightarrow> make_room urandom len tid (evict tid afl))
      else Some (Inr (tid, afl)))"

section \<open>Loading and storing\<close>

text \<open>The first null slot from a slot on.\<close>

fun null_slot :: "nat \<Rightarrow> qid ptr list \<Rightarrow> nat option" where
  "null_slot i [] = None"
| "null_slot i (x # xs) = (if x \<noteq> None then null_slot (Suc i) xs else Some i)"

definition register_testcase :: "u32 \<Rightarrow> qid \<Rightarrow> bytes \<Rightarrow> 'a afl_cache_scheme \<Rightarrow> 'a afl_cache_scheme" where
  "register_testcase tid q mem afl =
     (let len = q_len (entry afl q);
          afl = set_entry q (\<lambda>e. e\<lparr>testcase_buf := Some mem\<rparr>) afl
      in afl\<lparr>testcase_cache := (testcase_cache afl)[unat tid := Some q],
             cache_size := cache_size afl + ucast len,
             cache_count := cache_count afl + 1,
             max_cache_count := (if tid \<ge> max_cache_count afl then tid + 1 else max_cache_count afl),
             smallest_free := (if \<not> tid \<ge> max_cache_count afl \<and> tid = smallest_free afl then tid + 1
                               else smallest_free afl)\<rparr>)"

text \<open>
  An entry below the average weight, or with no cache configured, is read into a scratch buffer and
  not cached.
\<close>

definition queue_testcase_get ::
  "urandom \<Rightarrow> corpus \<Rightarrow> qid \<Rightarrow> 'a afl_cache_scheme \<Rightarrow> (cache_error + bytes \<times> 'a afl_cache_scheme) option" where
  "queue_testcase_get urandom files q afl =
     (case testcase_buf (entry afl q) of
        Some buf \<Rightarrow> Some (Inr (buf, afl))
      | None \<Rightarrow>
          let len = q_len (entry afl q) in
          if weight (entry afl q) < 1 \<or> max_cache_size afl = 0 then
            Some (case read_testcase files q len of None \<Rightarrow> Inl Read_failed | Some buf \<Rightarrow> Inr (buf, afl))
          else
            Option.bind (make_room urandom len (max_cache_count afl) afl) (\<lambda>r.
              case r of Inl e \<Rightarrow> Some (Inl e)
              | Inr (tid, afl) \<Rightarrow>
                  let tid = (if tid \<ge> max_cache_entries afl then smallest_free afl else tid)
                  in (case null_slot (unat tid) (drop (unat tid) (testcase_cache afl)) of
                        None \<Rightarrow> Some (Inl Out_of_bounds)
                      | Some i \<Rightarrow>
                          (case read_testcase files q len of
                             None \<Rightarrow> Some (Inl Read_failed)
                           | Some buf \<Rightarrow> Some (Inr (buf, register_testcase (of_nat i) q buf afl))))))"

definition queue_testcase_store_mem ::
  "qid \<Rightarrow> bytes \<Rightarrow> 'a afl_cache_scheme \<Rightarrow> cache_error + 'a afl_cache_scheme" where
  "queue_testcase_store_mem q mem afl =
     (let len = q_len (entry afl q) in
      if weight (entry afl q) < 1 \<or> cache_over_size len afl \<or> cache_count afl \<ge> max_cache_entries afl - 1
      then Inr afl
      else
        let tid = (if max_cache_count afl \<ge> max_cache_entries afl then smallest_free afl else max_cache_count afl)
        in (case null_slot (unat tid) (drop (unat tid) (testcase_cache afl)) of
              None \<Rightarrow> Inl Out_of_bounds
            | Some i \<Rightarrow> Inr (register_testcase (of_nat i) q (take (unat len) mem) afl)))"

section \<open>Replacing a trimmed testcase\<close>

text \<open>The caller has already set the entry's new length.\<close>

definition queue_testcase_retake :: "corpus \<Rightarrow> qid \<Rightarrow> u32 \<Rightarrow> 'a afl_cache_scheme \<Rightarrow> cache_error + 'a afl_cache_scheme" where
  "queue_testcase_retake files q old_len afl =
     (case testcase_buf (entry afl q) of
        None \<Rightarrow> Inr afl
      | Some _ \<Rightarrow>
          let len = q_len (entry afl q);
              afl = (if len > old_len \<or> len + 1024 < old_len
                     then afl\<lparr>cache_size := cache_size afl + ucast (len - old_len)\<rparr> else afl)
          in (case read_testcase files q len of
                None \<Rightarrow> Inl Read_failed
              | Some buf \<Rightarrow> Inr (set_entry q (\<lambda>e. e\<lparr>testcase_buf := Some buf\<rparr>) afl)))"

text \<open>
  \<open>same_buf\<close>: the new data is in the cached buffer itself; \<open>realloc_ok\<close>: the shrinking succeeds. The
  buffer keeps the bytes past the new length when it is not shrunk.
\<close>

definition queue_testcase_retake_mem ::
  "bool \<Rightarrow> bool \<Rightarrow> qid \<Rightarrow> bytes \<Rightarrow> u32 \<Rightarrow> u32 \<Rightarrow> 'a afl_cache_scheme \<Rightarrow> 'a afl_cache_scheme" where
  "queue_testcase_retake_mem same_buf realloc_ok q mem len old_len afl =
     (case testcase_buf (entry afl q) of
        None \<Rightarrow> afl
      | Some buf \<Rightarrow>
          if same_buf then afl
          else
            let shrink = (len + 1024 < old_len \<and> realloc_ok);
                afl = (if shrink then afl\<lparr>cache_size := cache_size afl + ucast (len - old_len)\<rparr> else afl);
                buf = (if shrink then take (unat len) buf else buf)
            in set_entry q (\<lambda>e. e\<lparr>testcase_buf := Some (take (unat len) mem @ drop (unat len) buf)\<rparr>) afl)"
section \<open>The books of the cache\<close>

definition occupied :: "qid ptr list \<Rightarrow> nat" where
  "occupied xs = (\<Sum>x\<leftarrow>xs. of_bool (x \<noteq> None))"

definition slot_bytes :: "'a afl_cache_scheme \<Rightarrow> qid ptr \<Rightarrow> nat" where
  "slot_bytes s x = (case x of None \<Rightarrow> 0 | Some q \<Rightarrow> unat (q_len (entry s q)))"

lemma slot_bytes_simps [simp]: "slot_bytes s None = 0" "slot_bytes s (Some q) = unat (q_len (entry s q))"
  by (simp_all add: slot_bytes_def)

definition held_bytes :: "'a afl_cache_scheme \<Rightarrow> nat" where
  "held_bytes s = (\<Sum>x\<leftarrow>testcase_cache s. slot_bytes s x)"

text \<open>
  The high-water mark is within the array and above every used slot, the slots below
  \<open>smallest_free\<close> are in use, count and size are those of the slots, and a slot and the buffer of its
  entry go together.
\<close>

definition cache_ok :: "'a afl_cache_scheme \<Rightarrow> bool" where
  "cache_ok s \<longleftrightarrow>
     2 \<le> unat (max_cache_entries s) \<and> unat (max_cache_entries s) < 2 ^ 32 - 1 \<and>
     unat (max_cache_entries s) \<le> length (testcase_cache s) \<and>
     unat (max_cache_count s) \<le> unat (max_cache_entries s) \<and>
     unat (smallest_free s) \<le> unat (max_cache_count s) \<and>
     (\<forall>j < length (testcase_cache s). unat (max_cache_count s) \<le> j \<longrightarrow> testcase_cache s ! j = None) \<and>
     (\<forall>j < unat (smallest_free s). testcase_cache s ! j \<noteq> None) \<and>
     unat (cache_count s) = occupied (testcase_cache s) \<and> unat (cache_size s) = held_bytes s \<and>
     distinct (filter (\<lambda>x. x \<noteq> None) (testcase_cache s)) \<and>
     (\<forall>q. Some q \<in> set (testcase_cache s) \<longrightarrow> q < length (queue_buf s)) \<and>
     (\<forall>q < length (queue_buf s). testcase_buf (entry s q) \<noteq> None \<longleftrightarrow> Some q \<in> set (testcase_cache s))"

lemma sum_list_set_slot:
  fixes f :: "'b \<Rightarrow> nat"
  assumes "i < length xs"
  shows "(\<Sum>x\<leftarrow>xs[i := v]. f x) + f (xs ! i) = (\<Sum>x\<leftarrow>xs. f x) + f v"
  using assms
proof (induction xs arbitrary: i)
  case (Cons x xs)
  then show ?case by (cases i) (auto simp: add.commute add.left_commute)
qed simp

lemma occupied_set_slot:
  "i < length xs \<Longrightarrow> xs ! i \<noteq> None \<Longrightarrow> Suc (occupied (xs[i := None])) = occupied xs"
  "i < length xs \<Longrightarrow> xs ! i = None \<Longrightarrow> occupied (xs[i := Some q]) = Suc (occupied xs)"
  unfolding occupied_def
  using sum_list_set_slot [of i xs "\<lambda>x. of_bool (x \<noteq> None)" None] sum_list_set_slot [of i xs "\<lambda>x. of_bool (x \<noteq> None)" "Some q"]
  by simp_all

lemma occupied_eq: "occupied xs = length (filter (\<lambda>x. x \<noteq> None) xs)"
  unfolding occupied_def by (induction xs) auto

lemma occupied_le: "(\<forall>j < length xs. m \<le> j \<longrightarrow> xs ! j = None) \<Longrightarrow> occupied xs \<le> m"
proof -
  assume a: "\<forall>j < length xs. m \<le> j \<longrightarrow> xs ! j = None"
  have "\<forall>x\<in>set (drop m xs). x = None" using a by (auto simp: in_set_conv_nth)
  then have "occupied (drop m xs) = 0" by (simp add: occupied_eq filter_empty_conv)
  moreover have "occupied xs = occupied (take m xs) + occupied (drop m xs)"
    unfolding occupied_def by (metis append_take_drop_id map_append sum_list_append)
  moreover have "occupied (take m xs) \<le> length (take m xs)" by (simp only: occupied_eq length_filter_le)
  ultimately show ?thesis by simp
qed

lemma held_le: "held_bytes s \<le> occupied (testcase_cache s) * (2 ^ 32 - 1)"
proof -
  have "(\<Sum>x\<leftarrow>xs. slot_bytes s x) \<le> occupied xs * (2 ^ 32 - 1)" for xs
  proof (induction xs)
    case (Cons x xs)
    have "unat (q_len (entry s q)) \<le> 2 ^ 32 - 1" for q using unsigned_less [of "q_len (entry s q)", where 'a = nat] by simp
    then have "slot_bytes s x \<le> of_bool (x \<noteq> None) * (2 ^ 32 - 1)" by (simp add: slot_bytes_def split: option.split)
    then show ?case using Cons by (simp add: occupied_def)
  qed (simp add: occupied_def)
  then show ?thesis by (simp add: held_bytes_def)
qed

lemma resize_same:
  assumes "\<forall>j < length xs. n \<le> j \<longrightarrow> xs ! j = None"
  shows "j < n \<Longrightarrow> j < length xs \<Longrightarrow> resize_cache n xs ! j = xs ! j" "length (resize_cache n xs) = n"
    "set (resize_cache n xs) - {None} = set xs - {None}"
    "filter (\<lambda>x. x \<noteq> None) (resize_cache n xs) = filter (\<lambda>x. x \<noteq> None) xs"
    "f None = (0::nat) \<Longrightarrow> (\<Sum>x\<leftarrow>resize_cache n xs. f x) = (\<Sum>x\<leftarrow>xs. f x)"
    "j < n \<Longrightarrow> length xs \<le> j \<Longrightarrow> resize_cache n xs ! j = None"
proof -
  show "j < n \<Longrightarrow> j < length xs \<Longrightarrow> resize_cache n xs ! j = xs ! j" "length (resize_cache n xs) = n"
    "j < n \<Longrightarrow> length xs \<le> j \<Longrightarrow> resize_cache n xs ! j = None"
    by (auto simp: resize_cache_def nth_append)
  have d: "\<forall>x\<in>set (drop n xs). x = None" using assms by (auto simp: in_set_conv_nth)
  have x: "xs = take n xs @ drop n xs" by simp
  have "set xs = set (take n xs) \<union> set (drop n xs)" by (metis append_take_drop_id set_append)
  then show "set (resize_cache n xs) - {None} = set xs - {None}" using d by (auto simp: resize_cache_def split: if_splits)
  have "filter (\<lambda>x. x \<noteq> None) (drop n xs) = []" using d by (auto simp: filter_empty_conv)
  then have "filter (\<lambda>x. x \<noteq> None) xs = filter (\<lambda>x. x \<noteq> None) (take n xs)" by (subst x) (simp only: filter_append append_Nil2)
  then show "filter (\<lambda>x. x \<noteq> None) (resize_cache n xs) = filter (\<lambda>x. x \<noteq> None) xs" by (simp add: resize_cache_def)
  show "(\<Sum>x\<leftarrow>resize_cache n xs. f x) = (\<Sum>x\<leftarrow>xs. f x)" if f: "f None = (0::nat)"
  proof -
    have "f x = 0" if "x \<in> set (drop n xs)" for x using d f that by metis
    then have "(\<Sum>x\<leftarrow>drop n xs. f x) = 0" by simp
    moreover have "(\<Sum>x\<leftarrow>xs. f x) = (\<Sum>x\<leftarrow>take n xs. f x) + (\<Sum>x\<leftarrow>drop n xs. f x)" 
      by (metis append_take_drop_id map_append sum_list_append)
    ultimately show ?thesis using f by (simp add: resize_cache_def sum_list_replicate)
  qed
qed

lemma cache_okD:
  assumes "cache_ok s"
  shows "2 \<le> unat (max_cache_entries s)" "unat (max_cache_entries s) \<le> length (testcase_cache s)"
    "unat (max_cache_count s) \<le> unat (max_cache_entries s)" "unat (smallest_free s) \<le> unat (max_cache_count s)"
    "j < length (testcase_cache s) \<Longrightarrow> unat (max_cache_count s) \<le> j \<Longrightarrow> testcase_cache s ! j = None"
    "unat (cache_count s) = occupied (testcase_cache s)" "unat (cache_size s) = held_bytes s"
    "j < unat (smallest_free s) \<Longrightarrow> testcase_cache s ! j \<noteq> None"
    "Some q \<in> set (testcase_cache s) \<Longrightarrow> q < length (queue_buf s)"
    "q < length (queue_buf s) \<Longrightarrow> testcase_buf (entry s q) \<noteq> None \<longleftrightarrow> Some q \<in> set (testcase_cache s)"
    "distinct (filter (\<lambda>x. x \<noteq> None) (testcase_cache s))" "unat (max_cache_entries s) < 2 ^ 32 - 1"
    "occupied (testcase_cache s) \<le> unat (max_cache_count s)"
  using assms occupied_le [of "testcase_cache s" "unat (max_cache_count s)"] by (simp_all add: cache_ok_def)

section \<open>Making room keeps the books\<close>

lemma resize_set:
  assumes "\<forall>j < length xs. n \<le> j \<longrightarrow> xs ! j = None"
  shows "Some q \<in> set (resize_cache n xs) \<longleftrightarrow> Some q \<in> set xs"
proof -
  have "Some q \<in> set (resize_cache n xs) - {None} \<longleftrightarrow> Some q \<in> set xs - {None}" unfolding resize_same(3) [OF assms] ..
  then show ?thesis by simp
qed

text \<open>Only buffers of other entries than the current one are dropped.\<close>

definition maybe_dropped :: "bool \<Rightarrow> queue_entry \<Rightarrow> queue_entry \<Rightarrow> bool" where
  "maybe_dropped current e e' \<longleftrightarrow> q_len e' = q_len e \<and> weight e' = weight e \<and>
     (testcase_buf e' = testcase_buf e \<or> testcase_buf e' = None) \<and> (current \<longrightarrow> e' = e)"

lemma maybe_dropped_refl [simp]: "maybe_dropped c e e"
  by (simp add: maybe_dropped_def)

lemma maybe_dropped_trans: "maybe_dropped c e e' \<Longrightarrow> maybe_dropped c e' e'' \<Longrightarrow> maybe_dropped c e e''"
  unfolding maybe_dropped_def by metis

lemma maybe_droppedD:
  assumes "maybe_dropped c e e'"
  shows "q_len e' = q_len e" "weight e' = weight e" "testcase_buf e' = testcase_buf e \<or> testcase_buf e' = None" "c \<Longrightarrow> e' = e"
  using assms unfolding maybe_dropped_def by simp_all

definition room_frame :: "'a afl_cache_scheme \<Rightarrow> 'a afl_cache_scheme \<Rightarrow> bool" where
  "room_frame s t \<longleftrightarrow> length (queue_buf t) = length (queue_buf s) \<and> queue_cur t = queue_cur s \<and>
     max_cache_size t = max_cache_size s \<and>
     (\<forall>p. maybe_dropped (queue_cur s = Some p) (entry s p) (entry t p))"

lemma room_frame_refl: "room_frame s s"
  by (simp add: room_frame_def)

lemma room_frame_trans:
  assumes "room_frame s t" and "room_frame t u"
  shows "room_frame s u"
proof -
  have "maybe_dropped (queue_cur s = Some p) (entry s p) (entry u p)" for p
    by (rule maybe_dropped_trans [of _ _ "entry t p"]) (use assms in \<open>simp_all add: room_frame_def\<close>)
  then show ?thesis using assms by (simp add: room_frame_def)
qed

lemma room_frameD:
  assumes "room_frame s t"
  shows "q_len (entry t p) = q_len (entry s p)" "weight (entry t p) = weight (entry s p)"
    "testcase_buf (entry t p) = testcase_buf (entry s p) \<or> testcase_buf (entry t p) = None"
    "queue_cur s = Some p \<Longrightarrow> entry t p = entry s p" "length (queue_buf t) = length (queue_buf s)"
proof -
  have e: "maybe_dropped (queue_cur s = Some p) (entry s p) (entry t p)"
    using assms by (simp add: room_frame_def)
  show "q_len (entry t p) = q_len (entry s p)" "weight (entry t p) = weight (entry s p)"
    "testcase_buf (entry t p) = testcase_buf (entry s p) \<or> testcase_buf (entry t p) = None"
    "queue_cur s = Some p \<Longrightarrow> entry t p = entry s p"
    using maybe_droppedD [OF e] by blast+
  show "length (queue_buf t) = length (queue_buf s)" using assms by (simp add: room_frame_def)
qed

lemma not_null_slots: "Some q \<in> set xs \<longleftrightarrow> Some q \<in> set (filter (\<lambda>x. x \<noteq> None) xs)"
  by simp

lemma learn_ok:
  assumes ok: "cache_ok s" and full: "cache_full len s"
  shows "cache_ok (learn_max_entries len s) \<and> room_frame s (learn_max_entries len s) \<and>
    max_cache_count (learn_max_entries len s) = max_cache_count s"
proof (cases "cache_over_size len s \<and> cache_count s < max_cache_entries s \<and> max_cache_count s < max_cache_entries s \<and> \<not> cache_do_once s")
  case True
  let ?m = "if max_cache_count s > cache_count s then max_cache_count s else cache_count s"
  let ?t = "learn_max_entries len s"
  note D = cache_okD [OF ok]
  have m: "max_cache_count s \<le> ?m" "cache_count s \<le> ?m" "?m < max_cache_entries s" using True by auto
  have c1: "1 \<le> unat (cache_count s)"
  proof (rule ccontr)
    assume "\<not> 1 \<le> unat (cache_count s)"
    then have "unat (cache_count s) = 0" by linarith
    then have c0: "cache_count s = 0" by (simp add: unat_eq_zero)
    moreover have "max_cache_entries s - 1 \<noteq> 0" using D(1) by auto
    ultimately show False using full by (simp add: cache_full_def)
  qed
  have e: "unat (?m + 1) = Suc (unat ?m)" using m(3) D(12) by (intro unat_Suc_word) (simp add: word_less_nat_alt)
  have E: "unat (?m + 1 + 1) = Suc (Suc (unat ?m))"
    using m(3) D(12) unat_Suc_word [of "?m + 1"] e by (simp add: word_less_nat_alt)
  have mm: "unat (max_cache_count s) \<le> unat ?m" "unat (cache_count s) \<le> unat ?m" "unat ?m < unat (max_cache_entries s)"
    using m by (simp_all add: word_le_nat_alt word_less_nat_alt)
  have t: "?t = s\<lparr>max_cache_entries := ?m + 1, cache_do_once := True, testcase_cache := resize_cache (unat (?m + 1 + 1)) (testcase_cache s)\<rparr>"
    using True by (auto simp: learn_max_entries_def Let_def)
  have none: "\<forall>j < length (testcase_cache s). unat (?m + 1 + 1) \<le> j \<longrightarrow> testcase_cache s ! j = None"
    using D(5) E mm(1) by simp
  note r = resize_same [OF none]
  have en: "entry ?t p = entry s p" for p by (simp add: t entry_def)
  have tc: "testcase_cache ?t = resize_cache (unat (?m + 1 + 1)) (testcase_cache s)" unfolding t by simp
  have ss: "Some q \<in> set (testcase_cache ?t) \<longleftrightarrow> Some q \<in> set (testcase_cache s)" for q
    unfolding tc by (rule resize_set [OF none])
  have sb: "slot_bytes ?t = slot_bytes s" "slot_bytes s None = 0"
    by (rule ext, simp only: slot_bytes_def en) (simp add: slot_bytes_def)
  have hb: "held_bytes ?t = held_bytes s"
    unfolding held_bytes_def tc sb(1) by (rule r(5)) (rule sb(2))
  have oc: "occupied (testcase_cache ?t) = occupied (testcase_cache s)"
    unfolding occupied_def tc by (rule r(5)) simp
  have nn: "j < length (testcase_cache ?t) \<Longrightarrow> unat (max_cache_count s) \<le> j \<Longrightarrow> testcase_cache ?t ! j = None" for j
    unfolding tc using r(1) [of j] r(2) r(6) [of j] D(5) [of j] by (cases "j < length (testcase_cache s)") simp_all
  have lo: "j < unat (smallest_free s) \<Longrightarrow> testcase_cache ?t ! j \<noteq> None" for j
    unfolding tc using r(1) [of j] D(8) [of j] D(2,3,4) E mm(1) by simp
  have "cache_ok ?t"
    unfolding cache_ok_def oc hb ss en
    using D e E mm c1 nn lo r(2,4) unfolding tc by (simp add: t)
  moreover have "room_frame s ?t" unfolding room_frame_def en by (simp add: t)
  ultimately show ?thesis by (simp add: t)
next
  case False
  then have "learn_max_entries len s = s" by (simp only: learn_max_entries_def if_False)
  then show ?thesis using ok by (simp add: room_frame_refl)
qed
lemma distinct_clear:
  assumes "distinct (filter (\<lambda>x. x \<noteq> None) xs)" and "i < length xs" and "xs ! i = Some q"
  shows "distinct (filter (\<lambda>x. x \<noteq> None) (xs[i := None]))" "Some q \<notin> set (xs[i := None])"
    "p \<noteq> q \<Longrightarrow> Some p \<in> set (xs[i := None]) \<longleftrightarrow> Some p \<in> set xs"
proof -
  have x: "xs = take i xs @ Some q # drop (Suc i) xs" using assms(2,3) id_take_nth_drop by metis
  have u: "xs[i := None] = take i xs @ None # drop (Suc i) xs" using assms(2) by (simp add: upd_conv_take_nth_drop)
  have d: "distinct (filter (\<lambda>x. x \<noteq> None) (take i xs) @ Some q # filter (\<lambda>x. x \<noteq> None) (drop (Suc i) xs))"
    using assms(1) by (subst (asm) x) simp
  then show "distinct (filter (\<lambda>x. x \<noteq> None) (xs[i := None]))" "Some q \<notin> set (xs[i := None])"
    unfolding u by simp_all
  have "set xs = set (take i xs) \<union> {Some q} \<union> set (drop (Suc i) xs)" by (subst x) (simp add: Un_insert_left)
  then show "p \<noteq> q \<Longrightarrow> Some p \<in> set (xs[i := None]) \<longleftrightarrow> Some p \<in> set xs" unfolding u by simp
qed

lemma entry_cache_update [simp]:
  "entry (s\<lparr>cache_size := a\<rparr>) p = entry s p" "entry (s\<lparr>testcase_cache := c\<rparr>) p = entry s p"
  "entry (s\<lparr>cache_rng := g\<rparr>) p = entry s p" "entry (s\<lparr>cache_count := a'\<rparr>) p = entry s p"
  "entry (s\<lparr>cache_evictions := a'\<rparr>) p = entry s p" "entry (s\<lparr>smallest_free := a'\<rparr>) p = entry s p"
  "entry (s\<lparr>max_cache_count := a'\<rparr>) p = entry s p"
  for s :: "'a afl_cache_scheme"
  by (simp_all add: entry_def)

lemma set_entry_cache_fields [simp]:
  "testcase_cache (set_entry q f s) = testcase_cache s" "cache_size (set_entry q f s) = cache_size s"
  "cache_count (set_entry q f s) = cache_count s" "max_cache_count (set_entry q f s) = max_cache_count s"
  "max_cache_entries (set_entry q f s) = max_cache_entries s" "smallest_free (set_entry q f s) = smallest_free s"
  "max_cache_size (set_entry q f s) = max_cache_size s" "queue_cur (set_entry q f s) = queue_cur s"
  for s :: "'a afl_cache_scheme"
  by (simp_all add: set_entry_def)

text \<open>What evicting slot \<open>tid\<close>, held by \<open>q\<close>, leaves.\<close>

lemma evict_fields:
  assumes "testcase_cache s ! unat tid = Some q"
  shows "testcase_cache (evict tid s) = (testcase_cache s)[unat tid := None]"
    "cache_size (evict tid s) = cache_size s - ucast (q_len (entry s q))" "cache_count (evict tid s) = cache_count s - 1"
    "smallest_free (evict tid s) = (if tid < smallest_free s then tid else smallest_free s)"
    "max_cache_count (evict tid s) = max_cache_count s" "max_cache_entries (evict tid s) = max_cache_entries s"
    "max_cache_size (evict tid s) = max_cache_size s" "queue_cur (evict tid s) = queue_cur s"
    "length (queue_buf (evict tid s)) = length (queue_buf s)"
    "entry (evict tid s) p = (if p = q \<and> q < length (queue_buf s) then (entry s q)\<lparr>testcase_buf := None\<rparr> else entry s p)"
proof -
  have el: "q_len (entry (set_entry q (\<lambda>e. e\<lparr>testcase_buf := None\<rparr>) s) q) = q_len (entry s q)" by simp
  show "testcase_cache (evict tid s) = (testcase_cache s)[unat tid := None]"
    "cache_size (evict tid s) = cache_size s - ucast (q_len (entry s q))" "cache_count (evict tid s) = cache_count s - 1"
    "smallest_free (evict tid s) = (if tid < smallest_free s then tid else smallest_free s)"
    "max_cache_count (evict tid s) = max_cache_count s" "max_cache_entries (evict tid s) = max_cache_entries s"
    "max_cache_size (evict tid s) = max_cache_size s" "queue_cur (evict tid s) = queue_cur s"
    "length (queue_buf (evict tid s)) = length (queue_buf s)"
    "entry (evict tid s) p = (if p = q \<and> q < length (queue_buf s) then (entry s q)\<lparr>testcase_buf := None\<rparr> else entry s p)"
    using assms el by (simp_all add: evict_def Let_def)
qed

lemma evict_ok:
  assumes ok: "cache_ok s" and tid: "unat tid < length (testcase_cache s)" "testcase_cache s ! unat tid = Some q"
    and cur: "queue_cur s \<noteq> Some q"
  shows "cache_ok (evict tid s)" "room_frame s (evict tid s)" "testcase_cache (evict tid s) ! unat tid = None"
    "unat tid < unat (max_cache_count (evict tid s))"
proof -
  note D = cache_okD [OF ok]
  note F = evict_fields [OF tid(2)]
  have q: "q < length (queue_buf s)" using D(9) [of q] tid by (metis nth_mem)
  have tM: "unat tid < unat (max_cache_count s)" using D(5) [OF tid(1)] tid(2) by (metis not_le option.distinct(1))
  show "testcase_cache (evict tid s) ! unat tid = None" using tid(1) by (simp add: F(1))
  show "unat tid < unat (max_cache_count (evict tid s))" using tM by (simp add: F(5))
  have "maybe_dropped (queue_cur s = Some p) (entry s p) (entry (evict tid s) p)" for p
    using cur unfolding F(10) by (cases "p = q") (simp_all add: maybe_dropped_def)
  then show "room_frame s (evict tid s)" by (simp add: room_frame_def F(7-9))
  have oc: "Suc (occupied ((testcase_cache s)[unat tid := None])) = occupied (testcase_cache s)"
    by (rule occupied_set_slot(1) [OF tid(1)]) (simp add: tid(2))
  have cnt: "unat (cache_count s - 1) = occupied ((testcase_cache s)[unat tid := None])"
    using oc D(6) unat_pred [of "cache_count s"] by (metis diff_Suc_1 unat_0 Zero_not_Suc)
  have ln: "q_len (entry (evict tid s) p) = q_len (entry s p)" for p unfolding F(10) by simp
  have sb: "slot_bytes (evict tid s) = slot_bytes s"
    by (rule ext) (simp only: slot_bytes_def ln)
  have held: "held_bytes (evict tid s) + unat (q_len (entry s q)) = held_bytes s"
    using sum_list_set_slot [OF tid(1), of "slot_bytes s" None] tid(2)
    unfolding held_bytes_def F(1) sb by simp
  have "unat (q_len (entry s q)) \<le> unat (cache_size s)" using held D(7) by simp
  then have sz: "unat (cache_size s - ucast (q_len (entry s q))) = held_bytes (evict tid s)"
    using held D(7) unat_sub [of "ucast (q_len (entry s q)) :: u64" "cache_size s"]
    by (simp add: word_le_nat_alt unat_ucast_u32)
  note dc = distinct_clear [OF D(11) tid]
  have lo: "(testcase_cache s)[unat tid := None] ! j \<noteq> None" if "j < unat (smallest_free (evict tid s))" for j
  proof -
    have j: "j < unat (smallest_free s)" "j \<noteq> unat tid"
      using that unfolding F(4) by (auto simp: word_less_nat_alt split: if_splits)
    then show ?thesis using D(8) by simp
  qed
  have fM: "unat (smallest_free (evict tid s)) \<le> unat (max_cache_count s)"
    unfolding F(4) using tM D(4) by simp
  have hi: "(testcase_cache s)[unat tid := None] ! j = None"
    if "j < length (testcase_cache s)" "unat (max_cache_count s) \<le> j" for j
    using D(5) [OF that] that tM by simp
  have buf: "testcase_buf (entry (evict tid s) p) \<noteq> None \<longleftrightarrow> Some p \<in> set ((testcase_cache s)[unat tid := None])"
    if "p < length (queue_buf s)" for p
    using that q dc(2) dc(3) [of p] D(10) [OF that] unfolding F(10) by (cases "p = q") auto
  have own: "p < length (queue_buf s)" if "Some p \<in> set ((testcase_cache s)[unat tid := None])" for p
    using that dc(2,3) D(9) by (cases "p = q") auto
  show "cache_ok (evict tid s)"
    unfolding cache_ok_def F(2,3,5,6,9) sz cnt
    by (intro conjI allI impI) (use D fM lo hi dc(1) buf own in \<open>simp_all add: F(1)\<close>)
qed
text \<open>A victim is a used slot of another entry than the current one.\<close>

definition victim_ok :: "'a afl_cache_scheme \<Rightarrow> cache_error + u32 \<times> 'a afl_cache_scheme \<Rightarrow> bool" where
  "victim_ok s r \<longleftrightarrow>
     (case r of
        Inl e \<Rightarrow> \<not> (2 \<le> length (testcase_cache s) \<and> unat (max_cache_count s) \<le> length (testcase_cache s))
      | Inr (tid, t) \<Rightarrow> (\<exists>g. t = s\<lparr>cache_rng := g\<rparr>) \<and> unat tid < length (testcase_cache s) \<and>
          testcase_cache s ! unat tid \<noteq> None \<and> testcase_cache s ! unat tid \<noteq> queue_cur s)"

lemma rand_below_range:
  assumes "rand_below urandom limit st = Some (v, st')"
  shows "unat v < unat limit \<or> v = 0"
proof (cases "1 < limit")
  case True
  then show ?thesis using rand_below_less [OF True assms] by (simp add: word_less_nat_alt)
next
  case False
  then show ?thesis using assms by (simp add: rand_below_def not_less)
qed

lemma pick_victim_ok:
  assumes "pick_victim urandom s = Some r"
  shows "victim_ok s r"
proof (rule pick_victim.raw_induct [where P = "\<lambda>urandom s r. victim_ok s r", OF _ assms])
  fix pick :: "urandom \<Rightarrow> 'a afl_cache_scheme \<Rightarrow> (cache_error + u32 \<times> 'a afl_cache_scheme) option"
  fix urandom and s :: "'a afl_cache_scheme" and r
  assume IH: "\<And>urandom s r. pick urandom s = Some r \<Longrightarrow> victim_ok s r"
    and eq: "Option.bind (rand_below urandom (max_cache_count s) (cache_rng s)) (\<lambda>(tid, g).
       let afl = s\<lparr>cache_rng := g\<rparr> in
       if unat tid \<ge> length (testcase_cache afl) then Some (Inl Out_of_bounds)
       else if testcase_cache afl ! unat tid = None \<or> testcase_cache afl ! unat tid = queue_cur afl
            then pick urandom afl else Some (Inr (tid, afl))) = Some r"
  obtain tid g where d: "rand_below urandom (max_cache_count s) (cache_rng s) = Some (tid, g)"
    using eq by (cases "rand_below urandom (max_cache_count s) (cache_rng s)") auto
  have range: "unat tid < unat (max_cache_count s) \<or> tid = 0" by (rule rand_below_range [OF d])
  consider (1) "unat tid \<ge> length (testcase_cache s)" "r = Inl Out_of_bounds"
    | (2) "unat tid < length (testcase_cache s)" "pick urandom (s\<lparr>cache_rng := g\<rparr>) = Some r"
    | (3) "unat tid < length (testcase_cache s)" "r = Inr (tid, s\<lparr>cache_rng := g\<rparr>)"
      "testcase_cache s ! unat tid \<noteq> None" "testcase_cache s ! unat tid \<noteq> queue_cur s"
  proof (cases "length (testcase_cache s) \<le> unat tid")
    case True
    then have "r = Inl Out_of_bounds" using eq d by (simp add: Let_def)
    then show ?thesis using True by (intro 1)
  next
    case False
    then show ?thesis
    proof (cases "testcase_cache s ! unat tid = None \<or> testcase_cache s ! unat tid = queue_cur s")
      case True
      then have "pick urandom (s\<lparr>cache_rng := g\<rparr>) = Some r" using False eq d by (simp add: Let_def)
      then show ?thesis using False by (intro 2) simp_all
    next
      case more: False
      then obtain y where y: "testcase_cache s ! unat tid = Some y" "queue_cur s \<noteq> Some y" by auto
      then have "r = Inr (tid, s\<lparr>cache_rng := g\<rparr>)" using False eq d by (auto simp: Let_def)
      then show ?thesis using False more by (intro 3) simp_all
    qed
  qed
  then show "victim_ok s r"
  proof cases
    case 1
    then show ?thesis using range by (auto simp: victim_ok_def)
  next
    case 2
    have "victim_ok (s\<lparr>cache_rng := g\<rparr>) r" by (rule IH [OF 2(2)])
    then show ?thesis by (auto simp: victim_ok_def split: sum.splits)
  next
    case 3
    then show ?thesis by (auto simp: victim_ok_def)
  qed
qed

lemma rng_ok: "cache_ok (s\<lparr>cache_rng := g\<rparr>) \<longleftrightarrow> cache_ok s" "room_frame s (s\<lparr>cache_rng := g\<rparr>)"
proof -
  have "slot_bytes (s\<lparr>cache_rng := g\<rparr>) = slot_bytes s" by (rule ext) (simp add: slot_bytes_def split: option.split)
  then have "held_bytes (s\<lparr>cache_rng := g\<rparr>) = held_bytes s" by (simp add: held_bytes_def)
  then show "cache_ok (s\<lparr>cache_rng := g\<rparr>) \<longleftrightarrow> cache_ok s" by (simp add: cache_ok_def)
  show "room_frame s (s\<lparr>cache_rng := g\<rparr>)" by (simp add: room_frame_def)
qed

text \<open>Room has been made: the slot to use is the one asked for, or one that was cleared.\<close>

definition room_ok :: "u32 \<Rightarrow> u32 \<Rightarrow> 'a afl_cache_scheme \<Rightarrow> cache_error + u32 \<times> 'a afl_cache_scheme \<Rightarrow> bool" where
  "room_ok len tid s r \<longleftrightarrow>
     (\<exists>tid' t. r = Inr (tid', t) \<and> cache_ok t \<and> room_frame s t \<and> \<not> cache_full len t \<and>
        max_cache_count t = max_cache_count s \<and>
        (tid' = tid \<and> t = s \<or> unat tid' < unat (max_cache_count t) \<and> testcase_cache t ! unat tid' = None))"

lemma evict_step_ok:
  assumes ok: "cache_ok s" and full: "cache_full len s" and r: "pick_victim urandom (learn_max_entries len s) = Some r"
  obtains tid t where "r = Inr (tid, t)" "cache_ok (evict tid t)" "room_frame s (evict tid t)"
    "testcase_cache (evict tid t) ! unat tid = None" "unat tid < unat (max_cache_count (evict tid t))"
    "max_cache_count (evict tid t) = max_cache_count s"
proof -
  let ?l = "learn_max_entries len s"
  have l: "cache_ok ?l" "room_frame s ?l" "max_cache_count ?l = max_cache_count s" using learn_ok [OF ok full] by simp_all
  have "victim_ok ?l r" by (rule pick_victim_ok [OF r])
  moreover have "2 \<le> length (testcase_cache ?l)" "unat (max_cache_count ?l) \<le> length (testcase_cache ?l)"
    using cache_okD(1-3) [OF l(1)] by linarith+
  ultimately obtain tid t g where v: "r = Inr (tid, t)" "t = ?l\<lparr>cache_rng := g\<rparr>" "unat tid < length (testcase_cache ?l)"
      "testcase_cache ?l ! unat tid \<noteq> None" "testcase_cache ?l ! unat tid \<noteq> queue_cur ?l"
    by (auto simp: victim_ok_def split: sum.splits)
  have t: "cache_ok t" "room_frame s t" using rng_ok l(1) room_frame_trans [OF l(2) rng_ok(2)] unfolding v(2) by blast+
  obtain q where q: "testcase_cache t ! unat tid = Some q" using v(2,4) by auto
  have tl: "unat tid < length (testcase_cache t)" "queue_cur t \<noteq> Some q" using v q by auto
  note e = evict_ok [OF t(1) tl(1) q tl(2)]
  have "max_cache_count (evict tid t) = max_cache_count s" using evict_fields(5) [OF q] v(2) l(3) by simp
  then show ?thesis using that v(1) e room_frame_trans [OF t(2) e(2)] by blast
qed

lemma make_room_ok:
  assumes "make_room urandom len tid s = Some r" and "cache_ok s"
  shows "room_ok len tid s r"
proof -
  have "cache_ok s \<longrightarrow> room_ok len tid s r"
  proof (rule make_room.raw_induct [where P = "\<lambda>urandom len tid s r. cache_ok s \<longrightarrow> room_ok len tid s r", OF _ assms(1)])
    fix room :: "urandom \<Rightarrow> u32 \<Rightarrow> u32 \<Rightarrow> 'a afl_cache_scheme \<Rightarrow> (cache_error + u32 \<times> 'a afl_cache_scheme) option"
    fix urandom len tid and s :: "'a afl_cache_scheme" and r
    assume IH: "\<And>urandom len tid s r. room urandom len tid s = Some r \<Longrightarrow> cache_ok s \<longrightarrow> room_ok len tid s r"
      and eq: "(if cache_full len s then
        Option.bind (pick_victim urandom (learn_max_entries len s)) (\<lambda>r.
          case r of Inl e \<Rightarrow> Some (Inl e)
          | Inr (tid, afl) \<Rightarrow> room urandom len tid (evict tid afl))
        else Some (Inr (tid, s))) = Some r"
    show "cache_ok s \<longrightarrow> room_ok len tid s r"
    proof
      assume ok: "cache_ok s"
      show "room_ok len tid s r"
      proof (cases "cache_full len s")
        case False
        then show ?thesis using eq ok by (auto simp: room_ok_def room_frame_refl)
      next
        case True
        then obtain p where p: "pick_victim urandom (learn_max_entries len s) = Some p"
          using eq by (cases "pick_victim urandom (learn_max_entries len s)") auto
        from evict_step_ok [OF ok True p] obtain v t where v: "p = Inr (v, t)" "cache_ok (evict v t)" "room_frame s (evict v t)"
          "testcase_cache (evict v t) ! unat v = None" "unat v < unat (max_cache_count (evict v t))"
          "max_cache_count (evict v t) = max_cache_count s" by blast
        have "room urandom len v (evict v t) = Some r" using eq True p v(1) by simp
        then have "room_ok len v (evict v t) r" using IH v(2) by blast
        then obtain tid' u where u: "r = Inr (tid', u)" "cache_ok u" "room_frame (evict v t) u" "\<not> cache_full len u"
          "max_cache_count u = max_cache_count (evict v t)"
          "tid' = v \<and> u = evict v t \<or> unat tid' < unat (max_cache_count u) \<and> testcase_cache u ! unat tid' = None"
          by (auto simp: room_ok_def)
        have nn: "unat tid' < unat (max_cache_count u) \<and> testcase_cache u ! unat tid' = None"
          using u(6) v(4,5) by auto
        show ?thesis unfolding room_ok_def
          using u v(6) nn room_frame_trans [OF v(3) u(3)] by auto
      qed
    qed
  qed
  then show ?thesis using assms(2) by blast
qed
section \<open>Loading and storing keep the books\<close>

lemma null_slot_spec:
  "null_slot i xs = Some k \<Longrightarrow> i \<le> k \<and> k < i + length xs \<and> xs ! (k - i) = None \<and> (\<forall>j < k - i. xs ! j \<noteq> None)"
  "null_slot i xs = None \<Longrightarrow> \<forall>j < length xs. xs ! j \<noteq> None"
proof (induction i xs rule: null_slot.induct)
  case (2 i x xs)
  {
    case 1
    show ?case
    proof (cases "x = None")
      case False
      then have k: "Suc i \<le> k" "k < Suc i + length xs" "xs ! (k - Suc i) = None" "\<forall>j < k - Suc i. xs ! j \<noteq> None"
        using 1 2 by auto
      then obtain d where "k = Suc i + d" using le_Suc_ex by blast
      then show ?thesis using k False by (auto simp: nth_Cons split: nat.split)
    qed (use 1 in simp)
  next
    case 2
    then show ?case using "2.IH"(2) by (auto simp: nth_Cons split: nat.split if_splits)
  }
qed simp_all

lemma occupied_prefix: "k \<le> length xs \<Longrightarrow> \<forall>j < k. xs ! j \<noteq> None \<Longrightarrow> k \<le> occupied xs"
proof -
  assume a: "k \<le> length xs" "\<forall>j < k. xs ! j \<noteq> None"
  have "filter (\<lambda>x. x \<noteq> None) (take k xs) = take k xs" using a by (auto simp: in_set_conv_nth intro!: filter_True)
  then have "occupied (take k xs) = k" using a(1) by (simp add: occupied_eq)
  moreover have "occupied xs = occupied (take k xs) + occupied (drop k xs)"
    unfolding occupied_def by (metis append_take_drop_id map_append sum_list_append)
  ultimately show ?thesis by simp
qed

text \<open>The search for a slot ends inside the array, below the limit and not past the high-water mark.\<close>

lemma slot_found:
  assumes ok: "cache_ok s" and room: "cache_count s < max_cache_entries s - 1"
    and tid: "tid = max_cache_count s \<or> unat tid < unat (max_cache_count s) \<and> testcase_cache s ! unat tid = None"
  obtains i where
    "null_slot (unat (if tid \<ge> max_cache_entries s then smallest_free s else tid))
       (drop (unat (if tid \<ge> max_cache_entries s then smallest_free s else tid)) (testcase_cache s)) = Some i"
    "i < unat (max_cache_entries s)" "i \<le> unat (max_cache_count s)" "testcase_cache s ! i = None"
proof -
  note D = cache_okD [OF ok]
  let ?F = "unat (smallest_free s)" and ?M = "unat (max_cache_count s)" and ?E = "unat (max_cache_entries s)"
  have "max_cache_entries s \<noteq> 0" using D(1) by auto
  then have C: "occupied (testcase_cache s) < ?E - 1"
    using room D(6) unat_pred [of "max_cache_entries s"] by (simp add: word_less_nat_alt)
  have here: "null_slot j (drop j (testcase_cache s)) = Some j" if "j < length (testcase_cache s)" "testcase_cache s ! j = None" for j
    using that Cons_nth_drop_Suc [OF that(1)] by (metis null_slot.simps(2))
  consider "unat tid \<ge> ?E" | "unat tid < ?E" by linarith
  then show ?thesis
  proof cases
    case 1
    have e: "tid \<ge> max_cache_entries s" using 1 by (simp add: word_le_nat_alt)
    have t: "tid = max_cache_count s" using tid 1 D(3) by auto
    have ME: "?M = ?E" using t 1 D(3) by simp
    show ?thesis
    proof (cases "null_slot ?F (drop ?F (testcase_cache s))")
      case None
      have "\<forall>j < length (testcase_cache s). testcase_cache s ! j \<noteq> None"
      proof (intro allI impI)
        fix j assume j: "j < length (testcase_cache s)"
        show "testcase_cache s ! j \<noteq> None"
        proof (cases "j < ?F")
          case False
          then have "j - ?F < length (drop ?F (testcase_cache s))" using j by simp
          then have "drop ?F (testcase_cache s) ! (j - ?F) \<noteq> None" using null_slot_spec(2) [OF None] by blast
          then show ?thesis using False j by simp
        qed (use D(8) in blast)
      qed
      then have "length (testcase_cache s) \<le> occupied (testcase_cache s)" using occupied_prefix by blast
      then show ?thesis using C D(2) by linarith
    next
      case (Some i)
      note n = null_slot_spec(1) [OF Some]
      have i: "i < length (testcase_cache s)" using n by auto
      have "?F \<le> length (testcase_cache s)" "?F \<le> i" using D(2-4) n by linarith+
      then have "drop ?F (testcase_cache s) ! (i - ?F) = testcase_cache s ! i" by (simp add: nth_drop)
      then have iN: "testcase_cache s ! i = None" using n by simp
      have occ: "\<forall>j < i. testcase_cache s ! j \<noteq> None"
      proof (intro allI impI)
        fix j assume j: "j < i"
        show "testcase_cache s ! j \<noteq> None"
        proof (cases "j < ?F")
          case False
          then have "j - ?F < i - ?F" using j by linarith
          then have "drop ?F (testcase_cache s) ! (j - ?F) \<noteq> None" using n by blast
          then show ?thesis using False j i by simp
        qed (use D(8) in blast)
      qed
      have "i \<le> occupied (testcase_cache s)" by (rule occupied_prefix) (use i occ in simp_all)
      then have "i < ?E" "i \<le> ?M" using C ME by linarith+
      then show ?thesis using that [of i] Some e iN by simp
    qed
  next
    case 2
    then have ne: "\<not> tid \<ge> max_cache_entries s" by (simp add: word_le_nat_alt)
    have l: "unat tid < length (testcase_cache s)" using 2 D(2) by simp
    have N: "testcase_cache s ! unat tid = None" using tid D(5) [OF l] by auto
    have "unat tid \<le> ?M" using tid by auto
    then show ?thesis using that [of "unat tid"] here [OF l N] ne 2 N by simp
  qed
qed

lemma register_fields:
  assumes "q < length (queue_buf s)"
  shows "testcase_cache (register_testcase tid q mem s) = (testcase_cache s)[unat tid := Some q]"
    "cache_size (register_testcase tid q mem s) = cache_size s + ucast (q_len (entry s q))"
    "cache_count (register_testcase tid q mem s) = cache_count s + 1"
    "max_cache_count (register_testcase tid q mem s) = (if tid \<ge> max_cache_count s then tid + 1 else max_cache_count s)"
    "smallest_free (register_testcase tid q mem s) =
       (if \<not> tid \<ge> max_cache_count s \<and> tid = smallest_free s then tid + 1 else smallest_free s)"
    "max_cache_entries (register_testcase tid q mem s) = max_cache_entries s"
    "max_cache_size (register_testcase tid q mem s) = max_cache_size s"
    "queue_cur (register_testcase tid q mem s) = queue_cur s"
    "length (queue_buf (register_testcase tid q mem s)) = length (queue_buf s)"
    "entry (register_testcase tid q mem s) p = (if p = q then (entry s q)\<lparr>testcase_buf := Some mem\<rparr> else entry s p)"
  using assms by (auto simp: register_testcase_def Let_def)

lemma distinct_set_slot:
  assumes "distinct (filter (\<lambda>x. x \<noteq> None) xs)" and "i < length xs" and "xs ! i = None" and "Some q \<notin> set xs"
  shows "distinct (filter (\<lambda>x. x \<noteq> None) (xs[i := Some q]))" "set (xs[i := Some q]) - {None} = insert (Some q) (set xs) - {None}"
proof -
  have x: "xs = take i xs @ None # drop (Suc i) xs" using assms(2,3) id_take_nth_drop by metis
  have u: "xs[i := Some q] = take i xs @ Some q # drop (Suc i) xs" using assms(2) by (simp add: upd_conv_take_nth_drop)
  have d: "distinct (filter (\<lambda>x. x \<noteq> None) (take i xs) @ filter (\<lambda>x. x \<noteq> None) (drop (Suc i) xs))"
    using assms(1) by (subst (asm) x) simp
  have s: "set xs = set (take i xs) \<union> {None} \<union> set (drop (Suc i) xs)" by (subst x) (simp add: Un_insert_left)
  then have "Some q \<notin> set (take i xs)" "Some q \<notin> set (drop (Suc i) xs)" using assms(4) by simp_all
  then show "distinct (filter (\<lambda>x. x \<noteq> None) (xs[i := Some q]))" using d unfolding u by simp
  show "set (xs[i := Some q]) - {None} = insert (Some q) (set xs) - {None}" unfolding u s by auto
qed

lemma register_ok:
  assumes ok: "cache_ok s" and q: "q < length (queue_buf s)" "testcase_buf (entry s q) = None"
    and i: "i < unat (max_cache_entries s)" "i \<le> unat (max_cache_count s)" "testcase_cache s ! i = None"
  shows "cache_ok (register_testcase (of_nat i) q mem s)"
proof -
  note D = cache_okD [OF ok]
  let ?t = "register_testcase (of_nat i) q mem s"
  have iw: "unat (of_nat i :: u32) = i" using i(1) D(12) by (simp add: unat_of_nat take_bit_nat_eq_self)
  have il: "i < length (testcase_cache s)" using i(1) D(2) by simp
  note R = register_fields [OF q(1), of "of_nat i" mem]
  have nq: "Some q \<notin> set (testcase_cache s)" using D(10) [OF q(1)] q(2) by simp
  note ds = distinct_set_slot [OF D(11) il i(3) nq]
  have tc: "testcase_cache ?t = (testcase_cache s)[i := Some q]" using R(1) iw by simp
  have oc: "occupied (testcase_cache ?t) = Suc (occupied (testcase_cache s))" unfolding tc by (rule occupied_set_slot(2) [OF il i(3)])
  have ln: "q_len (entry ?t p) = q_len (entry s p)" for p unfolding R(10) by simp
  have sb: "slot_bytes ?t = slot_bytes s" by (rule ext) (simp only: slot_bytes_def ln)
  have hb: "held_bytes ?t = held_bytes s + unat (q_len (entry s q))"
    using sum_list_set_slot [OF il, of "slot_bytes s" "Some q"] i(3) unfolding held_bytes_def tc sb by simp
  have iSuc: "unat (of_nat i + 1 :: u32) = Suc i" using unat_Suc_word [of "of_nat i :: u32"] iw i(1) D(12) by simp
  have cn: "unat (cache_count s + 1) = Suc (unat (cache_count s))"
    using unat_Suc_word [of "cache_count s"] D(3,6,12,13) by simp
  have ge: "of_nat i \<ge> max_cache_count s \<longleftrightarrow> unat (max_cache_count s) = i" using iw i(2) by (auto simp: word_le_nat_alt)
  have M: "unat (max_cache_count ?t) = (if unat (max_cache_count s) = i then Suc i else unat (max_cache_count s))"
    unfolding R(4) ge using iSuc by simp
  have Fe: "of_nat i = smallest_free s \<longleftrightarrow> unat (smallest_free s) = i" using iw by (metis word_unat_eq_iff)
  have F: "unat (smallest_free ?t) = (if unat (max_cache_count s) \<noteq> i \<and> unat (smallest_free s) = i then Suc i else unat (smallest_free s))"
    unfolding R(5) ge Fe using iSuc by simp
  have fits: "held_bytes ?t < 2 ^ 64"
  proof -
    have "occupied (testcase_cache ?t) \<le> 2 ^ 32 - 1" unfolding oc using D(3,12,13) by linarith
    then have "occupied (testcase_cache ?t) * (2 ^ 32 - 1) \<le> (2 ^ 32 - 1) * (2 ^ 32 - 1 :: nat)" by (rule mult_le_mono1)
    then show ?thesis using held_le [of ?t] by simp
  qed
  have sz: "unat (cache_size ?t) = held_bytes ?t"
    unfolding R(2) using fits hb D(7) by (simp add: unat_word_ariths unat_ucast_u32)
  have hi: "testcase_cache ?t ! j = None" if "j < length (testcase_cache s)" "unat (max_cache_count ?t) \<le> j" for j
    using that D(5) [OF that(1)] i(2) unfolding tc M by (auto split: if_splits)
  have lo: "testcase_cache ?t ! j \<noteq> None" if "j < unat (smallest_free ?t)" for j
    using that D(8) [of j] il unfolding tc F by (auto simp: nth_list_update less_Suc_eq split: if_splits)
  have st: "Some p \<in> set (testcase_cache ?t) \<longleftrightarrow> p = q \<or> Some p \<in> set (testcase_cache s)" for p
  proof -
    have "Some p \<in> set (testcase_cache ?t) - {None} \<longleftrightarrow> Some p \<in> insert (Some q) (set (testcase_cache s)) - {None}"
      unfolding tc ds(2) ..
    then show ?thesis by simp
  qed
  have own: "p < length (queue_buf s)" if "Some p \<in> set (testcase_cache ?t)" for p
    using that q(1) D(9) unfolding st by blast
  have buf: "testcase_buf (entry ?t p) \<noteq> None \<longleftrightarrow> Some p \<in> set (testcase_cache ?t)" if "p < length (queue_buf s)" for p
    unfolding st R(10) using D(10) [OF that] by simp
  have len: "length (testcase_cache ?t) = length (testcase_cache s)" unfolding tc by simp
  have dst: "distinct (filter (\<lambda>x. x \<noteq> None) (testcase_cache ?t))" unfolding tc by (rule ds(1))
  have ME: "unat (max_cache_count ?t) \<le> unat (max_cache_entries s)" unfolding M using i(1) D(3) by simp
  have FM: "unat (smallest_free ?t) \<le> unat (max_cache_count ?t)" unfolding M F using i(2) D(4) by auto
  have cc: "unat (cache_count ?t) = occupied (testcase_cache ?t)" unfolding R(3) cn oc D(6) ..
  show ?thesis
    unfolding cache_ok_def R(6,9) len
    using dst cc sz ME FM hi lo own buf D(1,2,12) by blast
qed
section \<open>The cache is transparent\<close>

text \<open>What is cached is what the file holds.\<close>

definition cache_true :: "corpus \<Rightarrow> 'a afl_cache_scheme \<Rightarrow> bool" where
  "cache_true files s \<longleftrightarrow>
     (\<forall>q < length (queue_buf s). \<forall>buf. testcase_buf (entry s q) = Some buf \<longrightarrow>
        read_testcase files q (q_len (entry s q)) = Some buf)"

text \<open>The cache stays within its size unless it holds no more than two entries.\<close>

definition cache_bounded :: "'a afl_cache_scheme \<Rightarrow> bool" where
  "cache_bounded s \<longleftrightarrow> cache_size s < max_cache_size s \<or> cache_count s \<le> 2"

lemma room_true: "room_frame s t \<Longrightarrow> cache_true files s \<Longrightarrow> cache_true files t"
  unfolding cache_true_def using room_frameD(1,3,5) by (metis option.distinct(1))

lemma register_true:
  assumes "cache_true files s" and "q < length (queue_buf s)" and "read_testcase files q (q_len (entry s q)) = Some buf"
  shows "cache_true files (register_testcase tid q buf s)"
  using assms register_fields(9,10) [OF assms(2)] by (simp add: cache_true_def)

lemma not_full_bounded:
  assumes ok: "cache_ok s" and nf: "\<not> cache_full (q_len (entry s q)) s" and q: "q < length (queue_buf s)"
  shows "cache_bounded (register_testcase tid q mem s)"
proof -
  note R = register_fields [OF q, of tid mem]
  have "unat (cache_count s) \<le> unat (max_cache_entries s)" using cache_okD(3,6,13) [OF ok] by linarith
  then have cc: "unat (cache_count s) < 2 ^ 32 - 1" using cache_okD(12) [OF ok] by linarith
  show ?thesis
  proof (cases "cache_over_size (q_len (entry s q)) s")
    case False
    then show ?thesis unfolding cache_bounded_def R(2,7) by (simp add: cache_over_size_def not_le)
  next
    case True
    then have "cache_count s \<le> 1" using nf by (simp add: cache_full_def not_less)
    then have "unat (cache_count s + 1) \<le> 2" using cc by (simp add: unat_Suc_word word_le_nat_alt)
    then show ?thesis unfolding cache_bounded_def R(3) by (simp add: word_le_nat_alt)
  qed
qed

lemma queue_testcase_get_keeps:
  assumes "cache_ok s" and "cache_true files s" and "q < length (queue_buf s)"
    and "queue_testcase_get urandom files q s = Some r"
  shows "case r of
      Inl e \<Rightarrow> e = Read_failed \<and> read_testcase files q (q_len (entry s q)) = None
    | Inr (buf, t) \<Rightarrow> read_testcase files q (q_len (entry s q)) = Some buf \<and>
        cache_ok t \<and> cache_true files t \<and> (t = s \<or> cache_bounded t) \<and>
        length (queue_buf t) = length (queue_buf s) \<and> (\<forall>p. q_len (entry t p) = q_len (entry s p)) \<and>
        (\<forall>c. queue_cur s = Some c \<longrightarrow> testcase_buf (entry s c) \<noteq> None \<longrightarrow> testcase_buf (entry t c) = testcase_buf (entry s c))"
proof -
  let ?file = "read_testcase files q (q_len (entry s q))"
  consider buf where "testcase_buf (entry s q) = Some buf" "r = Inr (buf, s)"
    | "r = (case ?file of None \<Rightarrow> Inl Read_failed | Some buf \<Rightarrow> Inr (buf, s))"
    | "testcase_buf (entry s q) = None" "\<exists>m. make_room urandom (q_len (entry s q)) (max_cache_count s) s = Some m \<and>
        (case m of Inl e \<Rightarrow> Some (Inl e)
         | Inr (tid, afl) \<Rightarrow>
            let tid = (if tid \<ge> max_cache_entries afl then smallest_free afl else tid)
            in (case null_slot (unat tid) (drop (unat tid) (testcase_cache afl)) of
                  None \<Rightarrow> Some (Inl Out_of_bounds)
                | Some i \<Rightarrow> (case ?file of None \<Rightarrow> Some (Inl Read_failed)
                     | Some buf \<Rightarrow> Some (Inr (buf, register_testcase (of_nat i) q buf afl))))) = Some r"
    using assms(4) unfolding queue_testcase_get_def Let_def
    by (cases "testcase_buf (entry s q)"; cases "weight (entry s q) < 1 \<or> max_cache_size s = 0";
        cases "make_room urandom (q_len (entry s q)) (max_cache_count s) s") simp_all
  then show ?thesis
  proof cases
    case 1
    then show ?thesis using assms(1-3) by (simp add: cache_true_def)
  next
    case 2
    then show ?thesis using assms(1,2) by (simp split: option.split)
  next
    case 3
    then obtain m where m: "make_room urandom (q_len (entry s q)) (max_cache_count s) s = Some m" by blast
    from make_room_ok [OF m assms(1)] obtain tid t where t: "m = Inr (tid, t)" "cache_ok t" "room_frame s t"
      "\<not> cache_full (q_len (entry s q)) t" "max_cache_count t = max_cache_count s"
      "tid = max_cache_count t \<or> unat tid < unat (max_cache_count t) \<and> testcase_cache t ! unat tid = None"
      by (auto simp: room_ok_def)
    have room: "cache_count t < max_cache_entries t - 1" using t(4) by (simp add: cache_full_def not_le)
    from slot_found [OF t(2) room t(6)] obtain i where i:
      "null_slot (unat (if tid \<ge> max_cache_entries t then smallest_free t else tid))
         (drop (unat (if tid \<ge> max_cache_entries t then smallest_free t else tid)) (testcase_cache t)) = Some i"
      "i < unat (max_cache_entries t)" "i \<le> unat (max_cache_count t)" "testcase_cache t ! i = None" by blast
    have r: "r = (case ?file of None \<Rightarrow> Inl Read_failed | Some buf \<Rightarrow> Inr (buf, register_testcase (of_nat i) q buf t))"
      using 3(2) m t(1) i(1) by (auto simp: Let_def split: option.splits)
    note f = room_frameD [OF t(3)]
    have q: "q < length (queue_buf t)" "testcase_buf (entry t q) = None" "q_len (entry t q) = q_len (entry s q)"
      using assms(3) 3(1) f(1,5) f(3) [of q] by auto
    have cur: "testcase_buf (entry (register_testcase (of_nat i) q buf t) c) = testcase_buf (entry s c)"
      if "queue_cur s = Some c" "testcase_buf (entry s c) \<noteq> None" for c buf
    proof -
      have "c \<noteq> q" using that 3(1) by auto
      then show ?thesis using f(4) [OF that(1)] by (simp add: register_fields(10) [OF q(1)])
    qed
    show ?thesis
    proof (cases ?file)
      case None
      then show ?thesis by (simp add: r)
    next
      case (Some buf)
      have "cache_ok (register_testcase (of_nat i) q buf t)" by (rule register_ok [OF t(2) q(1,2) i(2-4)])
      moreover have "cache_true files (register_testcase (of_nat i) q buf t)"
        by (rule register_true [OF room_true [OF t(3) assms(2)] q(1)]) (simp add: Some q(3))
      moreover have "cache_bounded (register_testcase (of_nat i) q buf t)"
        by (rule not_full_bounded [OF t(2) _ q(1)]) (use t(4) q(3) in simp)
      moreover have "length (queue_buf (register_testcase (of_nat i) q buf t)) = length (queue_buf s)"
        by (simp only: register_fields(9) [OF q(1)] f(5))
      moreover have "q_len (entry (register_testcase (of_nat i) q buf t) p) = q_len (entry s p)" for p
        using f(1) [of p] f(1) [of q] by (simp add: register_fields(10) [OF q(1)])
      ultimately show ?thesis using Some cur by (simp add: r)
    qed
  qed
qed

text \<open>
  C19 Loading through the cache is loading the file: whatever is evicted, a call that returns gives
  the bytes of the entry's file, or fails only when the file cannot be read; it never reaches past
  the array of the cache, keeps its books (slots, counts, sizes, lowest free slot, high-water mark),
  what is cached afterwards is still what the files hold, the cache is within its size unless it is
  down to two entries, and the buffer of the entry being fuzzed is not evicted.
\<close>

theorem queue_testcase_get_transparent:
  assumes "cache_ok s" and "cache_true files s" and "q < length (queue_buf s)"
    and "queue_testcase_get urandom files q s = Some r"
  shows "case r of
      Inl e \<Rightarrow> e = Read_failed \<and> read_testcase files q (q_len (entry s q)) = None
    | Inr (buf, t) \<Rightarrow> read_testcase files q (q_len (entry s q)) = Some buf \<and>
        cache_ok t \<and> cache_true files t \<and> (t = s \<or> cache_bounded t) \<and>
        (\<forall>c. queue_cur s = Some c \<longrightarrow> testcase_buf (entry s c) \<noteq> None \<longrightarrow> testcase_buf (entry t c) = testcase_buf (entry s c))"
  using queue_testcase_get_keeps [OF assms] by (auto split: sum.splits)

text \<open>
  Storing a new testcase keeps the cache right as well: it never fails, and it either leaves the
  cache alone or adds the entry, within the size and the number of entries configured.
\<close>

theorem queue_testcase_store_mem_keeps:
  assumes "cache_ok s" and "cache_true files s" and "q < length (queue_buf s)" and "testcase_buf (entry s q) = None"
    and "read_testcase files q (q_len (entry s q)) = Some (take (unat (q_len (entry s q))) mem)"
  shows "\<exists>t. queue_testcase_store_mem q mem s = Inr t \<and> cache_ok t \<and> cache_true files t \<and>
    (t = s \<or> testcase_buf (entry t q) = Some (take (unat (q_len (entry s q))) mem) \<and>
       cache_size t < max_cache_size t \<and> cache_count t < max_cache_entries t)"
proof (cases "weight (entry s q) < 1 \<or> cache_over_size (q_len (entry s q)) s \<or> cache_count s \<ge> max_cache_entries s - 1")
  case True
  then have "queue_testcase_store_mem q mem s = Inr s" by (simp add: queue_testcase_store_mem_def)
  then show ?thesis using assms(1,2) by blast
next
  case False
  then have room: "cache_count s < max_cache_entries s - 1" by (simp add: not_le)
  let ?tid = "if max_cache_count s \<ge> max_cache_entries s then smallest_free s else max_cache_count s"
  from slot_found [OF assms(1) room, of "max_cache_count s"] obtain i where i:
    "null_slot (unat ?tid) (drop (unat ?tid) (testcase_cache s)) = Some i"
    "i < unat (max_cache_entries s)" "i \<le> unat (max_cache_count s)" "testcase_cache s ! i = None" by blast
  let ?buf = "take (unat (q_len (entry s q))) mem"
  let ?t = "register_testcase (of_nat i) q ?buf s"
  note R = register_fields [OF assms(3), of "of_nat i" ?buf]
  have "queue_testcase_store_mem q mem s = Inr ?t"
    using False i(1) by (simp add: queue_testcase_store_mem_def Let_def)
  moreover have "cache_ok ?t" by (rule register_ok [OF assms(1,3,4) i(2-4)])
  moreover have "cache_true files ?t" by (rule register_true [OF assms(2,3,5)])
  moreover have "cache_size ?t < max_cache_size ?t" using False by (simp add: R(2,7) cache_over_size_def not_le)
  moreover have "cache_count ?t < max_cache_entries ?t"
  proof -
    have "max_cache_entries s \<noteq> 0" using cache_okD(1) [OF assms(1)] by auto
    then have "unat (cache_count s) < unat (max_cache_entries s) - 1"
      using room unat_pred [of "max_cache_entries s"] by (simp add: word_less_nat_alt)
    then show ?thesis
      using cache_okD(12) [OF assms(1)] unat_Suc_word [of "cache_count s"] by (simp add: R(3,6) word_less_nat_alt)
  qed
  ultimately show ?thesis using R(10) [of q] by auto
qed

section \<open>The interface to the stages\<close>

text \<open>
  What a stage that mutates or splices testcases relies on: a source of testcases that, in a state
  where its invariant holds, gives the bytes of the file and keeps the invariant. A stage that loads
  several testcases, one after the other, then has the contents of all of them.
\<close>

locale testcase_source =
  fixes inv :: "'s \<Rightarrow> bool" and valid :: "qid \<Rightarrow> bool" and content :: "qid \<Rightarrow> bytes ptr"
    and load :: "qid \<Rightarrow> 's \<Rightarrow> (cache_error + bytes \<times> 's) option"
  assumes load_content: "inv s \<Longrightarrow> valid q \<Longrightarrow> load q s = Some (Inr (buf, t)) \<Longrightarrow> content q = Some buf \<and> inv t"
    and load_error: "inv s \<Longrightarrow> valid q \<Longrightarrow> load q s = Some (Inl e) \<Longrightarrow> e = Read_failed \<and> content q = None"
begin

fun load_all :: "qid list \<Rightarrow> 's \<Rightarrow> (cache_error + bytes list \<times> 's) option" where
  "load_all [] s = Some (Inr ([], s))"
| "load_all (q # qs) s =
     Option.bind (load q s) (\<lambda>r. case r of Inl e \<Rightarrow> Some (Inl e)
       | Inr (buf, s) \<Rightarrow> Option.bind (load_all qs s) (\<lambda>r. case r of Inl e \<Rightarrow> Some (Inl e)
           | Inr (bufs, s) \<Rightarrow> Some (Inr (buf # bufs, s))))"

lemma load_all_content:
  "inv s \<Longrightarrow> \<forall>q\<in>set qs. valid q \<Longrightarrow> load_all qs s = Some (Inr (bufs, t)) \<Longrightarrow>
    map content qs = map Some bufs \<and> inv t"
proof (induction qs arbitrary: s bufs)
  case (Cons q qs)
  then obtain buf u bufs' where u: "load q s = Some (Inr (buf, u))" "load_all qs u = Some (Inr (bufs', t))" "bufs = buf # bufs'"
    by (cases "load q s") (auto split: sum.splits prod.splits bind_splits)
  then show ?case using load_content [OF Cons.prems(1) _ u(1)] Cons.IH [of u bufs'] Cons.prems(2) by auto
qed simp

lemma load_all_error:
  "inv s \<Longrightarrow> \<forall>q\<in>set qs. valid q \<Longrightarrow> load_all qs s = Some (Inl e) \<Longrightarrow> e = Read_failed \<and> (\<exists>q\<in>set qs. content q = None)"
proof (induction qs arbitrary: s)
  case (Cons q qs)
  then obtain r where r: "load q s = Some r" by (cases "load q s") auto
  show ?case
  proof (cases r)
    case (Inl e')
    then show ?thesis using load_error [OF Cons.prems(1), of q e'] Cons.prems(2,3) r by auto
  next
    case (Inr p)
    then obtain buf u where p: "r = Inr (buf, u)" by (cases p) auto
    have "load_all qs u = Some (Inl e)"
      using Cons.prems(3) r p by (cases "load_all qs u") (auto split: sum.splits prod.splits)
    then show ?thesis using Cons.IH [of u] load_content [OF Cons.prems(1) _ r [unfolded p]] Cons.prems(2) by auto
  qed
qed simp

end

text \<open>The cache is such a source, for entries of given lengths.\<close>

definition cache_holds :: "corpus \<Rightarrow> u32 list \<Rightarrow> 'a afl_cache_scheme \<Rightarrow> bool" where
  "cache_holds files lens s \<longleftrightarrow> cache_ok s \<and> cache_true files s \<and> length (queue_buf s) = length lens \<and>
     (\<forall>q < length lens. q_len (entry s q) = lens ! q)"

interpretation cached: testcase_source "cache_holds files lens" "\<lambda>q. q < length lens"
    "\<lambda>q. read_testcase files q (lens ! q)" "queue_testcase_get urandom files"
  for files lens urandom
proof unfold_locales
  fix s :: "'a afl_cache_scheme" and q r
  assume h: "cache_holds files lens s" "q < length lens"
  then have s: "cache_ok s" "cache_true files s" "q < length (queue_buf s)" "q_len (entry s q) = lens ! q"
    by (simp_all add: cache_holds_def)
  note k = queue_testcase_get_keeps [OF s(1-3)]
  show "read_testcase files q (lens ! q) = Some buf \<and> cache_holds files lens t"
    if "queue_testcase_get urandom files q s = Some (Inr (buf, t))" for buf t
    using k [OF that] h s(4) by (simp add: cache_holds_def)
  show "e = Read_failed \<and> read_testcase files q (lens ! q) = None"
    if "queue_testcase_get urandom files q s = Some (Inl e)" for e
    using k [OF that] s(4) by simp
qed

text \<open>
  Loading one testcase after another through the cache gives the contents of all their files, even
  though each load may evict what the earlier ones cached.
\<close>

theorem cached_loads_content:
  assumes "cache_holds files lens s" and "\<forall>q\<in>set qs. q < length lens"
    and "testcase_source.load_all (queue_testcase_get urandom files) qs s = Some (Inr (bufs, t))"
  shows "map (\<lambda>q. read_testcase files q (lens ! q)) qs = map Some bufs \<and> cache_holds files lens t"
  using cached.load_all_content [OF assms] .

section \<open>Trimmed testcases\<close>

text \<open>
  Trimming breaks the size of the cache: when a cached entry shrinks by more than 1024 bytes the
  difference of the lengths is taken in 32 bits and then added to the 64-bit size, so instead of
  going down by the bytes saved the size goes up by 4 GiB less those bytes.
\<close>

theorem retake_mem_size_wraps:
  assumes "testcase_buf (entry s q) \<noteq> None" and "unat len + 1024 < unat old_len"
    and "unat (cache_size s) < 2 ^ 63"
  shows "unat (cache_size (queue_testcase_retake_mem False True q mem len old_len s)) =
    unat (cache_size s) + 2 ^ 32 - (unat old_len - unat len)"
proof -
  have b: "unat len < 2 ^ 32" "unat old_len < 2 ^ 32"
    using unsigned_less [of len, where 'a = nat] unsigned_less [of old_len, where 'a = nat] by simp_all
  have "unat (len + 1024) = unat len + 1024" using assms(2) b by (simp add: unat_word_ariths)
  then have sh: "len + 1024 < old_len" using assms(2) by (simp add: word_less_nat_alt)
  have d: "unat (len - old_len) = 2 ^ 32 + unat len - unat old_len"
    using assms(2) b by (simp add: unat_sub_if' word_le_nat_alt)
  have "cache_size (queue_testcase_retake_mem False True q mem len old_len s) = cache_size s + ucast (len - old_len)"
    using assms(1) sh by (auto simp: queue_testcase_retake_mem_def Let_def)
  then show ?thesis
    using d b assms(2,3) by (simp add: unat_word_ariths unat_ucast_u32)
qed

text \<open>After a smaller trim the size is not touched, although eviction will subtract the new length.\<close>

lemma retake_mem_size_kept:
  assumes "\<not> len + 1024 < old_len"
  shows "cache_size (queue_testcase_retake_mem False True q mem len old_len s) = cache_size s"
  using assms by (simp add: queue_testcase_retake_mem_def Let_def split: option.split)

section \<open>A cache of one entry\<close>

text \<open>
  With a cache of a single entry (\<open>AFL_TESTCACHE_ENTRIES=1\<close>) loading an entry never returns: the
  count is at its limit from the start, and the search for a victim goes on for ever.
\<close>

theorem one_entry_cache_hangs:
  assumes "max_cache_entries s = 1" and "\<forall>x\<in>set (testcase_cache s). x = None" and "max_cache_count s = 0"
    and "testcase_cache s \<noteq> []" and "testcase_buf (entry s q) = None" and "\<not> weight (entry s q) < 1"
    and "max_cache_size s \<noteq> 0" and "cache_count s = 0"
  shows "queue_testcase_get urandom files q s = None"
proof -
  let ?l = "learn_max_entries (q_len (entry s q)) s"
  have lc: "max_cache_count ?l = 0" "\<forall>x\<in>set (testcase_cache ?l). x = None" "testcase_cache ?l \<noteq> []"
    using assms by (auto simp: learn_max_entries_def Let_def resize_cache_def dest: in_set_takeD)
  have rb: "rand_below urandom 0 g = Some (0, g)" for g by (simp add: rand_below_def)
  have "pick_victim urandom ?l = None"
  proof (rule ccontr)
    assume "pick_victim urandom ?l \<noteq> None"
    then obtain r where r: "pick_victim urandom ?l = Some r" by blast
    have "\<not> (max_cache_count ?l = 0 \<and> (\<forall>x\<in>set (testcase_cache ?l). x = None) \<and> testcase_cache ?l \<noteq> [])"
    proof (rule pick_victim.raw_induct [where P = "\<lambda>urandom s r. \<not> (max_cache_count s = 0 \<and> (\<forall>x\<in>set (testcase_cache s). x = None) \<and> testcase_cache s \<noteq> [])", OF _ r])
      fix pick :: "urandom \<Rightarrow> 'a afl_cache_scheme \<Rightarrow> (cache_error + u32 \<times> 'a afl_cache_scheme) option"
      fix urandom and s :: "'a afl_cache_scheme" and r
      assume IH: "\<And>urandom s r. pick urandom s = Some r \<Longrightarrow> \<not> (max_cache_count s = 0 \<and> (\<forall>x\<in>set (testcase_cache s). x = None) \<and> testcase_cache s \<noteq> [])"
        and eq: "Option.bind (rand_below urandom (max_cache_count s) (cache_rng s)) (\<lambda>(tid, g).
           let afl = s\<lparr>cache_rng := g\<rparr> in
           if unat tid \<ge> length (testcase_cache afl) then Some (Inl Out_of_bounds)
           else if testcase_cache afl ! unat tid = None \<or> testcase_cache afl ! unat tid = queue_cur afl
                then pick urandom afl else Some (Inr (tid, afl))) = Some r"
      show "\<not> (max_cache_count s = 0 \<and> (\<forall>x\<in>set (testcase_cache s). x = None) \<and> testcase_cache s \<noteq> [])"
      proof
        assume a: "max_cache_count s = 0 \<and> (\<forall>x\<in>set (testcase_cache s). x = None) \<and> testcase_cache s \<noteq> []"
        have rb: "rand_below urandom 0 (cache_rng s) = Some (0, cache_rng s)" by (simp add: rand_below_def)
        have z: "testcase_cache s ! 0 = None" using a by simp
        have "pick urandom (s\<lparr>cache_rng := cache_rng s\<rparr>) = Some r"
          using eq a rb z by (simp add: Let_def)
        from IH [OF this] a show False by simp
      qed
    qed
    then show False using lc by blast
  qed
  moreover have "cache_full (q_len (entry s q)) s" using assms(1,8) by (simp add: cache_full_def)
  ultimately have "make_room urandom (q_len (entry s q)) (max_cache_count s) s = None"
    by (subst make_room.simps) simp
  then show ?thesis using assms(5-7) by (simp add: queue_testcase_get_def Let_def)
qed
section \<open>Concrete caches\<close>

definition small_cache :: "u32 \<Rightarrow> afl_cache" where
  "small_cache entries = afl_queue.extend (small_queue [])
     \<lparr>cache_rng = \<lparr>rand_seed0 = 1, rand_seed1 = 2, rand_seed2 = 3, rand_cnt = 5, fixed_seed = False, init_seed = 0, urandom_reads = 0\<rparr>,
      testcase_cache = replicate (unat entries) None, max_cache_size = 1000, max_cache_entries = entries,
      cache_size = 0, max_cache_count = 0, cache_count = 0, smallest_free = 0, cache_evictions = 0, cache_do_once = False\<rparr>"

lemma small_cache_sel [simp]:
  "queue_buf (small_cache n) = [small_entry 0 30, small_entry 1 40, small_entry 2 20]"
  "testcase_cache (small_cache n) = replicate (unat n) None" "max_cache_size (small_cache n) = 1000"
  "max_cache_entries (small_cache n) = n" "cache_size (small_cache n) = 0" "max_cache_count (small_cache n) = 0"
  "cache_count (small_cache n) = 0" "smallest_free (small_cache n) = 0"
  by (simp_all add: small_cache_def small_queue_def afl_queue.defs cov_st.defs)

lemma small_cache_entries: "q < 3 \<Longrightarrow> testcase_buf (entry (small_cache n) q) = None \<and> weight (entry (small_cache n) q) = 1"
  by (auto simp: entry_def small_entry_def nth_Cons numeral_eq_Suc split: nat.split)

lemma small_cache_ok: "2 \<le> unat n \<Longrightarrow> unat n < 2 ^ 32 - 1 \<Longrightarrow> cache_ok (small_cache n)" "cache_true files (small_cache n)"
proof -
  show "cache_ok (small_cache n)" if "2 \<le> unat n" "unat n < 2 ^ 32 - 1"
    using that small_cache_entries
    by (auto simp: cache_ok_def occupied_def held_bytes_def sum_list_replicate)
  show "cache_true files (small_cache n)"
    using small_cache_entries [of _ n] by (simp add: cache_true_def numeral_eq_Suc)
qed

definition small_files :: corpus where
  "small_files q = Some (replicate 40 7)"

lemma small_len: "q_len (entry (small_cache n) 0) = 30"
  by (simp add: entry_def small_entry_def)

lemma small_load:
  "\<exists>t. queue_testcase_get (\<lambda>n. (0, 0, 0)) small_files 0 (small_cache 4) = Some (Inr (replicate 30 7, t))"
proof -
  have nf: "\<not> cache_full 30 (small_cache 4)" by (simp add: cache_full_def cache_over_size_def)
  have rd: "read_testcase small_files 0 30 = Some (replicate 30 7)" by (simp add: read_testcase_def small_files_def)
  have "make_room (\<lambda>n. (0, 0, 0)) 30 0 (small_cache 4) = Some (Inr (0, small_cache 4))"
    by (subst make_room.simps) (simp add: nf)
  moreover have ns: "null_slot 0 (replicate 4 None) = Some 0" by (simp add: numeral_eq_Suc)
  ultimately show ?thesis
    using small_cache_entries [of 0 4] rd
    by (simp add: queue_testcase_get_def Let_def small_len ns)
qed

theorem queue_testcase_get_transparent_witness:
  "\<exists>t. queue_testcase_get (\<lambda>n. (0, 0, 0)) small_files 0 (small_cache 4) = Some (Inr (replicate 30 7, t)) \<and> cache_ok t"
proof -
  obtain t where g: "queue_testcase_get (\<lambda>n. (0, 0, 0)) small_files 0 (small_cache 4) = Some (Inr (replicate 30 7, t))"
    using small_load by blast
  have "cache_ok (small_cache 4)" by (rule small_cache_ok) simp_all
  from queue_testcase_get_transparent [OF this small_cache_ok(2) _ g] show ?thesis using g by simp
qed

theorem cached_loads_content_witness:
  "\<exists>t. testcase_source.load_all (queue_testcase_get (\<lambda>n. (0, 0, 0)) small_files) [0] (small_cache 4) =
      Some (Inr ([replicate 30 7], t)) \<and> cache_holds small_files [30, 40, 20] t"
proof -
  obtain t where g: "queue_testcase_get (\<lambda>n. (0, 0, 0)) small_files 0 (small_cache 4) = Some (Inr (replicate 30 7, t))"
    using small_load by blast
  then have l: "testcase_source.load_all (queue_testcase_get (\<lambda>n. (0, 0, 0)) small_files) [0] (small_cache 4) = Some (Inr ([replicate 30 7], t))"
    by (simp add: cached.load_all.simps)
  have "cache_ok (small_cache 4)" by (rule small_cache_ok) simp_all
  then have "cache_holds small_files [30, 40, 20] (small_cache 4)"
    by (auto simp: cache_holds_def small_cache_ok entry_def small_entry_def nth_Cons less_Suc_eq split: nat.split)
  from cached_loads_content [OF this _ l] show ?thesis using l by simp
qed

theorem queue_testcase_store_mem_keeps_witness:
  "\<exists>t. queue_testcase_store_mem 0 (replicate 30 7) (small_cache 4) = Inr t \<and> cache_ok t"
proof -
  have "cache_ok (small_cache 4)" by (rule small_cache_ok) simp_all
  moreover have "read_testcase small_files 0 (q_len (entry (small_cache 4) 0)) = Some (take (unat (q_len (entry (small_cache 4) 0))) (replicate 30 7))"
    by (simp add: read_testcase_def small_files_def small_len)
  ultimately show ?thesis
    using queue_testcase_store_mem_keeps [OF _ small_cache_ok(2), of 4 0 small_files "replicate 30 7"] small_cache_entries [of 0 4]
    by auto
qed

theorem retake_mem_size_wraps_witness:
  "unat (cache_size (queue_testcase_retake_mem False True 0 [1] 1 4000
     (set_entry 0 (\<lambda>e. e\<lparr>testcase_buf := Some (replicate 4000 0)\<rparr>) (small_cache 4)))) = 2 ^ 32 - 3999"
  using retake_mem_size_wraps [of "set_entry 0 (\<lambda>e. e\<lparr>testcase_buf := Some (replicate 4000 0)\<rparr>) (small_cache 4)" 0 1 4000 "[1]"]
  by simp

theorem one_entry_cache_hangs_witness:
  "queue_testcase_get (\<lambda>n. (0, 0, 0)) small_files 0 (small_cache 1) = None"
  using one_entry_cache_hangs [of "small_cache 1" 0] small_cache_entries [of 0 1] by simp

end
