(* ===== verification/Det_Checks.thy ===== *)
theory Det_Checks
  imports Coverage
begin

text \<open>
  The checks that keep the deterministic stages of \<open>src/src/afl-fuzz-one.c\<close> from running an input
  twice: could a value be the product of a bit flip (\<open>could_be_bitflip\<close>), of an addition or
  subtraction (\<open>could_be_arith\<close>), or of writing an interesting value (\<open>could_be_interest\<close>)?
\<close>

section \<open>Values\<close>

definition SWAP16 :: "u16 \<Rightarrow> u16" where
  "SWAP16 x = push_bit 8 x OR drop_bit 8 x"

definition SWAP32 :: "u32 \<Rightarrow> u32" where
  "SWAP32 x = push_bit 24 x OR drop_bit 24 x OR (push_bit 8 x AND 0x00FF0000) OR (drop_bit 8 x AND 0x0000FF00)"

abbreviation (input) ARITH_MAX :: nat where "ARITH_MAX \<equiv> 35"

definition interesting_8 :: "u8 list" where
  "interesting_8 = [-128, -1, 0, 1, 16, 32, 64, 100, 127]"

definition interesting_16 :: "u16 list" where
  "interesting_16 = [-128, -1, 0, 1, 16, 32, 64, 100, 127,
     -32768, -129, 128, 255, 256, 512, 1000, 1024, 4096, 32767]"

definition interesting_32 :: "u32 list" where
  "interesting_32 = [-128, -1, 0, 1, 16, 32, 64, 100, 127,
     -32768, -129, 128, 255, 256, 512, 1000, 1024, 4096, 32767,
     -2147483648, -100663046, -32769, 32768, 65535, 65536, 100663045, 2139095040, 2147483647]"

section \<open>The checks\<close>

text \<open>The loop that shifts out the zero bits; the code enters it with a non-zero value.\<close>

function shift_out :: "u32 \<Rightarrow> u32 \<Rightarrow> u32 \<times> u32" where
  "shift_out sh x = (if x = 0 \<or> x AND 1 \<noteq> 0 then (sh, x) else shift_out (sh + 1) (drop_bit 1 x))"
  by pat_completeness auto
termination
proof (relation "measure (unat \<circ> snd)")
  fix sh x :: u32 assume "\<not> (x = 0 \<or> x AND 1 \<noteq> 0)"
  then have "0 < unat x" by (simp add: unat_gt_0)
  moreover have "unat (drop_bit 1 x) = unat x div 2"
    unfolding unat_drop_bit_eq by (simp add: drop_bit_eq_div)
  ultimately have "unat (drop_bit 1 x) < unat x" by linarith
  then show "((sh + 1, drop_bit 1 x), (sh, x)) \<in> measure (unat \<circ> snd)" by simp
qed simp

declare shift_out.simps [simp del]

definition could_be_bitflip :: "u32 \<Rightarrow> bool" where
  "could_be_bitflip xor_val =
     (if xor_val = 0 then True
      else case shift_out 0 xor_val of (sh, xor_val) \<Rightarrow>
        if xor_val = 1 \<or> xor_val = 3 \<or> xor_val = 15 then True
        else if sh AND 7 \<noteq> 0 then False
        else xor_val = 0xff \<or> xor_val = 0xffff \<or> xor_val = 0xffffffff)"

text \<open>The bits of a value from bit \<open>n\<close> on, as a narrower word, and the value with them replaced.\<close>

definition get_bits :: "nat \<Rightarrow> u32 \<Rightarrow> 'l::len word" where
  "get_bits n x = ucast (drop_bit n x)"

definition put_bits :: "nat \<Rightarrow> 'l::len word \<Rightarrow> u32 \<Rightarrow> u32" where
  "put_bits n v x = (x AND NOT (push_bit n (mask LENGTH('l)))) OR push_bit n (ucast v)"

text \<open>The number of lanes that differ, and the old and the new value of the last such lane.\<close>

definition diff_lanes :: "(nat \<Rightarrow> u32 \<Rightarrow> 'l::len word) \<Rightarrow> nat \<Rightarrow> u32 \<Rightarrow> u32 \<Rightarrow> u32 \<times> u32 \<Rightarrow> u32 \<times> u32 \<times> u32" where
  "diff_lanes lane n old_val new_val start =
     fold (\<lambda>i (ndiff, ov, nv).
         let a = lane i old_val; b = lane i new_val
         in if a \<noteq> b then (ndiff + 1, ucast a, ucast b) else (ndiff, ov, nv))
       [0..<n] (0, start)"

definition could_be_arith :: "u32 \<Rightarrow> u32 \<Rightarrow> nat \<Rightarrow> bool" where
  "could_be_arith old_val new_val blen =
     (if old_val = new_val then True
      else case diff_lanes (\<lambda>i x. get_bits (8 * i) x :: u8) blen old_val new_val (0, 0) of (ndiff, ov, nv) \<Rightarrow>
        if ndiff = 1 \<and> ((ucast (ov - nv) :: u8) \<le> of_nat ARITH_MAX \<or> (ucast (nv - ov) :: u8) \<le> of_nat ARITH_MAX)
        then True
        else if blen = 1 then False
        else case diff_lanes (\<lambda>i x. get_bits (16 * i) x :: u16) (blen div 2) old_val new_val (ov, nv) of (ndiff, ov, nv) \<Rightarrow>
          if ndiff = 1 \<and> ((ucast (ov - nv) :: u16) \<le> of_nat ARITH_MAX \<or> (ucast (nv - ov) :: u16) \<le> of_nat ARITH_MAX)
          then True
          else
            let ov' = ucast (SWAP16 (ucast ov)) :: u32; nv' = ucast (SWAP16 (ucast nv)) :: u32
            in if ndiff = 1 \<and> ((ucast (ov' - nv') :: u16) \<le> of_nat ARITH_MAX \<or> (ucast (nv' - ov') :: u16) \<le> of_nat ARITH_MAX)
               then True
               else if blen = 4 then
                 if old_val - new_val \<le> of_nat ARITH_MAX \<or> new_val - old_val \<le> of_nat ARITH_MAX then True
                 else
                   let new_val = SWAP32 new_val; old_val = SWAP32 old_val
                   in old_val - new_val \<le> of_nat ARITH_MAX \<or> new_val - old_val \<le> of_nat ARITH_MAX
               else False)"

definition could_be_interest :: "u32 \<Rightarrow> u32 \<Rightarrow> nat \<Rightarrow> bool \<Rightarrow> bool" where
  "could_be_interest old_val new_val blen check_le =
     (if old_val = new_val then True
      else if list_ex (\<lambda>i. list_ex (\<lambda>v. new_val = put_bits (8 * i) v old_val) interesting_8) [0..<blen] then True
      else if blen = 2 \<and> \<not> check_le then False
      else if list_ex (\<lambda>i. list_ex (\<lambda>v.
                new_val = put_bits (8 * i) v old_val
                \<or> blen > 2 \<and> new_val = put_bits (8 * i) (SWAP16 v) old_val) interesting_16) [0..<blen - 1] then True
      else if blen = 4 \<and> check_le then list_ex (\<lambda>v. new_val = v) interesting_32
      else False)"

section \<open>Runs of bits\<close>

text \<open>The products of the flipping stages, as differences of values: runs of one, two or four bits
  anywhere, or of one, two or four whole bytes.\<close>

definition bit_run :: "nat \<Rightarrow> nat \<Rightarrow> 'a::len word" where
  "bit_run k n = push_bit k (mask n)"

lemma bit_bit_run: "bit (bit_run k n :: 'a::len word) i \<longleftrightarrow> i < LENGTH('a) \<and> k \<le> i \<and> i < k + n"
  by (auto simp: bit_run_def bit_simps)

lemma shift_out_lowest:
  assumes "x \<noteq> 0"
  obtains k where "k < 32" and "bit x k" and "\<forall>j<k. \<not> bit x j"
    and "shift_out sh x = (sh + of_nat k, drop_bit k x)"
proof -
  have "\<exists>k<32. bit x k \<and> (\<forall>j<k. \<not> bit x j) \<and> shift_out sh x = (sh + of_nat k, drop_bit k x)"
    using assms
  proof (induction sh x rule: shift_out.induct)
    case (1 sh x)
    show ?case
    proof (cases "bit x 0")
      case True
      then have "shift_out sh x = (sh, x)"
        by (subst shift_out.simps) (simp add: and_one_eq odd_iff_mod_2_eq_one bit_0)
      with True show ?thesis by (intro exI [of _ 0]) simp
    next
      case False
      then have z: "x AND 1 = 0" by (simp add: and_one_eq bit_0 even_iff_mod_2_eq_zero)
      with 1 have step: "shift_out sh x = shift_out (sh + 1) (drop_bit 1 x)"
        by (subst shift_out.simps) simp
      have nz: "drop_bit 1 x \<noteq> 0"
      proof
        assume "drop_bit 1 x = 0"
        then have "\<not> bit x (Suc n)" for n
          using bit_drop_bit_eq [of 1 x] by (simp add: fun_eq_iff)
        with False have "\<not> bit x n" for n by (cases n) simp_all
        then have "x = 0" by (intro bit_word_eqI) simp
        with 1 show False by simp
      qed
      from 1 z nz obtain k where k: "k < 32" "bit (drop_bit 1 x) k" "\<forall>j<k. \<not> bit (drop_bit 1 x) j"
        "shift_out (sh + 1) (drop_bit 1 x) = (sh + 1 + of_nat k, drop_bit k (drop_bit 1 x))"
        by auto
      have sk: "bit x (Suc k)" using k(2) by (simp add: bit_drop_bit_eq)
      moreover have "Suc k < 32" using bit_imp_le_length [OF sk] by simp
      moreover have "\<not> bit x j" if "j < Suc k" for j
        using that k(3) False by (cases j) (auto simp: bit_drop_bit_eq)
      ultimately show ?thesis using k(4) step
        by (intro exI [of _ "Suc k"]) (simp add: drop_bit_drop_bit algebra_simps)
    qed
  qed
  then show ?thesis using that by blast
qed

lemma bit_run_1: "bit_run k 1 = (push_bit k 1 :: 'a::len word)" "bit_run 0 n = (mask n :: 'a word)"
  by (simp_all add: bit_run_def)

lemma mask_values:
  "(mask 1 :: u32) = 1" "(mask 2 :: u32) = 3" "(mask 4 :: u32) = 15"
  "(mask 8 :: u32) = 0xff" "(mask 16 :: u32) = 0xffff" "(mask 32 :: u32) = 0xffffffff"
  by (simp_all add: mask_eq_exp_minus_1)

lemma small_shift_aligned:
  assumes "k < 32"
  shows "(of_nat k :: u32) AND 7 = 0 \<longleftrightarrow> 8 dvd k"
proof -
  have "unat ((of_nat k :: u32) AND (8 - 1)) = k mod 8"
    using unat_and_mask_pow2 [of 8 3 "of_nat k :: u32"] assms by (simp add: unat_of_nat)
  then show ?thesis by (simp add: unat_eq_0 [symmetric] dvd_eq_mod_eq_0)
qed

definition flip_lengths :: "nat \<Rightarrow> nat \<Rightarrow> bool" where
  "flip_lengths k n \<longleftrightarrow> n \<in> {1, 2, 4} \<or> n \<in> {8, 16, 32} \<and> 8 dvd k"

lemma bit_run_lowest:
  assumes "bit_run k n = (bit_run k' n' :: u32)" "k + n \<le> 32" "k' + n' \<le> 32" "0 < n" "0 < n'"
  shows "k = k' \<and> n = n'"
proof -
  have *: "k \<le> i \<and> i < k + n \<longleftrightarrow> k' \<le> i \<and> i < k' + n'" if "i < 32" for i
    using bit_bit_run [of k n i, where 'a = 32] bit_bit_run [of k' n' i, where 'a = 32] assms(1) that by simp
  have "k = k'" using *[of k] *[of k'] assms(2-) by linarith
  moreover have "n = n'" using *[of "k + n - 1"] *[of "k' + n' - 1"] \<open>k = k'\<close> assms(2-) by linarith
  ultimately show ?thesis by simp
qed

lemma shift_out_run:
  assumes "k + n \<le> 32" "0 < n"
  shows "shift_out 0 (bit_run k n) = (of_nat k, mask n)"
proof -
  have k: "k < 32" using assms by simp
  have nz: "bit_run k n \<noteq> (0 :: u32)"
    using bit_bit_run [of k n k, where 'a = 32] assms k by auto
  obtain j where j: "bit (bit_run k n :: u32) j" "\<forall>i<j. \<not> bit (bit_run k n :: u32) i"
    "shift_out 0 (bit_run k n) = (0 + of_nat j, drop_bit j (bit_run k n))"
    using shift_out_lowest [OF nz] by blast
  have "j = k" using j(1) j(2) [rule_format, of k] k assms
    by (fastforce simp: bit_bit_run not_less)
  moreover have "drop_bit k (bit_run k n) = (mask n :: u32)"
    using assms by (intro bit_word_eqI) (auto simp: bit_drop_bit_eq bit_bit_run bit_mask_iff)
  ultimately show ?thesis using j(3) by simp
qed

lemma could_be_bitflip_run:
  assumes "k + n \<le> 32" "flip_lengths k n"
  shows "could_be_bitflip (bit_run k n)"
proof -
  have n: "0 < n" "k < 32" using assms by (auto simp: flip_lengths_def)
  then have "bit_run k n \<noteq> (0 :: u32)"
    using bit_bit_run [of k n k, where 'a = 32] assms by auto
  with shift_out_run [OF assms(1) n(1)] assms n show ?thesis
    by (auto simp: could_be_bitflip_def flip_lengths_def mask_values small_shift_aligned)
qed

lemma could_be_bitflip_iff:
  "could_be_bitflip x \<longleftrightarrow> x = 0 \<or> (\<exists>k n. k + n \<le> 32 \<and> flip_lengths k n \<and> x = bit_run k n)"
proof
  assume c: "could_be_bitflip x"
  show "x = 0 \<or> (\<exists>k n. k + n \<le> 32 \<and> flip_lengths k n \<and> x = bit_run k n)"
  proof (cases "x = 0")
    case False
    then obtain k where k: "k < 32" "bit x k" "\<forall>j<k. \<not> bit x j"
      "shift_out 0 x = (0 + of_nat k, drop_bit k x)" by (rule shift_out_lowest)
    let ?y = "drop_bit k x"
    have "\<exists>n \<in> {1, 2, 4, 8, 16, 32}. ?y = mask n \<and> flip_lengths k n"
      using c False k(1,4)
      by (auto simp: could_be_bitflip_def flip_lengths_def mask_values small_shift_aligned split: if_splits)
    then obtain n where n: "n \<in> {1, 2, 4, 8, 16, 32}" "?y = mask n" "flip_lengths k n" by blast
    have x: "x = bit_run k n"
    proof (rule bit_word_eqI)
      fix i assume "i < LENGTH(32)"
      have "bit (drop_bit k x) (i - k) \<longleftrightarrow> i - k < 32 \<and> i - k < n"
        unfolding n(2) by (simp add: bit_mask_iff)
      with \<open>i < LENGTH(32)\<close> k(3) show "bit x i \<longleftrightarrow> bit (bit_run k n :: u32) i"
        by (cases "i < k") (auto simp: bit_bit_run bit_drop_bit_eq)
    qed
    have "k + n \<le> 32"
    proof (rule ccontr)
      assume "\<not> k + n \<le> 32"
      then have "bit (mask n :: u32) (32 - k)" using n(1) k(1)
        by (cases "k = 0") (auto simp: bit_mask_iff)
      then have "bit x 32" using n(2) k(1) by (metis bit_drop_bit_eq comp_apply le_add_diff_inverse less_imp_le_nat)
      then show False using bit_imp_le_length [of x 32] by simp
    qed
    with x n show ?thesis by blast
  qed simp
next
  assume "x = 0 \<or> (\<exists>k n. k + n \<le> 32 \<and> flip_lengths k n \<and> x = bit_run k n)"
  then show "could_be_bitflip x"
    using could_be_bitflip_run by (auto simp: could_be_bitflip_def [of 0])
qed

section \<open>Additions and subtractions\<close>

lemma bit_get_bits:
  "bit (get_bits n x :: 'l::len word) i \<longleftrightarrow> i < LENGTH('l) \<and> bit x (n + i)"
  by (auto simp: get_bits_def bit_simps)

lemma bit_put_bits:
  assumes "i < 32"
  shows "bit (put_bits n (v :: 'l::len word) x) i \<longleftrightarrow>
     (if n \<le> i \<and> i < n + LENGTH('l) then bit v (i - n) else bit x i)"
  using assms bit_imp_le_length [of v "i - n"]
  by (auto simp: put_bits_def bit_simps)

lemma get_put_same:
  assumes "n + LENGTH('l) \<le> 32"
  shows "get_bits n (put_bits n (v :: 'l::len word) x) = v"
  using assms by (intro bit_word_eqI) (auto simp: bit_get_bits bit_put_bits)

definition near :: "'a::len word \<Rightarrow> 'a word \<Rightarrow> bool" where
  "near a b \<longleftrightarrow> (\<exists>d\<le>ARITH_MAX. b = a + of_nat d \<or> b = a - of_nat d)"

lemma le_of_nat_iff:
  assumes "k < 2 ^ LENGTH('a)"
  shows "(x :: 'a::len word) \<le> of_nat k \<longleftrightarrow> (\<exists>d\<le>k. x = of_nat d)"
proof
  assume "x \<le> of_nat k"
  then have "unat x \<le> k" using assms by (simp add: word_le_nat_alt unat_of_nat)
  then show "\<exists>d\<le>k. x = of_nat d" by (intro exI [of _ "unat x"]) simp
next
  assume "\<exists>d\<le>k. x = of_nat d"
  then show "x \<le> of_nat k" using assms by (auto simp: word_le_nat_alt unat_of_nat)
qed

lemma near_iff:
  assumes "6 \<le> LENGTH('a)"
  shows "near a b \<longleftrightarrow> (a :: 'a::len word) - b \<le> of_nat ARITH_MAX \<or> b - a \<le> of_nat ARITH_MAX"
proof -
  have "(2::nat) ^ 6 \<le> 2 ^ LENGTH('a)" using assms by (intro power_increasing) auto
  then have "35 < (2::nat) ^ LENGTH('a)" by simp
  then show ?thesis
    unfolding near_def le_of_nat_iff [OF \<open>35 < 2 ^ LENGTH('a)\<close>]
    by (auto simp: algebra_simps)
qed

lemma ucast_diff_ucast:
  assumes "LENGTH('l) \<le> 32"
  shows "(ucast (ucast a - ucast b :: u32) :: 'l::len word) = a - b"
  using assms by transfer (simp add: take_bit_diff min_def)

definition changed_lanes :: "(nat \<Rightarrow> u32 \<Rightarrow> 'l::len word) \<Rightarrow> nat \<Rightarrow> u32 \<Rightarrow> u32 \<Rightarrow> nat list" where
  "changed_lanes lane n x y = filter (\<lambda>i. lane i x \<noteq> lane i y) [0..<n]"

lemma diff_lanes_changed:
  "diff_lanes lane n x y start =
     (let D = changed_lanes lane n x y
      in (of_nat (length D), if D = [] then start else (ucast (lane (last D) x), ucast (lane (last D) y))))"
  by (induction n) (auto simp: diff_lanes_def changed_lanes_def Let_def)

lemma one_changed_lane:
  fixes x y :: u32
  assumes "n * w \<le> 32" "LENGTH('l::len) = w" "\<And>i. n * w \<le> i \<Longrightarrow> i < 32 \<Longrightarrow> bit x i = bit y i"
  shows "changed_lanes (\<lambda>i x. get_bits (w * i) x :: 'l word) n x y = [m] \<longleftrightarrow>
    m < n \<and> x \<noteq> y \<and> y = put_bits (w * m) (get_bits (w * m) y :: 'l word) x"
    (is "?c = _ \<longleftrightarrow> _")
proof
  assume c: "?c = [m]"
  then have m: "m < n" "(get_bits (w * m) x :: 'l word) \<noteq> get_bits (w * m) y"
    by (auto simp: changed_lanes_def filter_eq_Cons_iff upt_eq_Cons_conv dest!: arg_cong [where f = set])
  have others: "(get_bits (w * i) x :: 'l word) = get_bits (w * i) y" if "i < n" "i \<noteq> m" for i
    using arg_cong [OF c, of set] that by (auto simp: changed_lanes_def)
  have "y = put_bits (w * m) (get_bits (w * m) y :: 'l word) x"
  proof (rule bit_word_eqI)
    fix i assume "i < LENGTH(32)"
    then have i: "i < 32" by simp
    have w: "0 < w" using assms(2) len_gt_0 [where 'a = 'l] by simp
    have split: "i = w * (i div w) + i mod w" "i mod w < w" using w by simp_all
    show "bit y i \<longleftrightarrow> bit (put_bits (w * m) (get_bits (w * m) y :: 'l word) x) i"
    proof (cases "i < n * w \<and> i div w \<noteq> m")
      case True
      then have "i div w < n" using w by (simp add: div_less_iff_less_mult)
      with others True have "(get_bits (w * (i div w)) x :: 'l word) = get_bits (w * (i div w)) y" by blast
      then have "bit x i = bit y i"
        using split arg_cong [of _ _ "\<lambda>v. bit v (i mod w)"]
        by (metis assms(2) bit_get_bits)
      moreover have "\<not> (w * m \<le> i \<and> i < w * m + w)"
        using True w by (metis div_mult_self1_is_m div_le_mono le_antisym less_mult_imp_div_less mult.commute mult_Suc_right add.commute less_Suc_eq_le)
      ultimately show ?thesis using i assms(2) by (auto simp: bit_put_bits)
    next
      case False
      show ?thesis
      proof (cases "i div w = m")
        case True
        then have "i = w * m + i mod w" using split(1) by simp
        with split(2) have "w * m \<le> i" "i < w * m + w" "i - w * m < w" "w * m + (i - w * m) = i"
          by linarith+
        then show ?thesis using i assms(2) by (simp add: bit_put_bits bit_get_bits)
      next
        case other: False
        with False have "n * w \<le> i" by simp
        moreover have "w * m + w \<le> n * w" using mult_le_mono1 [of "Suc m" n w] m(1) by (simp add: algebra_simps)
        ultimately show ?thesis using i assms(2) assms(3) [of i] by (auto simp: bit_put_bits)
      qed
    qed
  qed
  with m show "m < n \<and> x \<noteq> y \<and> y = put_bits (w * m) (get_bits (w * m) y :: 'l word) x" by auto
next
  assume a: "m < n \<and> x \<noteq> y \<and> y = put_bits (w * m) (get_bits (w * m) y :: 'l word) x"
  then have y: "y = put_bits (w * m) (get_bits (w * m) y :: 'l word) x" by blast
  have w: "0 < w" using assms(2) len_gt_0 [where 'a = 'l] by simp
  have room: "w * i + w \<le> 32" if "i < n" for i
  proof -
    have "w * Suc i \<le> w * n" using that by (intro mult_le_mono2) simp
    then show ?thesis using assms(1) by (simp add: algebra_simps)
  qed
  have same: "(get_bits (w * i) x :: 'l word) = get_bits (w * i) y" if "i < n" "i \<noteq> m" for i
  proof (rule bit_word_eqI)
    fix j assume "j < LENGTH('l)"
    then have j: "j < w" "w * i + j < 32" using room [OF that(1)] assms(2) by auto
    have "(w * i + j) div w = i" using j(1) w by simp
    then have out: "\<not> (w * m \<le> w * i + j \<and> w * i + j < w * m + w)"
      using that(2) j(1) w
      by (metis add.commute div_le_mono div_mult_self1_is_m le_antisym less_Suc_eq_le less_mult_imp_div_less mult.commute mult_Suc_right)
    have "bit (put_bits (w * m) (get_bits (w * m) y :: 'l word) x) (w * i + j) = bit x (w * i + j)"
      unfolding bit_put_bits [OF j(2)] using out assms(2) by auto
    then have "bit y (w * i + j) = bit x (w * i + j)"
      using arg_cong [OF y, of "\<lambda>v. bit v (w * i + j)"] by (rule trans [rotated])
    then show "bit (get_bits (w * i) x :: 'l word) j = bit (get_bits (w * i) y :: 'l word) j"
      unfolding bit_get_bits by simp
  qed
  have "(get_bits (w * m) x :: 'l word) \<noteq> get_bits (w * m) y"
  proof
    assume e: "(get_bits (w * m) x :: 'l word) = get_bits (w * m) y"
    have p: "put_bits (w * m) (get_bits (w * m) x :: 'l word) x = x"
      by (rule bit_word_eqI) (auto simp: bit_put_bits bit_get_bits)
    have "y = put_bits (w * m) (get_bits (w * m) x :: 'l word) x" unfolding e by (rule y)
    then have "y = x" using p by (rule trans)
    with a show False by simp
  qed
  with same a have s: "set ?c = {m}" and d: "distinct ?c" by (auto simp: changed_lanes_def)
  from distinct_card [OF d] s have "length ?c = 1" by simp
  then obtain z where "?c = [z]" by (auto simp: length_Suc_conv)
  with s show "?c = [m]" by simp
qed

lemma SWAP16_SWAP16 [simp]: "SWAP16 (SWAP16 x) = x"
  by (rule bit_word_eqI) (auto simp: SWAP16_def bit_simps)

lemma bit_bytes32:
  assumes "r < 8"
  shows "bit (SWAP32 x) r \<longleftrightarrow> bit x (24 + r)" "bit (SWAP32 x) (8 + r) \<longleftrightarrow> bit x (16 + r)"
    "bit (SWAP32 x) (16 + r) \<longleftrightarrow> bit x (8 + r)" "bit (SWAP32 x) (24 + r) \<longleftrightarrow> bit x r"
proof -
  have e: "(0x00FF0000 :: u32) = push_bit 16 (mask 8)" "(0x0000FF00 :: u32) = push_bit 8 (mask 8)"
    by (simp_all add: mask_eq_exp_minus_1 push_bit_eq_mult)
  have high: "\<not> bit x (32 + k)" for k using bit_imp_le_length [of x "32 + k"] by auto
  note defs = SWAP32_def e bit_or_iff bit_and_iff bit_push_bit_iff bit_drop_bit_eq bit_mask_iff comp_apply
  show "bit (SWAP32 x) r \<longleftrightarrow> bit x (24 + r)"
    unfolding defs using assms by auto
  show "bit (SWAP32 x) (8 + r) \<longleftrightarrow> bit x (16 + r)"
    unfolding defs using assms high [of r] by (auto simp: add.assoc [symmetric])
  show "bit (SWAP32 x) (16 + r) \<longleftrightarrow> bit x (8 + r)"
    unfolding defs using assms high [of "8 + r"] by (auto simp: add.assoc [symmetric])
  show "bit (SWAP32 x) (24 + r) \<longleftrightarrow> bit x r"
    unfolding defs using assms high [of "16 + r"] by (auto simp: add.assoc [symmetric])
qed

lemma SWAP32_SWAP32 [simp]: "SWAP32 (SWAP32 x) = x"
proof (rule bit_word_eqI)
  fix i assume "i < LENGTH(32)"
  moreover define q r where "q = i div 8" and "r = i mod 8"
  ultimately have "r < 8" "i = 8 * q + r" "q = 0 \<or> q = 1 \<or> q = 2 \<or> q = 3" by auto
  with bit_bytes32 [OF \<open>r < 8\<close>] show "bit (SWAP32 (SWAP32 x)) i \<longleftrightarrow> bit x i"
    by (elim disjE) simp_all
qed

text \<open>The products of the arithmetic stages as differences of values: one byte, one half word in
  either byte order, or the whole word in either byte order moved by at most \<open>ARITH_MAX\<close>.\<close>

definition arith_product :: "u32 \<Rightarrow> u32 \<Rightarrow> nat \<Rightarrow> bool" where
  "arith_product old new blen \<longleftrightarrow>
     (\<exists>i<blen. \<exists>v. near (get_bits (8 * i) old :: u8) v \<and> new = put_bits (8 * i) v old)
     \<or> (\<exists>i<blen div 2. \<exists>v. (near (get_bits (16 * i) old :: u16) v \<or> near (SWAP16 (get_bits (16 * i) old)) (SWAP16 v))
           \<and> new = put_bits (16 * i) v old)
     \<or> blen = 4 \<and> (near old new \<or> near (SWAP32 old) (SWAP32 new))"

lemma near_refl [simp]: "near a a"
  unfolding near_def by (intro exI [of _ 0]) simp

lemma put_same [simp]: "put_bits n (get_bits n x :: 'l::len word) x = x"
  by (rule bit_word_eqI) (auto simp: bit_put_bits bit_get_bits)

lemma one_lane_test:
  fixes x y :: u32 and T :: "u32 \<Rightarrow> u32 \<Rightarrow> bool"
  assumes "n * w \<le> 32" "LENGTH('l::len) = w" "\<And>i. n * w \<le> i \<Longrightarrow> i < 32 \<Longrightarrow> bit x i = bit y i"
    and "n \<le> 4" "x \<noteq> y"
    and "diff_lanes (\<lambda>i x. get_bits (w * i) x :: 'l word) n x y start = (k, ov, nv)"
  shows "k = 1 \<and> T ov nv \<longleftrightarrow>
    (\<exists>i<n. \<exists>v :: 'l word. T (ucast (get_bits (w * i) x :: 'l word)) (ucast v) \<and> y = put_bits (w * i) v x)"
proof -
  let ?lane = "\<lambda>i x. get_bits (w * i) x :: 'l word"
  let ?D = "changed_lanes ?lane n x y"
  note one = one_changed_lane [OF assms(1-3), of "_"]
  have "length ?D \<le> n" unfolding changed_lanes_def using length_filter_le [of _ "[0..<n]"] by simp
  then have len: "(of_nat (length ?D) = (1 :: u32)) \<longleftrightarrow> length ?D = 1"
    using assms(4) by (auto simp: word_unat_eq_iff unat_of_nat take_bit_nat_eq_self)
  have kk: "k = of_nat (length ?D)" "?D \<noteq> [] \<Longrightarrow> ov = ucast (?lane (last ?D) x) \<and> nv = ucast (?lane (last ?D) y)"
    using assms(6) by (auto simp: diff_lanes_changed Let_def split: if_splits)
  have room: "w * i + w \<le> 32" if "i < n" for i
    using assms(1) mult_le_mono1 [of "Suc i" n w] that by (simp add: algebra_simps)
  show ?thesis
  proof
    assume l: "k = 1 \<and> T ov nv"
    then obtain m where D: "?D = [m]" using kk(1) len by (auto simp: length_Suc_conv)
    with one [of m] have m: "m < n" "y = put_bits (w * m) (?lane m y) x" by auto
    have "T (ucast (?lane m x)) (ucast (?lane m y))" using l kk(2) D by simp
    with m show "\<exists>i<n. \<exists>v :: 'l word. T (ucast (?lane i x)) (ucast v) \<and> y = put_bits (w * i) v x" by blast
  next
    assume "\<exists>i<n. \<exists>v :: 'l word. T (ucast (?lane i x)) (ucast v) \<and> y = put_bits (w * i) v x"
    then obtain m and v :: "'l word" where m: "m < n" "T (ucast (?lane m x)) (ucast v)" "y = put_bits (w * m) v x"
      by (elim exE conjE) (rule that; assumption)
    have v: "v = ?lane m y" unfolding m(3) using room [OF m(1)] assms(2) by (intro get_put_same [symmetric]) simp
    have "y = put_bits (w * m) (?lane m y) x" unfolding v [symmetric] by (rule m(3))
    with m(1) assms(5) have D: "?D = [m]" using one [of m] by blast
    then have "k = 1" using kk(1) by simp
    with D kk(2) m(2) v show "k = 1 \<and> T ov nv" by simp
  qed
qed

lemma high_bits_equal:
  assumes "x < 2 ^ k" "y < 2 ^ k" "k < 32" "k \<le> i"
  shows "bit (x :: u32) i = bit (y :: u32) i"
proof -
  have "\<not> bit z i" if "z < 2 ^ k" for z :: u32
  proof -
    have "unat z < 2 ^ k" using that assms(3) unat_pow2 [of k, where 'a = 32] by (simp add: word_less_nat_alt)
    then have "take_bit k (unat z) = unat z" by (simp add: take_bit_nat_eq_self)
    then have "\<not> bit (unat z) i" using assms(4) by (metis bit_take_bit_iff not_le)
    then show ?thesis using bit_imp_le_length [of z i] by (auto simp: bit_unsigned_iff)
  qed
  with assms show ?thesis by simp
qed

lemma could_be_arith_iff:
  assumes "blen \<in> {1, 2, 4}" "blen \<noteq> 4 \<Longrightarrow> old < 2 ^ (8 * blen)" "blen \<noteq> 4 \<Longrightarrow> new < 2 ^ (8 * blen)"
  shows "could_be_arith old new blen \<longleftrightarrow> old = new \<or> arith_product old new blen"
proof (cases "old = new")
  case False
  define T8 where "T8 = (\<lambda>ov nv :: u32. (ucast (ov - nv) :: u8) \<le> of_nat ARITH_MAX \<or> (ucast (nv - ov) :: u8) \<le> of_nat ARITH_MAX)"
  define T16 where "T16 = (\<lambda>ov nv :: u32. (ucast (ov - nv) :: u16) \<le> of_nat ARITH_MAX \<or> (ucast (nv - ov) :: u16) \<le> of_nat ARITH_MAX)"
  define B16 :: "u32 \<Rightarrow> u32 \<Rightarrow> bool" where "B16 = (\<lambda>ov nv. T16 (ucast (SWAP16 (ucast ov))) (ucast (SWAP16 (ucast nv))))"
  have T: "T8 (ucast a) (ucast b) \<longleftrightarrow> near a b" for a b :: u8
    by (simp add: T8_def near_iff ucast_diff_ucast)
  have T': "T16 (ucast a) (ucast b) \<longleftrightarrow> near a b" for a b :: u16
    by (simp add: T16_def near_iff ucast_diff_ucast)
  have B: "B16 (ucast a) (ucast b) \<longleftrightarrow> near (SWAP16 a) (SWAP16 b)" for a b :: u16
  proof -
    have c: "(ucast (ucast c :: u32) :: u16) = c" for c :: u16 by (rule bit_word_eqI) (auto simp: bit_simps)
    show ?thesis unfolding B16_def c T' ..
  qed
  have high: "bit old i = bit new i" if "8 * blen \<le> i" "i < 32" for i
  proof (cases "blen = 4")
    case False
    with assms that show ?thesis by (intro high_bits_equal [of old "8 * blen" new]) auto
  qed (use that in auto)
  obtain k ov nv where d8: "diff_lanes (\<lambda>i x. get_bits (8 * i) x :: u8) blen old new (0, 0) = (k, ov, nv)"
    by (metis prod_cases3)
  obtain k' ov' nv' where d16: "diff_lanes (\<lambda>i x. get_bits (16 * i) x :: u16) (blen div 2) old new (ov, nv) = (k', ov', nv')"
    by (metis prod_cases3)
  have b: "blen * 8 \<le> 32" "blen div 2 * 16 \<le> 32" "blen \<le> 4" using assms(1) by auto
  have h16: "bit old i = bit new i" if "blen div 2 * 16 \<le> i" "i < 32" "blen \<noteq> 1" for i
    using that assms(1) by (intro high) auto
  have l8: "k = 1 \<and> T8 ov nv \<longleftrightarrow>
      (\<exists>i<blen. \<exists>v. near (get_bits (8 * i) old :: u8) v \<and> new = put_bits (8 * i) v old)"
    using one_lane_test [OF b(1) _ _ b(3) False d8, of T8] high by (simp add: T mult.commute)
  have l16: "k' = 1 \<and> T16 ov' nv' \<longleftrightarrow>
      (\<exists>i<blen div 2. \<exists>v. near (get_bits (16 * i) old :: u16) v \<and> new = put_bits (16 * i) v old)" (is ?L)
    and lb: "k' = 1 \<and> B16 ov' nv' \<longleftrightarrow>
      (\<exists>i<blen div 2. \<exists>v. near (SWAP16 (get_bits (16 * i) old)) (SWAP16 v) \<and> new = put_bits (16 * i) v old)" (is ?R)
    if "blen \<noteq> 1"
  proof -
    show ?L
      using one_lane_test [OF b(2) _ _ _ False d16, of T16] h16 that b(3) by (simp add: T')
    show ?R
      using one_lane_test [OF b(2) _ _ _ False d16, of B16] h16 that b(3) by (simp add: B)
  qed
  have "could_be_arith old new blen \<longleftrightarrow> (k = 1 \<and> T8 ov nv) \<or> (blen \<noteq> 1 \<and> ((k' = 1 \<and> T16 ov' nv')
      \<or> (k' = 1 \<and> B16 ov' nv') \<or> blen = 4 \<and> (near old new \<or> near (SWAP32 old) (SWAP32 new))))"
    using False unfolding could_be_arith_def d8 prod.case d16 Let_def T8_def T16_def B16_def
    by (auto simp: near_iff)
  also have "\<dots> \<longleftrightarrow> arith_product old new blen"
  proof (cases "blen = 1")
    case True
    then show ?thesis unfolding l8 arith_product_def by simp
  next
    case False
    show ?thesis unfolding l8 l16 [OF False] lb [OF False] arith_product_def using False by blast
  qed
  finally show ?thesis using False by simp
qed (simp add: could_be_arith_def)

end
