(* ===== verification/Extras.thy ===== *)
theory Extras
  imports Det_Checks Clib Rand "HOL-Library.Multiset"
begin

text \<open>
  The dictionaries of \<open>src/src/afl-fuzz-extras.c\<close>: tokens the user supplies (\<open>extras\<close>), read from
  dictionary files or directories, and tokens found while fuzzing (\<open>a_extras\<close>). The C library's
  \<open>qsort\<close> leaves the order of equal elements open, so it is an argument of every operation that
  sorts.
\<close>

section \<open>State\<close>

text \<open>A token is the list of its bytes; its length field is the length of that list.\<close>

record auto_extra =
  ae_data :: bytes
  hit_cnt :: u32

record dict_st =
  extras :: "bytes list"
  a_extras :: "auto_extra list"
  auto_changed :: bool
  dict_rng :: rand_st

abbreviation (input) MAX_DICT_FILE :: nat where "MAX_DICT_FILE \<equiv> 128"
abbreviation (input) MIN_AUTO_EXTRA :: nat where "MIN_AUTO_EXTRA \<equiv> 3"
abbreviation (input) MAX_AUTO_EXTRA :: nat where "MAX_AUTO_EXTRA \<equiv> 32"
abbreviation (input) USE_AUTO_EXTRAS :: nat where "USE_AUTO_EXTRAS \<equiv> 4096"
abbreviation (input) MAX_AUTO_EXTRAS :: nat where "MAX_AUTO_EXTRAS \<equiv> 32768"
abbreviation (input) MAX_LINE :: nat where "MAX_LINE \<equiv> 8192"

type_synonym 'a qsort = "('a \<Rightarrow> 'a \<Rightarrow> int) \<Rightarrow> 'a list \<Rightarrow> 'a list"

definition comparator_on :: "'a set \<Rightarrow> ('a \<Rightarrow> 'a \<Rightarrow> int) \<Rightarrow> bool" where
  "comparator_on A cmp \<longleftrightarrow>
     (\<forall>x\<in>A. \<forall>y\<in>A. cmp x y \<le> 0 \<or> cmp y x \<le> 0)
     \<and> (\<forall>x\<in>A. \<forall>y\<in>A. \<forall>z\<in>A. cmp x y \<le> 0 \<and> cmp y z \<le> 0 \<longrightarrow> cmp x z \<le> 0)"

text \<open>What ISO C promises of \<open>qsort\<close>.\<close>

definition qsort_ok :: "'a qsort \<Rightarrow> bool" where
  "qsort_ok qs \<longleftrightarrow>
     (\<forall>cmp xs. mset (qs cmp xs) = mset xs
        \<and> (comparator_on (set xs) cmp \<longrightarrow> sorted_wrt (\<lambda>a b. cmp a b \<le> 0) (qs cmp xs)))"

definition compare_extras_len :: "bytes \<Rightarrow> bytes \<Rightarrow> int" where
  "compare_extras_len e1 e2 = sint (of_nat (length e1) - of_nat (length e2) :: u32)"

definition compare_auto_extras_len :: "auto_extra \<Rightarrow> auto_extra \<Rightarrow> int" where
  "compare_auto_extras_len e1 e2 = sint (of_nat (length (ae_data e1)) - of_nat (length (ae_data e2)) :: u32)"

definition compare_auto_extras_use_d :: "auto_extra \<Rightarrow> auto_extra \<Rightarrow> int" where
  "compare_auto_extras_use_d e1 e2 = sint (hit_cnt e2 - hit_cnt e1)"

section \<open>Reading a dictionary file\<close>

definition byte_isspace :: "u8 \<Rightarrow> bool" where
  "byte_isspace b \<longleftrightarrow> b = 32 \<or> 9 \<le> b \<and> b \<le> 13"

definition byte_isdigit :: "u8 \<Rightarrow> bool" where
  "byte_isdigit b \<longleftrightarrow> 48 \<le> b \<and> b \<le> 57"

definition byte_isalnum :: "u8 \<Rightarrow> bool" where
  "byte_isalnum b \<longleftrightarrow> byte_isdigit b \<or> 65 \<le> b \<and> b \<le> 90 \<or> 97 \<le> b \<and> b \<le> 122"

definition byte_tolower :: "u8 \<Rightarrow> u8" where
  "byte_tolower b = (if 65 \<le> b \<and> b \<le> 90 then b + 32 else b)"

definition hex_value :: "u8 \<Rightarrow> u8 option" where
  "hex_value b = (if byte_isdigit b then Some (b - 48)
     else if 97 \<le> byte_tolower b \<and> byte_tolower b \<le> 102 then Some (byte_tolower b - 87) else None)"

datatype dict_line = Line_skip | Line_malformed | Line_empty | Line_too_big bytes | Line_token bytes

text \<open>The bytes between the quotes, with their escapes; a backslash that starts no escape is dropped.\<close>

function unescape :: "bytes \<Rightarrow> bytes" where
  "unescape [] = []"
| "unescape (c # cs) =
     (if 1 \<le> c \<and> c \<le> 31 \<or> 128 \<le> c then unescape cs
      else if c = 0x5c then
        (case cs of
           [] \<Rightarrow> []
         | d # ds \<Rightarrow>
             if d = 0x5c \<or> d = 0x22 then d # unescape ds
             else (case (d = 0x78, ds) of
                 (True, h # l # rest) \<Rightarrow>
                   (case (hex_value h, hex_value l) of
                      (Some hi, Some lo) \<Rightarrow> (push_bit 4 hi OR lo) # unescape rest
                    | _ \<Rightarrow> unescape cs)
               | _ \<Rightarrow> unescape cs))
      else c # unescape cs)"
  by pat_completeness auto
termination
  by (relation "measure length") auto

text \<open>\<open>if (*lptr == '@')\<close>: the level, compared with the one asked for, is cut off.\<close>

definition line_level :: "u32 \<Rightarrow> bytes \<Rightarrow> bytes option" where
  "line_level dict_level s =
     (if s \<noteq> [] \<and> hd s = 0x40 then
        (if fst (strtol10 (map (\<lambda>b. char_of (unat b)) (tl s))) > sint dict_level then None
         else Some (dropWhile byte_isdigit (tl s)))
      else Some s)"

definition line_number :: "bytes \<Rightarrow> bytes" where
  "line_number s =
     (if s \<noteq> [] \<and> hd s = 0x5b then
        let s = dropWhile byte_isdigit (tl s) in if s \<noteq> [] \<and> hd s = 0x5d then tl s else s
      else s)"

definition parse_line :: "u32 \<Rightarrow> bytes \<Rightarrow> dict_line" where
  "parse_line dict_level line =
     (let s = takeWhile (\<lambda>b. b \<noteq> 0) line;
          s = dropWhile byte_isspace s;
          s = rev (dropWhile byte_isspace (rev s))
      in if s = [] \<or> hd s = 0x23 then Line_skip
         else if last s \<noteq> 0x22 then Line_malformed
         else
           case line_level dict_level (dropWhile (\<lambda>b. byte_isalnum b \<or> b = 0x5f) (butlast s)) of
             None \<Rightarrow> Line_skip
           | Some s \<Rightarrow>
               let s = dropWhile (\<lambda>b. byte_isspace b \<or> b = 0x3d) (line_number s)
               in if s = [] \<or> hd s \<noteq> 0x22 then Line_malformed
                  else if tl s = [] then Line_empty
                  else let data = unescape (tl s)
                       in if length data > MAX_DICT_FILE then Line_too_big data else Line_token data)"

text \<open>\<open>fgets\<close>: up to and including the next line end, and at most \<open>MAX_LINE - 1\<close> bytes.\<close>

function fgets_lines :: "bytes \<Rightarrow> bytes list" where
  "fgets_lines content =
     (if content = [] then []
      else let line = takeWhile (\<lambda>b. b \<noteq> 10) content;
               n = (if length line < length content then length line + 1 else length line);
               n = min n (MAX_LINE - 1)
           in take n content # fgets_lines (drop n content))"
  by pat_completeness auto
termination
proof (relation "measure length")
  fix content line :: bytes and k k' :: nat
  assume "content \<noteq> []" "line = takeWhile (\<lambda>b. b \<noteq> 10) content"
    "k = (if length line < length content then length line + 1 else length line)"
    "k' = min k (MAX_LINE - 1)"
  then have "0 < k'" "0 < length content" by auto
  then show "(drop k' content, content) \<in> measure length" by simp
qed simp

declare fgets_lines.simps [simp del]

definition load_extras_file :: "u32 \<Rightarrow> bytes \<Rightarrow> 'a dict_st_scheme \<Rightarrow> 'a dict_st_scheme" where
  "load_extras_file dict_level content d =
     d\<lparr>extras := extras d @ List.map_filter
         (\<lambda>line. case parse_line dict_level line of Line_token t \<Rightarrow> Some t | _ \<Rightarrow> None)
         (fgets_lines content)\<rparr>"

definition extras_check_and_sort :: "bytes qsort \<Rightarrow> 'a dict_st_scheme \<Rightarrow> 'a dict_st_scheme" where
  "extras_check_and_sort qs d =
     (if extras d = [] then d else d\<lparr>extras := qs compare_extras_len (extras d)\<rparr>)"

text \<open>What the path of the dictionary names: a readable file, a directory with its entries (whether
  each can be examined and read, whether it is a regular file, its bytes), or nothing usable.\<close>

datatype dict_source = Dict_file bytes | Dict_dir "(bool \<times> bool \<times> bytes) list" | Dict_unusable

fun load_extras_dir :: "(bool \<times> bool \<times> bytes) list \<Rightarrow> 'a dict_st_scheme \<Rightarrow> 'a dict_st_scheme option" where
  "load_extras_dir [] d = Some d"
| "load_extras_dir ((accessible, regular, content) # files) d =
     (if \<not> accessible then None
      else if \<not> regular \<or> content = [] \<or> length content > MAX_DICT_FILE then load_extras_dir files d
      else load_extras_dir files (d\<lparr>extras := extras d @ [content]\<rparr>))"

definition load_extras :: "bytes qsort \<Rightarrow> dict_source \<Rightarrow> u32 option \<Rightarrow> 'a dict_st_scheme \<Rightarrow> 'a dict_st_scheme option" where
  "load_extras qs src level d =
     (case src of
        Dict_unusable \<Rightarrow> None
      | Dict_file content \<Rightarrow>
          Some (extras_check_and_sort qs (load_extras_file (case level of Some l \<Rightarrow> l | None \<Rightarrow> 0) content d))
      | Dict_dir files \<Rightarrow>
          if level \<noteq> None then None
          else map_option (extras_check_and_sort qs) (load_extras_dir files d))"

section \<open>Adding and merging tokens\<close>

definition add_extra_nocheck :: "bytes \<Rightarrow> 'a dict_st_scheme \<Rightarrow> 'a dict_st_scheme" where
  "add_extra_nocheck mem d = d\<lparr>extras := extras d @ [mem]\<rparr>"

text \<open>The search stops behind the block of tokens of this length.\<close>

fun find_extra :: "bytes \<Rightarrow> bool \<Rightarrow> bytes list \<Rightarrow> bool" where
  "find_extra mem found [] = False"
| "find_extra mem found (x # xs) =
     (if length x = length mem then (if x = mem then True else find_extra mem True xs)
      else if found then False else find_extra mem found xs)"

definition add_extra :: "bytes qsort \<Rightarrow> bytes \<Rightarrow> 'a dict_st_scheme \<Rightarrow> 'a dict_st_scheme" where
  "add_extra qs mem d =
     (if find_extra mem False (extras d) \<or> length mem > MAX_DICT_FILE then d
      else let d = add_extra_nocheck mem d in d\<lparr>extras := qs compare_extras_len (extras d)\<rparr>)"

text \<open>Removal of duplicates; the inner loop stops at the first token of another length.\<close>

function dedup_inner :: "nat \<Rightarrow> nat \<Rightarrow> bytes list \<Rightarrow> bytes list" where
  "dedup_inner i j xs =
     (if j \<ge> length xs \<or> length (xs ! i) \<noteq> length (xs ! j) then xs
      else if xs ! i = xs ! j then dedup_inner i j (take j xs @ drop (Suc j) xs)
      else dedup_inner i (Suc j) xs)"
  by pat_completeness auto
termination
  by (relation "measure (\<lambda>(i, j, xs). length xs - j)") auto

declare dedup_inner.simps [simp del]

lemma length_dedup_inner: "length (dedup_inner i j xs) \<le> length xs"
proof (induction i j xs rule: dedup_inner.induct)
  case (1 i j xs)
  then show ?case by (subst dedup_inner.simps) auto
qed

function dedup_outer :: "nat \<Rightarrow> bytes list \<Rightarrow> bytes list" where
  "dedup_outer i xs =
     (if i < length xs - 1 then dedup_outer (Suc i) (dedup_inner i (Suc i) xs) else xs)"
  by pat_completeness auto
termination
proof (relation "measure (\<lambda>(i, xs). length xs - i)")
  fix i and xs :: "bytes list" assume "i < length xs - 1"
  then show "((Suc i, dedup_inner i (Suc i) xs), i, xs) \<in> measure (\<lambda>(i, xs). length xs - i)"
    using length_dedup_inner [of i "Suc i" xs] by auto
qed simp

declare dedup_outer.simps [simp del]

definition dedup_extras :: "'a dict_st_scheme \<Rightarrow> 'a dict_st_scheme" where
  "dedup_extras d = (if length (extras d) < 2 then d else d\<lparr>extras := dedup_outer 0 (extras d)\<rparr>)"

text \<open>Tokens that look like UTF-16 or UTF-32 are added in their narrow form.\<close>

definition zeros_at :: "(nat \<Rightarrow> bool) \<Rightarrow> bytes \<Rightarrow> nat" where
  "zeros_at P tok = length (filter (\<lambda>j. P j \<and> tok ! j = 0) [0..<length tok])"

definition bytes_at :: "(nat \<Rightarrow> bool) \<Rightarrow> bytes \<Rightarrow> bytes" where
  "bytes_at P tok = map ((!) tok) (filter P [0..<length tok])"

definition deunicode_token :: "bytes \<Rightarrow> bytes list" where
  "deunicode_token tok =
     (if length tok < 6 \<or> length tok > 64 \<or> odd (length tok) then []
      else
        let half = length tok div 2; quarter = half div 2;
            z1 = zeros_at (\<lambda>j. j mod 4 = 0 \<or> j mod 4 = 2) tok; z2 = zeros_at (\<lambda>j. j mod 4 = 1 \<or> j mod 4 = 3) tok;
            z3 = zeros_at (\<lambda>j. j mod 4 = 2) tok; z4 = zeros_at (\<lambda>j. j mod 4 = 3) tok
        in if (z1 < half \<and> z2 < half) \<or> z1 + z2 = length tok then []
           else
             (if length tok mod 4 = 0 \<and> length tok \<ge> 12 \<and> (z3 = quarter \<or> z4 = quarter) \<and> z1 + z2 = quarter * 3
              then [bytes_at (\<lambda>j. j mod 4 = (if z4 < quarter then 3 else if z3 < quarter then 2
                                             else if z2 < half then 1 else 0)) tok]
              else [])
             @ [bytes_at (\<lambda>j. j mod 2 = (if z1 < half then 0 else 1)) tok])"

definition deunicode_extras :: "bytes qsort \<Rightarrow> 'a dict_st_scheme \<Rightarrow> 'a dict_st_scheme" where
  "deunicode_extras qs d =
     (if extras d = [] then d
      else
        let d = fold add_extra_nocheck (concat (map deunicode_token (extras d))) d
        in d\<lparr>extras := qs compare_extras_len (extras d)\<rparr>)"

section \<open>Tokens found while fuzzing\<close>

text \<open>\<open>memcmp_nocase\<close> answers whether two tokens of one length differ beyond letter case.\<close>

definition same_nocase :: "bytes \<Rightarrow> bytes \<Rightarrow> bool" where
  "same_nocase m1 m2 \<longleftrightarrow> map byte_tolower m1 = map byte_tolower m2"

text \<open>The index at which the loop over equal bytes stops.\<close>

definition run_stop :: "bytes \<Rightarrow> nat" where
  "run_stop mem = Suc (length (takeWhile (\<lambda>b. b = hd mem) (tl mem)))"

text \<open>The comparison of the two-byte token with the signed table is done in \<open>int\<close>: a negative entry
  never equals the unsigned token, only its swapped form does.\<close>

definition builtin_value :: "bytes \<Rightarrow> bool" where
  "builtin_value mem \<longleftrightarrow>
     length mem = 2 \<and>
       list_ex (\<lambda>v. uint (of_bytes mem :: u16) = sint v \<or> (of_bytes mem :: u16) = SWAP16 v) interesting_16
     \<or> length mem = 4 \<and>
       list_ex (\<lambda>v. (of_bytes mem :: u32) = v \<or> (of_bytes mem :: u32) = SWAP32 v) interesting_32"

definition known_extra :: "bytes \<Rightarrow> bytes list \<Rightarrow> bool" where
  "known_extra mem xs \<longleftrightarrow>
     list_ex (same_nocase mem) (takeWhile (\<lambda>x. length x = length mem) (dropWhile (\<lambda>x. length x < length mem) xs))"

fun find_auto :: "bytes \<Rightarrow> nat \<Rightarrow> auto_extra list \<Rightarrow> nat option" where
  "find_auto mem i [] = None"
| "find_auto mem i (a # as) =
     (if length (ae_data a) = length mem \<and> same_nocase (ae_data a) mem then Some i
      else find_auto mem (Suc i) as)"

definition sort_auto :: "auto_extra qsort \<Rightarrow> auto_extra list \<Rightarrow> auto_extra list" where
  "sort_auto qs as =
     (let as = qs compare_auto_extras_use_d as; n = min USE_AUTO_EXTRAS (length as)
      in qs compare_auto_extras_len (take n as) @ drop n as)"

definition maybe_add_auto :: "urandom \<Rightarrow> auto_extra qsort \<Rightarrow> bytes \<Rightarrow> 'a dict_st_scheme \<Rightarrow> 'a dict_st_scheme option" where
  "maybe_add_auto urandom qs mem d =
     (if run_stop mem = length mem \<or> length mem > MAX_AUTO_EXTRA \<or> builtin_value mem \<or> known_extra mem (extras d)
      then Some d
      else
        let d = d\<lparr>auto_changed := True\<rparr>;
            set_sorted = (\<lambda>as d. d\<lparr>a_extras := sort_auto qs as\<rparr>)
        in case find_auto mem 0 (a_extras d) of
             Some i \<Rightarrow> Some (set_sorted ((a_extras d)[i := (a_extras d ! i)\<lparr>hit_cnt := hit_cnt (a_extras d ! i) + 1\<rparr>]) d)
           | None \<Rightarrow>
               if length (a_extras d) < MAX_AUTO_EXTRAS
               then Some (set_sorted (a_extras d @ [\<lparr>ae_data = mem, hit_cnt = 0\<rparr>]) d)
               else map_option (\<lambda>(k, g).
                   set_sorted ((a_extras d)[MAX_AUTO_EXTRAS div 2 + unat k := \<lparr>ae_data = mem, hit_cnt = 0\<rparr>])
                     (d\<lparr>dict_rng := g\<rparr>))
                 (rand_below urandom (of_nat ((MAX_AUTO_EXTRAS + 1) div 2)) (dict_rng d)))"

text \<open>Saved tokens: one file per token, numbered from 0; the state is written only when it changed.\<close>

definition save_auto :: "'a dict_st_scheme \<Rightarrow> bytes list option \<times> 'a dict_st_scheme" where
  "save_auto d =
     (if \<not> auto_changed d then (None, d)
      else (Some (map ae_data (take USE_AUTO_EXTRAS (a_extras d))), d\<lparr>auto_changed := False\<rparr>))"

text \<open>The files are read from 0 on until one is missing; one byte more than allowed is read to notice
  tokens that are too long.\<close>

fun load_auto_files :: "urandom \<Rightarrow> auto_extra qsort \<Rightarrow> bytes list \<Rightarrow> 'a dict_st_scheme \<Rightarrow> 'a dict_st_scheme option" where
  "load_auto_files urandom qs [] d = Some d"
| "load_auto_files urandom qs (content # files) d =
     (let tmp = take (MAX_AUTO_EXTRA + 1) content
      in if MIN_AUTO_EXTRA \<le> length tmp \<and> length tmp \<le> MAX_AUTO_EXTRA
         then Option.bind (maybe_add_auto urandom qs tmp d) (load_auto_files urandom qs files)
         else load_auto_files urandom qs files d)"

definition load_auto :: "urandom \<Rightarrow> auto_extra qsort \<Rightarrow> bytes list \<Rightarrow> 'a dict_st_scheme \<Rightarrow> 'a dict_st_scheme option" where
  "load_auto urandom qs files d = load_auto_files urandom qs (take USE_AUTO_EXTRAS files) d"

section \<open>An instance of \<open>qsort\<close>\<close>

fun insert_by :: "('a \<Rightarrow> 'a \<Rightarrow> int) \<Rightarrow> 'a \<Rightarrow> 'a list \<Rightarrow> 'a list" where
  "insert_by cmp x [] = [x]"
| "insert_by cmp x (y # ys) = (if cmp x y \<le> 0 then x # y # ys else y # insert_by cmp x ys)"

definition insertion_sort :: "'a qsort" where
  "insertion_sort cmp xs = foldr (insert_by cmp) xs []"

lemma mset_insert_by [simp]: "mset (insert_by cmp x xs) = add_mset x (mset xs)"
  by (induction xs) auto

lemma set_insert_by [simp]: "set (insert_by cmp x xs) = insert x (set xs)"
  by (induction xs) auto

lemma comparator_subset: "comparator_on B cmp \<Longrightarrow> A \<subseteq> B \<Longrightarrow> comparator_on A cmp"
  unfolding comparator_on_def by (meson subsetD)

lemma comparator_total: "comparator_on A cmp \<Longrightarrow> x \<in> A \<Longrightarrow> y \<in> A \<Longrightarrow> \<not> cmp x y \<le> 0 \<Longrightarrow> cmp y x \<le> 0"
  unfolding comparator_on_def by meson

lemma comparator_trans:
  "comparator_on A cmp \<Longrightarrow> x \<in> A \<Longrightarrow> y \<in> A \<Longrightarrow> z \<in> A \<Longrightarrow> cmp x y \<le> 0 \<Longrightarrow> cmp y z \<le> 0 \<Longrightarrow> cmp x z \<le> 0"
  unfolding comparator_on_def by meson

lemma sorted_insert_by:
  assumes "comparator_on (insert x (set xs)) cmp" "sorted_wrt (\<lambda>a b. cmp a b \<le> 0) xs"
  shows "sorted_wrt (\<lambda>a b. cmp a b \<le> 0) (insert_by cmp x xs)"
  using assms
proof (induction xs)
  case (Cons y ys)
  have y: "cmp y z \<le> 0" if "z \<in> set ys" for z using Cons.prems(2) that by simp
  show ?case
  proof (cases "cmp x y \<le> 0")
    case True
    have "cmp x z \<le> 0" if "z \<in> set ys" for z
      using comparator_trans [OF Cons.prems(1), of x y z] True y that by simp
    with True Cons.prems(2) show ?thesis by simp
  next
    case False
    have "sorted_wrt (\<lambda>a b. cmp a b \<le> 0) (insert_by cmp x ys)"
      using Cons.prems(2) by (intro Cons.IH comparator_subset [OF Cons.prems(1)]) auto
    moreover have "cmp y x \<le> 0" using comparator_total [OF Cons.prems(1), of x y] False by simp
    ultimately show ?thesis using False y by auto
  qed
qed simp

lemma qsort_ok_insertion_sort: "qsort_ok insertion_sort"
proof -
  have "mset (insertion_sort cmp xs) = mset xs
      \<and> (comparator_on (set xs) cmp \<longrightarrow> sorted_wrt (\<lambda>a b. cmp a b \<le> 0) (insertion_sort cmp xs))"
    for cmp :: "'a \<Rightarrow> 'a \<Rightarrow> int" and xs
  proof (induction xs)
    case (Cons x xs)
    have step: "insertion_sort cmp (x # xs) = insert_by cmp x (insertion_sort cmp xs)"
      by (simp add: insertion_sort_def)
    have s: "set (insertion_sort cmp xs) = set xs" using Cons by (metis set_mset_mset)
    have "sorted_wrt (\<lambda>a b. cmp a b \<le> 0) (insert_by cmp x (insertion_sort cmp xs))"
      if "comparator_on (set (x # xs)) cmp"
    proof (rule sorted_insert_by)
      show "comparator_on (insert x (set (insertion_sort cmp xs))) cmp" using that s by simp
      show "sorted_wrt (\<lambda>a b. cmp a b \<le> 0) (insertion_sort cmp xs)"
        using Cons comparator_subset [OF that, of "set xs"] by auto
    qed
    with Cons step show ?case by simp
  qed (simp add: insertion_sort_def)
  then show ?thesis by (simp add: qsort_ok_def)
qed

section \<open>What adding a token changes\<close>

lemma length_qsort: "qsort_ok qs \<Longrightarrow> length (qs cmp xs) = length xs"
  unfolding qsort_ok_def by (metis size_mset)

lemma mset_sort_auto:
  assumes "qsort_ok qs"
  shows "mset (sort_auto qs as) = mset as"
proof -
  have m: "mset (qs cmp xs) = mset xs" for cmp xs using assms by (simp add: qsort_ok_def)
  let ?as = "qs compare_auto_extras_use_d as"
  have "mset (sort_auto qs as) = mset (take (min USE_AUTO_EXTRAS (length ?as)) ?as @ drop (min USE_AUTO_EXTRAS (length ?as)) ?as)"
    by (simp only: sort_auto_def Let_def mset_append m)
  also have "\<dots> = mset as" by (simp only: append_take_drop_id m)
  finally show ?thesis .
qed

lemma length_sort_auto: "qsort_ok qs \<Longrightarrow> length (sort_auto qs as) = length as"
  using mset_sort_auto by (metis size_mset)

lemma maybe_add_auto_frame:
  assumes "maybe_add_auto urandom qs mem d = Some d'" "qsort_ok qs"
  obtains ch as g where "d' = d\<lparr>auto_changed := ch, a_extras := as, dict_rng := g\<rparr>"
    and "length as \<le> Suc (length (a_extras d))"
proof (cases "run_stop mem = length mem \<or> length mem > MAX_AUTO_EXTRA \<or> builtin_value mem \<or> known_extra mem (extras d)")
  case True
  then have "d' = d" using assms(1) by (simp add: maybe_add_auto_def)
  then show thesis using that [where ch = "auto_changed d" and as = "a_extras d" and g = "dict_rng d"] by simp
next
  case False
  with assms(1) obtain as g where "d' = d\<lparr>auto_changed := True, a_extras := sort_auto qs as, dict_rng := g\<rparr>"
    "length as \<le> Suc (length (a_extras d))"
    by (cases d) (auto simp: maybe_add_auto_def Let_def split: option.splits if_splits prod.splits)
  then show thesis using that length_sort_auto [OF assms(2)] by auto
qed

lemma maybe_add_auto_returns:
  assumes "length (a_extras d) < MAX_AUTO_EXTRAS"
  shows "maybe_add_auto urandom qs mem d \<noteq> None"
  using assms by (auto simp: maybe_add_auto_def Let_def split: option.split)

end
