(* ===== verification/Det_Stages.thy ===== *)
theory Det_Stages
  imports Extras "HOL-Library.Sublist"
begin

text \<open>
  The deterministic stages of \<open>fuzz_one_original\<close> (\<open>src/src/afl-fuzz-one.c\<close>): walking bit and byte
  flips with the collection of dictionary tokens, additions and subtractions, interesting values,
  and the overwriting and insertion of dictionary tokens. Every input a stage hands to
  \<open>common_fuzz_stuff\<close> is recorded in the state; what comes back from it (whether to stop, how many
  finds there are, the checksum of the trace) is an argument that may depend on all inputs so far.
\<close>

section \<open>State\<close>

datatype stage_id = STAGE_FLIP1 | STAGE_FLIP2 | STAGE_FLIP4 | STAGE_FLIP8 | STAGE_FLIP16 | STAGE_FLIP32
  | STAGE_ARITH8 | STAGE_ARITH16 | STAGE_ARITH32 | STAGE_INTEREST8 | STAGE_INTEREST16 | STAGE_INTEREST32
  | STAGE_EXTRAS_UO | STAGE_EXTRAS_UI | STAGE_EXTRAS_AO | STAGE_EXTRAS_AI

datatype stage_val = STAGE_VAL_NONE | STAGE_VAL_LE | STAGE_VAL_BE

text \<open>The fields up to \<open>blocks_eff_total\<close> belong to \<open>afl_state_t\<close>; the others are local variables of
  the function. \<open>execs\<close> are the inputs run so far, \<open>det_checks\<close> counts the calls of
  \<open>is_det_timeout\<close>.\<close>

record det_st = dict_st +
  out_buf :: bytes
  execs :: "bytes list"
  det_checks :: nat
  stage_cur :: u32
  stage_max :: u32
  stage_cur_byte :: u32
  stage_cur_val :: u32
  stage_val_type :: stage_val
  stage_finds :: "stage_id \<Rightarrow> u64"
  stage_cycles :: "stage_id \<Rightarrow> u64"
  blocks_eff_select :: u32
  blocks_eff_total :: u32
  det_done :: bool
  new_hit_cnt :: u64
  prev_cksum :: u64
  clean_cksum :: u64
  a_collect :: bytes
  a_len :: u32
  last_len :: nat
  ex_tmp :: bytes

record det_world =
  dw_abort :: "bytes list \<Rightarrow> bool"
  dw_hits :: "bytes list \<Rightarrow> u64"
  dw_cksum :: "bytes list \<Rightarrow> u64"
  dw_timeout :: "nat \<Rightarrow> bool"
  skip_eff_map :: bytes
  dw_non_instrumented :: bool
  no_arith :: bool
  max_det_extras :: u32
  dw_urandom :: urandom
  dw_qsort :: "auto_extra qsort"

text \<open>How a stage ends: it goes on, jumps to \<open>custom_mutator_stage\<close>, jumps to \<open>abandon_entry\<close>, or
  waits forever for a random number.\<close>

datatype 's stage = Go 's | To_custom 's | Abandon 's | Stuck

primrec and_then :: "'s stage \<Rightarrow> ('s \<Rightarrow> 's stage) \<Rightarrow> 's stage" where
  "and_then (Go s) f = f s"
| "and_then (To_custom s) f = To_custom s"
| "and_then (Abandon s) f = Abandon s"
| "and_then Stuck f = Stuck"

fun walk :: "('x \<Rightarrow> 's \<Rightarrow> 's stage) \<Rightarrow> 'x list \<Rightarrow> 's \<Rightarrow> 's stage" where
  "walk f [] s = Go s"
| "walk f (x # xs) s = and_then (f x s) (walk f xs)"

definition bitmap_read :: "bytes \<Rightarrow> nat \<Rightarrow> bool" where
  "bitmap_read m i \<longleftrightarrow> bit (m ! (i div 8)) (i mod 8)"

text \<open>\<open>common_fuzz_stuff (afl, buf, len)\<close> and the jump after it.\<close>

definition run_input :: "det_world \<Rightarrow> bytes \<Rightarrow> det_st \<Rightarrow> det_st stage" where
  "run_input w buf st =
     (let st = st\<lparr>execs := execs st @ [buf]\<rparr> in if dw_abort w (execs st) then Abandon st else Go st)"

text \<open>The effector map and the time limit, consulted before a byte is worked on.\<close>

definition at_byte :: "det_world \<Rightarrow> nat \<Rightarrow> (det_st \<Rightarrow> det_st stage) \<Rightarrow> det_st \<Rightarrow> det_st stage" where
  "at_byte w i body st =
     (if \<not> bitmap_read (skip_eff_map w) i then Go st
      else let late = dw_timeout w (det_checks st); st = st\<lparr>det_checks := det_checks st + 1\<rparr>
           in if late then To_custom st else body st)"

definition begin_stage :: "u32 \<Rightarrow> det_st \<Rightarrow> det_st" where
  "begin_stage mx st = st\<lparr>stage_cur := 0, stage_max := mx\<rparr>"

definition finish_stage :: "det_world \<Rightarrow> stage_id \<Rightarrow> det_st \<Rightarrow> det_st" where
  "finish_stage w sid st =
     (let hits = dw_hits w (execs st)
      in st\<lparr>stage_finds := (stage_finds st)(sid := stage_finds st sid + (hits - new_hit_cnt st)),
            stage_cycles := (stage_cycles st)(sid := stage_cycles st sid + ucast (stage_max st)),
            new_hit_cnt := hits\<rparr>)"

text \<open>Words in the buffer, little endian; and any bytes written over it.\<close>

definition overwrite :: "nat \<Rightarrow> bytes \<Rightarrow> bytes \<Rightarrow> bytes" where
  "overwrite i bs buf = take i buf @ bs @ drop (i + length bs) buf"

definition peek :: "nat \<Rightarrow> bytes \<Rightarrow> 'l::len word" where
  "peek i buf = of_bytes (take (LENGTH('l) div 8) (drop i buf))"

definition poke :: "nat \<Rightarrow> 'l::len word \<Rightarrow> bytes \<Rightarrow> bytes" where
  "poke i v buf = overwrite i (to_bytes (LENGTH('l) div 8) v) buf"

section \<open>Flipping\<close>

definition FLIP_BIT :: "nat \<Rightarrow> bytes \<Rightarrow> bytes" where
  "FLIP_BIT b buf = buf[b div 8 := buf ! (b div 8) XOR drop_bit (b mod 8) 128]"

definition flip_bits :: "nat \<Rightarrow> nat \<Rightarrow> bytes \<Rightarrow> bytes" where
  "flip_bits n b buf = fold (\<lambda>k. FLIP_BIT (b + k)) [0..<n] buf"

definition flip_step :: "det_world \<Rightarrow> nat \<Rightarrow> (nat \<Rightarrow> det_st \<Rightarrow> det_st stage) \<Rightarrow> nat \<Rightarrow> det_st \<Rightarrow> det_st stage" where
  "flip_step w n after cur st =
     at_byte w (cur div 8)
       (\<lambda>st. let st = st\<lparr>out_buf := flip_bits n cur (out_buf st)\<rparr>
             in and_then (run_input w (out_buf st) st)
                  (\<lambda>st. after cur (st\<lparr>out_buf := flip_bits n cur (out_buf st)\<rparr>)))
       (st\<lparr>stage_cur := of_nat cur, stage_cur_byte := of_nat (cur div 8)\<rparr>)"

text \<open>Token collection, while the least significant bit of each byte is flipped.\<close>

definition grab_byte :: "nat \<Rightarrow> det_st \<Rightarrow> det_st" where
  "grab_byte cur st =
     st\<lparr>a_collect := (if a_len st < of_nat MAX_AUTO_EXTRA
                      then (a_collect st)[unat (a_len st) := out_buf st ! (cur div 8)] else a_collect st),
        a_len := a_len st + 1\<rparr>"

definition offer_token :: "det_world \<Rightarrow> det_st \<Rightarrow> det_st stage" where
  "offer_token w st =
     (if of_nat MIN_AUTO_EXTRA \<le> a_len st \<and> a_len st \<le> of_nat MAX_AUTO_EXTRA
      then (case maybe_add_auto (dw_urandom w) (dw_qsort w) (take (unat (a_len st)) (a_collect st)) st of
              None \<Rightarrow> Stuck | Some st \<Rightarrow> Go st)
      else Go st)"

definition collect_token :: "det_world \<Rightarrow> nat \<Rightarrow> det_st \<Rightarrow> det_st stage" where
  "collect_token w cur st =
     (if dw_non_instrumented w \<or> cur mod 8 \<noteq> 7 then Go st
      else
        let cksum = dw_cksum w (execs st)
        in and_then
             (if of_nat cur = stage_max st - 1 \<and> cksum = prev_cksum st then offer_token w (grab_byte cur st)
              else if cksum \<noteq> prev_cksum st then
                and_then (offer_token w st) (\<lambda>st. Go (st\<lparr>a_len := 0, prev_cksum := cksum\<rparr>))
              else Go st)
             (\<lambda>st. Go (if cksum \<noteq> clean_cksum st then grab_byte cur st else st)))"

definition flip_stage :: "det_world \<Rightarrow> stage_id \<Rightarrow> nat \<Rightarrow> (nat \<Rightarrow> det_st \<Rightarrow> det_st stage) \<Rightarrow> det_st \<Rightarrow> det_st stage" where
  "flip_stage w sid n after st =
     (let st = begin_stage (push_bit 3 (of_nat (length (out_buf st))) - of_nat (n - 1)) st
      in and_then (walk (flip_step w n after) [0..<unat (stage_max st)] st)
           (\<lambda>st. Go (finish_stage w sid (st\<lparr>stage_cur := stage_max st\<rparr>))))"

text \<open>The first stage starts with a clean run.\<close>

definition flip1_stage :: "det_world \<Rightarrow> det_st \<Rightarrow> det_st stage" where
  "flip1_stage w st =
     and_then (run_input w (out_buf st)
                 (st\<lparr>stage_val_type := STAGE_VAL_NONE, new_hit_cnt := dw_hits w (execs st)\<rparr>))
       (\<lambda>st. let cksum = dw_cksum w (execs st)
             in flip_stage w STAGE_FLIP1 1 (collect_token w) (st\<lparr>prev_cksum := cksum, clean_cksum := cksum\<rparr>))"

definition flip8_step :: "det_world \<Rightarrow> nat \<Rightarrow> det_st \<Rightarrow> det_st stage" where
  "flip8_step w cur st =
     at_byte w cur
       (\<lambda>st. let st = st\<lparr>out_buf := poke cur (peek cur (out_buf st) XOR 0xFF :: u8) (out_buf st)\<rparr>
             in and_then (run_input w (out_buf st) st)
                  (\<lambda>st. Go (st\<lparr>out_buf := poke cur (peek cur (out_buf st) XOR 0xFF :: u8) (out_buf st)\<rparr>)))
       (st\<lparr>stage_cur := of_nat cur, stage_cur_byte := of_nat cur\<rparr>)"

definition count_effective :: "det_world \<Rightarrow> det_st \<Rightarrow> det_st" where
  "count_effective w st =
     st\<lparr>blocks_eff_select := blocks_eff_select st
           + of_nat (length (filter (bitmap_read (skip_eff_map w)) [0..<length (out_buf st)])),
        blocks_eff_total := blocks_eff_total st + of_nat (length (out_buf st))\<rparr>"

definition flip8_stage :: "det_world \<Rightarrow> det_st \<Rightarrow> det_st stage" where
  "flip8_stage w st =
     (let st = begin_stage (of_nat (length (out_buf st))) (st\<lparr>prev_cksum := clean_cksum st\<rparr>)
      in and_then (walk (flip8_step w) [0..<unat (stage_max st)] st)
           (\<lambda>st. Go (finish_stage w STAGE_FLIP8 (count_effective w (st\<lparr>stage_cur := stage_max st\<rparr>)))))"

text \<open>Two and four bytes; the all-ones word makes the difference.\<close>

definition flip_word_step :: "det_world \<Rightarrow> 'l::len word \<Rightarrow> nat \<Rightarrow> det_st \<Rightarrow> det_st stage" where
  "flip_word_step w ones i st =
     at_byte w i
       (\<lambda>st. let st = st\<lparr>stage_cur_byte := of_nat i, out_buf := poke i (peek i (out_buf st) XOR ones) (out_buf st)\<rparr>
             in and_then (run_input w (out_buf st) st)
                  (\<lambda>st. Go (st\<lparr>stage_cur := stage_cur st + 1,
                               out_buf := poke i (peek i (out_buf st) XOR ones) (out_buf st)\<rparr>)))
       st"

definition flip16_stage :: "det_world \<Rightarrow> det_st \<Rightarrow> det_st stage" where
  "flip16_stage w st =
     (let len = length (out_buf st)
      in and_then (walk (flip_word_step w (0xFFFF :: u16)) [0..<len - 1] (begin_stage (of_nat len - 1) st))
           (\<lambda>st. Go (finish_stage w STAGE_FLIP16 st)))"

definition flip32_stage :: "det_world \<Rightarrow> det_st \<Rightarrow> det_st stage" where
  "flip32_stage w st =
     (let len = length (out_buf st)
      in and_then (walk (flip_word_step w (0xFFFFFFFF :: u32)) [0..<len - 3] (begin_stage (of_nat len - 3) st))
           (\<lambda>st. Go (finish_stage w STAGE_FLIP32 st)))"

definition bitflip_stages :: "det_world \<Rightarrow> det_st \<Rightarrow> det_st stage" where
  "bitflip_stages w st =
     (let len = length (out_buf st)
      in and_then (flip1_stage w st) (\<lambda>st.
         and_then (flip_stage w STAGE_FLIP2 2 (\<lambda>_. Go) st) (\<lambda>st.
         and_then (flip_stage w STAGE_FLIP4 4 (\<lambda>_. Go) st) (\<lambda>st.
         and_then (flip8_stage w st) (\<lambda>st.
         if len < 2 then Go st
         else and_then (flip16_stage w st) (\<lambda>st.
         if len < 4 then Go st else flip32_stage w st))))))"

section \<open>Additions and subtractions\<close>

text \<open>One attempt: the value is written and run if it is worth it, and only counted off otherwise.\<close>

definition attempt :: "det_world \<Rightarrow> bool \<Rightarrow> u32 \<Rightarrow> nat \<Rightarrow> 'l::len word \<Rightarrow> det_st \<Rightarrow> det_st stage" where
  "attempt w worth val i v st =
     (if worth then
        let st = st\<lparr>stage_cur_val := val, out_buf := poke i v (out_buf st)\<rparr>
        in and_then (run_input w (out_buf st) st) (\<lambda>st. Go (st\<lparr>stage_cur := stage_cur st + 1\<rparr>))
      else Go (st\<lparr>stage_max := stage_max st - 1\<rparr>))"

definition restore :: "nat \<Rightarrow> 'l::len word \<Rightarrow> det_st \<Rightarrow> det_st stage" where
  "restore i orig st = Go (st\<lparr>out_buf := poke i orig (out_buf st)\<rparr>)"

text \<open>The loop body at every byte: its own value is read before the effector map is asked.\<close>

definition value_step :: "det_world \<Rightarrow> ('l::len word \<Rightarrow> nat \<Rightarrow> det_st \<Rightarrow> det_st stage) \<Rightarrow> nat \<Rightarrow> det_st \<Rightarrow> det_st stage" where
  "value_step w body i st =
     (let orig = peek i (out_buf st)
      in at_byte w i (\<lambda>st. body orig i (st\<lparr>stage_cur_byte := of_nat i\<rparr>)) st)"

definition arith8_at :: "det_world \<Rightarrow> u8 \<Rightarrow> nat \<Rightarrow> nat \<Rightarrow> det_st \<Rightarrow> det_st stage" where
  "arith8_at w orig i j st =
     and_then (attempt w (\<not> could_be_bitflip (ucast (orig XOR (orig + of_nat j)))) (of_nat j) i (orig + of_nat j) st) (\<lambda>st.
     and_then (attempt w (\<not> could_be_bitflip (ucast (orig XOR (orig - of_nat j)))) (- of_nat j) i (orig - of_nat j) st)
       (restore i orig))"

definition arith8_stage :: "det_world \<Rightarrow> det_st \<Rightarrow> det_st stage" where
  "arith8_stage w st =
     (let len = length (out_buf st)
      in and_then (walk (value_step w (\<lambda>orig i. walk (arith8_at w orig i) [1..<Suc ARITH_MAX])) [0..<len]
                     (begin_stage (2 * of_nat len * of_nat ARITH_MAX) (st\<lparr>stage_val_type := STAGE_VAL_LE\<rparr>)))
           (\<lambda>st. Go (finish_stage w STAGE_ARITH8 st)))"

definition set_val_type :: "stage_val \<Rightarrow> det_st \<Rightarrow> det_st" where
  "set_val_type v st = st\<lparr>stage_val_type := v\<rparr>"

definition arith16_at :: "det_world \<Rightarrow> u16 \<Rightarrow> nat \<Rightarrow> nat \<Rightarrow> det_st \<Rightarrow> det_st stage" where
  "arith16_at w orig i j st =
     (let d = of_nat j :: u16;
          new1 = orig + d; new2 = orig - d;
          new3 = SWAP16 (SWAP16 orig + d); new4 = SWAP16 (SWAP16 orig - d)
      in and_then (attempt w (unat (orig AND 0xff) + j > 0xff \<and> \<not> could_be_bitflip (ucast (orig XOR new1)))
                     (of_nat j) i new1 (set_val_type STAGE_VAL_LE st)) (\<lambda>st.
         and_then (attempt w (unat (orig AND 0xff) < j \<and> \<not> could_be_bitflip (ucast (orig XOR new2)))
                     (- of_nat j) i new2 st) (\<lambda>st.
         and_then (attempt w (unat (drop_bit 8 orig) + j > 0xff \<and> \<not> could_be_bitflip (ucast (orig XOR new3)))
                     (of_nat j) i new3 (set_val_type STAGE_VAL_BE st)) (\<lambda>st.
         and_then (attempt w (unat (drop_bit 8 orig) < j \<and> \<not> could_be_bitflip (ucast (orig XOR new4)))
                     (- of_nat j) i new4 st)
           (restore i orig)))))"

definition arith16_stage :: "det_world \<Rightarrow> det_st \<Rightarrow> det_st stage" where
  "arith16_stage w st =
     (let len = length (out_buf st)
      in and_then (walk (value_step w (\<lambda>orig i. walk (arith16_at w orig i) [1..<Suc ARITH_MAX])) [0..<len - 1]
                     (begin_stage (4 * (of_nat len - 1) * of_nat ARITH_MAX) st))
           (\<lambda>st. Go (finish_stage w STAGE_ARITH16 st)))"

definition arith32_at :: "det_world \<Rightarrow> u32 \<Rightarrow> nat \<Rightarrow> nat \<Rightarrow> det_st \<Rightarrow> det_st stage" where
  "arith32_at w orig i j st =
     (let d = of_nat j :: u32;
          new1 = orig + d; new2 = orig - d;
          new3 = SWAP32 (SWAP32 orig + d); new4 = SWAP32 (SWAP32 orig - d)
      in and_then (attempt w ((orig AND 0xffff) + d > 0xffff \<and> \<not> could_be_bitflip (orig XOR new1))
                     d i new1 (set_val_type STAGE_VAL_LE st)) (\<lambda>st.
         and_then (attempt w ((orig AND 0xffff) < d \<and> \<not> could_be_bitflip (orig XOR new2)) (- d) i new2 st) (\<lambda>st.
         and_then (attempt w ((SWAP32 orig AND 0xffff) + d > 0xffff \<and> \<not> could_be_bitflip (orig XOR new3))
                     d i new3 (set_val_type STAGE_VAL_BE st)) (\<lambda>st.
         and_then (attempt w ((SWAP32 orig AND 0xffff) < d \<and> \<not> could_be_bitflip (orig XOR new4)) (- d) i new4 st)
           (restore i orig)))))"

definition arith32_stage :: "det_world \<Rightarrow> det_st \<Rightarrow> det_st stage" where
  "arith32_stage w st =
     (let len = length (out_buf st)
      in and_then (walk (value_step w (\<lambda>orig i. walk (arith32_at w orig i) [1..<Suc ARITH_MAX])) [0..<len - 3]
                     (begin_stage (4 * (of_nat len - 3) * of_nat ARITH_MAX) st))
           (\<lambda>st. Go (finish_stage w STAGE_ARITH32 st)))"

definition arith_stages :: "det_world \<Rightarrow> det_st \<Rightarrow> det_st stage" where
  "arith_stages w st =
     (let len = length (out_buf st)
      in if no_arith w then Go st
         else and_then (arith8_stage w st) (\<lambda>st.
              if len < 2 then Go st
              else and_then (arith16_stage w st) (\<lambda>st. if len < 4 then Go st else arith32_stage w st)))"

section \<open>Interesting values\<close>

definition interest8_at :: "det_world \<Rightarrow> u8 \<Rightarrow> nat \<Rightarrow> u8 \<Rightarrow> det_st \<Rightarrow> det_st stage" where
  "interest8_at w orig i v st =
     (if could_be_bitflip (ucast (orig XOR v)) \<or> could_be_arith (ucast orig) (ucast v) 1
      then Go (st\<lparr>stage_max := stage_max st - 1\<rparr>)
      else
        let st = st\<lparr>stage_cur_val := scast v, out_buf := poke i v (out_buf st)\<rparr>
        in and_then (run_input w (out_buf st) st)
             (\<lambda>st. Go (st\<lparr>out_buf := poke i orig (out_buf st), stage_cur := stage_cur st + 1\<rparr>)))"

definition interest8_stage :: "det_world \<Rightarrow> det_st \<Rightarrow> det_st stage" where
  "interest8_stage w st =
     (let len = length (out_buf st)
      in and_then (walk (value_step w (\<lambda>orig i. walk (interest8_at w orig i) interesting_8)) [0..<len]
                     (begin_stage (of_nat len * of_nat (length interesting_8)) (st\<lparr>stage_val_type := STAGE_VAL_LE\<rparr>)))
           (\<lambda>st. Go (finish_stage w STAGE_INTEREST8 st)))"

text \<open>The value type is set only for a value that is run; the buffer is restored behind the values.\<close>

definition attempt_typed :: "det_world \<Rightarrow> bool \<Rightarrow> stage_val \<Rightarrow> u32 \<Rightarrow> nat \<Rightarrow> 'l::len word \<Rightarrow> det_st \<Rightarrow> det_st stage" where
  "attempt_typed w worth ty val i v st =
     attempt w worth val i v (if worth then set_val_type ty st else st)"

definition interest16_at :: "det_world \<Rightarrow> u16 \<Rightarrow> nat \<Rightarrow> u16 \<Rightarrow> det_st \<Rightarrow> det_st stage" where
  "interest16_at w orig i v st =
     (let be = SWAP16 v; st = st\<lparr>stage_cur_val := scast v\<rparr>
      in and_then (attempt_typed w (\<not> could_be_bitflip (ucast (orig XOR v)) \<and> \<not> could_be_arith (ucast orig) (ucast v) 2
                       \<and> \<not> could_be_interest (ucast orig) (ucast v) 2 False) STAGE_VAL_LE (scast v) i v st)
           (attempt_typed w (v \<noteq> be \<and> \<not> could_be_bitflip (ucast (orig XOR be)) \<and> \<not> could_be_arith (ucast orig) (ucast be) 2
                       \<and> \<not> could_be_interest (ucast orig) (ucast be) 2 True) STAGE_VAL_BE (scast v) i be))"

definition interest16_stage :: "det_world \<Rightarrow> det_st \<Rightarrow> det_st stage" where
  "interest16_stage w st =
     (let len = length (out_buf st)
      in and_then (walk (value_step w (\<lambda>orig i st. and_then (walk (interest16_at w orig i) interesting_16 st) (restore i orig)))
                     [0..<len - 1] (begin_stage (2 * (of_nat len - 1) * of_nat (length interesting_16)) st))
           (\<lambda>st. Go (finish_stage w STAGE_INTEREST16 st)))"

definition interest32_at :: "det_world \<Rightarrow> u32 \<Rightarrow> nat \<Rightarrow> u32 \<Rightarrow> det_st \<Rightarrow> det_st stage" where
  "interest32_at w orig i v st =
     (let be = SWAP32 v; st = st\<lparr>stage_cur_val := v\<rparr>
      in and_then (attempt_typed w (\<not> could_be_bitflip (orig XOR v) \<and> \<not> could_be_arith orig v 4
                       \<and> \<not> could_be_interest orig v 4 False) STAGE_VAL_LE v i v st)
           (attempt_typed w (v \<noteq> be \<and> \<not> could_be_bitflip (orig XOR be) \<and> \<not> could_be_arith orig be 4
                       \<and> \<not> could_be_interest orig be 4 True) STAGE_VAL_BE v i be))"

definition interest32_stage :: "det_world \<Rightarrow> det_st \<Rightarrow> det_st stage" where
  "interest32_stage w st =
     (let len = length (out_buf st)
      in and_then (walk (value_step w (\<lambda>orig i st. and_then (walk (interest32_at w orig i) interesting_32 st) (restore i orig)))
                     [0..<len - 3] (begin_stage (2 * (of_nat len - 3) * of_nat (length interesting_32)) st))
           (\<lambda>st. Go (finish_stage w STAGE_INTEREST32 st)))"

definition interest_stages :: "det_world \<Rightarrow> det_st \<Rightarrow> det_st stage" where
  "interest_stages w st =
     (let len = length (out_buf st)
      in and_then (interest8_stage w st) (\<lambda>st.
         if no_arith w \<or> len < 2 then Go st
         else and_then (interest16_stage w st) (\<lambda>st. if len < 4 then Go st else interest32_stage w st)))"

section \<open>Dictionary tokens\<close>

abbreviation (input) MAX_FILE :: nat where "MAX_FILE \<equiv> 1048576"

text \<open>One token written over the buffer; with too many tokens a draw decides whether it is tried.\<close>

definition over_token :: "det_world \<Rightarrow> bool \<Rightarrow> u32 \<Rightarrow> nat \<Rightarrow> bytes \<Rightarrow> det_st \<Rightarrow> det_st stage" where
  "over_token w picky cnt i tok st =
     (case (if picky then map_option (\<lambda>(k, g). (k \<ge> max_det_extras w, st\<lparr>dict_rng := g\<rparr>))
                            (rand_below (dw_urandom w) cnt (dict_rng st))
            else Some (False, st)) of
        None \<Rightarrow> Stuck
      | Some (unlucky, st) \<Rightarrow>
          if unlucky \<or> length tok > length (out_buf st) - i \<or> take (length tok) (drop i (out_buf st)) = tok
          then Go (st\<lparr>stage_max := stage_max st - 1\<rparr>)
          else
            let st = st\<lparr>last_len := length tok, out_buf := overwrite i tok (out_buf st)\<rparr>
            in and_then (run_input w (out_buf st) st) (\<lambda>st. Go (st\<lparr>stage_cur := stage_cur st + 1\<rparr>)))"

definition over_step :: "det_world \<Rightarrow> bool \<Rightarrow> bytes \<Rightarrow> bytes list \<Rightarrow> nat \<Rightarrow> det_st \<Rightarrow> det_st stage" where
  "over_step w picky in_buf toks i st =
     at_byte w i
       (\<lambda>st. and_then (walk (over_token w picky (of_nat (length toks)) i) toks (st\<lparr>stage_cur_byte := of_nat i\<rparr>))
               (\<lambda>st. Go (st\<lparr>out_buf := overwrite i (take (last_len st) (drop i in_buf)) (out_buf st)\<rparr>)))
       (st\<lparr>last_len := 0\<rparr>)"

definition over_stage :: "det_world \<Rightarrow> stage_id \<Rightarrow> bool \<Rightarrow> bytes \<Rightarrow> bytes list \<Rightarrow> det_st \<Rightarrow> det_st stage" where
  "over_stage w sid picky in_buf toks st =
     (let len = length (out_buf st)
      in and_then (walk (over_step w picky in_buf toks) [0..<len]
                     (begin_stage (of_nat (length toks) * of_nat len) (st\<lparr>stage_val_type := STAGE_VAL_NONE\<rparr>)))
           (\<lambda>st. Go (finish_stage w sid st)))"

text \<open>One token inserted: the head of \<open>ex_tmp\<close> is what the earlier positions left there.\<close>

definition insert_token :: "det_world \<Rightarrow> nat \<Rightarrow> bytes \<Rightarrow> det_st \<Rightarrow> det_st stage" where
  "insert_token w i tok st =
     (let len = length (out_buf st)
      in if len + length tok > MAX_FILE then Go (st\<lparr>stage_max := stage_max st - 1\<rparr>)
         else
           let tmp = overwrite (i + length tok) (drop i (out_buf st)) (overwrite i tok (ex_tmp st));
               st = st\<lparr>ex_tmp := tmp\<rparr>
           in and_then (run_input w (take (len + length tok) tmp) st)
                (\<lambda>st. Go (st\<lparr>stage_cur := stage_cur st + 1\<rparr>)))"

text \<open>At the end of the buffer the code copies a byte from behind it, which no later step uses.\<close>

definition insert_step :: "det_world \<Rightarrow> bytes list \<Rightarrow> nat \<Rightarrow> det_st \<Rightarrow> det_st stage" where
  "insert_step w toks i st =
     at_byte w (i mod length (out_buf st))
       (\<lambda>st. and_then (walk (insert_token w i) toks (st\<lparr>stage_cur_byte := of_nat i\<rparr>))
               (\<lambda>st. Go (if i < length (out_buf st) then st\<lparr>ex_tmp := (ex_tmp st)[i := out_buf st ! i]\<rparr> else st)))
       st"

text \<open>\<open>afl_realloc\<close> keeps what the scratch buffer held; bytes it adds are arbitrary.\<close>

definition insert_stage :: "det_world \<Rightarrow> stage_id \<Rightarrow> bytes \<Rightarrow> bytes list \<Rightarrow> det_st \<Rightarrow> det_st stage" where
  "insert_stage w sid fresh toks st =
     (let len = length (out_buf st);
          tmp = take (len + MAX_DICT_FILE) (ex_tmp st @ drop (length (ex_tmp st)) fresh)
      in and_then (walk (insert_step w toks) [0..<Suc len]
                     (begin_stage (of_nat (length toks) * (of_nat len + 1)) (st\<lparr>ex_tmp := tmp\<rparr>)))
           (\<lambda>st. Go (finish_stage w sid st)))"

definition extras_stages :: "det_world \<Rightarrow> bytes \<Rightarrow> bytes \<Rightarrow> det_st \<Rightarrow> det_st stage" where
  "extras_stages w in_buf fresh st =
     and_then (if extras st = [] then Go st
               else and_then (over_stage w STAGE_EXTRAS_UO (of_nat (length (extras st)) > max_det_extras w)
                                in_buf (extras st) st)
                      (\<lambda>st. insert_stage w STAGE_EXTRAS_UI fresh (extras st) st))
       (\<lambda>st. if a_extras st = [] then Go st
             else and_then (over_stage w STAGE_EXTRAS_AO False in_buf
                              (map ae_data (take USE_AUTO_EXTRAS (a_extras st))) st)
                    (\<lambda>st. insert_stage w STAGE_EXTRAS_AI fresh (map ae_data (a_extras st)) st))"

section \<open>All deterministic stages\<close>

text \<open>At the end the entry is marked as done (\<open>mark_as_det_done\<close>).\<close>

definition det_stages :: "det_world \<Rightarrow> bytes \<Rightarrow> bytes \<Rightarrow> det_st \<Rightarrow> det_st stage" where
  "det_stages w in_buf fresh st =
     and_then (bitflip_stages w st) (\<lambda>st.
     and_then (arith_stages w st) (\<lambda>st.
     and_then (interest_stages w st) (\<lambda>st.
     and_then (extras_stages w in_buf fresh st) (\<lambda>st. Go (st\<lparr>det_done := True\<rparr>)))))"

end
