(* ===== verification/Det_Runs.thy ===== *)
theory Det_Runs
  imports Det_Stages
begin

text \<open>
  Which inputs the deterministic stages run. Every stage is described by the list of its inputs:
  a stage that goes on has run exactly that list and left the buffer as it was, one that is left
  early has run a prefix of it.
\<close>

section \<open>What a stage runs\<close>

text \<open>A world that never asks to stop.\<close>

definition quiet :: "det_world \<Rightarrow> bool" where
  "quiet w \<longleftrightarrow> (\<forall>h. \<not> dw_abort w h) \<and> (\<forall>k. \<not> dw_timeout w k)"

text \<open>
  From a state with \<open>P\<close> a step that goes on has run exactly the inputs \<open>L\<close> and established \<open>Q\<close>; one that
  leaves the stages early has run a prefix of \<open>L\<close>, and does not happen in a quiet world. With the
  flag \<open>t\<close> it never waits for a random number.
\<close>

definition emits :: "det_world \<Rightarrow> bool \<Rightarrow> (det_st \<Rightarrow> det_st stage) \<Rightarrow> (det_st \<Rightarrow> bool) \<Rightarrow> (det_st \<Rightarrow> bool) \<Rightarrow> bytes list \<Rightarrow> bool" where
  "emits w t f P Q L \<longleftrightarrow>
     (\<forall>st. P st \<longrightarrow> (case f st of
        Go s \<Rightarrow> Q s \<and> execs s = execs st @ L
      | To_custom s \<Rightarrow> \<not> quiet w \<and> (\<exists>p. prefix p L \<and> execs s = execs st @ p)
      | Abandon s \<Rightarrow> \<not> quiet w \<and> (\<exists>p. prefix p L \<and> execs s = execs st @ p)
      | Stuck \<Rightarrow> \<not> t))"

named_theorems emits_rules \<open>what the parts of a stage run\<close>

lemma emitsI:
  assumes "\<And>st. P st \<Longrightarrow> (case f st of
        Go s \<Rightarrow> Q s \<and> execs s = execs st @ L
      | To_custom s \<Rightarrow> \<not> quiet w \<and> (\<exists>p. prefix p L \<and> execs s = execs st @ p)
      | Abandon s \<Rightarrow> \<not> quiet w \<and> (\<exists>p. prefix p L \<and> execs s = execs st @ p)
      | Stuck \<Rightarrow> \<not> t)"
  shows "emits w t f P Q L"
  using assms by (simp add: emits_def)

lemma emitsD:
  assumes "emits w t f P Q L" "P st"
  shows "f st = Go s \<Longrightarrow> Q s \<and> execs s = execs st @ L"
    and "f st = To_custom s \<Longrightarrow> \<not> quiet w \<and> (\<exists>p. prefix p L \<and> execs s = execs st @ p)"
    and "f st = Abandon s \<Longrightarrow> \<not> quiet w \<and> (\<exists>p. prefix p L \<and> execs s = execs st @ p)"
    and "f st = Stuck \<Longrightarrow> \<not> t"
  using assms unfolding emits_def by force+

lemma emits_and_then:
  assumes f: "emits w t f P Q L" and g: "emits w t g Q R M"
  shows "emits w t (\<lambda>st. and_then (f st) g) P R (L @ M)"
proof (rule emitsI)
  fix st assume P: "P st"
  show "case and_then (f st) g of
        Go s \<Rightarrow> R s \<and> execs s = execs st @ (L @ M)
      | To_custom s \<Rightarrow> \<not> quiet w \<and> (\<exists>p. prefix p (L @ M) \<and> execs s = execs st @ p)
      | Abandon s \<Rightarrow> \<not> quiet w \<and> (\<exists>p. prefix p (L @ M) \<and> execs s = execs st @ p)
      | Stuck \<Rightarrow> \<not> t"
  proof (cases "f st")
    case (Go s)
    with emitsD(1) [OF f P] have s: "Q s" "execs s = execs st @ L" by auto
    show ?thesis
    proof (cases "g s")
      case (To_custom r)
      with emitsD(2) [OF g s(1)] s(2) Go show ?thesis by auto
    next
      case (Abandon r)
      with emitsD(3) [OF g s(1)] s(2) Go show ?thesis by auto
    qed (use emitsD(1,4) [OF g s(1)] s(2) Go in auto)
  next
    case (To_custom s)
    with emitsD(2) [OF f P] show ?thesis by (auto intro: prefix_prefix)
  next
    case (Abandon s)
    with emitsD(3) [OF f P] show ?thesis by (auto intro: prefix_prefix)
  next
    case Stuck
    with emitsD(4) [OF f P] show ?thesis by simp
  qed
qed

lemma walk_Cons: "walk f (x # xs) = (\<lambda>st. and_then (f x st) (walk f xs))"
  by (simp add: fun_eq_iff)

text \<open>A walk over the positions, with an assertion for every position.\<close>

lemma emits_walk_upt:
  assumes "\<And>i. a \<le> i \<Longrightarrow> i < n \<Longrightarrow> emits w t (f i) (P i) (P (Suc i)) (L i)" "a \<le> n"
  shows "emits w t (walk f [a..<n]) (P a) (P n) (concat (map L [a..<n]))"
  using assms
proof (induction "n - a" arbitrary: a)
  case 0
  then show ?case by (simp add: emits_def)
next
  case (Suc k)
  then have e: "[a..<n] = a # [Suc a..<n]" by (simp add: upt_conv_Cons)
  have "emits w t (walk f [Suc a..<n]) (P (Suc a)) (P n) (concat (map L [Suc a..<n]))"
    using Suc by simp
  from emits_and_then [OF Suc.prems(1) this] Suc(2) show ?case
    unfolding e walk_Cons by simp
qed

lemma emits_walk:
  assumes "\<And>x. x \<in> set xs \<Longrightarrow> emits w t (f x) P P (L x)"
  shows "emits w t (walk f xs) P P (concat (map L xs))"
  using assms
proof (induction xs)
  case Nil
  then show ?case by (simp add: emits_def)
next
  case (Cons x xs)
  with emits_and_then [of w t "f x" P P "L x" "walk f xs" P] show ?case
    unfolding walk_Cons by simp
qed

lemma emits_conseq:
  assumes "emits w t f P Q L" "\<And>st. P' st \<Longrightarrow> P st" "\<And>st. Q st \<Longrightarrow> Q' st" "L = L'"
  shows "emits w t f P' Q' L'"
  using assms unfolding emits_def by (auto split: stage.splits) blast+

text \<open>Changes of the state that run nothing, behind a step and before it.\<close>

lemma emits_Go:
  assumes "\<And>st. P st \<Longrightarrow> Q (h st) \<and> execs (h st) = execs st"
  shows "emits w t (\<lambda>st. Go (h st)) P Q []"
  using assms by (simp add: emits_def)

lemma emits_before:
  assumes "emits w t f Q R L" "\<And>st. P st \<Longrightarrow> Q (h st) \<and> execs (h st) = execs st"
  shows "emits w t (\<lambda>st. f (h st)) P R L"
proof (rule emitsI)
  fix st assume "P st"
  with assms(2) have "Q (h st)" "execs (h st) = execs st" by blast+
  with assms(1) [unfolded emits_def, rule_format, of "h st"]
  show "case f (h st) of
        Go s \<Rightarrow> R s \<and> execs s = execs st @ L
      | To_custom s \<Rightarrow> \<not> quiet w \<and> (\<exists>p. prefix p L \<and> execs s = execs st @ p)
      | Abandon s \<Rightarrow> \<not> quiet w \<and> (\<exists>p. prefix p L \<and> execs s = execs st @ p)
      | Stuck \<Rightarrow> \<not> t" by (cases "f (h st)") simp_all
qed

lemma emits_run:
  assumes "\<And>st. P st \<Longrightarrow> g st = buf" "\<And>st h. P st \<Longrightarrow> P (st\<lparr>execs := h\<rparr>)"
  shows "emits w t (\<lambda>st. run_input w (g st) st) P P [buf]"
  using assms by (auto simp: emits_def run_input_def Let_def quiet_def)

lemma emits_at_byte:
  assumes "emits w t body P Q L" "\<And>st k. P st \<Longrightarrow> P (st\<lparr>det_checks := k\<rparr>)" "\<And>st. P st \<Longrightarrow> Q st"
  shows "emits w t (at_byte w i body) P Q (if bitmap_read (skip_eff_map w) i then L else [])"
proof (rule emitsI)
  fix st assume P: "P st"
  let ?s = "st\<lparr>det_checks := det_checks st + 1\<rparr>"
  have "P ?s" using assms(2) P by blast
  note D = emitsD [OF assms(1) this]
  show "case at_byte w i body st of
        Go s \<Rightarrow> Q s \<and> execs s = execs st @ (if bitmap_read (skip_eff_map w) i then L else [])
      | To_custom s \<Rightarrow> \<not> quiet w \<and> (\<exists>p. prefix p (if bitmap_read (skip_eff_map w) i then L else []) \<and> execs s = execs st @ p)
      | Abandon s \<Rightarrow> \<not> quiet w \<and> (\<exists>p. prefix p (if bitmap_read (skip_eff_map w) i then L else []) \<and> execs s = execs st @ p)
      | Stuck \<Rightarrow> \<not> t"
  proof (cases "bitmap_read (skip_eff_map w) i \<and> \<not> dw_timeout w (det_checks st)")
    case True
    then have e: "at_byte w i body st = body ?s" by (simp add: at_byte_def Let_def)
    show ?thesis
      by (cases "body ?s") (use e D True in auto)
  next
    case False
    then show ?thesis using P assms(3) by (auto simp: at_byte_def Let_def quiet_def)
  qed
qed

text \<open>The buffer is one of \<open>B\<close>; of the dictionaries \<open>J\<close> holds.\<close>

definition buf_in :: "bytes set \<Rightarrow> (bytes list \<Rightarrow> auto_extra list \<Rightarrow> bool) \<Rightarrow> det_st \<Rightarrow> bool" where
  "buf_in B J st \<longleftrightarrow> out_buf st \<in> B \<and> J (extras st) (a_extras st)"

lemma buf_in_upd [simp]:
  "buf_in B J (st\<lparr>execs := h\<rparr>) = buf_in B J st" "buf_in B J (st\<lparr>det_checks := k\<rparr>) = buf_in B J st"
  "buf_in B J (st\<lparr>stage_cur := c\<rparr>) = buf_in B J st" "buf_in B J (st\<lparr>stage_max := c\<rparr>) = buf_in B J st"
  "buf_in B J (st\<lparr>stage_cur_byte := c\<rparr>) = buf_in B J st" "buf_in B J (st\<lparr>stage_cur_val := c\<rparr>) = buf_in B J st"
  "buf_in B J (st\<lparr>stage_val_type := v\<rparr>) = buf_in B J st" "buf_in B J (st\<lparr>last_len := n\<rparr>) = buf_in B J st"
  "buf_in B J (st\<lparr>prev_cksum := x\<rparr>) = buf_in B J st" "buf_in B J (st\<lparr>clean_cksum := x\<rparr>) = buf_in B J st"
  "buf_in B J (st\<lparr>new_hit_cnt := x\<rparr>) = buf_in B J st" "buf_in B J (st\<lparr>ex_tmp := b\<rparr>) = buf_in B J st"
  "buf_in B J (st\<lparr>out_buf := b\<rparr>) \<longleftrightarrow> b \<in> B \<and> J (extras st) (a_extras st)"
  "buf_in B J (begin_stage c st) = buf_in B J st" "buf_in B J (finish_stage w sid st) = buf_in B J st"
  "buf_in B J (set_val_type v st) = buf_in B J st" "buf_in B J (count_effective w st) = buf_in B J st"
  by (simp_all add: buf_in_def begin_stage_def finish_stage_def Let_def set_val_type_def count_effective_def)

lemma execs_upd [simp]:
  "execs (begin_stage c st) = execs st" "execs (finish_stage w sid st) = execs st"
  "execs (set_val_type v st) = execs st" "execs (count_effective w st) = execs st"
  by (simp_all add: begin_stage_def finish_stage_def Let_def set_val_type_def count_effective_def)

section \<open>Bytes and words written into a buffer\<close>

lemma length_overwrite [simp]: "i + length bs \<le> length buf \<Longrightarrow> length (overwrite i bs buf) = length buf"
  by (simp add: overwrite_def)

lemma nth_overwrite:
  "i + length bs \<le> length buf \<Longrightarrow> p < length buf \<Longrightarrow>
    overwrite i bs buf ! p = (if i \<le> p \<and> p < i + length bs then bs ! (p - i) else buf ! p)"
  by (auto simp: overwrite_def nth_append min_def)

lemma overwrite_overwrite:
  assumes "length as \<le> length bs" "i + length bs \<le> length buf"
  shows "overwrite i bs (overwrite i as buf) = overwrite i bs buf"
  using assms by (intro nth_equalityI) (auto simp: nth_overwrite)

lemma overwrite_same:
  "n \<le> length buf - i \<Longrightarrow> i \<le> length buf \<Longrightarrow> overwrite i (take n (drop i buf)) buf = buf"
  by (intro nth_equalityI) (auto simp: nth_overwrite)

text \<open>Word types of whole bytes.\<close>

definition byte_sized :: "'l::len itself \<Rightarrow> bool" where
  "byte_sized T \<longleftrightarrow> 8 dvd LENGTH('l)"

lemma byte_sized_words [simp]:
  "byte_sized TYPE(8)" "byte_sized TYPE(16)" "byte_sized TYPE(32)"
  by (simp_all add: byte_sized_def)

lemma length_poke [simp]:
  "i + LENGTH('l::len) div 8 \<le> length buf \<Longrightarrow> length (poke i (v :: 'l word) buf) = length buf"
  by (simp add: poke_def)

lemma poke_poke [simp]:
  "i + LENGTH('l::len) div 8 \<le> length buf \<Longrightarrow> poke i (v :: 'l word) (poke i (u :: 'l word) buf) = poke i v buf"
  by (simp add: poke_def overwrite_overwrite)

lemma peek_poke [simp]:
  assumes "byte_sized TYPE('l::len)" "i + LENGTH('l) div 8 \<le> length buf"
  shows "peek i (poke i (v :: 'l word) buf) = v"
proof -
  have "take (LENGTH('l) div 8) (drop i (poke i v buf)) = to_bytes (LENGTH('l) div 8) v"
    using assms(2) by (simp add: poke_def overwrite_def)
  then show ?thesis
    using assms(1) unfolding peek_def by (simp add: of_bytes_to_bytes byte_sized_def)
qed

lemma poke_peek [simp]:
  assumes "byte_sized TYPE('l::len)" "i + LENGTH('l) div 8 \<le> length buf"
  shows "poke i (peek i buf :: 'l word) buf = buf"
proof -
  have "length (take (LENGTH('l) div 8) (drop i buf)) = LENGTH('l) div 8" using assms(2) by simp
  then have "to_bytes (LENGTH('l) div 8) (peek i buf :: 'l word) = take (LENGTH('l) div 8) (drop i buf)"
    using assms(1) unfolding peek_def by (intro to_bytes_of_bytes) (auto simp: byte_sized_def)
  then show ?thesis using assms(2) by (simp add: poke_def overwrite_same)
qed

lemma peek_u8 [simp]: "i < length buf \<Longrightarrow> (peek i buf :: u8) = buf ! i"
  by (simp add: peek_def Cons_nth_drop_Suc [symmetric])

lemma poke_u8 [simp]: "i < length buf \<Longrightarrow> poke i (v :: u8) buf = buf[i := v]"
  by (simp add: poke_def overwrite_def to_bytes_def byte_at_def upd_conv_take_nth_drop)

section \<open>Flipped bits\<close>

lemma length_FLIP_BIT [simp]: "length (FLIP_BIT b buf) = length buf"
  by (simp add: FLIP_BIT_def)

lemma FLIP_BIT_twice [simp]: "FLIP_BIT b (FLIP_BIT b buf) = buf"
  by (cases "b div 8 < length buf") (simp_all add: FLIP_BIT_def xor.assoc list_update_beyond not_less)

lemma FLIP_BIT_commute: "FLIP_BIT a (FLIP_BIT b buf) = FLIP_BIT b (FLIP_BIT a buf)"
proof (cases "a div 8 = b div 8")
  case True
  then show ?thesis
    by (cases "b div 8 < length buf") (simp_all add: FLIP_BIT_def ac_simps list_update_beyond not_less)
next
  case False
  then show ?thesis by (simp add: FLIP_BIT_def list_update_swap)
qed

lemma flip_bits_0 [simp]: "flip_bits 0 b buf = buf"
  by (simp add: flip_bits_def)

lemma flip_bits_Suc [simp]: "flip_bits (Suc n) b buf = FLIP_BIT (b + n) (flip_bits n b buf)"
  by (simp add: flip_bits_def)

lemma length_flip_bits [simp]: "length (flip_bits n b buf) = length buf"
  by (induction n) simp_all

lemma flip_bits_FLIP_BIT: "flip_bits n b (FLIP_BIT a buf) = FLIP_BIT a (flip_bits n b buf)"
  by (induction n) (simp_all add: FLIP_BIT_commute)

lemma flip_bits_twice [simp]: "flip_bits n b (flip_bits n b buf) = buf"
  by (induction n) (simp_all add: flip_bits_FLIP_BIT)

section \<open>What the flipping stages run\<close>

lemma emits_flip_step:
  assumes "emits w t (after cur) (buf_in {b} J) (buf_in {b} J') []" "\<And>xs as. J xs as \<Longrightarrow> J' xs as"
  shows "emits w t (flip_step w n after cur) (buf_in {b} J) (buf_in {b} J')
    (if bitmap_read (skip_eff_map w) (cur div 8) then [flip_bits n cur b] else [])"
proof -
  let ?f = "flip_bits n cur"
  have "emits w t (\<lambda>st. and_then (run_input w (out_buf st) st) (\<lambda>st. after cur (st\<lparr>out_buf := ?f (out_buf st)\<rparr>)))
      (buf_in {?f b} J) (buf_in {b} J') ([?f b] @ [])"
    by (rule emits_and_then [OF emits_run emits_before [OF assms(1)]]) (auto simp: buf_in_def)
  from emits_before [OF this, of "buf_in {b} J" "\<lambda>st. st\<lparr>out_buf := ?f (out_buf st)\<rparr>"]
  have "emits w t (\<lambda>st. let st = st\<lparr>out_buf := ?f (out_buf st)\<rparr>
      in and_then (run_input w (out_buf st) st) (\<lambda>st. after cur (st\<lparr>out_buf := ?f (out_buf st)\<rparr>)))
      (buf_in {b} J) (buf_in {b} J') [?f b]"
    by (simp add: buf_in_def)
  note A = emits_at_byte [OF this]
  show ?thesis
    unfolding flip_step_def by (rule emits_before [OF A]) (simp_all add: assms(2) buf_in_def)
qed

text \<open>The inputs of a flipping stage: every position whose byte is effective.\<close>

definition flipped_inputs :: "bytes \<Rightarrow> nat \<Rightarrow> bytes \<Rightarrow> bytes list" where
  "flipped_inputs eff n b =
     concat (map (\<lambda>c. if bitmap_read eff (c div 8) then [flip_bits n c b] else []) [0..<8 * length b - (n - 1)])"

definition flipped_words :: "bytes \<Rightarrow> 'l::len word \<Rightarrow> bytes \<Rightarrow> bytes list" where
  "flipped_words eff ones b =
     concat (map (\<lambda>i. if bitmap_read eff i then [poke i (peek i b XOR ones) b] else [])
       [0..<Suc (length b) - LENGTH('l) div 8])"

definition bitflip_inputs :: "bytes \<Rightarrow> bytes \<Rightarrow> bytes list" where
  "bitflip_inputs eff b =
     b # flipped_inputs eff 1 b @ flipped_inputs eff 2 b @ flipped_inputs eff 4 b @ flipped_words eff (0xFF :: u8) b
       @ (if length b < 2 then [] else flipped_words eff (0xFFFF :: u16) b)
       @ (if length b < 4 then [] else flipped_words eff (0xFFFFFFFF :: u32) b)"

text \<open>A seed: not empty and at most \<open>MAX_FILE\<close> bytes.\<close>

definition seed_ok :: "bytes \<Rightarrow> bool" where
  "seed_ok b \<longleftrightarrow> b \<noteq> [] \<and> length b \<le> MAX_FILE"

lemma flip_count:
  assumes "seed_ok b" "1 \<le> n" "n \<le> 4"
  shows "unat (push_bit 3 (of_nat (length b)) - of_nat (n - 1) :: u32) = 8 * length b - (n - 1)"
proof -
  have l: "1 \<le> length b" "length b \<le> 1048576" using assms(1) by (auto simp: seed_ok_def Suc_le_eq)
  have "push_bit 3 (of_nat (length b)) - of_nat (n - 1) = (of_nat (8 * length b - (n - 1)) :: u32)"
    using l assms by (simp add: push_bit_eq_mult of_nat_diff)
  moreover have "8 * length b - (n - 1) < 2 ^ 32" using l by simp
  ultimately show ?thesis by (simp only: unat_of_nat take_bit_nat_eq_self flip: take_bit_eq_mod) (simp add: take_bit_nat_eq_self)
qed

lemma emits_flip_stage:
  assumes "seed_ok b" "1 \<le> n" "n \<le> 4"
    and "\<And>c. c < 8 * length b \<Longrightarrow> emits w t (after c) (buf_in {b} (J c)) (buf_in {b} (J (Suc c))) []"
    and "\<And>c xs as. J c xs as \<Longrightarrow> J (Suc c) xs as"
  shows "emits w t (flip_stage w sid n after) (buf_in {b} (J 0)) (buf_in {b} (J (8 * length b - (n - 1))))
    (flipped_inputs (skip_eff_map w) n b)"
proof -
  let ?N = "8 * length b - (n - 1)" and ?M = "push_bit 3 (of_nat (length b)) - of_nat (n - 1) :: u32"
  have "emits w t (walk (flip_step w n after) [0..<?N]) (buf_in {b} (J 0)) (buf_in {b} (J ?N))
      (flipped_inputs (skip_eff_map w) n b)"
    unfolding flipped_inputs_def
  proof (rule emits_walk_upt [where P = "\<lambda>c. buf_in {b} (J c)"])
    fix c assume "c < ?N"
    with assms(4,5) show "emits w t (flip_step w n after c) (buf_in {b} (J c)) (buf_in {b} (J (Suc c)))
        (if bitmap_read (skip_eff_map w) (c div 8) then [flip_bits n c b] else [])"
      by (intro emits_flip_step) auto
  qed simp
  from emits_and_then [OF this emits_Go, of "buf_in {b} (J ?N)" "\<lambda>st. finish_stage w sid (st\<lparr>stage_cur := stage_max st\<rparr>)"]
  have "emits w t (\<lambda>st. and_then (walk (flip_step w n after) [0..<?N] st)
        (\<lambda>st. Go (finish_stage w sid (st\<lparr>stage_cur := stage_max st\<rparr>))))
      (buf_in {b} (J 0)) (buf_in {b} (J ?N)) (flipped_inputs (skip_eff_map w) n b)" by simp
  from emits_before [OF this, of "buf_in {b} (J 0)" "begin_stage ?M"]
  have main: "emits w t (\<lambda>st. and_then (walk (flip_step w n after) [0..<?N] (begin_stage ?M st))
        (\<lambda>st. Go (finish_stage w sid (st\<lparr>stage_cur := stage_max st\<rparr>))))
      (buf_in {b} (J 0)) (buf_in {b} (J ?N)) (flipped_inputs (skip_eff_map w) n b)" by simp
  have same: "flip_stage w sid n after st =
      and_then (walk (flip_step w n after) [0..<?N] (begin_stage ?M st))
        (\<lambda>st. Go (finish_stage w sid (st\<lparr>stage_cur := stage_max st\<rparr>)))" if "buf_in {b} (J 0) st" for st
    using that flip_count [OF assms(1-3)]
    by (simp add: flip_stage_def Let_def buf_in_def begin_stage_def)
  show ?thesis
    using main unfolding emits_def by (simp add: same)
qed

text \<open>Collecting tokens needs room for at most one token per position.\<close>

definition room :: "bool \<Rightarrow> bytes list \<Rightarrow> nat \<Rightarrow> bytes list \<Rightarrow> auto_extra list \<Rightarrow> bool" where
  "room t xs0 k xs as \<longleftrightarrow> xs = xs0 \<and> (t \<longrightarrow> length as + k \<le> MAX_AUTO_EXTRAS)"

lemma room_mono: "room t xs0 k xs as \<Longrightarrow> j \<le> k \<Longrightarrow> room t xs0 j xs as"
  by (auto simp: room_def)

lemma emits_offer:
  assumes "qsort_ok (dw_qsort w)" "k < k'"
  shows "emits w t (offer_token w) (buf_in B (room t xs k')) (buf_in B (room t xs k)) []"
proof (rule emitsI)
  fix st assume P: "buf_in B (room t xs k') st"
  show "case offer_token w st of
        Go s \<Rightarrow> buf_in B (room t xs k) s \<and> execs s = execs st @ []
      | To_custom s \<Rightarrow> \<not> quiet w \<and> (\<exists>p. prefix p [] \<and> execs s = execs st @ p)
      | Abandon s \<Rightarrow> \<not> quiet w \<and> (\<exists>p. prefix p [] \<and> execs s = execs st @ p)
      | Stuck \<Rightarrow> \<not> t"
  proof (cases "maybe_add_auto (dw_urandom w) (dw_qsort w) (take (unat (a_len st)) (a_collect st)) st")
    case None
    then have "\<not> length (a_extras st) < MAX_AUTO_EXTRAS" using maybe_add_auto_returns by blast
    then have "\<not> t" using P assms(2) by (auto simp: buf_in_def room_def)
    with None P assms(2) show ?thesis by (auto simp: offer_token_def buf_in_def room_def)
  next
    case (Some s)
    obtain ch as g where "s = st\<lparr>auto_changed := ch, a_extras := as, dict_rng := g\<rparr>"
      "length as \<le> Suc (length (a_extras st))"
      using maybe_add_auto_frame [OF Some assms(1)] by blast
    with Some P assms(2) show ?thesis by (auto simp: offer_token_def buf_in_def room_def)
  qed
qed

lemma grab_byte_simps [simp]:
  "buf_in B J (grab_byte cur st) = buf_in B J st" "execs (grab_byte cur st) = execs st"
  by (simp_all add: grab_byte_def buf_in_def)

lemma emits_collect_token:
  assumes q: "qsort_ok (dw_qsort w)" and k: "k < k'"
  shows "emits w t (collect_token w cur) (buf_in B (room t xs k')) (buf_in B (room t xs k)) []"
proof -
  let ?P = "buf_in B (room t xs k')" and ?Q = "buf_in B (room t xs k)"
  have PQ: "?Q st" if "?P st" for st using that k by (auto simp: buf_in_def room_def)
  note offer = emits_offer [OF q k, of t B xs]
  have last: "emits w t (\<lambda>st. Go (if c \<noteq> clean_cksum st then grab_byte cur st else st)) ?Q ?Q []" for c
    by (rule emits_Go) simp
  have offered: "emits w t (\<lambda>st. and_then (offer_token w st) (\<lambda>st. Go (st\<lparr>a_len := 0, prev_cksum := c\<rparr>))) ?P ?Q ([] @ [])" for c
    by (rule emits_and_then [OF offer emits_Go]) (simp add: buf_in_def)
  have one: "emits w t (\<lambda>st. and_then (and_then (offer_token w st) (\<lambda>st. Go (st\<lparr>a_len := 0, prev_cksum := c\<rparr>)))
      (\<lambda>st. Go (if c \<noteq> clean_cksum st then grab_byte cur st else st))) ?P ?Q (([] @ []) @ [])" for c
    by (rule emits_and_then [OF offered last])
  have two: "emits w t (\<lambda>st. and_then (offer_token w (grab_byte cur st))
      (\<lambda>st. Go (if c \<noteq> clean_cksum st then grab_byte cur st else st))) ?P ?Q ([] @ [])" for c
    by (rule emits_and_then [OF emits_before [OF offer] last]) simp
  show ?thesis
  proof (rule emitsI)
    fix st assume P: "?P st"
    let ?c = "dw_cksum w (execs st)"
    let ?last = "of_nat cur = stage_max st - 1 \<and> ?c = prev_cksum st"
    show "case collect_token w cur st of
        Go s \<Rightarrow> ?Q s \<and> execs s = execs st @ []
      | To_custom s \<Rightarrow> \<not> quiet w \<and> (\<exists>p. prefix p [] \<and> execs s = execs st @ p)
      | Abandon s \<Rightarrow> \<not> quiet w \<and> (\<exists>p. prefix p [] \<and> execs s = execs st @ p)
      | Stuck \<Rightarrow> \<not> t"
    proof (cases "dw_non_instrumented w \<or> cur mod 8 \<noteq> 7")
      case True
      then show ?thesis using PQ [OF P] by (simp add: collect_token_def)
    next
      case collecting: False
      show ?thesis
      proof (cases ?last)
        case True
        then have "collect_token w cur st = and_then (offer_token w (grab_byte cur st))
            (\<lambda>st. Go (if ?c \<noteq> clean_cksum st then grab_byte cur st else st))"
          using collecting by (simp add: collect_token_def Let_def)
        then show ?thesis using two [of ?c, unfolded emits_def append_Nil, rule_format, OF P] by simp
      next
        case not_last: False
        show ?thesis
        proof (cases "?c = prev_cksum st")
          case True
          then show ?thesis using collecting not_last PQ [OF P] by (auto simp: collect_token_def Let_def)
        next
          case False
          then have "collect_token w cur st =
              and_then (and_then (offer_token w st) (\<lambda>st. Go (st\<lparr>a_len := 0, prev_cksum := ?c\<rparr>)))
                (\<lambda>st. Go (if ?c \<noteq> clean_cksum st then grab_byte cur st else st))"
            using collecting not_last by (simp add: collect_token_def Let_def)
          then show ?thesis using one [of ?c, unfolded emits_def append_Nil, rule_format, OF P] by simp
        qed
      qed
    qed
  qed
qed

text \<open>A byte or word flipped at every effective position.\<close>

lemma emits_flip_word_body:
  fixes ones :: "'l::len word"
  assumes "byte_sized TYPE('l)" "i + LENGTH('l) div 8 \<le> length b"
    and h: "\<And>st. out_buf (h st) = poke i (peek i (out_buf st) XOR ones) (out_buf st) \<and> execs (h st) = execs st
              \<and> extras (h st) = extras st \<and> a_extras (h st) = a_extras st"
    and h': "\<And>st. out_buf (h' st) = poke i (peek i (out_buf st) XOR ones) (out_buf st) \<and> execs (h' st) = execs st
              \<and> extras (h' st) = extras st \<and> a_extras (h' st) = a_extras st"
  shows "emits w t (\<lambda>st. let st = h st in and_then (run_input w (out_buf st) st) (\<lambda>st. Go (h' st)))
    (buf_in {b} J) (buf_in {b} J) [poke i (peek i b XOR ones) b]"
proof -
  let ?b = "poke i (peek i b XOR ones) b"
  have "poke i (peek i ?b XOR ones) ?b = b"
    using assms(1,2) by (simp add: xor.assoc)
  then have "emits w t (\<lambda>st. and_then (run_input w (out_buf st) st) (\<lambda>st. Go (h' st)))
      (buf_in {?b} J) (buf_in {b} J) ([?b] @ [])"
    using h' by (intro emits_and_then [OF emits_run emits_Go]) (auto simp: buf_in_def)
  from emits_before [OF this, of "buf_in {b} J" h] h show ?thesis by (simp add: buf_in_def Let_def)
qed

lemma emits_flip_words:
  fixes ones :: "'l::len word"
  assumes "byte_sized TYPE('l)" "8 \<le> LENGTH('l)"
    and "\<And>i. i < n \<Longrightarrow> emits w t (step i) (buf_in {b} J) (buf_in {b} J)
          (if bitmap_read (skip_eff_map w) i then [poke i (peek i b XOR ones) b] else [])"
    and "n = Suc (length b) - LENGTH('l) div 8"
  shows "emits w t (walk step [0..<n]) (buf_in {b} J) (buf_in {b} J) (flipped_words (skip_eff_map w) ones b)"
  unfolding flipped_words_def assms(4) [symmetric] by (rule emits_walk) (use assms(3) in auto)

lemma emits_flip8_step:
  assumes "cur < length b"
  shows "emits w t (flip8_step w cur) (buf_in {b} J) (buf_in {b} J)
    (if bitmap_read (skip_eff_map w) cur then [poke cur (peek cur b XOR (0xFF :: u8)) b] else [])"
proof -
  note A = emits_at_byte [OF emits_flip_word_body [where ones = "0xFF :: u8" and b = b and i = cur
        and h = "\<lambda>st. st\<lparr>out_buf := poke cur (peek cur (out_buf st) XOR 0xFF :: u8) (out_buf st)\<rparr>"
        and h' = "\<lambda>st. st\<lparr>out_buf := poke cur (peek cur (out_buf st) XOR 0xFF :: u8) (out_buf st)\<rparr>"
        and w = w and t = t and J = J]]
  show ?thesis
    unfolding flip8_step_def using assms by (intro emits_before [OF A]) auto
qed

lemma emits_flip_word_step:
  fixes ones :: "'l::len word"
  assumes "byte_sized TYPE('l)" "i + LENGTH('l) div 8 \<le> length b"
  shows "emits w t (flip_word_step w ones i) (buf_in {b} J) (buf_in {b} J)
    (if bitmap_read (skip_eff_map w) i then [poke i (peek i b XOR ones) b] else [])"
  unfolding flip_word_step_def
  by (rule emits_at_byte [OF emits_flip_word_body [OF assms]]) auto

text \<open>A stage around a walk.\<close>

lemma emits_stage:
  assumes "emits w t (walk step xs) (buf_in {b} J) (buf_in {b} J) L"
    and "\<And>st. buf_in {b} J st \<Longrightarrow> buf_in {b} J (h st) \<and> execs (h st) = execs st"
    and "\<And>st. buf_in {b} J st \<Longrightarrow> buf_in {b} J (h' st) \<and> execs (h' st) = execs st"
    and "\<And>st. buf_in {b} J st \<Longrightarrow> stage st = and_then (walk step xs (h st)) (\<lambda>st. Go (h' st))"
  shows "emits w t stage (buf_in {b} J) (buf_in {b} J) L"
proof -
  have "emits w t (\<lambda>st. and_then (walk step xs st) (\<lambda>st. Go (h' st))) (buf_in {b} J) (buf_in {b} J) (L @ [])"
    using assms(3) by (intro emits_and_then [OF assms(1) emits_Go]) auto
  from emits_before [OF this assms(2)]
  have "emits w t (\<lambda>st. and_then (walk step xs (h st)) (\<lambda>st. Go (h' st))) (buf_in {b} J) (buf_in {b} J) L"
    by simp
  then show ?thesis unfolding emits_def by (simp add: assms(4))
qed

lemma seed_length:
  "seed_ok b \<Longrightarrow> unat (of_nat (length b) :: u32) = length b"
  by (simp add: seed_ok_def unat_of_nat take_bit_nat_eq_self)

lemma emits_flip8_stage:
  assumes "seed_ok b"
  shows "emits w t (flip8_stage w) (buf_in {b} J) (buf_in {b} J) (flipped_words (skip_eff_map w) (0xFF :: u8) b)"
proof (rule emits_stage)
  show "emits w t (walk (flip8_step w) [0..<length b]) (buf_in {b} J) (buf_in {b} J)
      (flipped_words (skip_eff_map w) (0xFF :: u8) b)"
    by (rule emits_flip_words [OF _ _ emits_flip8_step]) auto
next
  fix st assume "buf_in {b} J st"
  then show "flip8_stage w st = and_then (walk (flip8_step w) [0..<length b]
        (begin_stage (of_nat (length b)) (st\<lparr>prev_cksum := clean_cksum st\<rparr>)))
      (\<lambda>st. Go (finish_stage w STAGE_FLIP8 (count_effective w (st\<lparr>stage_cur := stage_max st\<rparr>))))"
    using seed_length [OF assms]
    by (simp add: flip8_stage_def Let_def buf_in_def begin_stage_def)
qed auto

lemma emits_flip16_stage:
  "emits w t (flip16_stage w) (buf_in {b} J) (buf_in {b} J) (flipped_words (skip_eff_map w) (0xFFFF :: u16) b)"
proof (rule emits_stage)
  show "emits w t (walk (flip_word_step w (0xFFFF :: u16)) [0..<length b - 1]) (buf_in {b} J) (buf_in {b} J)
      (flipped_words (skip_eff_map w) (0xFFFF :: u16) b)"
    by (rule emits_flip_words [OF _ _ emits_flip_word_step]) auto
next
  fix st assume "buf_in {b} J st"
  then show "flip16_stage w st = and_then (walk (flip_word_step w (0xFFFF :: u16)) [0..<length b - 1]
        (begin_stage (of_nat (length b) - 1) st)) (\<lambda>st. Go (finish_stage w STAGE_FLIP16 st))"
    by (simp add: flip16_stage_def buf_in_def Let_def)
qed auto

lemma emits_flip32_stage:
  "emits w t (flip32_stage w) (buf_in {b} J) (buf_in {b} J) (flipped_words (skip_eff_map w) (0xFFFFFFFF :: u32) b)"
proof (rule emits_stage)
  show "emits w t (walk (flip_word_step w (0xFFFFFFFF :: u32)) [0..<length b - 3]) (buf_in {b} J) (buf_in {b} J)
      (flipped_words (skip_eff_map w) (0xFFFFFFFF :: u32) b)"
    by (rule emits_flip_words [OF _ _ emits_flip_word_step]) auto
next
  fix st assume "buf_in {b} J st"
  then show "flip32_stage w st = and_then (walk (flip_word_step w (0xFFFFFFFF :: u32)) [0..<length b - 3]
        (begin_stage (of_nat (length b) - 3) st)) (\<lambda>st. Go (finish_stage w STAGE_FLIP32 st))"
    by (simp add: flip32_stage_def buf_in_def Let_def)
qed auto

lemma emits_flip1_stage:
  assumes "seed_ok b" "qsort_ok (dw_qsort w)"
  shows "emits w t (flip1_stage w) (buf_in {b} (room t xs (8 * length b))) (buf_in {b} (room t xs 0))
    (b # flipped_inputs (skip_eff_map w) 1 b)"
proof -
  let ?J = "\<lambda>c. room t xs (8 * length b - c)"
  have st: "emits w t (flip_stage w STAGE_FLIP1 1 (collect_token w)) (buf_in {b} (?J 0)) (buf_in {b} (?J (8 * length b)))
      (flipped_inputs (skip_eff_map w) 1 b)"
    using emits_flip_stage [OF assms(1), of 1 w t "collect_token w" ?J]
    by (simp add: emits_collect_token [OF assms(2)] room_mono diff_less_mono2)
  have run: "emits w t (\<lambda>st. run_input w (out_buf st) (h st)) (buf_in {b} (?J 0)) (buf_in {b} (?J 0)) [b]"
    if "\<And>st. out_buf (h st) = out_buf st \<and> execs (h st) = execs st \<and> extras (h st) = extras st
          \<and> a_extras (h st) = a_extras st" for h
    using that by (auto simp: emits_def run_input_def Let_def quiet_def buf_in_def)
  have "emits w t (\<lambda>st. let cksum = dw_cksum w (execs st)
        in flip_stage w STAGE_FLIP1 1 (collect_token w) (st\<lparr>prev_cksum := cksum, clean_cksum := cksum\<rparr>))
      (buf_in {b} (?J 0)) (buf_in {b} (?J (8 * length b))) (flipped_inputs (skip_eff_map w) 1 b)"
    unfolding Let_def
    by (rule emits_before [OF st, where h = "\<lambda>st. st\<lparr>prev_cksum := dw_cksum w (execs st), clean_cksum := dw_cksum w (execs st)\<rparr>"]) simp
  note e = emits_and_then [OF run this]
  have "flip1_stage w = (\<lambda>st. and_then (run_input w (out_buf st)
        (st\<lparr>stage_val_type := STAGE_VAL_NONE, new_hit_cnt := dw_hits w (execs st)\<rparr>))
      (\<lambda>st. let cksum = dw_cksum w (execs st)
            in flip_stage w STAGE_FLIP1 1 (collect_token w) (st\<lparr>prev_cksum := cksum, clean_cksum := cksum\<rparr>)))"
    by (simp add: flip1_stage_def fun_eq_iff)
  then show ?thesis by (simp only:) (rule emits_conseq [OF e], simp_all)
qed

lemma emits_if:
  assumes "c \<Longrightarrow> emits w t f P Q L" "\<not> c \<Longrightarrow> emits w t g P Q M"
  shows "emits w t (\<lambda>st. if c then f st else g st) P Q (if c then L else M)"
  using assms by simp

lemma emits_skip: "(\<And>st. P st \<Longrightarrow> Q st) \<Longrightarrow> emits w t Go P Q []"
  using emits_Go [of P Q "\<lambda>st. st"] by simp

text \<open>A composition of stages whose conditions read the length of the buffer at the start.\<close>

lemma emits_length:
  assumes "emits w t (f (length b)) (buf_in {b} J) Q L"
  shows "emits w t (\<lambda>st. let len = length (out_buf st) in f len st) (buf_in {b} J) Q L"
  using assms unfolding emits_def by (simp add: buf_in_def)

lemma emits_bitflip_stages:
  assumes "seed_ok b" "qsort_ok (dw_qsort w)"
  shows "emits w t (bitflip_stages w) (buf_in {b} (room t xs (8 * length b))) (buf_in {b} (room t xs 0))
    (bitflip_inputs (skip_eff_map w) b)"
proof -
  let ?J = "room t xs 0"
  have flip: "emits w t (flip_stage w sid n (\<lambda>_. Go)) (buf_in {b} ?J) (buf_in {b} ?J) (flipped_inputs (skip_eff_map w) n b)"
    if "1 \<le> n" "n \<le> 4" for sid n
    using emits_flip_stage [OF assms(1) that, of w t "\<lambda>_. Go" "\<lambda>_. ?J"] emits_skip by simp
  have "emits w t (\<lambda>st. if length b < 4 then Go st else flip32_stage w st) (buf_in {b} ?J) (buf_in {b} ?J)
      (if length b < 4 then [] else flipped_words (skip_eff_map w) (0xFFFFFFFF :: u32) b)"
    by (intro emits_if emits_skip emits_flip32_stage)
  note e = emits_and_then [OF emits_flip16_stage this]
  have "emits w t (\<lambda>st. if length b < 2 then Go st else and_then (flip16_stage w st) (\<lambda>st.
        if length b < 4 then Go st else flip32_stage w st)) (buf_in {b} ?J) (buf_in {b} ?J)
      (if length b < 2 then [] else flipped_words (skip_eff_map w) (0xFFFF :: u16) b
         @ (if length b < 4 then [] else flipped_words (skip_eff_map w) (0xFFFFFFFF :: u32) b))"
    by (rule emits_if [OF emits_skip e])
  note e = emits_and_then [OF flip [of 4 STAGE_FLIP4] emits_and_then [OF emits_flip8_stage [OF assms(1)] this]]
  note e = emits_and_then [OF emits_flip1_stage [OF assms] emits_and_then [OF flip [of 2 STAGE_FLIP2] e]]
  show ?thesis
    unfolding bitflip_stages_def
    by (rule emits_length, rule emits_conseq [OF e]) (auto simp: bitflip_inputs_def)
qed

section \<open>What the arithmetic stages run\<close>

text \<open>The buffers that differ from \<open>b\<close> at most in the word at \<open>i\<close>.\<close>

definition around :: "'l::len itself \<Rightarrow> nat \<Rightarrow> bytes \<Rightarrow> bytes set" where
  "around T i b = range (\<lambda>x :: 'l word. poke i x b)"

lemma emits_attempt:
  fixes v :: "'l::len word"
  assumes "i + LENGTH('l) div 8 \<le> length b"
  shows "emits w t (attempt w worth val i v) (buf_in (around TYPE('l) i b) J) (buf_in (around TYPE('l) i b) J)
    (if worth then [poke i v b] else [])"
proof (cases worth)
  case True
  have "emits w t (\<lambda>st. and_then (run_input w (out_buf st) st) (\<lambda>st. Go (st\<lparr>stage_cur := stage_cur st + 1\<rparr>)))
      (buf_in {poke i v b} J) (buf_in {poke i v b} J) ([poke i v b] @ [])"
    by (rule emits_and_then [OF emits_run emits_Go]) (auto simp: buf_in_def)
  then have "emits w t (\<lambda>st. and_then (run_input w (out_buf st) st) (\<lambda>st. Go (st\<lparr>stage_cur := stage_cur st + 1\<rparr>)))
      (buf_in {poke i v b} J) (buf_in (around TYPE('l) i b) J) [poke i v b]"
    by (rule emits_conseq) (auto simp: buf_in_def around_def)
  note e = emits_before [OF this, where h = "\<lambda>st. st\<lparr>stage_cur_val := val, out_buf := poke i v (out_buf st)\<rparr>"
      and P = "buf_in (around TYPE('l) i b) J"]
  have "attempt w worth val i v = (\<lambda>st. and_then
        (run_input w (out_buf (st\<lparr>stage_cur_val := val, out_buf := poke i v (out_buf st)\<rparr>))
           (st\<lparr>stage_cur_val := val, out_buf := poke i v (out_buf st)\<rparr>))
        (\<lambda>st. Go (st\<lparr>stage_cur := stage_cur st + 1\<rparr>)))"
    using True by (simp add: attempt_def Let_def fun_eq_iff)
  then show ?thesis
    by (simp only:) (rule emits_conseq [OF e], use True assms in \<open>auto simp: buf_in_def around_def\<close>)
next
  case False
  have "attempt w worth val i v = (\<lambda>st. Go (st\<lparr>stage_max := stage_max st - 1\<rparr>))"
    using False by (simp add: attempt_def fun_eq_iff)
  then show ?thesis using False by (auto intro: emits_Go)
qed

lemma emits_restore:
  assumes "byte_sized TYPE('l::len)" "i + LENGTH('l) div 8 \<le> length b"
  shows "emits w t (restore i (peek i b :: 'l word)) (buf_in (around TYPE('l) i b) J) (buf_in {b} J) []"
  unfolding restore_def by (rule emits_Go) (use assms in \<open>auto simp: buf_in_def around_def\<close>)

lemma in_around: "byte_sized TYPE('l::len) \<Longrightarrow> i + LENGTH('l) div 8 \<le> length b \<Longrightarrow> b \<in> around TYPE('l) i b"
  unfolding around_def by (metis poke_peek rangeI)

lemma buf_in_around:
  "byte_sized TYPE('l::len) \<Longrightarrow> i + LENGTH('l) div 8 \<le> length b \<Longrightarrow> buf_in {b} J st \<Longrightarrow>
    buf_in (around TYPE('l) i b) J st"
  using in_around [of i b, where 'l = 'l] by (auto simp: buf_in_def)

lemma emits_value_step:
  assumes "emits w t (body (peek i b) i) (buf_in {b} J) (buf_in {b} J) L"
  shows "emits w t (value_step w body i) (buf_in {b} J) (buf_in {b} J) (if bitmap_read (skip_eff_map w) i then L else [])"
proof -
  have "emits w t (\<lambda>st. body (peek i b) i (st\<lparr>stage_cur_byte := of_nat i\<rparr>)) (buf_in {b} J) (buf_in {b} J) L"
    by (rule emits_before [OF assms]) simp
  note A = emits_at_byte [OF this]
  have "emits w t (at_byte w i (\<lambda>st. body (peek i b) i (st\<lparr>stage_cur_byte := of_nat i\<rparr>))) (buf_in {b} J) (buf_in {b} J)
      (if bitmap_read (skip_eff_map w) i then L else [])"
    by (rule A) simp_all
  then show ?thesis unfolding emits_def by (simp add: value_step_def Let_def buf_in_def)
qed

text \<open>The values a stage considers for a word, each with the decision whether it is worth a run.\<close>

definition tried :: "nat \<Rightarrow> bytes \<Rightarrow> (bool \<times> 'l::len word) list \<Rightarrow> bytes list" where
  "tried i b tries = concat (map (\<lambda>(worth, v). if worth then [poke i v b] else []) tries)"

lemma tried_simps [simp]:
  "tried i b [] = []" "tried i b ((worth, v) # tries) = (if worth then [poke i v b] else []) @ tried i b tries"
  "tried i b (xs @ ys) = tried i b xs @ tried i b ys"
  by (simp_all add: tried_def)

lemma tried_concat: "tried i b (concat (map f xs)) = concat (map (\<lambda>x. tried i b (f x)) xs)"
  by (induction xs) simp_all

lemma set_tried: "set (tried i b tries) = {poke i v b | v. (True, v) \<in> set tries}"
  by (auto simp: tried_def split: if_splits)

definition arith8_tries :: "u8 \<Rightarrow> nat \<Rightarrow> (bool \<times> u8) list" where
  "arith8_tries orig j =
     [(\<not> could_be_bitflip (ucast (orig XOR (orig + of_nat j))), orig + of_nat j),
      (\<not> could_be_bitflip (ucast (orig XOR (orig - of_nat j))), orig - of_nat j)]"

definition arith16_tries :: "u16 \<Rightarrow> nat \<Rightarrow> (bool \<times> u16) list" where
  "arith16_tries orig j =
     (let worth = \<lambda>v. \<not> could_be_bitflip (ucast (orig XOR v)); d = of_nat j;
          v3 = SWAP16 (SWAP16 orig + d); v4 = SWAP16 (SWAP16 orig - d)
      in [(unat (orig AND 0xff) + j > 0xff \<and> worth (orig + d), orig + d), (unat (orig AND 0xff) < j \<and> worth (orig - d), orig - d),
          (unat (drop_bit 8 orig) + j > 0xff \<and> worth v3, v3), (unat (drop_bit 8 orig) < j \<and> worth v4, v4)])"

definition arith32_tries :: "u32 \<Rightarrow> nat \<Rightarrow> (bool \<times> u32) list" where
  "arith32_tries orig j =
     (let worth = \<lambda>v. \<not> could_be_bitflip (orig XOR v); d = of_nat j;
          v3 = SWAP32 (SWAP32 orig + d); v4 = SWAP32 (SWAP32 orig - d)
      in [((orig AND 0xffff) + d > 0xffff \<and> worth (orig + d), orig + d), ((orig AND 0xffff) < d \<and> worth (orig - d), orig - d),
          ((SWAP32 orig AND 0xffff) + d > 0xffff \<and> worth v3, v3), ((SWAP32 orig AND 0xffff) < d \<and> worth v4, v4)])"

definition interest8_tries :: "u8 \<Rightarrow> u8 \<Rightarrow> (bool \<times> u8) list" where
  "interest8_tries orig v =
     [(\<not> (could_be_bitflip (ucast (orig XOR v)) \<or> could_be_arith (ucast orig) (ucast v) 1), v)]"

definition interest16_tries :: "u16 \<Rightarrow> u16 \<Rightarrow> (bool \<times> u16) list" where
  "interest16_tries orig v =
     (let worth = \<lambda>v. \<not> could_be_bitflip (ucast (orig XOR v)) \<and> \<not> could_be_arith (ucast orig) (ucast v) 2; be = SWAP16 v
      in [(worth v \<and> \<not> could_be_interest (ucast orig) (ucast v) 2 False, v),
          (v \<noteq> be \<and> worth be \<and> \<not> could_be_interest (ucast orig) (ucast be) 2 True, be)])"

definition interest32_tries :: "u32 \<Rightarrow> u32 \<Rightarrow> (bool \<times> u32) list" where
  "interest32_tries orig v =
     (let worth = \<lambda>v. \<not> could_be_bitflip (orig XOR v) \<and> \<not> could_be_arith orig v 4; be = SWAP32 v
      in [(worth v \<and> \<not> could_be_interest orig v 4 False, v),
          (v \<noteq> be \<and> worth be \<and> \<not> could_be_interest orig be 4 True, be)])"

text \<open>The inputs of a stage over all effective positions.\<close>

definition word_inputs :: "bytes \<Rightarrow> ('l::len word \<Rightarrow> (bool \<times> 'l word) list) \<Rightarrow> bytes \<Rightarrow> bytes list" where
  "word_inputs eff tries b =
     concat (map (\<lambda>i. if bitmap_read eff i then tried i b (tries (peek i b)) else []) [0..<Suc (length b) - LENGTH('l) div 8])"

definition over_arith :: "('l::len word \<Rightarrow> nat \<Rightarrow> (bool \<times> 'l word) list) \<Rightarrow> 'l word \<Rightarrow> (bool \<times> 'l word) list" where
  "over_arith tries orig = concat (map (tries orig) [1..<Suc ARITH_MAX])"

definition arith_inputs :: "bytes \<Rightarrow> bytes \<Rightarrow> bytes list" where
  "arith_inputs eff b =
     word_inputs eff (over_arith arith8_tries) b
     @ (if length b < 2 then [] else word_inputs eff (over_arith arith16_tries) b
     @ (if length b < 4 then [] else word_inputs eff (over_arith arith32_tries) b))"

definition interest_inputs :: "bool \<Rightarrow> bytes \<Rightarrow> bytes \<Rightarrow> bytes list" where
  "interest_inputs only8 eff b =
     word_inputs eff (\<lambda>orig. concat (map (interest8_tries orig) interesting_8)) b
     @ (if only8 \<or> length b < 2 then [] else word_inputs eff (\<lambda>orig. concat (map (interest16_tries orig) interesting_16)) b
     @ (if length b < 4 then [] else word_inputs eff (\<lambda>orig. concat (map (interest32_tries orig) interesting_32)) b))"

lemma emits_arith8_at:
  assumes "i < length b"
  shows "emits w t (arith8_at w (peek i b) i j) (buf_in {b} J) (buf_in {b} J) (tried i b (arith8_tries (peek i b) j))"
proof -
  have r: "i + LENGTH(8) div 8 \<le> length b" using assms by simp
  note a = emits_attempt [OF r, of w t, where J = J]
  note e = emits_and_then [OF a emits_and_then [OF a emits_restore [OF byte_sized_words(1) r]]]
  show ?thesis
    unfolding arith8_at_def
    by (rule emits_conseq [OF e]) (use r buf_in_around [OF byte_sized_words(1) r] in \<open>auto simp: arith8_tries_def\<close>)
qed

lemma emits_typed_attempt:
  fixes v :: "'l::len word"
  assumes "i + LENGTH('l) div 8 \<le> length b"
  shows "emits w t (\<lambda>st. attempt w worth val i v (set_val_type ty st)) (buf_in (around TYPE('l) i b) J)
    (buf_in (around TYPE('l) i b) J) (if worth then [poke i v b] else [])"
  by (rule emits_before [OF emits_attempt [OF assms]]) simp

lemma emits_four_attempts:
  fixes v1 v2 v3 v4 :: "'l::len word"
  assumes s: "byte_sized TYPE('l)" and r: "i + LENGTH('l) div 8 \<le> length b"
  shows "emits w t
    (\<lambda>st. and_then (attempt w c1 x1 i v1 (set_val_type STAGE_VAL_LE st)) (\<lambda>st.
         and_then (attempt w c2 x2 i v2 st) (\<lambda>st.
         and_then (attempt w c3 x3 i v3 (set_val_type STAGE_VAL_BE st)) (\<lambda>st.
         and_then (attempt w c4 x4 i v4 st) (restore i (peek i b :: 'l word))))))
    (buf_in {b} J) (buf_in {b} J) (tried i b [(c1, v1), (c2, v2), (c3, v3), (c4, v4)])"
proof -
  note a = emits_attempt [OF r, of w t, where J = J] and a' = emits_typed_attempt [OF r, of w t, where J = J]
  note e = emits_and_then [OF a' emits_and_then [OF a emits_and_then [OF a' emits_and_then [OF a emits_restore [OF s r]]]]]
  show ?thesis
    by (rule emits_conseq [OF e]) (use buf_in_around [OF s r] in simp_all)
qed

lemma emits_arith16_at:
  assumes "i + 2 \<le> length b"
  shows "emits w t (arith16_at w (peek i b) i j) (buf_in {b} J) (buf_in {b} J) (tried i b (arith16_tries (peek i b) j))"
  unfolding arith16_at_def arith16_tries_def Let_def
  by (rule emits_four_attempts) (use assms in simp_all)

lemma emits_arith32_at:
  assumes "i + 4 \<le> length b"
  shows "emits w t (arith32_at w (peek i b) i j) (buf_in {b} J) (buf_in {b} J) (tried i b (arith32_tries (peek i b) j))"
  unfolding arith32_at_def arith32_tries_def Let_def
  by (rule emits_four_attempts) (use assms in simp_all)

lemma emits_word_walk:
  fixes tries :: "'l::len word \<Rightarrow> (bool \<times> 'l word) list"
  assumes "\<And>i. i < n \<Longrightarrow> emits w t (body (peek i b) i) (buf_in {b} J) (buf_in {b} J) (tried i b (tries (peek i b)))"
    and "n = Suc (length b) - LENGTH('l) div 8"
  shows "emits w t (walk (value_step w body) [0..<n]) (buf_in {b} J) (buf_in {b} J) (word_inputs (skip_eff_map w) tries b)"
  unfolding word_inputs_def assms(2) [symmetric]
  by (rule emits_walk, rule emits_value_step, rule assms(1)) simp

lemma emits_over_arith:
  assumes "\<And>j. emits w t (step j) (buf_in {b} J) (buf_in {b} J) (tried i b (tries orig j))"
  shows "emits w t (walk step [1..<Suc ARITH_MAX]) (buf_in {b} J) (buf_in {b} J) (tried i b (over_arith tries orig))"
  unfolding over_arith_def tried_concat by (rule emits_walk) (rule assms)

lemma emits_arith8_stage:
  "emits w t (arith8_stage w) (buf_in {b} J) (buf_in {b} J) (word_inputs (skip_eff_map w) (over_arith arith8_tries) b)"
proof (rule emits_stage)
  show "emits w t (walk (value_step w (\<lambda>orig i. walk (arith8_at w orig i) [1..<Suc ARITH_MAX])) [0..<length b])
      (buf_in {b} J) (buf_in {b} J) (word_inputs (skip_eff_map w) (over_arith arith8_tries) b)"
    by (rule emits_word_walk, rule emits_over_arith, rule emits_arith8_at) auto
next
  fix st assume "buf_in {b} J st"
  then show "arith8_stage w st = and_then
      (walk (value_step w (\<lambda>orig i. walk (arith8_at w orig i) [1..<Suc ARITH_MAX])) [0..<length b]
        (begin_stage (2 * of_nat (length b) * of_nat ARITH_MAX) (st\<lparr>stage_val_type := STAGE_VAL_LE\<rparr>)))
      (\<lambda>st. Go (finish_stage w STAGE_ARITH8 st))"
    by (simp add: arith8_stage_def Let_def buf_in_def)
qed simp_all

lemma emits_arith16_stage:
  "emits w t (arith16_stage w) (buf_in {b} J) (buf_in {b} J) (word_inputs (skip_eff_map w) (over_arith arith16_tries) b)"
proof (rule emits_stage)
  show "emits w t (walk (value_step w (\<lambda>orig i. walk (arith16_at w orig i) [1..<Suc ARITH_MAX])) [0..<length b - 1])
      (buf_in {b} J) (buf_in {b} J) (word_inputs (skip_eff_map w) (over_arith arith16_tries) b)"
    by (rule emits_word_walk, rule emits_over_arith, rule emits_arith16_at) auto
next
  fix st assume "buf_in {b} J st"
  then show "arith16_stage w st = and_then
      (walk (value_step w (\<lambda>orig i. walk (arith16_at w orig i) [1..<Suc ARITH_MAX])) [0..<length b - 1]
        (begin_stage (4 * (of_nat (length b) - 1) * of_nat ARITH_MAX) st))
      (\<lambda>st. Go (finish_stage w STAGE_ARITH16 st))"
    by (simp add: arith16_stage_def Let_def buf_in_def)
qed simp_all

lemma emits_arith32_stage:
  "emits w t (arith32_stage w) (buf_in {b} J) (buf_in {b} J) (word_inputs (skip_eff_map w) (over_arith arith32_tries) b)"
proof (rule emits_stage)
  show "emits w t (walk (value_step w (\<lambda>orig i. walk (arith32_at w orig i) [1..<Suc ARITH_MAX])) [0..<length b - 3])
      (buf_in {b} J) (buf_in {b} J) (word_inputs (skip_eff_map w) (over_arith arith32_tries) b)"
    by (rule emits_word_walk, rule emits_over_arith, rule emits_arith32_at) auto
next
  fix st assume "buf_in {b} J st"
  then show "arith32_stage w st = and_then
      (walk (value_step w (\<lambda>orig i. walk (arith32_at w orig i) [1..<Suc ARITH_MAX])) [0..<length b - 3]
        (begin_stage (4 * (of_nat (length b) - 3) * of_nat ARITH_MAX) st))
      (\<lambda>st. Go (finish_stage w STAGE_ARITH32 st))"
    by (simp add: arith32_stage_def Let_def buf_in_def)
qed simp_all

lemma emits_arith_stages:
  "emits w t (arith_stages w) (buf_in {b} J) (buf_in {b} J)
    (if no_arith w then [] else arith_inputs (skip_eff_map w) b)"
proof -
  have "emits w t (\<lambda>st. if length b < 4 then Go st else arith32_stage w st) (buf_in {b} J) (buf_in {b} J)
      (if length b < 4 then [] else word_inputs (skip_eff_map w) (over_arith arith32_tries) b)"
    by (intro emits_if emits_skip emits_arith32_stage)
  note e = emits_and_then [OF emits_arith16_stage this]
  have "emits w t (\<lambda>st. if length b < 2 then Go st else and_then (arith16_stage w st) (\<lambda>st.
        if length b < 4 then Go st else arith32_stage w st)) (buf_in {b} J) (buf_in {b} J)
      (if length b < 2 then [] else word_inputs (skip_eff_map w) (over_arith arith16_tries) b
         @ (if length b < 4 then [] else word_inputs (skip_eff_map w) (over_arith arith32_tries) b))"
    by (rule emits_if [OF emits_skip e])
  note e = emits_and_then [OF emits_arith8_stage this]
  show ?thesis
    unfolding arith_stages_def arith_inputs_def
    by (rule emits_length, rule emits_if [OF emits_skip e])
qed

section \<open>What the stages of interesting values run\<close>

lemma emits_interest8_at:
  assumes "i < length b"
  shows "emits w t (interest8_at w (peek i b) i v) (buf_in {b} J) (buf_in {b} J) (tried i b (interest8_tries (peek i b) v))"
proof -
  have p: "poke i (peek i b :: u8) (poke i v b) = b" using assms by simp
  have e: "emits w t (\<lambda>st. and_then (run_input w (out_buf st) st)
      (\<lambda>st. Go (st\<lparr>out_buf := poke i (peek i b :: u8) (out_buf st), stage_cur := stage_cur st + 1\<rparr>)))
      (buf_in {poke i v b} J) (buf_in {b} J) ([poke i v b] @ [])"
    by (rule emits_and_then [OF emits_run emits_Go]) (use p in \<open>auto simp: buf_in_def\<close>)
  have e: "emits w t (\<lambda>st. let st = st\<lparr>stage_cur_val := scast v, out_buf := poke i v (out_buf st)\<rparr>
      in and_then (run_input w (out_buf st) st)
           (\<lambda>st. Go (st\<lparr>out_buf := poke i (peek i b :: u8) (out_buf st), stage_cur := stage_cur st + 1\<rparr>)))
      (buf_in {b} J) (buf_in {b} J) ([poke i v b] @ [])"
    unfolding Let_def
    by (rule emits_before [OF e, where h = "\<lambda>st. st\<lparr>stage_cur_val := scast v, out_buf := poke i v (out_buf st)\<rparr>"])
      (simp add: buf_in_def)
  have s: "emits w t (\<lambda>st. Go (st\<lparr>stage_max := stage_max st - 1\<rparr>)) (buf_in {b} J) (buf_in {b} J) []"
    by (rule emits_Go) simp
  have "interest8_at w (peek i b) i v = (\<lambda>st.
      if could_be_bitflip (ucast ((peek i b :: u8) XOR v)) \<or> could_be_arith (ucast (peek i b :: u8)) (ucast v) 1
      then Go (st\<lparr>stage_max := stage_max st - 1\<rparr>)
      else let st = st\<lparr>stage_cur_val := scast v, out_buf := poke i v (out_buf st)\<rparr>
        in and_then (run_input w (out_buf st) st)
             (\<lambda>st. Go (st\<lparr>out_buf := poke i (peek i b :: u8) (out_buf st), stage_cur := stage_cur st + 1\<rparr>)))"
    unfolding interest8_at_def by (rule ext) (rule refl)
  then show ?thesis
    by (simp only:) (rule emits_conseq [OF emits_if [OF s e]], auto simp: interest8_tries_def)
qed

lemma emits_attempt_typed:
  fixes v :: "'l::len word"
  assumes "i + LENGTH('l) div 8 \<le> length b"
  shows "emits w t (attempt_typed w worth ty val i v) (buf_in (around TYPE('l) i b) J)
    (buf_in (around TYPE('l) i b) J) (if worth then [poke i v b] else [])"
proof -
  have "attempt_typed w worth ty val i v = (\<lambda>st. attempt w worth val i v (if worth then set_val_type ty st else st))"
    by (rule ext) (simp add: attempt_typed_def)
  then show ?thesis
    by (simp only:) (rule emits_before [OF emits_attempt [OF assms]], simp)
qed

lemma emits_two_typed:
  fixes v1 v2 :: "'l::len word"
  assumes "i + LENGTH('l) div 8 \<le> length b"
  shows "emits w t (\<lambda>st. and_then (attempt_typed w c1 ty1 x1 i v1 (st\<lparr>stage_cur_val := x\<rparr>)) (attempt_typed w c2 ty2 x2 i v2))
    (buf_in (around TYPE('l) i b) J) (buf_in (around TYPE('l) i b) J) (tried i b [(c1, v1), (c2, v2)])"
proof -
  note e = emits_attempt_typed [OF assms, of w t, where J = J]
  have "emits w t (\<lambda>st. attempt_typed w c1 ty1 x1 i v1 (st\<lparr>stage_cur_val := x\<rparr>)) (buf_in (around TYPE('l) i b) J)
    (buf_in (around TYPE('l) i b) J) (if c1 then [poke i v1 b] else [])"
    by (rule emits_before [OF e]) simp
  from emits_and_then [OF this e] show ?thesis by simp
qed

lemma emits_values:
  fixes orig :: "'l::len word"
  assumes s: "byte_sized TYPE('l)" and r: "i + LENGTH('l) div 8 \<le> length b"
    and "\<And>v. emits w t (step v) (buf_in (around TYPE('l) i b) J) (buf_in (around TYPE('l) i b) J) (tried i b (tries v))"
  shows "emits w t (\<lambda>st. and_then (walk step vs st) (restore i (peek i b :: 'l word))) (buf_in {b} J) (buf_in {b} J)
    (tried i b (concat (map tries vs)))"
proof -
  note e = emits_and_then [OF emits_walk [OF assms(3)] emits_restore [OF s r]]
  show ?thesis by (rule emits_conseq [OF e]) (use buf_in_around [OF s r] in \<open>auto simp: tried_concat\<close>)
qed

lemma emits_interest16_at:
  assumes "i + 2 \<le> length b"
  shows "emits w t (interest16_at w orig i v) (buf_in (around TYPE(16) i b) J) (buf_in (around TYPE(16) i b) J)
    (tried i b (interest16_tries orig v))"
  unfolding interest16_at_def interest16_tries_def Let_def conj_assoc
  by (rule emits_two_typed) (use assms in simp)

lemma emits_interest32_at:
  assumes "i + 4 \<le> length b"
  shows "emits w t (interest32_at w orig i v) (buf_in (around TYPE(32) i b) J) (buf_in (around TYPE(32) i b) J)
    (tried i b (interest32_tries orig v))"
  unfolding interest32_at_def interest32_tries_def Let_def conj_assoc
  by (rule emits_two_typed) (use assms in simp)

lemma emits_interest8_stage:
  "emits w t (interest8_stage w) (buf_in {b} J) (buf_in {b} J)
    (word_inputs (skip_eff_map w) (\<lambda>orig. concat (map (interest8_tries orig) interesting_8)) b)"
proof (rule emits_stage)
  show "emits w t (walk (value_step w (\<lambda>orig i. walk (interest8_at w orig i) interesting_8)) [0..<length b])
      (buf_in {b} J) (buf_in {b} J) (word_inputs (skip_eff_map w) (\<lambda>orig. concat (map (interest8_tries orig) interesting_8)) b)"
    by (rule emits_word_walk, unfold tried_concat, rule emits_walk, rule emits_interest8_at) auto
next
  fix st assume "buf_in {b} J st"
  then show "interest8_stage w st = and_then
      (walk (value_step w (\<lambda>orig i. walk (interest8_at w orig i) interesting_8)) [0..<length b]
        (begin_stage (of_nat (length b) * of_nat (length interesting_8)) (st\<lparr>stage_val_type := STAGE_VAL_LE\<rparr>)))
      (\<lambda>st. Go (finish_stage w STAGE_INTEREST8 st))"
    by (simp add: interest8_stage_def Let_def buf_in_def)
qed simp_all

lemma emits_interest16_stage:
  "emits w t (interest16_stage w) (buf_in {b} J) (buf_in {b} J)
    (word_inputs (skip_eff_map w) (\<lambda>orig. concat (map (interest16_tries orig) interesting_16)) b)"
proof (rule emits_stage)
  show "emits w t (walk (value_step w (\<lambda>orig i st. and_then (walk (interest16_at w orig i) interesting_16 st) (restore i orig)))
        [0..<length b - 1]) (buf_in {b} J) (buf_in {b} J)
      (word_inputs (skip_eff_map w) (\<lambda>orig. concat (map (interest16_tries orig) interesting_16)) b)"
    by (rule emits_word_walk, rule emits_values, simp_all add: emits_interest16_at)
next
  fix st assume "buf_in {b} J st"
  then show "interest16_stage w st = and_then
      (walk (value_step w (\<lambda>orig i st. and_then (walk (interest16_at w orig i) interesting_16 st) (restore i orig)))
        [0..<length b - 1] (begin_stage (2 * (of_nat (length b) - 1) * of_nat (length interesting_16)) st))
      (\<lambda>st. Go (finish_stage w STAGE_INTEREST16 st))"
    by (simp add: interest16_stage_def Let_def buf_in_def)
qed simp_all

lemma emits_interest32_stage:
  "emits w t (interest32_stage w) (buf_in {b} J) (buf_in {b} J)
    (word_inputs (skip_eff_map w) (\<lambda>orig. concat (map (interest32_tries orig) interesting_32)) b)"
proof (rule emits_stage)
  show "emits w t (walk (value_step w (\<lambda>orig i st. and_then (walk (interest32_at w orig i) interesting_32 st) (restore i orig)))
        [0..<length b - 3]) (buf_in {b} J) (buf_in {b} J)
      (word_inputs (skip_eff_map w) (\<lambda>orig. concat (map (interest32_tries orig) interesting_32)) b)"
    by (rule emits_word_walk, rule emits_values, simp_all add: emits_interest32_at)
next
  fix st assume "buf_in {b} J st"
  then show "interest32_stage w st = and_then
      (walk (value_step w (\<lambda>orig i st. and_then (walk (interest32_at w orig i) interesting_32 st) (restore i orig)))
        [0..<length b - 3] (begin_stage (2 * (of_nat (length b) - 3) * of_nat (length interesting_32)) st))
      (\<lambda>st. Go (finish_stage w STAGE_INTEREST32 st))"
    by (simp add: interest32_stage_def Let_def buf_in_def)
qed simp_all

lemma emits_interest_stages:
  "emits w t (interest_stages w) (buf_in {b} J) (buf_in {b} J) (interest_inputs (no_arith w) (skip_eff_map w) b)"
proof -
  have "emits w t (\<lambda>st. if length b < 4 then Go st else interest32_stage w st) (buf_in {b} J) (buf_in {b} J)
      (if length b < 4 then [] else
         word_inputs (skip_eff_map w) (\<lambda>orig. concat (map (interest32_tries orig) interesting_32)) b)"
    by (intro emits_if emits_skip emits_interest32_stage)
  note e = emits_and_then [OF emits_interest16_stage this]
  have "emits w t (\<lambda>st. if no_arith w \<or> length b < 2 then Go st else and_then (interest16_stage w st) (\<lambda>st.
        if length b < 4 then Go st else interest32_stage w st)) (buf_in {b} J) (buf_in {b} J)
      (if no_arith w \<or> length b < 2 then [] else
         word_inputs (skip_eff_map w) (\<lambda>orig. concat (map (interest16_tries orig) interesting_16)) b
         @ (if length b < 4 then [] else
         word_inputs (skip_eff_map w) (\<lambda>orig. concat (map (interest32_tries orig) interesting_32)) b))"
    by (rule emits_if [OF emits_skip e])
  note e = emits_and_then [OF emits_interest8_stage this]
  show ?thesis
    unfolding interest_stages_def interest_inputs_def
    by (rule emits_length, rule e)
qed

end
