(* ===== verification/Det_Flips.thy ===== *)
theory Det_Flips
  imports Det_Runs
begin

text \<open>
  The deterministic stages leave out an input that an earlier stage has run. Here: what they leave
  out has indeed been run, except for one kind of bit pattern, which the test for bit flips takes
  for the product of a flip and no flipping stage produces.
\<close>

section \<open>Words in the buffer, byte by byte\<close>

lemma nth_poke:
  fixes v :: "'l::len word"
  assumes "i + LENGTH('l) div 8 \<le> length b" "p < length b"
  shows "poke i v b ! p = (if i \<le> p \<and> p < i + LENGTH('l) div 8 then byte_at (p - i) v else b ! p)"
  using assms by (auto simp: poke_def nth_overwrite)

lemma byte_at_peek:
  assumes "byte_sized TYPE('l::len)" "i + LENGTH('l) div 8 \<le> length b" "j < LENGTH('l) div 8"
  shows "byte_at j (peek i b :: 'l word) = b ! (i + j)"
proof -
  have "byte_at j (peek i b :: 'l word) = take (LENGTH('l) div 8) (drop i b) ! j"
    unfolding peek_def using assms by (intro byte_of_bytes) (auto simp: byte_sized_def)
  then show ?thesis using assms by simp
qed

lemma byte_at_ucast:
  assumes "8 * j + 8 \<le> LENGTH('l::len)" "8 * j + 8 \<le> LENGTH('m::len)"
  shows "byte_at j (ucast (v :: 'l word) :: 'm word) = byte_at j v"
  using assms by (intro bit_word_eqI) (auto simp: bit_byte_at bit_ucast_iff)

lemma byte_at_put_bits:
  fixes x :: "'l::len word"
  assumes "j < 4" "byte_sized TYPE('l)"
  shows "byte_at j (put_bits (8 * k) x y) = (if k \<le> j \<and> j < k + LENGTH('l) div 8 then byte_at (j - k) x else byte_at j y)"
proof (rule bit_word_eqI)
  fix r assume "r < LENGTH(8)"
  then have r: "r < 8" by simp
  obtain n where n: "LENGTH('l) = 8 * n" using assms(2) by (auto simp: byte_sized_def)
  have e: "8 * k \<le> 8 * j + r \<longleftrightarrow> k \<le> j" "8 * j + r < 8 * k + 8 * n \<longleftrightarrow> j < k + n"
    "k \<le> j \<Longrightarrow> 8 * j + r - 8 * k = 8 * (j - k) + r"
    using r by auto
  show "bit (byte_at j (put_bits (8 * k) x y)) r \<longleftrightarrow>
      bit (if k \<le> j \<and> j < k + LENGTH('l) div 8 then byte_at (j - k) x else byte_at j y) r"
    using r assms(1) by (simp add: bit_byte_at bit_put_bits n e)
qed

text \<open>A change of part of a word in the buffer is a change of a narrower word in the buffer.\<close>

lemma poke_put_bits:
  fixes v :: "'w::len word" and x :: "'l::len word"
  assumes w: "byte_sized TYPE('w)" "byte_sized TYPE('l)" "LENGTH('w) \<le> 32"
    and r: "i + LENGTH('w) div 8 \<le> length b" "k + LENGTH('l) div 8 \<le> LENGTH('w) div 8"
    and v: "(ucast v :: u32) = put_bits (8 * k) x (ucast (peek i b :: 'w word))"
  shows "poke i v b = poke (i + k) x b"
proof (rule nth_equalityI)
  show "length (poke i v b) = length (poke (i + k) x b)" using r by simp
  fix p assume "p < length (poke i v b)"
  then have p: "p < length b" using r by simp
  have r': "i + k + LENGTH('l) div 8 \<le> length b" using r by simp
  show "poke i v b ! p = poke (i + k) x b ! p"
  proof (cases "i \<le> p \<and> p < i + LENGTH('w) div 8")
    case True
    define j where "j = p - i"
    have j: "j < LENGTH('w) div 8" "p = i + j" "8 * j + 8 \<le> LENGTH('w)" "8 * j + 8 \<le> LENGTH(32)" "j < 4"
      using True w(1,3) by (auto simp: j_def byte_sized_def)
    have "poke i v b ! p = byte_at j (ucast v :: u32)"
      using nth_poke [OF r(1) p, of v] True j by (simp add: byte_at_ucast)
    also have "\<dots> = (if k \<le> j \<and> j < k + LENGTH('l) div 8 then byte_at (j - k) x else b ! p)"
      unfolding v byte_at_put_bits [OF j(5) w(2)]
      using j byte_at_peek [OF w(1) r(1) j(1)] by (simp add: byte_at_ucast)
    also have "\<dots> = poke (i + k) x b ! p"
      unfolding nth_poke [OF r' p] using j by auto
    finally show ?thesis .
  next
    case False
    then show ?thesis using nth_poke [OF r(1) p, of v] nth_poke [OF r' p, of x] r by auto
  qed
qed

section \<open>What a flip makes of a word\<close>

lemma nth_FLIP_BIT:
  "p < length b \<Longrightarrow> c div 8 < length b \<Longrightarrow>
    FLIP_BIT c b ! p = (if p = c div 8 then b ! p XOR drop_bit (c mod 8) 128 else b ! p)"
  by (simp add: FLIP_BIT_def)

text \<open>\<open>n\<close> bits flipped inside one byte, counted from its top: bits \<open>8 - r - n\<close> to \<open>7 - r\<close>.\<close>

lemma bit_128: "bit (drop_bit r 128 :: u8) q \<longleftrightarrow> q + r = 7"
proof -
  have e: "(128 :: u8) = push_bit 7 1" by (simp add: push_bit_eq_mult)
  show ?thesis unfolding e bit_drop_bit_eq comp_apply bit_push_bit_iff bit_1_iff by auto
qed

lemma flip_bits_in_byte:
  assumes "r + n \<le> 8" "p < length b"
  shows "flip_bits n (8 * p + r) b = b[p := b ! p XOR bit_run (8 - r - n) n]"
  using assms(1)
proof (induction n)
  case 0
  have "bit_run (8 - r - 0) 0 = (0 :: u8)" by (simp add: bit_run_def)
  then show ?case by simp
next
  case (Suc n)
  have "8 * p + r + n = (r + n) + p * 8" by simp
  then have d: "(8 * p + r + n) div 8 = p" "(8 * p + r + n) mod 8 = r + n"
    using Suc.prems by (simp_all only: div_mult_self1 mod_mult_self1) auto
  have x: "bit_run (8 - r - n) n XOR drop_bit (r + n) 128 = (bit_run (8 - r - Suc n) (Suc n) :: u8)"
    using Suc.prems by (intro bit_word_eqI) (auto simp: bit_xor_iff bit_bit_run bit_128)
  have "flip_bits (Suc n) (8 * p + r) b = b[p := b ! p XOR (bit_run (8 - r - n) n XOR drop_bit (r + n) 128)]"
    using Suc assms(2) by (simp add: FLIP_BIT_def d xor.assoc add.assoc)
  then show ?case unfolding x .
qed

text \<open>The patterns that no flipping stage produces: two or four bits, next to each other in the
  little-endian word, across the border of two bytes.\<close>

definition spurious :: "bytes \<Rightarrow> bytes \<Rightarrow> bool" where
  "spurious b m \<longleftrightarrow>
     (\<exists>p n k. Suc p < length b \<and> n \<in> {2, 4} \<and> k < 8 \<and> 8 < k + n
        \<and> m = poke p (peek p b XOR bit_run k n :: u16) b)"

lemma byte_at_xor: "byte_at j (x XOR y) = byte_at j x XOR byte_at j y"
  by (intro bit_word_eqI) (simp add: bit_byte_at bit_xor_iff)

lemma byte_at_bit_run:
  assumes "8 * j + 8 \<le> LENGTH('w::len)" "r < 8"
  shows "bit (byte_at j (bit_run k n :: 'w word)) r \<longleftrightarrow> k \<le> 8 * j + r \<and> 8 * j + r < k + n"
  using assms by (simp add: bit_byte_at bit_bit_run)

text \<open>A run of bits flipped in a word is flipped in a narrower word that contains it.\<close>

lemma poke_run_narrow:
  assumes w: "byte_sized TYPE('w::len)" "byte_sized TYPE('l::len)"
    and r: "i + LENGTH('w) div 8 \<le> length b" "k div 8 + LENGTH('l) div 8 \<le> LENGTH('w) div 8" "k mod 8 + n \<le> LENGTH('l)"
  shows "poke i (peek i b XOR bit_run k n :: 'w word) b
       = poke (i + k div 8) (peek (i + k div 8) b XOR bit_run (k mod 8) n :: 'l word) b"
proof (rule nth_equalityI)
  define q where "q = k div 8"
  have kq: "k = 8 * q + k mod 8" by (simp add: q_def)
  have r': "i + q + LENGTH('l) div 8 \<le> length b" using r by (simp add: q_def)
  have L: "8 * (LENGTH('w) div 8) = LENGTH('w)" "8 * (LENGTH('l) div 8) = LENGTH('l)"
    using w by (auto simp: byte_sized_def)
  show "length (poke i (peek i b XOR bit_run k n :: 'w word) b)
      = length (poke (i + k div 8) (peek (i + k div 8) b XOR bit_run (k mod 8) n :: 'l word) b)"
    using r by simp
  fix p assume "p < length (poke i (peek i b XOR bit_run k n :: 'w word) b)"
  then have p: "p < length b" using r by simp
  have bw: "byte_at j (peek i b XOR bit_run k n :: 'w word) = b ! (i + j) XOR byte_at j (bit_run k n :: 'w word)"
    if "j < LENGTH('w) div 8" for j
    using byte_at_peek [OF w(1) r(1) that] by (simp add: byte_at_xor)
  have bl: "byte_at j (peek (i + q) b XOR bit_run (k mod 8) n :: 'l word)
      = b ! (i + q + j) XOR byte_at j (bit_run (k mod 8) n :: 'l word)"
    if "j < LENGTH('l) div 8" for j
    using byte_at_peek [OF w(2) r' that] by (simp add: byte_at_xor)
  show "poke i (peek i b XOR bit_run k n :: 'w word) b ! p
      = poke (i + k div 8) (peek (i + k div 8) b XOR bit_run (k mod 8) n :: 'l word) b ! p"
  proof (cases "i \<le> p \<and> p < i + LENGTH('w) div 8")
    case True
    define j where "j = p - i"
    have j: "j < LENGTH('w) div 8" "p = i + j" "8 * j + 8 \<le> LENGTH('w)"
      using True L by (auto simp: j_def)
    have lhs: "poke i (peek i b XOR bit_run k n :: 'w word) b ! p = b ! p XOR byte_at j (bit_run k n :: 'w word)"
      using nth_poke [OF r(1) p, of "peek i b XOR bit_run k n"] True j bw [OF j(1)] by simp
    show ?thesis
    proof (cases "q \<le> j \<and> j < q + LENGTH('l) div 8")
      case in_narrow: True
      have "byte_at j (bit_run k n :: 'w word) = byte_at (j - q) (bit_run (k mod 8) n :: 'l word)"
      proof (rule bit_word_eqI)
        fix c assume "c < LENGTH(8)"
        then have c: "c < 8" by simp
        have "8 * (j - q) + 8 \<le> LENGTH('l)" using in_narrow L by auto
        then show "bit (byte_at j (bit_run k n :: 'w word)) c \<longleftrightarrow> bit (byte_at (j - q) (bit_run (k mod 8) n :: 'l word)) c"
          using byte_at_bit_run [OF j(3) c, of k n] byte_at_bit_run [of "j - q", where 'w = 'l, OF _ c, of "k mod 8" n]
            in_narrow kq by auto
      qed
      then show ?thesis
        using lhs nth_poke [OF r' p, of "peek (i + q) b XOR bit_run (k mod 8) n"] in_narrow j bl [of "j - q"]
        unfolding q_def [symmetric] by auto
    next
      case False
      have "byte_at j (bit_run k n :: 'w word) = 0"
      proof (rule bit_word_eqI)
        fix c assume "c < LENGTH(8)"
        then have c: "c < 8" by simp
        show "bit (byte_at j (bit_run k n :: 'w word)) c \<longleftrightarrow> bit (0 :: u8) c"
          using byte_at_bit_run [OF j(3) c, of k n] False kq L(2) r(3) c by auto
      qed
      then show ?thesis
        using lhs nth_poke [OF r' p, of "peek (i + q) b XOR bit_run (k mod 8) n"] False j
        unfolding q_def [symmetric] by auto
    qed
  next
    case False
    then show ?thesis
      using nth_poke [OF r(1) p, of "peek i b XOR bit_run k n"] r
        nth_poke [OF r' p, of "peek (i + q) b XOR bit_run (k mod 8) n"]
      unfolding q_def [symmetric] by (auto simp: q_def)
  qed
qed

section \<open>What is taken for a flip is one, or spurious\<close>

text \<open>Every byte is effective.\<close>

definition all_effective :: "bytes \<Rightarrow> bytes \<Rightarrow> bool" where
  "all_effective eff b \<longleftrightarrow> (\<forall>i < length b. bitmap_read eff i)"

lemma flipped_inputsI:
  assumes "all_effective eff b" "c + n \<le> 8 * length b" "0 < n"
  shows "flip_bits n c b \<in> set (flipped_inputs eff n b)"
proof -
  have "c div 8 < length b" using assms by auto
  then show ?thesis using assms by (auto simp: flipped_inputs_def all_effective_def intro!: bexI [of _ c])
qed

lemma flipped_wordsI:
  fixes ones :: "'l::len word"
  assumes "all_effective eff b" "i + LENGTH('l) div 8 \<le> length b" "8 \<le> LENGTH('l)"
  shows "poke i (peek i b XOR ones) b \<in> set (flipped_words eff ones b)"
proof -
  have "0 < LENGTH('l) div 8" using assms(3) by (simp add: div_greater_zero_iff)
  then have "i < length b" using assms(2) by linarith
  then show ?thesis using assms by (auto simp: flipped_words_def all_effective_def intro!: bexI [of _ i])
qed

lemma flip_in_byte_run:
  assumes e: "all_effective eff b" and p: "p < length b" and n: "n \<in> {1, 2, 4, 8}" "s + n \<le> 8"
  shows "poke p (peek p b XOR bit_run s n :: u8) b \<in> set (bitflip_inputs eff b)"
proof (cases "n = 8")
  case True
  then have "(bit_run s n :: u8) = 0xFF" using n by (simp add: bit_run_def mask_eq_exp_minus_1)
  then show ?thesis
    using flipped_wordsI [OF e, of p "0xFF :: u8"] p by (auto simp: bitflip_inputs_def)
next
  case False
  have "flip_bits n (8 * p + (8 - s - n)) b = poke p (peek p b XOR bit_run s n :: u8) b"
    using flip_bits_in_byte [of "8 - s - n" n p b] p n by simp
  moreover have "8 * p + (8 - s - n) + n \<le> 8 * length b" using p n(2) by linarith
  ultimately show ?thesis
    using flipped_inputsI [OF e, of "8 * p + (8 - s - n)" n] False n(1)
    by (auto simp: bitflip_inputs_def)
qed

lemma ucast_bit_run:
  fixes x :: "'w::len word"
  assumes "(ucast x :: u32) = bit_run k n" "k + n \<le> 32" "0 < n" "LENGTH('w) \<le> 32"
  shows "k + n \<le> LENGTH('w) \<and> x = bit_run k n"
proof -
  have b: "bit x j \<longleftrightarrow> k \<le> j \<and> j < k + n" if "j < 32" for j
  proof -
    have "bit (ucast x :: u32) j \<longleftrightarrow> bit (bit_run k n :: u32) j" by (simp only: assms(1))
    with that show ?thesis by (simp add: bit_bit_run bit_ucast_iff)
  qed
  have top: "bit x (k + n - 1)" using b [of "k + n - 1"] assms(2,3) by simp
  then have "k + n - 1 < LENGTH('w)" by (rule bit_imp_le_length)
  moreover have "x = bit_run k n"
  proof (rule bit_word_eqI)
    fix j assume "j < LENGTH('w)"
    then show "bit x j \<longleftrightarrow> bit (bit_run k n :: 'w word) j" using b [of j] assms(4) by (simp add: bit_bit_run)
  qed
  ultimately show ?thesis using assms(3) by auto
qed

text \<open>The word types of the buffer.\<close>

definition buffer_word :: "'w::len itself \<Rightarrow> bool" where
  "buffer_word T \<longleftrightarrow> LENGTH('w) \<in> {8, 16, 32}"

lemma buffer_words [simp]: "buffer_word TYPE(8)" "buffer_word TYPE(16)" "buffer_word TYPE(32)"
  by (simp_all add: buffer_word_def)

lemma buffer_word_sized: "buffer_word TYPE('w::len) \<Longrightarrow> byte_sized TYPE('w) \<and> LENGTH('w) \<le> 32"
  by (auto simp: buffer_word_def byte_sized_def)

lemma taken_for_flip:
  fixes v :: "'w::len word"
  assumes e: "all_effective eff b" and w: "buffer_word TYPE('w)" and r: "i + LENGTH('w) div 8 \<le> length b"
    and c: "could_be_bitflip (ucast (peek i b XOR v))"
  shows "poke i v b \<in> set (bitflip_inputs eff b) \<or> spurious b (poke i v b)"
proof (cases "peek i b XOR v = 0")
  case True
  then have "v = peek i b" by (metis xor.assoc xor_self_eq xor.left_neutral xor.right_neutral)
  then show ?thesis using buffer_word_sized [OF w] r by (simp add: bitflip_inputs_def)
next
  case False
  have "(ucast (peek i b XOR v) :: u32) \<noteq> 0"
  proof
    assume z: "(ucast (peek i b XOR v) :: u32) = 0"
    have "(ucast (ucast (peek i b XOR v) :: u32) :: 'w word) = peek i b XOR v"
      using buffer_word_sized [OF w] by (intro bit_word_eqI) (auto simp: bit_ucast_iff)
    with z False show False by simp
  qed
  with c obtain k n where kn: "k + n \<le> 32" "flip_lengths k n" "(ucast (peek i b XOR v) :: u32) = bit_run k n"
    by (auto simp: could_be_bitflip_iff)
  then have n0: "0 < n" by (auto simp: flip_lengths_def)
  have run: "k + n \<le> LENGTH('w)" "peek i b XOR v = bit_run k n"
    using ucast_bit_run [OF kn(3,1) n0] buffer_word_sized [OF w] by auto
  have v: "v = peek i b XOR bit_run k n"
    using run(2) by (metis xor.assoc xor_self_eq xor.left_neutral)
  have bs: "byte_sized TYPE('w)" using buffer_word_sized [OF w] by simp
  then have L: "8 * (LENGTH('w) div 8) = LENGTH('w)" by (auto simp: byte_sized_def)
  define q s where "q = k div 8" and "s = k mod 8"
  have k: "k = 8 * q + s" "s < 8" by (simp_all add: q_def s_def)
  show ?thesis
  proof (cases "s + n \<le> 8")
    case True
    have "8 * q < LENGTH('w)" using run(1) k n0 by linarith
    then have q: "q + 1 \<le> LENGTH('w) div 8" using L by linarith
    have "poke i v b = poke (i + q) (peek (i + q) b XOR bit_run s n :: u8) b"
      unfolding v q_def s_def
      by (rule poke_run_narrow [OF bs byte_sized_words(1) r]) (use q True in \<open>simp_all add: q_def s_def\<close>)
    moreover have "n \<in> {1, 2, 4, 8}" using kn(2) True by (auto simp: flip_lengths_def)
    ultimately show ?thesis using flip_in_byte_run [OF e, of "i + q" n s] True q r by auto
  next
    case False
    show ?thesis
    proof (cases "n \<in> {2, 4}")
      case True
      have "q + 2 \<le> LENGTH('w) div 8" using run(1) k False L by linarith
      then have "poke i v b = poke (i + q) (peek (i + q) b XOR bit_run s n :: u16) b"
        unfolding v q_def s_def
        by (intro poke_run_narrow [OF bs byte_sized_words(2) r]) (use True k(2) in \<open>auto simp: q_def s_def\<close>)
      moreover have "Suc (i + q) < length b" using r \<open>q + 2 \<le> LENGTH('w) div 8\<close> by linarith
      ultimately have "spurious b (poke i v b)"
        unfolding spurious_def using True False k(2)
        by (intro exI [of _ "i + q"] exI [of _ n] exI [of _ s]) auto
      then show ?thesis ..
    next
      case large: False
      then have s0: "s = 0" "n \<in> {16, 32}"
        using kn(2) False by (auto simp: flip_lengths_def s_def dvd_eq_mod_eq_0)
      have q: "q + n div 8 \<le> LENGTH('w) div 8" using run(1) k s0 L by auto
      show ?thesis
      proof (cases "n = 16")
        case True
        have "poke i v b = poke (i + q) (peek (i + q) b XOR bit_run s n :: u16) b"
          unfolding v q_def s_def
          by (rule poke_run_narrow [OF bs byte_sized_words(2) r]) (use q True s0 in \<open>simp_all add: q_def s_def\<close>)
        moreover have "(bit_run s n :: u16) = 0xFFFF" using True s0 by (simp add: bit_run_def mask_eq_exp_minus_1)
        moreover have "i + q + 2 \<le> length b" using q True r by simp
        ultimately show ?thesis
          using flipped_wordsI [OF e, of "i + q" "0xFFFF :: u16"] by (auto simp: bitflip_inputs_def)
      next
        case False
        with s0 have n: "n = 32" by simp
        have "poke i v b = poke (i + q) (peek (i + q) b XOR bit_run s n :: u32) b"
          unfolding v q_def s_def
          by (rule poke_run_narrow [OF bs byte_sized_words(3) r]) (use q n s0 in \<open>simp_all add: q_def s_def\<close>)
        moreover have "(bit_run s n :: u32) = 0xFFFFFFFF" using n s0 by (simp add: bit_run_def mask_eq_exp_minus_1)
        moreover have "i + q + 4 \<le> length b" using q n r by simp
        ultimately show ?thesis
          using flipped_wordsI [OF e, of "i + q" "0xFFFFFFFF :: u32"] by (auto simp: bitflip_inputs_def)
      qed
    qed
  qed
qed
section \<open>No stage runs a spurious pattern\<close>

text \<open>The difference of an input to the buffer, byte by byte.\<close>

definition delta :: "bytes \<Rightarrow> bytes \<Rightarrow> nat \<Rightarrow> u8" where
  "delta b m q = b ! q XOR m ! q"

lemma delta_self [simp]: "delta b b q = 0"
  by (simp add: delta_def)

lemma delta_poke:
  fixes v :: "'w::len word"
  assumes "byte_sized TYPE('w)" "i + LENGTH('w) div 8 \<le> length b" "q < length b"
  shows "delta b (poke i v b) q = (if i \<le> q \<and> q < i + LENGTH('w) div 8 then byte_at (q - i) (peek i b XOR v) else 0)"
  using nth_poke [OF assms(2,3), of v] byte_at_peek [OF assms(1,2), of "q - i"]
  by (auto simp: delta_def byte_at_xor)

lemma delta_FLIP_BIT:
  assumes "c div 8 < length b" "q < length b"
  shows "bit (delta b (FLIP_BIT c b) q) r \<longleftrightarrow> r < 8 \<and> 8 * q + (7 - r) = c"
proof -
  have "delta b (FLIP_BIT c b) q = (if q = c div 8 then drop_bit (c mod 8) 128 else 0)"
    using assms by (simp add: delta_def nth_FLIP_BIT flip: xor.assoc)
  then have e: "bit (delta b (FLIP_BIT c b) q) r \<longleftrightarrow> q = c div 8 \<and> r + c mod 8 = 7"
    by (simp add: bit_128)
  also have "\<dots> \<longleftrightarrow> r < 8 \<and> 8 * q + (7 - r) = c"
  proof
    assume "q = c div 8 \<and> r + c mod 8 = 7"
    moreover have "8 * (c div 8) + c mod 8 = c" by simp
    ultimately show "r < 8 \<and> 8 * q + (7 - r) = c" by linarith
  next
    assume "r < 8 \<and> 8 * q + (7 - r) = c"
    then have "c = (7 - r) + 8 * q" "r < 8" by auto
    then have "c div 8 = q" "c mod 8 = 7 - r"
      by (simp_all only: div_mult_self2 mod_mult_self2) auto
    with \<open>r < 8\<close> show "q = c div 8 \<and> r + c mod 8 = 7" by simp
  qed
  finally show ?thesis .
qed

lemma delta_trans: "delta a c q = delta a b q XOR delta b c q"
  by (simp add: delta_def xor.assoc flip: xor.assoc [of "b ! q"])

lemma delta_flip_bits:
  assumes "c + n \<le> 8 * length b" "q < length b"
  shows "bit (delta b (flip_bits n c b) q) r \<longleftrightarrow> r < 8 \<and> c \<le> 8 * q + (7 - r) \<and> 8 * q + (7 - r) < c + n"
  using assms(1)
proof (induction n)
  case (Suc n)
  have l: "length (flip_bits n c b) = length b" by simp
  have "flip_bits (Suc n) c b = FLIP_BIT (c + n) (flip_bits n c b)" by simp
  moreover have "bit (delta (flip_bits n c b) (FLIP_BIT (c + n) (flip_bits n c b)) q) r \<longleftrightarrow> r < 8 \<and> 8 * q + (7 - r) = c + n"
    using Suc.prems assms(2) by (intro delta_FLIP_BIT) (auto simp: l)
  ultimately show ?case
    using Suc delta_trans [of b "flip_bits (Suc n) c b" q "flip_bits n c b"] by (auto simp: bit_xor_iff)
qed simp

text \<open>A spurious pattern changes the top bit of one byte, not its lowest bit, and the lowest bit of
  the next byte.\<close>

lemma spurious_delta:
  assumes "spurious b m"
  obtains p n k where "Suc p < length b" "n \<in> {2, 4}" "k < 8" "8 < k + n" "m = poke p (peek p b XOR bit_run k n :: u16) b"
    and "\<And>q. q < length b \<Longrightarrow> delta b m q = (if q = p \<or> q = Suc p then byte_at (q - p) (bit_run k n :: u16) else 0)"
proof -
  from assms obtain p n k where *: "Suc p < length b" "n \<in> {2, 4}" "k < 8" "8 < k + n"
    "m = poke p (peek p b XOR bit_run k n :: u16) b" by (auto simp: spurious_def)
  have "delta b m q = (if q = p \<or> q = Suc p then byte_at (q - p) (bit_run k n :: u16) else 0)"
    if q: "q < length b" for q
  proof -
    have "delta b m q = (if p \<le> q \<and> q < p + LENGTH(16) div 8
        then byte_at (q - p) (peek p b XOR (peek p b XOR bit_run k n) :: u16) else 0)"
      unfolding *(5) using *(1) q by (intro delta_poke) simp_all
    moreover have "(peek p b XOR (peek p b XOR bit_run k n) :: u16) = bit_run k n" by (simp flip: xor.assoc)
    ultimately show ?thesis by auto
  qed
  with * show thesis by (rule that)
qed

lemma spurious_bits:
  assumes "k < 8" "8 < k + n" "n \<in> {2, 4 :: nat}"
  shows "bit (byte_at 0 (bit_run k n :: u16)) 7" "\<not> bit (byte_at 0 (bit_run k n :: u16)) 0" "bit (byte_at (Suc 0) (bit_run k n :: u16)) 0"
  using assms by (auto simp: byte_at_bit_run)

lemma spurious_not_flipped:
  assumes "spurious b m"
  shows "m \<notin> set (bitflip_inputs eff b)"
proof
  obtain p n k where s: "Suc p < length b" "n \<in> {2, 4}" "k < 8" "8 < k + n"
    and d: "\<And>q. q < length b \<Longrightarrow> delta b m q = (if q = p \<or> q = Suc p then byte_at (q - p) (bit_run k n :: u16) else 0)"
    by (rule spurious_delta [OF assms]) (rule that)
  note bits = spurious_bits [OF s(3,4,2)]
  have dp: "bit (delta b m p) 7" "\<not> bit (delta b m p) 0" "bit (delta b m (Suc p)) 0"
    using d [of p] d [of "Suc p"] s(1) bits by simp_all
  have flips: "m \<noteq> flip_bits l c b" if "l \<le> 4" "c + l \<le> 8 * length b" for l c
    using delta_flip_bits [OF that(2), of p 7] delta_flip_bits [OF that(2), of "Suc p" 0] dp(1,3) s(1) that(1) by auto
  have words: "m \<noteq> poke i (peek i b XOR ones) b"
    if w: "byte_sized TYPE('l)" "i + LENGTH('l) div 8 \<le> length b"
      and ones: "\<And>j. j < LENGTH('l) div 8 \<Longrightarrow> bit (byte_at j ones) 0" for i and ones :: "'l::len word"
  proof
    assume m: "m = poke i (peek i b XOR ones) b"
    have "delta b m p = (if i \<le> p \<and> p < i + LENGTH('l) div 8
        then byte_at (p - i) (peek i b XOR (peek i b XOR ones)) else 0)"
      unfolding m using w s(1) by (intro delta_poke) simp_all
    moreover have "peek i b XOR (peek i b XOR ones) = ones" by (simp flip: xor.assoc)
    ultimately have "bit (delta b m p) 7 \<longrightarrow> bit (delta b m p) 0" using ones [of "p - i"] by auto
    with dp show False by simp
  qed
  have ones: "\<And>j. j < LENGTH(8) div 8 \<Longrightarrow> bit (byte_at j (0xFF :: u8)) 0"
    "\<And>j. j < LENGTH(16) div 8 \<Longrightarrow> bit (byte_at j (0xFFFF :: u16)) 0"
    "\<And>j. j < LENGTH(32) div 8 \<Longrightarrow> bit (byte_at j (0xFFFFFFFF :: u32)) 0"
  proof -
    have e: "(0xFF :: u8) = mask 8" "(0xFFFF :: u16) = mask 16" "(0xFFFFFFFF :: u32) = mask 32"
      by (simp_all add: mask_eq_exp_minus_1)
    show "\<And>j. j < LENGTH(8) div 8 \<Longrightarrow> bit (byte_at j (0xFF :: u8)) 0"
      "\<And>j. j < LENGTH(16) div 8 \<Longrightarrow> bit (byte_at j (0xFFFF :: u16)) 0"
      "\<And>j. j < LENGTH(32) div 8 \<Longrightarrow> bit (byte_at j (0xFFFFFFFF :: u32)) 0"
      unfolding e by (simp_all add: bit_byte_at bit_mask_iff)
  qed
  have mb: "m \<noteq> b" using dp(1) by auto
  have word_at: "\<exists>i. i + LENGTH('l) div 8 \<le> length b \<and> m = poke i (peek i b XOR ones) b"
    if "m \<in> set (flipped_words eff ones b)" for ones :: "'l::len word"
  proof -
    from that obtain i where "i < Suc (length b) - LENGTH('l) div 8" "m = poke i (peek i b XOR ones) b"
      unfolding flipped_words_def by auto
    moreover have "i + LENGTH('l) div 8 \<le> length b" using calculation(1) by linarith
    ultimately show ?thesis by blast
  qed
  assume "m \<in> set (bitflip_inputs eff b)"
  then consider "m = b" | l where "l \<in> {1, 2, 4}" "m \<in> set (flipped_inputs eff l b)"
    | "m \<in> set (flipped_words eff (0xFF :: u8) b)" | "m \<in> set (flipped_words eff (0xFFFF :: u16) b)"
    | "m \<in> set (flipped_words eff (0xFFFFFFFF :: u32) b)"
    unfolding bitflip_inputs_def by (auto split: if_splits)
  then show False
  proof cases
    case 1
    with mb show False by simp
  next
    case 2
    then obtain c where c: "c < 8 * length b - (l - 1)" "m = flip_bits l c b"
      unfolding flipped_inputs_def by auto
    moreover have "c + l \<le> 8 * length b" "l \<le> 4" using c(1) 2(1) by auto
    ultimately show False using flips [of l c] by simp
  next
    case 3
    from word_at [OF this] show False using words [OF byte_sized_words(1) _ ones(1)] by blast
  next
    case 4
    from word_at [OF this] show False using words [OF byte_sized_words(2) _ ones(2)] by blast
  next
    case 5
    from word_at [OF this] show False using words [OF byte_sized_words(3) _ ones(3)] by blast
  qed
qed

text \<open>In a wider word, or in its own, a spurious pattern is taken for the product of a flip.\<close>

lemma spurious_taken:
  fixes v :: "'w::len word"
  assumes "spurious b (poke i v b)" and w: "buffer_word TYPE('w)" and r: "i + LENGTH('w) div 8 \<le> length b"
  shows "could_be_bitflip (ucast (peek i b XOR v))"
proof -
  let ?n = "LENGTH('w) div 8"
  obtain p n k where s: "Suc p < length b" "n \<in> {2, 4}" "k < 8" "8 < k + n"
    and d: "\<And>q. q < length b \<Longrightarrow>
      delta b (poke i v b) q = (if q = p \<or> q = Suc p then byte_at (q - p) (bit_run k n :: u16) else 0)"
    by (rule spurious_delta [OF assms(1)]) (rule that)
  note bits = spurious_bits [OF s(3,4,2)]
  have bs: "byte_sized TYPE('w)" "LENGTH('w) \<le> 32" using buffer_word_sized [OF w] by auto
  then have L: "8 * ?n = LENGTH('w)" by (auto simp: byte_sized_def)
  note dw = delta_poke [OF bs(1) r, of _ v]
  have "delta b (poke i v b) p \<noteq> 0" "delta b (poke i v b) (Suc p) \<noteq> 0"
    using d [of p] d [of "Suc p"] s(1) bits(1,3) by auto
  then have p: "i \<le> p" "Suc p < i + ?n" using dw [of p] dw [of "Suc p"] s(1) by (auto split: if_splits)
  have "(ucast (peek i b XOR v) :: u32) = bit_run (8 * (p - i) + k) n"
  proof (rule bit_word_eqI)
    fix j assume "j < LENGTH(32)"
    define q c where "q = j div 8" and "c = j mod 8"
    have j: "j = 8 * q + c" "c < 8" by (simp_all add: q_def c_def)
    show "bit (ucast (peek i b XOR v) :: u32) j \<longleftrightarrow> bit (bit_run (8 * (p - i) + k) n :: u32) j"
    proof (cases "j < LENGTH('w)")
      case True
      then have q: "q < ?n" using j L by linarith
      then have iq: "i + q < length b" using r by simp
      have "bit (peek i b XOR v) j \<longleftrightarrow> bit (byte_at q (peek i b XOR v)) c" using j by (simp add: bit_byte_at)
      also have "\<dots> \<longleftrightarrow> bit (delta b (poke i v b) (i + q)) c" using dw [OF iq] q by simp
      also have "\<dots> \<longleftrightarrow> 8 * (p - i) + k \<le> j \<and> j < 8 * (p - i) + k + n"
      proof -
        consider "i + q = p" | "i + q = Suc p" | "i + q \<noteq> p \<and> i + q \<noteq> Suc p" by blast
        then show ?thesis
        proof cases
          case 1
          then have "p - i = q" by simp
          then show ?thesis using d [OF iq] 1 j byte_at_bit_run [of 0 c k n, where 'w = 16] by auto
        next
          case 2
          then have "q = Suc (p - i)" using p by simp
          then show ?thesis using d [OF iq] 2 j byte_at_bit_run [of 1 c k n, where 'w = 16] by auto
        next
          case 3
          then have "q < p - i \<or> Suc (p - i) < q" using p by auto
          then show ?thesis using d [OF iq] 3 j s(2,3,4) by auto
        qed
      qed
      finally show ?thesis using \<open>j < LENGTH(32)\<close> True by (simp add: bit_ucast_iff bit_bit_run)
    next
      case False
      have "Suc (Suc (p - i)) \<le> ?n" using p by linarith
      then have "8 * Suc (Suc (p - i)) \<le> 8 * ?n" by (rule mult_le_mono2)
      then have "8 * (p - i) + k + n \<le> LENGTH('w)" unfolding L using s(2,3) by auto
      with False show ?thesis by (auto simp: bit_ucast_iff bit_bit_run dest: bit_imp_le_length)
    qed
  qed
  moreover have "8 * (p - i) + k + n \<le> 32" using p s(2,3) L bs(2) by auto
  ultimately show ?thesis using could_be_bitflip_run [of "8 * (p - i) + k" n] s(2) by (auto simp: flip_lengths_def)
qed
lemma word_inputsE:
  assumes "m \<in> set (word_inputs eff tries b)"
  obtains i and v :: "'l::len word" where "i + LENGTH('l) div 8 \<le> length b" "(True, v) \<in> set (tries (peek i b))" "m = poke i v b"
proof -
  from assms obtain i where i: "i < Suc (length b) - LENGTH('l) div 8" "m \<in> set (tried i b (tries (peek i b)))"
    unfolding word_inputs_def by (auto split: if_splits)
  then obtain v where "(True, v) \<in> set (tries (peek i b))" "m = poke i v b" by (auto simp: set_tried)
  moreover have "i + LENGTH('l) div 8 \<le> length b" using i(1) by linarith
  ultimately show thesis using that by blast
qed

definition not_flip :: "'l::len word \<Rightarrow> 'l word \<Rightarrow> bool" where
  "not_flip orig v \<longleftrightarrow> \<not> could_be_bitflip (ucast (orig XOR v))"

lemma tries_not_flip:
  "(True, v8) \<in> set (over_arith arith8_tries o8) \<Longrightarrow> not_flip o8 v8"
  "(True, v16) \<in> set (over_arith arith16_tries o16) \<Longrightarrow> not_flip o16 v16"
  "(True, v32) \<in> set (over_arith arith32_tries o32) \<Longrightarrow> not_flip o32 v32"
  "(True, v8) \<in> set (concat (map (interest8_tries o8) xs8)) \<Longrightarrow> not_flip o8 v8"
  "(True, v16) \<in> set (concat (map (interest16_tries o16) xs16)) \<Longrightarrow> not_flip o16 v16"
  "(True, v32) \<in> set (concat (map (interest32_tries o32) xs32)) \<Longrightarrow> not_flip o32 v32"
  by (auto simp: over_arith_def arith8_tries_def arith16_tries_def arith32_tries_def Let_def
      interest8_tries_def interest16_tries_def interest32_tries_def not_flip_def)

lemma spurious_not_tried:
  fixes tries :: "'l::len word \<Rightarrow> (bool \<times> 'l word) list"
  assumes s: "spurious b m" and w: "buffer_word TYPE('l)"
    and n: "\<And>orig v. (True, v) \<in> set (tries orig) \<Longrightarrow> not_flip orig v"
  shows "m \<notin> set (word_inputs eff tries b)"
proof
  assume "m \<in> set (word_inputs eff tries b)"
  then obtain i v where *: "i + LENGTH('l) div 8 \<le> length b" "(True, v) \<in> set (tries (peek i b))" "m = poke i v b"
    by (rule word_inputsE)
  show False using spurious_taken [OF s [unfolded *(3)] w *(1)] n [OF *(2)] by (simp add: not_flip_def)
qed

lemma spurious_never_run:
  assumes "spurious b m"
  shows "m \<notin> set (bitflip_inputs eff b)" "m \<notin> set (arith_inputs eff b)" "m \<notin> set (interest_inputs only8 eff b)"
proof -
  note none = spurious_not_tried [OF assms, where eff = eff]
  show "m \<notin> set (bitflip_inputs eff b)" by (rule spurious_not_flipped [OF assms])
  show "m \<notin> set (arith_inputs eff b)"
    using none [OF buffer_words(1) tries_not_flip(1)] none [OF buffer_words(2) tries_not_flip(2)]
      none [OF buffer_words(3) tries_not_flip(3)]
    unfolding arith_inputs_def by (simp add: if_distrib [of set])
  have n8: "m \<notin> set (word_inputs eff (\<lambda>orig. concat (map (interest8_tries orig) interesting_8)) b)"
    by (rule none [OF buffer_words(1)]) (rule tries_not_flip(4))
  have n16: "m \<notin> set (word_inputs eff (\<lambda>orig. concat (map (interest16_tries orig) interesting_16)) b)"
    by (rule none [OF buffer_words(2)]) (rule tries_not_flip(5))
  have n32: "m \<notin> set (word_inputs eff (\<lambda>orig. concat (map (interest32_tries orig) interesting_32)) b)"
    by (rule none [OF buffer_words(3)]) (rule tries_not_flip(6))
  show "m \<notin> set (interest_inputs only8 eff b)"
    unfolding interest_inputs_def using n8 n16 n32 by (simp only: set_append Un_iff if_distrib [of set] list.set(1)) auto
qed

end
