(* ===== verification/Det_Lossless.thy ===== *)
theory Det_Lossless
  imports Det_Flips
begin

text \<open>
  Every product of the stages of additions and interesting values is run by one of the deterministic
  stages, unless it is one of the patterns that are only taken for a flip: the round as a whole.
\<close>

section \<open>What the arithmetic stages leave out\<close>

lemma poke_narrowI:
  fixes v :: "'w::len word" and x :: "'l::len word"
  assumes w: "byte_sized TYPE('w)" and r: "i + LENGTH('w) div 8 \<le> length b" "k + LENGTH('l) div 8 \<le> LENGTH('w) div 8"
    and v: "\<And>j. j < LENGTH('w) div 8 \<Longrightarrow>
      byte_at j v = (if k \<le> j \<and> j < k + LENGTH('l) div 8 then byte_at (j - k) x else byte_at j (peek i b :: 'w word))"
  shows "poke i v b = poke (i + k) x b"
proof (rule nth_equalityI)
  show "length (poke i v b) = length (poke (i + k) x b)" using r by simp
  fix p assume "p < length (poke i v b)"
  then have p: "p < length b" using r by simp
  have r': "i + k + LENGTH('l) div 8 \<le> length b" using r by simp
  show "poke i v b ! p = poke (i + k) x b ! p"
  proof (cases "i \<le> p \<and> p < i + LENGTH('w) div 8")
    case True
    then have j: "p - i < LENGTH('w) div 8" "p = i + (p - i)" by auto
    then show ?thesis
      unfolding nth_poke [OF r(1) p] nth_poke [OF r' p]
      using True v [OF j(1)] byte_at_peek [OF w r(1) j(1)] by (auto simp: diff_diff_left)
  next
    case False
    then show ?thesis using nth_poke [OF r(1) p, of v] nth_poke [OF r' p, of x] r by auto
  qed
qed

lemma byte_at_SWAP16: "j < 2 \<Longrightarrow> byte_at j (SWAP16 x) = byte_at (1 - j) x"
proof (rule bit_word_eqI)
  fix r assume j: "j < 2" and "r < LENGTH(8)"
  then have "r < 8" by simp
  moreover have "\<not> bit x (16 + r)" using bit_imp_le_length [of x "16 + r"] by auto
  moreover have "j = 0 \<or> j = 1" using j by auto
  ultimately show "bit (byte_at j (SWAP16 x)) r \<longleftrightarrow> bit (byte_at (1 - j) x) r"
    by (elim disjE) (simp_all add: bit_byte_at SWAP16_def bit_or_iff bit_push_bit_iff bit_drop_bit_eq)
qed

lemma byte_at_SWAP32: "j < 4 \<Longrightarrow> byte_at j (SWAP32 x) = byte_at (3 - j) x"
proof (rule bit_word_eqI)
  fix r assume j: "j < 4" and "r < LENGTH(8)"
  then have "r < 8" by simp
  moreover have "j = 0 \<or> j = 1 \<or> j = 2 \<or> j = 3" using j by auto
  ultimately show "bit (byte_at j (SWAP32 x)) r \<longleftrightarrow> bit (byte_at (3 - j) x) r"
    using bit_bytes32 [of r x] by (elim disjE) (simp_all add: bit_byte_at)
qed

lemma byte_at_drop_bit: "byte_at j (drop_bit (8 * m) w) = byte_at (m + j) w"
  by (simp add: byte_at_def drop_bit_drop_bit algebra_simps)

lemma drop_bit_add:
  fixes w :: "'w::len word"
  assumes "unat w mod 2 ^ m + d < 2 ^ m" "m \<le> LENGTH('w)"
  shows "drop_bit m (w + of_nat d) = drop_bit m w" "unat (w + of_nat d) = unat w + d"
proof -
  have eq: "unat w = 2 ^ m * (unat w div 2 ^ m) + unat w mod 2 ^ m" by simp
  have lt: "unat w < 2 ^ LENGTH('w)" by (rule unsigned_less)
  have "unat w div 2 ^ m < 2 ^ (LENGTH('w) - m)"
    using lt assms(2) by (simp add: div_less_iff_less_mult flip: power_add)
  then have "2 ^ m * Suc (unat w div 2 ^ m) \<le> 2 ^ m * 2 ^ (LENGTH('w) - m)" by (intro mult_le_mono2) simp
  then have "2 ^ m * (unat w div 2 ^ m) + 2 ^ m \<le> 2 ^ LENGTH('w)"
    using assms(2) by (simp add: algebra_simps flip: power_add)
  then have sum: "unat w + d < 2 ^ LENGTH('w)"
    using assms(1) eq by linarith
  then have d: "d < 2 ^ LENGTH('w)" by linarith
  show u: "unat (w + of_nat d) = unat w + d"
    using sum d by (simp add: unat_word_ariths unat_of_nat take_bit_nat_eq_self)
  define h where "h = unat w div 2 ^ m"
  have "unat w + d = (unat w mod 2 ^ m + d) + 2 ^ m * h" using eq unfolding h_def by linarith
  then have "(unat w + d) div 2 ^ m = ((unat w mod 2 ^ m + d) + 2 ^ m * h) div 2 ^ m" by (rule arg_cong)
  also have "\<dots> = h" using assms(1) by simp
  finally have "(unat w + d) div 2 ^ m = unat w div 2 ^ m" unfolding h_def .
  then have "unat (drop_bit m (w + of_nat d)) = unat (drop_bit m w)"
    unfolding unat_drop_bit_eq u by (simp add: drop_bit_eq_div)
  then show "drop_bit m (w + of_nat d) = drop_bit m w" by (simp only: word_unat_eq_iff)
qed

lemma drop_bit_sub:
  fixes w :: "'w::len word"
  assumes "d \<le> unat w mod 2 ^ m" "m \<le> LENGTH('w)"
  shows "drop_bit m (w - of_nat d) = drop_bit m w"
proof -
  have "d \<le> unat w" using assms(1) mod_less_eq_dividend order_trans by blast
  then have dl: "d < 2 ^ LENGTH('w)" using unsigned_less [of w] by (metis le_less_trans)
  have u: "unat (w - of_nat d) = unat w - d"
    using \<open>d \<le> unat w\<close> dl by (subst unat_sub) (simp_all add: word_le_nat_alt unat_of_nat take_bit_nat_eq_self)
  have s: "unat w - d = 2 ^ m * (unat w div 2 ^ m) + (unat w mod 2 ^ m - d)"
    using assms(1) by (metis Nat.add_diff_assoc mult_div_mod_eq)
  have "(unat w mod 2 ^ m - d) + d < 2 ^ m" using assms(1) by simp
  moreover have "unat (w - of_nat d) mod 2 ^ m = unat w mod 2 ^ m - d"
  proof -
    have "unat w mod 2 ^ m - d < 2 ^ m"
      by (rule le_less_trans [OF diff_le_self]) simp
    then show ?thesis unfolding u s by simp
  qed
  ultimately have "unat (w - of_nat d) mod 2 ^ m + d < 2 ^ m" by simp
  from drop_bit_add(1) [OF this assms(2)] show ?thesis by simp
qed

text \<open>A change of the low part of a word that leaves the rest alone is a change of the narrower word.\<close>

lemma low_change:
  fixes v :: "'w::len word"
  assumes w: "byte_sized TYPE('w)" "byte_sized TYPE('l::len)" and r: "i + LENGTH('w) div 8 \<le> length b" "LENGTH('l) \<le> LENGTH('w)"
    and v: "drop_bit LENGTH('l) v = drop_bit LENGTH('l) (peek i b)"
  shows "poke i v b = poke i (ucast v :: 'l word) b"
proof -
  obtain m where m: "LENGTH('l) = 8 * m" using w(2) by (auto simp: byte_sized_def)
  have L: "8 * (LENGTH('w) div 8) = LENGTH('w)" using w(1) by (simp add: byte_sized_def)
  have "byte_at j v = (if 0 \<le> j \<and> j < 0 + LENGTH('l) div 8 then byte_at (j - 0) (ucast v :: 'l word)
      else byte_at j (peek i b :: 'w word))" if "j < LENGTH('w) div 8" for j
  proof (cases "j < m")
    case True
    then show ?thesis using m that L by (simp add: byte_at_ucast)
  next
    case False
    then have "byte_at j v = byte_at (j - m) (drop_bit (8 * m) v)" by (simp add: byte_at_drop_bit)
    also have "\<dots> = byte_at j (peek i b :: 'w word)" using False v by (simp add: m byte_at_drop_bit)
    finally show ?thesis using False m by simp
  qed
  from poke_narrowI [OF w(1) r(1) _ this] show ?thesis using r(2) by (simp add: div_le_mono)
qed

lemma ucast_peek:
  assumes "byte_sized TYPE('w::len)" "byte_sized TYPE('l::len)" "i + LENGTH('w) div 8 \<le> length b" "LENGTH('l) \<le> LENGTH('w)"
  shows "(ucast (peek i b :: 'w word) :: 'l word) = peek i b"
proof (rule word_eq_bytesI [of "LENGTH('l) div 8"])
  show "8 * (LENGTH('l) div 8) = LENGTH('l)" using assms(2) by (simp add: byte_sized_def)
  fix k assume k: "k < LENGTH('l) div 8"
  have le: "LENGTH('l) div 8 \<le> LENGTH('w) div 8" using assms(4) by (rule div_le_mono)
  have "8 * k + 8 \<le> LENGTH('l)" using k by linarith
  then have "byte_at k (ucast (peek i b :: 'w word) :: 'l word) = byte_at k (peek i b :: 'w word)"
    using assms(4) by (intro byte_at_ucast) auto
  also have "\<dots> = b ! (i + k)" using byte_at_peek [OF assms(1,3)] k le by simp
  also have "\<dots> = byte_at k (peek i b :: 'l word)" using byte_at_peek [OF assms(2), of i b k] assms(3) k le by simp
  finally show "byte_at k (ucast (peek i b :: 'w word) :: 'l word) = byte_at k (peek i b :: 'l word)" .
qed

lemma ucast_down:
  assumes "LENGTH('l::len) \<le> LENGTH('w::len)"
  shows "(ucast (a + b :: 'w word) :: 'l word) = ucast a + ucast b" "(ucast (a - b :: 'w word) :: 'l word) = ucast a - ucast b"
    "(ucast (of_nat d :: 'w word) :: 'l word) = of_nat d"
  subgoal using assms by transfer (metis take_bit_add take_bit_take_bit min.absorb1)
  subgoal using assms by transfer (metis take_bit_diff take_bit_take_bit min.absorb1)
  subgoal using assms by transfer (simp add: min_def)
  done

lemma near_ucast:
  assumes "near (a :: 'w::len word) b" "LENGTH('l::len) \<le> LENGTH('w)"
  shows "near (ucast a :: 'l word) (ucast b)"
  using assms(1) unfolding near_def by (auto simp: ucast_down [OF assms(2)])

text \<open>The products of the arithmetic stages: a byte, or a word in either byte order, moved by at most
  \<open>ARITH_MAX\<close>.\<close>

definition arith_mutant :: "bytes \<Rightarrow> bytes \<Rightarrow> bool" where
  "arith_mutant b m \<longleftrightarrow>
     (\<exists>i v. i + 1 \<le> length b \<and> near (peek i b :: u8) v \<and> m = poke i v b)
     \<or> (\<exists>i v. i + 2 \<le> length b \<and> (near (peek i b :: u16) v \<or> near (SWAP16 (peek i b)) (SWAP16 v)) \<and> m = poke i v b)
     \<or> (\<exists>i v. i + 4 \<le> length b \<and> (near (peek i b :: u32) v \<or> near (SWAP32 (peek i b)) (SWAP32 v)) \<and> m = poke i v b)"

definition run_by_arith :: "bytes \<Rightarrow> bytes \<Rightarrow> bytes \<Rightarrow> bool" where
  "run_by_arith eff b m \<longleftrightarrow> m \<in> set (bitflip_inputs eff b) \<union> set (arith_inputs eff b) \<or> spurious b m"

lemma word_inputsI:
  fixes tries :: "'l::len word \<Rightarrow> (bool \<times> 'l word) list"
  assumes "all_effective eff b" "i + LENGTH('l) div 8 \<le> length b" "8 \<le> LENGTH('l)" "(True, v) \<in> set (tries (peek i b))"
  shows "poke i v b \<in> set (word_inputs eff tries b)"
proof -
  have "0 < LENGTH('l) div 8" using assms(3) by (simp add: div_greater_zero_iff)
  then have "i < length b" using assms(2) by linarith
  then show ?thesis using assms
    by (auto simp: word_inputs_def all_effective_def set_tried intro!: bexI [of _ i])
qed

lemma unchanged_run:
  assumes "byte_sized TYPE('w::len)" "i + LENGTH('w) div 8 \<le> length b"
  shows "run_by_arith eff b (poke i (peek i b :: 'w word) b)"
  using assms by (simp add: run_by_arith_def bitflip_inputs_def)

lemma flip_run:
  fixes v :: "'w::len word"
  assumes "all_effective eff b" "buffer_word TYPE('w)" "i + LENGTH('w) div 8 \<le> length b"
    "could_be_bitflip (ucast (peek i b XOR v))"
  shows "run_by_arith eff b (poke i v b)"
  using taken_for_flip [OF assms] by (auto simp: run_by_arith_def)

lemma nearE:
  assumes "near a v"
  obtains (same) "v = a" | (plus) d where "1 \<le> d" "d \<le> ARITH_MAX" "v = a + of_nat d"
    | (minus) d where "1 \<le> d" "d \<le> ARITH_MAX" "v = a - of_nat d"
proof -
  from assms obtain d where d: "d \<le> ARITH_MAX" "v = a + of_nat d \<or> v = a - of_nat d" by (auto simp: near_def)
  show thesis
  proof (cases "d = 0")
    case True
    then show thesis using d(2) same by simp
  next
    case False
    then have "1 \<le> d" by simp
    with d plus [of d] minus [of d] show thesis by blast
  qed
qed

lemma arith8_run:
  assumes e: "all_effective eff b" and r: "i + 1 \<le> length b" and n: "near (peek i b :: u8) v"
  shows "run_by_arith eff b (poke i v b)"
proof (cases "could_be_bitflip (ucast (peek i b XOR v))")
  case True
  then show ?thesis using e r by (intro flip_run) auto
next
  case False
  have "poke i v b \<in> set (word_inputs eff (over_arith arith8_tries) b)"
    if "(True, v) \<in> set (over_arith arith8_tries (peek i b))"
    using word_inputsI [OF e, where tries = "over_arith arith8_tries" and v = v and i = i] that r by simp
  moreover have "v = peek i b \<or> (True, v) \<in> set (over_arith arith8_tries (peek i b))"
    using n
  proof (cases rule: nearE)
    case (plus d)
    with False show ?thesis by (auto simp: over_arith_def arith8_tries_def intro!: bexI [of _ d])
  next
    case (minus d)
    with False show ?thesis by (auto simp: over_arith_def arith8_tries_def intro!: bexI [of _ d])
  qed simp
  ultimately show ?thesis
    using r unchanged_run [of i b eff, where 'w = 8] by (auto simp: run_by_arith_def arith_inputs_def)
qed

lemma and_low: "unat (x AND 0xff :: u16) = unat x mod 2 ^ 8" "unat (y AND 0xffff :: u32) = unat y mod 2 ^ 16"
  using unat_and_mask_pow2 [of 256 8 x] unat_and_mask_pow2 [of 65536 16 y] by simp_all

lemma high_byte16: "unat (drop_bit 8 x :: u16) = unat (SWAP16 x) mod 2 ^ 8"
proof -
  have e: "(0xff :: u16) = mask 8" by (simp add: mask_eq_exp_minus_1)
  have "SWAP16 x AND 0xff = drop_bit 8 x"
  proof (rule bit_word_eqI)
    fix j assume "j < LENGTH(16)"
    then have j: "j < 16" by simp
    have "\<not> bit x (j + 8)" if "8 \<le> j" using that bit_imp_le_length [of x "j + 8"] by auto
    then show "bit (SWAP16 x AND 0xff) j \<longleftrightarrow> bit (drop_bit 8 x) j"
      unfolding e SWAP16_def bit_and_iff bit_or_iff bit_push_bit_iff bit_drop_bit_eq comp_apply bit_mask_iff
      using j by (cases "j < 8") (auto simp: add.commute)
  qed
  then show ?thesis using and_low(1) [of "SWAP16 x"] by simp
qed

text \<open>Without a carry out of the low byte only that byte changes; in big-endian order it is the second.\<close>

lemma carry_free16:
  assumes r: "i + 2 \<le> length b" and n: "near (w :: u16) v"
    and d: "drop_bit 8 v = drop_bit 8 w" and e: "all_effective eff b"
  shows "w = peek i b \<Longrightarrow> run_by_arith eff b (poke i v b)"
    and "w = SWAP16 (peek i b) \<Longrightarrow> run_by_arith eff b (poke i (SWAP16 v) b)"
proof -
  have n8: "near (ucast w :: u8) (ucast v)" by (rule near_ucast [OF n]) simp
  show "run_by_arith eff b (poke i v b)" if w: "w = peek i b"
  proof -
    have "poke i v b = poke i (ucast v :: u8) b" using low_change [of i b v, where 'l = 8] r d w by simp
    moreover have "(ucast w :: u8) = peek i b" unfolding w using ucast_peek [of i b, where 'w = 16 and 'l = 8] r by simp
    ultimately show ?thesis using arith8_run [OF e, of i "ucast v"] n8 r by simp
  qed
  show "run_by_arith eff b (poke i (SWAP16 v) b)" if w: "w = SWAP16 (peek i b)"
  proof -
    have hi: "byte_at 1 v = byte_at 0 (drop_bit 8 v)" "byte_at 1 w = byte_at 0 (drop_bit 8 w)"
      using byte_at_drop_bit [of 0 1 v] byte_at_drop_bit [of 0 1 w] by simp_all
    have lo: "(ucast w :: u8) = b ! (i + 1)"
      using byte_at_peek [of i b 1, where 'l = 16] r byte_at_SWAP16 [of 0 "peek i b"] by (simp add: w byte_at_def)
    have "byte_at j (SWAP16 v) = (if 1 \<le> j \<and> j < 1 + LENGTH(8) div 8 then byte_at (j - 1) (ucast v :: u8)
        else byte_at j (peek i b :: u16))" if "j < LENGTH(16) div 8" for j
    proof -
      have "j = 0 \<or> j = 1" using that by auto
      then show ?thesis
      proof
        assume j: "j = 0"
        have "byte_at 0 (SWAP16 v) = byte_at 1 w" using byte_at_SWAP16 [of 0 v] hi d by simp
        also have "\<dots> = byte_at 0 (peek i b :: u16)" using byte_at_SWAP16 [of 1 "peek i b"] by (simp add: w)
        finally show ?thesis using j by simp
      next
        assume j: "j = 1"
        then show ?thesis using byte_at_SWAP16 [of 1 v] by (simp add: byte_at_def)
      qed
    qed
    from poke_narrowI [OF byte_sized_words(2) _ _ this] have "poke i (SWAP16 v) b = poke (i + 1) (ucast v :: u8) b"
      using r by simp
    then show ?thesis using arith8_run [OF e, of "i + 1" "ucast v"] n8 r lo by simp
  qed
qed

lemma arith16_le_run:
  assumes e: "all_effective eff b" and r: "i + 2 \<le> length b" and n: "near (peek i b :: u16) v"
  shows "run_by_arith eff b (poke i v b)"
proof (cases "could_be_bitflip (ucast (peek i b XOR v))")
  case True
  then show ?thesis using e r by (intro flip_run) auto
next
  case False
  have tried: "run_by_arith eff b (poke i v b)" if "(True, v) \<in> set (over_arith arith16_tries (peek i b))"
    using word_inputsI [OF e, where tries = "over_arith arith16_tries" and v = v and i = i] that r
    by (auto simp: run_by_arith_def arith_inputs_def)
  show ?thesis
    using n
  proof (cases rule: nearE)
    case same
    then show ?thesis using unchanged_run [of i b eff, where 'w = 16] r by simp
  next
    case (plus d)
    show ?thesis
    proof (cases "unat (peek i b AND 0xff :: u16) + d > 0xff")
      case True
      then show ?thesis using plus False
        by (intro tried) (auto simp: over_arith_def arith16_tries_def Let_def intro!: bexI [of _ d])
    next
      case fits: False
      then have "drop_bit 8 v = drop_bit 8 (peek i b :: u16)"
        unfolding plus(3) and_low(1) by (intro drop_bit_add(1)) auto
      then show ?thesis using carry_free16(1) [OF r n _ e refl] by simp
    qed
  next
    case (minus d)
    show ?thesis
    proof (cases "unat (peek i b AND 0xff :: u16) < d")
      case True
      then show ?thesis using minus False
        by (intro tried) (auto simp: over_arith_def arith16_tries_def Let_def intro!: bexI [of _ d])
    next
      case fits: False
      then have "drop_bit 8 v = drop_bit 8 (peek i b :: u16)"
        unfolding minus(3) and_low(1) by (intro drop_bit_sub) auto
      then show ?thesis using carry_free16(1) [OF r n _ e refl] by simp
    qed
  qed
qed

lemma arith16_be_run:
  assumes e: "all_effective eff b" and r: "i + 2 \<le> length b" and n: "near (SWAP16 (peek i b)) u"
  shows "run_by_arith eff b (poke i (SWAP16 u) b)"
proof (cases "could_be_bitflip (ucast (peek i b XOR SWAP16 u))")
  case True
  then show ?thesis using e r by (intro flip_run) auto
next
  case False
  have tried: "run_by_arith eff b (poke i (SWAP16 u) b)" if "(True, SWAP16 u) \<in> set (over_arith arith16_tries (peek i b))"
    using word_inputsI [OF e, where tries = "over_arith arith16_tries" and v = "SWAP16 u" and i = i] that r
    by (auto simp: run_by_arith_def arith_inputs_def)
  show ?thesis
    using n
  proof (cases rule: nearE)
    case same
    then show ?thesis using unchanged_run [of i b eff, where 'w = 16] r by simp
  next
    case (plus d)
    show ?thesis
    proof (cases "unat (drop_bit 8 (peek i b) :: u16) + d > 0xff")
      case True
      then show ?thesis using plus False
        by (intro tried) (auto simp: over_arith_def arith16_tries_def Let_def intro!: bexI [of _ d])
    next
      case fits: False
      then have "drop_bit 8 u = drop_bit 8 (SWAP16 (peek i b))"
        unfolding plus(3) high_byte16 by (intro drop_bit_add(1)) auto
      then show ?thesis using carry_free16(2) [OF r n _ e refl] by simp
    qed
  next
    case (minus d)
    show ?thesis
    proof (cases "unat (drop_bit 8 (peek i b) :: u16) < d")
      case True
      then show ?thesis using minus False
        by (intro tried) (auto simp: over_arith_def arith16_tries_def Let_def intro!: bexI [of _ d])
    next
      case fits: False
      then have "drop_bit 8 u = drop_bit 8 (SWAP16 (peek i b))"
        unfolding minus(3) high_byte16 by (intro drop_bit_sub) auto
      then show ?thesis using carry_free16(2) [OF r n _ e refl] by simp
    qed
  qed
qed
lemma small_word: "d \<le> ARITH_MAX \<Longrightarrow> unat (of_nat d :: u32) = d"
  by (simp add: unat_of_nat take_bit_nat_eq_self)

lemma carry_test32:
  assumes "d \<le> ARITH_MAX"
  shows "(w AND 0xffff) + of_nat d > (0xffff :: u32) \<longleftrightarrow> unat w mod 2 ^ 16 + d > 0xffff"
    and "(w AND 0xffff) < (of_nat d :: u32) \<longleftrightarrow> unat w mod 2 ^ 16 < d"
proof -
  have l: "unat (w AND 0xffff) < 65536" using and_low(2) [of w] by simp
  have "unat ((w AND 0xffff) + of_nat d) = unat (w AND 0xffff) + d"
    using l assms small_word [OF assms] by (simp add: unat_word_ariths)
  then show "(w AND 0xffff) + of_nat d > (0xffff :: u32) \<longleftrightarrow> unat w mod 2 ^ 16 + d > 0xffff"
    unfolding word_less_nat_alt and_low(2) by simp
  show "(w AND 0xffff) < (of_nat d :: u32) \<longleftrightarrow> unat w mod 2 ^ 16 < d"
    unfolding word_less_nat_alt and_low(2) small_word [OF assms] ..
qed

lemma carry_free32:
  assumes r: "i + 4 \<le> length b" and n: "near (w :: u32) v"
    and d: "drop_bit 16 v = drop_bit 16 w" and e: "all_effective eff b"
  shows "w = peek i b \<Longrightarrow> run_by_arith eff b (poke i v b)"
    and "w = SWAP32 (peek i b) \<Longrightarrow> run_by_arith eff b (poke i (SWAP32 v) b)"
proof -
  have n16: "near (ucast w :: u16) (ucast v)" by (rule near_ucast [OF n]) simp
  show "run_by_arith eff b (poke i v b)" if w: "w = peek i b"
  proof -
    have "poke i v b = poke i (ucast v :: u16) b" using low_change [of i b v, where 'l = 16] r d w by simp
    moreover have "(ucast w :: u16) = peek i b" unfolding w using ucast_peek [of i b, where 'w = 32 and 'l = 16] r by simp
    ultimately show ?thesis using arith16_le_run [OF e, of i "ucast v"] n16 r by simp
  qed
  show "run_by_arith eff b (poke i (SWAP32 v) b)" if w: "w = SWAP32 (peek i b)"
  proof -
    have hi: "byte_at (2 + j) v = byte_at (2 + j) w" for j
      using byte_at_drop_bit [of j 2 v] byte_at_drop_bit [of j 2 w] d by simp
    have bw: "byte_at j w = b ! (i + (3 - j))" if "j < 4" for j
      unfolding w byte_at_SWAP32 [OF that] using that r by (intro byte_at_peek) simp_all
    have bu: "byte_at j (SWAP16 (ucast v :: u16)) = byte_at (1 - j) v" if "j < 2" for j
      unfolding byte_at_SWAP16 [OF that] using that by (intro byte_at_ucast) auto
    have lo: "(ucast w :: u16) = SWAP16 (peek (i + 2) b)"
    proof (rule word_eq_bytesI [of 2])
      fix k assume k: "k < (2 :: nat)"
      have idx: "i + (3 - k) = i + 2 + (1 - k)" using k by linarith
      have "byte_at k (ucast w :: u16) = byte_at k w" using k by (intro byte_at_ucast) auto
      also have "\<dots> = b ! (i + 2 + (1 - k))" unfolding idx [symmetric] using k by (intro bw) simp
      also have "\<dots> = byte_at (1 - k) (peek (i + 2) b :: u16)"
        using byte_at_peek [of "i + 2" b "1 - k", where 'l = 16] r k by simp
      also have "\<dots> = byte_at k (SWAP16 (peek (i + 2) b))" using byte_at_SWAP16 [OF k] by simp
      finally show "byte_at k (ucast w :: u16) = byte_at k (SWAP16 (peek (i + 2) b))" .
    qed simp
    have "byte_at j (SWAP32 v) = (if 2 \<le> j \<and> j < 2 + LENGTH(16) div 8 then byte_at (j - 2) (SWAP16 (ucast v :: u16))
        else byte_at j (peek i b :: u32))" if "j < LENGTH(32) div 8" for j
    proof -
      have "j = 0 \<or> j = 1 \<or> j = 2 \<or> j = 3" using that by auto
      then show ?thesis
      proof (elim disjE)
        assume j: "j = 0"
        have "byte_at 0 (SWAP32 v) = byte_at 3 w" using byte_at_SWAP32 [of 0 v] hi [of 1] by simp
        also have "\<dots> = byte_at 0 (peek i b :: u32)" using byte_at_SWAP32 [of 3 "peek i b"] by (simp add: w)
        finally show ?thesis using j by simp
      next
        assume j: "j = 1"
        have "byte_at 1 (SWAP32 v) = byte_at 2 w" using byte_at_SWAP32 [of 1 v] hi [of 0] by simp
        also have "\<dots> = byte_at 1 (peek i b :: u32)" using byte_at_SWAP32 [of 2 "peek i b"] by (simp add: w)
        finally show ?thesis using j by simp
      next
        assume j: "j = 2"
        then show ?thesis using byte_at_SWAP32 [of 2 v] bu [of 0] by simp
      next
        assume j: "j = 3"
        then show ?thesis using byte_at_SWAP32 [of 3 v] bu [of 1] by simp
      qed
    qed
    from poke_narrowI [OF byte_sized_words(3) _ _ this]
    have "poke i (SWAP32 v) b = poke (i + 2) (SWAP16 (ucast v)) b" using r by simp
    then show ?thesis using arith16_be_run [OF e, of "i + 2" "ucast v"] n16 r lo by simp
  qed
qed

lemma arith32_le_run:
  assumes e: "all_effective eff b" and r: "i + 4 \<le> length b" and n: "near (peek i b :: u32) v"
  shows "run_by_arith eff b (poke i v b)"
proof (cases "could_be_bitflip (peek i b XOR v)")
  case True
  then show ?thesis using e r by (intro flip_run) auto
next
  case False
  have tried: "run_by_arith eff b (poke i v b)" if "(True, v) \<in> set (over_arith arith32_tries (peek i b))"
    using word_inputsI [OF e, where tries = "over_arith arith32_tries" and v = v and i = i] that r
    by (auto simp: run_by_arith_def arith_inputs_def)
  show ?thesis
    using n
  proof (cases rule: nearE)
    case same
    then show ?thesis using unchanged_run [of i b eff, where 'w = 32] r by simp
  next
    case (plus d)
    show ?thesis
    proof (cases "unat (peek i b :: u32) mod 2 ^ 16 + d > 0xffff")
      case True
      then show ?thesis using plus False carry_test32(1) [OF plus(2), of "peek i b"]
        by (intro tried) (auto simp: over_arith_def arith32_tries_def Let_def intro!: bexI [of _ d])
    next
      case fits: False
      then have "drop_bit 16 v = drop_bit 16 (peek i b :: u32)"
        unfolding plus(3) by (intro drop_bit_add(1)) auto
      then show ?thesis using carry_free32(1) [OF r n _ e refl] by simp
    qed
  next
    case (minus d)
    show ?thesis
    proof (cases "unat (peek i b :: u32) mod 2 ^ 16 < d")
      case True
      then show ?thesis using minus False carry_test32(2) [OF minus(2), of "peek i b"]
        by (intro tried) (auto simp: over_arith_def arith32_tries_def Let_def intro!: bexI [of _ d])
    next
      case fits: False
      then have "drop_bit 16 v = drop_bit 16 (peek i b :: u32)"
        unfolding minus(3) by (intro drop_bit_sub) auto
      then show ?thesis using carry_free32(1) [OF r n _ e refl] by simp
    qed
  qed
qed

lemma arith32_be_run:
  assumes e: "all_effective eff b" and r: "i + 4 \<le> length b" and n: "near (SWAP32 (peek i b)) u"
  shows "run_by_arith eff b (poke i (SWAP32 u) b)"
proof (cases "could_be_bitflip (peek i b XOR SWAP32 u)")
  case True
  then show ?thesis using e r by (intro flip_run) auto
next
  case False
  have tried: "run_by_arith eff b (poke i (SWAP32 u) b)" if "(True, SWAP32 u) \<in> set (over_arith arith32_tries (peek i b))"
    using word_inputsI [OF e, where tries = "over_arith arith32_tries" and v = "SWAP32 u" and i = i] that r
    by (auto simp: run_by_arith_def arith_inputs_def)
  show ?thesis
    using n
  proof (cases rule: nearE)
    case same
    then have "SWAP32 u = peek i b" by simp
    then show ?thesis using unchanged_run [of i b eff, where 'w = 32] r by simp
  next
    case (plus d)
    show ?thesis
    proof (cases "unat (SWAP32 (peek i b)) mod 2 ^ 16 + d > 0xffff")
      case True
      then show ?thesis using plus False carry_test32(1) [OF plus(2), of "SWAP32 (peek i b)"]
        by (intro tried) (auto simp: over_arith_def arith32_tries_def Let_def intro!: bexI [of _ d])
    next
      case fits: False
      then have "drop_bit 16 u = drop_bit 16 (SWAP32 (peek i b))"
        unfolding plus(3) by (intro drop_bit_add(1)) auto
      then show ?thesis using carry_free32(2) [OF r n _ e refl] by simp
    qed
  next
    case (minus d)
    show ?thesis
    proof (cases "unat (SWAP32 (peek i b)) mod 2 ^ 16 < d")
      case True
      then show ?thesis using minus False carry_test32(2) [OF minus(2), of "SWAP32 (peek i b)"]
        by (intro tried) (auto simp: over_arith_def arith32_tries_def Let_def intro!: bexI [of _ d])
    next
      case fits: False
      then have "drop_bit 16 u = drop_bit 16 (SWAP32 (peek i b))"
        unfolding minus(3) by (intro drop_bit_sub) auto
      then show ?thesis using carry_free32(2) [OF r n _ e refl] by simp
    qed
  qed
qed

lemma arith_mutant_run:
  assumes e: "all_effective eff b" and m: "arith_mutant b m"
  shows "run_by_arith eff b m"
proof -
  from m consider
      (byte) i v where "i + 1 \<le> length b" "near (peek i b :: u8) v" "m = poke i v b"
    | (le16) i v where "i + 2 \<le> length b" "near (peek i b :: u16) v" "m = poke i v b"
    | (be16) i v where "i + 2 \<le> length b" "near (SWAP16 (peek i b)) (SWAP16 v)" "m = poke i v b"
    | (le32) i v where "i + 4 \<le> length b" "near (peek i b :: u32) v" "m = poke i v b"
    | (be32) i v where "i + 4 \<le> length b" "near (SWAP32 (peek i b)) (SWAP32 v)" "m = poke i v b"
    unfolding arith_mutant_def by blast
  then show ?thesis
  proof cases
    case byte then show ?thesis using arith8_run [OF e] by blast
  next
    case le16 then show ?thesis using arith16_le_run [OF e] by blast
  next
    case be16 then show ?thesis using arith16_be_run [OF e be16(1,2)] by simp
  next
    case le32 then show ?thesis using arith32_le_run [OF e] by blast
  next
    case be32 then show ?thesis using arith32_be_run [OF e be32(1,2)] by simp
  qed
qed
section \<open>What the stages of interesting values leave out\<close>

lemma bit_get_bits_byte:
  assumes "8 * j + 8 \<le> LENGTH('l::len)"
  shows "byte_at j (get_bits (8 * k) x :: 'l word) = byte_at (k + j) x"
  using assms by (intro bit_word_eqI) (auto simp: bit_byte_at bit_get_bits algebra_simps)

lemma get_bits_peek:
  assumes "byte_sized TYPE('w::len)" "byte_sized TYPE('l::len)" "LENGTH('w) \<le> 32"
    and "i + LENGTH('w) div 8 \<le> length b" "k + LENGTH('l) div 8 \<le> LENGTH('w) div 8"
  shows "(get_bits (8 * k) (ucast (peek i b :: 'w word)) :: 'l word) = peek (i + k) b"
proof (rule word_eq_bytesI [of "LENGTH('l) div 8"])
  have L: "8 * (LENGTH('l) div 8) = LENGTH('l)" "8 * (LENGTH('w) div 8) = LENGTH('w)"
    using assms(1,2) by (simp_all add: byte_sized_def)
  show "8 * (LENGTH('l) div 8) = LENGTH('l)" by (rule L)
  fix j assume j: "j < LENGTH('l) div 8"
  obtain m n where mn: "LENGTH('w) = 8 * m" "LENGTH('l) = 8 * n" using assms(1,2) by (auto simp: byte_sized_def elim!: dvdE)
  have w: "8 * (k + j) + 8 \<le> LENGTH('w)" using j assms(5) by (simp add: mn)
  have "byte_at j (get_bits (8 * k) (ucast (peek i b :: 'w word)) :: 'l word) = byte_at (k + j) (ucast (peek i b :: 'w word) :: u32)"
    using j L by (intro bit_get_bits_byte) linarith
  also have "\<dots> = byte_at (k + j) (peek i b :: 'w word)" using w assms(3) by (intro byte_at_ucast) auto
  also have "\<dots> = b ! (i + (k + j))" using j assms(5) by (intro byte_at_peek assms(1,4)) linarith
  also have "\<dots> = byte_at j (peek (i + k) b :: 'l word)"
    using byte_at_peek [OF assms(2), of "i + k" b j] j assms(4,5) by (simp add: add.assoc)
  finally show "byte_at j (get_bits (8 * k) (ucast (peek i b :: 'w word)) :: 'l word) = byte_at j (peek (i + k) b :: 'l word)" .
qed

lemma ucast_u32_inject:
  fixes v w :: "'w::len word"
  assumes "(ucast v :: u32) = ucast w" "LENGTH('w) \<le> 32"
  shows "v = w"
proof (rule bit_word_eqI)
  fix j assume j: "j < LENGTH('w)"
  have "bit (ucast v :: u32) j \<longleftrightarrow> bit (ucast w :: u32) j" by (simp only: assms(1))
  then show "bit v j \<longleftrightarrow> bit w j" using j assms(2) by (simp add: bit_ucast_iff)
qed

lemma taken_for_arith:
  fixes v :: "'w::len word"
  assumes e: "all_effective eff b" and w: "buffer_word TYPE('w)" and r: "i + LENGTH('w) div 8 \<le> length b"
    and c: "could_be_arith (ucast (peek i b :: 'w word)) (ucast v) (LENGTH('w) div 8)"
  shows "run_by_arith eff b (poke i v b)"
proof -
  let ?old = "ucast (peek i b :: 'w word) :: u32" and ?new = "ucast v :: u32" and ?n = "LENGTH('w) div 8"
  have bs: "byte_sized TYPE('w)" "LENGTH('w) \<le> 32" using buffer_word_sized [OF w] by auto
  have lt: "(ucast (x :: 'w word) :: u32) < 2 ^ (8 * ?n)" if "?n \<noteq> 4" for x
  proof -
    have n: "8 * ?n = LENGTH('w)" "8 * ?n < 32" using bs that w by (auto simp: byte_sized_def buffer_word_def)
    have "unat (ucast x :: u32) < 2 ^ (8 * ?n)"
      using unsigned_less [of x] n(1) by (simp add: unsigned_ucast_eq le_less_trans [OF take_bit_nat_less_eq_self])
    moreover have "unat ((2 :: u32) ^ (8 * ?n)) = 2 ^ (8 * ?n)" 
      using n(2) by (intro unat_pow2) simp
    ultimately show ?thesis by (simp add: word_less_nat_alt)
  qed
  have n: "?n \<in> {1, 2, 4}" using w by (auto simp: buffer_word_def)
  from c have "?old = ?new \<or> arith_product ?old ?new ?n" using could_be_arith_iff [OF n] lt by blast
  then show ?thesis
  proof
    assume "?old = ?new"
    then have "v = peek i b" using ucast_u32_inject [of "peek i b" v] bs(2) by simp
    then show ?thesis using unchanged_run [OF bs(1) r] by simp
  next
    assume "arith_product ?old ?new ?n"
    then consider
        (byte) k x where "k < ?n" "near (get_bits (8 * k) ?old :: u8) x" "?new = put_bits (8 * k) x ?old"
      | (half) k x where "k < ?n div 2" "near (get_bits (16 * k) ?old :: u16) x \<or> near (SWAP16 (get_bits (16 * k) ?old)) (SWAP16 x)"
          "?new = put_bits (16 * k) x ?old"
      | (word) "?n = 4" "near ?old ?new \<or> near (SWAP32 ?old) (SWAP32 ?new)"
      unfolding arith_product_def by blast
    then have "arith_mutant b (poke i v b)"
    proof cases
      case byte
      then have k: "k + LENGTH(8) div 8 \<le> ?n" by simp
      have "poke i v b = poke (i + k) x b" using poke_put_bits [OF bs(1) _ bs(2) r k byte(3)] by simp
      moreover have "near (peek (i + k) b :: u8) x" using byte(2) get_bits_peek [OF bs(1) _ bs(2) r k] by simp
      moreover have "i + k + 1 \<le> length b" using k r by simp
      ultimately show ?thesis unfolding arith_mutant_def by blast
    next
      case half
      then have k: "2 * k + LENGTH(16) div 8 \<le> ?n" by simp
      have v: "?new = put_bits (8 * (2 * k)) x ?old" using half(3) by simp
      have "poke i v b = poke (i + 2 * k) x b" using poke_put_bits [OF bs(1) _ bs(2) r k v] by simp
      moreover have "(get_bits (16 * k) ?old :: u16) = peek (i + 2 * k) b" using get_bits_peek [OF bs(1) _ bs(2) r k] by simp
      moreover have "i + 2 * k + 2 \<le> length b" using k r by simp
      ultimately show ?thesis using half(2) unfolding arith_mutant_def by metis
    next
      case word
      have len: "LENGTH('w) = 32" using word(1) bs by (auto simp: byte_sized_def)
      have p: "?old = peek i b"
        using get_bits_peek [OF bs(1) byte_sized_words(3) bs(2) r, of 0] word(1) by (simp add: get_bits_def)
      have "byte_at j v = byte_at j ?new" if "j < 4" for j
        using that len by (simp add: byte_at_ucast)
      then have m: "map (\<lambda>k. byte_at k v) [0..<4] = map (\<lambda>k. byte_at k ?new) [0..<4]" by simp
      have "LENGTH('w) div 8 = 4" "LENGTH(32) div 8 = 4" using len by simp_all
      then have "poke i v b = poke i ?new b" unfolding poke_def to_bytes_def using m by (simp only:)
      then show ?thesis using word r p unfolding arith_mutant_def by metis
    qed
    then show ?thesis by (rule arith_mutant_run [OF e])
  qed
qed
text \<open>The products of the stages of interesting values.\<close>

definition interest_mutant8 :: "bytes \<Rightarrow> bytes \<Rightarrow> bool" where
  "interest_mutant8 b m \<longleftrightarrow> (\<exists>i v. i + 1 \<le> length b \<and> v \<in> set interesting_8 \<and> m = poke i v b)"

definition interest_mutant16 :: "bytes \<Rightarrow> bytes \<Rightarrow> bool" where
  "interest_mutant16 b m \<longleftrightarrow>
     (\<exists>i v. i + 2 \<le> length b \<and> v \<in> set interesting_16 \<and> (m = poke i v b \<or> m = poke i (SWAP16 v) b))"

definition interest_mutant32 :: "bytes \<Rightarrow> bytes \<Rightarrow> bool" where
  "interest_mutant32 b m \<longleftrightarrow>
     (\<exists>i v. i + 4 \<le> length b \<and> v \<in> set interesting_32 \<and> (m = poke i v b \<or> m = poke i (SWAP32 v) b))"

definition run_by_det :: "bytes \<Rightarrow> bytes \<Rightarrow> bytes \<Rightarrow> bool" where
  "run_by_det eff b m \<longleftrightarrow> run_by_arith eff b m \<or> m \<in> set (interest_inputs False eff b)"

lemma run_by_detI: "run_by_arith eff b m \<Longrightarrow> run_by_det eff b m"
  by (simp add: run_by_det_def)

lemma left_out_run:
  fixes v :: "'w::len word"
  assumes "all_effective eff b" "buffer_word TYPE('w)" "i + LENGTH('w) div 8 \<le> length b"
    "could_be_bitflip (ucast (peek i b XOR v)) \<or> could_be_arith (ucast (peek i b :: 'w word)) (ucast v) (LENGTH('w) div 8)"
  shows "run_by_det eff b (poke i v b)"
  using assms(4) flip_run [OF assms(1-3)] taken_for_arith [OF assms(1-3)] run_by_detI by blast

lemma interest8_run:
  assumes e: "all_effective eff b" and r: "i + 1 \<le> length b" and v: "v \<in> set interesting_8"
  shows "run_by_det eff b (poke i v b)"
proof (cases "could_be_bitflip (ucast (peek i b XOR v)) \<or> could_be_arith (ucast (peek i b :: u8)) (ucast v) 1")
  case True
  then show ?thesis using e r by (intro left_out_run) auto
next
  case False
  then have "poke i v b \<in> set (word_inputs eff (\<lambda>orig. concat (map (interest8_tries orig) interesting_8)) b)"
    using r v by (intro word_inputsI [OF e]) (auto simp: interest8_tries_def)
  then show ?thesis by (auto simp: run_by_det_def interest_inputs_def)
qed

lemma poke_put_bits8:
  fixes v :: "'w::len word" and x :: u8
  assumes "buffer_word TYPE('w)" "i + LENGTH('w) div 8 \<le> length b" "k < LENGTH('w) div 8"
    "(ucast v :: u32) = put_bits (8 * k) x (ucast (peek i b :: 'w word))"
  shows "poke i v b = poke (i + k) x b" "i + k + 1 \<le> length b"
  using poke_put_bits [of i b k v x] buffer_word_sized [OF assms(1)] assms by auto

lemma poke_put_bits16:
  fixes v :: "'w::len word" and x :: u16
  assumes "buffer_word TYPE('w)" "i + LENGTH('w) div 8 \<le> length b" "k < LENGTH('w) div 8 - 1"
    "(ucast v :: u32) = put_bits (8 * k) x (ucast (peek i b :: 'w word))"
  shows "poke i v b = poke (i + k) x b" "i + k + 2 \<le> length b"
  using poke_put_bits [of i b k v x] buffer_word_sized [OF assms(1)] assms by auto

text \<open>What the last test leaves out is an interesting value in a narrower word, or, for the big-endian
  form of a value, an interesting value in little-endian form.\<close>

lemma could_be_interestE:
  fixes v :: "'w::len word"
  assumes w: "buffer_word TYPE('w)" "i + LENGTH('w) div 8 \<le> length b" "1 < LENGTH('w) div 8"
    and c: "could_be_interest (ucast (peek i b :: 'w word)) (ucast v) (LENGTH('w) div 8) le"
  obtains (same) "v = peek i b"
    | (byte) k x where "i + k + 1 \<le> length b" "x \<in> set interesting_8" "poke i v b = poke (i + k) x b"
    | (le16) k x where "LENGTH('w) = 32 \<or> le" "i + k + 2 \<le> length b" "x \<in> set interesting_16" "poke i v b = poke (i + k) x b"
    | (be16) k x where "LENGTH('w) = 32" "i + k + 2 \<le> length b" "x \<in> set interesting_16" "poke i v b = poke (i + k) (SWAP16 x) b"
    | (le32) "LENGTH('w) = 32" "le" "(ucast v :: u32) \<in> set interesting_32"
proof -
  let ?old = "ucast (peek i b :: 'w word) :: u32" and ?new = "ucast v :: u32" and ?n = "LENGTH('w) div 8"
  have n: "?n = 2 \<and> LENGTH('w) = 16 \<or> ?n = 4 \<and> LENGTH('w) = 32" using w by (auto simp: buffer_word_def)
  from c consider "?old = ?new"
    | k x where "k < ?n" "x \<in> set interesting_8" "?new = put_bits (8 * k) x ?old"
    | k x where "?n = 4 \<or> le" "k < ?n - 1" "x \<in> set interesting_16" "?new = put_bits (8 * k) x ?old"
    | k x where "?n = 4" "k < ?n - 1" "x \<in> set interesting_16" "?new = put_bits (8 * k) (SWAP16 x) ?old"
    | "?n = 4" "le" "?new \<in> set interesting_32"
    using n unfolding could_be_interest_def list_ex_iff set_upt atLeast0LessThan lessThan_iff Bex_def
    by (auto split: if_splits)
  then show thesis
  proof cases
    case 1
    then show thesis using ucast_u32_inject [of "peek i b" v] buffer_word_sized [OF w(1)] same by auto
  next
    case 2
    then show thesis using poke_put_bits8 [OF w(1,2) 2(1,3)] byte by blast
  next
    case 3
    then show thesis using poke_put_bits16 [OF w(1,2) 3(2,4)] le16 n by auto
  next
    case 4
    then show thesis using poke_put_bits16 [OF w(1,2) 4(2,4)] be16 n by auto
  next
    case 5
    then show thesis using le32 n by auto
  qed
qed
lemma word_left_out:
  fixes v :: "'w::len word"
  assumes e: "all_effective eff b" and w: "buffer_word TYPE('w)" and r: "i + LENGTH('w) div 8 \<le> length b"
    and n: "1 < LENGTH('w) div 8"
    and c: "could_be_bitflip (ucast (peek i b XOR v)) \<or> could_be_arith (ucast (peek i b :: 'w word)) (ucast v) (LENGTH('w) div 8)
      \<or> could_be_interest (ucast (peek i b :: 'w word)) (ucast v) (LENGTH('w) div 8) le"
    and le16: "\<And>k x. LENGTH('w) = 32 \<or> le \<Longrightarrow> k + 2 \<le> length b \<Longrightarrow> x \<in> set interesting_16 \<Longrightarrow> run_by_det eff b (poke k x b)"
    and be16: "\<And>k x. LENGTH('w) = 32 \<Longrightarrow> k + 2 \<le> length b \<Longrightarrow> x \<in> set interesting_16 \<Longrightarrow> run_by_det eff b (poke k (SWAP16 x) b)"
    and le32: "LENGTH('w) = 32 \<Longrightarrow> le \<Longrightarrow> (ucast v :: u32) \<in> set interesting_32 \<Longrightarrow> run_by_det eff b (poke i v b)"
  shows "run_by_det eff b (poke i v b)"
proof (cases "could_be_interest (ucast (peek i b :: 'w word)) (ucast v) (LENGTH('w) div 8) le")
  case False
  with c show ?thesis using left_out_run [OF e w r] by blast
next
  case True
  show ?thesis using w r n True
  proof (cases rule: could_be_interestE)
    case same
    then show ?thesis
      using unchanged_run [of i b eff, where 'w = 'w] buffer_word_sized [OF w] r by (auto intro: run_by_detI)
  next
    case (byte k x)
    then show ?thesis using interest8_run [OF e, of "i + k" x] by simp
  next
    case (le16 k x)
    then show ?thesis using assms(6) [of "i + k" x] by simp
  next
    case (be16 k x)
    then show ?thesis using assms(7) [of "i + k" x] by simp
  next
    case le32
    then show ?thesis using assms(8) by simp
  qed
qed

lemma interest16_tried:
  assumes "all_effective eff b" "i + 2 \<le> length b" "x \<in> set interesting_16" "(True, v) \<in> set (interest16_tries (peek i b) x)"
  shows "run_by_det eff b (poke i v b)"
proof -
  have "poke i v b \<in> set (word_inputs eff (\<lambda>orig. concat (map (interest16_tries orig) interesting_16)) b)"
    using assms by (intro word_inputsI [OF assms(1)]) auto
  then show ?thesis using assms(2) by (auto simp: run_by_det_def interest_inputs_def)
qed

lemma interest32_tried:
  assumes "all_effective eff b" "i + 4 \<le> length b" "x \<in> set interesting_32" "(True, v) \<in> set (interest32_tries (peek i b) x)"
  shows "run_by_det eff b (poke i v b)"
proof -
  have "poke i v b \<in> set (word_inputs eff (\<lambda>orig. concat (map (interest32_tries orig) interesting_32)) b)"
    using assms by (intro word_inputsI [OF assms(1)]) auto
  then show ?thesis using assms(2) by (auto simp: run_by_det_def interest_inputs_def)
qed

lemma interest16_tries_mem:
  "\<not> could_be_bitflip (ucast (orig XOR v)) \<Longrightarrow> \<not> could_be_arith (ucast orig) (ucast v) 2
    \<Longrightarrow> \<not> could_be_interest (ucast orig) (ucast v) 2 False \<Longrightarrow> (True, v) \<in> set (interest16_tries orig v)"
  "v \<noteq> SWAP16 v \<Longrightarrow> \<not> could_be_bitflip (ucast (orig XOR SWAP16 v)) \<Longrightarrow> \<not> could_be_arith (ucast orig) (ucast (SWAP16 v)) 2
    \<Longrightarrow> \<not> could_be_interest (ucast orig) (ucast (SWAP16 v)) 2 True \<Longrightarrow> (True, SWAP16 v) \<in> set (interest16_tries orig v)"
  by (simp_all add: interest16_tries_def Let_def)

lemma interest32_tries_mem:
  "\<not> could_be_bitflip (ucast (orig XOR v)) \<Longrightarrow> \<not> could_be_arith (ucast orig) (ucast v) 4
    \<Longrightarrow> \<not> could_be_interest (ucast orig) (ucast v) 4 False \<Longrightarrow> (True, v) \<in> set (interest32_tries orig v)"
  "v \<noteq> SWAP32 v \<Longrightarrow> \<not> could_be_bitflip (ucast (orig XOR SWAP32 v)) \<Longrightarrow> \<not> could_be_arith (ucast orig) (ucast (SWAP32 v)) 4
    \<Longrightarrow> \<not> could_be_interest (ucast orig) (ucast (SWAP32 v)) 4 True \<Longrightarrow> (True, SWAP32 v) \<in> set (interest32_tries orig v)"
  by (simp_all add: interest32_tries_def Let_def)

lemma interest16_le_run:
  assumes e: "all_effective eff b" and r: "i + 2 \<le> length b" and v: "v \<in> set interesting_16"
  shows "run_by_det eff b (poke i v b)"
proof (cases "(True, v) \<in> set (interest16_tries (peek i b) v)")
  case True
  then show ?thesis by (rule interest16_tried [OF e r v])
next
  case False
  then have c: "could_be_bitflip (ucast (peek i b XOR v)) \<or> could_be_arith (ucast (peek i b :: u16)) (ucast v) (LENGTH(16) div 8)
      \<or> could_be_interest (ucast (peek i b :: u16)) (ucast v) (LENGTH(16) div 8) False"
    using interest16_tries_mem(1) [of "peek i b" v] by auto
  show ?thesis
    by (rule word_left_out [OF e _ _ _ c]) (use r in simp_all)
qed

lemma interest16_be_run:
  assumes e: "all_effective eff b" and r: "i + 2 \<le> length b" and v: "v \<in> set interesting_16"
  shows "run_by_det eff b (poke i (SWAP16 v) b)"
proof (cases "v = SWAP16 v")
  case True
  then show ?thesis using interest16_le_run [OF e r v] by simp
next
  case ne: False
  show ?thesis
  proof (cases "(True, SWAP16 v) \<in> set (interest16_tries (peek i b) v)")
    case True
    then show ?thesis by (rule interest16_tried [OF e r v])
  next
    case False
    then have c: "could_be_bitflip (ucast (peek i b XOR SWAP16 v))
        \<or> could_be_arith (ucast (peek i b :: u16)) (ucast (SWAP16 v)) (LENGTH(16) div 8)
        \<or> could_be_interest (ucast (peek i b :: u16)) (ucast (SWAP16 v)) (LENGTH(16) div 8) True"
      using interest16_tries_mem(2) [OF ne, of "peek i b"] by auto
    show ?thesis
      by (rule word_left_out [OF e _ _ _ c]) (use r interest16_le_run [OF e] in simp_all)
  qed
qed

lemma interest32_le_run:
  assumes e: "all_effective eff b" and r: "i + 4 \<le> length b" and v: "v \<in> set interesting_32"
  shows "run_by_det eff b (poke i v b)"
proof (cases "(True, v) \<in> set (interest32_tries (peek i b) v)")
  case True
  then show ?thesis by (rule interest32_tried [OF e r v])
next
  case False
  then have c: "could_be_bitflip (ucast (peek i b XOR v)) \<or> could_be_arith (ucast (peek i b :: u32)) (ucast v) (LENGTH(32) div 8)
      \<or> could_be_interest (ucast (peek i b :: u32)) (ucast v) (LENGTH(32) div 8) False"
    using interest32_tries_mem(1) [of "peek i b" v] by auto
  show ?thesis
    by (rule word_left_out [OF e _ _ _ c]) (use r interest16_le_run [OF e] interest16_be_run [OF e] in simp_all)
qed

lemma interest32_be_run:
  assumes e: "all_effective eff b" and r: "i + 4 \<le> length b" and v: "v \<in> set interesting_32"
  shows "run_by_det eff b (poke i (SWAP32 v) b)"
proof (cases "v = SWAP32 v")
  case True
  then show ?thesis using interest32_le_run [OF e r v] by simp
next
  case ne: False
  show ?thesis
  proof (cases "(True, SWAP32 v) \<in> set (interest32_tries (peek i b) v)")
    case True
    then show ?thesis by (rule interest32_tried [OF e r v])
  next
    case False
    then have c: "could_be_bitflip (ucast (peek i b XOR SWAP32 v))
        \<or> could_be_arith (ucast (peek i b :: u32)) (ucast (SWAP32 v)) (LENGTH(32) div 8)
        \<or> could_be_interest (ucast (peek i b :: u32)) (ucast (SWAP32 v)) (LENGTH(32) div 8) True"
      using interest32_tries_mem(2) [OF ne, of "peek i b"] by auto
    show ?thesis
      by (rule word_left_out [OF e _ _ _ c]) (use r interest16_le_run [OF e] interest16_be_run [OF e] interest32_le_run [OF e r] in simp_all)
  qed
qed

lemma interest_mutant_run:
  assumes e: "all_effective eff b" and m: "interest_mutant8 b m \<or> interest_mutant16 b m \<or> interest_mutant32 b m"
  shows "run_by_det eff b m"
proof -
  note runs = interest8_run [OF e] interest16_le_run [OF e] interest16_be_run [OF e]
    interest32_le_run [OF e] interest32_be_run [OF e]
  from m show ?thesis
    unfolding interest_mutant8_def interest_mutant16_def interest_mutant32_def
    by (elim disjE exE conjE; hypsubst) (rule runs; assumption)+
qed
section \<open>The flips, additions and interesting values of a whole round\<close>

definition value_stages :: "det_world \<Rightarrow> det_st \<Rightarrow> det_st stage" where
  "value_stages w st = and_then (bitflip_stages w st) (\<lambda>st. and_then (arith_stages w st) (interest_stages w))"

lemma and_then_assoc: "and_then (and_then r f) g = and_then r (\<lambda>s. and_then (f s) g)"
  by (cases r) simp_all

lemma det_stages_values:
  "det_stages w in_buf fresh st =
     and_then (value_stages w st) (\<lambda>st.
       and_then (extras_stages w in_buf fresh st) (\<lambda>st. Go (st\<lparr>det_done := True\<rparr>)))"
  by (simp add: det_stages_def value_stages_def and_then_assoc)

definition value_inputs :: "bool \<Rightarrow> bytes \<Rightarrow> bytes \<Rightarrow> bytes list" where
  "value_inputs only8 eff b =
     bitflip_inputs eff b @ (if only8 then [] else arith_inputs eff b) @ interest_inputs only8 eff b"

lemma emits_value_stages:
  assumes "seed_ok b" "qsort_ok (dw_qsort w)"
  shows "emits w t (value_stages w) (buf_in {b} (room t xs (8 * length b))) (buf_in {b} (room t xs 0))
    (value_inputs (no_arith w) (skip_eff_map w) b)"
proof -
  note e = emits_and_then [OF emits_arith_stages emits_interest_stages, of w t b "room t xs 0"]
  note e = emits_and_then [OF emits_bitflip_stages [OF assms, of t xs] e]
  show ?thesis
    unfolding value_stages_def value_inputs_def by (rule emits_conseq [OF e]) simp_all
qed

lemma value_stages_run:
  assumes "seed_ok (out_buf st)" "qsort_ok (dw_qsort w)"
  defines "L \<equiv> value_inputs (no_arith w) (skip_eff_map w) (out_buf st)"
  shows "case value_stages w st of
      Go s \<Rightarrow> out_buf s = out_buf st \<and> execs s = execs st @ L
    | To_custom s \<Rightarrow> \<not> quiet w \<and> (\<exists>p. prefix p L \<and> execs s = execs st @ p)
    | Abandon s \<Rightarrow> \<not> quiet w \<and> (\<exists>p. prefix p L \<and> execs s = execs st @ p)
    | Stuck \<Rightarrow> MAX_AUTO_EXTRAS < length (a_extras st) + 8 * length (out_buf st)"
proof -
  let ?t = "length (a_extras st) + 8 * length (out_buf st) \<le> MAX_AUTO_EXTRAS"
  have "buf_in {out_buf st} (room ?t (extras st) (8 * length (out_buf st))) st"
    by (simp add: buf_in_def room_def)
  then show ?thesis
    using emitsD [OF emits_value_stages [OF assms(1,2), of ?t "extras st"], of st] unfolding L_def
    by (auto simp: buf_in_def split: stage.splits)
qed

lemma value_stages_complete:
  assumes q: "quiet w" and a: "\<not> no_arith w" and b: "seed_ok (out_buf st)" and qs: "qsort_ok (dw_qsort w)"
    and r: "length (a_extras st) + 8 * length (out_buf st) \<le> MAX_AUTO_EXTRAS"
    and e: "all_effective (skip_eff_map w) (out_buf st)" and x: "execs st = []"
  shows "\<exists>s. value_stages w st = Go s \<and> out_buf s = out_buf st
    \<and> (\<forall>m. arith_mutant (out_buf st) m \<or> interest_mutant8 (out_buf st) m \<or> interest_mutant16 (out_buf st) m
            \<or> interest_mutant32 (out_buf st) m \<longrightarrow> (m \<in> set (execs s) \<longleftrightarrow> \<not> spurious (out_buf st) m))"
proof -
  obtain s where s: "value_stages w st = Go s" "out_buf s = out_buf st"
    "execs s = value_inputs False (skip_eff_map w) (out_buf st)"
    using value_stages_run [OF b qs] q a r x by (auto split: stage.splits)
  have "m \<in> set (execs s) \<longleftrightarrow> \<not> spurious (out_buf st) m"
    if "arith_mutant (out_buf st) m \<or> interest_mutant8 (out_buf st) m \<or> interest_mutant16 (out_buf st) m
      \<or> interest_mutant32 (out_buf st) m" for m
  proof
    assume "m \<in> set (execs s)"
    then show "\<not> spurious (out_buf st) m"
      using spurious_never_run [where b = "out_buf st" and m = m and eff = "skip_eff_map w"] by (auto simp: s(3) value_inputs_def)
  next
    assume "\<not> spurious (out_buf st) m"
    moreover have "run_by_det (skip_eff_map w) (out_buf st) m"
      using that arith_mutant_run [OF e] interest_mutant_run [OF e] run_by_detI by blast
    ultimately show "m \<in> set (execs s)"
      by (auto simp: s(3) value_inputs_def run_by_det_def run_by_arith_def)
  qed
  with s show ?thesis by blast
qed

text \<open>A world that runs everything, and a state before the first stage.\<close>

definition plain_world :: "bytes \<Rightarrow> bool \<Rightarrow> det_world" where
  "plain_world eff no_ar =
     \<lparr>dw_abort = \<lambda>_. False, dw_hits = \<lambda>_. 0, dw_cksum = \<lambda>_. 0, dw_timeout = \<lambda>_. False, skip_eff_map = eff,
      dw_non_instrumented = False, no_arith = no_ar, max_det_extras = 200, dw_urandom = \<lambda>_. (0, 0, 0),
      dw_qsort = insertion_sort\<rparr>"

definition fresh_det :: "bytes \<Rightarrow> bytes list \<Rightarrow> det_st" where
  "fresh_det b toks =
     \<lparr>extras = toks, a_extras = [], auto_changed = False,
      dict_rng = \<lparr>rand_seed0 = 1, rand_seed1 = 2, rand_seed2 = 3, rand_cnt = 5, fixed_seed = True, init_seed = 0, urandom_reads = 0\<rparr>,
      out_buf = b, execs = [], det_checks = 0, stage_cur = 0, stage_max = 0, stage_cur_byte = 0, stage_cur_val = 0,
      stage_val_type = STAGE_VAL_NONE, stage_finds = \<lambda>_. 0, stage_cycles = \<lambda>_. 0, blocks_eff_select = 0,
      blocks_eff_total = 0, det_done = False, new_hit_cnt = 0, prev_cksum = 0, clean_cksum = 0,
      a_collect = replicate 32 0, a_len = 0, last_len = 0, ex_tmp = []\<rparr>"

lemma quiet_plain [simp]: "quiet (plain_world eff n)"
  by (simp add: quiet_def plain_world_def)

lemma plain_world_sel [simp]: "dw_qsort (plain_world eff n) = insertion_sort" "skip_eff_map (plain_world eff n) = eff"
  "no_arith (plain_world eff n) = n" "max_det_extras (plain_world eff n) = 200"
  by (simp_all add: plain_world_def)

lemma fresh_det_sel [simp]: "out_buf (fresh_det b toks) = b" "execs (fresh_det b toks) = []"
  "extras (fresh_det b toks) = toks" "a_extras (fresh_det b toks) = []" "ex_tmp (fresh_det b toks) = []"
  by (simp_all add: fresh_det_def)

text \<open>The change from 128 to 256, little endian, is taken for a flip of two bits that nothing makes.\<close>

lemma spurious_128_256: "spurious [0x80, 0] [0, 1]"
proof -
  have "[0, 1] = poke 0 (peek 0 [0x80, 0] XOR bit_run 7 2 :: u16) [0x80, 0]"
    by code_simp
  then show ?thesis unfolding spurious_def
    by (intro exI [of _ 0] exI [of _ 2] exI [of _ 7]) simp
qed

lemma interest_128_256: "interest_mutant16 [0x80, 0] [0, 1]"
proof -
  have "[0, 1] = poke 0 (256 :: u16) [0x80, 0]" by code_simp
  moreover have "(256 :: u16) \<in> set interesting_16" by (simp add: interesting_16_def)
  ultimately show ?thesis unfolding interest_mutant16_def
    by (intro exI [of _ 0] exI [of _ "256 :: u16"]) simp
qed

text \<open>Without the arithmetic stages a byte near an interesting value never becomes that value: the test
  for additions is made although no addition is.\<close>

lemma no_arith_loses_16: "[16] \<notin> set (value_inputs True [0xff] [10])"
  by code_simp

end
