(* ===== verification/Det_Dict.thy ===== *)
theory Det_Dict
  imports Det_Lossless
begin

text \<open>
  What the dictionary stages run: the overwriting of the buffer by tokens, which relies on their being
  sorted by length, and their insertion, which relies on the effector map having no holes.
\<close>

section \<open>Overwriting\<close>

text \<open>The inputs at one position: a token is left out when it does not fit or is already there, in the
  buffer as the token before it has left it.\<close>

fun over_runs :: "nat \<Rightarrow> bytes \<Rightarrow> bytes \<Rightarrow> bytes list \<Rightarrow> bytes list" where
  "over_runs i b prev [] = []"
| "over_runs i b prev (t # ts) =
     (if i + length t \<le> length b \<and> take (length t) (drop i (overwrite i prev b)) \<noteq> t
      then overwrite i t b # over_runs i b t ts else over_runs i b prev ts)"

definition over_at :: "nat \<Rightarrow> bytes \<Rightarrow> bytes \<Rightarrow> bytes list \<Rightarrow> auto_extra list \<Rightarrow> det_st \<Rightarrow> bool" where
  "over_at i b prev xs as st \<longleftrightarrow>
     out_buf st = overwrite i prev b \<and> last_len st = length prev \<and> i + length prev \<le> length b
     \<and> extras st = xs \<and> a_extras st = as"

lemma over_at_upd [simp]:
  "over_at i b p xs as (st\<lparr>execs := h\<rparr>) = over_at i b p xs as st" "over_at i b p xs as (st\<lparr>stage_cur := c\<rparr>) = over_at i b p xs as st"
  "over_at i b p xs as (st\<lparr>stage_max := c\<rparr>) = over_at i b p xs as st"
  "over_at i b p xs as (st\<lparr>stage_cur_byte := c\<rparr>) = over_at i b p xs as st"
  by (simp_all add: over_at_def)

lemma emits_over_token_run:
  assumes "i + length t \<le> length b" "length prev \<le> length t" "take (length t) (drop i (overwrite i prev b)) \<noteq> t"
    and "i + length prev \<le> length b"
  shows "emits w u (over_token w False cnt i t) (over_at i b prev xs as) (over_at i b t xs as) [overwrite i t b]"
proof (rule emitsI)
  fix st assume P: "over_at i b prev xs as st"
  let ?s = "st\<lparr>last_len := length t, out_buf := overwrite i t (out_buf st), execs := execs st @ [overwrite i t (out_buf st)]\<rparr>"
  have len: "length (out_buf st) = length b" using P assms(4) by (simp add: over_at_def)
  have fits: "\<not> length b - i < length t" using assms(1) by linarith
  have e: "over_token w False cnt i t st = and_then (if dw_abort w (execs ?s) then Abandon ?s else Go ?s)
      (\<lambda>st. Go (st\<lparr>stage_cur := stage_cur st + 1\<rparr>))"
    using P assms(3) len fits by (simp add: over_token_def over_at_def run_input_def Let_def)
  have "overwrite i t (out_buf st) = overwrite i t b"
    using P assms by (simp add: over_at_def overwrite_overwrite)
  then show "case over_token w False cnt i t st of
        Go s \<Rightarrow> over_at i b t xs as s \<and> execs s = execs st @ [overwrite i t b]
      | To_custom s \<Rightarrow> \<not> quiet w \<and> (\<exists>p. prefix p [overwrite i t b] \<and> execs s = execs st @ p)
      | Abandon s \<Rightarrow> \<not> quiet w \<and> (\<exists>p. prefix p [overwrite i t b] \<and> execs s = execs st @ p)
      | Stuck \<Rightarrow> \<not> u"
    using P assms(1) by (auto simp: e over_at_def quiet_def)
qed

lemma emits_over_token_skip:
  assumes "\<not> (i + length t \<le> length b \<and> take (length t) (drop i (overwrite i prev b)) \<noteq> t)" "i + length prev \<le> length b"
  shows "emits w u (over_token w False cnt i t) (over_at i b prev xs as) (over_at i b prev xs as) []"
proof (rule emitsI)
  fix st assume P: "over_at i b prev xs as st"
  have "length (out_buf st) = length b" using P assms(2) by (simp add: over_at_def)
  then have "over_token w False cnt i t st = Go (st\<lparr>stage_max := stage_max st - 1\<rparr>)"
    using P assms by (auto simp: over_token_def over_at_def)
  with P show "case over_token w False cnt i t st of
        Go s \<Rightarrow> over_at i b prev xs as s \<and> execs s = execs st @ []
      | To_custom s \<Rightarrow> \<not> quiet w \<and> (\<exists>p. prefix p [] \<and> execs s = execs st @ p)
      | Abandon s \<Rightarrow> \<not> quiet w \<and> (\<exists>p. prefix p [] \<and> execs s = execs st @ p)
      | Stuck \<Rightarrow> \<not> u" by simp
qed

definition over_any :: "nat \<Rightarrow> bytes \<Rightarrow> bytes list \<Rightarrow> auto_extra list \<Rightarrow> det_st \<Rightarrow> bool" where
  "over_any i b xs as st \<longleftrightarrow> (\<exists>p. over_at i b p xs as st)"

lemma emits_over_tokens:
  assumes "sorted_wrt (\<lambda>s t. length s \<le> length t) toks" "\<And>t. t \<in> set toks \<Longrightarrow> length prev \<le> length t"
    and "i + length prev \<le> length b"
  shows "emits w u (walk (over_token w False cnt i) toks) (over_at i b prev xs as) (over_any i b xs as) (over_runs i b prev toks)"
  using assms
proof (induction toks arbitrary: prev)
  case Nil
  then show ?case by (auto simp: emits_def over_any_def)
next
  case (Cons t ts)
  show ?case
  proof (cases "i + length t \<le> length b \<and> take (length t) (drop i (overwrite i prev b)) \<noteq> t")
    case True
    have "emits w u (over_token w False cnt i t) (over_at i b prev xs as) (over_at i b t xs as) [overwrite i t b]"
      using True Cons.prems by (intro emits_over_token_run) auto
    moreover have "emits w u (walk (over_token w False cnt i) ts) (over_at i b t xs as) (over_any i b xs as) (over_runs i b t ts)"
      using True Cons.prems by (intro Cons.IH) auto
    ultimately show ?thesis unfolding walk_Cons using True by (auto dest: emits_and_then)
  next
    case False
    have "emits w u (over_token w False cnt i t) (over_at i b prev xs as) (over_at i b prev xs as) []"
      using False Cons.prems by (intro emits_over_token_skip) auto
    moreover have "emits w u (walk (over_token w False cnt i) ts) (over_at i b prev xs as) (over_any i b xs as) (over_runs i b prev ts)"
      using Cons.prems by (intro Cons.IH) auto
    ultimately show ?thesis unfolding walk_Cons using False by (auto dest: emits_and_then)
  qed
qed

definition over_inputs :: "bytes \<Rightarrow> bytes \<Rightarrow> bytes list \<Rightarrow> bytes list" where
  "over_inputs eff b toks = concat (map (\<lambda>i. if bitmap_read eff i then over_runs i b [] toks else []) [0..<length b])"

definition clean :: "bytes \<Rightarrow> bytes list \<Rightarrow> auto_extra list \<Rightarrow> det_st \<Rightarrow> bool" where
  "clean b xs as st \<longleftrightarrow> out_buf st = b \<and> extras st = xs \<and> a_extras st = as"

lemma clean_upd [simp]:
  "clean b xs as (st\<lparr>execs := h\<rparr>) = clean b xs as st" "clean b xs as (st\<lparr>det_checks := k\<rparr>) = clean b xs as st"
  "clean b xs as (st\<lparr>stage_cur := c\<rparr>) = clean b xs as st" "clean b xs as (st\<lparr>stage_max := c\<rparr>) = clean b xs as st"
  "clean b xs as (st\<lparr>stage_cur_byte := c\<rparr>) = clean b xs as st" "clean b xs as (st\<lparr>last_len := n\<rparr>) = clean b xs as st"
  "clean b xs as (st\<lparr>stage_val_type := v\<rparr>) = clean b xs as st" "clean b xs as (st\<lparr>ex_tmp := x\<rparr>) = clean b xs as st"
  "clean b xs as (begin_stage c st) = clean b xs as st" "clean b xs as (finish_stage w sid st) = clean b xs as st"
  by (simp_all add: clean_def begin_stage_def finish_stage_def Let_def)

lemma restore_over:
  assumes "over_any i b xs as st"
  shows "clean b xs as (st\<lparr>out_buf := overwrite i (take (last_len st) (drop i b)) (out_buf st)\<rparr>)"
proof -
  from assms obtain p where *: "out_buf st = overwrite i p b" "last_len st = length p" "i + length p \<le> length b"
    "extras st = xs" "a_extras st = as"
    by (auto simp: over_any_def over_at_def)
  have "overwrite i (take (length p) (drop i b)) (overwrite i p b) = overwrite i (take (length p) (drop i b)) b"
    using *(3) by (intro overwrite_overwrite) auto
  then show ?thesis using * by (simp add: overwrite_same clean_def)
qed

lemma emits_over_step:
  assumes "sorted_wrt (\<lambda>s t. length s \<le> length t) toks" "i < length b"
  shows "emits w u (over_step w False b toks i) (clean b xs as) (clean b xs as)
    (if bitmap_read (skip_eff_map w) i then over_runs i b [] toks else [])"
proof -
  let ?body = "\<lambda>st. and_then (walk (over_token w False (of_nat (length toks)) i) toks (st\<lparr>stage_cur_byte := of_nat i\<rparr>))
               (\<lambda>st. Go (st\<lparr>out_buf := overwrite i (take (last_len st) (drop i b)) (out_buf st)\<rparr>))"
  let ?P = "\<lambda>st. clean b xs as st \<and> last_len st = 0"
  have e: "emits w u (walk (over_token w False (of_nat (length toks)) i) toks) (over_at i b [] xs as) (over_any i b xs as)
      (over_runs i b [] toks)"
    using assms by (intro emits_over_tokens) auto
  have "emits w u (\<lambda>st. walk (over_token w False (of_nat (length toks)) i) toks (st\<lparr>stage_cur_byte := of_nat i\<rparr>))
      ?P (over_any i b xs as) (over_runs i b [] toks)"
    by (rule emits_before [OF e, where h = "\<lambda>st. st\<lparr>stage_cur_byte := of_nat i\<rparr>"])
      (use assms(2) in \<open>auto simp: over_at_def clean_def overwrite_def\<close>)
  moreover have "emits w u (\<lambda>st. Go (st\<lparr>out_buf := overwrite i (take (last_len st) (drop i b)) (out_buf st)\<rparr>))
      (over_any i b xs as) (clean b xs as) []"
    by (rule emits_Go) (simp add: restore_over)
  ultimately have "emits w u ?body ?P (clean b xs as) (over_runs i b [] toks @ [])" by (rule emits_and_then)
  then have "emits w u (at_byte w i ?body) ?P (clean b xs as) (if bitmap_read (skip_eff_map w) i then over_runs i b [] toks else [])"
    by (intro emits_at_byte) auto
  then show ?thesis
    unfolding over_step_def by (rule emits_before) simp
qed
lemma emits_around:
  assumes "emits w u (walk step xs) P Q L"
    and "\<And>st. P st \<Longrightarrow> P (h st) \<and> execs (h st) = execs st"
    and "\<And>st. Q st \<Longrightarrow> Q (h' st) \<and> execs (h' st) = execs st"
  shows "emits w u (\<lambda>st. and_then (walk step xs (h st)) (\<lambda>st. Go (h' st))) P Q L"
proof -
  have "emits w u (\<lambda>st. walk step xs (h st)) P Q L" by (rule emits_before [OF assms(1)]) (rule assms(2))
  moreover have "emits w u (\<lambda>st. Go (h' st)) Q Q []" using assms(3) by (rule emits_Go)
  ultimately show ?thesis using emits_and_then [of w u "\<lambda>st. walk step xs (h st)" P Q L] by fastforce
qed

lemma emits_over_stage:
  assumes "sorted_wrt (\<lambda>s t. length s \<le> length t) toks"
  shows "emits w u (over_stage w sid False b toks) (clean b xs as) (clean b xs as) (over_inputs (skip_eff_map w) b toks)"
proof -
  let ?h = "\<lambda>st. begin_stage (of_nat (length toks) * of_nat (length b)) (st\<lparr>stage_val_type := STAGE_VAL_NONE\<rparr>)"
  have "emits w u (walk (over_step w False b toks) [0..<length b]) (clean b xs as) (clean b xs as)
      (over_inputs (skip_eff_map w) b toks)"
    unfolding over_inputs_def by (rule emits_walk) (rule emits_over_step [OF assms], simp)
  then have "emits w u (\<lambda>st. and_then (walk (over_step w False b toks) [0..<length b] (?h st))
      (\<lambda>st. Go (finish_stage w sid st))) (clean b xs as) (clean b xs as) (over_inputs (skip_eff_map w) b toks)"
    by (rule emits_around) simp_all
  then show ?thesis
    unfolding emits_def by (auto simp: over_stage_def Let_def clean_def)
qed

text \<open>Which inputs these are: every token that fits, at every effective byte, but for those that make
  no difference.\<close>

lemma overwrite_prefix_same:
  assumes "take (length t) (drop i (overwrite i prev b)) = t" "length prev \<le> length t" "i + length t \<le> length b"
  shows "overwrite i t b = overwrite i prev b"
proof -
  have l: "length (overwrite i prev b) = length b" using assms(2,3) by simp
  have "overwrite i t b = overwrite i t (overwrite i prev b)"
    using assms(2,3) by (simp add: overwrite_overwrite)
  also have "\<dots> = overwrite i (take (length t) (drop i (overwrite i prev b))) (overwrite i prev b)" using assms(1) by simp
  also have "\<dots> = overwrite i prev b" using assms(3) l by (intro overwrite_same) auto
  finally show ?thesis .
qed

lemma set_over_runs:
  assumes "sorted_wrt (\<lambda>s t. length s \<le> length t) toks" "\<And>t. t \<in> set toks \<Longrightarrow> length prev \<le> length t"
    and "i + length prev \<le> length b"
  shows "insert (overwrite i prev b) (set (over_runs i b prev toks))
       = insert (overwrite i prev b) {overwrite i t b | t. t \<in> set toks \<and> i + length t \<le> length b}"
  using assms
proof (induction toks arbitrary: prev)
  case (Cons t ts)
  let ?S = "{overwrite i t b | t. t \<in> set ts \<and> i + length t \<le> length b}"
  show ?case
  proof (cases "i + length t \<le> length b \<and> take (length t) (drop i (overwrite i prev b)) \<noteq> t")
    case True
    have "insert (overwrite i t b) (set (over_runs i b t ts)) = insert (overwrite i t b) ?S"
      using Cons.prems True by (intro Cons.IH) auto
    moreover have "{overwrite i x b | x. x \<in> set (t # ts) \<and> i + length x \<le> length b} = insert (overwrite i t b) ?S"
      using True by auto
    ultimately show ?thesis using True by simp
  next
    case False
    have "insert (overwrite i prev b) (set (over_runs i b prev ts)) = insert (overwrite i prev b) ?S"
      using Cons.prems by (intro Cons.IH) auto
    moreover have "overwrite i t b = overwrite i prev b" if "i + length t \<le> length b"
      using overwrite_prefix_same [of t i prev b] False that Cons.prems by auto
    ultimately show ?thesis using False by auto
  qed
qed simp

lemma overwrite_Nil [simp]: "i \<le> length b \<Longrightarrow> overwrite i [] b = b"
  by (simp add: overwrite_def)

lemma set_over_inputs:
  assumes "sorted_wrt (\<lambda>s t. length s \<le> length t) toks"
  shows "insert b (set (over_inputs eff b toks))
       = insert b {overwrite i t b | i t. i < length b \<and> bitmap_read eff i \<and> t \<in> set toks \<and> i + length t \<le> length b}"
proof -
  have runs: "insert b (set (over_runs i b [] toks)) = insert b {overwrite i t b | t. t \<in> set toks \<and> i + length t \<le> length b}"
    if "i < length b" for i
    using set_over_runs [OF assms, of "[]" i b] that by simp
  have "insert b (set (over_inputs eff b toks))
      = insert b (\<Union>i\<in>{i. i < length b \<and> bitmap_read eff i}. insert b (set (over_runs i b [] toks)))"
    unfolding over_inputs_def by (auto split: if_splits)
  also have "\<dots> = insert b (\<Union>i\<in>{i. i < length b \<and> bitmap_read eff i}.
      insert b {overwrite i t b | t. t \<in> set toks \<and> i + length t \<le> length b})"
    using runs by auto
  also have "\<dots> = insert b {overwrite i t b | i t. i < length b \<and> bitmap_read eff i \<and> t \<in> set toks \<and> i + length t \<le> length b}"
    by blast
  finally show ?thesis .
qed

section \<open>Insertion\<close>

definition insert_inputs :: "bytes \<Rightarrow> bytes list \<Rightarrow> bytes list" where
  "insert_inputs b toks =
     concat (map (\<lambda>i. concat (map (\<lambda>t. if length b + length t > MAX_FILE then [] else [take i b @ t @ drop i b]) toks))
       [0..<Suc (length b)])"

text \<open>Before position \<open>i\<close> the scratch buffer holds the first \<open>i\<close> bytes of the test case.\<close>

definition head_copied :: "nat \<Rightarrow> bytes \<Rightarrow> bytes list \<Rightarrow> auto_extra list \<Rightarrow> det_st \<Rightarrow> bool" where
  "head_copied i b xs as st \<longleftrightarrow>
     clean b xs as st \<and> length (ex_tmp st) = length b + MAX_DICT_FILE \<and> take i (ex_tmp st) = take i b"

lemma head_copied_upd [simp]:
  "head_copied i b xs as (st\<lparr>execs := h\<rparr>) = head_copied i b xs as st"
  "head_copied i b xs as (st\<lparr>det_checks := k\<rparr>) = head_copied i b xs as st"
  "head_copied i b xs as (st\<lparr>stage_cur := c\<rparr>) = head_copied i b xs as st"
  "head_copied i b xs as (st\<lparr>stage_max := c\<rparr>) = head_copied i b xs as st"
  "head_copied i b xs as (st\<lparr>stage_cur_byte := c\<rparr>) = head_copied i b xs as st"
  "head_copied i b xs as (begin_stage c st) = head_copied i b xs as st"
  by (simp_all add: head_copied_def begin_stage_def)

lemma emits_insert_token:
  assumes "i \<le> length b" "length t \<le> MAX_DICT_FILE"
  shows "emits w u (insert_token w i t) (head_copied i b xs as) (head_copied i b xs as)
    (if length b + length t > MAX_FILE then [] else [take i b @ t @ drop i b])"
proof (rule emitsI)
  fix st assume P: "head_copied i b xs as st"
  then have o: "out_buf st = b" "length (ex_tmp st) = length b + MAX_DICT_FILE" "take i (ex_tmp st) = take i b"
    by (simp_all add: head_copied_def clean_def)
  let ?tmp = "overwrite (i + length t) (drop i b) (overwrite i t (ex_tmp st))"
  have len: "length ?tmp = length b + MAX_DICT_FILE" using o assms by simp
  have "i + (length t + (length b - i)) = length b + length t" using assms(1) by simp
  then have tmp: "take (length b + length t) ?tmp = take i b @ t @ drop i b"
    using o assms by (simp add: overwrite_def min_absorb1)
  have hd: "take i ?tmp = take i b" using arg_cong [OF tmp, of "take i"] assms by (simp add: min_def)
  show "case insert_token w i t st of
      Go s \<Rightarrow> head_copied i b xs as s
        \<and> execs s = execs st @ (if length b + length t > MAX_FILE then [] else [take i b @ t @ drop i b])
    | To_custom s \<Rightarrow> \<not> quiet w
        \<and> (\<exists>p. prefix p (if length b + length t > MAX_FILE then [] else [take i b @ t @ drop i b]) \<and> execs s = execs st @ p)
    | Abandon s \<Rightarrow> \<not> quiet w
        \<and> (\<exists>p. prefix p (if length b + length t > MAX_FILE then [] else [take i b @ t @ drop i b]) \<and> execs s = execs st @ p)
    | Stuck \<Rightarrow> \<not> u"
    using P len hd tmp
    by (auto simp: insert_token_def o(1) Let_def run_input_def quiet_def head_copied_def clean_def)
qed
lemma emits_at_effective:
  assumes "emits w u body P Q L" "\<And>st k. P st \<Longrightarrow> P (st\<lparr>det_checks := k\<rparr>)" "bitmap_read (skip_eff_map w) i"
  shows "emits w u (at_byte w i body) P Q L"
proof (rule emitsI)
  fix st assume P: "P st"
  let ?s = "st\<lparr>det_checks := det_checks st + 1\<rparr>"
  have "P ?s" using assms(2) P by blast
  note D = emitsD [OF assms(1) this]
  show "case at_byte w i body st of
        Go s \<Rightarrow> Q s \<and> execs s = execs st @ L
      | To_custom s \<Rightarrow> \<not> quiet w \<and> (\<exists>p. prefix p L \<and> execs s = execs st @ p)
      | Abandon s \<Rightarrow> \<not> quiet w \<and> (\<exists>p. prefix p L \<and> execs s = execs st @ p)
      | Stuck \<Rightarrow> \<not> u"
  proof (cases "dw_timeout w (det_checks st)")
    case False
    then have e: "at_byte w i body st = body ?s" using assms(3) by (simp add: at_byte_def Let_def)
    show ?thesis by (cases "body ?s") (use e D in auto)
  next
    case True
    then show ?thesis using assms(3) by (auto simp: at_byte_def Let_def quiet_def)
  qed
qed

lemma head_copied_next:
  assumes "head_copied i b xs as st" "i < length b"
  shows "head_copied (Suc i) b xs as (st\<lparr>ex_tmp := (ex_tmp st)[i := out_buf st ! i]\<rparr>)"
proof -
  have *: "length (ex_tmp st) = length b + MAX_DICT_FILE" "take i (ex_tmp st) = take i b" "out_buf st = b"
    using assms(1) by (simp_all add: head_copied_def clean_def)
  have "take (Suc i) ((ex_tmp st)[i := b ! i]) = take (Suc i) b"
    using * assms(2) by (simp add: take_Suc_conv_app_nth)
  then show ?thesis using assms(1) * by (simp add: head_copied_def)
qed

lemma emits_insert_step:
  assumes i: "i \<le> length b" and toks: "\<And>t. t \<in> set toks \<Longrightarrow> length t \<le> MAX_DICT_FILE"
    and e: "bitmap_read (skip_eff_map w) (i mod length b)"
  shows "emits w u (insert_step w toks i) (head_copied (min i (length b)) b xs as)
    (head_copied (min (Suc i) (length b)) b xs as)
    (concat (map (\<lambda>t. if length b + length t > MAX_FILE then [] else [take i b @ t @ drop i b]) toks))" (is "emits w u _ ?P ?Q ?L")
proof -
  let ?copy = "\<lambda>st. if i < length (out_buf st) then st\<lparr>ex_tmp := (ex_tmp st)[i := out_buf st ! i]\<rparr> else st"
  have m: "min i (length b) = i" using i by simp
  have w0: "emits w u (walk (insert_token w i) toks) ?P ?P ?L"
    unfolding m by (rule emits_walk) (rule emits_insert_token [OF i toks])
  have w1: "emits w u (\<lambda>st. walk (insert_token w i) toks (st\<lparr>stage_cur_byte := of_nat i\<rparr>)) ?P ?P ?L"
    by (rule emits_before [OF w0]) simp
  have "?Q (?copy st)" if P: "?P st" for st
  proof (cases "i < length b")
    case True
    then show ?thesis using head_copied_next [of i b xs as st] P by (simp add: head_copied_def clean_def)
  next
    case False
    then show ?thesis using P i by (simp add: head_copied_def clean_def)
  qed
  then have "emits w u (\<lambda>st. Go (?copy st)) ?P ?Q []" by (intro emits_Go) simp
  from emits_and_then [OF w1 this]
  have "emits w u (\<lambda>st. and_then (walk (insert_token w i) toks (st\<lparr>stage_cur_byte := of_nat i\<rparr>)) (\<lambda>st. Go (?copy st))) ?P ?Q ?L"
    by simp
  from emits_at_effective [OF this _ e] show ?thesis
    unfolding emits_def by (simp add: insert_step_def head_copied_def clean_def)
qed

lemma emits_insert_stage:
  assumes b: "b \<noteq> []" and toks: "\<And>t. t \<in> set toks \<Longrightarrow> length t \<le> MAX_DICT_FILE" and e: "all_effective (skip_eff_map w) b"
    and f: "length b + MAX_DICT_FILE \<le> length fresh"
  shows "emits w u (insert_stage w sid fresh toks) (clean b xs as) (clean b xs as) (insert_inputs b toks)"
proof -
  let ?tmp = "\<lambda>st. take (length b + MAX_DICT_FILE) (ex_tmp st @ drop (length (ex_tmp st)) fresh)"
  let ?h = "\<lambda>st. begin_stage (of_nat (length toks) * (of_nat (length b) + 1)) (st\<lparr>ex_tmp := ?tmp st\<rparr>)"
  let ?P = "\<lambda>i. head_copied (min i (length b)) b xs as"
  have w: "emits w u (walk (insert_step w toks) [0..<Suc (length b)]) (?P 0) (?P (Suc (length b))) (insert_inputs b toks)"
    unfolding insert_inputs_def
  proof (rule emits_walk_upt)
    fix i assume "i < Suc (length b)"
    moreover have "bitmap_read (skip_eff_map w) (i mod length b)" using e b by (simp add: all_effective_def)
    ultimately show "emits w u (insert_step w toks i) (?P i) (?P (Suc i))
        (concat (map (\<lambda>t. if length b + length t > MAX_FILE then [] else [take i b @ t @ drop i b]) toks))"
      by (intro emits_insert_step toks) auto
  qed simp
  have "emits w u (\<lambda>st. walk (insert_step w toks) [0..<Suc (length b)] (?h st)) (clean b xs as) (?P (Suc (length b))) (insert_inputs b toks)"
  proof (rule emits_before [OF w])
    fix st assume "clean b xs as st"
    moreover have "length (take n (zs @ drop (length zs) fresh)) = n" if "n \<le> length fresh" for n and zs :: bytes
      using that by simp
    ultimately show "?P 0 (?h st) \<and> execs (?h st) = execs st"
      using f by (simp add: head_copied_def begin_stage_def clean_def del: length_take take_append)
  qed
  moreover have "emits w u (\<lambda>st. Go (finish_stage w sid st)) (?P (Suc (length b))) (clean b xs as) []"
    by (rule emits_Go) (simp add: head_copied_def)
  ultimately have "emits w u (\<lambda>st. and_then (walk (insert_step w toks) [0..<Suc (length b)] (?h st))
      (\<lambda>st. Go (finish_stage w sid st))) (clean b xs as) (clean b xs as) (insert_inputs b toks)"
    using emits_and_then by fastforce
  then show ?thesis
    unfolding emits_def by (auto simp: insert_stage_def Let_def clean_def)
qed

text \<open>With a hole in the effector map the bytes before the insertion are those of the scratch buffer: here
  the first byte of the test case is lost, and the byte that \<open>afl_realloc\<close> left there is run instead.\<close>

lemma insert_stage_stale_head:
  "case insert_stage (plain_world [0x02] False) STAGE_EXTRAS_UI (replicate 130 0) [[7]] (fresh_det [1, 2] [[7]]) of
     Go s \<Rightarrow> execs s = [[0, 7, 2]] | _ \<Rightarrow> False"
proof -
  have u: "[0..<Suc 2] = [0, 1, 2]" by (simp add: upt_rec)
  have e: "bitmap_read [2] 0 = False" "bitmap_read [2] 1 = True" by code_simp+
  show ?thesis
    by (simp add: insert_stage_def insert_step_def insert_token_def at_byte_def e u run_input_def
        plain_world_def fresh_det_def e [simplified] overwrite_def begin_stage_def finish_stage_def Let_def)
qed

section \<open>The dictionary stages as a whole\<close>

definition dict_inputs :: "bytes \<Rightarrow> bytes \<Rightarrow> bytes list \<Rightarrow> bytes list \<Rightarrow> bytes list" where
  "dict_inputs eff b user auto =
     over_inputs eff b user @ insert_inputs b user
     @ over_inputs eff b (take USE_AUTO_EXTRAS auto) @ insert_inputs b auto"

lemma inputs_no_tokens [simp]: "over_inputs eff b [] = []" "insert_inputs b [] = []"
  by (auto simp: over_inputs_def insert_inputs_def split: if_splits)

lemma emits_cong: "(\<And>st. P st \<Longrightarrow> f st = g st) \<Longrightarrow> emits w t f P Q L \<longleftrightarrow> emits w t g P Q L"
  by (simp add: emits_def)

lemma emits_dict_pair:
  assumes b: "b \<noteq> []" and e: "all_effective (skip_eff_map w) b" and f: "length b + MAX_DICT_FILE \<le> length fresh"
    and s: "sorted_wrt (\<lambda>s t. length s \<le> length t) toks" and l: "\<And>t. t \<in> set toks' \<Longrightarrow> length t \<le> MAX_DICT_FILE"
    and t1: "\<And>st. clean b xs as st \<Longrightarrow> picky st = False \<and> sel st = toks" and t2: "\<And>st. clean b xs as st \<Longrightarrow> sel' st = toks'"
  shows "emits w t (\<lambda>st. and_then (over_stage w sid (picky st) b (sel st) st) (\<lambda>st. insert_stage w sid' fresh (sel' st) st))
    (clean b xs as) (clean b xs as) (over_inputs (skip_eff_map w) b toks @ insert_inputs b toks')"
proof (rule emits_and_then)
  show "emits w t (\<lambda>st. over_stage w sid (picky st) b (sel st) st) (clean b xs as) (clean b xs as) (over_inputs (skip_eff_map w) b toks)"
    using emits_over_stage [OF s] t1 by (subst emits_cong [where g = "over_stage w sid False b toks"]) auto
  show "emits w t (\<lambda>st. insert_stage w sid' fresh (sel' st) st) (clean b xs as) (clean b xs as) (insert_inputs b toks')"
    using emits_insert_stage [OF b l e f] t2 by (subst emits_cong [where g = "insert_stage w sid' fresh toks'"]) auto
qed

lemma emits_unless_empty:
  assumes "emits w t f P P L" "\<And>st. P st \<Longrightarrow> c st = none" "none \<Longrightarrow> L = []"
  shows "emits w t (\<lambda>st. if c st then Go st else f st) P P L"
proof (cases none)
  case True
  then show ?thesis using assms emits_skip [of P P w t] by (subst emits_cong [where g = Go]) auto
next
  case False
  then show ?thesis using assms by (subst emits_cong [where g = f]) auto
qed

lemma emits_extras_stages:
  assumes b: "b \<noteq> []" and e: "all_effective (skip_eff_map w) b" and f: "length b + MAX_DICT_FILE \<le> length fresh"
    and u: "sorted_wrt (\<lambda>s t. length s \<le> length t) xs" "\<And>t. t \<in> set xs \<Longrightarrow> length t \<le> MAX_DICT_FILE"
      "of_nat (length xs) \<le> max_det_extras w"
    and a: "sorted_wrt (\<lambda>s t. length s \<le> length t) (map ae_data (take USE_AUTO_EXTRAS as))"
      "\<And>t. t \<in> set (map ae_data as) \<Longrightarrow> length t \<le> MAX_DICT_FILE"
  shows "emits w t (extras_stages w b fresh) (clean b xs as) (clean b xs as) (dict_inputs (skip_eff_map w) b xs (map ae_data as))"
proof -
  have x: "\<not> max_det_extras w < of_nat (length xs)" using u(3) by simp
  note pair = emits_dict_pair [OF b e f]
  have 1: "emits w t (\<lambda>st. and_then (over_stage w STAGE_EXTRAS_UO (of_nat (length (extras st)) > max_det_extras w) b (extras st) st)
        (\<lambda>st. insert_stage w STAGE_EXTRAS_UI fresh (extras st) st))
      (clean b xs as) (clean b xs as) (over_inputs (skip_eff_map w) b xs @ insert_inputs b xs)"
    by (rule pair) (use u x in \<open>auto simp: clean_def\<close>)
  have 2: "emits w t (\<lambda>st. and_then (over_stage w STAGE_EXTRAS_AO False b (map ae_data (take USE_AUTO_EXTRAS (a_extras st))) st)
        (\<lambda>st. insert_stage w STAGE_EXTRAS_AI fresh (map ae_data (a_extras st)) st))
      (clean b xs as) (clean b xs as)
      (over_inputs (skip_eff_map w) b (map ae_data (take USE_AUTO_EXTRAS as)) @ insert_inputs b (map ae_data as))"
    by (rule pair) (use a in \<open>auto simp: clean_def\<close>)
  have 3: "emits w t (\<lambda>st. if extras st = [] then Go st
       else and_then (over_stage w STAGE_EXTRAS_UO (of_nat (length (extras st)) > max_det_extras w) b (extras st) st)
        (\<lambda>st. insert_stage w STAGE_EXTRAS_UI fresh (extras st) st))
      (clean b xs as) (clean b xs as) (over_inputs (skip_eff_map w) b xs @ insert_inputs b xs)"
    by (rule emits_unless_empty [OF 1, where none = "xs = []"]) (auto simp: clean_def)
  have 4: "emits w t (\<lambda>st. if a_extras st = [] then Go st
       else and_then (over_stage w STAGE_EXTRAS_AO False b (map ae_data (take USE_AUTO_EXTRAS (a_extras st))) st)
        (\<lambda>st. insert_stage w STAGE_EXTRAS_AI fresh (map ae_data (a_extras st)) st))
      (clean b xs as) (clean b xs as)
      (over_inputs (skip_eff_map w) b (map ae_data (take USE_AUTO_EXTRAS as)) @ insert_inputs b (map ae_data as))"
    by (rule emits_unless_empty [OF 2, where none = "as = []"]) (auto simp: clean_def)
  show ?thesis
    using emits_and_then [OF 3 4] unfolding dict_inputs_def extras_stages_def take_map by simp
qed

end
