(* ===== verification/Dict_Laws.thy ===== *)
theory Dict_Laws
  imports Extras
begin

text \<open>
  Laws of the dictionaries: a dictionary file written with quotes and escapes is read back as it was, the
  removal of duplicates keeps the first of equal tokens, the tokens found while fuzzing stay pairwise
  different, bounded and, where it matters, sorted, and saving and loading them keeps every token.
\<close>

section \<open>Dictionary files\<close>

text \<open>A token in a dictionary file: printable bytes stand for themselves, a quote and a backslash are
  escaped, every other byte is written in hexadecimal.\<close>

definition hex_digit :: "u8 \<Rightarrow> u8" where
  "hex_digit d = (if d < 10 then 48 + d else 87 + d)"

definition quote_byte :: "u8 \<Rightarrow> bytes" where
  "quote_byte c =
     (if c = 0x5c \<or> c = 0x22 then [0x5c, c]
      else if 32 \<le> c \<and> c \<le> 126 then [c]
      else [0x5c, 0x78, hex_digit (drop_bit 4 c), hex_digit (c AND 15)])"

definition quote_line :: "bytes \<Rightarrow> bytes" where
  "quote_line tok = 0x22 # concat (map quote_byte tok) @ [0x22, 10]"

lemma hex_value_digit:
  assumes "d < 16"
  shows "hex_value (hex_digit d) = Some d"
proof -
  have "unat d \<in> {0..<16}" using assms by (simp add: word_less_nat_alt)
  then have "d \<in> set (map of_nat [0..<16])" by (auto intro!: image_eqI [of _ _ "unat d"])
  moreover have "\<forall>d \<in> set (map of_nat [0..<16]). hex_value (hex_digit d) = Some d"
    by code_simp
  ultimately show ?thesis by blast
qed

lemma nibbles:
  fixes c :: u8
  shows "drop_bit 4 c < 16" "c AND 15 < 16" "push_bit 4 (drop_bit 4 c) OR (c AND 15) = c"
proof -
  have e: "(15 :: u8) = mask 4" by (simp add: mask_eq_exp_minus_1)
  have "unat c < 2 ^ LENGTH(8)" by (rule unsigned_less)
  then show "drop_bit 4 c < 16"
    unfolding word_less_nat_alt unat_drop_bit_eq by (simp add: drop_bit_eq_div)
  show "c AND 15 < 16" using unat_and_mask_pow2 [of 16 4 c] by (simp add: word_less_nat_alt)
  show "push_bit 4 (drop_bit 4 c) OR (c AND 15) = c"
    unfolding e by (intro bit_word_eqI) (auto simp: bit_or_iff bit_and_iff bit_push_bit_iff bit_drop_bit_eq bit_mask_iff)
qed

lemma hex_digit_range: "d < 16 \<Longrightarrow> hex_digit d \<noteq> 0 \<and> hex_digit d \<noteq> 10"
proof -
  assume "d < 16"
  then have "unat d \<in> {0..<16}" by (simp add: word_less_nat_alt)
  then have "d \<in> set (map of_nat [0..<16])" by (auto intro!: image_eqI [of _ _ "unat d"])
  moreover have "\<forall>d \<in> set (map of_nat [0..<16]). hex_digit d \<noteq> 0 \<and> hex_digit d \<noteq> 10" by code_simp
  ultimately show ?thesis by blast
qed

lemma unescape_quote: "unescape (quote_byte c @ cs) = c # unescape cs"
proof -
  consider "c = 0x5c \<or> c = 0x22" | "c \<noteq> 0x5c" "c \<noteq> 0x22" "32 \<le> c \<and> c \<le> 126" | "c \<noteq> 0x5c" "c \<noteq> 0x22" "\<not> (32 \<le> c \<and> c \<le> 126)" by blast
  then show ?thesis
  proof cases
    case 1
    then show ?thesis by (auto simp: quote_byte_def)
  next
    case 2
    then have "\<not> (1 \<le> c \<and> c \<le> 31 \<or> 128 \<le> c)"
      by (auto simp: word_le_nat_alt)
    with 2 show ?thesis by (simp add: quote_byte_def)
  next
    case 3
    then show ?thesis
      using hex_value_digit [OF nibbles(1), of c] hex_value_digit [OF nibbles(2), of c]
      by (simp add: quote_byte_def nibbles(3))
  qed
qed

lemma unescape_quotes: "unescape (concat (map quote_byte tok)) = tok"
  by (induction tok) (simp_all add: unescape_quote)

lemma quote_byte_plain: "b \<in> set (quote_byte c) \<Longrightarrow> b \<noteq> 0 \<and> b \<noteq> 10"
  using hex_digit_range [OF nibbles(1)] hex_digit_range [OF nibbles(2)]
  by (auto simp: quote_byte_def split: if_splits)

lemma length_quote_byte: "1 \<le> length (quote_byte c) \<and> length (quote_byte c) \<le> 4"
  by (auto simp: quote_byte_def)

lemma length_quote_line: "length (quote_line tok) \<le> 4 * length tok + 3"
proof -
  have "length (concat (map quote_byte tok)) \<le> 4 * length tok"
  proof (induction tok)
    case (Cons c tok)
    then show ?case using length_quote_byte [of c] by simp
  qed simp
  then show ?thesis by (simp add: quote_line_def)
qed

lemma parse_quote_line:
  assumes "tok \<noteq> []" "length tok \<le> MAX_DICT_FILE"
  shows "parse_line level (quote_line tok) = Line_token tok"
proof -
  let ?q = "concat (map quote_byte tok)"
  have nz: "\<forall>b \<in> set ?q. b \<noteq> 0" using quote_byte_plain by auto
  have tw: "takeWhile (\<lambda>b. b \<noteq> 0) (quote_line tok) = quote_line tok"
    using nz by (auto simp: quote_line_def takeWhile_eq_all_conv)
  have sp: "\<not> byte_isspace 0x22" "byte_isspace 10" by code_simp+
  have tr: "rev (dropWhile byte_isspace (rev (dropWhile byte_isspace (quote_line tok)))) = 0x22 # ?q @ [0x22]"
    by (simp add: quote_line_def sp)
  have al: "\<not> byte_isalnum 0x22" by code_simp
  have "quote_byte c \<noteq> []" for c by (auto simp: quote_byte_def)
  then have "?q \<noteq> []" using assms(1) by (cases tok) auto
  then show ?thesis
    using assms(2) unfolding parse_line_def tw Let_def tr
    by (simp add: butlast_append al line_level_def line_number_def sp unescape_quotes)
qed

lemma fgets_quote_line:
  assumes "length tok \<le> MAX_DICT_FILE"
  shows "fgets_lines (quote_line tok @ rest) = quote_line tok # fgets_lines rest"
proof -
  let ?q = "0x22 # concat (map quote_byte tok) @ [0x22]"
  have e: "quote_line tok = ?q @ [10]" by (simp add: quote_line_def)
  have "\<forall>b \<in> set ?q. b \<noteq> 10" using quote_byte_plain by auto
  then have tw: "takeWhile (\<lambda>b. b \<noteq> 10) (quote_line tok @ rest) = ?q"
    unfolding e append_assoc by (subst takeWhile_append2) auto
  have len: "length (quote_line tok) = length ?q + 1" "length (quote_line tok) \<le> 515"
    using length_quote_line [of tok] assms unfolding e by simp_all
  have ne: "quote_line tok @ rest \<noteq> []" by (simp add: quote_line_def)
  have n: "min (if length ?q < length (quote_line tok @ rest) then length ?q + 1 else length ?q) (MAX_LINE - 1)
      = length (quote_line tok)"
    using len by simp
  show ?thesis
    by (subst fgets_lines.simps) (simp only: ne tw Let_def n, simp)
qed

lemma load_quoted_file:
  assumes "\<And>t. t \<in> set toks \<Longrightarrow> t \<noteq> [] \<and> length t \<le> MAX_DICT_FILE"
  shows "load_extras_file level (concat (map quote_line toks)) d = d\<lparr>extras := extras d @ toks\<rparr>"
proof -
  have lines: "fgets_lines (concat (map quote_line toks)) = map quote_line toks"
    using assms
  proof (induction toks)
    case Nil
    show ?case by (subst fgets_lines.simps) simp
  next
    case (Cons t ts)
    then show ?case by (simp add: fgets_quote_line)
  qed
  have "List.map_filter (\<lambda>line. case parse_line level line of Line_token t \<Rightarrow> Some t | _ \<Rightarrow> None) (map quote_line toks) = toks"
    using assms by (induction toks) (simp_all add: List.map_filter_simps parse_quote_line)
  then show ?thesis by (simp add: load_extras_file_def lines)
qed
section \<open>Removal of duplicates\<close>

text \<open>The first of equal tokens.\<close>

fun firsts :: "'a list \<Rightarrow> 'a list" where
  "firsts [] = []"
| "firsts (x # xs) = x # firsts (filter (\<lambda>y. y \<noteq> x) xs)"

lemma set_firsts [simp]: "set (firsts xs) = set xs"
  by (induction xs rule: firsts.induct) auto

lemma distinct_firsts [simp]: "distinct (firsts xs)"
  by (induction xs rule: firsts.induct) auto

lemma sorted_wrt_filter: "sorted_wrt P xs \<Longrightarrow> sorted_wrt P (filter Q xs)"
  by (induction xs) auto

lemma dedup_inner_filter:
  assumes "i < j" "j \<le> length xs" "sorted_wrt (\<lambda>s t. length s \<le> length t) xs"
  shows "dedup_inner i j xs = take j xs @ filter (\<lambda>y. y \<noteq> xs ! i) (drop j xs)"
  using assms
proof (induction i j xs rule: dedup_inner.induct)
  case (1 i j xs)
  show ?case
  proof (cases "j \<ge> length xs \<or> length (xs ! i) \<noteq> length (xs ! j)")
    case True
    have "filter (\<lambda>y. y \<noteq> xs ! i) (drop j xs) = drop j xs"
    proof (cases "j \<ge> length xs")
      case False
      with True 1 have "length (xs ! i) < length (xs ! j)"
        using sorted_wrt_nth_less [OF 1(5), of i j] by auto
      moreover have "length (xs ! j) \<le> length y" if y: "y \<in> set (drop j xs)" for y
      proof -
        from y obtain k where "k < length (drop j xs)" "y = drop j xs ! k" by (metis in_set_conv_nth)
        then have k: "y = xs ! (j + k)" "j + k < length xs" using False by simp_all
        show ?thesis
          using sorted_wrt_nth_less [OF 1(5), of j "j + k"] k by (cases "k = 0") auto
      qed
      ultimately show ?thesis unfolding filter_id_conv by (metis leD)
    qed simp
    with True show ?thesis by (subst dedup_inner.simps) simp
  next
    case False
    then have j: "j < length xs" "drop j xs = xs ! j # drop (Suc j) xs" by (auto simp: Cons_nth_drop_Suc)
    show ?thesis
    proof (cases "xs ! i = xs ! j")
      case True
      let ?ys = "take j xs @ drop (Suc j) xs"
      have s: "sorted_wrt (\<lambda>s t. length s \<le> length t) ?ys"
        using 1(5) j by (subst (asm) id_take_nth_drop [OF j(1)]) (auto simp: sorted_wrt_append)
      have i: "?ys ! i = xs ! i" using 1(3) j(1) by (simp add: nth_append)
      have "dedup_inner i j ?ys = take j ?ys @ filter (\<lambda>y. y \<noteq> ?ys ! i) (drop j ?ys)"
        using 1(1) False True s j(1) 1(3) by auto
      also have "\<dots> = take j xs @ filter (\<lambda>y. y \<noteq> xs ! i) (drop (Suc j) xs)" unfolding i using j(1) by simp
      finally show ?thesis using False True j by (subst dedup_inner.simps) simp
    next
      case ne: False
      have "dedup_inner i (Suc j) xs = take (Suc j) xs @ filter (\<lambda>y. y \<noteq> xs ! i) (drop (Suc j) xs)"
        using 1(2) False ne 1(3,5) by auto
      with False ne j show ?thesis by (subst dedup_inner.simps) (simp add: take_Suc_conv_app_nth)
    qed
  qed
qed

lemma dedup_outer_firsts:
  assumes "sorted_wrt (\<lambda>s t. length s \<le> length t) xs"
  shows "dedup_outer i xs = take i xs @ firsts (drop i xs)"
  using assms
proof (induction i xs rule: dedup_outer.induct)
  case (1 i xs)
  show ?case
  proof (cases "i < length xs - 1")
    case True
    then have i: "i < length xs" "drop i xs = xs ! i # drop (Suc i) xs" by (auto simp: Cons_nth_drop_Suc)
    define ys where "ys = take (Suc i) xs @ filter (\<lambda>y. y \<noteq> xs ! i) (drop (Suc i) xs)"
    have d: "dedup_inner i (Suc i) xs = ys"
      unfolding ys_def using 1(2) i by (intro dedup_inner_filter) auto
    have "sorted_wrt (\<lambda>s t. length s \<le> length t) (take (Suc i) xs @ drop (Suc i) xs)" using 1(2) by simp
    then have s: "sorted_wrt (\<lambda>s t. length s \<le> length t) ys"
      unfolding ys_def sorted_wrt_append by (auto intro: sorted_wrt_filter)
    have "dedup_outer (Suc i) ys = take (Suc i) ys @ firsts (drop (Suc i) ys)"
      using 1(1) [OF True] d s by simp
    also have "\<dots> = take i xs @ firsts (drop i xs)"
      using i by (simp add: ys_def take_Suc_conv_app_nth)
    finally show ?thesis using True d by (subst dedup_outer.simps) simp
  next
    case False
    then have "length (drop i xs) \<le> 1" by simp
    then have "firsts (drop i xs) = drop i xs"
      by (cases "drop i xs" rule: firsts.cases) auto
    with False show ?thesis by (subst dedup_outer.simps) simp
  qed
qed

lemma firsts_short: "length xs < 2 \<Longrightarrow> firsts xs = xs"
  by (cases xs rule: firsts.cases) auto

lemma dedup_extras_firsts:
  assumes "sorted_wrt (\<lambda>s t. length s \<le> length t) (extras d)"
  shows "dedup_extras d = d\<lparr>extras := firsts (extras d)\<rparr>"
  using assms by (simp add: dedup_extras_def dedup_outer_firsts firsts_short)

section \<open>Sorting by length\<close>

lemma sint_length_diff:
  assumes "m < 2 ^ 31" "n < 2 ^ 31"
  shows "sint (of_nat m - of_nat n :: u32) = int m - int n"
proof -
  have w: "(of_nat m - of_nat n :: u32) = word_of_int (int m - int n)" by simp
  have "sint (of_nat m - of_nat n :: u32) = signed_take_bit 31 (int m - int n)"
    unfolding w signed_of_int by simp
  also have "\<dots> = int m - int n"
    using assms by (intro signed_take_bit_int_eq_self) auto
  finally show ?thesis .
qed

lemma compare_extras_len_iff:
  "length s < 2 ^ 31 \<Longrightarrow> length t < 2 ^ 31 \<Longrightarrow> compare_extras_len s t \<le> 0 \<longleftrightarrow> length s \<le> length t"
  by (simp add: compare_extras_len_def sint_length_diff)

lemma compare_auto_len_iff:
  "length (ae_data s) < 2 ^ 31 \<Longrightarrow> length (ae_data t) < 2 ^ 31 \<Longrightarrow>
    compare_auto_extras_len s t \<le> 0 \<longleftrightarrow> length (ae_data s) \<le> length (ae_data t)"
  by (simp add: compare_auto_extras_len_def sint_length_diff)

lemma qsort_sorts:
  assumes q: "qsort_ok qs" and c: "\<And>x y. x \<in> set xs \<Longrightarrow> y \<in> set xs \<Longrightarrow> cmp x y \<le> 0 \<longleftrightarrow> f x \<le> (f y :: nat)"
  shows "sorted_wrt (\<lambda>x y. f x \<le> f y) (qs cmp xs)"
proof -
  have "comparator_on (set xs) cmp" unfolding comparator_on_def using c by (auto simp: nat_le_linear)
  then have "sorted_wrt (\<lambda>x y. cmp x y \<le> 0) (qs cmp xs)" using q by (simp add: qsort_ok_def)
  moreover have "set (qs cmp xs) = set xs" using q unfolding qsort_ok_def by (metis set_mset_mset)
  ultimately show ?thesis using c by (auto elim!: sorted_wrt_mono_rel [rotated])
qed
section \<open>Tokens found while fuzzing\<close>

text \<open>A token worth keeping; and what the list of found tokens always satisfies: not too many, each worth
  keeping, no two of them equal but for letter case, the ones the deterministic stages use sorted by
  length.\<close>

definition worth_keeping :: "bytes \<Rightarrow> bool" where
  "worth_keeping t \<longleftrightarrow> run_stop t \<noteq> length t \<and> length t \<le> MAX_AUTO_EXTRA \<and> \<not> builtin_value t"

definition auto_key :: "auto_extra \<Rightarrow> bytes" where
  "auto_key a = map byte_tolower (ae_data a)"

definition auto_ok :: "'a dict_st_scheme \<Rightarrow> bool" where
  "auto_ok d \<longleftrightarrow>
     length (a_extras d) \<le> MAX_AUTO_EXTRAS
     \<and> (\<forall>a \<in> set (a_extras d). worth_keeping (ae_data a))
     \<and> distinct (map auto_key (a_extras d))
     \<and> sorted_wrt (\<lambda>a b. length (ae_data a) \<le> length (ae_data b)) (take USE_AUTO_EXTRAS (a_extras d))"

lemma same_nocase_key: "same_nocase (ae_data a) m \<longleftrightarrow> auto_key a = map byte_tolower m"
  by (simp add: same_nocase_def auto_key_def)

lemma find_auto_None:
  "find_auto m i as = None \<longleftrightarrow> map byte_tolower m \<notin> set (map auto_key as)"
proof (induction as arbitrary: i)
  case (Cons a as)
  have "length (ae_data a) = length m \<and> same_nocase (ae_data a) m \<longleftrightarrow> auto_key a = map byte_tolower m"
    unfolding same_nocase_key using map_eq_imp_length_eq [of byte_tolower "ae_data a" byte_tolower m] by (auto simp: auto_key_def)
  then show ?case using Cons by (auto simp: eq_commute)
qed simp

lemma find_auto_Some: "find_auto m i as = Some k \<Longrightarrow> i \<le> k \<and> k < i + length as"
proof (induction as arbitrary: i)
  case (Cons a as)
  then show ?case using Cons.IH [of "Suc i"] by (auto split: if_splits dest: Suc_leD)
qed simp

lemma sorted_sort_auto:
  assumes "qsort_ok qs" "\<And>a. a \<in> set as \<Longrightarrow> length (ae_data a) \<le> MAX_AUTO_EXTRA"
  shows "sorted_wrt (\<lambda>a b. length (ae_data a) \<le> length (ae_data b)) (take USE_AUTO_EXTRAS (sort_auto qs as))"
proof -
  let ?bs = "qs compare_auto_extras_use_d as"
  let ?n = "min USE_AUTO_EXTRAS (length ?bs)"
  have sub: "set (take ?n ?bs) \<subseteq> set as"
    using assms(1) set_take_subset [of ?n ?bs] unfolding qsort_ok_def by (metis set_mset_mset)
  have len: "length (ae_data a) < 2 ^ 31" if "a \<in> set (take ?n ?bs)" for a
  proof -
    have "length (ae_data a) \<le> MAX_AUTO_EXTRA" using sub that assms(2) by blast
    then show ?thesis by simp
  qed
  have "sorted_wrt (\<lambda>a b. length (ae_data a) \<le> length (ae_data b)) (qs compare_auto_extras_len (take ?n ?bs))"
    by (rule qsort_sorts [OF assms(1)], rule compare_auto_len_iff) (erule len)+
  moreover have "take USE_AUTO_EXTRAS (sort_auto qs as) = qs compare_auto_extras_len (take ?n ?bs)"
    using length_qsort [OF assms(1), of compare_auto_extras_len "take ?n ?bs"] by (auto simp: sort_auto_def Let_def)
  ultimately show ?thesis by simp
qed

lemma auto_ok_sort:
  assumes "qsort_ok qs" "length as \<le> MAX_AUTO_EXTRAS" "\<forall>a \<in> set as. worth_keeping (ae_data a)" "distinct (map auto_key as)"
  shows "auto_ok (d\<lparr>a_extras := sort_auto qs as, auto_changed := c, dict_rng := g\<rparr>)"
proof -
  have m: "mset (sort_auto qs as) = mset as" by (rule mset_sort_auto [OF assms(1)])
  then have "set (sort_auto qs as) = set as" "length (sort_auto qs as) = length as"
    by (metis set_mset_mset, metis size_mset)
  moreover have "mset (map auto_key (sort_auto qs as)) = mset (map auto_key as)" using m by simp
  then have "distinct (map auto_key (sort_auto qs as))" using assms(4) by (metis mset_eq_imp_distinct_iff)
  ultimately show ?thesis
    using assms sorted_sort_auto [of qs as] by (auto simp: auto_ok_def worth_keeping_def)
qed

lemma maybe_add_auto_ok:
  assumes "maybe_add_auto urandom qs t d = Some d'" "qsort_ok qs" "auto_ok d"
  shows "auto_ok d'"
proof (cases "run_stop t = length t \<or> length t > MAX_AUTO_EXTRA \<or> builtin_value t \<or> known_extra t (extras d)")
  case True
  with assms show ?thesis by (simp add: maybe_add_auto_def)
next
  case False
  then have w: "worth_keeping t" by (auto simp: worth_keeping_def)
  let ?new = "\<lparr>ae_data = t, hit_cnt = 0\<rparr>"
  have k: "auto_key ?new = map byte_tolower t" by (simp add: auto_key_def)
  show ?thesis
  proof (cases "find_auto t 0 (a_extras d)")
    case (Some i)
    let ?as = "(a_extras d)[i := (a_extras d ! i)\<lparr>hit_cnt := hit_cnt (a_extras d ! i) + 1\<rparr>]"
    have i: "i < length (a_extras d)" using find_auto_Some [OF Some] by simp
    have keys: "map auto_key ?as = map auto_key (a_extras d)"
      using i by (simp add: map_update auto_key_def list_update_same_conv)
    have "\<forall>a \<in> set ?as. worth_keeping (ae_data a)"
      using assms(3) i by (auto simp: auto_ok_def dest!: set_update_subset_insert [THEN subsetD])
    with auto_ok_sort [OF assms(2), where as = ?as and d = d and c = True and g = "dict_rng d"] assms(1,3) False Some keys
    show ?thesis by (cases d) (auto simp: maybe_add_auto_def Let_def auto_ok_def)
  next
    case None
    then have fresh: "map byte_tolower t \<notin> set (map auto_key (a_extras d))" using find_auto_None by blast
    show ?thesis
    proof (cases "length (a_extras d) < MAX_AUTO_EXTRAS")
      case True
      have "auto_ok (d\<lparr>a_extras := sort_auto qs (a_extras d @ [?new]), auto_changed := True, dict_rng := dict_rng d\<rparr>)"
        using assms(3) True w fresh by (intro auto_ok_sort [OF assms(2)]) (auto simp: auto_ok_def k)
      with assms(1) False None True show ?thesis by (cases d) (auto simp: maybe_add_auto_def Let_def)
    next
      case full: False
      with assms(1) False None obtain j g where
        d': "d' = d\<lparr>a_extras := sort_auto qs ((a_extras d)[j := ?new]), auto_changed := True, dict_rng := g\<rparr>"
        by (cases d) (auto simp: maybe_add_auto_def Let_def)
      have "set ((a_extras d)[j := ?new]) \<subseteq> insert ?new (set (a_extras d))" by (rule set_update_subset_insert)
      then have worth: "\<forall>a \<in> set ((a_extras d)[j := ?new]). worth_keeping (ae_data a)"
        using assms(3) w by (auto simp: auto_ok_def)
      have "distinct (map auto_key ((a_extras d)[j := ?new]))"
        using assms(3) fresh by (auto simp: auto_ok_def map_update k intro: distinct_list_update)
      with worth show ?thesis
        unfolding d' using assms(3) by (intro auto_ok_sort [OF assms(2)]) (auto simp: auto_ok_def)
    qed
  qed
qed

section \<open>Saving and loading\<close>

text \<open>A list of tokens a fuzzer may take over: each worth keeping and long enough, none of them known to
  the user's dictionary, no two of them equal but for letter case.\<close>

definition loadable :: "bytes list \<Rightarrow> bytes list \<Rightarrow> bool" where
  "loadable known ts \<longleftrightarrow>
     length ts \<le> USE_AUTO_EXTRAS \<and> distinct (map (map byte_tolower) ts)
     \<and> (\<forall>t \<in> set ts. MIN_AUTO_EXTRA \<le> length t \<and> worth_keeping t \<and> \<not> known_extra t known)"

lemma maybe_add_auto_new:
  assumes "worth_keeping t" "\<not> known_extra t (extras d)" "map byte_tolower t \<notin> set (map auto_key (a_extras d))"
    "length (a_extras d) < MAX_AUTO_EXTRAS"
  shows "maybe_add_auto urandom qs t d
    = Some (d\<lparr>auto_changed := True, a_extras := sort_auto qs (a_extras d @ [\<lparr>ae_data = t, hit_cnt = 0\<rparr>])\<rparr>)"
proof -
  have "find_auto t 0 (a_extras d) = None" unfolding find_auto_None by (rule assms(3))
  then show ?thesis using assms by (auto simp: maybe_add_auto_def worth_keeping_def)
qed

lemma load_auto_files_new:
  assumes "qsort_ok qs" "\<forall>t \<in> set ts. MIN_AUTO_EXTRA \<le> length t \<and> worth_keeping t \<and> \<not> known_extra t (extras d)"
    "distinct (map auto_key (a_extras d) @ map (map byte_tolower) ts)" "length (a_extras d) + length ts \<le> MAX_AUTO_EXTRAS"
  shows "\<exists>d'. load_auto_files urandom qs ts d = Some d' \<and> mset (map ae_data (a_extras d')) = mset (map ae_data (a_extras d)) + mset ts
    \<and> extras d' = extras d"
  using assms(2-)
proof (induction ts arbitrary: d)
  case (Cons t ts)
  let ?as = "a_extras d @ [\<lparr>ae_data = t, hit_cnt = 0\<rparr>]"
  let ?d = "d\<lparr>auto_changed := True, a_extras := sort_auto qs ?as\<rparr>"
  have t: "take (MAX_AUTO_EXTRA + 1) t = t" "MIN_AUTO_EXTRA \<le> length t" "length t \<le> MAX_AUTO_EXTRA"
    using Cons.prems(1) by (auto simp: worth_keeping_def)
  have add: "maybe_add_auto urandom qs t d = Some ?d"
    using Cons.prems by (intro maybe_add_auto_new) auto
  have m: "mset (sort_auto qs ?as) = mset ?as" by (rule mset_sort_auto [OF assms(1)])
  have keys: "mset (map auto_key (sort_auto qs ?as)) = mset (map auto_key ?as)"
    and datas: "mset (map ae_data (sort_auto qs ?as)) = mset (map ae_data ?as)" using m by simp_all
  have "mset (map auto_key (a_extras ?d) @ map (map byte_tolower) ts)
      = mset (map auto_key (a_extras d) @ map (map byte_tolower) (t # ts))"
    using keys by (simp add: auto_key_def)
  then have "distinct (map auto_key (a_extras ?d) @ map (map byte_tolower) ts)"
    using Cons.prems(2) by (metis mset_eq_imp_distinct_iff)
  moreover have "length (a_extras ?d) = Suc (length (a_extras d))" using length_sort_auto [OF assms(1)] by simp
  ultimately obtain d' where "load_auto_files urandom qs ts ?d = Some d'"
    "mset (map ae_data (a_extras d')) = mset (map ae_data (a_extras ?d)) + mset ts" "extras d' = extras ?d"
    using Cons.IH [of ?d] Cons.prems by auto
  then show ?case using add t datas by (intro exI [of _ d']) simp
qed simp

lemma save_load_auto:
  assumes "qsort_ok qs" "save_auto d = (Some files, d')" "loadable (extras e) (map ae_data (take USE_AUTO_EXTRAS (a_extras d)))"
    "a_extras e = []"
  shows "\<exists>e'. load_auto urandom qs files e = Some e'
    \<and> mset (map ae_data (a_extras e')) = mset (map ae_data (take USE_AUTO_EXTRAS (a_extras d)))"
proof -
  have f: "files = map ae_data (take USE_AUTO_EXTRAS (a_extras d))" using assms(2) by (auto simp: save_auto_def split: if_splits)
  have l: "loadable (extras e) files" using assms(3) by (simp only: f)
  then have "\<forall>t \<in> set files. MIN_AUTO_EXTRA \<le> length t \<and> worth_keeping t \<and> \<not> known_extra t (extras e)"
    "distinct (map auto_key (a_extras e) @ map (map byte_tolower) files)" "length (a_extras e) + length files \<le> MAX_AUTO_EXTRAS"
    using assms(4) by (simp_all add: loadable_def)
  from load_auto_files_new [OF assms(1) this, of urandom]
  obtain e' where "load_auto_files urandom qs files e = Some e'" "mset (map ae_data (a_extras e')) = mset files"
    using assms(4) by auto
  moreover have "take USE_AUTO_EXTRAS files = files" by (simp add: f)
  ultimately show ?thesis by (simp add: load_auto_def f)
qed

end
