(* ===== verification/Det_Theorems.thy ===== *)
theory Det_Theorems
  imports Det_Dict Dict_Laws
begin

text \<open>
  The properties of the deterministic stages and of the dictionaries they use.
\<close>

section \<open>The checks for inputs that have been run\<close>

text \<open>The test for the products of bit flips answers yes exactly for no change at all and for runs
  of one, two or four bits anywhere, or of one, two or four whole bytes.\<close>

theorem could_be_bitflip_exact:
  "could_be_bitflip x \<longleftrightarrow>
     x = 0 \<or> (\<exists>k n. k + n \<le> 32 \<and> (n \<in> {1, 2, 4} \<or> n \<in> {8, 16, 32} \<and> 8 dvd k) \<and> x = push_bit k (mask n))"
  unfolding could_be_bitflip_iff flip_lengths_def bit_run_def ..

text \<open>The test for the products of additions answers yes exactly for equal values and for those of
  which one byte, or one word of two or four bytes in either byte order, was moved by at most
  \<open>ARITH_MAX\<close>.\<close>

theorem could_be_arith_exact:
  assumes "blen \<in> {1, 2, 4}" "blen \<noteq> 4 \<Longrightarrow> old < 2 ^ (8 * blen) \<and> new < 2 ^ (8 * blen)"
  shows "could_be_arith old new blen \<longleftrightarrow>
    old = new
    \<or> (\<exists>i<blen. \<exists>v. near (get_bits (8 * i) old :: u8) v \<and> new = put_bits (8 * i) v old)
    \<or> (\<exists>i<blen div 2. \<exists>v. (near (get_bits (16 * i) old :: u16) v \<or> near (SWAP16 (get_bits (16 * i) old)) (SWAP16 v))
          \<and> new = put_bits (16 * i) v old)
    \<or> blen = 4 \<and> (near old new \<or> near (SWAP32 old) (SWAP32 new))"
  using could_be_arith_iff [OF assms(1)] assms(2) unfolding arith_product_def by blast

lemma could_be_arith_exact_witness:
  "could_be_arith 0x10 0x20 1 \<longleftrightarrow>
    (0x10 :: u32) = 0x20
    \<or> (\<exists>i<1. \<exists>v. near (get_bits (8 * i) 0x10 :: u8) v \<and> 0x20 = put_bits (8 * i) v 0x10)
    \<or> (\<exists>i<1 div 2. \<exists>v. (near (get_bits (16 * i) 0x10 :: u16) v \<or> near (SWAP16 (get_bits (16 * i) 0x10)) (SWAP16 v))
          \<and> 0x20 = put_bits (16 * i) v 0x10)
    \<or> (1 :: nat) = 4 \<and> (near (0x10 :: u32) 0x20 \<or> near (SWAP32 0x10) (SWAP32 0x20))"
  by (rule could_be_arith_exact) simp_all

section \<open>Flips, additions and interesting values\<close>

text \<open>C21 The flipping, arithmetic and interesting-value stages run exactly the listed inputs, in that
  order, and leave the buffer as it was; when they are left early, because the run of an input asks
  for it or the time is up, they have run a prefix of the list. Waiting for a random number is possible
  only when the list of found tokens can fill up.\<close>

theorem value_stages_runs:
  assumes "out_buf st \<noteq> []" "length (out_buf st) \<le> MAX_FILE" "qsort_ok (dw_qsort w)"
  shows "case and_then (bitflip_stages w st) (\<lambda>st. and_then (arith_stages w st) (interest_stages w)) of
      Go s \<Rightarrow> out_buf s = out_buf st \<and> execs s = execs st @ value_inputs (no_arith w) (skip_eff_map w) (out_buf st)
    | To_custom s \<Rightarrow> \<not> quiet w
        \<and> (\<exists>p. prefix p (value_inputs (no_arith w) (skip_eff_map w) (out_buf st)) \<and> execs s = execs st @ p)
    | Abandon s \<Rightarrow> \<not> quiet w
        \<and> (\<exists>p. prefix p (value_inputs (no_arith w) (skip_eff_map w) (out_buf st)) \<and> execs s = execs st @ p)
    | Stuck \<Rightarrow> MAX_AUTO_EXTRAS < length (a_extras st) + 8 * length (out_buf st)"
  using value_stages_run [of st w] assms unfolding value_stages_def seed_ok_def by simp

lemma value_stages_runs_witness:
  "case and_then (bitflip_stages (plain_world [1] False) (fresh_det [9] []))
      (\<lambda>st. and_then (arith_stages (plain_world [1] False) st) (interest_stages (plain_world [1] False))) of
      Go s \<Rightarrow> out_buf s = [9] \<and> execs s = value_inputs False [1] [9]
    | _ \<Rightarrow> False"
  using value_stages_runs [of "fresh_det [9] []" "plain_world [1] False"]
  by (simp add: qsort_ok_insertion_sort split: stage.splits)

text \<open>C20 Nothing is lost by the tests, except the patterns they mistake: in a round that is not stopped,
  with every byte effective, each value the stages of additions and interesting values stand for is run,
  if and only if it is not a change of two or four neighbouring bits across the border of two bytes.\<close>

theorem value_stages_lossless:
  assumes "quiet w" "\<not> no_arith w" "out_buf st \<noteq> []" "length (out_buf st) \<le> MAX_FILE" "qsort_ok (dw_qsort w)"
    and "length (a_extras st) + 8 * length (out_buf st) \<le> MAX_AUTO_EXTRAS"
    and "all_effective (skip_eff_map w) (out_buf st)" "execs st = []"
    and "arith_mutant (out_buf st) m \<or> interest_mutant8 (out_buf st) m \<or> interest_mutant16 (out_buf st) m
      \<or> interest_mutant32 (out_buf st) m"
  shows "\<exists>s. and_then (bitflip_stages w st) (\<lambda>st. and_then (arith_stages w st) (interest_stages w)) = Go s
    \<and> (m \<in> set (execs s) \<longleftrightarrow> \<not> spurious (out_buf st) m)"
  using value_stages_complete [of w st] assms unfolding value_stages_def seed_ok_def by blast

lemma value_stages_lossless_witness:
  "\<exists>s. and_then (bitflip_stages (plain_world [0xff] False) (fresh_det [0x80, 0] []))
      (\<lambda>st. and_then (arith_stages (plain_world [0xff] False) st) (interest_stages (plain_world [0xff] False))) = Go s
    \<and> [0, 1] \<notin> set (execs s)"
proof -
  have e: "all_effective [0xff] [0x80, 0 :: u8]"
    unfolding all_effective_def by code_simp
  show ?thesis
    using value_stages_lossless [of "plain_world [0xff] False" "fresh_det [0x80, 0] []" "[0, 1]"]
      interest_128_256 spurious_128_256 e by (simp add: qsort_ok_insertion_sort)
qed

section \<open>The dictionary stages\<close>



section \<open>Dictionaries\<close>

text \<open>C23 A dictionary file with one quoted token on every line, special bytes escaped, is read back as
  exactly these tokens, in this order, behind those already there.\<close>

theorem load_extras_file_roundtrip:
  assumes "\<forall>t \<in> set toks. t \<noteq> [] \<and> length t \<le> MAX_DICT_FILE"
  shows "load_extras_file level (concat (map quote_line toks)) d = d\<lparr>extras := extras d @ toks\<rparr>"
  using assms by (intro load_quoted_file) blast

lemma load_extras_file_roundtrip_witness:
  "load_extras_file 0 (concat (map quote_line [[0x22, 0], [65]])) (fresh_det [] [[1]])
     = (fresh_det [] [[1]])\<lparr>extras := [[1], [0x22, 0], [65]]\<rparr>"
  using load_extras_file_roundtrip [of "[[0x22, 0], [65]]" 0 "fresh_det [] [[1]]"] by simp

text \<open>In a list sorted by length the removal of duplicates keeps the first of equal tokens and
  nothing else, although it compares only within a block of equal lengths.\<close>

theorem dedup_extras_exact:
  assumes "sorted_wrt (\<lambda>s t. length s \<le> length t) (extras d)"
  shows "dedup_extras d = d\<lparr>extras := firsts (extras d)\<rparr>
    \<and> distinct (extras (dedup_extras d)) \<and> set (extras (dedup_extras d)) = set (extras d)"
  using dedup_extras_firsts [OF assms] by simp

lemma dedup_extras_exact_witness:
  "extras (dedup_extras (fresh_det [] [[1], [2], [1], [3, 4], [3, 4]])) = [[1], [2], [3, 4]]"
  using dedup_extras_exact [of "fresh_det [] [[1], [2], [1], [3, 4], [3, 4]]"] by simp

text \<open>Offering a token keeps the list of found tokens in order: bounded, free of tokens not worth
  keeping, without two tokens that differ only in letter case, the part used by the deterministic stages
  sorted by length.\<close>

theorem maybe_add_auto_invariant:
  assumes "auto_ok d" "qsort_ok qs" "maybe_add_auto urandom qs t d = Some d'"
  shows "auto_ok d'"
  by (rule maybe_add_auto_ok [OF assms(3,2,1)])

lemma maybe_add_auto_invariant_witness:
  "\<exists>d'. maybe_add_auto (\<lambda>_. (0, 0, 0)) insertion_sort [65, 66, 67] (fresh_det [] []) = Some d' \<and> auto_ok d'"
proof -
  have "maybe_add_auto (\<lambda>_. (0, 0, 0)) insertion_sort [65, 66, 67] (fresh_det [] []) \<noteq> None"
    by (rule maybe_add_auto_returns) simp
  moreover have "auto_ok (fresh_det [] [])" by (simp add: auto_ok_def)
  ultimately show ?thesis
    using maybe_add_auto_invariant [of "fresh_det [] []" insertion_sort "\<lambda>_. (0, 0, 0)" "[65, 66, 67]"]
      qsort_ok_insertion_sort by auto
qed



end
