(* ===== verification/Havoc.thy ===== *)
theory Havoc
  imports Det_Stages
begin

text \<open>
  The random mutations of the havoc stage of \<open>fuzz_one_original\<close> (\<open>src/src/afl-fuzz-one.c\<close>), the stacks
  of mutations it runs, and splicing. Memory is checked: the buffers have exactly the length the
  code allocates, and reading or writing outside of them is the result \<open>Fault\<close>. Drawing random
  numbers may not end (the code draws until a number fits), which is the result \<open>None\<close>.
\<close>

section \<open>Draws and memory\<close>

abbreviation (input) HAVOC_BLK_SMALL :: nat where "HAVOC_BLK_SMALL \<equiv> 32"
abbreviation (input) HAVOC_BLK_MEDIUM :: nat where "HAVOC_BLK_MEDIUM \<equiv> 128"
abbreviation (input) HAVOC_BLK_LARGE :: nat where "HAVOC_BLK_LARGE \<equiv> 1500"
abbreviation (input) HAVOC_BLK_XL :: nat where "HAVOC_BLK_XL \<equiv> 32768"

text \<open>What the mutations consult: the dictionaries, the test cases of the queue with the current one,
  how many of them are long enough to splice, and the age of the run. \<open>hw_stack\<close> are the bytes left
  on the machine stack behind a printed number.\<close>

record havoc_world =
  hw_urandom :: urandom
  hw_extras :: "bytes list"
  hw_autos :: "bytes list"
  hw_queue :: "bytes list"
  hw_current :: nat
  hw_ready :: nat
  hw_cycle :: nat
  hw_over10m :: bool
  hw_stack :: "nat \<Rightarrow> u8"

type_synonym s64 = "64 word"

type_synonym 'a hv = "rand_st \<Rightarrow> ('a \<times> rand_st) option"

text \<open>How a mutation ends: with a new buffer, at \<open>goto retry_havoc_step\<close>, or outside the memory.\<close>

datatype 'a step = Fine 'a | Retry | Fault

definition give :: "'a \<Rightarrow> 'a hv" where
  "give x g = Some (x, g)"

definition into :: "'a hv \<Rightarrow> ('a \<Rightarrow> 'b hv) \<Rightarrow> 'b hv" where
  "into m k g = (case m g of None \<Rightarrow> None | Some (x, g) \<Rightarrow> k x g)"

definition below :: "havoc_world \<Rightarrow> nat \<Rightarrow> nat hv" where
  "below w limit g = map_option (\<lambda>(v, g). (unat v, g)) (rand_below (hw_urandom w) (of_nat limit) g)"

partial_function (option) below_until :: "havoc_world \<Rightarrow> nat \<Rightarrow> (nat \<Rightarrow> bool) \<Rightarrow> rand_st \<Rightarrow> (nat \<times> rand_st) option" where
  "below_until w limit ok g =
     (case below w limit g of None \<Rightarrow> None
      | Some (v, g) \<Rightarrow> if ok v then Some (v, g) else below_until w limit ok g)"

partial_function (option) below_apart :: "havoc_world \<Rightarrow> nat \<Rightarrow> rand_st \<Rightarrow> ((nat \<times> nat) \<times> rand_st) option" where
  "below_apart w limit g =
     (case below w limit g of None \<Rightarrow> None
      | Some (u, g) \<Rightarrow> (case below w limit g of None \<Rightarrow> None
        | Some (v, g) \<Rightarrow> if u = v then below_apart w limit g else Some ((u, v), g)))"

definition load :: "nat \<Rightarrow> nat \<Rightarrow> bytes \<Rightarrow> bytes option" where
  "load n off src = (if off + n \<le> length src then Some (take n (drop off src)) else None)"

definition store :: "nat \<Rightarrow> bytes \<Rightarrow> bytes \<Rightarrow> bytes option" where
  "store off bs buf = (if off + length bs \<le> length buf then Some (overwrite off bs buf) else None)"

definition mem :: "'a option \<Rightarrow> ('a \<Rightarrow> 'b step hv) \<Rightarrow> 'b step hv" where
  "mem m k = (case m of None \<Rightarrow> give Fault | Some x \<Rightarrow> k x)"

definition fine :: "'a \<Rightarrow> 'a step hv" where
  "fine x = give (Fine x)"

definition fill :: "nat \<Rightarrow> bytes \<Rightarrow> bytes \<Rightarrow> bytes step hv" where
  "fill off bs buf = mem (store off bs buf) fine"

definition edit :: "nat \<Rightarrow> ('l::len word \<Rightarrow> 'l word) \<Rightarrow> bytes \<Rightarrow> bytes step hv" where
  "edit off f buf =
     mem (load (LENGTH('l) div 8) off buf) (\<lambda>bs. fill off (to_bytes (LENGTH('l) div 8) (f (of_bytes bs))) buf)"

text \<open>A block inserted at a position, with the copies of head and tail; and a block cut out.\<close>

definition insert_block :: "nat \<Rightarrow> bytes \<Rightarrow> bytes \<Rightarrow> bytes step hv" where
  "insert_block off bs buf =
     mem (load off 0 buf) (\<lambda>hd. mem (load (length buf - off) off buf) (\<lambda>tl. fine (hd @ bs @ tl)))"

definition cut_block :: "nat \<Rightarrow> nat \<Rightarrow> bytes \<Rightarrow> bytes step hv" where
  "cut_block off n buf =
     (if off + n > length buf then give Fault
      else mem (load (length buf - off - n) (off + n) buf) (\<lambda>tl.
           mem (store off tl buf) (\<lambda>buf. fine (take (length buf - n) buf))))"

section \<open>Choices\<close>

definition choose_block_len :: "havoc_world \<Rightarrow> nat \<Rightarrow> nat hv" where
  "choose_block_len w limit =
     into (below w (if hw_over10m w then min (hw_cycle w) 3 else 1)) (\<lambda>c.
     into (if c = 0 then give (1, HAVOC_BLK_SMALL)
           else if c = 1 then give (HAVOC_BLK_SMALL, HAVOC_BLK_MEDIUM)
           else into (below w 10) (\<lambda>k.
                  give (if k \<noteq> 0 then (HAVOC_BLK_MEDIUM, HAVOC_BLK_LARGE) else (HAVOC_BLK_LARGE, HAVOC_BLK_XL))))
       (\<lambda>(min_value, max_value).
          let min_value = (if min_value \<ge> limit then 1 else min_value)
          in into (below w (min max_value limit - min_value + 1)) (\<lambda>k. give (min_value + k))))"

definition fixed_byte :: "havoc_world \<Rightarrow> nat \<Rightarrow> bytes \<Rightarrow> (u8 \<Rightarrow> bytes step hv) \<Rightarrow> bytes step hv" where
  "fixed_byte w pos buf k =
     into (below w 2) (\<lambda>strat.
       if strat \<noteq> 0 then into (below w 256) (\<lambda>v. k (of_nat v))
       else mem (load 1 (if pos \<noteq> 0 then pos - 1 else 0) buf) (\<lambda>bs. k (hd bs)))"

definition splice_partner :: "havoc_world \<Rightarrow> nat hv" where
  "splice_partner w =
     below_until w (length (hw_queue w)) (\<lambda>t. t \<noteq> hw_current w \<and> \<not> length (hw_queue w ! t) < 4)"

section \<open>Numbers in the text\<close>

definition number_text :: "int \<Rightarrow> bytes" where
  "number_text v = take 19 (map (\<lambda>c. of_nat (of_char c)) (dec_int v))"

text \<open>Where the first number starts at or behind a position, looking from the front when there is none.\<close>

definition find_number :: "nat \<Rightarrow> bytes \<Rightarrow> nat option" where
  "find_number off buf =
     (let cnt = length (takeWhile (\<lambda>b. \<not> byte_isdigit b) (drop off buf))
      in if off + cnt = length buf then
           let cnt = length (takeWhile (\<lambda>b. \<not> byte_isdigit b) (take off buf))
           in if cnt = off then None else Some cnt
         else Some (off + cnt))"

definition read_number :: "bytes \<Rightarrow> s64" where
  "read_number digits = foldl (\<lambda>v b. v * 10 + ucast b - 48) (ucast (hd digits) - 48) (tl digits)"

text \<open>Signed arithmetic that leaves the range of 64 bits wraps around here; in C it is undefined.\<close>

definition change_number :: "havoc_world \<Rightarrow> s64 \<Rightarrow> s64 hv" where
  "change_number w v =
     into (below w 8) (\<lambda>strat.
       if strat = 0 then give (v + 1)
       else if strat = 1 then give (v - 1)
       else if strat = 2 then give (v * 2)
       else if strat = 3 then give (word_of_int (sgn (sint v) * (\<bar>sint v\<bar> div 2)))
       else if strat = 4 then
         (if v \<noteq> 0 \<and> v < 0x19999999 then (\<lambda>g. case rand_next g of (x, g) \<Rightarrow> Some (x mod (v * 10), g))
          else into (below w 256) (\<lambda>k. give (of_nat k)))
       else if strat = 5 then into (below w 256) (\<lambda>k. give (v + of_nat k))
       else if strat = 6 then into (below w 256) (\<lambda>k. give (v - of_nat k))
       else give (NOT v))"

definition mut_asciinum :: "havoc_world \<Rightarrow> bytes \<Rightarrow> bytes step hv" where
  "mut_asciinum w buf =
     (if length buf < 4 then fine buf
      else into (below w (length buf)) (\<lambda>off.
        case find_number off buf of
          None \<Rightarrow> if length buf < 8 then fine buf else give Retry
        | Some off \<Rightarrow>
            let digits = takeWhile byte_isdigit (drop off buf);
                v = read_number digits;
                v = (if off \<noteq> 0 \<and> buf ! (off - 1) = 0x2d then - v else v)
            in into (change_number w v) (\<lambda>v.
                 let txt = number_text (sint v)
                 in if length txt = length digits then fill off txt buf
                    else mem (load off 0 buf) (\<lambda>hd.
                         mem (load (length buf - (off + length digits)) (off + length digits) buf) (\<lambda>tl.
                           fine (hd @ txt @ tl))))))"

text \<open>\<open>char buf[20]\<close> after \<open>snprintf\<close>.\<close>

definition printed :: "havoc_world \<Rightarrow> u64 \<Rightarrow> bytes" where
  "printed w x =
     (let txt = number_text (uint x)
      in map (\<lambda>i. if i < length txt then txt ! i else if i = length txt then 0 else hw_stack w i) [0..<20])"

definition mut_insert_asciinum :: "havoc_world \<Rightarrow> bytes \<Rightarrow> bytes step hv" where
  "mut_insert_asciinum w buf =
     into (below w 8) (\<lambda>k. let len = 1 + k in
     into (below w (length buf)) (\<lambda>pos.
       if length buf < pos + len then (if length buf < 8 then fine buf else give Retry)
       else (\<lambda>g. case rand_next g of (x, g) \<Rightarrow>
              mem (load len 0 (printed w x)) (\<lambda>bs. fill pos bs buf) g)))"
section \<open>The mutations\<close>

text \<open>The names of the subtractions end in an underscore in the code.\<close>

datatype mutation = MUT_FLIPBIT | MUT_INTERESTING8 | MUT_INTERESTING16 | MUT_INTERESTING16BE
  | MUT_INTERESTING32 | MUT_INTERESTING32BE | MUT_ARITH8_SUB | MUT_ARITH8 | MUT_ARITH16_SUB | MUT_ARITH16BE_SUB
  | MUT_ARITH16 | MUT_ARITH16BE | MUT_ARITH32_SUB | MUT_ARITH32BE_SUB | MUT_ARITH32 | MUT_ARITH32BE | MUT_RAND8
  | MUT_CLONE_COPY | MUT_CLONE_FIXED | MUT_OVERWRITE_COPY | MUT_OVERWRITE_FIXED | MUT_BYTEADD | MUT_BYTESUB
  | MUT_FLIP8 | MUT_SWITCH | MUT_DEL | MUT_SHUFFLE | MUT_DELONE | MUT_INSERTONE | MUT_ASCIINUM
  | MUT_INSERTASCIINUM | MUT_EXTRA_OVERWRITE | MUT_EXTRA_INSERT | MUT_AUTO_EXTRA_OVERWRITE
  | MUT_AUTO_EXTRA_INSERT | MUT_SPLICE_OVERWRITE | MUT_SPLICE_INSERT

text \<open>A byte somewhere; an interesting word; a word moved by a random amount; a change at a place for a word.\<close>

definition mut_byte :: "havoc_world \<Rightarrow> (u8 \<Rightarrow> u8) \<Rightarrow> bytes \<Rightarrow> bytes step hv" where
  "mut_byte w f buf = into (below w (length buf)) (\<lambda>off. edit off f buf)"

definition mut_interesting :: "havoc_world \<Rightarrow> 'l::len word list \<Rightarrow> ('l word \<Rightarrow> 'l word) \<Rightarrow> bytes \<Rightarrow> bytes step hv" where
  "mut_interesting w values order buf =
     (let n = LENGTH('l) div 8
      in if length buf < n then fine buf
         else into (below w (length values)) (\<lambda>item.
              into (below w (length buf - (n - 1))) (\<lambda>off.
                fill off (to_bytes n (order (values ! item))) buf)))"

definition mut_arith :: "havoc_world \<Rightarrow> ('l::len word \<Rightarrow> 'l word) \<Rightarrow> ('l word \<Rightarrow> 'l word \<Rightarrow> 'l word) \<Rightarrow> bytes \<Rightarrow> bytes step hv" where
  "mut_arith w order f buf =
     (let n = LENGTH('l) div 8
      in if length buf < n then fine buf
         else into (below w (length buf - (n - 1))) (\<lambda>pos.
              into (below w ARITH_MAX) (\<lambda>item.
                edit pos (\<lambda>v. order (f (order v) (of_nat (1 + item)))) buf)))"

definition mut_clone_copy :: "havoc_world \<Rightarrow> bytes \<Rightarrow> bytes step hv" where
  "mut_clone_copy w buf =
     (if length buf + HAVOC_BLK_XL < MAX_FILE then
        into (choose_block_len w (length buf)) (\<lambda>clone_len.
        into (below w (length buf - clone_len + 1)) (\<lambda>clone_from.
        into (below w (length buf)) (\<lambda>clone_to.
          mem (load clone_len clone_from buf) (\<lambda>bs. insert_block clone_to bs buf))))
      else if length buf < 8 then fine buf else give Retry)"

definition mut_clone_fixed :: "havoc_world \<Rightarrow> bytes \<Rightarrow> bytes step hv" where
  "mut_clone_fixed w buf =
     (if length buf + HAVOC_BLK_XL < MAX_FILE then
        into (choose_block_len w HAVOC_BLK_XL) (\<lambda>clone_len.
        into (below w (length buf)) (\<lambda>clone_to.
        fixed_byte w clone_to buf (\<lambda>item. insert_block clone_to (replicate clone_len item) buf)))
      else if length buf < 8 then fine buf else give Retry)"

definition mut_overwrite_copy :: "havoc_world \<Rightarrow> bytes \<Rightarrow> bytes step hv" where
  "mut_overwrite_copy w buf =
     (if length buf < 2 then fine buf
      else into (choose_block_len w (length buf - 1)) (\<lambda>copy_len.
           into (below_apart w (length buf - copy_len + 1)) (\<lambda>(copy_from, copy_to).
             mem (load copy_len copy_from buf) (\<lambda>bs. fill copy_to bs buf))))"

definition mut_overwrite_fixed :: "havoc_world \<Rightarrow> bytes \<Rightarrow> bytes step hv" where
  "mut_overwrite_fixed w buf =
     (if length buf < 2 then fine buf
      else into (choose_block_len w (length buf - 1)) (\<lambda>copy_len.
           into (below w (length buf - copy_len + 1)) (\<lambda>copy_to.
             fixed_byte w copy_to buf (\<lambda>item. fill copy_to (replicate copy_len item) buf))))"

text \<open>The three copies of a switch; \<open>memcpy\<close> must not be given overlapping blocks.\<close>

definition switch_blocks :: "nat \<Rightarrow> nat \<Rightarrow> nat \<Rightarrow> bytes \<Rightarrow> bytes step hv" where
  "switch_blocks n from to buf =
     (if from < to + n \<and> to < from + n then give Fault
      else mem (load n from buf) (\<lambda>backup.
           mem (load n to buf) (\<lambda>bs.
           mem (store from bs buf) (\<lambda>buf. fill to backup buf))))"

definition mut_switch :: "havoc_world \<Rightarrow> bytes \<Rightarrow> bytes step hv" where
  "mut_switch w buf =
     (if length buf < 4 then fine buf
      else into (below w (length buf)) (\<lambda>switch_from.
           into (below_until w (length buf) (\<lambda>t. t \<noteq> switch_from)) (\<lambda>switch_to.
             let switch_len = (if switch_from < switch_to then switch_to - switch_from else switch_from - switch_to);
                 to_end = (if switch_from < switch_to then length buf - switch_to else length buf - switch_from)
             in into (choose_block_len w (min switch_len to_end)) (\<lambda>n. switch_blocks n switch_from switch_to buf))))"

definition mut_del :: "havoc_world \<Rightarrow> bytes \<Rightarrow> bytes step hv" where
  "mut_del w buf =
     (if length buf < 2 then fine buf
      else into (choose_block_len w (length buf - 1)) (\<lambda>del_len.
           into (below w (length buf - del_len + 1)) (\<lambda>del_from. cut_block del_from del_len buf)))"

definition swap_bytes :: "nat \<Rightarrow> nat \<Rightarrow> bytes \<Rightarrow> bytes option" where
  "swap_bytes i j buf = (if i < length buf \<and> j < length buf then Some (buf[i := buf ! j, j := buf ! i]) else None)"

primrec shuffle_down :: "havoc_world \<Rightarrow> nat \<Rightarrow> nat \<Rightarrow> bytes \<Rightarrow> bytes step hv" where
  "shuffle_down w off 0 buf = fine buf"
| "shuffle_down w off (Suc i) buf =
     into (below_until w (Suc i + 1) (\<lambda>j. j \<noteq> Suc i)) (\<lambda>j.
       mem (swap_bytes (off + Suc i) (off + j) buf) (shuffle_down w off i))"

definition mut_shuffle :: "havoc_world \<Rightarrow> bytes \<Rightarrow> bytes step hv" where
  "mut_shuffle w buf =
     (if length buf < 4 then fine buf
      else into (choose_block_len w (length buf - 1)) (\<lambda>len.
           into (below w (length buf - len + 1)) (\<lambda>off. shuffle_down w off (len - 1) buf)))"

definition mut_delone :: "havoc_world \<Rightarrow> bytes \<Rightarrow> bytes step hv" where
  "mut_delone w buf =
     (if length buf < 2 then fine buf else into (below w (length buf)) (\<lambda>del_from. cut_block del_from 1 buf))"

definition mut_insertone :: "havoc_world \<Rightarrow> bytes \<Rightarrow> bytes step hv" where
  "mut_insertone w buf =
     (if length buf < 2 then fine buf
      else into (below w (length buf)) (\<lambda>clone_to.
             fixed_byte w clone_to buf (\<lambda>item. insert_block clone_to [item] buf)))"

definition mut_token_overwrite :: "havoc_world \<Rightarrow> bytes list \<Rightarrow> bytes \<Rightarrow> bytes step hv" where
  "mut_token_overwrite w toks buf =
     (if toks = [] then give Retry
      else into (below w (length toks)) (\<lambda>use_extra.
        let tok = toks ! use_extra
        in if length tok > length buf then give Retry
           else into (below w (length buf - length tok + 1)) (\<lambda>insert_at. fill insert_at tok buf)))"

definition mut_token_insert :: "havoc_world \<Rightarrow> bytes list \<Rightarrow> bytes \<Rightarrow> bytes step hv" where
  "mut_token_insert w toks buf =
     (if toks = [] then give Retry
      else into (below w (length toks)) (\<lambda>use_extra.
        let tok = toks ! use_extra
        in if length buf + length tok \<ge> MAX_FILE then give Retry
           else into (below w (length buf + 1)) (\<lambda>insert_at. insert_block insert_at tok buf)))"

definition mut_splice_overwrite :: "havoc_world \<Rightarrow> bytes \<Rightarrow> bytes step hv" where
  "mut_splice_overwrite w buf =
     (if hw_ready w \<le> 1 then give Retry
      else into (splice_partner w) (\<lambda>tid. let new_buf = hw_queue w ! tid in
           into (choose_block_len w (length new_buf - 1)) (\<lambda>copy_len.
             let copy_len = (if copy_len > length buf then length buf else copy_len)
             in into (below w (length new_buf - copy_len + 1)) (\<lambda>copy_from.
                into (below w (length buf - copy_len + 1)) (\<lambda>copy_to.
                  mem (load copy_len copy_from new_buf) (\<lambda>bs. fill copy_to bs buf))))))"

definition mut_splice_insert :: "havoc_world \<Rightarrow> bytes \<Rightarrow> bytes step hv" where
  "mut_splice_insert w buf =
     (if hw_ready w \<le> 1 \<or> length buf + HAVOC_BLK_XL \<ge> MAX_FILE then give Retry
      else into (splice_partner w) (\<lambda>tid. let new_buf = hw_queue w ! tid in
           into (choose_block_len w (length new_buf)) (\<lambda>clone_len.
           into (below w (length new_buf - clone_len + 1)) (\<lambda>clone_from.
           into (below w (length buf + 1)) (\<lambda>clone_to.
             mem (load clone_len clone_from new_buf) (\<lambda>bs. insert_block clone_to bs buf))))))"

fun mut_step :: "havoc_world \<Rightarrow> mutation \<Rightarrow> bytes \<Rightarrow> bytes step hv" where
  "mut_step w MUT_FLIPBIT buf = into (below w 8) (\<lambda>bit. mut_byte w (\<lambda>b. b XOR push_bit bit 1) buf)"
| "mut_step w MUT_INTERESTING8 buf =
     into (below w (length interesting_8)) (\<lambda>item. mut_byte w (\<lambda>_. interesting_8 ! item) buf)"
| "mut_step w MUT_INTERESTING16 buf = mut_interesting w interesting_16 id buf"
| "mut_step w MUT_INTERESTING16BE buf = mut_interesting w interesting_16 SWAP16 buf"
| "mut_step w MUT_INTERESTING32 buf = mut_interesting w interesting_32 id buf"
| "mut_step w MUT_INTERESTING32BE buf = mut_interesting w interesting_32 SWAP32 buf"
| "mut_step w MUT_ARITH8_SUB buf = into (below w ARITH_MAX) (\<lambda>item. mut_byte w (\<lambda>b. b - of_nat (1 + item)) buf)"
| "mut_step w MUT_ARITH8 buf = into (below w ARITH_MAX) (\<lambda>item. mut_byte w (\<lambda>b. b + of_nat (1 + item)) buf)"
| "mut_step w MUT_ARITH16_SUB buf = mut_arith w (id :: u16 \<Rightarrow> u16) (-) buf"
| "mut_step w MUT_ARITH16BE_SUB buf = mut_arith w SWAP16 (-) buf"
| "mut_step w MUT_ARITH16 buf = mut_arith w (id :: u16 \<Rightarrow> u16) (+) buf"
| "mut_step w MUT_ARITH16BE buf = mut_arith w SWAP16 (+) buf"
| "mut_step w MUT_ARITH32_SUB buf = mut_arith w (id :: u32 \<Rightarrow> u32) (-) buf"
| "mut_step w MUT_ARITH32BE_SUB buf = mut_arith w SWAP32 (-) buf"
| "mut_step w MUT_ARITH32 buf = mut_arith w (id :: u32 \<Rightarrow> u32) (+) buf"
| "mut_step w MUT_ARITH32BE buf = mut_arith w SWAP32 (+) buf"
| "mut_step w MUT_RAND8 buf =
     into (below w (length buf)) (\<lambda>pos. into (below w 255) (\<lambda>item. edit pos (\<lambda>b :: u8. b XOR of_nat (1 + item)) buf))"
| "mut_step w MUT_CLONE_COPY buf = mut_clone_copy w buf"
| "mut_step w MUT_CLONE_FIXED buf = mut_clone_fixed w buf"
| "mut_step w MUT_OVERWRITE_COPY buf = mut_overwrite_copy w buf"
| "mut_step w MUT_OVERWRITE_FIXED buf = mut_overwrite_fixed w buf"
| "mut_step w MUT_BYTEADD buf = mut_byte w (\<lambda>b. b + 1) buf"
| "mut_step w MUT_BYTESUB buf = mut_byte w (\<lambda>b. b - 1) buf"
| "mut_step w MUT_FLIP8 buf = mut_byte w (\<lambda>b. b XOR 0xff) buf"
| "mut_step w MUT_SWITCH buf = mut_switch w buf"
| "mut_step w MUT_DEL buf = mut_del w buf"
| "mut_step w MUT_SHUFFLE buf = mut_shuffle w buf"
| "mut_step w MUT_DELONE buf = mut_delone w buf"
| "mut_step w MUT_INSERTONE buf = mut_insertone w buf"
| "mut_step w MUT_ASCIINUM buf = mut_asciinum w buf"
| "mut_step w MUT_INSERTASCIINUM buf = mut_insert_asciinum w buf"
| "mut_step w MUT_EXTRA_OVERWRITE buf = mut_token_overwrite w (hw_extras w) buf"
| "mut_step w MUT_EXTRA_INSERT buf = mut_token_insert w (hw_extras w) buf"
| "mut_step w MUT_AUTO_EXTRA_OVERWRITE buf = mut_token_overwrite w (hw_autos w) buf"
| "mut_step w MUT_AUTO_EXTRA_INSERT buf = mut_token_insert w (hw_autos w) buf"
| "mut_step w MUT_SPLICE_OVERWRITE buf = mut_splice_overwrite w buf"
| "mut_step w MUT_SPLICE_INSERT buf = mut_splice_insert w buf"
section \<open>How often each mutation is drawn\<close>

definition expand :: "(nat \<times> 'a) list \<Rightarrow> 'a list" where
  "expand runs = concat (map (\<lambda>(n, x). replicate n x) runs)"

definition text_array :: "mutation list" where
  "text_array = expand
    [(8, MUT_FLIPBIT), (4, MUT_INTERESTING8), (2, MUT_INTERESTING16), (2, MUT_INTERESTING16BE),
     (2, MUT_INTERESTING32), (2, MUT_INTERESTING32BE), (6, MUT_ARITH8_SUB), (6, MUT_ARITH8),
     (5, MUT_ARITH16_SUB), (5, MUT_ARITH16BE_SUB), (5, MUT_ARITH16), (5, MUT_ARITH16BE),
     (5, MUT_ARITH32_SUB), (5, MUT_ARITH32BE_SUB), (5, MUT_ARITH32), (5, MUT_ARITH32BE),
     (8, MUT_RAND8), (16, MUT_CLONE_COPY), (8, MUT_CLONE_FIXED), (10, MUT_OVERWRITE_COPY),
     (5, MUT_OVERWRITE_FIXED), (5, MUT_BYTEADD), (5, MUT_BYTESUB), (4, MUT_FLIP8),
     (7, MUT_SWITCH), (10, MUT_DEL), (7, MUT_EXTRA_OVERWRITE), (9, MUT_EXTRA_INSERT),
     (4, MUT_AUTO_EXTRA_OVERWRITE), (5, MUT_AUTO_EXTRA_INSERT), (12, MUT_SPLICE_OVERWRITE), (13, MUT_SPLICE_INSERT)]"

definition binary_array :: "mutation list" where
  "binary_array = expand
    [(11, MUT_FLIPBIT), (9, MUT_INTERESTING8), (6, MUT_INTERESTING16), (6, MUT_INTERESTING16BE),
     (6, MUT_INTERESTING32), (6, MUT_INTERESTING32BE), (9, MUT_ARITH8_SUB), (10, MUT_ARITH8),
     (6, MUT_ARITH16_SUB), (6, MUT_ARITH16BE_SUB), (6, MUT_ARITH16), (6, MUT_ARITH16BE),
     (6, MUT_ARITH32_SUB), (6, MUT_ARITH32BE_SUB), (6, MUT_ARITH32), (6, MUT_ARITH32BE),
     (9, MUT_RAND8), (14, MUT_CLONE_COPY), (7, MUT_CLONE_FIXED), (10, MUT_OVERWRITE_COPY),
     (5, MUT_OVERWRITE_FIXED), (6, MUT_BYTEADD), (6, MUT_BYTESUB), (4, MUT_FLIP8),
     (6, MUT_SWITCH), (9, MUT_DEL), (10, MUT_EXTRA_OVERWRITE), (12, MUT_EXTRA_INSERT),
     (9, MUT_AUTO_EXTRA_OVERWRITE), (11, MUT_AUTO_EXTRA_INSERT), (13, MUT_SPLICE_OVERWRITE), (14, MUT_SPLICE_INSERT)]"

definition mutation_strategy_exploration_binary :: "mutation list" where
  "mutation_strategy_exploration_binary = expand
    [(7, MUT_FLIPBIT), (6, MUT_INTERESTING8), (6, MUT_INTERESTING16), (6, MUT_INTERESTING16BE),
     (6, MUT_INTERESTING32), (6, MUT_INTERESTING32BE), (7, MUT_ARITH8_SUB), (7, MUT_ARITH8),
     (6, MUT_ARITH16_SUB), (6, MUT_ARITH16BE_SUB), (6, MUT_ARITH16), (6, MUT_ARITH16BE),
     (6, MUT_ARITH32_SUB), (6, MUT_ARITH32BE_SUB), (7, MUT_ARITH32), (6, MUT_ARITH32BE),
     (6, MUT_RAND8), (14, MUT_CLONE_COPY), (9, MUT_CLONE_FIXED), (9, MUT_OVERWRITE_COPY),
     (7, MUT_OVERWRITE_FIXED), (7, MUT_BYTEADD), (7, MUT_BYTESUB), (10, MUT_FLIP8),
     (7, MUT_SWITCH), (6, MUT_DEL), (6, MUT_SHUFFLE), (6, MUT_DELONE),
     (6, MUT_INSERTONE), (6, MUT_ASCIINUM), (6, MUT_INSERTASCIINUM), (7, MUT_EXTRA_OVERWRITE),
     (7, MUT_EXTRA_INSERT), (6, MUT_AUTO_EXTRA_OVERWRITE), (6, MUT_AUTO_EXTRA_INSERT), (8, MUT_SPLICE_OVERWRITE),
     (10, MUT_SPLICE_INSERT)]"

definition mutation_strategy_exploitation_binary :: "mutation list" where
  "mutation_strategy_exploitation_binary = expand
    [(7, MUT_FLIPBIT), (7, MUT_INTERESTING8), (7, MUT_INTERESTING16), (7, MUT_INTERESTING16BE),
     (8, MUT_INTERESTING32), (8, MUT_INTERESTING32BE), (6, MUT_ARITH8_SUB), (7, MUT_ARITH8),
     (6, MUT_ARITH16_SUB), (7, MUT_ARITH16BE_SUB), (7, MUT_ARITH16), (7, MUT_ARITH16BE),
     (6, MUT_ARITH32_SUB), (7, MUT_ARITH32BE_SUB), (7, MUT_ARITH32), (7, MUT_ARITH32BE),
     (7, MUT_RAND8), (9, MUT_CLONE_COPY), (8, MUT_CLONE_FIXED), (6, MUT_OVERWRITE_COPY),
     (6, MUT_OVERWRITE_FIXED), (7, MUT_BYTEADD), (6, MUT_BYTESUB), (10, MUT_FLIP8),
     (7, MUT_SWITCH), (6, MUT_DEL), (6, MUT_SHUFFLE), (5, MUT_DELONE),
     (6, MUT_INSERTONE), (5, MUT_ASCIINUM), (7, MUT_INSERTASCIINUM), (7, MUT_EXTRA_OVERWRITE),
     (7, MUT_EXTRA_INSERT), (7, MUT_AUTO_EXTRA_OVERWRITE), (7, MUT_AUTO_EXTRA_INSERT), (7, MUT_SPLICE_OVERWRITE),
     (9, MUT_SPLICE_INSERT)]"

text \<open>The table for the kind of input (1 text, 2 binary) and the mode (exploring or not).\<close>

definition mutation_array :: "u8 \<Rightarrow> bool \<Rightarrow> mutation list" where
  "mutation_array input_mode exploring =
     (if input_mode = 2
      then (if exploring then mutation_strategy_exploration_binary else mutation_strategy_exploitation_binary)
      else (if exploring then binary_array else text_array))"

section \<open>The stage\<close>

text \<open>The choice of a mutation, repeated as long as the mutation asks for it. The inner \<open>None\<close> is a
  \<open>Fault\<close>.\<close>

partial_function (option) havoc_pick :: "havoc_world \<Rightarrow> mutation list \<Rightarrow> bytes \<Rightarrow> rand_st \<Rightarrow> (bytes option \<times> rand_st) option" where
  "havoc_pick w muts buf g =
     (case below w (length muts) g of None \<Rightarrow> None
      | Some (r, g) \<Rightarrow> (case mut_step w (muts ! r) buf g of None \<Rightarrow> None
        | Some (Fine buf, g) \<Rightarrow> Some (Some buf, g)
        | Some (Fault, g) \<Rightarrow> Some (None, g)
        | Some (Retry, g) \<Rightarrow> havoc_pick w muts buf g))"

text \<open>The surroundings of the stage: what a mutation finds when the given inputs have been run, whether
  the last of them asks to stop, the size of the queue after it, the stacked custom mutators, and the
  settings.\<close>

record havoc_env =
  he_world :: "bytes list \<Rightarrow> havoc_world"
  he_abort :: "bytes list \<Rightarrow> bool"
  he_queued :: "bytes list \<Rightarrow> u64"
  he_custom :: "bytes \<Rightarrow> bytes hv"
  he_muts :: "mutation list"
  he_stack_pow2 :: nat
  he_max_mult :: u32
  he_havoc_div :: u32

record havoc_st =
  hs_rng :: rand_st
  hs_runs :: "bytes list"
  hs_cur :: u32
  hs_max :: u32
  hs_perf :: u32
  hs_queued :: u64

primrec havoc_stack :: "havoc_env \<Rightarrow> havoc_world \<Rightarrow> nat \<Rightarrow> bytes \<Rightarrow> bytes option hv" where
  "havoc_stack e w 0 buf = give (Some buf)"
| "havoc_stack e w (Suc n) buf =
     into (he_custom e buf) (\<lambda>buf.
     into (havoc_pick w (he_muts e) buf) (\<lambda>r.
       case r of None \<Rightarrow> give None | Some buf \<Rightarrow> havoc_stack e w n buf))"

definition havoc_extend :: "havoc_env \<Rightarrow> havoc_st \<Rightarrow> havoc_st" where
  "havoc_extend e st =
     (let queued = he_queued e (hs_runs st)
      in if queued = hs_queued st then st
         else let st = st\<lparr>hs_queued := queued\<rparr>
              in if hs_perf st \<le> he_max_mult e * 100
                 then st\<lparr>hs_max := hs_max st * 2, hs_perf := hs_perf st * 2\<rparr> else st)"

datatype havoc_end = Rounds_done havoc_st | Aborted havoc_st | Faulted

partial_function (option) havoc_rounds :: "havoc_env \<Rightarrow> bytes \<Rightarrow> nat \<Rightarrow> havoc_st \<Rightarrow> havoc_end option" where
  "havoc_rounds e in_buf stack_max st =
     (if \<not> hs_cur st < hs_max st then Some (Rounds_done st)
      else let w = he_world e (hs_runs st)
           in (case into (below w stack_max) (\<lambda>k. havoc_stack e w (1 + k) in_buf) (hs_rng st) of
                 None \<Rightarrow> None
               | Some (None, g) \<Rightarrow> Some Faulted
               | Some (Some buf, g) \<Rightarrow>
                   let st = st\<lparr>hs_rng := g, hs_runs := hs_runs st @ [buf]\<rparr>
                   in if he_abort e (hs_runs st) then Some (Aborted st)
                      else havoc_rounds e in_buf stack_max ((havoc_extend e st)\<lparr>hs_cur := hs_cur st + 1\<rparr>)))"

text \<open>The number of rounds to start with: \<open>rate\<close> is \<open>HAVOC_CYCLES_INIT\<close>, \<open>HAVOC_CYCLES\<close> or
  \<open>SPLICE_HAVOC\<close>.\<close>

abbreviation (input) HAVOC_CYCLES_INIT :: u32 where "HAVOC_CYCLES_INIT \<equiv> 1024"
abbreviation (input) HAVOC_CYCLES :: u32 where "HAVOC_CYCLES \<equiv> 256"
abbreviation (input) HAVOC_MIN :: u32 where "HAVOC_MIN \<equiv> 12"
abbreviation (input) SPLICE_HAVOC :: u32 where "SPLICE_HAVOC \<equiv> 32"
abbreviation (input) SPLICE_CYCLES :: nat where "SPLICE_CYCLES \<equiv> 15"

definition havoc_stage_max :: "havoc_env \<Rightarrow> u32 \<Rightarrow> u32 \<Rightarrow> u32" where
  "havoc_stage_max e rate perf = max (drop_bit 8 (rate * perf div he_havoc_div e)) HAVOC_MIN"

definition havoc_stage :: "havoc_env \<Rightarrow> u32 \<Rightarrow> bytes \<Rightarrow> havoc_st \<Rightarrow> havoc_end option" where
  "havoc_stage e rate in_buf st =
     (let st = st\<lparr>hs_cur := 0, hs_max := havoc_stage_max e rate (hs_perf st), hs_queued := he_queued e (hs_runs st)\<rparr>
      in case below (he_world e (hs_runs st)) (he_stack_pow2 e) (hs_rng st) of
           None \<Rightarrow> None
         | Some (k, g) \<Rightarrow> havoc_rounds e in_buf (2 ^ (1 + k)) (st\<lparr>hs_rng := g\<rparr>))"

section \<open>Splicing\<close>

text \<open>The first and the last position at which two buffers differ, among the first \<open>n\<close>.\<close>

definition locate_diffs :: "bytes \<Rightarrow> bytes \<Rightarrow> nat \<Rightarrow> int \<times> int" where
  "locate_diffs a b n =
     foldl (\<lambda>(f, l) pos. if a ! pos \<noteq> b ! pos then (if f = - 1 then int pos else f, int pos) else (f, l)) (- 1, - 1) [0..<n]"

definition splice_at :: "nat \<Rightarrow> bytes \<Rightarrow> bytes \<Rightarrow> bytes" where
  "splice_at n a b = take n a @ drop n b"

text \<open>Up to \<open>k\<close> attempts to find a partner with a usable difference; the result is the new input and the
  attempts left, or \<open>None\<close> when they are used up.\<close>

primrec find_splice :: "havoc_world \<Rightarrow> bytes \<Rightarrow> nat \<Rightarrow> (bytes \<times> nat) option hv" where
  "find_splice w orig 0 = give None"
| "find_splice w orig (Suc k) =
     into (splice_partner w) (\<lambda>tid. let target = hw_queue w ! tid in
       case locate_diffs orig target (min (length orig) (length target)) of (f_diff, l_diff) \<Rightarrow>
         if f_diff < 0 \<or> l_diff < 2 \<or> f_diff = l_diff then find_splice w orig k
         else into (below w (nat (l_diff - f_diff))) (\<lambda>d.
                give (Some (splice_at (nat f_diff + d) orig target, k))))"

text \<open>Havoc on the test case, then on one splice after the other. \<open>left\<close> counts the splices that are still
  allowed, and is the recursion bound of the code as well.\<close>

function havoc_and_splice :: "havoc_env \<Rightarrow> bool \<Rightarrow> u32 \<Rightarrow> u32 \<Rightarrow> bytes \<Rightarrow> bytes \<Rightarrow> nat \<Rightarrow> havoc_st \<Rightarrow> havoc_end option" where
  "havoc_and_splice e use_splicing rate orig_perf orig in_buf left st =
     (case havoc_stage e rate in_buf st of
        Some (Rounds_done st) \<Rightarrow>
          let w = he_world e (hs_runs st)
          in if \<not> (use_splicing \<and> hw_ready w > 1 \<and> length orig \<ge> 4) then Some (Rounds_done st)
             else (case find_splice w orig left (hs_rng st) of
                     None \<Rightarrow> None
                   | Some (None, g) \<Rightarrow> Some (Rounds_done (st\<lparr>hs_rng := g\<rparr>))
                   | Some (Some (buf, left'), g) \<Rightarrow>
                       if left' < left
                       then havoc_and_splice e use_splicing SPLICE_HAVOC orig_perf orig buf left' (st\<lparr>hs_rng := g, hs_perf := orig_perf\<rparr>)
                       else None)
      | r \<Rightarrow> r)"
  by pat_completeness auto
termination
  by (relation "measure (\<lambda>(e, use_splicing, rate, orig_perf, orig, in_buf, left, st). left)") auto

declare havoc_and_splice.simps [simp del]

end
