(* ===== verification/Havoc_Laws.thy ===== *)
theory Havoc_Laws
  imports Havoc Det_Flips "HOL-Library.Multiset"
begin

text \<open>
  What a mutation of the havoc stage may turn a buffer into, as a relation on plain lists, and the
  proof that each mutation stays in its memory and within this relation.
\<close>

section \<open>All outcomes of a computation\<close>

definition always :: "('a \<Rightarrow> bool) \<Rightarrow> 'a hv \<Rightarrow> bool" where
  "always P m \<longleftrightarrow> (\<forall>g x g'. m g = Some (x, g') \<longrightarrow> P x)"

primrec good :: "('a \<Rightarrow> bool) \<Rightarrow> 'a step \<Rightarrow> bool" where
  "good P (Fine x) = P x"
| "good P Retry = True"
| "good P Fault = False"

lemma alwaysD: "always P m \<Longrightarrow> m g = Some (x, g') \<Longrightarrow> P x"
  by (auto simp: always_def)

lemma always_give [intro!]: "P x \<Longrightarrow> always P (give x)"
  by (simp add: always_def give_def)

lemma always_fine [intro!]: "P x \<Longrightarrow> always (good P) (fine x)"
  by (simp add: fine_def always_give)

lemma always_mono: "always Q m \<Longrightarrow> (\<And>x. Q x \<Longrightarrow> P x) \<Longrightarrow> always P m"
  unfolding always_def by blast

lemma always_into:
  assumes "always Q m" "\<And>x. Q x \<Longrightarrow> always P (k x)"
  shows "always P (into m k)"
  using assms unfolding always_def into_def by (fastforce split: option.splits)

lemma always_mem: "m = Some x \<Longrightarrow> always P (k x) \<Longrightarrow> always P (mem m k)"
  by (simp add: mem_def)

lemma always_next: "(\<And>x. always P (k x)) \<Longrightarrow> always P (\<lambda>g. case rand_next g of (x, g) \<Rightarrow> k x g)"
  unfolding always_def by (auto split: prod.splits)

lemma always_below:
  assumes "limit < 2 ^ 32"
  shows "always (\<lambda>v. v < max 1 limit) (below w limit)"
  unfolding always_def
proof (intro allI impI)
  fix g x g'
  assume "below w limit g = Some (x, g')"
  then obtain v where v: "rand_below (hw_urandom w) (of_nat limit) g = Some (v, g')" "x = unat v"
    by (auto simp: below_def)
  have L: "unat (of_nat limit :: u32) = limit" using assms by (simp add: unsigned_of_nat take_bit_nat_eq_self)
  show "x < max 1 limit"
  proof (cases "1 < (of_nat limit :: u32)")
    case True
    from rand_below_less [OF this v(1)] show ?thesis unfolding v(2) word_less_nat_alt L by simp
  next
    case False
    then have "v = 0" using v(1) by (simp add: rand_below_def not_less)
    then show ?thesis by (simp add: v(2))
  qed
qed

lemma always_below_pos: "0 < limit \<Longrightarrow> limit < 2 ^ 32 \<Longrightarrow> (\<And>v. v < limit \<Longrightarrow> always P (k v)) \<Longrightarrow> always P (into (below w limit) k)"
  by (rule always_into [OF always_below]) simp_all

lemma below_until_result:
  assumes "below_until w limit ok g = Some (v, g')" "limit < 2 ^ 32"
  shows "ok v \<and> v < max 1 limit"
proof -
  have "\<forall>v g'. r = (v, g') \<longrightarrow> limit < 2 ^ 32 \<longrightarrow> ok v \<and> v < max 1 limit" if "below_until w limit ok g = Some r" for r
  proof (rule below_until.raw_induct [where P = "\<lambda>w limit ok g r. \<forall>v g'. r = (v, g') \<longrightarrow> limit < 2 ^ 32 \<longrightarrow> ok v \<and> v < max 1 limit", OF _ that])
    fix f w limit ok g r
    assume IH: "\<And>w limit ok g r. f w limit ok g = Some r \<Longrightarrow> \<forall>v g'. r = (v, g') \<longrightarrow> limit < 2 ^ 32 \<longrightarrow> ok v \<and> v < max 1 limit"
      and eq: "(case below w limit g of None \<Rightarrow> None | Some (v, g) \<Rightarrow> if ok v then Some (v, g) else f w limit ok g) = Some r"
    show "\<forall>v g'. r = (v, g') \<longrightarrow> limit < 2 ^ 32 \<longrightarrow> ok v \<and> v < max 1 limit"
    proof (intro allI impI)
      fix v g' assume r: "r = (v, g')" and L: "limit < (2 :: nat) ^ 32"
      from eq obtain u h where u: "below w limit g = Some (u, h)" by (auto split: option.splits)
      show "ok v \<and> v < max 1 limit"
      proof (cases "ok u")
        case True
        then have "v = u" using eq u r by simp
        then show ?thesis using True alwaysD [OF always_below [OF L] u] by simp
      next
        case False
        then have "f w limit ok h = Some r" using eq u by simp
        from IH [OF this] show ?thesis using r L by blast
      qed
    qed
  qed
  then show ?thesis using assms by blast
qed

lemma always_below_until:
  "0 < limit \<Longrightarrow> limit < 2 ^ 32 \<Longrightarrow> (\<And>v. v < limit \<Longrightarrow> ok v \<Longrightarrow> always P (k v)) \<Longrightarrow> always P (into (below_until w limit ok) k)"
  by (rule always_into [where Q = "\<lambda>v. ok v \<and> v < max 1 limit"])
     (auto simp: always_def dest: below_until_result)

lemma below_apart_result:
  assumes "below_apart w limit g = Some ((u, v), g')" "limit < 2 ^ 32"
  shows "u \<noteq> v \<and> u < max 1 limit \<and> v < max 1 limit"
proof -
  have "\<forall>u v g'. r = ((u, v), g') \<longrightarrow> limit < 2 ^ 32 \<longrightarrow> u \<noteq> v \<and> u < max 1 limit \<and> v < max 1 limit" if "below_apart w limit g = Some r" for r
  proof (rule below_apart.raw_induct [where P = "\<lambda>w limit g r. \<forall>u v g'. r = ((u, v), g') \<longrightarrow> limit < 2 ^ 32 \<longrightarrow> u \<noteq> v \<and> u < max 1 limit \<and> v < max 1 limit", OF _ that])
    fix f w limit g r
    assume IH: "\<And>w limit g r. f w limit g = Some r \<Longrightarrow> \<forall>u v g'. r = ((u, v), g') \<longrightarrow> limit < 2 ^ 32 \<longrightarrow> u \<noteq> v \<and> u < max 1 limit \<and> v < max 1 limit"
      and eq: "(case below w limit g of None \<Rightarrow> None
        | Some (u, g) \<Rightarrow> (case below w limit g of None \<Rightarrow> None
          | Some (v, g) \<Rightarrow> if u = v then f w limit g else Some ((u, v), g))) = Some r"
    show "\<forall>u v g'. r = ((u, v), g') \<longrightarrow> limit < 2 ^ 32 \<longrightarrow> u \<noteq> v \<and> u < max 1 limit \<and> v < max 1 limit"
    proof (intro allI impI)
      fix u v g' assume r: "r = ((u, v), g')" and L: "limit < (2 :: nat) ^ 32"
      from eq obtain a h b h' where a: "below w limit g = Some (a, h)" "below w limit h = Some (b, h')"
        by (auto split: option.splits)
      show "u \<noteq> v \<and> u < max 1 limit \<and> v < max 1 limit"
      proof (cases "a = b")
        case True
        then have "f w limit h' = Some r" using eq a by simp
        from IH [OF this] show ?thesis using r L by blast
      next
        case False
        then have uv: "u = a" "v = b" using eq a r by simp_all
        show ?thesis unfolding uv
          using False alwaysD [OF always_below [OF L] a(1)] alwaysD [OF always_below [OF L] a(2)] by blast
      qed
    qed
  qed
  then show ?thesis using assms by blast
qed

lemma always_below_apart:
  "0 < limit \<Longrightarrow> limit < 2 ^ 32 \<Longrightarrow> (\<And>u v. u < limit \<Longrightarrow> v < limit \<Longrightarrow> u \<noteq> v \<Longrightarrow> always P (k (u, v))) \<Longrightarrow> always P (into (below_apart w limit) k)"
  by (rule always_into [where Q = "\<lambda>(u, v). u \<noteq> v \<and> u < max 1 limit \<and> v < max 1 limit"])
     (fastforce simp: always_def dest: below_apart_result)+

section \<open>Memory and the length of blocks\<close>

abbreviation slice :: "nat \<Rightarrow> nat \<Rightarrow> bytes \<Rightarrow> bytes" where "slice n i src \<equiv> take n (drop i src)"

lemma load_in: "off + n \<le> length src \<Longrightarrow> load n off src = Some (slice n off src)"
  by (simp add: load_def)

lemma store_in: "off + length bs \<le> length buf \<Longrightarrow> store off bs buf = Some (overwrite off bs buf)"
  by (simp add: store_def)

lemma always_fill: "off + length bs \<le> length buf \<Longrightarrow> P (overwrite off bs buf) \<Longrightarrow> always (good P) (fill off bs buf)"
  unfolding fill_def by (rule always_mem [OF store_in]) auto

lemma always_edit:
  fixes f :: "'l::len word \<Rightarrow> 'l word"
  assumes "off + LENGTH('l) div 8 \<le> length buf"
    and "P (overwrite off (to_bytes (LENGTH('l) div 8) (f (of_bytes (slice (LENGTH('l) div 8) off buf)))) buf)"
  shows "always (good P) (edit off f buf)"
  unfolding edit_def by (rule always_mem [OF load_in [OF assms(1)]]) (rule always_fill, use assms in simp_all)

lemma always_insert_block:
  "off \<le> length buf \<Longrightarrow> P (take off buf @ bs @ drop off buf) \<Longrightarrow> always (good P) (insert_block off bs buf)"
  by (auto simp: insert_block_def load_def mem_def)

lemma always_cut_block:
  assumes "off + n \<le> length buf" "P (take off buf @ drop (off + n) buf)"
  shows "always (good P) (cut_block off n buf)"
proof -
  have l: "load (length buf - off - n) (off + n) buf = Some (drop (off + n) buf)" using assms(1) by (simp add: load_def)
  have s: "store off (drop (off + n) buf) buf = Some (overwrite off (drop (off + n) buf) buf)"
    using assms(1) by (simp add: store_def)
  have "take (length buf - n) (overwrite off (drop (off + n) buf) buf) = take off buf @ drop (off + n) buf"
    using assms(1) by (cases "off = length buf - n") (auto simp: overwrite_def min_def)
  then have "cut_block off n buf = fine (take off buf @ drop (off + n) buf)"
    unfolding cut_block_def l mem_def option.case s using assms(1) by simp
  then show ?thesis using assms(2) by auto
qed

lemma always_block_len:
  assumes "limit < 2 ^ 32"
  shows "always (\<lambda>n. 1 \<le> n \<and> n \<le> max 1 limit \<and> n \<le> HAVOC_BLK_XL) (choose_block_len w limit)"
  unfolding choose_block_len_def
proof (rule always_into [where Q = "\<lambda>c. c < 3"])
  show "always (\<lambda>c. c < 3) (below w (if hw_over10m w then min (hw_cycle w) 3 else 1))"
    by (rule always_mono [OF always_below]) (auto simp: max_def split: if_splits)
next
  fix c :: nat
  show "always (\<lambda>n. 1 \<le> n \<and> n \<le> max 1 limit \<and> n \<le> HAVOC_BLK_XL)
     (into (if c = 0 then give (1, HAVOC_BLK_SMALL)
        else if c = 1 then give (HAVOC_BLK_SMALL, HAVOC_BLK_MEDIUM)
        else into (below w 10) (\<lambda>k. give (if k \<noteq> 0 then (HAVOC_BLK_MEDIUM, HAVOC_BLK_LARGE) else (HAVOC_BLK_LARGE, HAVOC_BLK_XL))))
      (\<lambda>(min_value, max_value). let min_value = if limit \<le> min_value then 1 else min_value
         in into (below w (min max_value limit - min_value + 1)) (\<lambda>k. give (min_value + k))))"
  proof (rule always_into [where Q = "\<lambda>(a, b). 1 \<le> a \<and> a \<le> b \<and> b \<le> HAVOC_BLK_XL"])
    show "always (\<lambda>(a, b). 1 \<le> a \<and> a \<le> b \<and> b \<le> HAVOC_BLK_XL)
       (if c = 0 then give (1, HAVOC_BLK_SMALL)
        else if c = 1 then give (HAVOC_BLK_SMALL, HAVOC_BLK_MEDIUM)
        else into (below w 10) (\<lambda>k. give (if k \<noteq> 0 then (HAVOC_BLK_MEDIUM, HAVOC_BLK_LARGE) else (HAVOC_BLK_LARGE, HAVOC_BLK_XL))))"
      by (auto simp: always_def give_def into_def split: option.splits if_splits)
  next
    fix ab :: "nat \<times> nat"
    assume "case ab of (a, b) \<Rightarrow> 1 \<le> a \<and> a \<le> b \<and> b \<le> HAVOC_BLK_XL"
    then obtain a b where ab: "ab = (a, b)" "1 \<le> a" "a \<le> b" "b \<le> HAVOC_BLK_XL" by auto
    let ?m = "if limit \<le> a then 1 else a"
    have "always (\<lambda>n. 1 \<le> n \<and> n \<le> max 1 limit \<and> n \<le> HAVOC_BLK_XL)
        (into (below w (min b limit - ?m + 1)) (\<lambda>k. give (?m + k)))"
    proof (rule always_below_pos)
      show "min b limit - ?m + 1 < 2 ^ 32" using ab(4) by auto
      show "always (\<lambda>n. 1 \<le> n \<and> n \<le> max 1 limit \<and> n \<le> HAVOC_BLK_XL) (give (?m + v))" if "v < min b limit - ?m + 1" for v
        using that ab by (intro always_give) (auto split: if_splits)
    qed simp
    then show "always (\<lambda>n. 1 \<le> n \<and> n \<le> max 1 limit \<and> n \<le> HAVOC_BLK_XL)
        (case ab of (min_value, max_value) \<Rightarrow> let min_value = if limit \<le> min_value then 1 else min_value
         in into (below w (min max_value limit - min_value + 1)) (\<lambda>k. give (min_value + k)))"
      by (simp only: ab(1) prod.case Let_def)
  qed
qed

lemma always_choose:
  assumes "0 < limit" "limit < 2 ^ 32" "\<And>n. 1 \<le> n \<Longrightarrow> n \<le> limit \<Longrightarrow> n \<le> HAVOC_BLK_XL \<Longrightarrow> always P (k n)"
  shows "always P (into (choose_block_len w limit) k)"
  by (rule always_into [OF always_block_len [OF assms(2)]]) (use assms in auto)
section \<open>Shuffling\<close>

text \<open>A permutation of a block in which, unless it is a single byte, no byte stays at its place.\<close>

definition deranged :: "bytes \<Rightarrow> bytes \<Rightarrow> bool" where
  "deranged x y \<longleftrightarrow>
     (\<exists>p. bij_betw p {..<length x} {..<length x} \<and> y = map (\<lambda>i. x ! p i) [0..<length x]
        \<and> (1 < length x \<longrightarrow> (\<forall>i<length x. p i \<noteq> i)))"

lemma deranged_mset: "deranged x y \<Longrightarrow> mset y = mset x"
proof -
  assume "deranged x y"
  then obtain p where p: "bij_betw p {..<length x} {..<length x}" "y = map (\<lambda>i. x ! p i) [0..<length x]"
    unfolding deranged_def by blast
  have "mset y = image_mset (\<lambda>i. x ! i) (image_mset p (mset_set {..<length x}))"
    unfolding p(2) mset_map mset_upt atLeast0LessThan multiset.map_comp comp_def ..
  also have "image_mset p (mset_set {..<length x}) = mset_set {..<length x}"
    using p(1) by (metis bij_betw_def image_mset_mset_set)
  also have "image_mset (\<lambda>i. x ! i) (mset_set {..<length x}) = mset (map ((!) x) [0..<length x])"
    unfolding mset_map mset_upt atLeast0LessThan ..
  finally show ?thesis unfolding map_nth .
qed

text \<open>The loop shuffles the first \<open>Suc i\<close> places behind \<open>off\<close>.\<close>

definition shuffled :: "nat \<Rightarrow> nat \<Rightarrow> bytes \<Rightarrow> bytes \<Rightarrow> bool" where
  "shuffled off i buf out \<longleftrightarrow>
     (\<exists>p. bij_betw p {..i} {..i} \<and> (0 < i \<longrightarrow> (\<forall>k\<le>i. p k \<noteq> k)) \<and> length out = length buf
        \<and> (\<forall>k\<le>i. out ! (off + k) = buf ! (off + p k))
        \<and> (\<forall>k<length buf. k < off \<or> off + i < k \<longrightarrow> out ! k = buf ! k))"

lemma shuffledE:
  assumes "shuffled off i buf out"
  obtains p where "bij_betw p {..i} {..i}" "0 < i \<Longrightarrow> \<forall>k\<le>i. p k \<noteq> k" "length out = length buf"
    "\<And>k. k \<le> i \<Longrightarrow> out ! (off + k) = buf ! (off + p k)"
    "\<And>k. k < length buf \<Longrightarrow> k < off \<or> off + i < k \<Longrightarrow> out ! k = buf ! k"
  using assms unfolding shuffled_def by blast

lemma shuffled_0: "off < length buf \<Longrightarrow> shuffled off 0 buf buf"
  unfolding shuffled_def by (rule exI [where x = id]) auto

lemma shuffled_Suc:
  assumes len: "off + Suc i < length buf" and j: "j \<le> i"
    and s: "shuffled off i (buf[off + Suc i := buf ! (off + j), off + j := buf ! (off + Suc i)]) out"
  shows "shuffled off (Suc i) buf out"
proof -
  let ?b = "buf[off + Suc i := buf ! (off + j), off + j := buf ! (off + Suc i)]"
  from s obtain p where p': "bij_betw p {..i} {..i}" "0 < i \<Longrightarrow> \<forall>k\<le>i. p k \<noteq> k" "length out = length ?b"
      "\<And>k. k \<le> i \<Longrightarrow> out ! (off + k) = ?b ! (off + p k)"
      "\<And>k. k < length ?b \<Longrightarrow> k < off \<or> off + i < k \<Longrightarrow> out ! k = ?b ! k"
    by (rule shuffledE) blast
  note p = p'(1,2) p'(3) [unfolded length_list_update] p'(4) p'(5) [unfolded length_list_update]
  define t where "t = (\<lambda>k. if k = j then Suc i else if k = Suc i then j else k)"
  define q where "q = (\<lambda>k. if k = Suc i then j else t (p k))"
  have pin: "p k \<le> i" if "k \<le> i" for k using p(1) that by (auto simp: bij_betw_def)
  have tb: "bij_betw t {..Suc i} {..Suc i}"
  proof (rule bij_betw_byWitness [where f' = t])
    show "t ` {..Suc i} \<subseteq> {..Suc i}" using j by (auto simp: t_def)
  qed (use j in \<open>auto simp: t_def\<close>)
  have pb: "bij_betw (p(Suc i := Suc i)) {..Suc i} {..Suc i}"
  proof -
    have "bij_betw (p(Suc i := Suc i)) {..i} {..i}" by (rule iffD2 [OF bij_betw_cong p(1)]) simp
    then have "bij_betw (p(Suc i := Suc i)) (insert (Suc i) {..i}) (insert (Suc i) {..i})"
      using notIn_Un_bij_betw3 [of "Suc i" "{..i}" "p(Suc i := Suc i)" "{..i}"] by simp
    then show ?thesis by (simp add: atMost_Suc)
  qed
  have q: "q k = t ((p(Suc i := Suc i)) k)" if "k \<le> Suc i" for k
    using j that by (auto simp: q_def t_def)
  have qb: "bij_betw q {..Suc i} {..Suc i}"
    by (rule iffD2 [OF bij_betw_cong bij_betw_trans [OF pb tb]]) (simp only: q comp_apply atMost_iff)
  have bt: "?b ! (off + m) = buf ! (off + t m)" if "m \<le> Suc i" for m
    using len j that by (auto simp: t_def nth_list_update)
  have qk: "out ! (off + k) = buf ! (off + q k)" if "k \<le> Suc i" for k
  proof (cases "k = Suc i")
    case True
    then have "out ! (off + k) = ?b ! (off + Suc i)" using p(5) [of "off + Suc i"] len by simp
    then show ?thesis using True bt [of "Suc i"] j by (simp add: q_def t_def)
  next
    case False
    then have "k \<le> i" using that by simp
    then show ?thesis using p(4) [of k] bt [of "p k"] pin [of k] False by (simp add: q_def)
  qed
  have qd: "q k \<noteq> k" if "k \<le> Suc i" for k
  proof (cases "k = Suc i")
    case True
    then show ?thesis using j by (simp add: q_def)
  next
    case False
    then have k: "k \<le> i" using that by simp
    have *: "q k = (if p k = j then Suc i else p k)" using False pin [OF k] by (auto simp: q_def t_def)
    show ?thesis
    proof (cases "i = 0")
      case True
      then have "k = 0" "j = 0" "p 0 = 0" using k j pin [of 0] by auto
      then show ?thesis using * by simp
    next
      case False
      then show ?thesis using * p(2) k by auto
    qed
  qed
  have rest: "out ! k = buf ! k" if "k < length buf" "k < off \<or> off + Suc i < k" for k
    using p(5) [of k] that j by (auto simp: nth_list_update)
  show ?thesis unfolding shuffled_def using qb qk qd rest p(3) by blast
qed

lemma shuffle_down_shuffles:
  assumes "off + i < length buf" "i + 1 < 2 ^ 32"
  shows "always (good (shuffled off i buf)) (shuffle_down w off i buf)"
  using assms
proof (induction i arbitrary: buf)
  case 0
  then show ?case by (auto simp: shuffled_0)
next
  case (Suc i)
  show ?case unfolding shuffle_down.simps
  proof (rule always_below_until)
    fix j assume j: "j < Suc i + 1" "j \<noteq> Suc i"
    let ?b = "buf[off + Suc i := buf ! (off + j), off + j := buf ! (off + Suc i)]"
    have sw: "swap_bytes (off + Suc i) (off + j) buf = Some ?b" using Suc.prems j by (simp add: swap_bytes_def)
    have "always (good (shuffled off i ?b)) (shuffle_down w off i ?b)" by (rule Suc.IH) (use Suc.prems in simp_all)
    then have "always (good (shuffled off (Suc i) buf)) (shuffle_down w off i ?b)"
    proof (rule always_mono)
      fix r assume "good (shuffled off i ?b) r"
      then show "good (shuffled off (Suc i) buf) r"
        using shuffled_Suc [of off i buf j] Suc.prems j by (cases r) auto
    qed
    then show "always (good (shuffled off (Suc i) buf)) (mem (swap_bytes (off + Suc i) (off + j) buf) (shuffle_down w off i))"
      by (rule always_mem [OF sw])
  qed (use Suc.prems in simp_all)
qed

lemma shuffled_deranged:
  assumes "shuffled off i buf out" "off + i < length buf"
  shows "\<exists>y. out = take off buf @ y @ drop (off + Suc i) buf \<and> deranged (slice (Suc i) off buf) y"
proof -
  from assms(1) obtain p where p: "bij_betw p {..i} {..i}" "0 < i \<Longrightarrow> \<forall>k\<le>i. p k \<noteq> k" "length out = length buf"
      "\<And>k. k \<le> i \<Longrightarrow> out ! (off + k) = buf ! (off + p k)"
      "\<And>k. k < length buf \<Longrightarrow> k < off \<or> off + i < k \<Longrightarrow> out ! k = buf ! k"
    by (rule shuffledE) blast
  let ?x = "slice (Suc i) off buf" and ?y = "slice (Suc i) off out"
  have lx: "length ?x = Suc i" using assms(2) by simp
  have pin: "p k \<le> i" if "k \<le> i" for k using p(1) that by (auto simp: bij_betw_def)
  have "out = take off out @ ?y @ drop (off + Suc i) out"
    by (metis append_take_drop_id drop_drop add.commute)
  moreover have "take off out = take off buf"
    by (rule nth_equalityI) (use p(3,5) assms(2) in auto)
  moreover have "drop (off + Suc i) out = drop (off + Suc i) buf"
    by (rule nth_equalityI) (use p(3,5) assms(2) in auto)
  moreover have "?y = map (\<lambda>k. ?x ! p k) [0..<length ?x]"
    by (rule nth_equalityI) (use p(3,4) pin assms(2) in \<open>auto simp: less_Suc_eq_le simp del: upt_Suc\<close>)
  moreover have "deranged ?x (map (\<lambda>k. ?x ! p k) [0..<length ?x])"
    unfolding deranged_def lx using p(1,2) by (auto simp: lessThan_Suc_atMost less_Suc_eq_le)
  ultimately show ?thesis by metis
qed
section \<open>What a mutation may do\<close>

text \<open>The relations between the buffer before and after: a word or a block written, put in, taken out.\<close>

definition written :: "nat \<Rightarrow> bytes \<Rightarrow> bytes \<Rightarrow> bytes \<Rightarrow> bool" where
  "written i bs buf out \<longleftrightarrow> i + length bs \<le> length buf \<and> out = overwrite i bs buf"

definition inserted :: "nat \<Rightarrow> bytes \<Rightarrow> bytes \<Rightarrow> bytes \<Rightarrow> bool" where
  "inserted i bs buf out \<longleftrightarrow> i \<le> length buf \<and> out = take i buf @ bs @ drop i buf"

definition removed :: "nat \<Rightarrow> nat \<Rightarrow> bytes \<Rightarrow> bytes \<Rightarrow> bool" where
  "removed i n buf out \<longleftrightarrow> 1 \<le> n \<and> n < length buf \<and> i + n \<le> length buf \<and> out = take i buf @ drop (i + n) buf"

lemma always_written:
  "i + length bs \<le> length buf \<Longrightarrow> (\<And>out. written i bs buf out \<Longrightarrow> P out) \<Longrightarrow> always (good P) (fill i bs buf)"
  by (rule always_fill) (simp_all add: written_def)

lemma always_inserted:
  "i \<le> length buf \<Longrightarrow> (\<And>out. inserted i bs buf out \<Longrightarrow> P out) \<Longrightarrow> always (good P) (insert_block i bs buf)"
  by (rule always_insert_block) (simp_all add: inserted_def)

lemma always_removed:
  "1 \<le> n \<Longrightarrow> n < length buf \<Longrightarrow> i + n \<le> length buf \<Longrightarrow> (\<And>out. removed i n buf out \<Longrightarrow> P out)
   \<Longrightarrow> always (good P) (cut_block i n buf)"
  by (rule always_cut_block) (simp_all add: removed_def)

text \<open>A word of the buffer replaced by a function of it; a value of a table written; a byte like the one
  before its place, or any other.\<close>

definition word_changed :: "('l::len word \<Rightarrow> 'l word) set \<Rightarrow> bytes \<Rightarrow> bytes \<Rightarrow> bool" where
  "word_changed fs buf out \<longleftrightarrow>
     (let n = LENGTH('l) div 8
      in \<exists>i. \<exists>f\<in>fs. i + n \<le> length buf \<and> out = overwrite i (to_bytes n (f (of_bytes (slice n i buf)))) buf)"

definition moved :: "('l::len word \<Rightarrow> 'l word) \<Rightarrow> ('l word \<Rightarrow> 'l word \<Rightarrow> 'l word) \<Rightarrow> ('l word \<Rightarrow> 'l word) set" where
  "moved order f = (\<lambda>d v. order (f (order v) (of_nat d))) ` {1..ARITH_MAX}"

text \<open>A mutation leaves a buffer alone that is too short for it; where it asks for another one instead,
  this is said by \<open>asks_again\<close>.\<close>

fun mutation_spec :: "havoc_world \<Rightarrow> mutation \<Rightarrow> bytes \<Rightarrow> bytes \<Rightarrow> bool" where
  "mutation_spec w MUT_FLIPBIT buf out = word_changed ((\<lambda>k b :: u8. b XOR push_bit k 1) ` {..<8}) buf out"
| "mutation_spec w MUT_INTERESTING8 buf out = word_changed ((\<lambda>v _. v) ` set interesting_8) buf out"
| "mutation_spec w MUT_INTERESTING16 buf out =
     (if length buf < 2 then out = buf else word_changed ((\<lambda>v _. v) ` set interesting_16) buf out)"
| "mutation_spec w MUT_INTERESTING16BE buf out =
     (if length buf < 2 then out = buf else word_changed ((\<lambda>v _. SWAP16 v) ` set interesting_16) buf out)"
| "mutation_spec w MUT_INTERESTING32 buf out =
     (if length buf < 4 then out = buf else word_changed ((\<lambda>v _. v) ` set interesting_32) buf out)"
| "mutation_spec w MUT_INTERESTING32BE buf out =
     (if length buf < 4 then out = buf else word_changed ((\<lambda>v _. SWAP32 v) ` set interesting_32) buf out)"
| "mutation_spec w MUT_ARITH8_SUB buf out = word_changed (moved (\<lambda>v :: u8. v) (-)) buf out"
| "mutation_spec w MUT_ARITH8 buf out = word_changed (moved (\<lambda>v :: u8. v) (+)) buf out"
| "mutation_spec w MUT_ARITH16_SUB buf out = (if length buf < 2 then out = buf else word_changed (moved (\<lambda>v :: u16. v) (-)) buf out)"
| "mutation_spec w MUT_ARITH16BE_SUB buf out = (if length buf < 2 then out = buf else word_changed (moved SWAP16 (-)) buf out)"
| "mutation_spec w MUT_ARITH16 buf out = (if length buf < 2 then out = buf else word_changed (moved (\<lambda>v :: u16. v) (+)) buf out)"
| "mutation_spec w MUT_ARITH16BE buf out = (if length buf < 2 then out = buf else word_changed (moved SWAP16 (+)) buf out)"
| "mutation_spec w MUT_ARITH32_SUB buf out = (if length buf < 4 then out = buf else word_changed (moved (\<lambda>v :: u32. v) (-)) buf out)"
| "mutation_spec w MUT_ARITH32BE_SUB buf out = (if length buf < 4 then out = buf else word_changed (moved SWAP32 (-)) buf out)"
| "mutation_spec w MUT_ARITH32 buf out = (if length buf < 4 then out = buf else word_changed (moved (\<lambda>v :: u32. v) (+)) buf out)"
| "mutation_spec w MUT_ARITH32BE buf out = (if length buf < 4 then out = buf else word_changed (moved SWAP32 (+)) buf out)"
| "mutation_spec w MUT_RAND8 buf out = word_changed {\<lambda>b. b XOR v | v :: u8. v \<noteq> 0} buf out"
| "mutation_spec w MUT_CLONE_COPY buf out =
     (if length buf + HAVOC_BLK_XL < MAX_FILE
      then \<exists>i n from. 1 \<le> n \<and> n \<le> HAVOC_BLK_XL \<and> from + n \<le> length buf \<and> inserted i (slice n from buf) buf out
      else length buf < 8 \<and> out = buf)"
| "mutation_spec w MUT_CLONE_FIXED buf out =
     (if length buf + HAVOC_BLK_XL < MAX_FILE
      then \<exists>i n b. 1 \<le> n \<and> n \<le> HAVOC_BLK_XL \<and> inserted i (replicate n b) buf out
      else length buf < 8 \<and> out = buf)"
| "mutation_spec w MUT_OVERWRITE_COPY buf out =
     (if length buf < 2 then out = buf
      else \<exists>i n from. 1 \<le> n \<and> n < length buf \<and> from + n \<le> length buf \<and> from \<noteq> i \<and> written i (slice n from buf) buf out)"
| "mutation_spec w MUT_OVERWRITE_FIXED buf out =
     (if length buf < 2 then out = buf else \<exists>i n b. 1 \<le> n \<and> n < length buf \<and> written i (replicate n b) buf out)"
| "mutation_spec w MUT_BYTEADD buf out = word_changed {\<lambda>b :: u8. b + 1} buf out"
| "mutation_spec w MUT_BYTESUB buf out = word_changed {\<lambda>b :: u8. b - 1} buf out"
| "mutation_spec w MUT_FLIP8 buf out = word_changed {\<lambda>b :: u8. NOT b} buf out"
| "mutation_spec w MUT_SWITCH buf out =
     (if length buf < 4 then out = buf
      else \<exists>a x b y c. x \<noteq> [] \<and> length x = length y \<and> buf = a @ x @ b @ y @ c \<and> out = a @ y @ b @ x @ c)"
| "mutation_spec w MUT_DEL buf out = (if length buf < 2 then out = buf else \<exists>i n. removed i n buf out)"
| "mutation_spec w MUT_SHUFFLE buf out =
     (if length buf < 4 then out = buf
      else \<exists>a x y b. buf = a @ x @ b \<and> out = a @ y @ b \<and> x \<noteq> [] \<and> deranged x y)"
| "mutation_spec w MUT_DELONE buf out = (if length buf < 2 then out = buf else \<exists>i. removed i 1 buf out)"
| "mutation_spec w MUT_INSERTONE buf out = (if length buf < 2 then out = buf else \<exists>i b. inserted i [b] buf out)"
| "mutation_spec w MUT_ASCIINUM buf out =
     (out = buf \<and> length buf < 8
      \<or> (\<exists>a ds b v. buf = a @ ds @ b \<and> ds \<noteq> [] \<and> list_all byte_isdigit ds \<and> (b = [] \<or> \<not> byte_isdigit (hd b))
           \<and> out = a @ number_text v @ b))"
| "mutation_spec w MUT_INSERTASCIINUM buf out =
     (out = buf \<and> length buf < 8 \<or> (\<exists>i n x. 1 \<le> n \<and> n \<le> 8 \<and> written i (take n (printed w x)) buf out))"
| "mutation_spec w MUT_EXTRA_OVERWRITE buf out = (\<exists>i. \<exists>t\<in>set (hw_extras w). written i t buf out)"
| "mutation_spec w MUT_EXTRA_INSERT buf out =
     (\<exists>i. \<exists>t\<in>set (hw_extras w). length buf + length t < MAX_FILE \<and> inserted i t buf out)"
| "mutation_spec w MUT_AUTO_EXTRA_OVERWRITE buf out = (\<exists>i. \<exists>t\<in>set (hw_autos w). written i t buf out)"
| "mutation_spec w MUT_AUTO_EXTRA_INSERT buf out =
     (\<exists>i. \<exists>t\<in>set (hw_autos w). length buf + length t < MAX_FILE \<and> inserted i t buf out)"
| "mutation_spec w MUT_SPLICE_OVERWRITE buf out =
     (\<exists>i n from. \<exists>t\<in>set (hw_queue w). 4 \<le> length t \<and> 1 \<le> n \<and> n < length t \<and> from + n \<le> length t \<and> written i (slice n from t) buf out)"
| "mutation_spec w MUT_SPLICE_INSERT buf out =
     (\<exists>i n from. \<exists>t\<in>set (hw_queue w). 4 \<le> length t \<and> 1 \<le> n \<and> n \<le> HAVOC_BLK_XL \<and> from + n \<le> length t
        \<and> length buf + n < MAX_FILE \<and> inserted i (slice n from t) buf out)"
end
