(* ===== verification/Havoc_Moves.thy ===== *)
theory Havoc_Moves
  imports Havoc_Laws
begin

text \<open>
  Every mutation of the havoc stage stays in its memory and within \<open>mutation_spec\<close>, and bounds the
  length of the buffer it leaves.
\<close>
section \<open>Each mutation stays in its memory and does what it may\<close>

text \<open>What the surroundings guarantee: sizes fit the 32 bits of the code, and the queue is not empty when
  it has test cases for splicing.\<close>

definition world_ok :: "havoc_world \<Rightarrow> bool" where
  "world_ok w \<longleftrightarrow>
     length (hw_extras w) < 2 ^ 32 \<and> length (hw_autos w) < 2 ^ 32 \<and> length (hw_queue w) < 2 ^ 32
     \<and> (\<forall>t\<in>set (hw_extras w) \<union> set (hw_autos w) \<union> set (hw_queue w). length t \<le> MAX_FILE)
     \<and> (1 < hw_ready w \<longrightarrow> hw_queue w \<noteq> [])"

definition buf_ok :: "bytes \<Rightarrow> bool" where
  "buf_ok buf \<longleftrightarrow> buf \<noteq> [] \<and> length buf + MAX_FILE < 2 ^ 32"

lemma buf_okD: "buf_ok buf \<Longrightarrow> 0 < length buf \<and> length buf + 1 < 2 ^ 32"
  unfolding buf_ok_def by auto

lemma edit_changed:
  fixes f :: "'l::len word \<Rightarrow> 'l word"
  shows "f \<in> fs \<Longrightarrow> off + LENGTH('l) div 8 \<le> length buf \<Longrightarrow> always (good (word_changed fs buf)) (edit off f buf)"
  by (rule always_edit) (auto simp: word_changed_def Let_def)

lemma mut_byte_changed:
  assumes "buf_ok buf" "f \<in> fs"
  shows "always (good (word_changed fs buf)) (mut_byte w f buf)"
  unfolding mut_byte_def
  by (rule always_below_pos) (use buf_okD [OF assms(1)] assms(2) in \<open>auto intro!: edit_changed\<close>)

lemma mut_interesting_changed:
  fixes vals :: "'l::len word list"
  assumes "buf_ok buf" "vals \<noteq> []" "length vals < 2 ^ 32" "0 < LENGTH('l) div 8"
  shows "always (good (\<lambda>out. if length buf < LENGTH('l) div 8 then out = buf else word_changed ((\<lambda>v _. order v) ` set vals) buf out))
     (mut_interesting w vals order buf)"
proof (cases "length buf < LENGTH('l) div 8")
  case True
  then show ?thesis by (auto simp: mut_interesting_def)
next
  case False
  have *: "always (good (word_changed ((\<lambda>v _. order v) ` set vals) buf)) (fill off (to_bytes (LENGTH('l) div 8) (order (vals ! item))) buf)"
    if "item < length vals" "off < length buf - (LENGTH('l) div 8 - 1)" for item off
  proof (rule always_fill)
    show "off + length (to_bytes (LENGTH('l) div 8) (order (vals ! item))) \<le> length buf"
      using that(2) False assms(4) by simp
    show "word_changed ((\<lambda>v _. order v) ` set vals) buf (overwrite off (to_bytes (LENGTH('l) div 8) (order (vals ! item))) buf)"
      unfolding word_changed_def Let_def using that False assms(4) by (force intro!: exI [where x = off])
  qed
  show ?thesis
    unfolding mut_interesting_def Let_def using False
    by (auto intro!: always_below_pos * simp: assms) (use buf_okD [OF assms(1)] assms(3,4) in auto)
qed

lemma mut_arith_changed:
  fixes order :: "'l::len word \<Rightarrow> 'l word"
  assumes "buf_ok buf" "0 < LENGTH('l) div 8"
  shows "always (good (\<lambda>out. if length buf < LENGTH('l) div 8 then out = buf else word_changed (moved order f) buf out))
     (mut_arith w order f buf)"
proof (cases "length buf < LENGTH('l) div 8")
  case True
  then show ?thesis by (auto simp: mut_arith_def)
next
  case False
  have *: "always (good (word_changed (moved order f) buf)) (edit pos (\<lambda>v. order (f (order v) (of_nat (1 + item)))) buf)"
    if "item < ARITH_MAX" "pos < length buf - (LENGTH('l) div 8 - 1)" for item pos
    by (rule edit_changed) (use that False assms(2) in \<open>auto simp: moved_def intro!: image_eqI [where x = "1 + item"]\<close>)
  show ?thesis
    unfolding mut_arith_def Let_def using False buf_okD [OF assms(1)] assms(2)
    by (simp only: if_False) (intro always_below_pos; (rule *)?; linarith?; simp?)
qed

lemma moved_byte:
  "item < ARITH_MAX \<Longrightarrow> (\<lambda>b. b - of_nat (1 + item)) \<in> moved (\<lambda>v :: u8. v) (-)"
  "item < ARITH_MAX \<Longrightarrow> (\<lambda>b. b + of_nat (1 + item)) \<in> moved (\<lambda>v :: u8. v) (+)"
  unfolding moved_def by (auto intro!: image_eqI [where x = "1 + item"])

lemma always_fixed_byte:
  assumes "pos < length buf" "\<And>b. always (good P) (k b)"
  shows "always (good P) (fixed_byte w pos buf k)"
proof -
  have l: "load 1 (if pos \<noteq> 0 then pos - 1 else 0) buf = Some (slice 1 (if pos \<noteq> 0 then pos - 1 else 0) buf)"
    by (rule load_in) (use assms(1) in auto)
  have "always (good P) (if strat \<noteq> 0 then into (below w 256) (\<lambda>v. k (of_nat v))
      else mem (load 1 (if pos \<noteq> 0 then pos - 1 else 0) buf) (\<lambda>bs. k (hd bs)))" for strat :: nat
  proof (cases "strat = 0")
    case True
    show ?thesis unfolding True l by (simp add: mem_def assms(2))
  next
    case False
    then show ?thesis by (auto intro: always_below_pos assms(2))
  qed
  then show ?thesis unfolding fixed_byte_def by (intro always_below_pos) simp_all
qed

lemma mut_clone_copy_ok:
  assumes "buf_ok buf"
  shows "always (good (mutation_spec w MUT_CLONE_COPY buf)) (mut_clone_copy w buf)"
proof (cases "length buf + HAVOC_BLK_XL < MAX_FILE")
  case True
  note b = buf_okD [OF assms]
  have "always (good (mutation_spec w MUT_CLONE_COPY buf)) (mem (load n a buf) (\<lambda>bs. insert_block i bs buf))"
    if "1 \<le> n" "n \<le> length buf" "n \<le> HAVOC_BLK_XL" "a < length buf - n + 1" "i < length buf" for n a i
  proof (rule always_mem [OF load_in])
    show "a + n \<le> length buf" using that by simp
    show "always (good (mutation_spec w MUT_CLONE_COPY buf)) (insert_block i (slice n a buf) buf)"
      by (rule always_inserted) (use True that in \<open>auto simp: less_Suc_eq_le le_diff_conv2\<close>)
  qed
  then show ?thesis unfolding mut_clone_copy_def if_P [OF True]
    by (intro always_choose always_below_pos) (use b in auto)
next
  case False
  then show ?thesis by (auto simp: mut_clone_copy_def)
qed

lemma mut_clone_fixed_ok:
  assumes "buf_ok buf"
  shows "always (good (mutation_spec w MUT_CLONE_FIXED buf)) (mut_clone_fixed w buf)"
proof (cases "length buf + HAVOC_BLK_XL < MAX_FILE")
  case True
  note b = buf_okD [OF assms]
  have "always (good (mutation_spec w MUT_CLONE_FIXED buf)) (insert_block i (replicate n item) buf)"
    if "1 \<le> n" "n \<le> HAVOC_BLK_XL" "i < length buf" for n i item
    by (rule always_inserted) (use True that in auto)
  then show ?thesis unfolding mut_clone_fixed_def if_P [OF True]
    by (intro always_choose always_below_pos always_fixed_byte) (use b in auto)
next
  case False
  then show ?thesis by (auto simp: mut_clone_fixed_def)
qed
lemma mut_overwrite_copy_ok:
  assumes "buf_ok buf"
  shows "always (good (mutation_spec w MUT_OVERWRITE_COPY buf)) (mut_overwrite_copy w buf)"
proof (cases "length buf < 2")
  case True
  then show ?thesis by (auto simp: mut_overwrite_copy_def)
next
  case False
  note b = buf_okD [OF assms]
  have "always (good (mutation_spec w MUT_OVERWRITE_COPY buf)) (mem (load n a buf) (\<lambda>bs. fill i bs buf))"
    if "1 \<le> n" "n \<le> length buf - 1" "a < length buf - n + 1" "i < length buf - n + 1" "a \<noteq> i" for n a i
  proof (rule always_mem [OF load_in])
    show "a + n \<le> length buf" using that by simp
    show "always (good (mutation_spec w MUT_OVERWRITE_COPY buf)) (fill i (slice n a buf) buf)"
    proof (rule always_written)
      show "mutation_spec w MUT_OVERWRITE_COPY buf out" if "written i (slice n a buf) buf out" for out
        using that False \<open>1 \<le> n\<close> \<open>n \<le> length buf - 1\<close> \<open>a + n \<le> length buf\<close> \<open>a \<noteq> i\<close>
        by simp (metis One_nat_def Suc_leI Suc_le_eq Suc_pred b le_imp_less_Suc)
    qed (use that in simp)
  qed
  then show ?thesis unfolding mut_overwrite_copy_def if_not_P [OF False]
    by (intro always_choose always_below_apart) (use b False in auto)
qed

lemma mut_overwrite_fixed_ok:
  assumes "buf_ok buf"
  shows "always (good (mutation_spec w MUT_OVERWRITE_FIXED buf)) (mut_overwrite_fixed w buf)"
proof (cases "length buf < 2")
  case True
  then show ?thesis by (auto simp: mut_overwrite_fixed_def)
next
  case False
  note b = buf_okD [OF assms]
  have "always (good (mutation_spec w MUT_OVERWRITE_FIXED buf)) (fill i (replicate n item) buf)"
    if "1 \<le> n" "n \<le> length buf - 1" "i < length buf - n + 1" for n i item
  proof (rule always_written)
    have "n < length buf" using that False by simp
    then show "mutation_spec w MUT_OVERWRITE_FIXED buf out" if "written i (replicate n item) buf out" for out
      using that False \<open>1 \<le> n\<close> by auto
  qed (use that in simp)
  then show ?thesis unfolding mut_overwrite_fixed_def if_not_P [OF False]
    by (intro always_choose always_below_pos always_fixed_byte) (use b False in auto)
qed

lemma switch_blocks_ok:
  assumes "1 \<le> n" "i + n \<le> j" "j + n \<le> length buf" "\<not> length buf < 4"
  shows "always (good (mutation_spec w MUT_SWITCH buf)) (switch_blocks n i j buf)"
    "always (good (mutation_spec w MUT_SWITCH buf)) (switch_blocks n j i buf)"
proof -
  let ?x = "slice n i buf" and ?y = "slice n j buf" and ?b = "slice (j - (i + n)) (i + n) buf"
  have l: "load n i buf = Some ?x" "load n j buf = Some ?y" using assms by (simp_all add: load_in)
  have len: "length ?x = n" "length ?y = n" "length ?b = j - (i + n)" "length (take i buf) = i"
    using assms by simp_all
  have d: "drop (i + n) buf = ?b @ ?y @ drop (j + n) buf"
    using assms(2) by (metis append_take_drop_id drop_drop le_add_diff_inverse2 add.commute)
  have split: "buf = take i buf @ ?x @ ?b @ ?y @ drop (j + n) buf"
    unfolding d [symmetric] by (metis append_take_drop_id drop_drop add.commute)
  have ij: "overwrite j ?x (overwrite i ?y buf) = take i buf @ ?y @ ?b @ ?x @ drop (j + n) buf"
  proof -
    have "overwrite i ?y buf = take i buf @ ?y @ ?b @ ?y @ drop (j + n) buf"
      using d assms by (simp add: overwrite_def)
    moreover have "overwrite j ?x \<dots> = take i buf @ ?y @ ?b @ ?x @ drop (j + n) buf"
      using assms by (simp add: overwrite_def)
    ultimately show ?thesis by simp
  qed
  have ji: "overwrite i ?y (overwrite j ?x buf) = take i buf @ ?y @ ?b @ ?x @ drop (j + n) buf"
    unfolding ij [symmetric] using assms by (intro nth_equalityI) (auto simp: nth_overwrite)
  have s: "mutation_spec w MUT_SWITCH buf (take i buf @ ?y @ ?b @ ?x @ drop (j + n) buf)"
    using assms split len by (simp only: mutation_spec.simps if_False) (metis length_greater_0_conv less_eq_Suc_le One_nat_def)
  show "always (good (mutation_spec w MUT_SWITCH buf)) (switch_blocks n i j buf)"
    unfolding switch_blocks_def using assms s ij by (simp add: mem_def l store_def fill_def always_fine)
  show "always (good (mutation_spec w MUT_SWITCH buf)) (switch_blocks n j i buf)"
    unfolding switch_blocks_def using assms s ji by (simp add: mem_def l store_def fill_def always_fine)
qed

lemma mut_switch_ok:
  assumes "buf_ok buf"
  shows "always (good (mutation_spec w MUT_SWITCH buf)) (mut_switch w buf)"
proof (cases "length buf < 4")
  case True
  then show ?thesis by (auto simp: mut_switch_def)
next
  case False
  note b = buf_okD [OF assms]
  have "always (good (mutation_spec w MUT_SWITCH buf))
     (let switch_len = if a < c then c - a else a - c; to_end = if a < c then length buf - c else length buf - a
      in into (choose_block_len w (min switch_len to_end)) (\<lambda>n. switch_blocks n a c buf))"
    if "a < length buf" "c < length buf" "c \<noteq> a" for a c
    unfolding Let_def
  proof (rule always_choose)
    fix n assume n: "1 \<le> n" "n \<le> min (if a < c then c - a else a - c) (if a < c then length buf - c else length buf - a)"
    show "always (good (mutation_spec w MUT_SWITCH buf)) (switch_blocks n a c buf)"
      by (cases "a < c") (use switch_blocks_ok [of n a c buf w] switch_blocks_ok [of n c a buf w] that n False in auto)
  qed (use that b in auto)
  then show ?thesis unfolding mut_switch_def if_not_P [OF False]
    by (intro always_below_pos always_below_until) (use b False in auto)
qed

lemma mut_del_ok:
  assumes "buf_ok buf"
  shows "always (good (mutation_spec w MUT_DEL buf)) (mut_del w buf)"
proof (cases "length buf < 2")
  case True
  then show ?thesis by (auto simp: mut_del_def)
next
  case False
  note b = buf_okD [OF assms]
  have "always (good (mutation_spec w MUT_DEL buf)) (cut_block i n buf)"
    if "1 \<le> n" "n \<le> length buf - 1" "i < length buf - n + 1" for n i
    by (rule always_removed) (use that False in auto)
  then show ?thesis unfolding mut_del_def if_not_P [OF False]
    by (intro always_choose always_below_pos) (use b False in auto)
qed

lemma mut_shuffle_ok:
  assumes "buf_ok buf"
  shows "always (good (mutation_spec w MUT_SHUFFLE buf)) (mut_shuffle w buf)"
proof (cases "length buf < 4")
  case True
  then show ?thesis by (auto simp: mut_shuffle_def)
next
  case False
  note b = buf_okD [OF assms]
  have "always (good (mutation_spec w MUT_SHUFFLE buf)) (shuffle_down w i (n - 1) buf)"
    if n: "1 \<le> n" "n \<le> length buf - 1" "i < length buf - n + 1" for n i
  proof (rule always_mono [OF shuffle_down_shuffles])
    show i: "i + (n - 1) < length buf" and "n - 1 + 1 < 2 ^ 32" using n b by linarith+
    fix r assume r: "good (shuffled i (n - 1) buf) r"
    show "good (mutation_spec w MUT_SHUFFLE buf) r"
    proof (cases r)
      case (Fine out)
      then obtain y where y: "out = take i buf @ y @ drop (i + n) buf" "deranged (slice n i buf) y"
        using shuffled_deranged [OF _ i, of out] r n by auto
      have "buf = take i buf @ slice n i buf @ drop (i + n) buf" by (metis append_take_drop_id drop_drop add.commute)
      moreover have "slice n i buf \<noteq> []" using n False by simp
      ultimately show ?thesis using y Fine False by (auto simp del: take_eq_Nil)
    qed (use r in simp_all)
  qed
  then show ?thesis unfolding mut_shuffle_def if_not_P [OF False]
    by (intro always_choose always_below_pos) (use b False in auto)
qed

lemma mut_delone_ok:
  assumes "buf_ok buf"
  shows "always (good (mutation_spec w MUT_DELONE buf)) (mut_delone w buf)"
proof (cases "length buf < 2")
  case True
  then show ?thesis by (auto simp: mut_delone_def)
next
  case False
  note b = buf_okD [OF assms]
  have "always (good (mutation_spec w MUT_DELONE buf)) (cut_block i 1 buf)" if "i < length buf" for i
    by (rule always_removed) (use that False in auto)
  then show ?thesis unfolding mut_delone_def if_not_P [OF False]
    by (intro always_below_pos) (use b in auto)
qed

lemma mut_insertone_ok:
  assumes "buf_ok buf"
  shows "always (good (mutation_spec w MUT_INSERTONE buf)) (mut_insertone w buf)"
proof (cases "length buf < 2")
  case True
  then show ?thesis by (auto simp: mut_insertone_def)
next
  case False
  note b = buf_okD [OF assms]
  have "always (good (mutation_spec w MUT_INSERTONE buf)) (insert_block i [item] buf)" if "i < length buf" for i item
    by (rule always_inserted) (use that False in auto)
  then show ?thesis unfolding mut_insertone_def if_not_P [OF False]
    by (intro always_below_pos always_fixed_byte) (use b in auto)
qed
subsection \<open>Numbers, tokens and other test cases\<close>

lemma takeWhile_stops:
  assumes "length (takeWhile P xs) < length xs"
  shows "\<not> P (xs ! length (takeWhile P xs))"
  by (rule nth_length_takeWhile [OF assms])

lemma find_number_digit:
  assumes "find_number off buf = Some i" "off < length buf"
  shows "i < length buf" "byte_isdigit (buf ! i)"
proof -
  let ?n = "length (takeWhile (\<lambda>b. \<not> byte_isdigit b) (drop off buf))"
  let ?m = "length (takeWhile (\<lambda>b. \<not> byte_isdigit b) (take off buf))"
  have le: "?n \<le> length buf - off" "?m \<le> off"
    using length_takeWhile_le [of _ "drop off buf"] length_takeWhile_le [of _ "take off buf"] assms(2) by (auto simp: min_def)
  have "i < length buf \<and> byte_isdigit (buf ! i)"
  proof (cases "off + ?n = length buf")
    case True
    then have i: "i = ?m" "?m \<noteq> off" using assms(1) by (auto simp: find_number_def Let_def split: if_splits)
    then have "?m < length (take off buf)" using le assms(2) by simp
    from takeWhile_stops [OF this] show ?thesis using i le assms(2) by simp
  next
    case False
    then have i: "i = off + ?n" using assms(1) by (simp add: find_number_def Let_def)
    have "?n < length (drop off buf)" using False le assms(2) by (simp only: length_drop)
    from takeWhile_stops [OF this] show ?thesis using i False le assms(2) by simp
  qed
  then show "i < length buf" "byte_isdigit (buf ! i)" by auto
qed

lemma always_change_number: "(\<And>v. always P (k v)) \<Longrightarrow> always P (into (change_number w v) k)"
  by (rule always_into [where Q = "\<lambda>_. True"]) (simp_all add: always_def)

lemma mut_asciinum_ok:
  assumes "buf_ok buf"
  shows "always (good (mutation_spec w MUT_ASCIINUM buf)) (mut_asciinum w buf)"
proof (cases "length buf < 4")
  case True
  then show ?thesis by (auto simp: mut_asciinum_def)
next
  case False
  note b = buf_okD [OF assms]
  show ?thesis unfolding mut_asciinum_def if_not_P [OF False]
  proof (rule always_below_pos)
    fix off assume off: "off < length buf"
    show "always (good (mutation_spec w MUT_ASCIINUM buf))
       (case find_number off buf of
          None \<Rightarrow> if length buf < 8 then fine buf else give Retry
        | Some off \<Rightarrow>
            let digits = takeWhile byte_isdigit (drop off buf);
                v = read_number digits;
                v = (if off \<noteq> 0 \<and> buf ! (off - 1) = 0x2d then - v else v)
            in into (change_number w v) (\<lambda>v.
                 let txt = number_text (sint v)
                 in if length txt = length digits then fill off txt buf
                    else mem (load off 0 buf) (\<lambda>hd.
                         mem (load (length buf - (off + length digits)) (off + length digits) buf) (\<lambda>tl.
                           fine (hd @ txt @ tl)))))"
    proof (cases "find_number off buf")
      case None
      then show ?thesis by auto
    next
      case (Some i)
      note i = find_number_digit [OF Some off]
      let ?ds = "takeWhile byte_isdigit (drop i buf)"
      let ?tl = "drop (i + length ?ds) buf"
      have tl: "?tl = dropWhile byte_isdigit (drop i buf)" by (metis add.commute drop_drop dropWhile_eq_drop)
      have ne: "?ds \<noteq> []" using i by (metis Cons_nth_drop_Suc list.discI takeWhile.simps(2))
      have ds: "buf = take i buf @ ?ds @ ?tl" unfolding tl takeWhile_dropWhile_id append_take_drop_id ..
      have "length buf = i + (length ?ds + length ?tl)" using arg_cong [OF ds, of length] i(1) by simp
      then have le: "i + length ?ds \<le> length buf" by linarith
      have out: "mutation_spec w MUT_ASCIINUM buf (take i buf @ number_text v @ ?tl)" for v
        unfolding mutation_spec.simps
        using ds ne by (metis set_takeWhileD list_all_iff tl hd_dropWhile)
      have "always (good (mutation_spec w MUT_ASCIINUM buf))
         (if length (number_text v) = length ?ds then fill i (number_text v) buf
          else mem (load i 0 buf) (\<lambda>hd. mem (load (length buf - (i + length ?ds)) (i + length ?ds) buf) (\<lambda>tl. fine (hd @ number_text v @ tl))))" for v
      proof (cases "length (number_text v) = length ?ds")
        case True
        show ?thesis unfolding if_P [OF True]
          by (rule always_fill) (use True le out [of v] in \<open>simp_all add: overwrite_def\<close>)
      next
        case False
        have l: "load i 0 buf = Some (take i buf)" "load (length buf - (i + length ?ds)) (i + length ?ds) buf = Some ?tl"
          using i le by (simp_all add: load_def)
        show ?thesis unfolding if_not_P [OF False] l mem_def option.case by (intro always_fine out)
      qed
      then show ?thesis unfolding Some option.case Let_def by (intro always_change_number)
    qed
  qed (use b in simp_all)
qed

lemma length_printed [simp]: "length (printed w x) = 20"
  by (simp add: printed_def Let_def)

lemma mut_insert_asciinum_ok:
  assumes "buf_ok buf"
  shows "always (good (mutation_spec w MUT_INSERTASCIINUM buf)) (mut_insert_asciinum w buf)"
proof -
  note b = buf_okD [OF assms]
  have *: "always (good (mutation_spec w MUT_INSERTASCIINUM buf))
      (if length buf < pos + (1 + k) then (if length buf < 8 then fine buf else give Retry)
       else (\<lambda>g. case rand_next g of (x, g) \<Rightarrow> mem (load (1 + k) 0 (printed w x)) (\<lambda>bs. fill pos bs buf) g))"
    if k: "k < 8" for k pos
  proof (cases "length buf < pos + (1 + k)")
    case True
    then show ?thesis by auto
  next
    case False
    have "always (good (mutation_spec w MUT_INSERTASCIINUM buf)) (mem (load (1 + k) 0 (printed w x)) (\<lambda>bs. fill pos bs buf))" for x
    proof (rule always_mem [OF load_in])
      show "always (good (mutation_spec w MUT_INSERTASCIINUM buf)) (fill pos (slice (1 + k) 0 (printed w x)) buf)"
      proof (rule always_written)
        show "pos + length (slice (1 + k) 0 (printed w x)) \<le> length buf" using False k by simp
        show "mutation_spec w MUT_INSERTASCIINUM buf out" if "written pos (slice (1 + k) 0 (printed w x)) buf out" for out
          using that k unfolding mutation_spec.simps
          by (intro disjI2 exI [where x = pos] exI [where x = "1 + k"] exI [where x = x]) simp
      qed
    qed (use k in simp)
    then show ?thesis unfolding if_not_P [OF False] by (rule always_next)
  qed
  show ?thesis unfolding mut_insert_asciinum_def Let_def
    by (intro always_below_pos *) (use b in simp_all)
qed

lemma always_token:
  assumes "length toks < 2 ^ 32" "\<And>t. t \<in> set toks \<Longrightarrow> always P (k t)" "toks \<noteq> []"
  shows "always P (into (below w (length toks)) (\<lambda>i. k (toks ! i)))"
  by (rule always_below_pos) (use assms in auto)

lemma mut_token_overwrite_ok:
  assumes "buf_ok buf" "length toks < 2 ^ 32"
  shows "always (good (\<lambda>out. \<exists>i. \<exists>t\<in>set toks. written i t buf out)) (mut_token_overwrite w toks buf)"
proof (cases "toks = []")
  case True
  then show ?thesis by (auto simp: mut_token_overwrite_def)
next
  case False
  note b = buf_okD [OF assms(1)]
  have *: "always (good (\<lambda>out. \<exists>i. \<exists>t\<in>set toks. written i t buf out))
      (if length buf < length t then give Retry else into (below w (length buf - length t + 1)) (\<lambda>i. fill i t buf))" if "t \<in> set toks" for t
  proof (cases "length buf < length t")
    case True
    then show ?thesis by auto
  next
    case False
    have "always (good (\<lambda>out. \<exists>i. \<exists>t\<in>set toks. written i t buf out)) (fill i t buf)" if "i < length buf - length t + 1" for i
      by (rule always_written) (use that False \<open>t \<in> set toks\<close> in auto)
    then show ?thesis unfolding if_not_P [OF False] by (intro always_below_pos) (use b in auto)
  qed
  show ?thesis unfolding mut_token_overwrite_def if_not_P [OF False] Let_def
    by (rule always_token [OF assms(2) * False])
qed

lemma mut_token_insert_ok:
  assumes "buf_ok buf" "length toks < 2 ^ 32"
  shows "always (good (\<lambda>out. \<exists>i. \<exists>t\<in>set toks. length buf + length t < MAX_FILE \<and> inserted i t buf out)) (mut_token_insert w toks buf)"
    (is "always (good ?P) _")
proof (cases "toks = []")
  case True
  then show ?thesis by (auto simp: mut_token_insert_def)
next
  case False
  note b = buf_okD [OF assms(1)]
  have *: "always (good ?P)
      (if MAX_FILE \<le> length buf + length t then give Retry else into (below w (length buf + 1)) (\<lambda>i. insert_block i t buf))" if "t \<in> set toks" for t
  proof (cases "MAX_FILE \<le> length buf + length t")
    case True
    then show ?thesis by auto
  next
    case False
    have m: "length buf + length t < MAX_FILE" using False by linarith
    have "always (good ?P) (insert_block i t buf)" if "i < length buf + 1" for i
      by (rule always_inserted) (use that m \<open>t \<in> set toks\<close> in auto)
    then show ?thesis unfolding if_not_P [OF False] by (intro always_below_pos) (use b in auto)
  qed
  show ?thesis unfolding mut_token_insert_def if_not_P [OF False] Let_def
    by (rule always_token [OF assms(2) * False])
qed

lemma always_partner:
  assumes "world_ok w" "1 < hw_ready w"
    and "\<And>i. i < length (hw_queue w) \<Longrightarrow> i \<noteq> hw_current w \<Longrightarrow> 4 \<le> length (hw_queue w ! i) \<Longrightarrow> length (hw_queue w ! i) \<le> MAX_FILE
       \<Longrightarrow> always P (k i)"
  shows "always P (into (splice_partner w) k)"
  unfolding splice_partner_def
  by (rule always_below_until) (use assms in \<open>auto simp: world_ok_def\<close>)

lemma mut_splice_overwrite_ok:
  assumes "buf_ok buf" "world_ok w"
  shows "always (good (mutation_spec w MUT_SPLICE_OVERWRITE buf)) (mut_splice_overwrite w buf)"
proof (cases "hw_ready w \<le> 1")
  case True
  then show ?thesis by (auto simp: mut_splice_overwrite_def)
next
  case False
  note b = buf_okD [OF assms(1)]
  have "always (good (mutation_spec w MUT_SPLICE_OVERWRITE buf)) (mem (load n a t) (\<lambda>bs. fill i bs buf))"
    if "t \<in> set (hw_queue w)" "4 \<le> length t" "1 \<le> n" "n < length t" "n \<le> length buf"
      "a < length t - n + 1" "i < length buf - n + 1" for t n a i
  proof (rule always_mem [OF load_in])
    show a: "a + n \<le> length t" using that by simp
    show "always (good (mutation_spec w MUT_SPLICE_OVERWRITE buf)) (fill i (slice n a t) buf)"
      by (rule always_written) (use that a in auto)
  qed
  note * = this
  have "always (good (mutation_spec w MUT_SPLICE_OVERWRITE buf))
      (into (choose_block_len w (length t - 1)) (\<lambda>copy_len.
             let copy_len = (if copy_len > length buf then length buf else copy_len)
             in into (below w (length t - copy_len + 1)) (\<lambda>copy_from.
                into (below w (length buf - copy_len + 1)) (\<lambda>copy_to.
                  mem (load copy_len copy_from t) (\<lambda>bs. fill copy_to bs buf)))))"
    if t: "t \<in> set (hw_queue w)" "4 \<le> length t" "length t \<le> MAX_FILE" for t
  proof (rule always_choose)
    fix n assume n: "1 \<le> n" "n \<le> length t - 1"
    let ?n = "if n > length buf then length buf else n"
    have nt: "length t + 1 < 2 ^ 32" using t(3) by simp
    have m: "1 \<le> ?n" "?n < length t" "?n \<le> length buf"
      using n t b by (cases "length buf < n"; simp only: if_True if_False; linarith)+
    show "always (good (mutation_spec w MUT_SPLICE_OVERWRITE buf))
       (let copy_len = ?n in into (below w (length t - copy_len + 1)) (\<lambda>copy_from.
          into (below w (length buf - copy_len + 1)) (\<lambda>copy_to. mem (load copy_len copy_from t) (\<lambda>bs. fill copy_to bs buf))))"
      unfolding Let_def by (intro always_below_pos * t m) (use b nt m in linarith)+
  qed (use t in auto)
  then show ?thesis unfolding mut_splice_overwrite_def if_not_P [OF False] Let_def
    by (intro always_partner [OF assms(2)]) (use False in auto)
qed

lemma mut_splice_insert_ok:
  assumes "buf_ok buf" "world_ok w"
  shows "always (good (mutation_spec w MUT_SPLICE_INSERT buf)) (mut_splice_insert w buf)"
proof (cases "hw_ready w \<le> 1 \<or> length buf + HAVOC_BLK_XL \<ge> MAX_FILE")
  case True
  then show ?thesis by (auto simp: mut_splice_insert_def)
next
  case False
  note b = buf_okD [OF assms(1)]
  have "always (good (mutation_spec w MUT_SPLICE_INSERT buf)) (mem (load n a t) (\<lambda>bs. insert_block i bs buf))"
    if "t \<in> set (hw_queue w)" "4 \<le> length t" "1 \<le> n" "n \<le> length t" "n \<le> HAVOC_BLK_XL"
      "a < length t - n + 1" "i < length buf + 1" for t n a i
  proof (rule always_mem [OF load_in])
    show a: "a + n \<le> length t" using that by simp
    have m: "length buf + n < MAX_FILE" using that(5) False by linarith
    show "always (good (mutation_spec w MUT_SPLICE_INSERT buf)) (insert_block i (slice n a t) buf)"
      by (rule always_inserted) (use that a m in auto)
  qed
  note * = this
  have "always (good (mutation_spec w MUT_SPLICE_INSERT buf))
      (into (choose_block_len w (length t)) (\<lambda>clone_len.
           into (below w (length t - clone_len + 1)) (\<lambda>clone_from.
           into (below w (length buf + 1)) (\<lambda>clone_to.
             mem (load clone_len clone_from t) (\<lambda>bs. insert_block clone_to bs buf)))))"
    if t: "t \<in> set (hw_queue w)" "4 \<le> length t" "length t \<le> MAX_FILE" for t
  proof -
    have nt: "length t + 1 < 2 ^ 32" using t(3) by simp
    show ?thesis by (intro always_choose always_below_pos * t) (use b t nt in linarith)+
  qed
  then show ?thesis unfolding mut_splice_insert_def if_not_P [OF False] Let_def
    by (intro always_partner [OF assms(2)]) (use False in auto)
qed
section \<open>All mutations\<close>

lemma interesting_sizes:
  "interesting_8 \<noteq> []" "length interesting_8 < 2 ^ 32" "interesting_16 \<noteq> []" "length interesting_16 < 2 ^ 32"
  "interesting_32 \<noteq> []" "length interesting_32 < 2 ^ 32"
  by (simp_all add: interesting_8_def interesting_16_def interesting_32_def)

lemma always_spec: "always (good Q) m \<Longrightarrow> (\<And>out. Q out \<Longrightarrow> P out) \<Longrightarrow> always (good P) m"
proof (erule always_mono)
  show "good P r" if "\<And>out. Q out \<Longrightarrow> P out" "good Q r" for r using that by (cases r) simp_all
qed

lemma interesting_mutation_ok:
  assumes "buf_ok buf"
  shows "always (good (mutation_spec w MUT_INTERESTING16 buf)) (mut_step w MUT_INTERESTING16 buf)"
    "always (good (mutation_spec w MUT_INTERESTING16BE buf)) (mut_step w MUT_INTERESTING16BE buf)"
    "always (good (mutation_spec w MUT_INTERESTING32 buf)) (mut_step w MUT_INTERESTING32 buf)"
    "always (good (mutation_spec w MUT_INTERESTING32BE buf)) (mut_step w MUT_INTERESTING32BE buf)"
  unfolding mut_step.simps
  by (rule always_spec [OF mut_interesting_changed [OF assms]]; auto simp: interesting_sizes [simplified] split: if_splits)+

lemma arith_mutation_ok:
  assumes "buf_ok buf"
  shows "always (good (mutation_spec w MUT_ARITH16_SUB buf)) (mut_step w MUT_ARITH16_SUB buf)"
    "always (good (mutation_spec w MUT_ARITH16BE_SUB buf)) (mut_step w MUT_ARITH16BE_SUB buf)"
    "always (good (mutation_spec w MUT_ARITH16 buf)) (mut_step w MUT_ARITH16 buf)"
    "always (good (mutation_spec w MUT_ARITH16BE buf)) (mut_step w MUT_ARITH16BE buf)"
    "always (good (mutation_spec w MUT_ARITH32_SUB buf)) (mut_step w MUT_ARITH32_SUB buf)"
    "always (good (mutation_spec w MUT_ARITH32BE_SUB buf)) (mut_step w MUT_ARITH32BE_SUB buf)"
    "always (good (mutation_spec w MUT_ARITH32 buf)) (mut_step w MUT_ARITH32 buf)"
    "always (good (mutation_spec w MUT_ARITH32BE buf)) (mut_step w MUT_ARITH32BE buf)"
  unfolding mut_step.simps
  by (rule always_spec [OF mut_arith_changed [OF assms]]; auto simp: id_def split: if_splits)+

lemma byte_mutation_ok:
  assumes "buf_ok buf"
  shows "always (good (mutation_spec w MUT_FLIPBIT buf)) (mut_step w MUT_FLIPBIT buf)"
    "always (good (mutation_spec w MUT_INTERESTING8 buf)) (mut_step w MUT_INTERESTING8 buf)"
    "always (good (mutation_spec w MUT_ARITH8_SUB buf)) (mut_step w MUT_ARITH8_SUB buf)"
    "always (good (mutation_spec w MUT_ARITH8 buf)) (mut_step w MUT_ARITH8 buf)"
    "always (good (mutation_spec w MUT_BYTEADD buf)) (mut_step w MUT_BYTEADD buf)"
    "always (good (mutation_spec w MUT_BYTESUB buf)) (mut_step w MUT_BYTESUB buf)"
    "always (good (mutation_spec w MUT_FLIP8 buf)) (mut_step w MUT_FLIP8 buf)"
proof -
  show "always (good (mutation_spec w MUT_FLIPBIT buf)) (mut_step w MUT_FLIPBIT buf)"
    unfolding mut_step.simps
  proof (rule always_below_pos)
    fix k :: nat assume k: "k < 8"
    show "always (good (mutation_spec w MUT_FLIPBIT buf)) (mut_byte w (\<lambda>b. b XOR push_bit k 1) buf)"
      by (rule always_spec [OF mut_byte_changed [OF assms, where fs = "(\<lambda>k b :: u8. b XOR push_bit k 1) ` {..<8}"]]) (use k in auto)
  qed simp_all
  show "always (good (mutation_spec w MUT_INTERESTING8 buf)) (mut_step w MUT_INTERESTING8 buf)"
    unfolding mut_step.simps
  proof (rule always_below_pos)
    fix k assume k: "k < length interesting_8"
    show "always (good (mutation_spec w MUT_INTERESTING8 buf)) (mut_byte w (\<lambda>_. interesting_8 ! k) buf)"
      by (rule always_spec [OF mut_byte_changed [OF assms, where fs = "(\<lambda>v _. v) ` set interesting_8"]]) (use k in auto)
  qed (use interesting_sizes in auto)
  show "always (good (mutation_spec w MUT_ARITH8_SUB buf)) (mut_step w MUT_ARITH8_SUB buf)"
    "always (good (mutation_spec w MUT_ARITH8 buf)) (mut_step w MUT_ARITH8 buf)"
    unfolding mut_step.simps
    by (rule always_below_pos, simp, simp, rule always_spec [OF mut_byte_changed [OF assms]], erule moved_byte, simp only: mutation_spec.simps)+
  show "always (good (mutation_spec w MUT_BYTEADD buf)) (mut_step w MUT_BYTEADD buf)"
    unfolding mut_step.simps by (rule always_spec [OF mut_byte_changed [OF assms, where fs = "{\<lambda>b. b + 1}"]]) simp_all
  show "always (good (mutation_spec w MUT_BYTESUB buf)) (mut_step w MUT_BYTESUB buf)"
    unfolding mut_step.simps by (rule always_spec [OF mut_byte_changed [OF assms, where fs = "{\<lambda>b. b - 1}"]]) simp_all
  have ff: "(0xff :: u8) = - 1" by simp
  have "(\<lambda>b :: u8. b XOR 0xff) = NOT" unfolding ff by (rule ext) (rule bit.xor_one_right)
  then show "always (good (mutation_spec w MUT_FLIP8 buf)) (mut_step w MUT_FLIP8 buf)"
    unfolding mut_step.simps by (intro always_spec [OF mut_byte_changed [OF assms, where fs = "{NOT}"]]) simp_all
qed

lemma rand8_mutation_ok:
  assumes "buf_ok buf"
  shows "always (good (mutation_spec w MUT_RAND8 buf)) (mut_step w MUT_RAND8 buf)"
  unfolding mut_step.simps
proof (intro always_below_pos)
  note b = buf_okD [OF assms]
  show "0 < length buf" "length buf < 2 ^ 32" using b by auto
  fix pos item assume p: "pos < length buf" "item < (255 :: nat)"
  have "unat (of_nat (1 + item) :: u8) = 1 + item"
    using p(2) by (simp add: unsigned_of_nat take_bit_nat_eq_self del: of_nat_Suc of_nat_add)
  then have "(of_nat (1 + item) :: u8) \<noteq> 0" by (metis Suc_eq_plus1_left nat.distinct(1) unsigned_0)
  then show "always (good (mutation_spec w MUT_RAND8 buf)) (edit pos (\<lambda>b :: u8. b XOR of_nat (1 + item)) buf)"
    by (intro always_spec [OF edit_changed [where fs = "{\<lambda>b. b XOR v | v :: u8. v \<noteq> 0}"]])
       (use p in \<open>auto simp del: of_nat_Suc of_nat_add\<close>)
qed simp_all

lemma mut_step_ok:
  assumes "world_ok w" "buf_ok buf"
  shows "always (good (mutation_spec w m buf)) (mut_step w m buf)"
proof -
  have t: "length (hw_extras w) < 2 ^ 32" "length (hw_autos w) < 2 ^ 32" using assms(1) by (simp_all add: world_ok_def)
  note ok = interesting_mutation_ok [OF assms(2)] arith_mutation_ok [OF assms(2)] byte_mutation_ok [OF assms(2)]
    rand8_mutation_ok [OF assms(2)]
  note ok' = mut_clone_copy_ok [OF assms(2)] mut_clone_fixed_ok [OF assms(2)] mut_overwrite_copy_ok [OF assms(2)]
    mut_overwrite_fixed_ok [OF assms(2)] mut_switch_ok [OF assms(2)] mut_del_ok [OF assms(2)]
    mut_shuffle_ok [OF assms(2)] mut_delone_ok [OF assms(2)] mut_insertone_ok [OF assms(2)]
    mut_asciinum_ok [OF assms(2)] mut_insert_asciinum_ok [OF assms(2)]
    mut_splice_overwrite_ok [OF assms(2,1)] mut_splice_insert_ok [OF assms(2,1)]
  have tok: "always (good (mutation_spec w MUT_EXTRA_OVERWRITE buf)) (mut_token_overwrite w (hw_extras w) buf)"
    "always (good (mutation_spec w MUT_AUTO_EXTRA_OVERWRITE buf)) (mut_token_overwrite w (hw_autos w) buf)"
    "always (good (mutation_spec w MUT_EXTRA_INSERT buf)) (mut_token_insert w (hw_extras w) buf)"
    "always (good (mutation_spec w MUT_AUTO_EXTRA_INSERT buf)) (mut_token_insert w (hw_autos w) buf)"
    by (rule always_spec [OF mut_token_overwrite_ok [OF assms(2) t(1)]], simp only: mutation_spec.simps)
       (rule always_spec [OF mut_token_overwrite_ok [OF assms(2) t(2)]], simp only: mutation_spec.simps,
        rule always_spec [OF mut_token_insert_ok [OF assms(2) t(1)]], simp only: mutation_spec.simps,
        rule always_spec [OF mut_token_insert_ok [OF assms(2) t(2)]], simp only: mutation_spec.simps)
  show ?thesis
    by (cases m; (simp only: ok; fail)?; simp only: mut_step.simps ok' tok)
qed

section \<open>The length of the buffer\<close>

lemma written_length: "written i bs buf out \<Longrightarrow> length out = length buf"
  by (simp add: written_def)

lemma inserted_length: "inserted i bs buf out \<Longrightarrow> length out = length buf + length bs"
  by (simp add: inserted_def)

lemma removed_length: "removed i n buf out \<Longrightarrow> length out = length buf - n \<and> 0 < length out \<and> length out \<le> length buf"
  by (auto simp: removed_def)

lemma word_changed_length: "word_changed fs buf out \<Longrightarrow> length out = length buf"
  by (auto simp: word_changed_def Let_def)

lemma number_text_length: "0 < length (number_text v)" "length (number_text v) \<le> 19"
  by (simp_all add: number_text_def dec_int_def)

lemma mutation_spec_length:
  assumes "mutation_spec w m buf out" "buf \<noteq> []"
  shows "out \<noteq> [] \<and> length out \<le> max MAX_FILE (length buf + (if m = MUT_INSERTONE then 1 else if m = MUT_ASCIINUM then 18 else 0))"
proof -
  have *: "out \<noteq> [] \<and> length out \<le> max MAX_FILE (length buf + k)" if "length out = length buf" for k
    using that assms(2) by auto
  show ?thesis
  proof (cases m)
    case MUT_SWITCH
    have "length out = length buf"
      if "buf = a @ x @ b @ y @ c" "out = a @ y @ b @ x @ c" for a x b y c using that by simp
    then have "length out = length buf"
      using assms(1) unfolding MUT_SWITCH mutation_spec.simps by (metis (no_types))
    then show ?thesis by (rule *)
  next
    case MUT_CLONE_COPY
    then show ?thesis using assms * [of 0] by (auto split: if_splits dest!: inserted_length)
  next
    case MUT_CLONE_FIXED
    then show ?thesis using assms * [of 0] by (auto split: if_splits dest!: inserted_length)
  next
    case MUT_DEL
    then show ?thesis using assms by (auto split: if_splits dest!: removed_length)
  next
    case MUT_DELONE
    then show ?thesis using assms by (auto split: if_splits dest!: removed_length)
  next
    case MUT_INSERTONE
    then show ?thesis using assms by (auto split: if_splits dest!: inserted_length)
  next
    case MUT_SHUFFLE
    then have "length out = length buf" using assms(1) by (auto split: if_splits simp: deranged_def)
    then show ?thesis by (rule *)
  next
    case MUT_ASCIINUM
    have num: "0 < length out \<and> length out \<le> length buf + 18"
      if "buf = a @ ds @ b" "ds \<noteq> []" "out = a @ number_text v @ b" for a ds b v
    proof -
      have "0 < length ds" using that(2) by simp
      then show ?thesis unfolding that(1,3) length_append using number_text_length [of v] by linarith
    qed
    have "out = buf \<or> (\<exists>a ds b v. buf = a @ ds @ b \<and> ds \<noteq> [] \<and> out = a @ number_text v @ b)"
      using assms(1) unfolding MUT_ASCIINUM mutation_spec.simps by blast
    then have "0 < length out \<and> length out \<le> length buf + 18"
    proof (elim disjE exE conjE)
      assume "out = buf"
      then show ?thesis using assms(2) by simp
    qed (rule num)
    then show ?thesis unfolding MUT_ASCIINUM by (simp add: le_max_iff_disj)
  next
    case MUT_EXTRA_INSERT
    then show ?thesis using assms by (auto dest!: inserted_length)
  next
    case MUT_AUTO_EXTRA_INSERT
    then show ?thesis using assms by (auto dest!: inserted_length)
  next
    case MUT_SPLICE_INSERT
    then show ?thesis using assms by (auto dest!: inserted_length)
  qed (insert assms(1); rule *; auto split: if_splits dest: written_length word_changed_length)+
qed

end
