(* ===== verification/Havoc_Rounds.thy ===== *)
theory Havoc_Rounds
  imports Havoc_Moves
begin

text \<open>
  The havoc stage as a whole: what a stack of mutations leaves, how many inputs the stage runs, that it
  ends, and what a splice is.
\<close>

section \<open>Splices\<close>

text \<open>The places of the first and the last difference, in one relation.\<close>

definition differ_between :: "bytes \<Rightarrow> bytes \<Rightarrow> nat \<Rightarrow> nat \<Rightarrow> nat \<Rightarrow> bool" where
  "differ_between a b n f l \<longleftrightarrow>
     f \<le> l \<and> l < n \<and> a ! f \<noteq> b ! f \<and> a ! l \<noteq> b ! l \<and> (\<forall>k<n. a ! k \<noteq> b ! k \<longrightarrow> f \<le> k \<and> k \<le> l)"

lemma locate_diffs_Suc:
  "locate_diffs a b (Suc n) =
     (case locate_diffs a b n of (f, l) \<Rightarrow> if a ! n \<noteq> b ! n then (if f = - 1 then int n else f, int n) else (f, l))"
  by (simp add: locate_diffs_def split: prod.splits)

lemma locate_diffs_cases:
  "locate_diffs a b n = (- 1, - 1) \<and> (\<forall>k<n. a ! k = b ! k)
   \<or> (\<exists>f l. locate_diffs a b n = (int f, int l) \<and> differ_between a b n f l)"
proof (induction n)
  case 0
  then show ?case by (simp add: locate_diffs_def)
next
  case (Suc n)
  then show ?case
  proof (elim disjE exE conjE)
    assume *: "locate_diffs a b n = (- 1, - 1)" "\<forall>k<n. a ! k = b ! k"
    show ?thesis
    proof (cases "a ! n = b ! n")
      case True
      then show ?thesis using * by (auto simp: locate_diffs_Suc less_Suc_eq)
    next
      case False
      then have "locate_diffs a b (Suc n) = (int n, int n)" "differ_between a b (Suc n) n n"
        using * by (auto simp: locate_diffs_Suc differ_between_def less_Suc_eq)
      then show ?thesis by blast
    qed
  next
    fix f l
    assume *: "locate_diffs a b n = (int f, int l)" "differ_between a b n f l"
    show ?thesis
    proof (cases "a ! n = b ! n")
      case True
      then have "locate_diffs a b (Suc n) = (int f, int l)" "differ_between a b (Suc n) f l"
        using * by (auto simp: locate_diffs_Suc differ_between_def less_Suc_eq)
      then show ?thesis by blast
    next
      case False
      then have "locate_diffs a b (Suc n) = (int f, int n)" "differ_between a b (Suc n) f n"
        using * by (auto simp: locate_diffs_Suc differ_between_def less_Suc_eq)
      then show ?thesis by blast
    qed
  qed
qed

text \<open>A splice: the head of the test case and the tail of a partner, cut between the first difference
  and the last one.\<close>

definition spliced :: "havoc_world \<Rightarrow> bytes \<Rightarrow> bytes \<Rightarrow> bool" where
  "spliced w orig out \<longleftrightarrow>
     (\<exists>i f l s. i < length (hw_queue w) \<and> i \<noteq> hw_current w \<and> 4 \<le> length (hw_queue w ! i)
        \<and> differ_between orig (hw_queue w ! i) (min (length orig) (length (hw_queue w ! i))) f l
        \<and> f \<le> s \<and> s < l \<and> out = splice_at s orig (hw_queue w ! i))"

lemma splice_at_laws:
  assumes "differ_between a b (min (length a) (length b)) f l" "f \<le> s" "s < l"
  shows "length (splice_at s a b) = length b" "splice_at s a b \<noteq> a" "splice_at s a b = b \<longleftrightarrow> s = f"
proof -
  have d: "f \<le> l" "l < length a" "l < length b" "a ! f \<noteq> b ! f" "a ! l \<noteq> b ! l"
      "\<And>k. k < min (length a) (length b) \<Longrightarrow> a ! k \<noteq> b ! k \<Longrightarrow> f \<le> k"
    using assms(1) by (auto simp: differ_between_def)
  have s: "s < length a" "s < length b" using d assms(3) by auto
  show len: "length (splice_at s a b) = length b" using s by (simp add: splice_at_def)
  have "splice_at s a b ! l = b ! l" using s assms(3) d by (simp add: splice_at_def nth_append)
  then show "splice_at s a b \<noteq> a" using d(5) by auto
  show "splice_at s a b = b \<longleftrightarrow> s = f"
  proof
    assume eq: "splice_at s a b = b"
    show "s = f"
    proof (rule ccontr)
      assume "s \<noteq> f"
      then have "splice_at s a b ! f = a ! f" using assms(2) s by (simp add: splice_at_def nth_append)
      then show False using eq d(4) by simp
    qed
  next
    assume sf: "s = f"
    have "a ! k = b ! k" if "k < s" for k
      using d(6) [of k] that s sf by (metis leD less_trans min_less_iff_conj)
    then have "take s a = take s b" using s by (intro nth_equalityI) simp_all
    then show "splice_at s a b = b" by (simp add: splice_at_def)
  qed
qed

lemma find_splice_ok:
  assumes "world_ok w" "1 < hw_ready w" "length orig < 2 ^ 32"
  shows "always (\<lambda>r. case r of None \<Rightarrow> True | Some (out, left) \<Rightarrow> left < k \<and> spliced w orig out) (find_splice w orig k)"
    (is "always ?P _")
proof (induction k)
  case 0
  then show ?case by (auto simp: always_give)
next
  case (Suc k)
  let ?P = "\<lambda>k r. case r of None \<Rightarrow> True | Some (out, left) \<Rightarrow> left < k \<and> spliced w orig out"
  have IH: "always (?P (Suc k)) (find_splice w orig k)"
    by (rule always_mono [OF Suc.IH]) (auto split: option.splits)
  show ?case unfolding find_splice.simps Let_def
  proof (rule always_partner [OF assms(1,2)])
    fix i
    let ?t = "hw_queue w ! i" and ?n = "min (length orig) (length (hw_queue w ! i))"
    assume i: "i < length (hw_queue w)" "i \<noteq> hw_current w" "4 \<le> length ?t"
    obtain f l where fl: "locate_diffs orig ?t ?n = (f, l)" by force
    have "always (?P (Suc k)) (if f < 0 \<or> l < 2 \<or> f = l then find_splice w orig k
        else into (below w (nat (l - f))) (\<lambda>d. give (Some (splice_at (nat f + d) orig ?t, k))))"
    proof (cases "f < 0 \<or> l < 2 \<or> f = l")
      case True
      show ?thesis unfolding if_P [OF True] by (rule IH)
    next
      case False
      then obtain f' l' where *: "f = int f'" "l = int l'" "differ_between orig ?t ?n f' l'"
        using locate_diffs_cases [of orig ?t ?n] fl by auto
      have lt: "f' < l'" "l' < length orig" using *(3) False *(1,2) by (auto simp: differ_between_def)
      show ?thesis unfolding if_not_P [OF False]
      proof (rule always_below_pos)
        show "0 < nat (l - f)" "nat (l - f) < 2 ^ 32" using lt * assms(3) by auto
        fix d assume "d < nat (l - f)"
        then have "f' \<le> f' + d" "f' + d < l'" "nat f + d = f' + d" using *(1,2) by auto
        then show "always (?P (Suc k)) (give (Some (splice_at (nat f + d) orig ?t, k)))"
          using i *(3) by (intro always_give) (simp only: option.case prod.case spliced_def, blast)
      qed
    qed
    then show "always (?P (Suc k)) (case locate_diffs orig ?t ?n of (f_diff, l_diff) \<Rightarrow>
         if f_diff < 0 \<or> l_diff < 2 \<or> f_diff = l_diff then find_splice w orig k
         else into (below w (nat (l_diff - f_diff))) (\<lambda>d. give (Some (splice_at (nat f_diff + d) orig ?t, k))))"
      unfolding fl by simp
  qed
qed
section \<open>A stack of mutations\<close>

definition sized :: "nat \<Rightarrow> bytes \<Rightarrow> bool" where
  "sized n out \<longleftrightarrow> out \<noteq> [] \<and> length out \<le> n"

lemma havoc_pick_result:
  assumes "havoc_pick w muts buf g = Some (r, g')" "world_ok w" "buf_ok buf" "muts \<noteq> []" "length muts < 2 ^ 32"
  shows "\<exists>out. r = Some out \<and> (\<exists>m\<in>set muts. mutation_spec w m buf out)"
proof -
  let ?Q = "\<lambda>w muts buf r. world_ok w \<longrightarrow> buf_ok buf \<longrightarrow> muts \<noteq> [] \<longrightarrow> length muts < 2 ^ 32
    \<longrightarrow> (\<exists>out. fst r = Some out \<and> (\<exists>m\<in>set muts. mutation_spec w m buf out))"
  have "?Q w muts buf x" if "havoc_pick w muts buf g = Some x" for x
  proof (rule havoc_pick.raw_induct [where P = "\<lambda>w muts buf g r. ?Q w muts buf r", OF _ that])
    fix pick :: "havoc_world \<Rightarrow> mutation list \<Rightarrow> bytes \<Rightarrow> rand_st \<Rightarrow> (bytes option \<times> rand_st) option"
    fix w muts buf g x
    assume IH: "\<And>w muts buf g x. pick w muts buf g = Some x \<Longrightarrow> ?Q w muts buf x"
      and eq: "(case below w (length muts) g of None \<Rightarrow> None
        | Some (r, g) \<Rightarrow> (case mut_step w (muts ! r) buf g of None \<Rightarrow> None
          | Some (Fine buf, g) \<Rightarrow> Some (Some buf, g)
          | Some (Fault, g) \<Rightarrow> Some (None, g)
          | Some (Retry, g) \<Rightarrow> pick w muts buf g)) = Some x"
    show "?Q w muts buf x"
    proof (intro impI)
      assume w: "world_ok w" and b: "buf_ok buf" and m: "muts \<noteq> []" "length muts < (2 :: nat) ^ 32"
      from eq obtain r h where r: "below w (length muts) g = Some (r, h)" by (auto split: option.splits)
      have rl: "r < length muts" using alwaysD [OF always_below [OF m(2)] r] m(1) by (simp add: max_def split: if_splits)
      from eq r obtain s h' where s: "mut_step w (muts ! r) buf h = Some (s, h')" by (auto split: option.splits)
      have ok: "good (mutation_spec w (muts ! r) buf) s" by (rule alwaysD [OF mut_step_ok [OF w b] s])
      show "\<exists>out. fst x = Some out \<and> (\<exists>m\<in>set muts. mutation_spec w m buf out)"
      proof (cases s)
        case (Fine out)
        then have "x = (Some out, h')" using eq r s by simp
        then show ?thesis using ok Fine rl by auto
      next
        case Retry
        then have "pick w muts buf h' = Some x" using eq r s by simp
        from IH [OF this] show ?thesis using w b m by blast
      next
        case Fault
        then show ?thesis using ok by simp
      qed
    qed
  qed
  from this [OF assms(1)] show ?thesis using assms by simp
qed

lemma havoc_pick_sized:
  assumes "havoc_pick w muts buf g = Some (r, g')" "world_ok w" "buf_ok buf" "muts \<noteq> []" "length muts < 2 ^ 32"
  shows "\<exists>out. r = Some out \<and> sized (max MAX_FILE (length buf) + 18) out"
proof -
  obtain out m where o: "r = Some out" "mutation_spec w m buf out" using havoc_pick_result [OF assms] by blast
  have "buf \<noteq> []" using assms(3) by (simp add: buf_ok_def)
  from mutation_spec_length [OF o(2) this]
  have "sized (max MAX_FILE (length buf) + 18) out" by (auto simp: sized_def max_def split: if_splits)
  then show ?thesis using o(1) by blast
qed

text \<open>What the surroundings of the stage guarantee. A stacked custom mutator is given \<open>MAX_FILE\<close> as the
  largest size it may return; a result of length zero is ignored by the code.\<close>

definition env_ok :: "havoc_env \<Rightarrow> bool" where
  "env_ok e \<longleftrightarrow>
     (\<forall>runs. world_ok (he_world e runs))
     \<and> (\<forall>buf. buf \<noteq> [] \<longrightarrow> always (sized (max MAX_FILE (length buf))) (he_custom e buf))
     \<and> he_muts e \<noteq> [] \<and> length (he_muts e) < 2 ^ 32"

lemma havoc_stack_ok:
  assumes "env_ok e" "buf \<noteq> []" "max MAX_FILE (length buf) + 18 * n + MAX_FILE < 2 ^ 32"
  shows "always (\<lambda>r. \<exists>out. r = Some out \<and> sized (max MAX_FILE (length buf) + 18 * n) out) (havoc_stack e (he_world e runs) n buf)"
  using assms(2,3)
proof (induction n arbitrary: buf)
  case 0
  then show ?case by (auto simp: sized_def intro!: always_give)
next
  case (Suc n)
  have w: "world_ok (he_world e runs)" "he_muts e \<noteq> []" "length (he_muts e) < 2 ^ 32" using assms(1) by (simp_all add: env_ok_def)
  have c: "always (sized (max MAX_FILE (length buf))) (he_custom e buf)" using assms(1) Suc.prems(1) by (simp add: env_ok_def)
  show ?case unfolding havoc_stack.simps
  proof (rule always_into [OF c])
    fix buf1 assume b1: "sized (max MAX_FILE (length buf)) buf1"
    then have b1ok: "buf_ok buf1" using Suc.prems(2) by (auto simp: sized_def buf_ok_def)
    let ?Q = "\<lambda>r. \<exists>out. r = Some out \<and> sized (max MAX_FILE (length buf) + 18) out"
    show "always (\<lambda>r. \<exists>out. r = Some out \<and> sized (max MAX_FILE (length buf) + 18 * Suc n) out)
      (into (havoc_pick (he_world e runs) (he_muts e) buf1)
        (\<lambda>r. case r of None \<Rightarrow> give None | Some buf \<Rightarrow> havoc_stack e (he_world e runs) n buf))"
    proof (rule always_into [where Q = ?Q])
      show "always ?Q (havoc_pick (he_world e runs) (he_muts e) buf1)"
        unfolding always_def using havoc_pick_sized [OF _ w(1) b1ok w(2,3)] b1
        by (fastforce simp: sized_def)
    next
      fix r assume "?Q r"
      then obtain out where o: "r = Some out" "out \<noteq> []" "length out \<le> max MAX_FILE (length buf) + 18" by (auto simp: sized_def)
      have le: "max MAX_FILE (length out) + 18 * n \<le> max MAX_FILE (length buf) + 18 * Suc n" using o(3) by simp
      have "always (\<lambda>r. \<exists>u. r = Some u \<and> sized (max MAX_FILE (length out) + 18 * n) u) (havoc_stack e (he_world e runs) n out)"
        by (rule Suc.IH [OF o(2)]) (use le Suc.prems(2) in linarith)
      then have "always (\<lambda>r. \<exists>u. r = Some u \<and> sized (max MAX_FILE (length buf) + 18 * Suc n) u) (havoc_stack e (he_world e runs) n out)"
        by (rule always_mono) (use le in \<open>auto simp: sized_def\<close>)
      then show "always (\<lambda>r. \<exists>out. r = Some out \<and> sized (max MAX_FILE (length buf) + 18 * Suc n) out)
          (case r of None \<Rightarrow> give None | Some buf \<Rightarrow> havoc_stack e (he_world e runs) n buf)"
        using o(1) by simp
    qed
  qed
qed

section \<open>The rounds\<close>

definition one_round :: "havoc_env \<Rightarrow> bytes \<Rightarrow> nat \<Rightarrow> bytes list \<Rightarrow> bytes option hv" where
  "one_round e in_buf stack_max runs =
     (let w = he_world e runs in into (below w stack_max) (\<lambda>k. havoc_stack e w (1 + k) in_buf))"

lemma one_round_ok:
  assumes "env_ok e" "in_buf \<noteq> []" "0 < stack_max" "max MAX_FILE (length in_buf) + 18 * stack_max + MAX_FILE < 2 ^ 32"
  shows "always (\<lambda>r. \<exists>out. r = Some out \<and> sized (max MAX_FILE (length in_buf) + 18 * stack_max) out) (one_round e in_buf stack_max runs)"
  unfolding one_round_def Let_def
proof (rule always_below_pos)
  show "0 < stack_max" "stack_max < 2 ^ 32" using assms(3,4) by linarith+
  fix k assume k: "k < stack_max"
  have le: "max MAX_FILE (length in_buf) + 18 * (1 + k) \<le> max MAX_FILE (length in_buf) + 18 * stack_max" using k by simp
  show "always (\<lambda>r. \<exists>out. r = Some out \<and> sized (max MAX_FILE (length in_buf) + 18 * stack_max) out)
      (havoc_stack e (he_world e runs) (1 + k) in_buf)"
    by (rule always_mono [OF havoc_stack_ok [OF assms(1,2)]]) (use le assms(4) in \<open>auto simp: sized_def\<close>)
qed

text \<open>The next round, or the end.\<close>

lemma havoc_rounds_step:
  "havoc_rounds e in_buf stack_max st =
     (if \<not> hs_cur st < hs_max st then Some (Rounds_done st)
      else (case one_round e in_buf stack_max (hs_runs st) (hs_rng st) of
              None \<Rightarrow> None
            | Some (None, g) \<Rightarrow> Some Faulted
            | Some (Some buf, g) \<Rightarrow>
                let st = st\<lparr>hs_rng := g, hs_runs := hs_runs st @ [buf]\<rparr>
                in if he_abort e (hs_runs st) then Some (Aborted st)
                   else havoc_rounds e in_buf stack_max ((havoc_extend e st)\<lparr>hs_cur := hs_cur st + 1\<rparr>)))"
  by (subst havoc_rounds.simps) (simp add: one_round_def Let_def)
section \<open>The inputs that are run\<close>

definition runs_sized :: "nat \<Rightarrow> havoc_st \<Rightarrow> havoc_end \<Rightarrow> bool" where
  "runs_sized n st r \<longleftrightarrow>
     (\<exists>runs st'. (r = Rounds_done st' \<or> r = Aborted st') \<and> hs_runs st' = hs_runs st @ runs \<and> (\<forall>b\<in>set runs. sized n b))"

lemma runs_sized_mono: "runs_sized n st r \<Longrightarrow> n \<le> m \<Longrightarrow> runs_sized m st r"
  unfolding runs_sized_def by (elim exE conjE) (intro exI conjI; (assumption)?; auto simp: sized_def)

lemma runs_sized_end:
  "hs_runs st' = hs_runs st \<Longrightarrow> runs_sized n st (Rounds_done st')"
  by (simp add: runs_sized_def)

lemma runs_sized_trans:
  assumes "runs_sized n st (Rounds_done st')" "runs_sized n st'' r" "hs_runs st'' = hs_runs st'"
  shows "runs_sized n st r"
  using assms unfolding runs_sized_def by fastforce

lemma hs_runs_extend [simp]: "hs_runs (havoc_extend e st) = hs_runs st"
  "hs_rng (havoc_extend e st) = hs_rng st" "hs_cur (havoc_extend e st) = hs_cur st"
  by (simp_all add: havoc_extend_def Let_def)

lemma havoc_rounds_sized:
  assumes "havoc_rounds e in_buf stack_max st = Some r"
    and "env_ok e" "in_buf \<noteq> []" "0 < stack_max" "max MAX_FILE (length in_buf) + 18 * stack_max + MAX_FILE < 2 ^ 32"
  shows "runs_sized (max MAX_FILE (length in_buf) + 18 * stack_max) st r"
proof -
  let ?n = "\<lambda>in_buf stack_max. max MAX_FILE (length in_buf) + 18 * stack_max"
  let ?Q = "\<lambda>e in_buf stack_max st r. env_ok e \<longrightarrow> in_buf \<noteq> [] \<longrightarrow> 0 < stack_max
    \<longrightarrow> ?n in_buf stack_max + MAX_FILE < 2 ^ 32 \<longrightarrow> runs_sized (?n in_buf stack_max) st r"
  have "?Q e in_buf stack_max st r"
  proof (rule havoc_rounds.raw_induct [where P = ?Q, OF _ assms(1)])
    fix rounds :: "havoc_env \<Rightarrow> bytes \<Rightarrow> nat \<Rightarrow> havoc_st \<Rightarrow> havoc_end option"
    fix e in_buf stack_max st r
    assume IH: "\<And>e in_buf stack_max st r. rounds e in_buf stack_max st = Some r \<Longrightarrow> ?Q e in_buf stack_max st r"
      and eq': "(if \<not> hs_cur st < hs_max st then Some (Rounds_done st)
        else let w = he_world e (hs_runs st)
             in case into (below w stack_max) (\<lambda>k. havoc_stack e w (1 + k) in_buf) (hs_rng st) of
               None \<Rightarrow> None | Some (None, g) \<Rightarrow> Some Faulted
             | Some (Some buf, g) \<Rightarrow>
                 let st = st\<lparr>hs_rng := g, hs_runs := hs_runs st @ [buf]\<rparr>
                 in if he_abort e (hs_runs st) then Some (Aborted st)
                    else rounds e in_buf stack_max (havoc_extend e st\<lparr>hs_cur := hs_cur st + 1\<rparr>)) = Some r"
    show "?Q e in_buf stack_max st r"
    proof (intro impI)
      assume e: "env_ok e" "in_buf \<noteq> []" "0 < stack_max" "?n in_buf stack_max + MAX_FILE < (2 :: nat) ^ 32"
      show "runs_sized (?n in_buf stack_max) st r"
      proof (cases "hs_cur st < hs_max st")
        case False
        then have "r = Rounds_done st" using eq' by simp
        then show ?thesis by (simp add: runs_sized_end)
      next
        case True
        obtain x g where x: "one_round e in_buf stack_max (hs_runs st) (hs_rng st) = Some (x, g)"
          using eq' True by (auto simp: one_round_def Let_def split: option.splits)
        obtain out where out: "x = Some out" "sized (?n in_buf stack_max) out"
          using alwaysD [OF one_round_ok [OF e] x] by blast
        let ?s = "st\<lparr>hs_rng := g, hs_runs := hs_runs st @ [out]\<rparr>"
        have d: "runs_sized (?n in_buf stack_max) st (Rounds_done ?s)" "runs_sized (?n in_buf stack_max) st (Aborted ?s)"
          using out(2) by (simp_all add: runs_sized_def)
        have eq: "(if he_abort e (hs_runs ?s) then Some (Aborted ?s)
            else rounds e in_buf stack_max (havoc_extend e ?s\<lparr>hs_cur := hs_cur st + 1\<rparr>)) = Some r"
          using eq' True x out(1) by (auto simp: one_round_def Let_def split: if_splits)
        show ?thesis
        proof (cases "he_abort e (hs_runs ?s)")
          case True
          then show ?thesis using eq d(2) by simp
        next
          case False
          then have "rounds e in_buf stack_max (havoc_extend e ?s\<lparr>hs_cur := hs_cur st + 1\<rparr>) = Some r" using eq by simp
          from IH [OF this] e have "runs_sized (?n in_buf stack_max) (havoc_extend e ?s\<lparr>hs_cur := hs_cur st + 1\<rparr>) r" by blast
          from runs_sized_trans [OF d(1) this] show ?thesis by simp
        qed
      qed
    qed
  qed
  then show ?thesis using assms by blast
qed

lemma havoc_stage_sized:
  assumes "havoc_stage e rate in_buf st = Some r" "env_ok e" "he_stack_pow2 e \<le> 20" "in_buf \<noteq> []" "length in_buf \<le> MAX_FILE"
  shows "runs_sized (MAX_FILE + 18 * 2 ^ max 1 (he_stack_pow2 e)) st r"
proof -
  let ?st = "st\<lparr>hs_cur := 0, hs_max := havoc_stage_max e rate (hs_perf st), hs_queued := he_queued e (hs_runs st)\<rparr>"
  let ?w = "he_world e (hs_runs st)" and ?p = "he_stack_pow2 e"
  from assms(1) obtain k g where k: "below ?w ?p (hs_rng st) = Some (k, g)"
      "havoc_rounds e in_buf (2 ^ (1 + k)) (?st\<lparr>hs_rng := g\<rparr>) = Some r"
    by (auto simp: havoc_stage_def Let_def split: option.splits)
  have "?p < 2 ^ 32" using assms(3) by simp
  from alwaysD [OF always_below [OF this] k(1)] have "1 + k \<le> max 1 ?p" by linarith
  then have le: "(2 :: nat) ^ (1 + k) \<le> 2 ^ max 1 ?p" by (rule power_increasing) simp
  have "(2 :: nat) ^ max 1 ?p \<le> 2 ^ 20" by (rule power_increasing) (use assms(3) in simp_all)
  then have b: "(2 :: nat) ^ max 1 ?p \<le> 1048576" by simp
  have m: "max MAX_FILE (length in_buf) = MAX_FILE" using assms(5) by simp
  have "runs_sized (MAX_FILE + 18 * 2 ^ (1 + k)) (?st\<lparr>hs_rng := g\<rparr>) r"
    using havoc_rounds_sized [OF k(2) assms(2,4)] le b unfolding m by simp
  then have "runs_sized (MAX_FILE + 18 * 2 ^ max 1 ?p) (?st\<lparr>hs_rng := g\<rparr>) r"
    by (rule runs_sized_mono) (use le in simp)
  then show ?thesis by (simp add: runs_sized_def)
qed

text \<open>The splices are test cases again, so the same bound holds however many follow.\<close>

lemma spliced_size:
  assumes "spliced w orig out" "world_ok w"
  shows "out \<noteq> [] \<and> length out \<le> MAX_FILE"
proof -
  from assms(1) obtain i f l s where i: "i < length (hw_queue w)" "4 \<le> length (hw_queue w ! i)"
      "differ_between orig (hw_queue w ! i) (min (length orig) (length (hw_queue w ! i))) f l" "f \<le> s" "s < l"
      "out = splice_at s orig (hw_queue w ! i)"
    unfolding spliced_def by blast
  have "length out = length (hw_queue w ! i)" unfolding i(6) by (rule splice_at_laws(1) [OF i(3-5)])
  moreover have "length (hw_queue w ! i) \<le> MAX_FILE" using assms(2) i(1) unfolding world_ok_def by (metis Un_iff nth_mem)
  ultimately show ?thesis using i(2) by auto
qed

lemma havoc_and_splice_sized:
  assumes "havoc_and_splice e use_splicing rate orig_perf orig in_buf left st = Some r"
    and "env_ok e" "he_stack_pow2 e \<le> 20" "in_buf \<noteq> []" "length in_buf \<le> MAX_FILE" "length orig \<le> MAX_FILE"
  shows "runs_sized (MAX_FILE + 18 * 2 ^ max 1 (he_stack_pow2 e)) st r"
  using assms
proof (induction e use_splicing rate orig_perf orig in_buf left st arbitrary: r rule: havoc_and_splice.induct)
  case (1 e use_splicing rate orig_perf orig in_buf left st)
  let ?n = "MAX_FILE + 18 * 2 ^ max 1 (he_stack_pow2 e)"
  have run: "havoc_and_splice e use_splicing rate orig_perf orig in_buf left st = Some r" by (rule "1.prems"(1))
  then obtain x where x: "havoc_stage e rate in_buf st = Some x"
    by (subst (asm) havoc_and_splice.simps) (auto split: option.splits)
  have s: "runs_sized ?n st x" by (rule havoc_stage_sized [OF x "1.prems"(2-5)])
  show ?case
  proof (cases x)
    case (Rounds_done t)
    let ?w = "he_world e (hs_runs t)"
    have w: "world_ok ?w" using "1.prems"(2) by (simp add: env_ok_def)
    show ?thesis
    proof (cases "use_splicing \<and> hw_ready ?w > 1 \<and> length orig \<ge> 4")
      case False
      then have "r = Rounds_done t"
        using run x Rounds_done by (subst (asm) havoc_and_splice.simps) (simp add: Let_def)
      then show ?thesis using s Rounds_done by simp
    next
      case True
      then obtain y g where y: "find_splice ?w orig left (hs_rng t) = Some (y, g)"
        using run x Rounds_done by (subst (asm) havoc_and_splice.simps) (auto simp: Let_def split: option.splits)
      have o: "length orig < 2 ^ 32" using "1.prems"(6) by simp
      show ?thesis
      proof (cases y)
        case None
        then have "r = Rounds_done (t\<lparr>hs_rng := g\<rparr>)"
          using run x Rounds_done True y by (subst (asm) havoc_and_splice.simps) (simp add: Let_def)
        then show ?thesis using s Rounds_done by (simp add: runs_sized_def)
      next
        case (Some bl)
        obtain buf m where bl: "bl = (buf, m)" by force
        have sp: "m < left" "spliced ?w orig buf"
          using alwaysD [OF find_splice_ok [OF w _ o] y] True Some bl by auto
        have bs: "buf \<noteq> []" "length buf \<le> MAX_FILE" using spliced_size [OF sp(2) w] by auto
        let ?t = "t\<lparr>hs_rng := g, hs_perf := orig_perf\<rparr>"
        have h: "havoc_and_splice e use_splicing SPLICE_HAVOC orig_perf orig buf m ?t = Some r"
          using run x Rounds_done True y Some bl sp(1) by (subst (asm) havoc_and_splice.simps) (simp add: Let_def)
        have "runs_sized ?n ?t r"
          by (rule "1.IH" [OF x Rounds_done refl _ y refl Some bl [symmetric] sp(1)]) (use True h "1.prems" bs in simp_all)
        then show ?thesis using runs_sized_trans [of ?n st t ?t r] s Rounds_done by simp
      qed
    qed
  next
    case (Aborted t)
    then have "r = x" using run x by (subst (asm) havoc_and_splice.simps) simp
    then show ?thesis using s by simp
  next
    case Faulted
    then show ?thesis using s by (simp add: runs_sized_def)
  qed
qed
section \<open>How many rounds, and that they end\<close>

text \<open>The limit under which the score may still be doubled, and the condition under which the doubled
  numbers fit their 32 bits.\<close>

definition perf_limit :: "havoc_env \<Rightarrow> nat" where
  "perf_limit e = unat (he_max_mult e * 100)"

definition counts_ok :: "havoc_env \<Rightarrow> havoc_st \<Rightarrow> bool" where
  "counts_ok e st \<longleftrightarrow>
     0 < unat (hs_perf st) \<and> 2 * perf_limit e < 2 ^ 32 \<and> unat (hs_cur st) \<le> unat (hs_max st)
     \<and> unat (hs_max st) * (2 * perf_limit e) < unat (hs_perf st) * 2 ^ 32"

text \<open>After \<open>k\<close> doublings.\<close>

definition doubled :: "havoc_env \<Rightarrow> nat \<Rightarrow> havoc_st \<Rightarrow> havoc_st \<Rightarrow> bool" where
  "doubled e k st st' \<longleftrightarrow>
     unat (hs_max st') = 2 ^ k * unat (hs_max st) \<and> unat (hs_perf st') = 2 ^ k * unat (hs_perf st)
     \<and> (k = 0 \<or> 2 ^ (k - 1) * unat (hs_perf st) \<le> perf_limit e)"

lemma doubled_refl: "hs_max st' = hs_max st \<Longrightarrow> hs_perf st' = hs_perf st \<Longrightarrow> doubled e 0 st st'"
  by (simp add: doubled_def)

lemma doubled_trans:
  assumes "doubled e j st t" "doubled e k t u"
  shows "doubled e (j + k) st u"
proof (cases "k = 0")
  case True
  then show ?thesis using assms by (simp add: doubled_def)
next
  case False
  then have e: "(2 :: nat) ^ (j + k - 1) = 2 ^ j * 2 ^ (k - 1)" by (simp add: power_add [symmetric])
  show ?thesis using assms False unfolding doubled_def e power_add by (simp add: ac_simps)
qed

lemma unat_double:
  fixes a :: u32
  assumes "2 * unat a < 2 ^ 32"
  shows "unat (a * 2) = 2 * unat a"
proof -
  have "unat (a * 2) = unat a * unat (2 :: u32)" by (rule unat_mult_lem [THEN iffD1]) (use assms in simp)
  then show ?thesis by simp
qed

text \<open>One round: the counter moves on, and the limit and the score may be doubled.\<close>

lemma extend_counts:
  assumes "counts_ok e st" "hs_cur st < hs_max st" "hs_max s = hs_max st" "hs_perf s = hs_perf st" "hs_cur s = hs_cur st"
  shows "\<exists>k. doubled e k st (havoc_extend e s\<lparr>hs_cur := hs_cur st + 1\<rparr>)
      \<and> counts_ok e (havoc_extend e s\<lparr>hs_cur := hs_cur st + 1\<rparr>)
      \<and> unat (hs_cur st + 1) = unat (hs_cur st) + 1"
proof -
  let ?M = "perf_limit e" and ?s' = "havoc_extend e s\<lparr>hs_cur := hs_cur st + 1\<rparr>"
  have c: "0 < unat (hs_perf st)" "2 * ?M < 2 ^ 32" "unat (hs_cur st) < unat (hs_max st)"
      "unat (hs_max st) * (2 * ?M) < unat (hs_perf st) * 2 ^ 32"
    using assms(1,2) by (simp_all add: counts_ok_def word_less_nat_alt)
  have "unat (hs_max st) < 2 ^ 32" using unsigned_less [of "hs_max st", where 'a = nat] by simp
  then have "unat (hs_cur st) + unat (1 :: u32) < 2 ^ LENGTH(32)" using c(3) by simp
  then have cur: "unat (hs_cur st + 1) = unat (hs_cur st) + 1" by (simp add: unat_add_lem [THEN iffD1])
  show ?thesis
  proof (cases "he_queued e (hs_runs s) \<noteq> hs_queued s \<and> hs_perf st \<le> he_max_mult e * 100")
    case True
    then have le: "unat (hs_perf st) \<le> ?M" by (simp add: perf_limit_def word_le_nat_alt)
    have "unat (hs_max st) * (2 * ?M) < ?M * 2 ^ 32" using c(4) mult_le_mono1 [OF le, of "2 ^ 32"] by linarith
    then have "(2 * unat (hs_max st)) * ?M < 2 ^ 32 * ?M" by (simp add: ac_simps)
    then have m: "2 * unat (hs_max st) < 2 ^ 32" by simp
    have f: "hs_max ?s' = hs_max st * 2" "hs_perf ?s' = hs_perf st * 2" "hs_cur ?s' = hs_cur st + 1"
      using True assms(3-5) by (simp_all add: havoc_extend_def Let_def)
    have u: "unat (hs_max ?s') = 2 * unat (hs_max st)" "unat (hs_perf ?s') = 2 * unat (hs_perf st)"
      unfolding f using m le c(2) by (simp_all add: unat_double)
    have "doubled e 1 st ?s'" using u le by (simp add: doubled_def)
    moreover have "counts_ok e ?s'" using c u f(3) cur by (simp add: counts_ok_def)
    ultimately show ?thesis using cur by blast
  next
    case False
    then have f: "hs_max ?s' = hs_max st" "hs_perf ?s' = hs_perf st" "hs_cur ?s' = hs_cur st + 1"
      using assms(3-5) by (auto simp: havoc_extend_def Let_def)
    have "doubled e 0 st ?s'" by (rule doubled_refl [OF f(1,2)])
    moreover have "counts_ok e ?s'" using c f cur by (simp add: counts_ok_def)
    ultimately show ?thesis using cur by blast
  qed
qed

text \<open>The number of inputs run when the rounds are done or left.\<close>

definition counted :: "havoc_env \<Rightarrow> havoc_st \<Rightarrow> havoc_end \<Rightarrow> bool" where
  "counted e st r \<longleftrightarrow>
     (case r of
        Rounds_done st' \<Rightarrow> \<exists>k. doubled e k st st' \<and> length (hs_runs st') + unat (hs_cur st) = length (hs_runs st) + 2 ^ k * unat (hs_max st)
      | Aborted st' \<Rightarrow> \<exists>k. doubled e k st st' \<and> length (hs_runs st') + unat (hs_cur st) \<le> length (hs_runs st) + 2 ^ k * unat (hs_max st)
      | Faulted \<Rightarrow> False)"

lemma counted_cong:
  assumes "hs_max s = hs_max t" "hs_perf s = hs_perf t" "hs_cur s = hs_cur t" "hs_runs s = hs_runs t"
  shows "counted e s r = counted e t r"
  unfolding counted_def doubled_def assms ..

lemma counted_step:
  assumes "doubled e j st t" "length (hs_runs t) = length (hs_runs st) + 1" "unat (hs_cur t) = unat (hs_cur st) + 1" "counted e t r"
  shows "counted e st r"
proof (cases r)
  case (Rounds_done u)
  then obtain k where k: "doubled e k t u" "length (hs_runs u) + unat (hs_cur t) = length (hs_runs t) + 2 ^ k * unat (hs_max t)"
    using assms(4) by (auto simp: counted_def)
  have "2 ^ k * unat (hs_max t) = 2 ^ (j + k) * unat (hs_max st)" using assms(1) by (simp add: doubled_def power_add)
  then have "length (hs_runs u) + unat (hs_cur st) = length (hs_runs st) + 2 ^ (j + k) * unat (hs_max st)"
    using k(2) assms(2,3) by linarith
  then show ?thesis using doubled_trans [OF assms(1) k(1)] Rounds_done unfolding counted_def by auto
next
  case (Aborted u)
  then obtain k where k: "doubled e k t u" "length (hs_runs u) + unat (hs_cur t) \<le> length (hs_runs t) + 2 ^ k * unat (hs_max t)"
    using assms(4) by (auto simp: counted_def)
  have "2 ^ k * unat (hs_max t) = 2 ^ (j + k) * unat (hs_max st)" using assms(1) by (simp add: doubled_def power_add)
  then have "length (hs_runs u) + unat (hs_cur st) \<le> length (hs_runs st) + 2 ^ (j + k) * unat (hs_max st)"
    using k(2) assms(2,3) by linarith
  then show ?thesis using doubled_trans [OF assms(1) k(1)] Aborted unfolding counted_def by auto
next
  case Faulted
  then show ?thesis using assms(4) by (simp add: counted_def)
qed

text \<open>States of the generator from which every round delivers an input and such a state again.\<close>

definition delivers :: "havoc_env \<Rightarrow> bytes \<Rightarrow> nat \<Rightarrow> rand_st set \<Rightarrow> bool" where
  "delivers e in_buf stack_max G \<longleftrightarrow>
     (\<forall>runs. \<forall>g\<in>G. \<exists>buf. \<exists>g'\<in>G. one_round e in_buf stack_max runs g = Some (Some buf, g'))"

lemma havoc_rounds_count:
  assumes "delivers e in_buf stack_max G" "hs_rng st \<in> G" "counts_ok e st"
  shows "\<exists>r. havoc_rounds e in_buf stack_max st = Some r \<and> counted e st r"
  using assms(2,3)
proof (induction "(perf_limit e + 1 - unat (hs_perf st), unat (hs_max st) - unat (hs_cur st))" arbitrary: st
    rule: wf_induct_rule [OF wf_lex_prod [OF wf_less_than wf_less_than]])
  case (1 st)
  show ?case
  proof (cases "hs_cur st < hs_max st")
    case False
    then have "unat (hs_cur st) = unat (hs_max st)" using "1.prems"(2) by (simp add: counts_ok_def word_less_nat_alt)
    then have "counted e st (Rounds_done st)"
      by (auto simp: counted_def intro!: exI [where x = 0] doubled_refl)
    then show ?thesis using False by (subst havoc_rounds_step) simp
  next
    case True
    obtain buf g where b: "one_round e in_buf stack_max (hs_runs st) (hs_rng st) = Some (Some buf, g)" "g \<in> G"
      using assms(1) "1.prems"(1) unfolding delivers_def by blast
    let ?s = "st\<lparr>hs_rng := g, hs_runs := hs_runs st @ [buf]\<rparr>"
    let ?t = "havoc_extend e ?s\<lparr>hs_cur := hs_cur st + 1\<rparr>"
    obtain k where k: "doubled e k st ?t" "counts_ok e ?t" "unat (hs_cur st + 1) = unat (hs_cur st) + 1"
      using extend_counts [OF "1.prems"(2) True, of ?s] by auto
    have cl: "unat (hs_cur st) < unat (hs_max st)" using True by (simp add: word_less_nat_alt)
    show ?thesis
    proof (cases "he_abort e (hs_runs ?s)")
      case True
      have "counted e st (Aborted ?s)"
        using cl by (auto simp: counted_def intro!: exI [where x = 0] doubled_refl)
      then show ?thesis using b True \<open>hs_cur st < hs_max st\<close> by (subst havoc_rounds_step) simp
    next
      case False
      have p: "0 < unat (hs_perf st)" using "1.prems"(2) by (simp add: counts_ok_def)
      have dec: "((perf_limit e + 1 - unat (hs_perf ?t), unat (hs_max ?t) - unat (hs_cur ?t)),
          (perf_limit e + 1 - unat (hs_perf st), unat (hs_max st) - unat (hs_cur st))) \<in> less_than <*lex*> less_than"
      proof (cases "k = 0")
        case True
        then show ?thesis using k cl by (simp add: doubled_def)
      next
        case False
        have "1 \<le> (2 :: nat) ^ (k - 1)" by simp
        then have "unat (hs_perf st) \<le> 2 ^ (k - 1) * unat (hs_perf st)" by simp
        also have "\<dots> \<le> perf_limit e" using k(1) False by (simp add: doubled_def)
        finally have le: "unat (hs_perf st) \<le> perf_limit e" .
        have "(2 :: nat) ^ 1 \<le> 2 ^ k" by (rule power_increasing) (use False in simp_all)
        then have "2 * unat (hs_perf st) \<le> 2 ^ k * unat (hs_perf st)" by simp
        then have "2 * unat (hs_perf st) \<le> unat (hs_perf ?t)" using k(1) by (simp add: doubled_def)
        then have "perf_limit e + 1 - unat (hs_perf ?t) < perf_limit e + 1 - unat (hs_perf st)" using le p by linarith
        then show ?thesis by simp
      qed
      have "\<exists>r. havoc_rounds e in_buf stack_max ?t = Some r \<and> counted e ?t r"
        by (rule "1.hyps" [OF dec]) (use b(2) k(2) in simp_all)
      then obtain r where r: "havoc_rounds e in_buf stack_max ?t = Some r" "counted e ?t r" by blast
      have "counted e st r" by (rule counted_step [OF k(1) _ _ r(2)]) (simp_all add: k(3))
      then show ?thesis using b False r(1) True by (subst havoc_rounds_step) simp
    qed
  qed
qed
section \<open>The stage returns\<close>

lemma havoc_stage_count:
  assumes "\<And>k. k < max 1 (he_stack_pow2 e) \<Longrightarrow> delivers e in_buf (2 ^ (1 + k)) G" "he_stack_pow2 e < 2 ^ 32"
    and "below (he_world e (hs_runs st)) (he_stack_pow2 e) (hs_rng st) = Some (k, g)" "g \<in> G"
    and "0 < unat (hs_perf st)" "2 * perf_limit e < 2 ^ 32"
    and "unat (havoc_stage_max e rate (hs_perf st)) * (2 * perf_limit e) < unat (hs_perf st) * 2 ^ 32"
  shows "\<exists>r. havoc_stage e rate in_buf st = Some r
    \<and> counted e (st\<lparr>hs_cur := 0, hs_max := havoc_stage_max e rate (hs_perf st)\<rparr>) r"
proof -
  let ?s = "st\<lparr>hs_cur := 0, hs_max := havoc_stage_max e rate (hs_perf st), hs_queued := he_queued e (hs_runs st), hs_rng := g\<rparr>"
  have k: "k < max 1 (he_stack_pow2 e)" using alwaysD [OF always_below [OF assms(2)] assms(3)] .
  have "counts_ok e ?s" using assms(5-7) by (simp add: counts_ok_def)
  then obtain r where r: "havoc_rounds e in_buf (2 ^ (1 + k)) ?s = Some r" "counted e ?s r"
    using havoc_rounds_count [OF assms(1) [OF k], of ?s] assms(4) by auto
  have "havoc_stage e rate in_buf st = Some r"
    unfolding havoc_stage_def Let_def using assms(3) r(1) by simp
  moreover have "counted e (st\<lparr>hs_cur := 0, hs_max := havoc_stage_max e rate (hs_perf st)\<rparr>) r"
    by (rule iffD1 [OF counted_cong r(2)]) simp_all
  ultimately show ?thesis by blast
qed

text \<open>A generator whose words are zero stays like this: each draw is zero. It shows that a stage can
  deliver.\<close>

definition zero_rng :: rand_st where
  "zero_rng = \<lparr>rand_seed0 = 0, rand_seed1 = 0, rand_seed2 = 0, rand_cnt = 0, fixed_seed = True, init_seed = 0, urandom_reads = 0\<rparr>"

definition zero_states :: "rand_st set" where
  "zero_states = {g. rand_seed0 g = 0 \<and> rand_seed1 g = 0 \<and> fixed_seed g}"

lemma rand_bound_pos: "0 < limit \<Longrightarrow> limit < 2 ^ 32 \<Longrightarrow> 0 < rand_bound (of_nat limit)"
proof -
  assume a: "0 < limit" "limit < (2 :: nat) ^ 32"
  have u: "unat (of_nat limit :: u32) = limit" using a(2) by (simp add: unsigned_of_nat take_bit_nat_eq_self)
  have "limit \<le> 2 ^ 64 - 1" using a(2) by simp
  then have "0 < (2 ^ 64 - 1) div limit" using a(1) by (simp add: div_greater_zero_iff)
  then have "0 < unat (rand_bound (of_nat limit))" unfolding rand_bound_nat u using a(1) by simp
  then show ?thesis by (simp add: word_less_nat_alt)
qed

lemma zero_below:
  assumes "g \<in> zero_states" "limit < 2 ^ 32"
  shows "\<exists>g'\<in>zero_states. below w limit g = Some (0, g')"
proof (cases "limit \<le> 1")
  case True
  then have "(of_nat limit :: u32) \<le> 1" by (cases "limit = 0") (auto simp: le_Suc_eq)
  then show ?thesis using assms(1) by (auto simp: below_def rand_below_def)
next
  case False
  have u: "unat (of_nat limit :: u32) = limit" using assms(2) by (simp add: unsigned_of_nat take_bit_nat_eq_self)
  have nle: "\<not> (of_nat limit :: u32) \<le> 1" unfolding word_le_nat_alt u using False by simp
  let ?g = "rand_reseed (hw_urandom w) g"
  have z: "rand_seed0 ?g = 0" "rand_seed1 ?g = 0" "fixed_seed ?g"
    using assms(1) by (auto simp: rand_reseed_def Let_def zero_states_def)
  have n: "fst (rand_next ?g) = 0" "snd (rand_next ?g) \<in> zero_states"
    using z by (simp_all add: rand_next_def Let_def zero_states_def ROTL_def)
  have "rand_retry (rand_bound (of_nat limit)) ?g = Some (rand_next ?g)"
    by (rule rand_retry_first) (use n(1) rand_bound_pos [of limit] False assms(2) in simp)
  then have "below w limit g = Some (0, snd (rand_next ?g))"
    using n(1) nle by (simp add: below_def rand_below_def split_beta)
  then show ?thesis using n(2) by blast
qed

text \<open>An empty world with the flip of a bit as the only mutation.\<close>

definition plain_havoc_world :: havoc_world where
  "plain_havoc_world = \<lparr>hw_urandom = (\<lambda>_. (0, 0, 0)), hw_extras = [], hw_autos = [], hw_queue = [], hw_current = 0,
     hw_ready = 0, hw_cycle = 0, hw_over10m = False, hw_stack = (\<lambda>_. 0)\<rparr>"

definition plain_havoc_env :: "mutation list \<Rightarrow> havoc_env" where
  "plain_havoc_env muts = \<lparr>he_world = (\<lambda>_. plain_havoc_world), he_abort = (\<lambda>_. False), he_queued = (\<lambda>runs. of_nat (length runs)),
     he_custom = give, he_muts = muts, he_stack_pow2 = 1, he_max_mult = 64, he_havoc_div = 1\<rparr>"

definition plain_havoc_st :: havoc_st where
  "plain_havoc_st = \<lparr>hs_rng = zero_rng, hs_runs = [], hs_cur = 0, hs_max = 0, hs_perf = 100, hs_queued = 0\<rparr>"

lemma zero_rng_state [simp]: "zero_rng \<in> zero_states"
  by (simp add: zero_states_def zero_rng_def)

lemma zero_flip:
  assumes "g \<in> zero_states" "b \<noteq> []" "length b < 2 ^ 32"
  shows "\<exists>g'\<in>zero_states. havoc_pick plain_havoc_world [MUT_FLIPBIT] b g = Some (Some (overwrite 0 [hd b XOR 1] b), g')"
proof -
  let ?w = plain_havoc_world
  obtain h where h: "h \<in> zero_states" "below ?w (length [MUT_FLIPBIT]) g = Some (0, h)"
    using zero_below [OF assms(1), of 1 ?w] by auto
  obtain i where i: "i \<in> zero_states" "below ?w 8 h = Some (0, i)" using zero_below [OF h(1), of 8 ?w] by auto
  obtain j where j: "j \<in> zero_states" "below ?w (length b) i = Some (0, j)" using zero_below [OF i(1) assms(3), of ?w] by auto
  obtain x xs where b: "b = x # xs" using assms(2) by (cases b) auto
  have bw: "of_bytes [x] = (x :: u8)" "to_bytes (Suc 0) (x XOR 1) = [x XOR 1]"
    by (simp_all add: to_bytes_def byte_at_def)
  have "mut_step ?w MUT_FLIPBIT b h = Some (Fine (overwrite 0 [hd b XOR 1] b), j)"
    using i(2) j(2) by (simp add: into_def mut_byte_def edit_def mem_def load_def fill_def store_def fine_def give_def b bw)
  then show ?thesis
    using h(2) j(1) by (subst havoc_pick.simps) (auto simp del: mut_step.simps)
qed

lemma plain_delivers: "b \<noteq> [] \<Longrightarrow> length b < 2 ^ 32 \<Longrightarrow> delivers (plain_havoc_env [MUT_FLIPBIT]) b (2 ^ (1 + 0)) zero_states"
  unfolding delivers_def
proof (intro allI ballI)
  fix runs g assume b: "b \<noteq> []" "length b < 2 ^ 32" and g: "g \<in> zero_states"
  let ?w = plain_havoc_world
  obtain h where h: "h \<in> zero_states" "below ?w 2 g = Some (0, h)" using zero_below [OF g, of 2 ?w] by auto
  obtain i where i: "i \<in> zero_states" "havoc_pick ?w [MUT_FLIPBIT] b h = Some (Some (overwrite 0 [hd b XOR 1] b), i)"
    using zero_flip [OF h(1) b] by blast
  show "\<exists>buf. \<exists>g'\<in>zero_states. one_round (plain_havoc_env [MUT_FLIPBIT]) b (2 ^ (1 + 0)) runs g = Some (Some buf, g')"
    using h i by (auto simp: one_round_def plain_havoc_env_def into_def give_def)
qed

lemma plain_env_ok: "muts \<noteq> [] \<Longrightarrow> length muts < 2 ^ 32 \<Longrightarrow> env_ok (plain_havoc_env muts)"
  by (auto simp: env_ok_def plain_havoc_env_def plain_havoc_world_def world_ok_def sized_def intro!: always_give)

end
