(* ===== verification/Havoc_Theorems.thy ===== *)
theory Havoc_Theorems
  imports Havoc_Rounds
begin

text \<open>
  The properties of the random mutations, of the havoc stage and of splicing.
\<close>

section \<open>One mutation\<close>

lemma zero_del:
  "\<exists>g'. mut_step plain_havoc_world MUT_DEL [1, 2, 3] zero_rng = Some (Fine [2, 3], g')"
proof -
  let ?w = plain_havoc_world
  obtain g where g: "g \<in> zero_states" "below ?w 1 zero_rng = Some (0, g)" using zero_below [of zero_rng 1 ?w] by auto
  obtain h where h: "h \<in> zero_states" "below ?w (Suc (Suc 0)) g = Some (0, h)" using zero_below [OF g(1), of "Suc (Suc 0)" ?w] by auto
  obtain i where i: "i \<in> zero_states" "below ?w (Suc (Suc (Suc 0))) h = Some (0, i)" using zero_below [OF h(1), of "Suc (Suc (Suc 0))" ?w] by auto
  have "\<not> hw_over10m ?w" by (simp add: plain_havoc_world_def)
  then show ?thesis
    using g(2) h(2) i(2)
    by (simp add: mut_del_def into_def choose_block_len_def give_def cut_block_def load_def mem_def store_def overwrite_def fine_def)
qed

text \<open>C25 Each of the 37 mutations, from any state of the generator, stays inside the memory of the buffer, of
  the dictionaries and of the other test cases, and turns the buffer into one its specification allows.\<close>

theorem mutation_refines:
  assumes "world_ok w" "buf_ok buf" "mut_step w m buf g = Some (r, g')"
  shows "case r of Fine out \<Rightarrow> mutation_spec w m buf out | Retry \<Rightarrow> True | Fault \<Rightarrow> False"
  using alwaysD [OF mut_step_ok [OF assms(1,2)] assms(3)] by (cases r) simp_all

lemma mutation_refines_witness:
  "\<exists>g'. mut_step plain_havoc_world MUT_DEL [1, 2, 3] zero_rng = Some (Fine [2, 3], g')
    \<and> (\<exists>i n. removed i n [1, 2, 3] [2, 3])"
proof -
  obtain g' where g: "mut_step plain_havoc_world MUT_DEL [1, 2, 3] zero_rng = Some (Fine [2, 3], g')" using zero_del by blast
  have "world_ok plain_havoc_world" "buf_ok [1, 2, 3]"
    by (simp_all add: world_ok_def plain_havoc_world_def buf_ok_def)
  from mutation_refines [OF this g] show ?thesis using g by simp
qed

text \<open>C26 No mutation empties the buffer, and none makes it longer than \<open>MAX_FILE\<close> if it was not already,
  except that \<open>MUT_INSERTONE\<close>, which does not look at the length, may add one byte and \<open>MUT_ASCIINUM\<close> up
  to eighteen.\<close>

theorem mutation_bounds:
  assumes "world_ok w" "buf_ok buf" "mut_step w m buf g = Some (Fine out, g')"
  shows "out \<noteq> [] \<and> length out \<le>
    (if m = MUT_INSERTONE then max MAX_FILE (length buf + 1)
     else if m = MUT_ASCIINUM then max MAX_FILE (length buf + 18) else max MAX_FILE (length buf))"
proof -
  have "mutation_spec w m buf out" using alwaysD [OF mut_step_ok [OF assms(1,2)] assms(3)] by simp
  then show ?thesis using mutation_spec_length [of w m buf out] assms(2) by (auto simp: buf_ok_def)
qed

lemma mutation_bounds_witness:
  "\<exists>out g'. mut_step plain_havoc_world MUT_DEL [1, 2, 3] zero_rng = Some (Fine out, g') \<and> out \<noteq> [] \<and> length out \<le> MAX_FILE"
proof -
  obtain g' where g: "mut_step plain_havoc_world MUT_DEL [1, 2, 3] zero_rng = Some (Fine [2, 3], g')" using zero_del by blast
  have "world_ok plain_havoc_world" "buf_ok [1, 2, 3]"
    by (simp_all add: world_ok_def plain_havoc_world_def buf_ok_def)
  from mutation_bounds [OF this g] g show ?thesis by (intro exI [where x = "[2, 3]"] exI [where x = g']) simp
qed

text \<open>The exception is real: a buffer of the largest size grows.\<close>

lemma insertone_exceeds_max_file:
  assumes "length b = MAX_FILE"
  shows "\<exists>g'. mut_step plain_havoc_world MUT_INSERTONE b zero_rng = Some (Fine (hd b # b), g')"
proof -
  let ?w = plain_havoc_world
  obtain g where g: "g \<in> zero_states" "below ?w (length b) zero_rng = Some (0, g)"
    using zero_below [of zero_rng "length b" ?w] assms by auto
  obtain h where h: "h \<in> zero_states" "below ?w 2 g = Some (0, h)" using zero_below [OF g(1), of 2 ?w] by auto
  obtain x xs where b: "b = x # xs" using assms by (cases b) auto
  then have "\<not> length b < 2" using assms by simp
  then show ?thesis
    using g(2) h(2) b by (simp add: mut_insertone_def into_def fixed_byte_def mem_def load_def insert_block_def fine_def give_def)
qed

text \<open>A negative number is read with its sign, but only its digits are replaced: \<open>x-5y\<close> turns into
  \<open>x--4y\<close>.\<close>

lemma asciinum_doubles_sign:
  "\<exists>g'. mut_step plain_havoc_world MUT_ASCIINUM [0x78, 0x2d, 0x35, 0x79] zero_rng = Some (Fine [0x78, 0x2d, 0x2d, 0x34, 0x79], g')"
proof -
  let ?w = plain_havoc_world and ?b = "[0x78, 0x2d, 0x35, 0x79] :: bytes"
  obtain g where g: "g \<in> zero_states" "below ?w (length ?b) zero_rng = Some (0, g)"
    using zero_below [of zero_rng "length ?b" ?w] by auto
  obtain h where h: "h \<in> zero_states" "below ?w 8 g = Some (0, h)" using zero_below [OF g(1), of 8 ?w] by auto
  have f: "find_number 0 ?b = Some 2" by code_simp
  have d: "byte_isdigit 0x35" "\<not> byte_isdigit 0x79" by code_simp+
  have r: "- read_number [0x35] + 1 = - 4" by code_simp
  have s: "number_text (- 4) = [0x2d, 0x34]" by code_simp
  have c: "change_number ?w (- read_number [0x35]) g = Some (- 4, h)"
    using h(2) r by (simp add: change_number_def into_def give_def)
  show ?thesis
    unfolding mut_step.simps mut_asciinum_def
    using g(2) by (simp add: into_def f d c s Let_def mem_def load_def fine_def give_def)
qed

text \<open>Switching two blocks and shuffling one only move bytes around: the buffer keeps its bytes with their
  multiplicities. Shuffling a block of at least two bytes leaves none of them at its place.\<close>

theorem shuffle_deranges:
  assumes "buf_ok buf" "mut_step w MUT_SHUFFLE buf g = Some (Fine out, g')" "4 \<le> length buf"
  shows "mset out = mset buf \<and>
    (\<exists>a x b p. buf = a @ x @ b \<and> out = a @ map (\<lambda>i. x ! p i) [0..<length x] @ b \<and> bij_betw p {..<length x} {..<length x}
       \<and> (\<forall>i<length x. 1 < length x \<longrightarrow> p i \<noteq> i))"
proof -
  have "mutation_spec w MUT_SHUFFLE buf out"
    using alwaysD [OF mut_shuffle_ok [OF assms(1)]] assms(2) by fastforce
  then obtain a x y b where s: "buf = a @ x @ b" "out = a @ y @ b" "deranged x y" using assms(3) by auto
  obtain p where p: "bij_betw p {..<length x} {..<length x}" "y = map (\<lambda>i. x ! p i) [0..<length x]"
      "1 < length x \<Longrightarrow> \<forall>i<length x. p i \<noteq> i"
    using s(3) unfolding deranged_def by blast
  have "mset out = mset buf" using deranged_mset [OF s(3)] s(1,2) by simp
  then show ?thesis using s(1,2) p by blast
qed

lemma shuffle_deranges_witness:
  "\<exists>out g'. mut_step plain_havoc_world MUT_SHUFFLE [1, 2, 3, 4] zero_rng = Some (Fine out, g') \<and> mset out = mset [1, 2, 3, 4]"
proof -
  let ?w = plain_havoc_world
  obtain g where g: "g \<in> zero_states" "below ?w 1 zero_rng = Some (0, g)" using zero_below [of zero_rng 1 ?w] by auto
  obtain h where h: "h \<in> zero_states" "below ?w (Suc (Suc (Suc 0))) g = Some (0, h)" using zero_below [OF g(1), of "Suc (Suc (Suc 0))" ?w] by auto
  obtain i where i: "i \<in> zero_states" "below ?w (Suc (Suc (Suc (Suc 0)))) h = Some (0, i)" using zero_below [OF h(1), of "Suc (Suc (Suc (Suc 0)))" ?w] by auto
  have "\<not> hw_over10m ?w" by (simp add: plain_havoc_world_def)
  then have *: "mut_step ?w MUT_SHUFFLE [1, 2, 3, 4] zero_rng = Some (Fine [1, 2, 3, 4], i)"
    using g(2) h(2) i(2) by (simp add: mut_shuffle_def into_def choose_block_len_def give_def fine_def)
  have "buf_ok [1, 2, 3, 4]" by (simp add: buf_ok_def)
  from shuffle_deranges [OF this *] show ?thesis using * by auto
qed

section \<open>The stage and splicing\<close>

text \<open>C27 The havoc stage and the splices after it never read or write outside the buffers, whatever the
  generator delivers and however the queue grows; each input they run is not empty and longer than
  \<open>MAX_FILE\<close> by at most 18 bytes for each mutation of the largest stack.\<close>

theorem havoc_and_splice_safe:
  assumes "env_ok e" "he_stack_pow2 e \<le> 20" "orig \<noteq> []" "length orig \<le> MAX_FILE"
    and "havoc_and_splice e use_splicing rate perf orig orig SPLICE_CYCLES st = Some r"
  shows "r \<noteq> Faulted \<and> (\<exists>runs st'. (r = Rounds_done st' \<or> r = Aborted st') \<and> hs_runs st' = hs_runs st @ runs
    \<and> (\<forall>b\<in>set runs. b \<noteq> [] \<and> length b \<le> MAX_FILE + 18 * 2 ^ max 1 (he_stack_pow2 e)))"
  using havoc_and_splice_sized [OF assms(5,1,2,3,4,4)] unfolding runs_sized_def sized_def by blast

lemma zero_stage:
  "\<exists>r. havoc_stage (plain_havoc_env [MUT_FLIPBIT]) HAVOC_CYCLES [7] plain_havoc_st = Some r
    \<and> counted (plain_havoc_env [MUT_FLIPBIT]) (plain_havoc_st\<lparr>hs_cur := 0,
        hs_max := havoc_stage_max (plain_havoc_env [MUT_FLIPBIT]) HAVOC_CYCLES (hs_perf plain_havoc_st)\<rparr>) r"
proof -
  let ?e = "plain_havoc_env [MUT_FLIPBIT]"
  obtain g where g: "g \<in> zero_states" "below (he_world ?e (hs_runs plain_havoc_st)) (he_stack_pow2 ?e) (hs_rng plain_havoc_st) = Some (0, g)"
    using zero_below [of zero_rng 1 plain_havoc_world] by (auto simp: plain_havoc_env_def plain_havoc_st_def)
  show ?thesis
  proof (rule havoc_stage_count [OF _ _ g(2,1)])
    show "delivers ?e [7] (2 ^ (1 + k)) zero_states" if "k < max 1 (he_stack_pow2 ?e)" for k
      using that plain_delivers [of "[7]"] by (simp add: plain_havoc_env_def)
  qed (simp_all add: plain_havoc_env_def plain_havoc_st_def perf_limit_def havoc_stage_max_def)
qed

lemma havoc_and_splice_safe_witness:
  "\<exists>r. havoc_and_splice (plain_havoc_env [MUT_FLIPBIT]) False HAVOC_CYCLES 100 [7] [7] SPLICE_CYCLES plain_havoc_st = Some r
    \<and> r \<noteq> Faulted"
proof -
  let ?e = "plain_havoc_env [MUT_FLIPBIT]"
  obtain r where r: "havoc_stage ?e HAVOC_CYCLES [7] plain_havoc_st = Some r" using zero_stage by blast
  have *: "havoc_and_splice ?e False HAVOC_CYCLES 100 [7] [7] SPLICE_CYCLES plain_havoc_st = Some r"
    using r by (subst havoc_and_splice.simps) (simp split: havoc_end.splits)
  have "env_ok ?e" by (rule plain_env_ok) simp_all
  moreover have "he_stack_pow2 ?e \<le> 20" by (simp add: plain_havoc_env_def)
  ultimately show ?thesis
    using havoc_and_splice_safe [of ?e "[7]" False HAVOC_CYCLES 100 plain_havoc_st r] * by auto
qed

text \<open>C28 The havoc stage ends. If every round delivers an input, it runs exactly \<open>stage_max * 2 ^ k\<close> inputs
  (or fewer, when the run of one asks to stop), where \<open>k\<close> is how often the discovery of something new
  doubled the stage, and it is doubled only while the score is at most 100 times \<open>havoc_max_mult\<close>.\<close>

theorem havoc_stage_ends:
  assumes "\<And>k. k < max 1 (he_stack_pow2 e) \<Longrightarrow> delivers e in_buf (2 ^ (1 + k)) G" "he_stack_pow2 e < 2 ^ 32"
    and "below (he_world e (hs_runs st)) (he_stack_pow2 e) (hs_rng st) = Some (k, g)" "g \<in> G"
    and "0 < unat (hs_perf st)" "2 * unat (he_max_mult e * 100) < 2 ^ 32"
    and "unat (havoc_stage_max e rate (hs_perf st)) * (2 * unat (he_max_mult e * 100)) < unat (hs_perf st) * 2 ^ 32"
  shows "\<exists>st' j. (havoc_stage e rate in_buf st = Some (Rounds_done st')
          \<and> length (hs_runs st') = length (hs_runs st) + 2 ^ j * unat (havoc_stage_max e rate (hs_perf st))
        \<or> havoc_stage e rate in_buf st = Some (Aborted st')
          \<and> length (hs_runs st') \<le> length (hs_runs st) + 2 ^ j * unat (havoc_stage_max e rate (hs_perf st)))
    \<and> (j = 0 \<or> 2 ^ (j - 1) * unat (hs_perf st) \<le> unat (he_max_mult e * 100))"
proof -
  obtain r where r: "havoc_stage e rate in_buf st = Some r"
      "counted e (st\<lparr>hs_cur := 0, hs_max := havoc_stage_max e rate (hs_perf st)\<rparr>) r"
    using havoc_stage_count [OF assms(1-5)] assms(6,7) unfolding perf_limit_def by blast
  then show ?thesis by (cases r) (auto simp: counted_def doubled_def perf_limit_def)
qed

lemma havoc_stage_ends_witness:
  "havoc_stage (plain_havoc_env [MUT_FLIPBIT]) HAVOC_CYCLES [7] plain_havoc_st \<noteq> None"
proof -
  let ?e = "plain_havoc_env [MUT_FLIPBIT]"
  obtain g where g: "g \<in> zero_states" "below (he_world ?e (hs_runs plain_havoc_st)) (he_stack_pow2 ?e) (hs_rng plain_havoc_st) = Some (0, g)"
    using zero_below [of zero_rng 1 plain_havoc_world] by (auto simp: plain_havoc_env_def plain_havoc_st_def)
  have d: "delivers ?e [7] (2 ^ (1 + k)) zero_states" if "k < max 1 (he_stack_pow2 ?e)" for k
    using that plain_delivers [of "[7]"] by (simp add: plain_havoc_env_def)
  show ?thesis
    using havoc_stage_ends [OF d _ g(2,1), of HAVOC_CYCLES]
    by (auto simp: plain_havoc_env_def plain_havoc_st_def havoc_stage_max_def)
qed

text \<open>A splice joins the head of the test case and the tail of another one of at least four bytes,
  cut at or behind their first difference and before the last one. It has the length of the partner and
  is never the test case itself, but it is the partner itself exactly when the cut is at the first
  difference.\<close>

theorem find_splice_mixes:
  assumes "world_ok w" "1 < hw_ready w" "length orig < 2 ^ 32"
    and "find_splice w orig k g = Some (Some (out, left), g')"
  shows "left < k \<and> (\<exists>i f l s. i < length (hw_queue w) \<and> i \<noteq> hw_current w \<and> 4 \<le> length (hw_queue w ! i)
    \<and> differ_between orig (hw_queue w ! i) (min (length orig) (length (hw_queue w ! i))) f l \<and> f \<le> s \<and> s < l
    \<and> out = take s orig @ drop s (hw_queue w ! i) \<and> length out = length (hw_queue w ! i)
    \<and> out \<noteq> orig \<and> (out = hw_queue w ! i \<longleftrightarrow> s = f))"
proof -
  have "left < k" and sp: "spliced w orig out" using alwaysD [OF find_splice_ok [OF assms(1-3)] assms(4)] by simp_all
  from sp obtain i f l s where i: "i < length (hw_queue w)" "i \<noteq> hw_current w" "4 \<le> length (hw_queue w ! i)"
      "differ_between orig (hw_queue w ! i) (min (length orig) (length (hw_queue w ! i))) f l" "f \<le> s" "s < l"
      "out = splice_at s orig (hw_queue w ! i)"
    unfolding spliced_def by blast
  show ?thesis using \<open>left < k\<close> i splice_at_laws [OF i(4-6)] unfolding i(7) splice_at_def by blast
qed

definition pair_world :: havoc_world where
  "pair_world = plain_havoc_world\<lparr>hw_queue := [[5, 6, 7, 8], [1, 2, 3, 4]], hw_current := 1, hw_ready := 2\<rparr>"

lemma find_splice_mixes_witness:
  "\<exists>left g'. find_splice pair_world [1, 2, 3, 4] 15 zero_rng = Some (Some ([5, 6, 7, 8], left), g') \<and> left < 15"
proof -
  obtain g where g: "g \<in> zero_states" "below pair_world (length (hw_queue pair_world)) zero_rng = Some (0, g)"
    using zero_below [of zero_rng "length (hw_queue pair_world)" pair_world] by (auto simp: pair_world_def)
  obtain h where h: "h \<in> zero_states" "below pair_world 3 g = Some (0, h)" using zero_below [OF g(1), of 3 pair_world] by auto
  have "splice_partner pair_world zero_rng = Some (0, g)"
    unfolding splice_partner_def by (subst below_until.simps) (simp only: g(2) option.case prod.case, simp add: pair_world_def)
  moreover have "hw_queue pair_world ! 0 = [5, 6, 7, 8]" by (simp add: pair_world_def)
  moreover have "locate_diffs [1, 2, 3, 4] [5, 6, 7, 8] (Suc (Suc (Suc (Suc 0)))) = (0, 3)" by (simp add: locate_diffs_def upt_rec)
  ultimately have *: "find_splice pair_world [1, 2, 3, 4] (Suc 14) zero_rng = Some (Some ([5, 6, 7, 8], 14), h)"
    using h(2) unfolding find_splice.simps by (simp add: into_def give_def splice_at_def Let_def)
  have w: "world_ok pair_world" "1 < hw_ready pair_world"
    by (simp_all add: world_ok_def pair_world_def plain_havoc_world_def)
  show ?thesis using find_splice_mixes [OF w _ *] * by auto
qed

end
