(* ===== verification/Calibrate.thy ===== *)
theory Calibrate
  imports Testcase_Cache Nv_Exec
begin

text \<open>
  \<open>calibrate_case\<close> of \<open>src/src/afl-fuzz-run.c\<close>: a testcase is run several times, the bytes of the map that
  differ between the runs are set aside, and the entry gets its measures. The name and the progress of
  the stage are put back by the code, so they are local here. What the target answers to the runs and
  the time they take are parameters, and so is the hash of the library.
\<close>

section \<open>The code\<close>

abbreviation (input) CAL_CYCLES_FAST :: nat where "CAL_CYCLES_FAST \<equiv> 3"
abbreviation (input) CAL_CYCLES :: nat where "CAL_CYCLES \<equiv> 7"
abbreviation (input) CAL_CYCLES_LONG :: nat where "CAL_CYCLES_LONG \<equiv> 12"

record afl_cal = afl_cache +
  first_trace :: bytes
  var_bytes :: bytes
  var_byte_count :: u32
  queued_with_cov :: u32
  queued_variable :: u32
  total_cal_us :: u64
  total_cal_cycles :: u64
  total_bitmap_size :: u64
  total_bitmap_entries :: u64
  afl_cal_fast :: bool
  crash_mode :: fsrv_run_result
  exec_tmout :: u32
  resuming_fuzz :: bool

text \<open>\<open>cw_run t k\<close> is the \<open>k\<close>-th run with time limit \<open>t\<close>: its fault, the trace, and whether
  \<open>stop_soon\<close> was set by then.\<close>

record cal_world =
  cw_run :: "u32 \<Rightarrow> nat \<Rightarrow> fsrv_run_result \<times> bytes \<times> bool"
  cw_hash :: "bytes \<Rightarrow> u64"
  cw_elapsed :: u64
  cw_w64 :: bool

record cal_loc =
  cal_new_bits :: u8
  cal_var :: bool
  cal_max :: nat

definition cal_tmout :: "bool \<Rightarrow> 'a afl_cal_scheme \<Rightarrow> u32" where
  "cal_tmout from_queue afl =
     (if \<not> from_queue \<or> resuming_fuzz afl
      then max (exec_tmout afl + 50) (exec_tmout afl * 125 div 100)
      else exec_tmout afl)"

text \<open>\<open>hnb\<close> and \<open>new_bits\<close>.\<close>

definition look_for_new :: "cal_world \<Rightarrow> cal_loc \<times> 'a afl_cal_scheme \<Rightarrow> cal_loc \<times> 'a afl_cal_scheme" where
  "look_for_new w s =
     (case s of (l, afl) \<Rightarrow>
        case has_new_bits (cw_w64 w) afl VIRGIN_BITS of (hnb, afl) \<Rightarrow>
          (if hnb > cal_new_bits l then l\<lparr>cal_new_bits := hnb\<rparr> else l, afl))"

definition mark_byte :: "nat \<Rightarrow> 'a afl_cal_scheme \<Rightarrow> 'a afl_cal_scheme" where
  "mark_byte i afl =
     (if var_bytes afl ! i = 0 \<and> first_trace afl ! i \<noteq> trace_bits afl ! i
      then afl\<lparr>var_bytes := (var_bytes afl)[i := 1], virgin_bits := (virgin_bits afl)[i := 0]\<rparr>
      else afl)"

definition mark_var_bytes :: "'a afl_cal_scheme \<Rightarrow> 'a afl_cal_scheme" where
  "mark_var_bytes afl = fold mark_byte [0..<unat (map_size afl)] afl"

text \<open>The part of the loop after the run: \<open>Inl\<close> is \<open>goto abort_calibration\<close>.\<close>

definition cal_compare :: "cal_world \<Rightarrow> qid \<Rightarrow> cal_loc \<times> 'a afl_cal_scheme \<Rightarrow> cal_loc \<times> 'a afl_cal_scheme" where
  "cal_compare w q s =
     (case s of (l, afl) \<Rightarrow>
        let afl = classify_counts (cw_w64 w) afl;
            cksum = cw_hash w (trace_bits afl)
        in if exec_cksum (entry afl q) \<noteq> cksum then
             (case look_for_new w (l, afl) of (l, afl) \<Rightarrow>
                if exec_cksum (entry afl q) \<noteq> 0
                then (l\<lparr>cal_var := True, cal_max := (if afl_cal_fast afl then CAL_CYCLES else CAL_CYCLES_LONG)\<rparr>,
                      mark_var_bytes afl)
                else (l, (set_entry q (\<lambda>e. e\<lparr>exec_cksum := cksum\<rparr>) afl)\<lparr>first_trace := trace_bits afl\<rparr>))
           else (l, afl))"

definition cal_step :: "cal_world \<Rightarrow> u32 \<Rightarrow> qid \<Rightarrow> nat \<Rightarrow> cal_loc \<times> 'a afl_cal_scheme
    \<Rightarrow> (fsrv_run_result \<times> cal_loc \<times> 'a afl_cal_scheme) + (fsrv_run_result \<times> cal_loc \<times> 'a afl_cal_scheme)" where
  "cal_step w use_tmout q k s =
     (case s of (l, afl) \<Rightarrow>
        case cw_run w use_tmout k of (fault, trace, stopped) \<Rightarrow>
          let afl = afl\<lparr>trace_bits := trace\<rparr>
          in if stopped \<or> fault \<noteq> crash_mode afl then Inl (fault, l, afl)
             else if \<not> non_instrumented_mode afl \<and> count_bytes afl (trace_bits afl) = 0 then Inl (FSRV_RUN_NOINST, l, afl)
             else Inr (fault, cal_compare w q (l, afl)))"

lemma look_for_new_max [simp]: "cal_max (fst (look_for_new w s)) = cal_max (fst s)"
  by (simp add: look_for_new_def split: prod.splits)

lemma look_for_new_maxD: "look_for_new w s = (l', afl') \<Longrightarrow> cal_max l' = cal_max (fst s)"
  using look_for_new_max [of w s] by simp

lemma cal_compare_max: "cal_max (fst (cal_compare w q s)) \<le> max (cal_max (fst s)) CAL_CYCLES_LONG"
  by (auto simp: cal_compare_def Let_def split: prod.splits dest!: look_for_new_maxD)

lemma cal_step_max:
  "cal_step w t q k s = Inr (fault, s') \<Longrightarrow> cal_max (fst s') \<le> max (cal_max (fst s)) CAL_CYCLES_LONG"
  using cal_compare_max by (fastforce simp: cal_step_def Let_def split: prod.splits if_splits)

text \<open>\<open>fault\<close> is that of the last run; the number of runs is returned as well.\<close>

function cal_loop :: "cal_world \<Rightarrow> u32 \<Rightarrow> qid \<Rightarrow> nat \<Rightarrow> fsrv_run_result \<Rightarrow> cal_loc \<times> 'a afl_cal_scheme
    \<Rightarrow> bool \<times> nat \<times> fsrv_run_result \<times> cal_loc \<times> 'a afl_cal_scheme" where
  "cal_loop w t q k fault s =
     (if \<not> k < cal_max (fst s) then (False, k, fault, s)
      else (case cal_step w t q k s of
              Inl (fault, s) \<Rightarrow> (True, k + 1, fault, s)
            | Inr (fault, s) \<Rightarrow> cal_loop w t q (k + 1) fault s))"
  by pat_completeness auto
termination
  by (relation "measure (\<lambda>(w, t, q, k, fault, s). max (cal_max (fst s)) CAL_CYCLES_LONG - k)")
     (auto dest!: cal_step_max)

declare cal_loop.simps [simp del]

definition cal_success :: "cal_world \<Rightarrow> qid \<Rightarrow> u32 \<Rightarrow> bool \<Rightarrow> fsrv_run_result \<Rightarrow> cal_loc \<Rightarrow> 'a afl_cal_scheme
    \<Rightarrow> fsrv_run_result \<times> 'a afl_cal_scheme" where
  "cal_success w q hc first_run fault l afl =
     (let sm = of_nat (cal_max l) :: u64;
          diff_us = (if q_fixed_seed afl then ucast (exec_tmout afl - 1) * sm
                     else if cw_elapsed w = 0 then 1 else cw_elapsed w);
          us = diff_us div sm;
          size = count_bytes afl (trace_bits afl);
          afl = afl\<lparr>total_cal_us := total_cal_us afl + diff_us, total_cal_cycles := total_cal_cycles afl + sm\<rparr>;
          afl = set_entry q (\<lambda>e. e\<lparr>exec_us := (if us = 0 then 1 else us), bitmap_size := size,
                                    handicap := ucast hc, cal_failed := 0\<rparr>) afl;
          afl = afl\<lparr>total_bitmap_size := total_bitmap_size afl + ucast size,
                    total_bitmap_entries := total_bitmap_entries afl + 1\<rparr>;
          afl = update_bitmap_score q True afl
      in (if \<not> non_instrumented_mode afl \<and> first_run \<and> fault = FSRV_RUN_OK \<and> cal_new_bits l = 0
          then FSRV_RUN_NOBITS else fault, afl))"

text \<open>From the label \<open>abort_calibration\<close> on.\<close>

definition cal_finish :: "qid \<Rightarrow> cal_loc \<Rightarrow> 'a afl_cal_scheme \<Rightarrow> 'a afl_cal_scheme" where
  "cal_finish q l afl =
     (let afl = (if cal_new_bits l = 2 \<and> \<not> has_new_cov (entry afl q)
                 then (set_entry q (\<lambda>e. e\<lparr>has_new_cov := True\<rparr>) afl)\<lparr>queued_with_cov := queued_with_cov afl + 1\<rparr>
                 else afl)
      in if cal_var l
         then let afl = afl\<lparr>var_byte_count := count_bytes afl (var_bytes afl)\<rparr>
              in if \<not> var_behavior (entry afl q) then afl\<lparr>queued_variable := queued_variable afl + 1\<rparr> else afl
         else afl)"

text \<open>The state in which the loop starts.\<close>

definition cal_begin :: "cal_world \<Rightarrow> qid \<Rightarrow> 'a afl_cal_scheme \<Rightarrow> cal_loc \<times> 'a afl_cal_scheme" where
  "cal_begin w q afl =
     (let afl = (if cmplog_mode afl then set_entry q (\<lambda>e. e\<lparr>exec_cksum := 0\<rparr>) afl else afl);
          afl = set_entry q (\<lambda>e. e\<lparr>cal_failed := cal_failed e + 1\<rparr>) afl;
          l = \<lparr>cal_new_bits = 0, cal_var = False,
               cal_max = (if afl_cal_fast afl then CAL_CYCLES_FAST else CAL_CYCLES)\<rparr>
      in if exec_cksum (entry afl q) \<noteq> 0
         then look_for_new w (l, afl\<lparr>first_trace := trace_bits afl\<rparr>)
         else (l, afl))"

text \<open>Besides the fault, whether calibration was aborted, and the number of runs.\<close>

definition calibrate_case :: "cal_world \<Rightarrow> qid \<Rightarrow> u32 \<Rightarrow> bool \<Rightarrow> 'a afl_cal_scheme
    \<Rightarrow> (fsrv_run_result \<times> bool \<times> nat) \<times> 'a afl_cal_scheme" where
  "calibrate_case w q hc from_queue afl =
     (let first_run = (exec_cksum (entry afl q) = 0)
      in case cal_loop w (cal_tmout from_queue afl) q 0 FSRV_RUN_OK (cal_begin w q afl) of
           (aborted, runs, fault, l, afl) \<Rightarrow>
             if aborted then ((fault, True, runs), cal_finish q l afl)
             else (case cal_success w q hc first_run fault l afl of
                     (fault, afl) \<Rightarrow> ((fault, False, runs), cal_finish q l afl)))"
section \<open>Steps\<close>

lemma zero_stays_seen:
  assumes "length c = length v" "i < length v" "v ! i = 0"
  shows "clear_seen c v ! i = 0"
  using assms by (simp add: clear_seen_def)

lemma look_for_new_frame:
  assumes "cov_ok afl" "look_for_new w (l, afl) = (l', afl')"
  obtains v b where "afl' = afl\<lparr>virgin_bits := v, bitmap_changed := b\<rparr>" "length v = unat (map_size afl)"
    "\<And>i. i < length v \<Longrightarrow> virgin_bits afl ! i = 0 \<Longrightarrow> v ! i = 0"
    "cal_var l' = cal_var l" "cal_max l' = cal_max l"
proof -
  let ?n = "scanned (cw_w64 w) afl" and ?t = "trace_bits afl" and ?v = "virgin_bits afl"
  let ?m = "clear_seen (take ?n ?t) (take ?n ?v) @ drop ?n ?v"
  have len: "length ?t = unat (map_size afl)" "length ?v = unat (map_size afl)" "?n \<le> unat (map_size afl)"
    using assms(1) cov_ok_bound(2) [OF assms(1)] by (auto simp: cov_ok_def dest: spec [of _ VIRGIN_BITS])
  obtain ret b where h: "has_new_bits (cw_w64 w) afl VIRGIN_BITS = (ret, (set_virgin VIRGIN_BITS ?m afl)\<lparr>bitmap_changed := b\<rparr>)"
    using has_new_bits_eq [OF assms(1) refl refl refl, of "cw_w64 w" VIRGIN_BITS] by simp
  show thesis
  proof
    show "afl' = afl\<lparr>virgin_bits := ?m, bitmap_changed := b\<rparr>" "cal_var l' = cal_var l" "cal_max l' = cal_max l"
      using assms(2) h by (auto simp: look_for_new_def split: if_splits)
    show "length ?m = unat (map_size afl)" using len by (simp add: clear_seen_def)
    show "?m ! i = 0" if "i < length ?m" "?v ! i = 0" for i
      using that len by (auto simp: nth_append clear_seen_def min_def)
  qed
qed

lemma mark_bytes:
  assumes "n \<le> length (var_bytes afl)" "n \<le> length (virgin_bits afl)"
  shows "\<exists>v g. fold mark_byte [0..<n] afl = afl\<lparr>var_bytes := v, virgin_bits := g\<rparr> \<and> length v = length (var_bytes afl)
    \<and> length g = length (virgin_bits afl)
    \<and> (\<forall>i. v ! i = (if i < n \<and> var_bytes afl ! i = 0 \<and> first_trace afl ! i \<noteq> trace_bits afl ! i then 1 else var_bytes afl ! i))
    \<and> (\<forall>i. g ! i = (if i < n \<and> var_bytes afl ! i = 0 \<and> first_trace afl ! i \<noteq> trace_bits afl ! i then 0 else virgin_bits afl ! i))"
  using assms
proof (induction n)
  case 0
  then show ?case by (intro exI [of _ "var_bytes afl"] exI [of _ "virgin_bits afl"]) simp
next
  case (Suc n)
  then obtain v g where f: "fold mark_byte [0..<n] afl = afl\<lparr>var_bytes := v, virgin_bits := g\<rparr>" "length v = length (var_bytes afl)"
      "length g = length (virgin_bits afl)"
      "\<And>i. v ! i = (if i < n \<and> var_bytes afl ! i = 0 \<and> first_trace afl ! i \<noteq> trace_bits afl ! i then 1 else var_bytes afl ! i)"
      "\<And>i. g ! i = (if i < n \<and> var_bytes afl ! i = 0 \<and> first_trace afl ! i \<noteq> trace_bits afl ! i then 0 else virgin_bits afl ! i)"
    by (auto simp: Suc_le_eq)
  let ?c = "var_bytes afl ! n = 0 \<and> first_trace afl ! n \<noteq> trace_bits afl ! n"
  have "fold mark_byte [0..<Suc n] afl = (if ?c then afl\<lparr>var_bytes := v[n := 1], virgin_bits := g[n := 0]\<rparr>
      else afl\<lparr>var_bytes := v, virgin_bits := g\<rparr>)"
    using f by (auto simp: mark_byte_def)
  then show ?case using f Suc.prems
    by (intro exI [of _ "if ?c then v[n := 1] else v"] exI [of _ "if ?c then g[n := 0] else g"])
       (auto simp: nth_list_update less_Suc_eq)
qed

text \<open>What the loop knows after \<open>k\<close> runs; \<open>T\<close> are the classified traces, \<open>s\<close> the state before.\<close>

definition cal_frame :: "qid \<Rightarrow> 'a afl_cal_scheme \<Rightarrow> 'a afl_cal_scheme \<Rightarrow> bool" where
  "cal_frame q s afl \<longleftrightarrow>
     cov_ok afl \<and> map_size afl = map_size s \<and> real_map_size afl = real_map_size s \<and> length (queue_buf afl) = length (queue_buf s)
     \<and> length (var_bytes afl) = unat (map_size s)
     \<and> crash_mode afl = crash_mode s \<and> non_instrumented_mode afl = non_instrumented_mode s \<and> afl_cal_fast afl = afl_cal_fast s
     \<and> queued_variable afl = queued_variable s \<and> var_behavior (entry afl q) = var_behavior (entry s q)"

definition cal_marked :: "'a afl_cal_scheme \<Rightarrow> (nat \<Rightarrow> bytes) \<Rightarrow> nat \<Rightarrow> bytes \<Rightarrow> bytes \<Rightarrow> bool" where
  "cal_marked s T k var virgin \<longleftrightarrow> (\<forall>i < unat (map_size s).
     (var ! i \<noteq> 0 \<longleftrightarrow> var_bytes s ! i \<noteq> 0 \<or> (\<exists>j<k. T j ! i \<noteq> T 0 ! i))
     \<and> (var_bytes s ! i = 0 \<and> var ! i \<noteq> 0 \<longrightarrow> virgin ! i = 0))"

definition cal_seen :: "cal_world \<Rightarrow> (nat \<Rightarrow> bytes) \<Rightarrow> nat \<Rightarrow> u64 \<Rightarrow> bool \<Rightarrow> bytes \<Rightarrow> bytes \<Rightarrow> bool" where
  "cal_seen w T k ck var first cur \<longleftrightarrow>
     (if k = 0 then ck = 0 \<and> \<not> var
      else ck = cw_hash w (T 0) \<and> first = T 0 \<and> cur = T (k - 1) \<and> (var \<longleftrightarrow> (\<exists>j<k. T j \<noteq> T 0)))"

definition cal_goal :: "'a afl_cal_scheme \<Rightarrow> bool \<Rightarrow> nat" where
  "cal_goal s var = (if var then (if afl_cal_fast s then CAL_CYCLES else CAL_CYCLES_LONG)
                     else (if afl_cal_fast s then CAL_CYCLES_FAST else CAL_CYCLES))"

definition cal_known :: "cal_world \<Rightarrow> qid \<Rightarrow> 'a afl_cal_scheme \<Rightarrow> (nat \<Rightarrow> bytes) \<Rightarrow> nat \<Rightarrow> cal_loc \<Rightarrow> 'a afl_cal_scheme \<Rightarrow> bool" where
  "cal_known w q s T k l afl \<longleftrightarrow> cal_frame q s afl \<and> cal_marked s T k (var_bytes afl) (virgin_bits afl)
     \<and> cal_seen w T k (exec_cksum (entry afl q)) (cal_var l) (first_trace afl) (trace_bits afl) \<and> cal_max l = cal_goal s (cal_var l)"

lemma cal_marked_same:
  "cal_marked s T k var virgin \<Longrightarrow> T k = T 0 \<Longrightarrow> cal_marked s T (Suc k) var virgin"
  by (auto simp: cal_marked_def less_Suc_eq)

lemma cal_marked_zero:
  assumes "cal_marked s T k var virgin" "\<And>i. i < unat (map_size s) \<Longrightarrow> virgin ! i = 0 \<Longrightarrow> virgin' ! i = 0"
  shows "cal_marked s T k var virgin'"
  using assms by (auto simp: cal_marked_def)

lemma cal_marked_more:
  assumes "cal_marked s T k var virgin"
    and "\<And>i. i < unat (map_size s) \<Longrightarrow> var' ! i = (if var ! i = 0 \<and> T 0 ! i \<noteq> T k ! i then 1 else var ! i)"
    and "\<And>i. i < unat (map_size s) \<Longrightarrow> virgin' ! i = (if var ! i = 0 \<and> T 0 ! i \<noteq> T k ! i then 0 else virgin ! i)"
  shows "cal_marked s T (Suc k) var' virgin'"
proof -
  have "(var' ! i \<noteq> 0 \<longleftrightarrow> var_bytes s ! i \<noteq> 0 \<or> (\<exists>j<Suc k. T j ! i \<noteq> T 0 ! i))
     \<and> (var_bytes s ! i = 0 \<and> var' ! i \<noteq> 0 \<longrightarrow> virgin' ! i = 0)" if i: "i < unat (map_size s)" for i
  proof -
    have "var ! i \<noteq> 0 \<longleftrightarrow> var_bytes s ! i \<noteq> 0 \<or> (\<exists>j<k. T j ! i \<noteq> T 0 ! i)"
      "var_bytes s ! i = 0 \<and> var ! i \<noteq> 0 \<Longrightarrow> virgin ! i = 0"
      using assms(1) i by (auto simp: cal_marked_def)
    moreover have "(\<exists>j<Suc k. T j ! i \<noteq> T 0 ! i) \<longleftrightarrow> (\<exists>j<k. T j ! i \<noteq> T 0 ! i) \<or> T k ! i \<noteq> T 0 ! i"
      by (metis less_Suc_eq)
    moreover have "var' ! i = (if var ! i = 0 \<and> T k ! i \<noteq> T 0 ! i then 1 else var ! i)"
      "virgin' ! i = (if var ! i = 0 \<and> T k ! i \<noteq> T 0 ! i then 0 else virgin ! i)"
      using assms(2,3) [OF i] by metis+
    ultimately show ?thesis by (smt (verit, best) one_neq_zero)
  qed
  then show ?thesis by (simp add: cal_marked_def)
qed

lemma cal_seen_first: "cal_seen w T (Suc 0) (cw_hash w (T 0)) False (T 0) (T 0)"
  by (simp add: cal_seen_def)

lemma cal_seen_start: "cal_seen w T 0 ck var first cur \<Longrightarrow> ck = 0 \<and> \<not> var"
  by (simp add: cal_seen_def)

lemma cal_seen_pos:
  "cal_seen w T k ck var first cur \<Longrightarrow> 0 < k \<Longrightarrow>
   ck = cw_hash w (T 0) \<and> first = T 0 \<and> cur = T (k - 1) \<and> (var \<longleftrightarrow> (\<exists>j<k. T j \<noteq> T 0))"
  by (simp add: cal_seen_def)

lemma cal_seen_var:
  assumes "cal_seen w T k ck var first cur"
  shows "var \<longleftrightarrow> (\<exists>j<k. T j \<noteq> T 0)"
proof (cases "k = 0")
  case True
  then show ?thesis using assms by (simp add: cal_seen_def)
next
  case False
  then show ?thesis using cal_seen_pos [OF assms] by blast
qed

lemma cal_seen_same:
  "cal_seen w T k ck var first cur \<Longrightarrow> 0 < k \<Longrightarrow> T k = T 0 \<Longrightarrow> cal_seen w T (Suc k) ck var first (T k)"
  by (auto simp: cal_seen_def less_Suc_eq)

lemma cal_seen_other:
  "cal_seen w T k ck var first cur \<Longrightarrow> 0 < k \<Longrightarrow> T k \<noteq> T 0 \<Longrightarrow> cal_seen w T (Suc k) ck True first (T k)"
  by (auto simp: cal_seen_def)

text \<open>The \<open>k\<close>-th run is as the fuzzer expects.\<close>

definition good_run :: "cal_world \<Rightarrow> u32 \<Rightarrow> 'a afl_cal_scheme \<Rightarrow> nat \<Rightarrow> bool" where
  "good_run w t s k \<longleftrightarrow>
     (case cw_run w t k of (fault, trace, stopped) \<Rightarrow>
        \<not> stopped \<and> fault = crash_mode s \<and> length trace = unat (map_size s)
        \<and> (non_instrumented_mode s \<or> count_bytes s trace \<noteq> 0))"

definition cal_trace :: "cal_world \<Rightarrow> u32 \<Rightarrow> nat \<Rightarrow> bytes" where
  "cal_trace w t k = map count_class_lookup8 (fst (snd (cw_run w t k)))"

lemma count_bytes_cong: "real_map_size a = real_map_size b \<Longrightarrow> count_bytes a m = count_bytes b m"
  by (simp add: count_bytes_def)

lemma cov_ok_cong:
  assumes "cov_ok a" "map_size b = map_size a" "real_map_size b = real_map_size a" "length (trace_bits b) = unat (map_size a)"
    "length (virgin_bits b) = unat (map_size a)" "virgin_tmout b = virgin_tmout a" "virgin_crash b = virgin_crash a"
  shows "cov_ok b"
proof -
  have "length (virgin_of vm b) = unat (map_size a)" for vm
    using assms(1,5-) by (cases vm) (auto simp: cov_ok_def dest: spec [of _ vm])
  then show ?thesis using assms by (simp add: cov_ok_def)
qed

lemma set_entry_cal [simp]:
  "virgin_bits (set_entry q f s) = virgin_bits s" "virgin_tmout (set_entry q f s) = virgin_tmout s"
  "virgin_crash (set_entry q f s) = virgin_crash s" "real_map_size (set_entry q f s) = real_map_size s"
  by (simp_all add: set_entry_def)

lemma set_entry_cal2 [simp]:
  fixes s :: "'a afl_cal_scheme"
  shows "first_trace (set_entry q f s) = first_trace s" "var_bytes (set_entry q f s) = var_bytes s"
    "crash_mode (set_entry q f s) = crash_mode s" "non_instrumented_mode (set_entry q f s) = non_instrumented_mode s"
    "afl_cal_fast (set_entry q f s) = afl_cal_fast s" "queued_variable (set_entry q f s) = queued_variable s"
    "queued_with_cov (set_entry q f s) = queued_with_cov s" "cmplog_mode (set_entry q f s) = cmplog_mode s"
  by (simp_all add: set_entry_def)

lemma cov_ok_lengths:
  "cov_ok a \<Longrightarrow> length (trace_bits a) = unat (map_size a)" "cov_ok a \<Longrightarrow> length (virgin_bits a) = unat (map_size a)"
  by (auto simp: cov_ok_def dest: spec [of _ VIRGIN_BITS])

text \<open>What the loop does after the \<open>k\<close>-th run does not depend on the trace before that run.\<close>

lemma cal_known_compare:
  fixes afl s :: "'a afl_cal_scheme"
  assumes kn: "cal_frame q s afl" "cal_marked s T k (var_bytes afl) (virgin_bits afl)"
      "cal_seen w T k (exec_cksum (entry afl q)) (cal_var l) (first_trace afl) prev" "cal_max l = cal_goal s (cal_var l)"
    and q: "q < length (queue_buf s)" and tk: "T k = map count_class_lookup8 (trace_bits afl)"
    and hash: "cw_hash w (T 0) \<noteq> 0" "cw_hash w (T k) = cw_hash w (T 0) \<Longrightarrow> T k = T 0"
    and res: "cal_compare w q (l, afl) = (l', afl')"
  shows "cal_known w q s T (Suc k) l' afl'"
proof -
  define a where "a = afl\<lparr>trace_bits := T k\<rparr>"
  have ok: "cov_ok afl" using kn(1) by (simp add: cal_frame_def)
  have a: "classify_counts (cw_w64 w) afl = a" "cov_ok a"
    using classify_counts_eq [OF ok, of "cw_w64 w"] classify_counts_ok [OF ok, of "cw_w64 w"] tk
    by (simp_all add: classify_counts_def a_def)
  have e: "entry a q = entry afl q" "trace_bits a = T k" by (simp_all add: a_def entry_def)
  have fr: "cal_frame q s a" using kn(1) a(2) by (simp add: cal_frame_def a_def entry_def)
  show ?thesis
  proof (cases "exec_cksum (entry a q) = cw_hash w (T k)")
    case True
    have "cal_compare w q (l, afl) = (l, a)" using True e(2) by (simp add: cal_compare_def Let_def a(1))
    then have r: "l' = l" "afl' = a" using res by simp_all
    have k: "0 < k"
    proof (rule ccontr)
      assume "\<not> 0 < k"
      then have "k = 0" by simp
      then show False using cal_seen_start [of w T] kn(3) True hash(1) e(1) by metis
    qed
    then have same: "T k = T 0" using cal_seen_pos [OF kn(3)] True hash(2) e(1) by metis
    show ?thesis using fr cal_marked_same [OF kn(2) same] cal_seen_same [OF kn(3) k same] kn(4)
      by (simp add: cal_known_def r e) (simp add: a_def)
  next
    case False
    obtain m b where look: "look_for_new w (l, a) = (m, b)" by force
    obtain v c where f: "b = a\<lparr>virgin_bits := v, bitmap_changed := c\<rparr>" "length v = unat (map_size a)"
      "\<And>i. i < length v \<Longrightarrow> virgin_bits a ! i = 0 \<Longrightarrow> v ! i = 0" "cal_var m = cal_var l" "cal_max m = cal_max l"
      by (rule look_for_new_frame [OF a(2) look]) (rule that)
    have bf: "cal_frame q s b" using fr f(1,2) cov_ok_cong [OF a(2), of b] cov_ok_lengths [OF a(2)]
      by (simp add: cal_frame_def entry_def)
    have be: "entry b q = entry afl q" "trace_bits b = T k" "first_trace b = first_trace afl" "var_bytes b = var_bytes afl"
      "virgin_bits b = v" "map_size b = map_size s" "afl_cal_fast b = afl_cal_fast s"
      using f(1) kn(1) by (simp_all add: a_def entry_def cal_frame_def)
    have bm: "cal_marked s T k (var_bytes afl) v"
      by (rule cal_marked_zero [OF kn(2)]) (use f(2,3) be(6) kn(1) in \<open>simp add: a_def cal_frame_def\<close>)
    show ?thesis
    proof (cases "k = 0")
      case True
      then have z: "exec_cksum (entry b q) = 0" "\<not> cal_var l" using cal_seen_start [of w T] kn(3) be(1) by (metis, metis)
      have r: "l' = m" "afl' = (set_entry q (\<lambda>e. e\<lparr>exec_cksum := cw_hash w (T 0)\<rparr>) b)\<lparr>first_trace := T 0\<rparr>"
        using res False look z(1) True be(2) e(2) by (simp_all add: cal_compare_def Let_def a(1))
      have "cov_ok afl'"
        by (rule cov_ok_cong [of b]) (use bf cov_ok_lengths [of b] be in \<open>simp_all add: r cal_frame_def\<close>)
      then have "cal_frame q s afl'" using bf q by (simp add: r cal_frame_def set_entry_def entry_def)
      moreover have "cal_marked s T (Suc k) (var_bytes afl') (virgin_bits afl')"
        using cal_marked_same [OF bm] True by (simp add: r be set_entry_def)
      moreover have "cal_seen w T (Suc k) (exec_cksum (entry afl' q)) (cal_var l') (first_trace afl') (trace_bits afl')"
        using cal_seen_first [of w T] True q z f(4) bf be by (simp add: r set_entry_def entry_def cal_frame_def)
      moreover have "cal_max l' = cal_goal s (cal_var l')" using f kn(4) r by simp
      ultimately show ?thesis by (simp add: cal_known_def)
    next
      case nz: False
      then have ck: "exec_cksum (entry b q) \<noteq> 0" using cal_seen_pos [OF kn(3)] hash(1) be(1) by (metis not_gr_zero)
      have d: "T k \<noteq> T 0" using False cal_seen_pos [OF kn(3)] nz e(1) by (metis not_gr_zero)
      have first: "first_trace b = T 0" using cal_seen_pos [OF kn(3)] nz be(3) by (metis not_gr_zero)
      obtain vb g where mk: "mark_var_bytes b = b\<lparr>var_bytes := vb, virgin_bits := g\<rparr>" "length vb = unat (map_size s)"
        "length g = unat (map_size s)"
        "\<And>i. vb ! i = (if i < unat (map_size s) \<and> var_bytes b ! i = 0 \<and> T 0 ! i \<noteq> T k ! i then 1 else var_bytes b ! i)"
        "\<And>i. g ! i = (if i < unat (map_size s) \<and> var_bytes b ! i = 0 \<and> T 0 ! i \<noteq> T k ! i then 0 else virgin_bits b ! i)"
        using mark_bytes [of "unat (map_size b)" b] bf be first cov_ok_lengths [of b] by (auto simp: mark_var_bytes_def cal_frame_def)
      have r: "l' = m\<lparr>cal_var := True, cal_max := cal_goal s True\<rparr>" "afl' = b\<lparr>var_bytes := vb, virgin_bits := g\<rparr>"
        using res False look ck be(7) mk(1) e(2) by (simp_all add: cal_compare_def Let_def a(1) cal_goal_def)
      have "cov_ok afl'"
        by (rule cov_ok_cong [of b]) (use bf cov_ok_lengths [of b] be(6) mk(3) in \<open>simp_all add: r cal_frame_def\<close>)
      then have "cal_frame q s afl'" using bf mk(2) be(6) by (simp add: r cal_frame_def entry_def)
      moreover have "cal_marked s T (Suc k) (var_bytes afl') (virgin_bits afl')"
        unfolding r using cal_marked_more [OF bm, of vb g] mk(4,5) be by simp
      moreover have "cal_seen w T (Suc k) (exec_cksum (entry afl' q)) (cal_var l') (first_trace afl') (trace_bits afl')"
        using cal_seen_other [OF kn(3) _ d] nz be by (simp add: r entry_def)
      ultimately show ?thesis by (simp add: cal_known_def r)
    qed
  qed
qed

section \<open>The whole calibration\<close>

lemma cal_step_good:
  assumes "good_run w t s k" "cal_frame q s afl" "cal_step w t q k (l, afl) = r"
  obtains fault l' afl' where "r = Inr (fault, l', afl')" "fault = crash_mode s"
    "cal_compare w q (l, afl\<lparr>trace_bits := fst (snd (cw_run w t k))\<rparr>) = (l', afl')"
proof -
  obtain fault trace stopped where r: "cw_run w t k = (fault, trace, stopped)" by (metis prod_cases3)
  have g: "\<not> stopped" "fault = crash_mode s" "non_instrumented_mode s \<or> count_bytes s trace \<noteq> 0"
    using assms(1) r by (simp_all add: good_run_def)
  have c: "count_bytes (afl\<lparr>trace_bits := trace\<rparr>) trace = count_bytes s trace"
    using assms(2) by (intro count_bytes_cong) (simp add: cal_frame_def)
  obtain l' afl' where p: "cal_compare w q (l, afl\<lparr>trace_bits := trace\<rparr>) = (l', afl')" by force
  have "r = Inr (fault, l', afl')"
    using assms(2,3) g c p by (auto simp: cal_step_def r Let_def cal_frame_def)
  then show thesis using that g(2) p r by simp
qed

lemma cal_known_step:
  assumes kn: "cal_known w q s T k l afl" and q: "q < length (queue_buf s)" and good: "good_run w t s k"
    and T: "T = cal_trace w t" and hash: "cw_hash w (T 0) \<noteq> 0" "cw_hash w (T k) = cw_hash w (T 0) \<Longrightarrow> T k = T 0"
  obtains l' afl' where "cal_step w t q k (l, afl) = Inr (crash_mode s, l', afl')" "cal_known w q s T (Suc k) l' afl'"
proof -
  let ?tr = "fst (snd (cw_run w t k))"
  let ?a = "afl\<lparr>trace_bits := ?tr\<rparr>"
  note kn = kn [unfolded cal_known_def]
  have len: "length ?tr = unat (map_size s)" using good by (auto simp: good_run_def split: prod.splits)
  have "cov_ok ?a"
    by (rule cov_ok_cong [of afl]) (use kn len cov_ok_lengths [of afl] in \<open>simp_all add: cal_frame_def\<close>)
  then have fr: "cal_frame q s ?a" using kn by (simp add: cal_frame_def entry_def)
  obtain l' afl' where st: "cal_step w t q k (l, afl) = Inr (crash_mode s, l', afl')" "cal_compare w q (l, ?a) = (l', afl')"
    using kn by (metis cal_step_good [OF good _ refl])
  have tk: "T k = map count_class_lookup8 (trace_bits ?a)" by (simp add: T cal_trace_def)
  have "cal_known w q s T (Suc k) l' afl'"
    by (rule cal_known_compare [OF fr _ _ _ q tk hash st(2), where prev = "trace_bits afl"])
       (use kn in \<open>simp_all add: entry_def\<close>)
  with st(1) show thesis by (rule that)
qed

text \<open>The number of runs when all of them are good.\<close>

definition cal_cycles :: "'a afl_cal_scheme \<Rightarrow> (nat \<Rightarrow> bytes) \<Rightarrow> nat" where
  "cal_cycles s T = cal_goal s (\<exists>j < cal_goal s False. T j \<noteq> T 0)"

lemma cal_goal_bounds: "cal_goal s v \<le> CAL_CYCLES_LONG" "cal_goal s False \<le> cal_goal s v" "3 \<le> cal_goal s v"
  by (simp_all add: cal_goal_def)

lemma cal_loop_good:
  assumes kn: "cal_known w q s T k l afl" and q: "q < length (queue_buf s)" and T: "T = cal_trace w t"
    and good: "\<And>i. i < CAL_CYCLES_LONG \<Longrightarrow> good_run w t s i"
    and hash: "cw_hash w (T 0) \<noteq> 0" "\<And>i. i < CAL_CYCLES_LONG \<Longrightarrow> cw_hash w (T i) = cw_hash w (T 0) \<Longrightarrow> T i = T 0"
    and k: "k \<le> cal_goal s (cal_var l)" "0 < k \<longrightarrow> fault = crash_mode s" "cal_var l \<longrightarrow> (\<exists>j < cal_goal s False. T j \<noteq> T 0)"
  shows "\<exists>l' afl'. cal_loop w t q k fault (l, afl) = (False, cal_cycles s T, crash_mode s, l', afl')
    \<and> cal_known w q s T (cal_cycles s T) l' afl'"
  using kn k
proof (induction "CAL_CYCLES_LONG - k" arbitrary: k fault l afl rule: less_induct)
  case less
  note kn = less.prems(1) [unfolded cal_known_def]
  have m: "cal_max l = cal_goal s (cal_var l)" using kn by simp
  have var: "cal_var l \<longleftrightarrow> (\<exists>j<k. T j \<noteq> T 0)"
    using kn cal_seen_var by blast
  show ?case
  proof (cases "k < cal_max l")
    case True
    have l12: "k < CAL_CYCLES_LONG" using True m cal_goal_bounds(1) [of s "cal_var l"] by linarith
    obtain l' afl' where st: "cal_step w t q k (l, afl) = Inr (crash_mode s, l', afl')" "cal_known w q s T (Suc k) l' afl'"
      using cal_known_step [OF less.prems(1) q good [OF l12] T hash(1) hash(2) [OF l12]] by blast
    have v: "cal_var l' \<longleftrightarrow> (\<exists>j<Suc k. T j \<noteq> T 0)"
      using st(2) cal_seen_pos by (metis cal_known_def zero_less_Suc)
    have up: "Suc k \<le> cal_goal s (cal_var l')"
    proof (cases "cal_var l")
      case vl: True
      then have "cal_var l'" using var v by (metis less_SucI)
      then show ?thesis using True m vl by simp
    next
      case vl: False
      then have "Suc k \<le> cal_goal s False" using True m by simp
      then show ?thesis using cal_goal_bounds(2) by (rule order_trans)
    qed
    have ex: "cal_var l' \<longrightarrow> (\<exists>j < cal_goal s False. T j \<noteq> T 0)"
      using v var less.prems(4) True m by (metis less_Suc_eq)
    have "CAL_CYCLES_LONG - Suc k < CAL_CYCLES_LONG - k" using l12 by simp
    from less.hyps [OF this st(2) up _ ex, of "crash_mode s"] show ?thesis
      using True st(1) by (subst cal_loop.simps) simp
  next
    case False
    then have k: "k = cal_goal s (cal_var l)" using m less.prems(2) by simp
    have "(\<exists>j < cal_goal s False. T j \<noteq> T 0) \<longleftrightarrow> cal_var l" using var k less.prems(4) by metis
    then have c: "cal_cycles s T = k" using k by (simp add: cal_cycles_def)
    have "fault = crash_mode s" using less.prems(3) k cal_goal_bounds(3) [of s "cal_var l"] by simp
    then show ?thesis using False c less.prems(1) by (subst cal_loop.simps) simp
  qed
qed

text \<open>A state in which calibration starts afresh.\<close>

lemma cal_begin_fresh:
  assumes "q < length (queue_buf s)" "exec_cksum (entry s q) = 0 \<or> cmplog_mode s" "cov_ok s" "length (var_bytes s) = unat (map_size s)"
    and "cal_begin w q s = (l, afl)"
  shows "cal_known w q s T 0 l afl" "cal_var l = False" "cal_new_bits l = 0"
proof -
  define a where "a = set_entry q (\<lambda>e. e\<lparr>cal_failed := cal_failed e + 1\<rparr>) (if cmplog_mode s then set_entry q (\<lambda>e. e\<lparr>exec_cksum := 0\<rparr>) s else s)"
  have z: "exec_cksum (entry a q) = 0" using assms(1,2) by (auto simp: a_def)
  have r: "afl = a" "l = \<lparr>cal_new_bits = 0, cal_var = False, cal_max = cal_goal s False\<rparr>"
    using assms(5) z by (auto simp: cal_begin_def Let_def a_def cal_goal_def set_entry_def)
  have "cov_ok a"
    by (rule cov_ok_cong [OF assms(3)]) (use cov_ok_lengths [OF assms(3)] in \<open>simp_all add: a_def set_entry_def\<close>)
  moreover have "var_behavior (entry a q) = var_behavior (entry s q)" using assms(1) by (simp add: a_def)
  ultimately have "cal_frame q s a" using assms(4) by (simp add: cal_frame_def a_def)
  moreover have "cal_marked s T 0 (var_bytes a) (virgin_bits a)"
    by (simp add: cal_marked_def a_def set_entry_def)
  ultimately show "cal_known w q s T 0 l afl" "cal_var l = False" "cal_new_bits l = 0"
    using z by (simp_all add: cal_known_def cal_seen_def r)
qed

section \<open>Frames\<close>

text \<open>Rating an entry changes two fields of the entries only.\<close>

definition only_rated :: "queue_entry \<Rightarrow> queue_entry \<Rightarrow> bool" where
  "only_rated e e' \<longleftrightarrow> (\<exists>x y. e' = e\<lparr>tc_ref := x, trace_mini := y\<rparr>)"

lemma only_rated_refl: "only_rated e e"
  unfolding only_rated_def by (rule exI [of _ "tc_ref e"], rule exI [of _ "trace_mini e"]) simp

lemma only_rated_trans: "only_rated e f \<Longrightarrow> only_rated f g \<Longrightarrow> only_rated e g"
  unfolding only_rated_def by (elim exE) (simp, blast)

lemma release_winner_rated: "only_rated (entry s p) (entry (release_winner v s) p)"
proof -
  have "only_rated e (let e = e\<lparr>tc_ref := tc_ref e - 1\<rparr> in if tc_ref e = 0 then e\<lparr>trace_mini := None\<rparr> else e)" for e
    unfolding only_rated_def Let_def
    by (rule exI [of _ "tc_ref e - 1"], rule exI [of _ "if tc_ref e - 1 = 0 then None else trace_mini e"]) simp
  then show ?thesis unfolding release_winner_def entry_set_entry by (simp add: only_rated_refl)
qed

lemma insert_winner_rated: "only_rated (entry s p) (entry (insert_winner ml q i s) p)"
proof -
  have "entry (insert_winner ml q i s) p = entry (set_entry q (\<lambda>e. e\<lparr>tc_ref := tc_ref e + 1,
      trace_mini := (case trace_mini e of None \<Rightarrow> Some (minimize_bits s (replicate ml 0) (trace_bits s)) | Some m \<Rightarrow> Some m)\<rparr>) s) p"
    by (simp add: insert_winner_def Let_def entry_def)
  then show ?thesis using only_rated_refl by (auto simp: only_rated_def)
qed

lemma score_slot_rated: "only_rated (entry s p) (entry (score_slot q i s) p)"
  using only_rated_trans [OF release_winner_rated insert_winner_rated]
  by (auto simp: score_slot_def contest_def only_rated_refl insert_winner_rated split: option.split)

lemma rated_entry: "only_rated (entry s p) (entry (update_bitmap_score q t s) p)"
proof -
  have "only_rated (entry s p) (entry (fold (score_slot q) is s) p)" for "is"
    by (induction "is" arbitrary: s) (auto intro: only_rated_trans [OF score_slot_rated] simp: only_rated_refl)
  then show ?thesis by (simp add: update_bitmap_score_def only_rated_refl)
qed

lemma rated_fields [simp]:
  "exec_cksum (entry (update_bitmap_score q t s) p) = exec_cksum (entry s p)"
  "cal_failed (entry (update_bitmap_score q t s) p) = cal_failed (entry s p)"
  "bitmap_size (entry (update_bitmap_score q t s) p) = bitmap_size (entry s p)"
  "exec_us (entry (update_bitmap_score q t s) p) = exec_us (entry s p)"
  "handicap (entry (update_bitmap_score q t s) p) = handicap (entry s p)"
  "var_behavior (entry (update_bitmap_score q t s) p) = var_behavior (entry s p)"
  "has_new_cov (entry (update_bitmap_score q t s) p) = has_new_cov (entry s p)"
  "q_len (entry (update_bitmap_score q t s) p) = q_len (entry s p)"
  "testcase_buf (entry (update_bitmap_score q t s) p) = testcase_buf (entry s p)"
  using rated_entry [of s p q t] by (auto simp: only_rated_def)

lemma contest_frame:
  fixes s :: "'a afl_cal_scheme"
  shows "contest ml q i s = s\<lparr>queue_buf := queue_buf (contest ml q i s), top_rated := top_rated (contest ml q i s),
    score_changed := score_changed (contest ml q i s)\<rparr>"
  by (auto simp: contest_def insert_winner_def release_winner_def set_entry_def Let_def split: option.split)

lemma rated_frame_ex:
  fixes s :: "'a afl_cal_scheme"
  shows "\<exists>b t c. update_bitmap_score q h s = s\<lparr>queue_buf := b, top_rated := t, score_changed := c\<rparr> \<and> length b = length (queue_buf s)"
proof -
  have same: "\<exists>b t c. s = s\<lparr>queue_buf := b, top_rated := t, score_changed := c\<rparr> \<and> length b = length (queue_buf s)" for s :: "'a afl_cal_scheme"
    by (rule exI [of _ "queue_buf s"], rule exI [of _ "top_rated s"], rule exI [of _ "score_changed s"]) simp
  have slot: "\<exists>b t c. score_slot q i s = s\<lparr>queue_buf := b, top_rated := t, score_changed := c\<rparr> \<and> length b = length (queue_buf s)"
    for i and s :: "'a afl_cal_scheme"
    using same [of s] contest_frame [of "(unat (map_size s) + 7) div 8" q i s] rating_frame_contest [of _ q i s]
    by (auto simp: score_slot_def rating_frame_def)
  have "\<exists>b t c. fold (score_slot q) is s = s\<lparr>queue_buf := b, top_rated := t, score_changed := c\<rparr> \<and> length b = length (queue_buf s)" for "is"
  proof (induction "is" arbitrary: s)
    case (Cons i "is")
    obtain b t c where "score_slot q i s = s\<lparr>queue_buf := b, top_rated := t, score_changed := c\<rparr>" "length b = length (queue_buf s)"
      using slot by blast
    then show ?case using Cons.IH [of "score_slot q i s"] by auto
  qed (use same in simp)
  then show ?thesis using same by (simp add: update_bitmap_score_def)
qed

lemma rated_state [simp]:
  fixes s :: "'a afl_cal_scheme"
  shows "var_bytes (update_bitmap_score q h s) = var_bytes s" "virgin_bits (update_bitmap_score q h s) = virgin_bits s"
    "queued_variable (update_bitmap_score q h s) = queued_variable s" "queued_with_cov (update_bitmap_score q h s) = queued_with_cov s"
    "real_map_size (update_bitmap_score q h s) = real_map_size s" "length (queue_buf (update_bitmap_score q h s)) = length (queue_buf s)"
    "non_instrumented_mode (update_bitmap_score q h s) = non_instrumented_mode s" "map_size (update_bitmap_score q h s) = map_size s"
  using rated_frame_ex [of q h s] by auto

text \<open>The loop changes the maps and the checksum of the entry, and nothing else of the queue.\<close>

definition cal_rest :: "'a afl_cal_scheme \<Rightarrow> 'a afl_cal_scheme \<Rightarrow> bool" where
  "cal_rest s t \<longleftrightarrow> afl_cal.more t = afl_cal.more s \<and> exec_tmout t = exec_tmout s \<and> crash_mode t = crash_mode s
     \<and> non_instrumented_mode t = non_instrumented_mode s \<and> virgin_tmout t = virgin_tmout s \<and> virgin_crash t = virgin_crash s
     \<and> max_cache_size t = max_cache_size s"

lemma cal_rest_trans: "cal_rest s t \<Longrightarrow> cal_rest t u \<Longrightarrow> cal_rest s u"
  by (simp add: cal_rest_def)

definition cal_quiet :: "qid \<Rightarrow> 'a afl_cal_scheme \<Rightarrow> 'a afl_cal_scheme \<Rightarrow> bool" where
  "cal_quiet q s t \<longleftrightarrow> (\<exists>c. queue_buf t = (queue_buf s)[q := (entry s q)\<lparr>exec_cksum := c\<rparr>]) \<and> top_rated t = top_rated s
     \<and> queued_with_cov t = queued_with_cov s \<and> queued_variable t = queued_variable s \<and> real_map_size t = real_map_size s
     \<and> cal_rest s t"

lemma cal_quiet_refl: "queue_buf t = queue_buf s \<Longrightarrow> top_rated t = top_rated s \<Longrightarrow> queued_with_cov t = queued_with_cov s
    \<Longrightarrow> queued_variable t = queued_variable s \<Longrightarrow> real_map_size t = real_map_size s \<Longrightarrow> cal_rest s t \<Longrightarrow> cal_quiet q s t"
  unfolding cal_quiet_def by (intro conjI exI [of _ "exec_cksum (entry s q)"]) (simp_all add: entry_def)

lemma cal_quiet_trans: "cal_quiet q s t \<Longrightarrow> cal_quiet q t u \<Longrightarrow> cal_quiet q s u"
  by (cases "q < length (queue_buf s)") (auto simp: cal_quiet_def entry_def list_update_beyond intro: cal_rest_trans)

lemma look_for_new_quiet: "look_for_new w (l, s) = (l', t) \<Longrightarrow> cal_quiet q s t"
  by (rule cal_quiet_refl) (auto simp: cal_rest_def look_for_new_def has_new_bits_def Let_def split: prod.splits if_splits)

lemma mark_var_bytes_quiet: "cal_quiet q s (mark_var_bytes s)"
proof -
  have "cal_quiet q s (fold mark_byte is s)" for "is"
  proof (induction "is" arbitrary: s)
    case Nil
    then show ?case by (auto intro: cal_quiet_refl simp: cal_rest_def)
  next
    case (Cons i "is")
    have "cal_quiet q s (mark_byte i s)" by (rule cal_quiet_refl) (simp_all add: mark_byte_def cal_rest_def)
    then show ?case using cal_quiet_trans Cons.IH [of "mark_byte i s"] by fastforce
  qed
  then show ?thesis by (simp add: mark_var_bytes_def)
qed

lemma cal_compare_quiet:
  assumes "cal_compare w q (l, s) = (l', t)"
  shows "cal_quiet q s t"
proof -
  let ?a = "classify_counts (cw_w64 w) s"
  have a: "cal_quiet q s ?a" by (rule cal_quiet_refl) (simp_all add: classify_counts_def cal_rest_def)
  obtain m b where look: "look_for_new w (l, ?a) = (m, b)" by force
  have b: "cal_quiet q s b" by (rule cal_quiet_trans [OF a look_for_new_quiet [OF look]])
  have "cal_quiet q b ((set_entry q (\<lambda>e. e\<lparr>exec_cksum := c\<rparr>) b)\<lparr>first_trace := f\<rparr>)" for c f
    unfolding cal_quiet_def cal_rest_def by (intro conjI exI [of _ c]) (simp_all add: set_entry_def entry_def)
  then show ?thesis using assms a look cal_quiet_trans [OF b] mark_var_bytes_quiet [of q b]
    by (auto simp: cal_compare_def Let_def split: if_splits)
qed

lemma cal_step_quiet:
  assumes "cal_step w t q k (l, s) = r"
  shows "case r of Inl (fault, l', u) \<Rightarrow> cal_quiet q s u | Inr (fault, l', u) \<Rightarrow> cal_quiet q s u"
proof -
  obtain fault trace stopped where r: "cw_run w t k = (fault, trace, stopped)" by (metis prod_cases3)
  have a: "cal_quiet q s (s\<lparr>trace_bits := trace\<rparr>)" by (rule cal_quiet_refl) (simp_all add: cal_rest_def)
  obtain l' u where c: "cal_compare w q (l, s\<lparr>trace_bits := trace\<rparr>) = (l', u)" by force
  then have "cal_quiet q s u" using cal_quiet_trans [OF a cal_compare_quiet] by blast
  then show ?thesis using assms r c a by (auto simp: cal_step_def Let_def split: if_splits)
qed

lemma cal_loop_quiet:
  assumes "cal_loop w t q k fault (l, s) = (aborted, n, fault', l', u)" "cal_max l \<le> CAL_CYCLES_LONG" "k \<le> CAL_CYCLES_LONG"
  shows "cal_quiet q s u \<and> n \<le> CAL_CYCLES_LONG \<and> k \<le> n"
  using assms
proof (induction "CAL_CYCLES_LONG - k" arbitrary: k fault l s rule: less_induct)
  case less
  show ?case
  proof (cases "k < cal_max l")
    case False
    then show ?thesis using less.prems by (subst (asm) cal_loop.simps) (auto intro: cal_quiet_refl simp: cal_rest_def)
  next
    case True
    show ?thesis
    proof (cases "cal_step w t q k (l, s)")
      case (Inl r)
      then show ?thesis using less.prems True cal_step_quiet [OF Inl]
        by (subst (asm) cal_loop.simps) (auto split: prod.splits)
    next
      case (Inr r)
      obtain f m v where r: "r = (f, m, v)" by (metis prod_cases3)
      have q: "cal_quiet q s v" using cal_step_quiet [OF Inr] r by simp
      have "cal_max m \<le> CAL_CYCLES_LONG" using cal_step_max [of w t q k "(l, s)"] Inr r less.prems(2) by fastforce
      moreover have "cal_loop w t q (k + 1) f (m, v) = (aborted, n, fault', l', u)"
        using less.prems(1) True Inr r by (subst (asm) cal_loop.simps) simp
      moreover have "CAL_CYCLES_LONG - (k + 1) < CAL_CYCLES_LONG - k" "k + 1 \<le> CAL_CYCLES_LONG" using True less.prems(2) by simp_all
      ultimately have "cal_quiet q v u \<and> n \<le> CAL_CYCLES_LONG \<and> k + 1 \<le> n" using less.hyps by blast
      then show ?thesis using cal_quiet_trans [OF q] by auto
    qed
  qed
qed

section \<open>The counters\<close>

text \<open>\<open>queued_with_cov\<close> counts the entries marked with new coverage.\<close>

definition covs_counted :: "'a afl_cal_scheme \<Rightarrow> bool" where
  "covs_counted s \<longleftrightarrow> queued_with_cov s = of_nat (length (filter has_new_cov (queue_buf s)))"

lemma filter_update_other:
  assumes "P x = P (xs ! i)"
  shows "length (filter P (xs[i := x])) = length (filter P xs)"
  using assms by (induction xs arbitrary: i) (auto split: nat.split)

lemma filter_update_new:
  assumes "i < length xs" "P x" "\<not> P (xs ! i)"
  shows "length (filter P (xs[i := x])) = Suc (length (filter P xs))"
  using assms by (induction xs arbitrary: i) (auto simp: nth_Cons split: nat.splits)

lemma filter_pointwise:
  assumes "length xs = length ys" "\<And>i. i < length xs \<Longrightarrow> P (xs ! i) = P (ys ! i)"
  shows "length (filter P xs) = length (filter P ys)"
  using assms by (induction rule: list_induct2) (auto simp: nth_Cons split: nat.splits, force+)

lemma covs_quiet: "covs_counted s \<Longrightarrow> cal_quiet q s t \<Longrightarrow> covs_counted t"
  unfolding covs_counted_def cal_quiet_def by (elim exE conjE) (simp add: filter_update_other entry_def)

lemma covs_set_entry:
  assumes "covs_counted s" "\<And>e. has_new_cov (f e) = has_new_cov e"
  shows "covs_counted (set_entry q f s)"
  using assms filter_update_other [of has_new_cov "f (entry s q)" "queue_buf s" q]
  by (simp add: covs_counted_def set_entry_def entry_def)

lemma covs_rated: "covs_counted s \<Longrightarrow> covs_counted (update_bitmap_score q h s)"
  using filter_pointwise [of "queue_buf (update_bitmap_score q h s)" "queue_buf s" has_new_cov] rated_fields(7) [of q h s]
  by (simp add: covs_counted_def entry_def)

lemma cal_success_state:
  assumes "cal_success w q hc fr fault l s = (fault', t)"
  shows "\<exists>us a b c d. 1 \<le> us \<and> t = update_bitmap_score q True
    ((set_entry q (\<lambda>e. e\<lparr>exec_us := us, bitmap_size := count_bytes s (trace_bits s), handicap := ucast hc, cal_failed := 0\<rparr>) s)
       \<lparr>total_cal_us := a, total_cal_cycles := b, total_bitmap_size := c, total_bitmap_entries := d\<rparr>)
    \<and> fault' = (if \<not> non_instrumented_mode s \<and> fr \<and> fault = FSRV_RUN_OK \<and> cal_new_bits l = 0 then FSRV_RUN_NOBITS else fault)"
proof -
  define sm where "sm = (of_nat (cal_max l) :: u64)"
  define diff where "diff = (if q_fixed_seed s then ucast (exec_tmout s - 1) * sm else if cw_elapsed w = 0 then 1 else cw_elapsed w)"
  define us where "us = (if diff div sm = 0 then 1 else diff div sm)"
  have "1 \<le> us" by (simp add: us_def word_le_nat_alt) (metis One_nat_def Suc_leI unat_gt_0)
  moreover have "t = update_bitmap_score q True
    ((set_entry q (\<lambda>e. e\<lparr>exec_us := us, bitmap_size := count_bytes s (trace_bits s), handicap := ucast hc, cal_failed := 0\<rparr>) s)
       \<lparr>total_cal_us := total_cal_us s + diff, total_cal_cycles := total_cal_cycles s + sm,
        total_bitmap_size := total_bitmap_size s + ucast (count_bytes s (trace_bits s)), total_bitmap_entries := total_bitmap_entries s + 1\<rparr>)"
  proof -
    let ?f = "\<lambda>e. e\<lparr>exec_us := us, bitmap_size := count_bytes s (trace_bits s), handicap := ucast hc, cal_failed := 0\<rparr>"
    have c: "set_entry q ?f (s\<lparr>total_cal_us := x, total_cal_cycles := y\<rparr>) = (set_entry q ?f s)\<lparr>total_cal_us := x, total_cal_cycles := y\<rparr>" for x y
      by (rule afl_cal.equality) (simp_all add: set_entry_def entry_def)
    have "total_bitmap_size (set_entry q ?f s) = total_bitmap_size s" "total_bitmap_entries (set_entry q ?f s) = total_bitmap_entries s"
      by (simp_all add: set_entry_def)
    moreover have "count_bytes (s\<lparr>total_cal_us := x, total_cal_cycles := y\<rparr>) m = count_bytes s m" for x y m
      by (rule count_bytes_cong) simp
    moreover have "t = snd (cal_success w q hc fr fault l s)" using assms by simp
    ultimately show ?thesis
      unfolding cal_success_def Let_def sm_def [symmetric] snd_conv
      unfolding diff_def [symmetric] unfolding us_def [symmetric] by (simp add: c)
  qed
  moreover have "fault' = (if \<not> non_instrumented_mode s \<and> fr \<and> fault = FSRV_RUN_OK \<and> cal_new_bits l = 0 then FSRV_RUN_NOBITS else fault)"
    using assms by (auto simp: cal_success_def Let_def)
  ultimately show ?thesis by blast
qed

lemma covs_success: "covs_counted s \<Longrightarrow> cal_success w q hc fr fault l s = (fault', t) \<Longrightarrow> covs_counted t"
  using cal_success_state [of w q hc fr fault l s fault' t] covs_set_entry [of s]
  by (auto intro!: covs_rated) (simp add: covs_counted_def)

lemma entry_counters [simp]:
  fixes s :: "'a afl_cal_scheme"
  shows "entry (s\<lparr>queued_with_cov := x\<rparr>) p = entry s p" "entry (s\<lparr>queued_variable := x\<rparr>) p = entry s p"
    "entry (s\<lparr>var_byte_count := x\<rparr>) p = entry s p"
  by (simp_all add: entry_def)

lemma covs_finish:
  assumes "covs_counted s" "q < length (queue_buf s)"
  shows "covs_counted (cal_finish q l s)"
proof -
  let ?t = "(set_entry q (\<lambda>e. e\<lparr>has_new_cov := True\<rparr>) s)\<lparr>queued_with_cov := queued_with_cov s + 1\<rparr>"
  have "covs_counted ?t" if "\<not> has_new_cov (entry s q)"
    using assms filter_update_new [of q "queue_buf s" has_new_cov "(entry s q)\<lparr>has_new_cov := True\<rparr>"] that
    by (simp add: covs_counted_def set_entry_def entry_def)
  moreover have "covs_counted (u\<lparr>var_byte_count := x\<rparr>) = covs_counted u" "covs_counted (u\<lparr>queued_variable := y\<rparr>) = covs_counted u"
    for u :: "'a afl_cal_scheme" and x y by (simp_all add: covs_counted_def)
  ultimately show ?thesis using assms(1) by (simp add: cal_finish_def Let_def)
qed

lemma cal_begin_quiet:
  assumes "cal_begin w q s = (l, t)" "covs_counted s"
  shows "covs_counted t" "length (queue_buf t) = length (queue_buf s)" "cal_max l \<le> CAL_CYCLES_LONG" "top_rated t = top_rated s"
    "cal_rest s t" "q < length (queue_buf s) \<Longrightarrow> \<exists>c. entry t q = (entry s q)\<lparr>exec_cksum := c, cal_failed := cal_failed (entry s q) + 1\<rparr>"
proof -
  define a where "a = set_entry q (\<lambda>e. e\<lparr>cal_failed := cal_failed e + 1\<rparr>) (if cmplog_mode s then set_entry q (\<lambda>e. e\<lparr>exec_cksum := 0\<rparr>) s else s)"
  let ?l = "\<lparr>cal_new_bits = 0, cal_var = False, cal_max = (if afl_cal_fast s then CAL_CYCLES_FAST else CAL_CYCLES)\<rparr>"
  have a: "covs_counted a" "length (queue_buf a) = length (queue_buf s)" "top_rated a = top_rated s"
    using assms(2) by (auto simp: a_def intro!: covs_set_entry)
  have ar: "cal_rest s a" by (simp add: cal_rest_def a_def set_entry_def)
  have e: "\<exists>c. entry a q = (entry s q)\<lparr>exec_cksum := c, cal_failed := cal_failed (entry s q) + 1\<rparr>" if "q < length (queue_buf s)"
    using that by (cases "cmplog_mode s") (auto simp: a_def intro: exI [of _ 0] exI [of _ "exec_cksum (entry s q)"])
  have "(l, t) = (?l, a) \<or> look_for_new w (?l, a\<lparr>first_trace := trace_bits a\<rparr>) = (l, t)"
    using assms(1) unfolding cal_begin_def Let_def a_def by (auto split: if_splits)
  moreover have "cal_quiet q a (a\<lparr>first_trace := trace_bits a\<rparr>)" by (rule cal_quiet_refl) (simp_all add: cal_rest_def)
  then have "look_for_new w (?l, a\<lparr>first_trace := trace_bits a\<rparr>) = (l, t) \<Longrightarrow> cal_quiet q a t"
    by (rule cal_quiet_trans [OF _ look_for_new_quiet])
  ultimately have "cal_quiet q a t" "cal_max l \<le> CAL_CYCLES_LONG"
    by (auto simp: cal_quiet_refl cal_rest_def dest: look_for_new_maxD)
  then show "covs_counted t" "length (queue_buf t) = length (queue_buf s)" "cal_max l \<le> CAL_CYCLES_LONG" "top_rated t = top_rated s"
    using a covs_quiet [OF a(1)] by (auto simp: cal_quiet_def)
  show "cal_rest s t" using \<open>cal_quiet q a t\<close> cal_rest_trans [OF ar] by (auto simp: cal_quiet_def)
  assume q: "q < length (queue_buf s)"
  obtain c where "entry a q = (entry s q)\<lparr>exec_cksum := c, cal_failed := cal_failed (entry s q) + 1\<rparr>" using e [OF q] by blast
  moreover obtain c' where "queue_buf t = (queue_buf a)[q := (entry a q)\<lparr>exec_cksum := c'\<rparr>]"
    using \<open>cal_quiet q a t\<close> by (auto simp: cal_quiet_def)
  ultimately have "entry t q = (entry s q)\<lparr>exec_cksum := c', cal_failed := cal_failed (entry s q) + 1\<rparr>"
    using q a(2) by (simp add: entry_def)
  then show "\<exists>c. entry t q = (entry s q)\<lparr>exec_cksum := c, cal_failed := cal_failed (entry s q) + 1\<rparr>" by blast
qed

lemma calibrate_parts:
  obtains l t u l' aborted n fault where "cal_begin w q s = (l, t)"
    "cal_loop w (cal_tmout fq s) q 0 FSRV_RUN_OK (l, t) = (aborted, n, fault, l', u)"
    "calibrate_case w q hc fq s = (if aborted then ((fault, True, n), cal_finish q l' u)
       else ((fst (cal_success w q hc (exec_cksum (entry s q) = 0) fault l' u), False, n),
             cal_finish q l' (snd (cal_success w q hc (exec_cksum (entry s q) = 0) fault l' u))))"
proof -
  obtain l t where b: "cal_begin w q s = (l, t)" by force
  obtain aborted n fault l' u where c: "cal_loop w (cal_tmout fq s) q 0 FSRV_RUN_OK (l, t) = (aborted, n, fault, l', u)"
    by (metis prod_cases5)
  show thesis by (rule that [OF b c]) (simp add: calibrate_case_def b c split: prod.split)
qed

lemma calibrate_counts:
  assumes "covs_counted s" "q < length (queue_buf s)" "calibrate_case w q hc fq s = (r, s')"
  shows "covs_counted s'"
proof -
  obtain l t u l' aborted n fault where p: "cal_begin w q s = (l, t)"
    "cal_loop w (cal_tmout fq s) q 0 FSRV_RUN_OK (l, t) = (aborted, n, fault, l', u)"
    "calibrate_case w q hc fq s = (if aborted then ((fault, True, n), cal_finish q l' u)
       else ((fst (cal_success w q hc (exec_cksum (entry s q) = 0) fault l' u), False, n),
             cal_finish q l' (snd (cal_success w q hc (exec_cksum (entry s q) = 0) fault l' u))))"
    by (rule calibrate_parts)
  note b = cal_begin_quiet [OF p(1) assms(1)]
  have k: "cal_quiet q t u" using cal_loop_quiet [OF p(2) b(3)] by simp
  have u: "covs_counted u" "q < length (queue_buf u)"
    using covs_quiet [OF b(1) k] k b(2) assms(2) by (auto simp: cal_quiet_def)
  obtain f v where v: "cal_success w q hc (exec_cksum (entry s q) = 0) fault l' u = (f, v)" by force
  then have "length (queue_buf v) = length (queue_buf u)"
    using cal_success_state [OF v] by auto
  then have "covs_counted (cal_finish q l' v)" using covs_finish [OF covs_success [OF u(1) v]] u(2) by simp
  then show ?thesis using assms(3) p(3) v covs_finish [OF u] by (auto split: if_splits)
qed

lemma rated_rest: "cal_rest s (update_bitmap_score q h s)"
  using rated_frame_ex [of q h s] by (auto simp: cal_rest_def)

lemma calibrate_rest:
  assumes "covs_counted s" "calibrate_case w q hc fq s = (r, s')"
  shows "cal_rest s s'" "length (queue_buf s') = length (queue_buf s)"
proof -
  obtain l t u l' aborted n fault where p: "cal_begin w q s = (l, t)"
    "cal_loop w (cal_tmout fq s) q 0 FSRV_RUN_OK (l, t) = (aborted, n, fault, l', u)"
    "calibrate_case w q hc fq s = (if aborted then ((fault, True, n), cal_finish q l' u)
       else ((fst (cal_success w q hc (exec_cksum (entry s q) = 0) fault l' u), False, n),
             cal_finish q l' (snd (cal_success w q hc (exec_cksum (entry s q) = 0) fault l' u))))"
    by (rule calibrate_parts)
  note b = cal_begin_quiet [OF p(1) assms(1)]
  have k: "cal_quiet q t u" using cal_loop_quiet [OF p(2) b(3)] by simp
  have u: "cal_rest s u" "length (queue_buf u) = length (queue_buf s)"
    using cal_rest_trans [OF b(5)] k b(2) by (auto simp: cal_quiet_def)
  have fin: "cal_rest x (cal_finish q l' x)" "length (queue_buf (cal_finish q l' x)) = length (queue_buf x)" for x :: "'a afl_cal_scheme"
    by (simp_all add: cal_rest_def cal_finish_def Let_def set_entry_def)
  obtain f v where v: "cal_success w q hc (exec_cksum (entry s q) = 0) fault l' u = (f, v)" by force
  then obtain x where x: "v = update_bitmap_score q True x" "cal_rest u x" "length (queue_buf x) = length (queue_buf u)"
    using cal_success_state [OF v] by (auto simp: cal_rest_def set_entry_def)
  then have "cal_rest u v" "length (queue_buf v) = length (queue_buf u)" using cal_rest_trans [OF x(2) rated_rest] by simp_all
  then have "cal_rest s (cal_finish q l' v)" "length (queue_buf (cal_finish q l' v)) = length (queue_buf s)"
    using cal_rest_trans [OF u(1)] cal_rest_trans fin u(2) by metis+
  then show "cal_rest s s'" "length (queue_buf s') = length (queue_buf s)"
    using assms(2) p(3) v cal_rest_trans [OF u(1) fin(1)] fin(2) u(2) by (auto split: if_splits)
qed

text \<open>An aborted calibration leaves the measures of the entry and the ratings alone.\<close>

lemma calibrate_aborts:
  assumes "covs_counted s" "q < length (queue_buf s)" "calibrate_case w q hc fq s = ((fault, aborted, n), s')"
  shows "n \<le> CAL_CYCLES_LONG \<and> (aborted \<longrightarrow> top_rated s' = top_rated s
    \<and> cal_failed (entry s' q) = cal_failed (entry s q) + 1 \<and> exec_us (entry s' q) = exec_us (entry s q)
    \<and> bitmap_size (entry s' q) = bitmap_size (entry s q) \<and> handicap (entry s' q) = handicap (entry s q))"
proof -
  obtain l t u l' ab m flt where p: "cal_begin w q s = (l, t)"
    "cal_loop w (cal_tmout fq s) q 0 FSRV_RUN_OK (l, t) = (ab, m, flt, l', u)"
    "calibrate_case w q hc fq s = (if ab then ((flt, True, m), cal_finish q l' u)
       else ((fst (cal_success w q hc (exec_cksum (entry s q) = 0) flt l' u), False, m),
             cal_finish q l' (snd (cal_success w q hc (exec_cksum (entry s q) = 0) flt l' u))))"
    by (rule calibrate_parts)
  note b = cal_begin_quiet [OF p(1) assms(1)]
  have k: "cal_quiet q t u" "m \<le> CAL_CYCLES_LONG" using cal_loop_quiet [OF p(2) b(3)] by simp_all
  have fin: "top_rated (cal_finish q l' u) = top_rated u" "cal_failed (entry (cal_finish q l' u) q) = cal_failed (entry u q)"
    "exec_us (entry (cal_finish q l' u) q) = exec_us (entry u q)" "handicap (entry (cal_finish q l' u) q) = handicap (entry u q)"
    "bitmap_size (entry (cal_finish q l' u) q) = bitmap_size (entry u q)"
    by (simp_all add: cal_finish_def Let_def)
  obtain d where e: "entry t q = (entry s q)\<lparr>exec_cksum := d, cal_failed := cal_failed (entry s q) + 1\<rparr>"
    using b(6) [OF assms(2)] by blast
  obtain c where "queue_buf u = (queue_buf t)[q := (entry t q)\<lparr>exec_cksum := c\<rparr>]" using k by (auto simp: cal_quiet_def)
  then have u: "entry u q = (entry t q)\<lparr>exec_cksum := c\<rparr>" using b(2) assms(2) by (simp add: entry_def)
  have "cal_failed (entry t q) = cal_failed (entry s q) + 1" "exec_us (entry t q) = exec_us (entry s q)"
    "bitmap_size (entry t q) = bitmap_size (entry s q)" "handicap (entry t q) = handicap (entry s q)"
    by (simp_all add: e)
  then show ?thesis using assms(3) p(3) k u b(4) fin by (auto simp: cal_quiet_def split: if_splits)
qed

section \<open>The result\<close>

definition cal_expected :: "cal_world \<Rightarrow> bool \<Rightarrow> qid \<Rightarrow> 'a afl_cal_scheme \<Rightarrow> bool" where
  "cal_expected w fq q s \<longleftrightarrow>
     q < length (queue_buf s) \<and> (exec_cksum (entry s q) = 0 \<or> cmplog_mode s) \<and> cov_ok s \<and> length (var_bytes s) = unat (map_size s)
     \<and> (\<forall>i < CAL_CYCLES_LONG. good_run w (cal_tmout fq s) s i
          \<and> (cw_hash w (cal_trace w (cal_tmout fq s) i) = cw_hash w (cal_trace w (cal_tmout fq s) 0)
             \<longrightarrow> cal_trace w (cal_tmout fq s) i = cal_trace w (cal_tmout fq s) 0))
     \<and> cw_hash w (cal_trace w (cal_tmout fq s) 0) \<noteq> 0"

text \<open>What calibration leaves: \<open>T\<close> are the classified traces and \<open>n\<close> the number of runs.\<close>

definition calibrated :: "cal_world \<Rightarrow> u32 \<Rightarrow> qid \<Rightarrow> (nat \<Rightarrow> bytes) \<Rightarrow> nat \<Rightarrow> 'a afl_cal_scheme \<Rightarrow> 'a afl_cal_scheme \<Rightarrow> bool" where
  "calibrated w hc q T n s s' \<longleftrightarrow>
     exec_cksum (entry s' q) = cw_hash w (T 0) \<and> cal_failed (entry s' q) = 0 \<and> 1 \<le> exec_us (entry s' q)
     \<and> bitmap_size (entry s' q) = count_bytes s (T (n - 1)) \<and> handicap (entry s' q) = ucast hc
     \<and> cal_marked s T n (var_bytes s') (virgin_bits s')
     \<and> var_behavior (entry s' q) = var_behavior (entry s q)
     \<and> queued_variable s' = queued_variable s + (if (\<exists>j<n. T j \<noteq> T 0) \<and> \<not> var_behavior (entry s q) then 1 else 0)"

lemma cal_finish_frame [simp]:
  "exec_cksum (entry (cal_finish q l s) q) = exec_cksum (entry s q)" "cal_failed (entry (cal_finish q l s) q) = cal_failed (entry s q)"
  "exec_us (entry (cal_finish q l s) q) = exec_us (entry s q)" "bitmap_size (entry (cal_finish q l s) q) = bitmap_size (entry s q)"
  "handicap (entry (cal_finish q l s) q) = handicap (entry s q)" "var_behavior (entry (cal_finish q l s) q) = var_behavior (entry s q)"
  "var_bytes (cal_finish q l s) = var_bytes s" "virgin_bits (cal_finish q l s) = virgin_bits s"
  "queued_variable (cal_finish q l s) = queued_variable s + (if cal_var l \<and> \<not> var_behavior (entry s q) then 1 else 0)"
  by (simp_all add: cal_finish_def Let_def)

lemma calibrate_result:
  fixes s :: "'a afl_cal_scheme"
  assumes ok: "cal_expected w fq q s" and T: "T = cal_trace w (cal_tmout fq s)"
  shows "\<exists>fault s'. calibrate_case w q hc fq s = ((fault, False, cal_cycles s T), s') \<and> calibrated w hc q T (cal_cycles s T) s s'
    \<and> (fault = crash_mode s \<or> fault = FSRV_RUN_NOBITS)"
proof -
  let ?n = "cal_cycles s T"
  note ok = ok [unfolded cal_expected_def T [symmetric]]
  have q: "q < length (queue_buf s)" using ok by blast
  obtain l t u l' ab m flt where p: "cal_begin w q s = (l, t)"
    "cal_loop w (cal_tmout fq s) q 0 FSRV_RUN_OK (l, t) = (ab, m, flt, l', u)"
    "calibrate_case w q hc fq s = (if ab then ((flt, True, m), cal_finish q l' u)
       else ((fst (cal_success w q hc (exec_cksum (entry s q) = 0) flt l' u), False, m),
             cal_finish q l' (snd (cal_success w q hc (exec_cksum (entry s q) = 0) flt l' u))))"
    by (rule calibrate_parts)
  have b: "cal_known w q s T 0 l t" "cal_var l = False"
    using cal_begin_fresh [OF q _ _ _ p(1)] ok by blast+
  have "\<exists>l' afl'. cal_loop w (cal_tmout fq s) q 0 FSRV_RUN_OK (l, t) = (False, ?n, crash_mode s, l', afl') \<and> cal_known w q s T ?n l' afl'"
    using ok b(2) by (intro cal_loop_good [OF b(1) q T]) auto
  then have r: "\<not> ab" "m = ?n" "flt = crash_mode s" "cal_known w q s T ?n l' u" using p(2) by auto
  obtain f v where v: "cal_success w q hc (exec_cksum (entry s q) = 0) flt l' u = (f, v)" by force
  have n: "0 < ?n" using cal_goal_bounds(3) [of s "\<exists>j < cal_goal s False. T j \<noteq> T 0"] by (simp add: cal_cycles_def)
  note k = r(4) [unfolded cal_known_def]
  have seen: "exec_cksum (entry u q) = cw_hash w (T 0)" "trace_bits u = T (?n - 1)"
    using k cal_seen_pos n by blast+
  have var: "cal_var l' \<longleftrightarrow> (\<exists>j<?n. T j \<noteq> T 0)" using k cal_seen_var by blast
  have fr: "real_map_size u = real_map_size s" "queued_variable u = queued_variable s" "var_behavior (entry u q) = var_behavior (entry s q)"
    "q < length (queue_buf u)" using k q by (simp_all add: cal_frame_def)
  have size: "count_bytes u (trace_bits u) = count_bytes s (T (?n - 1))"
    unfolding seen(2) by (rule count_bytes_cong [OF fr(1)])
  obtain us a b' c d where sv: "1 \<le> us" "v = update_bitmap_score q True
    ((set_entry q (\<lambda>e. e\<lparr>exec_us := us, bitmap_size := count_bytes u (trace_bits u), handicap := ucast hc, cal_failed := 0\<rparr>) u)
       \<lparr>total_cal_us := a, total_cal_cycles := b', total_bitmap_size := c, total_bitmap_entries := d\<rparr>)"
    "f = (if \<not> non_instrumented_mode u \<and> exec_cksum (entry s q) = 0 \<and> flt = FSRV_RUN_OK \<and> cal_new_bits l' = 0 then FSRV_RUN_NOBITS else flt)"
    using cal_success_state [OF v] by blast
  have tot: "entry (x\<lparr>total_cal_us := a, total_cal_cycles := b', total_bitmap_size := c, total_bitmap_entries := d\<rparr>) q = entry x q"
    for x :: "'a afl_cal_scheme" by (simp add: entry_def)
  have ve: "exec_cksum (entry v q) = cw_hash w (T 0)" "cal_failed (entry v q) = 0" "1 \<le> exec_us (entry v q)"
    "bitmap_size (entry v q) = count_bytes s (T (?n - 1))" "handicap (entry v q) = ucast hc"
    "var_behavior (entry v q) = var_behavior (entry s q)" "var_bytes v = var_bytes u" "virgin_bits v = virgin_bits u"
    "queued_variable v = queued_variable s"
    using fr seen(1) sv(1) size by (simp_all add: sv(2) tot)
  have "calibrated w hc q T ?n s (cal_finish q l' v)"
    using k ve var by (simp add: calibrated_def)
  moreover have "calibrate_case w q hc fq s = ((f, False, ?n), cal_finish q l' v)" using p(3) r v by simp
  moreover have "f = crash_mode s \<or> f = FSRV_RUN_NOBITS" using sv(3) r(3) by auto
  ultimately show ?thesis by blast
qed


section \<open>Properties\<close>


definition cal_state :: afl_cal where
  "cal_state = afl_cache.extend ((small_cache 4)\<lparr>map_size := 64, trace_bits := replicate 64 0\<rparr>)
     \<lparr>first_trace = replicate 64 0, var_bytes = replicate 64 0, var_byte_count = 0, queued_with_cov = 0, queued_variable = 0,
      total_cal_us = 0, total_cal_cycles = 0, total_bitmap_size = 0, total_bitmap_entries = 0, afl_cal_fast = False,
      crash_mode = FSRV_RUN_OK, exec_tmout = 20, resuming_fuzz = False\<rparr>"

definition flaky_target :: cal_world where
  "flaky_target = \<lparr>cw_run = (\<lambda>t k. (FSRV_RUN_OK, replicate 64 (if k = 1 then 2 else 1), False)),
     cw_hash = (\<lambda>b. if b = replicate 64 1 then 1 else 2), cw_elapsed = 100, cw_w64 = True\<rparr>"

lemma cal_state_sel [simp]:
  "queue_buf cal_state = [small_entry 0 30, small_entry 1 40, small_entry 2 20]" "map_size cal_state = 64" "real_map_size cal_state = 60"
  "crash_mode cal_state = FSRV_RUN_OK" "afl_cal_fast cal_state = False" "var_bytes cal_state = replicate 64 0"
  "queued_with_cov cal_state = 0" "queued_variable cal_state = 0" "non_instrumented_mode cal_state = False"
  by (simp_all add: cal_state_def small_cache_def small_queue_def blank_cov_def afl_cache.defs afl_queue.defs cov_st.defs)

lemma cal_state_ok: "cov_ok cal_state"
proof -
  have "virgin_bits cal_state = replicate 64 0xff" "virgin_tmout cal_state = replicate 64 0xff" "virgin_crash cal_state = replicate 64 0xff"
    "trace_bits cal_state = replicate 64 0"
    by (simp_all add: cal_state_def small_cache_def small_queue_def blank_cov_def afl_cache.defs afl_queue.defs cov_st.defs)
  then have "length (virgin_of vm cal_state) = 64" for vm by (cases vm) simp_all
  then show ?thesis using \<open>trace_bits cal_state = _\<close> by (simp add: cov_ok_def)
qed

lemma flaky_trace: "cal_trace flaky_target t k = replicate 64 (if k = 1 then 2 else 1)"
proof -
  have "count_class_lookup8 1 = 1" "count_class_lookup8 2 = 2" by code_simp+
  then show ?thesis by (simp add: cal_trace_def flaky_target_def)
qed

lemma replicate_2_1: "replicate 64 (2::u8) \<noteq> replicate 64 1"
  by (simp add: numeral_eq_Suc)

lemma flaky_expected: "cal_expected flaky_target False 0 cal_state"
proof -
  have c: "count_bytes cal_state (replicate 64 v) \<noteq> 0" if "v \<noteq> 0" for v
  proof -
    have "scanned False cal_state = 60" by (simp add: scanned_def)
    then have "unat (count_bytes cal_state (replicate 64 v)) = 60"
      using count_bytes_eq(1) [OF cal_state_ok, of "replicate 64 v"] that by simp
    then show ?thesis by auto
  qed
  have g: "good_run flaky_target t cal_state k" for t k
    using c by (simp add: good_run_def flaky_target_def)
  have h: "cw_hash flaky_target (replicate 64 2) = 2" "cw_hash flaky_target (replicate 64 1) = 1"
    using replicate_2_1 by (simp_all add: flaky_target_def)
  show ?thesis unfolding cal_expected_def flaky_trace using g h cal_state_ok
    by (simp add: entry_def small_entry_def)
qed


text \<open>
  C33 Calibration never takes more than 12 runs. One that is aborted, by a fault, a stop or an empty trace,
  counts a failure of the entry and leaves its speed, its size and all ratings as they were; either way
  \<open>queued_with_cov\<close> remains the number of entries marked with new coverage.
\<close>

theorem calibrate_bounded:
  assumes "covs_counted s" "q < length (queue_buf s)" "calibrate_case w q hc fq s = ((fault, aborted, n), s')"
  shows "n \<le> CAL_CYCLES_LONG \<and> covs_counted s' \<and> (aborted \<longrightarrow> top_rated s' = top_rated s
    \<and> cal_failed (entry s' q) = cal_failed (entry s q) + 1 \<and> exec_us (entry s' q) = exec_us (entry s q)
    \<and> bitmap_size (entry s' q) = bitmap_size (entry s q) \<and> handicap (entry s' q) = handicap (entry s q))"
  using calibrate_aborts [OF assms] calibrate_counts [OF assms] by blast

theorem calibrate_bounded_witness:
  "\<exists>fault aborted n s'. calibrate_case flaky_target 1 0 False cal_state = ((fault, aborted, n), s') \<and> n \<le> 12 \<and> covs_counted s'"
proof -
  have "covs_counted cal_state" by (simp add: covs_counted_def small_entry_def)
  moreover have "1 < length (queue_buf cal_state)" by simp
  moreover obtain fault aborted n s' where c: "calibrate_case flaky_target 1 0 False cal_state = ((fault, aborted, n), s')"
    by (metis surj_pair)
  ultimately have "n \<le> CAL_CYCLES_LONG \<and> covs_counted s'" using calibrate_bounded [OF _ _ c] by blast
  then show ?thesis using c by blast
qed

end
