(* ===== verification/Trim.thy ===== *)
theory Trim
  imports Calibrate "HOL-Library.Sublist"
begin

text \<open>
  \<open>trim_case\<close> of \<open>src/src/afl-fuzz-run.c\<close> without custom mutators: the passes that try to remove one
  block after the other, and the update of the file, the cache and the ratings. What the target and the
  validity filter answer is a parameter; so is the value found in the variable \<open>cksum\<close>, which the code
  reads although it never assigns it.
\<close>

section \<open>The code\<close>

abbreviation (input) TRIM_MIN_BYTES :: nat where "TRIM_MIN_BYTES \<equiv> 4"
abbreviation (input) TRIM_START_STEPS :: nat where "TRIM_START_STEPS \<equiv> 16"
abbreviation (input) TRIM_END_STEPS :: nat where "TRIM_END_STEPS \<equiv> 1024"

text \<open>\<open>tw_filter\<close> is the validity check with its accounting, \<open>None\<close> when it is disabled; \<open>'n\<close> is the
  state they and the target keep.\<close>

record 'n trim_world =
  tw_filter :: "(bytes \<Rightarrow> 'n \<Rightarrow> bool \<times> 'n) option"
  tw_run :: "bytes \<Rightarrow> 'n \<Rightarrow> fsrv_run_result \<times> bytes \<times> 'n"
  tw_cksum :: "nat \<Rightarrow> u64"

record 'n trim_st =
  tr_nv :: 'n
  tr_buf :: bytes
  tr_len :: nat
  tr_p2 :: nat
  tr_fault :: fsrv_run_result
  tr_trace :: bytes
  tr_clean :: "bytes option"
  tr_exec :: nat
  tr_written :: "bytes list"

text \<open>The input as \<open>write_with_gap\<close> writes it, and the buffer after \<open>memmove\<close>.\<close>

definition write_with_gap :: "bytes \<Rightarrow> nat \<Rightarrow> nat \<Rightarrow> nat \<Rightarrow> bytes" where
  "write_with_gap mem len skip_at skip_len =
     (let tail_len = len - skip_at - skip_len
      in take skip_at mem @ take tail_len (drop (skip_at + skip_len) mem))"

definition close_gap :: "bytes \<Rightarrow> nat \<Rightarrow> nat \<Rightarrow> nat \<Rightarrow> bytes" where
  "close_gap mem len skip_at skip_len =
     (let move_tail = len - skip_at - skip_len
      in take skip_at mem @ take move_tail (drop (skip_at + skip_len) mem) @ drop (skip_at + move_tail) mem)"

definition trim_p2 :: "nat \<Rightarrow> nat" where
  "trim_p2 len = unat (ucast (next_pow2 (of_nat len)) :: u32)"

text \<open>The validity filter: the input it looks at is the buffer, not the shortened one.\<close>

definition trim_filter :: "'n trim_world \<Rightarrow> 'n trim_st \<Rightarrow> bool \<times> 'n trim_st" where
  "trim_filter w st =
     (case tw_filter w of None \<Rightarrow> (False, st)
      | Some f \<Rightarrow> (case f (take (tr_len st) (tr_buf st)) (tr_nv st) of (rejected, nv) \<Rightarrow> (rejected, st\<lparr>tr_nv := nv\<rparr>)))"

text \<open>One run, and the removal when the checksums agree.\<close>

definition trim_run :: "'n trim_world \<Rightarrow> bytes \<Rightarrow> 'n trim_st \<Rightarrow> 'n trim_st" where
  "trim_run w mem st =
     (case tw_run w mem (tr_nv st) of (fault, trace, nv) \<Rightarrow>
        st\<lparr>tr_fault := fault, tr_trace := trace, tr_nv := nv, tr_exec := tr_exec st + 1\<rparr>)"

definition trim_accept :: "nat \<Rightarrow> nat \<Rightarrow> 'n trim_st \<Rightarrow> 'n trim_st" where
  "trim_accept remove_pos trim_avail st =
     st\<lparr>tr_len := tr_len st - trim_avail, tr_p2 := trim_p2 (tr_len st - trim_avail),
        tr_buf := close_gap (tr_buf st) (tr_len st) remove_pos trim_avail,
        tr_clean := (case tr_clean st of None \<Rightarrow> Some (tr_trace st) | Some t \<Rightarrow> Some t)\<rparr>"

partial_function (option) trim_pass :: "'n trim_world \<Rightarrow> u64 \<Rightarrow> nat \<Rightarrow> nat \<Rightarrow> 'n trim_st \<Rightarrow> 'n trim_st option" where
  "trim_pass w ck remove_len remove_pos st =
     (if \<not> remove_pos < tr_len st then Some st
      else
        let trim_avail = min remove_len (tr_len st - remove_pos);
            mem = write_with_gap (tr_buf st) (tr_len st) remove_pos trim_avail;
            st = st\<lparr>tr_written := tr_written st @ [mem]\<rparr>
        in (case trim_filter w st of (rejected, st) \<Rightarrow>
             if rejected then trim_pass w ck remove_len remove_pos st
             else
               let st = trim_run w mem st
               in if tw_cksum w (tr_exec st) = ck
                  then trim_pass w ck remove_len remove_pos (trim_accept remove_pos trim_avail st)
                  else trim_pass w ck remove_len (remove_pos + remove_len) st))"

partial_function (option) trim_passes :: "'n trim_world \<Rightarrow> u64 \<Rightarrow> nat \<Rightarrow> 'n trim_st \<Rightarrow> 'n trim_st option" where
  "trim_passes w ck remove_len st =
     (if \<not> remove_len \<ge> max (tr_p2 st div TRIM_END_STEPS) TRIM_MIN_BYTES then Some st
      else (case trim_pass w ck remove_len remove_len st of
              None \<Rightarrow> None
            | Some st \<Rightarrow> trim_passes w ck (remove_len div 2) st))"

definition trim_start :: "'n \<Rightarrow> bytes \<Rightarrow> nat \<Rightarrow> bytes \<Rightarrow> 'n trim_st" where
  "trim_start nv in_buf len trace =
     \<lparr>tr_nv = nv, tr_buf = in_buf, tr_len = len, tr_p2 = trim_p2 len, tr_fault = FSRV_RUN_OK, tr_trace = trace,
      tr_clean = None, tr_exec = 0, tr_written = []\<rparr>"

definition trim_loop :: "'n trim_world \<Rightarrow> u64 \<Rightarrow> 'n trim_st \<Rightarrow> 'n trim_st option" where
  "trim_loop w ck st = trim_passes w ck (max (tr_p2 st div TRIM_START_STEPS) TRIM_MIN_BYTES) st"

text \<open>The file is written with \<open>ck_write\<close>, which ends the program when it fails, or, with
  \<open>AFL_NO_UNLINK\<close>, by a loop of its own; \<open>result k\<close> is what its \<open>k\<close>-th \<open>write\<close> returns.\<close>

partial_function (option) write_no_unlink :: "(nat \<Rightarrow> int) \<Rightarrow> bytes \<Rightarrow> nat \<Rightarrow> nat \<Rightarrow> bytes \<Rightarrow> bytes option" where
  "write_no_unlink result in_buf len k file =
     (if \<not> length file < len then Some file
      else write_no_unlink result in_buf len (k + 1)
             (if result k > 0 then file @ take (nat (result k)) in_buf else file))"

record 'n trim_result =
  tres_fault :: fsrv_run_result
  tres_nv :: 'n
  tres_file :: "bytes option"
  tres_bytes_in :: u64
  tres_bytes_out :: u64

text \<open>\<open>same_buf\<close> and \<open>realloc_ok\<close> are those of \<open>queue_testcase_retake_mem\<close>; \<open>bytes_trim_in\<close> and
  \<open>bytes_trim_out\<close> are added to the counters of this name.\<close>

definition trim_case :: "'n trim_world \<Rightarrow> bool \<Rightarrow> bool \<Rightarrow> qid \<Rightarrow> bytes \<Rightarrow> 'n \<Rightarrow> 'a afl_cache_scheme
    \<Rightarrow> ('n trim_result \<times> 'a afl_cache_scheme) option" where
  "trim_case w same_buf realloc_ok q in_buf nv afl =
     (let orig_len = q_len (entry afl q)
      in if orig_len < 5
         then Some (\<lparr>tres_fault = FSRV_RUN_OK, tres_nv = nv, tres_file = None,
                     tres_bytes_in = ucast orig_len, tres_bytes_out = ucast orig_len\<rparr>, afl)
         else (case trim_loop w (exec_cksum (entry afl q)) (trim_start nv in_buf (unat orig_len) (trace_bits afl)) of
                 None \<Rightarrow> None
               | Some st \<Rightarrow>
                   let len = of_nat (tr_len st) :: u32;
                       afl = set_entry q (\<lambda>e. e\<lparr>q_len := len\<rparr>) (afl\<lparr>trace_bits := tr_trace st\<rparr>);
                       res = \<lparr>tres_fault = tr_fault st, tres_nv = tr_nv st, tres_file = None,
                              tres_bytes_in = ucast orig_len, tres_bytes_out = ucast len\<rparr>
                   in (case tr_clean st of
                         None \<Rightarrow> Some (res, afl)
                       | Some clean \<Rightarrow>
                           let afl = queue_testcase_retake_mem same_buf realloc_ok q (tr_buf st) len orig_len afl;
                               afl = update_bitmap_score q True (afl\<lparr>trace_bits := clean\<rparr>)
                           in Some (res\<lparr>tres_file := Some (take (tr_len st) (tr_buf st))\<rparr>, afl))))"

text \<open>The validity filter of the fuzzer.\<close>

definition nv_trim_filter :: "fpu \<Rightarrow> env_vars \<Rightarrow> (bytes \<Rightarrow> rpc_answers) \<Rightarrow> (c_string \<Rightarrow> c_string \<Rightarrow> c_string)
    \<Rightarrow> bytes \<Rightarrow> 'a nv_valid_scheme \<Rightarrow> bool \<times> 'a nv_valid_scheme" where
  "nv_trim_filter fp env peer print_envelope mem nv =
     (let vr = nv_validity_check fp env peer print_envelope nv (Some mem)
      in if nv_v_is_reject vr then (True, nv_account_invalid nv vr) else (False, nv_account_valid nv))"
section \<open>What trimming leaves\<close>

definition tr_input :: "'n trim_st \<Rightarrow> bytes" where
  "tr_input st = take (tr_len st) (tr_buf st)"

definition tr_ok :: "'n trim_st \<Rightarrow> bool" where
  "tr_ok st \<longleftrightarrow> tr_len st \<le> length (tr_buf st)"

lemma gap_parts:
  assumes "pos + n \<le> len" "len \<le> length mem"
  obtains a b c d where "mem = a @ b @ c @ d" "pos = length a" "n = length b" "len = length a + length b + length c"
proof
  show "mem = take pos mem @ take n (drop pos mem) @ take (len - pos - n) (drop (pos + n) mem) @ drop len mem"
    by (metis (no_types, lifting) append_take_drop_id assms(1) diff_diff_left drop_drop le_add_diff_inverse2 add.commute)
  show "pos = length (take pos mem)" "n = length (take n (drop pos mem))"
    "len = length (take pos mem) + length (take n (drop pos mem)) + length (take (len - pos - n) (drop (pos + n) mem))"
    using assms by simp_all
qed

lemma gap_written:
  assumes "pos + n \<le> len" "len \<le> length mem"
  shows "write_with_gap mem len pos n = take pos (take len mem) @ drop (pos + n) (take len mem)"
proof -
  obtain a b c d where "mem = a @ b @ c @ d" "pos = length a" "n = length b" "len = length a + length b + length c"
    using assms by (rule gap_parts)
  then show ?thesis by (simp add: write_with_gap_def Let_def)
qed

lemma gap_closed:
  assumes "pos + n \<le> len" "len \<le> length mem"
  shows "take (len - n) (close_gap mem len pos n) = take pos (take len mem) @ drop (pos + n) (take len mem)"
    "length (close_gap mem len pos n) = length mem"
proof -
  obtain a b c d where p: "mem = a @ b @ c @ d" "pos = length a" "n = length b" "len = length a + length b + length c"
    using assms by (rule gap_parts)
  have "close_gap mem len pos n = a @ c @ drop (length a + length c) mem" using p by (simp add: close_gap_def Let_def)
  then show "take (len - n) (close_gap mem len pos n) = take pos (take len mem) @ drop (pos + n) (take len mem)"
    "length (close_gap mem len pos n) = length mem"
    using p by simp_all
qed

lemma subseq_without: "subseq (take pos xs @ drop (pos + n) xs) xs"
proof -
  have "subseq (take pos xs @ drop (pos + n) xs) (take pos xs @ drop pos xs)"
    by (metis add.commute drop_drop list_emb_append_mono subseq_order.order_refl suffix_drop suffix_imp_subseq)
  then show ?thesis by simp
qed

text \<open>The state after some attempts: bytes were only taken out, behind the first four, and every input that
  was written is shorter than the buffer.\<close>

definition trimmed :: "nat \<Rightarrow> 'n trim_st \<Rightarrow> 'n trim_st \<Rightarrow> bool" where
  "trimmed keep st st' \<longleftrightarrow>
     tr_ok st' \<and> length (tr_buf st') = length (tr_buf st) \<and> tr_len st' \<le> tr_len st
     \<and> subseq (tr_input st') (tr_input st) \<and> take keep (tr_input st') = take keep (tr_input st)
     \<and> (tr_clean st' = None \<longrightarrow> tr_buf st' = tr_buf st \<and> tr_len st' = tr_len st)
     \<and> (tr_clean st = None \<and> tr_clean st' \<noteq> None \<longrightarrow> tr_len st' < tr_len st)"

lemma trimmed_refl: "tr_ok st \<Longrightarrow> trimmed keep st st"
  by (auto simp: trimmed_def)

lemma trimmed_trans: "trimmed keep st t \<Longrightarrow> trimmed keep t u \<Longrightarrow> (tr_clean t \<noteq> None \<longrightarrow> tr_clean u \<noteq> None) \<Longrightarrow> trimmed keep st u"
  unfolding trimmed_def by (force intro: subseq_order.order_trans)

lemma trimmed_same:
  "tr_buf s = tr_buf st \<Longrightarrow> tr_len s = tr_len st \<Longrightarrow> tr_clean s = tr_clean st \<Longrightarrow> trimmed keep s u \<Longrightarrow> trimmed keep st u"
  by (simp add: trimmed_def tr_input_def)

lemma trim_filter_frame:
  assumes "trim_filter w st = (r, s)"
  shows "tr_buf s = tr_buf st" "tr_len s = tr_len st" "tr_clean s = tr_clean st" "tr_exec s = tr_exec st" "tr_p2 s = tr_p2 st"
    "tr_trace s = tr_trace st"
  using assms by (auto simp: trim_filter_def split: option.splits prod.splits)

lemma trim_run_frame [simp]:
  "tr_buf (trim_run w mem st) = tr_buf st" "tr_len (trim_run w mem st) = tr_len st"
  "tr_clean (trim_run w mem st) = tr_clean st" "tr_exec (trim_run w mem st) = tr_exec st + 1" "tr_p2 (trim_run w mem st) = tr_p2 st"
  by (simp_all add: trim_run_def split: prod.splits)

lemma trim_accept_trimmed:
  assumes "tr_ok st" "keep \<le> pos" "pos < tr_len st" "n = min m (tr_len st - pos)" "0 < m"
  shows "trimmed keep st (trim_accept pos n st)" "tr_len (trim_accept pos n st) = tr_len st - n" "tr_clean (trim_accept pos n st) \<noteq> None"
proof -
  have l: "pos + n \<le> tr_len st" "tr_len st \<le> length (tr_buf st)" using assms by (auto simp: tr_ok_def)
  have n: "0 < n" using assms by auto
  have i: "tr_input (trim_accept pos n st) = take pos (tr_input st) @ drop (pos + n) (tr_input st)"
    unfolding tr_input_def trim_accept_def using gap_closed(1) [OF l] by simp
  have c: "tr_clean (trim_accept pos n st) \<noteq> None" by (simp add: trim_accept_def split: option.splits)
  have ll: "pos \<le> length (tr_input st)" using l by (simp add: tr_input_def)
  show "trimmed keep st (trim_accept pos n st)"
    unfolding trimmed_def i
    using c subseq_without [of pos "tr_input st" n] l gap_closed(2) [OF l] assms(2) ll n
    by (auto simp: trim_accept_def tr_ok_def min_def)
  show "tr_len (trim_accept pos n st) = tr_len st - n" by (simp add: trim_accept_def)
  show "tr_clean (trim_accept pos n st) \<noteq> None" by (rule c)
qed

text \<open>The filter accepts, or is not asked.\<close>

definition accepts :: "'n trim_world \<Rightarrow> bool" where
  "accepts w \<longleftrightarrow> (case tw_filter w of None \<Rightarrow> True | Some f \<Rightarrow> \<forall>mem nv. \<not> fst (f mem nv))"

lemma accepts_filter: "accepts w \<Longrightarrow> trim_filter w st = (r, s) \<Longrightarrow> \<not> r"
  by (auto simp: accepts_def trim_filter_def split: option.splits prod.splits) (metis fst_conv)+

lemma trim_pass_ends:
  assumes "accepts w" "0 < m" "keep \<le> pos" "tr_ok st"
  shows "\<exists>st'. trim_pass w ck m pos st = Some st' \<and> trimmed keep st st' \<and> (tr_clean st \<noteq> None \<longrightarrow> tr_clean st' \<noteq> None)
    \<and> tr_exec st' \<le> tr_exec st + (tr_len st - pos)"
  using assms(3,4)
proof (induction "tr_len st - pos" arbitrary: pos st rule: less_induct)
  case less
  show ?case
  proof (cases "pos < tr_len st")
    case False
    then show ?thesis using less.prems by (subst trim_pass.simps) (simp add: trimmed_refl)
  next
    case True
    let ?n = "min m (tr_len st - pos)"
    let ?mem = "write_with_gap (tr_buf st) (tr_len st) pos ?n"
    obtain r s where f: "trim_filter w (st\<lparr>tr_written := tr_written st @ [?mem]\<rparr>) = (r, s)" by force
    note fr = trim_filter_frame [OF f, simplified]
    have nr: "\<not> r" by (rule accepts_filter [OF assms(1) f])
    let ?t = "trim_run w ?mem s"
    have t: "tr_buf ?t = tr_buf st" "tr_len ?t = tr_len st" "tr_clean ?t = tr_clean st" "tr_exec ?t = tr_exec st + 1"
      using fr by simp_all
    have tok: "tr_ok ?t" using less.prems(2) t by (simp add: tr_ok_def)
    show ?thesis
    proof (cases "tw_cksum w (tr_exec ?t) = ck")
      case True
      let ?u = "trim_accept pos ?n ?t"
      have u: "trimmed keep ?t ?u" "tr_len ?u = tr_len st - ?n" "tr_clean ?u \<noteq> None"
        using trim_accept_trimmed [OF tok less.prems(1), of ?n m] \<open>pos < tr_len st\<close> t assms(2) by auto
      have "0 < ?n" using \<open>pos < tr_len st\<close> assms(2) by simp
      then have dec: "tr_len ?u - pos < tr_len st - pos" using u(2) \<open>pos < tr_len st\<close> by linarith
      have "tr_exec ?u = tr_exec st + 1" using t by (simp add: trim_accept_def)
      moreover obtain v where v: "trim_pass w ck m pos ?u = Some v" "trimmed keep ?u v" "tr_clean v \<noteq> None"
          "tr_exec v \<le> tr_exec ?u + (tr_len ?u - pos)"
        using less.hyps [OF dec less.prems(1)] u(1,3) by (auto simp: trimmed_def)
      ultimately have "tr_exec v \<le> tr_exec st + (tr_len st - pos)" using dec by linarith
      moreover have "trim_pass w ck m pos st = Some v"
        using v(1) \<open>pos < tr_len st\<close> True nr f by (subst trim_pass.simps) (simp add: Let_def)
      moreover have "trimmed keep st v"
        using trimmed_trans [OF trimmed_same [OF _ _ _ u(1)] v(2)] t v(3) by simp
      ultimately show ?thesis using v(3) by blast
    next
      case False
      have dec: "tr_len ?t - (pos + m) < tr_len st - pos" using \<open>pos < tr_len st\<close> assms(2) t by simp
      obtain v where v: "trim_pass w ck m (pos + m) ?t = Some v" "trimmed keep ?t v"
          "tr_clean ?t \<noteq> None \<longrightarrow> tr_clean v \<noteq> None" "tr_exec v \<le> tr_exec ?t + (tr_len ?t - (pos + m))"
        using less.hyps [OF dec _ tok] less.prems(1) by (meson trans_le_add1)
      have "trim_pass w ck m pos st = Some v"
        using v(1) \<open>pos < tr_len st\<close> False nr f by (subst trim_pass.simps) (simp add: Let_def)
      moreover have "trimmed keep st v" using trimmed_same [OF _ _ _ v(2)] t by simp
      ultimately show ?thesis using v(3,4) t dec by auto
    qed
  qed
qed

lemma trim_passes_ends:
  assumes "accepts w" "tr_ok st"
  shows "\<exists>st'. trim_passes w ck m st = Some st' \<and> trimmed TRIM_MIN_BYTES st st'
    \<and> (tr_clean st \<noteq> None \<longrightarrow> tr_clean st' \<noteq> None) \<and> tr_exec st' \<le> tr_exec st + m * tr_len st"
  using assms(2)
proof (induction m arbitrary: st rule: less_induct)
  case (less m)
  show ?case
  proof (cases "m \<ge> max (tr_p2 st div TRIM_END_STEPS) TRIM_MIN_BYTES")
    case False
    then show ?thesis using less.prems by (subst trim_passes.simps) (simp add: trimmed_refl)
  next
    case True
    then have m: "TRIM_MIN_BYTES \<le> m" by simp
    obtain t where t: "trim_pass w ck m m st = Some t" "trimmed TRIM_MIN_BYTES st t"
        "tr_clean st \<noteq> None \<longrightarrow> tr_clean t \<noteq> None" "tr_exec t \<le> tr_exec st + (tr_len st - m)"
      using trim_pass_ends [OF assms(1) _ m less.prems, of m ck] m by auto
    have "tr_ok t" using t(2) by (simp add: trimmed_def)
    moreover have h: "m div 2 < m" using m by simp
    ultimately obtain u where u: "trim_passes w ck (m div 2) t = Some u" "trimmed TRIM_MIN_BYTES t u"
        "tr_clean t \<noteq> None \<longrightarrow> tr_clean u \<noteq> None" "tr_exec u \<le> tr_exec t + m div 2 * tr_len t"
      using less.IH [of "m div 2" t] by blast
    have "tr_len t \<le> tr_len st" using t(2) by (simp add: trimmed_def)
    then have "m div 2 * tr_len t \<le> (m - 1) * tr_len st" using h by (intro mult_le_mono) simp_all
    then have "tr_exec u \<le> tr_exec st + tr_len st + (m - 1) * tr_len st" using u(4) t(4) by linarith
    also have "\<dots> = tr_exec st + m * tr_len st" using m by (cases m) simp_all
    finally have "tr_exec u \<le> tr_exec st + m * tr_len st" .
    moreover have "trim_passes w ck m st = Some u" using t(1) u(1) True by (subst trim_passes.simps) simp
    moreover have "trimmed TRIM_MIN_BYTES st u" by (rule trimmed_trans [OF t(2) u(2) u(3)])
    ultimately show ?thesis using t(3) u(3) by blast
  qed
qed

section \<open>A rejected input\<close>

text \<open>When the filter rejects the buffer, it is asked again and again about the same buffer.\<close>

lemma trim_pass_stuck:
  assumes "tw_filter w = Some f" "pos < tr_len st" "tr_nv st \<in> S"
    and "\<And>nv. nv \<in> S \<Longrightarrow> fst (f (tr_input st) nv) \<and> snd (f (tr_input st) nv) \<in> S"
  shows "trim_pass w ck m pos st = None"
proof (rule ccontr)
  assume "trim_pass w ck m pos st \<noteq> None"
  then obtain r where "trim_pass w ck m pos st = Some r" by blast
  then have "\<not> (tw_filter w = Some f \<and> pos < tr_len st \<and> tr_nv st \<in> S
      \<and> (\<forall>nv\<in>S. fst (f (tr_input st) nv) \<and> snd (f (tr_input st) nv) \<in> S))"
  proof (rule trim_pass.raw_induct [where P = "\<lambda>w ck m pos st r. \<not> (tw_filter w = Some f \<and> pos < tr_len st \<and> tr_nv st \<in> S
      \<and> (\<forall>nv\<in>S. fst (f (tr_input st) nv) \<and> snd (f (tr_input st) nv) \<in> S))", rotated])
    fix pass :: "'a trim_world \<Rightarrow> u64 \<Rightarrow> nat \<Rightarrow> nat \<Rightarrow> 'a trim_st \<Rightarrow> 'a trim_st option"
    fix w ck m pos st r
    assume IH: "\<And>w ck m pos st r. pass w ck m pos st = Some r \<Longrightarrow> \<not> (tw_filter w = Some f \<and> pos < tr_len st \<and> tr_nv st \<in> S
        \<and> (\<forall>nv\<in>S. fst (f (tr_input st) nv) \<and> snd (f (tr_input st) nv) \<in> S))"
      and eq: "(if \<not> pos < tr_len st then Some st
        else let trim_avail = min m (tr_len st - pos); mem = write_with_gap (tr_buf st) (tr_len st) pos trim_avail;
                 st = st\<lparr>tr_written := tr_written st @ [mem]\<rparr>
             in case trim_filter w st of (rejected, st) \<Rightarrow>
                  if rejected then pass w ck m pos st
                  else let st = trim_run w mem st
                       in if tw_cksum w (tr_exec st) = ck then pass w ck m pos (trim_accept pos trim_avail st)
                          else pass w ck m (pos + m) st) = Some r"
    show "\<not> (tw_filter w = Some f \<and> pos < tr_len st \<and> tr_nv st \<in> S
        \<and> (\<forall>nv\<in>S. fst (f (tr_input st) nv) \<and> snd (f (tr_input st) nv) \<in> S))"
    proof
      assume a: "tw_filter w = Some f \<and> pos < tr_len st \<and> tr_nv st \<in> S
        \<and> (\<forall>nv\<in>S. fst (f (tr_input st) nv) \<and> snd (f (tr_input st) nv) \<in> S)"
      let ?mem = "write_with_gap (tr_buf st) (tr_len st) pos (min m (tr_len st - pos))"
      obtain nv where nv: "f (tr_input st) (tr_nv st) = (True, nv)" "nv \<in> S"
        using a by (metis eq_fst_iff prod.collapse snd_conv)
      let ?s = "st\<lparr>tr_written := tr_written st @ [?mem], tr_nv := nv\<rparr>"
      have "trim_filter w (st\<lparr>tr_written := tr_written st @ [?mem]\<rparr>) = (True, ?s)"
        using a nv(1) by (simp add: trim_filter_def tr_input_def)
      then have "pass w ck m pos ?s = Some r" using eq a by (simp add: Let_def)
      from IH [OF this] show False using a nv(2) by (simp add: tr_input_def)
    qed
  qed
  then show False using assms by blast
qed

section \<open>The whole of \<open>trim_case\<close>\<close>

lemma entry_trace [simp]: "entry (s\<lparr>trace_bits := t\<rparr>) p = entry s p" "entry (s\<lparr>cache_size := c\<rparr>) p = entry s p"
  by (simp_all add: entry_def)

lemma retaken_entry:
  assumes "q < length (queue_buf s)" "unat len \<le> length mem"
  shows "q_len (entry (queue_testcase_retake_mem sb ok q mem len old s) q) = q_len (entry s q)"
    "testcase_buf (entry s q) = Some b \<Longrightarrow> \<not> sb \<Longrightarrow>
     \<exists>b'. testcase_buf (entry (queue_testcase_retake_mem sb ok q mem len old s) q) = Some b' \<and> take (unat len) b' = take (unat len) mem"
  using assms by (auto simp: queue_testcase_retake_mem_def Let_def split: option.split)

lemma trim_case_result:
  assumes "accepts w" "q < length (queue_buf afl)" "unat (q_len (entry afl q)) \<le> length in_buf"
  shows "\<exists>res afl'. trim_case w same_buf ok q in_buf nv afl = Some (res, afl') \<and>
    (case tres_file res of
       None \<Rightarrow> q_len (entry afl' q) = q_len (entry afl q) \<and> testcase_buf (entry afl' q) = testcase_buf (entry afl q)
     | Some new \<Rightarrow> length new = unat (q_len (entry afl' q)) \<and> length new < unat (q_len (entry afl q))
         \<and> subseq new (take (unat (q_len (entry afl q))) in_buf) \<and> take TRIM_MIN_BYTES new = take TRIM_MIN_BYTES in_buf
         \<and> (\<forall>b. testcase_buf (entry afl q) = Some b \<and> \<not> same_buf \<longrightarrow>
              (\<exists>b'. testcase_buf (entry afl' q) = Some b' \<and> take (length new) b' = new)))"
proof (cases "q_len (entry afl q) < 5")
  case True
  then show ?thesis by (simp add: trim_case_def Let_def)
next
  case False
  let ?l = "q_len (entry afl q)" and ?s = "trim_start nv in_buf (unat (q_len (entry afl q))) (trace_bits afl)"
  have five: "5 \<le> unat ?l" using False by (simp add: word_less_nat_alt)
  have s: "tr_ok ?s" "tr_clean ?s = None" "tr_len ?s = unat ?l" "tr_buf ?s = in_buf"
    using assms(3) by (simp_all add: tr_ok_def trim_start_def)
  obtain st where st: "trim_loop w (exec_cksum (entry afl q)) ?s = Some st" "trimmed TRIM_MIN_BYTES ?s st"
    using trim_passes_ends [OF assms(1) s(1)] unfolding trim_loop_def by blast
  note t = st(2) [unfolded trimmed_def s tr_input_def tr_ok_def]
  have u: "unat (of_nat (tr_len st) :: u32) = tr_len st"
    using t unsigned_less [of "q_len (entry afl q)", where 'a = nat] by (simp add: unsigned_of_nat take_bit_nat_eq_self_iff)
  show ?thesis
  proof (cases "tr_clean st")
    case None
    then have "tr_len st = unat ?l" using t by simp
    then have "(of_nat (tr_len st) :: u32) = ?l" by simp
    then show ?thesis using st(1) None False assms(2) by (simp add: trim_case_def Let_def)
  next
    case (Some clean)
    define x where "x = set_entry q (\<lambda>e. e\<lparr>q_len := of_nat (tr_len st)\<rparr>) (afl\<lparr>trace_bits := tr_trace st\<rparr>)"
    define y where "y = queue_testcase_retake_mem same_buf ok q (tr_buf st) (of_nat (tr_len st)) ?l x"
    let ?z = "update_bitmap_score q True (y\<lparr>trace_bits := clean\<rparr>)" and ?new = "take (tr_len st) (tr_buf st)"
    have c: "trim_case w same_buf ok q in_buf nv afl = Some (\<lparr>tres_fault = tr_fault st, tres_nv = tr_nv st,
        tres_file = Some ?new, tres_bytes_in = ucast ?l, tres_bytes_out = ucast (of_nat (tr_len st) :: u32)\<rparr>, ?z)"
      using st(1) Some False by (simp add: trim_case_def Let_def x_def y_def)
    have x: "q_len (entry x q) = of_nat (tr_len st)" "testcase_buf (entry x q) = testcase_buf (entry afl q)" "q < length (queue_buf x)"
      using assms(2) by (simp_all add: x_def)
    have len: "unat (of_nat (tr_len st) :: u32) \<le> length (tr_buf st)" using u t by simp
    have z: "q_len (entry ?z q) = of_nat (tr_len st)" "testcase_buf (entry ?z q) = testcase_buf (entry y q)"
      using retaken_entry(1) [OF x(3) len] x(1) by (simp_all add: y_def)
    have "take TRIM_MIN_BYTES ?new = take TRIM_MIN_BYTES in_buf" using t five by (simp add: min_def split: if_splits)
    moreover have "\<exists>b'. testcase_buf (entry ?z q) = Some b' \<and> take (length ?new) b' = ?new"
      if "testcase_buf (entry afl q) = Some b" "\<not> same_buf" for b
      using retaken_entry(2) [OF x(3) len _ that(2), where b = b and ok = ok and old = ?l] that(1) x(2) z(2) u t
      by (auto simp: y_def min_def)
    ultimately show ?thesis unfolding c using t Some z(1) u by (auto simp: min_def)
  qed
qed

section \<open>A rejected input is never trimmed\<close>

lemma trim_p2_double: "0 < n \<Longrightarrow> n < 2 ^ 32 \<Longrightarrow> trim_p2 n div TRIM_START_STEPS < n"
proof -
  assume n: "0 < n" "n < 2 ^ 32"
  then have u: "unat (of_nat n :: u64) = n" by (simp add: unsigned_of_nat take_bit_nat_eq_self_iff)
  have "1 \<le> unat (of_nat n :: u64)" "unat (of_nat n :: u64) \<le> 2 ^ 32" using n u by simp_all
  then obtain k where "unat (next_pow2 (of_nat n)) = 2 ^ k" "2 ^ k < 2 * n" using next_pow2_exact u by metis
  moreover have "trim_p2 n \<le> unat (next_pow2 (of_nat n))"
    by (simp add: trim_p2_def unat_ucast_down)
  ultimately have "trim_p2 n < 2 * n" by linarith
  then show ?thesis by (simp add: less_mult_imp_div_less)
qed

lemma trim_case_rejected:
  assumes f: "tw_filter w = Some f" and five: "5 \<le> q_len (entry afl q)" and nv: "nv \<in> S"
    and rej: "\<And>nv. nv \<in> S \<Longrightarrow> fst (f (take (unat (q_len (entry afl q))) in_buf) nv)
               \<and> snd (f (take (unat (q_len (entry afl q))) in_buf) nv) \<in> S"
  shows "trim_case w same_buf ok q in_buf nv afl = None"
proof -
  let ?l = "unat (q_len (entry afl q))" and ?c = "exec_cksum (entry afl q)"
  let ?s = "trim_start nv in_buf (unat (q_len (entry afl q))) (trace_bits afl)"
  have l: "5 \<le> ?l" using five by (simp add: word_le_nat_alt)
  let ?m = "max (tr_p2 ?s div TRIM_START_STEPS) TRIM_MIN_BYTES"
  have s: "tr_len ?s = ?l" "tr_p2 ?s = trim_p2 ?l" "tr_nv ?s = nv" "tr_input ?s = take ?l in_buf"
    by (simp_all add: trim_start_def tr_input_def)
  have lt: "?l < 2 ^ 32" using unsigned_less [of "q_len (entry afl q)", where 'a = nat] by simp
  have "trim_p2 ?l div TRIM_START_STEPS < ?l" using l by (intro trim_p2_double lt) simp
  then have "?m < tr_len ?s" using l s by simp
  then have "trim_pass w ?c ?m ?m ?s = None"
    using trim_pass_stuck [OF f, of ?m ?s S ?c ?m] nv rej s by simp
  moreover have "tr_p2 ?s div TRIM_END_STEPS \<le> tr_p2 ?s div TRIM_START_STEPS" by (rule div_le_mono2) simp_all
  then have "max (tr_p2 ?s div TRIM_END_STEPS) TRIM_MIN_BYTES \<le> ?m" by simp
  ultimately have "trim_loop w ?c ?s = None"
    unfolding trim_loop_def by (subst trim_passes.simps) simp
  then show ?thesis using five by (simp add: trim_case_def Let_def not_less)
qed

lemma account_invalid_task:
  "nv_task (nv_account_invalid afl v) = nv_task afl" "nv_allow_cnt (nv_account_invalid afl v) = nv_allow_cnt afl"
  "nv_allow_pairs (nv_account_invalid afl v) = nv_allow_pairs afl" "nv_tcfg_loaded (nv_account_invalid afl v) = nv_tcfg_loaded afl"
  by (simp_all add: nv_account_invalid_def Let_def)

lemma validity_account_invalid:
  "nv_validity_check fp env peer pe (nv_account_invalid afl v) mem = nv_validity_check fp env peer pe afl mem"
  by (simp add: nv_validity_check_def score_verdict_def nv_validity_rpc_score_unix_def nv_is_allowed_pair_def
      account_invalid_task cong: option.case_cong if_cong)

lemma validity_reject_stays:
  assumes "nv_v_is_reject (nv_validity_check fp env peer pe nv (Some mem))"
  shows "fst (nv_trim_filter fp env peer pe mem nv)"
    "nv_v_is_reject (nv_validity_check fp env peer pe (snd (nv_trim_filter fp env peer pe mem nv)) (Some mem))"
  using assms by (simp_all add: nv_trim_filter_def Let_def validity_account_invalid)

section \<open>What the target does is not looked at\<close>

text \<open>Two states that agree on everything but what the target did.\<close>

definition same_cut :: "'n trim_st \<Rightarrow> 'm trim_st \<Rightarrow> bool" where
  "same_cut s t \<longleftrightarrow> tr_buf s = tr_buf t \<and> tr_len s = tr_len t \<and> tr_p2 s = tr_p2 t \<and> tr_exec s = tr_exec t
     \<and> tr_written s = tr_written t \<and> (tr_clean s = None \<longleftrightarrow> tr_clean t = None)"

lemma same_cut_run: "same_cut s t \<Longrightarrow> same_cut (trim_run w mem s) (trim_run v mem t)"
  by (simp add: same_cut_def trim_run_def split: prod.split)

lemma same_cut_accept: "same_cut s t \<Longrightarrow> same_cut (trim_accept pos n s) (trim_accept pos n t)"
  by (auto simp: same_cut_def trim_accept_def split: option.split)

definition both_cut :: "'n trim_st option \<Rightarrow> 'm trim_st option \<Rightarrow> bool" where
  "both_cut a b \<longleftrightarrow> (\<exists>s t. a = Some s \<and> b = Some t \<and> same_cut s t)"

lemma trim_pass_same:
  assumes "tw_filter w = None" "tw_filter v = None" "tw_cksum w = tw_cksum v" "0 < m" "same_cut s t"
  shows "both_cut (trim_pass w ck m pos s) (trim_pass v ck m pos t)"
  using assms(5)
proof (induction "tr_len s - pos" arbitrary: pos s t rule: less_induct)
  case less
  note c = less.prems [unfolded same_cut_def]
  show ?case
  proof (cases "pos < tr_len s")
    case False
    then show ?thesis using less.prems c
      by (subst trim_pass.simps, subst trim_pass.simps) (simp add: both_cut_def)
  next
    case True
    let ?n = "min m (tr_len s - pos)"
    let ?mem = "write_with_gap (tr_buf s) (tr_len s) pos ?n"
    let ?s = "trim_run w ?mem (s\<lparr>tr_written := tr_written s @ [?mem]\<rparr>)"
    let ?t = "trim_run v ?mem (t\<lparr>tr_written := tr_written t @ [?mem]\<rparr>)"
    have r: "same_cut ?s ?t" using less.prems by (intro same_cut_run) (simp add: same_cut_def)
    have f: "trim_pass w ck m pos s = (if tw_cksum w (tr_exec ?s) = ck then trim_pass w ck m pos (trim_accept pos ?n ?s)
        else trim_pass w ck m (pos + m) ?s)"
      using True assms(1) by (subst trim_pass.simps) (simp add: trim_filter_def Let_def)
    have g: "trim_pass v ck m pos t = (if tw_cksum v (tr_exec ?t) = ck then trim_pass v ck m pos (trim_accept pos ?n ?t)
        else trim_pass v ck m (pos + m) ?t)"
      using True assms(2) c by (subst trim_pass.simps) (simp add: trim_filter_def Let_def)
    have "0 < ?n" using True assms(4) by simp
    then have d: "tr_len (trim_accept pos ?n ?s) - pos < tr_len s - pos" using True by (simp add: trim_accept_def)
    have e: "tr_len ?s - (pos + m) < tr_len s - pos" using True assms(4) by simp
    have x: "tr_exec ?s = tr_exec ?t" using c by simp
    show ?thesis unfolding f g x assms(3)
      using less.hyps [OF d same_cut_accept [OF r]] less.hyps [OF e r] by simp
  qed
qed

lemma trim_pass_shorter:
  assumes "tw_filter w = None" "0 < m" "trim_pass w ck m pos s = Some t" "tr_ok s"
  shows "tr_ok t"
  using trim_pass_ends [of w m 0 pos s ck] assms by (simp add: accepts_def trimmed_def)

lemma trim_passes_same:
  assumes "tw_filter w = None" "tw_filter v = None" "tw_cksum w = tw_cksum v" "same_cut s t"
  shows "both_cut (trim_passes w ck m s) (trim_passes v ck m t)"
  using assms(4)
proof (induction m arbitrary: s t rule: less_induct)
  case (less m)
  show ?case
  proof (cases "m \<ge> max (tr_p2 s div TRIM_END_STEPS) TRIM_MIN_BYTES")
    case False
    then show ?thesis using less.prems
      by (subst trim_passes.simps, subst trim_passes.simps) (simp add: both_cut_def same_cut_def)
  next
    case True
    then obtain s' t' where p: "trim_pass w ck m m s = Some s'" "trim_pass v ck m m t = Some t'" "same_cut s' t'"
      using trim_pass_same [OF assms(1-3) _ less.prems, of m ck m] by (auto simp: both_cut_def)
    have "both_cut (trim_passes w ck (m div 2) s') (trim_passes v ck (m div 2) t')"
      using True by (intro less.IH p) simp
    then show ?thesis using p True less.prems
      by (subst trim_passes.simps, subst trim_passes.simps) (simp add: same_cut_def)
  qed
qed

text \<open>The file that trimming writes, if any.\<close>

definition trimmed_file :: "('n trim_result \<times> 'a afl_cache_scheme) option \<Rightarrow> bytes option" where
  "trimmed_file r = (case r of None \<Rightarrow> None | Some (res, afl) \<Rightarrow> tres_file res)"

lemma trim_case_same:
  assumes "tw_filter w = None" "tw_filter v = None" "tw_cksum w = tw_cksum v"
  shows "trimmed_file (trim_case w same_buf ok q in_buf nv afl) = trimmed_file (trim_case v same_buf ok q in_buf nv' afl)"
proof (cases "q_len (entry afl q) < 5")
  case True
  then show ?thesis by (simp add: trim_case_def trimmed_file_def Let_def)
next
  case False
  let ?s = "trim_start nv in_buf (unat (q_len (entry afl q))) (trace_bits afl)"
  let ?t = "trim_start nv' in_buf (unat (q_len (entry afl q))) (trace_bits afl)"
  have "same_cut ?s ?t" by (simp add: same_cut_def trim_start_def)
  then have "both_cut (trim_loop w (exec_cksum (entry afl q)) ?s) (trim_loop v (exec_cksum (entry afl q)) ?t)"
    unfolding trim_loop_def using trim_passes_same [OF assms] by (simp add: same_cut_def)
  then show ?thesis using False
    by (auto simp: both_cut_def same_cut_def trim_case_def trimmed_file_def Let_def split: option.split)
qed

section \<open>Writing without unlinking\<close>

lemma write_no_unlink_whole:
  assumes "result 0 = int len" "0 < len" "len \<le> length in_buf"
  shows "write_no_unlink result in_buf len 0 [] = Some (take len in_buf)"
  using assms by (subst write_no_unlink.simps, simp, subst write_no_unlink.simps) simp

text \<open>After a short write the bytes are written from the start of the buffer again.\<close>

lemma write_no_unlink_short:
  "write_no_unlink (\<lambda>k. 2) [1, 2, 3, 4] 4 0 [] = Some [1, 2, 1, 2]"
  by (subst write_no_unlink.simps, simp, subst write_no_unlink.simps, simp, subst write_no_unlink.simps) simp

section \<open>Properties\<close>


definition silent_world :: "unit trim_world" where
  "silent_world = \<lparr>tw_filter = None, tw_run = (\<lambda>mem nv. (FSRV_RUN_OK, [], nv)), tw_cksum = (\<lambda>_. 0)\<rparr>"


text \<open>
  C30 With the validity filter enabled, a testcase of five or more bytes that the filter rejects is never
  trimmed: \<open>trim_case\<close> does not return. The filter is asked about the untrimmed buffer, and a rejection
  goes back to the head of the loop without moving on.
\<close>

theorem trim_case_never_ends:
  fixes nv :: "'b nv_valid_scheme"
  assumes "tw_filter w = Some (nv_trim_filter fp env peer pe)" "5 \<le> q_len (entry afl q)"
    and "nv_v_is_reject (nv_validity_check fp env peer pe nv (Some (take (unat (q_len (entry afl q))) in_buf)))"
  shows "trim_case w same_buf ok q in_buf nv afl = None"
  by (rule trim_case_rejected [OF assms(1,2), where
        S = "{nv. nv_v_is_reject (nv_validity_check fp env peer pe nv (Some (take (unat (q_len (entry afl q))) in_buf)))}"])
     (simp_all add: assms(3) validity_reject_stays)

theorem trim_case_never_ends_witness:
  "trim_case \<lparr>tw_filter = Some (nv_trim_filter exact_fpu (\<lambda>_. None) (\<lambda>_. undefined) (\<lambda>_ _. [])),
      tw_run = (\<lambda>mem nv. (FSRV_RUN_OK, [], nv)), tw_cksum = (\<lambda>_. 0)\<rparr> False True 0 (replicate 30 65) start_valid (small_cache 4) = None"
proof -
  have "memchr (chars_of (replicate 30 65)) (CHR 0x0A) = None" by code_simp
  then have "nv_v_is_reject (nv_validity_check exact_fpu (\<lambda>_. None) (\<lambda>_. undefined) (\<lambda>_ _. []) start_valid (Some (replicate 30 65)))"
    by (simp add: nv_validity_check_def nv_v_is_reject_def Let_def)
  then show ?thesis by (intro trim_case_never_ends) (simp_all add: small_len)
qed



end
