(* ===== verification/Testcase_Write.thy ===== *)
theory Testcase_Write
  imports Prelude
begin

text \<open>
  \<open>write_to_testcase\<close> of \<open>src/src/afl-fuzz-run.c\<close>: an input goes through the post-processors of the custom
  mutators, its length is brought into the configured range, and it is handed to the target. Plug-ins
  are parameters, as is what lies in memory behind the data, which the code reads when it makes an
  input longer.
\<close>

section \<open>The code\<close>

text \<open>The buffer a post-processor returns: no buffer, the one it was given, or one of its own.\<close>

datatype pp_buffer = Pp_null | Pp_given | Pp_own bytes

type_synonym post_processor = "bytes \<Rightarrow> int \<Rightarrow> int \<times> pp_buffer"

text \<open>
  \<open>wt_post\<close> has the post-processors of the custom mutators that have one, \<open>wt_mutators\<close> says whether there
  are custom mutators at all, and \<open>wt_behind n\<close> are the \<open>n\<close> bytes behind the data.
\<close>

record write_cfg =
  wt_mutators :: bool
  wt_post :: "post_processor list"
  wt_min :: u32
  wt_max :: u32
  wt_keep_original :: bool
  wt_behind :: "nat \<Rightarrow> bytes"

text \<open>
  \<open>wr_sent\<close> is what the target gets, \<open>wr_mem\<close> the data \<open>*mem\<close> points to afterwards, and \<open>wr_swaps\<close> how
  often the buffers \<open>out\<close> and \<open>out_scratch\<close> were exchanged.
\<close>

record write_result =
  wr_len :: u32
  wr_sent :: "bytes option"
  wr_mem :: bytes
  wr_swaps :: nat

text \<open>The first \<open>n\<close> bytes at an address.\<close>

definition bytes_at :: "write_cfg \<Rightarrow> nat \<Rightarrow> bytes \<Rightarrow> bytes" where
  "bytes_at c n xs = take n xs @ wt_behind c (n - length xs)"

text \<open>The new buffer is \<open>None\<close> while it is still the one of the caller.\<close>

fun post_process :: "bytes \<Rightarrow> post_processor list \<Rightarrow> int \<Rightarrow> bytes option \<Rightarrow> int \<times> bytes option" where
  "post_process mem [] new_size new_mem = (new_size, new_mem)"
| "post_process mem (p # ps) new_size new_mem =
     (case p (case new_mem of None \<Rightarrow> mem | Some b \<Rightarrow> b) new_size of
        (n, buf) \<Rightarrow>
          if buf = Pp_null \<or> n \<le> 0 then post_process mem ps 0 new_mem
          else post_process mem ps n (case buf of Pp_own b \<Rightarrow> Some b | _ \<Rightarrow> new_mem))"

definition write_to_testcase :: "write_cfg \<Rightarrow> bool \<Rightarrow> bytes \<Rightarrow> u32 \<Rightarrow> write_result" where
  "write_to_testcase c fix_len mem len =
     (if wt_mutators c then
        (case post_process mem (wt_post c) (int (unat len)) None of
           (sz, new_mem) \<Rightarrow>
             if sz = 0 \<and> \<not> fix_len then \<lparr>wr_len = 0, wr_sent = None, wr_mem = mem, wr_swaps = 0\<rparr>
             else
               let sz = (if sz = 0 then int (unat len) else sz);
                   sz = (if sz < int (unat (wt_min c)) \<and> \<not> fix_len then int (unat (wt_min c))
                           else if sz > int (unat (wt_max c)) then int (unat (wt_max c)) else sz);
                   moved = (new_mem \<noteq> None \<and> sz > 0);
                   out = (case new_mem of None \<Rightarrow> mem | Some b \<Rightarrow> if sz > 0 then bytes_at c (nat sz) b else mem);
                   sent = bytes_at c (nat sz) out
               in if \<not> wt_keep_original c
                  then \<lparr>wr_len = of_int sz, wr_sent = Some sent, wr_mem = out, wr_swaps = of_bool moved\<rparr>
                  else \<lparr>wr_len = len, wr_sent = Some sent,
                        wr_mem = (if moved then mem else case new_mem of None \<Rightarrow> mem | Some b \<Rightarrow> b),
                        wr_swaps = of_bool moved + 1\<rparr>)
      else
        let len = (if len < wt_min c \<and> \<not> fix_len then wt_min c else if len > wt_max c then wt_max c else len)
        in \<lparr>wr_len = len, wr_sent = Some (bytes_at c (unat len) mem), wr_mem = mem, wr_swaps = 0\<rparr>)"

section \<open>Laws\<close>

lemma bytes_at_exact: "n \<le> length xs \<Longrightarrow> wt_behind c 0 = [] \<Longrightarrow> bytes_at c n xs = take n xs"
  by (simp add: bytes_at_def)

lemma length_bytes_at: "(\<And>n. length (wt_behind c n) = n) \<Longrightarrow> length (bytes_at c n xs) = n"
  by (simp add: bytes_at_def)

text \<open>Sizes stay in the range of \<open>ssize_t\<close> that fits a length.\<close>

definition pp_sane :: "post_processor \<Rightarrow> bool" where
  "pp_sane p \<longleftrightarrow> (\<forall>mem n sz buf. p mem n = (sz, buf) \<longrightarrow> sz < 2 ^ 32)"

lemma post_process_size:
  assumes "\<forall>p \<in> set ps. pp_sane p" "0 \<le> sz" "sz < 2 ^ 32" "post_process mem ps sz nm = (n, b)"
  shows "0 \<le> n \<and> n < 2 ^ 32"
  using assms
proof (induction ps arbitrary: sz nm)
  case (Cons p ps)
  obtain n' b' where p: "p (case nm of None \<Rightarrow> mem | Some b \<Rightarrow> b) sz = (n', b')" by force
  then have "n' < 2 ^ 32" using Cons.prems(1) by (auto simp: pp_sane_def)
  then show ?case using Cons.IH [of 0 nm] Cons.IH [of n'] Cons.prems p
    by (auto split: if_splits)
qed simp

lemma post_process_u32:
  assumes "\<forall>p \<in> set ps. pp_sane p" "post_process mem ps (int (unat (len :: u32))) nm = (n, b)"
  shows "0 \<le> n"
  using post_process_size [OF assms(1) _ _ assms(2)] unsigned_less [of len, where 'a = int] by simp

text \<open>The length after the limits were applied.\<close>

definition limited :: "write_cfg \<Rightarrow> bool \<Rightarrow> nat \<Rightarrow> nat" where
  "limited c fix_len n = (if n < unat (wt_min c) \<and> \<not> fix_len then unat (wt_min c) else min n (unat (wt_max c)))"

lemma limited_range: "wt_min c \<le> wt_max c \<Longrightarrow> limited c fix_len n \<le> unat (wt_max c)"
    "wt_min c \<le> wt_max c \<Longrightarrow> \<not> fix_len \<Longrightarrow> unat (wt_min c) \<le> limited c fix_len n"
  by (auto simp: limited_def word_le_nat_alt)

lemma int_limited:
  "(if int n < int (unat (wt_min c)) \<and> \<not> fix_len then int (unat (wt_min c))
    else if int n > int (unat (wt_max c)) then int (unat (wt_max c)) else int n) = int (limited c fix_len n)"
proof -
  have "(if int n < int a \<and> \<not> f then int a else if int n > int b then int b else int n) =
      int (if n < a \<and> \<not> f then a else min n b)" for a b f
    by auto
  then show ?thesis by (simp only: limited_def)
qed

lemma write_plain:
  assumes "\<not> wt_mutators c"
  shows "write_to_testcase c fix_len mem len =
    \<lparr>wr_len = of_nat (limited c fix_len (unat len)), wr_sent = Some (bytes_at c (limited c fix_len (unat len)) mem), wr_mem = mem, wr_swaps = 0\<rparr>"
proof -
  have "(if len < wt_min c \<and> \<not> fix_len then wt_min c else if len > wt_max c then wt_max c else len) = of_nat (limited c fix_len (unat len))"
    by (auto simp: limited_def min_def word_less_nat_alt)
  moreover have "limited c fix_len (unat len) < 2 ^ 32"
    using unsigned_less [of len, where 'a = nat] unsigned_less [of "wt_min c", where 'a = nat] by (auto simp: limited_def min_def)
  moreover have "unat (of_nat (limited c fix_len (unat len)) :: u32) = limited c fix_len (unat len)"
    using \<open>limited c fix_len (unat len) < 2 ^ 32\<close> by (simp add: unsigned_of_nat take_bit_nat_eq_self_iff)
  ultimately show ?thesis using assms by (simp only: write_to_testcase_def Let_def if_False)
qed

lemma write_refused:
  assumes "wt_mutators c"
  shows "wr_sent (write_to_testcase c fix_len mem len) = None \<longleftrightarrow>
    \<not> fix_len \<and> fst (post_process mem (wt_post c) (int (unat len)) None) = 0"
  using assms by (auto simp: write_to_testcase_def Let_def split: prod.splits)

text \<open>The size before the limits: an input that was refused is run as it is when \<open>fix\<close> is set.\<close>

lemma write_sent:
  assumes "wt_mutators c" "\<forall>p \<in> set (wt_post c). pp_sane p"
    and "post_process mem (wt_post c) (int (unat len)) None = (sz, nm)" "\<not> (sz = 0 \<and> \<not> fix_len)"
    and "n = limited c fix_len (if sz = 0 then unat len else nat sz)"
  shows "wr_sent (write_to_testcase c fix_len mem len) =
      Some (bytes_at c n (case nm of None \<Rightarrow> mem | Some b \<Rightarrow> if n > 0 then bytes_at c n b else mem))"
    "wr_len (write_to_testcase c fix_len mem len) = (if wt_keep_original c then len else of_nat n)"
    "wr_swaps (write_to_testcase c fix_len mem len) =
      of_bool (nm \<noteq> None \<and> 0 < n) + of_bool (wt_keep_original c)"
    "wt_keep_original c \<Longrightarrow> 0 < n \<Longrightarrow> wr_mem (write_to_testcase c fix_len mem len) = mem"
proof -
  have s: "0 \<le> sz" using post_process_u32 [OF assms(2) assms(3)] .
  then have e: "(if sz = 0 then int (unat len) else sz) = int (if sz = 0 then unat len else nat sz)" by simp
  note w = write_to_testcase_def [of c fix_len mem len]
  have "write_to_testcase c fix_len mem len =
    (let moved = (nm \<noteq> None \<and> int n > 0); out = (case nm of None \<Rightarrow> mem | Some b \<Rightarrow> if int n > 0 then bytes_at c n b else mem);
         sent = bytes_at c n out
     in if \<not> wt_keep_original c then \<lparr>wr_len = of_int (int n), wr_sent = Some sent, wr_mem = out, wr_swaps = of_bool moved\<rparr>
        else \<lparr>wr_len = len, wr_sent = Some sent, wr_mem = (if moved then mem else case nm of None \<Rightarrow> mem | Some b \<Rightarrow> b),
               wr_swaps = of_bool moved + 1\<rparr>)"
    unfolding w using assms(1,4) by (simp only: if_True assms(3) prod.case if_False Let_def e int_limited assms(5) [symmetric] nat_int)
  then show "wr_sent (write_to_testcase c fix_len mem len) =
      Some (bytes_at c n (case nm of None \<Rightarrow> mem | Some b \<Rightarrow> if n > 0 then bytes_at c n b else mem))"
    "wr_len (write_to_testcase c fix_len mem len) = (if wt_keep_original c then len else of_nat n)"
    "wr_swaps (write_to_testcase c fix_len mem len) = of_bool (nm \<noteq> None \<and> 0 < n) + of_bool (wt_keep_original c)"
    "wt_keep_original c \<Longrightarrow> 0 < n \<Longrightarrow> wr_mem (write_to_testcase c fix_len mem len) = mem"
    by (simp_all add: Let_def split: option.split)
qed

section \<open>Properties\<close>

text \<open>
  C34 What \<open>write_to_testcase\<close> hands to the target is within the configured lengths; nothing is handed over
  exactly when the post-processors refuse the input and the run is not forced. In a run that keeps the
  original, the caller's data and length are what they were.
\<close>

theorem write_within_limits:
  assumes "wt_min c \<le> wt_max c" "0 < wt_min c" "\<And>n. length (wt_behind c n) = n" "\<forall>p \<in> set (wt_post c). pp_sane p" "0 < len"
  shows "(wr_sent (write_to_testcase c fix_len mem len) = None \<longleftrightarrow>
      wt_mutators c \<and> \<not> fix_len \<and> fst (post_process mem (wt_post c) (int (unat len)) None) = 0)
    \<and> (\<forall>sent. wr_sent (write_to_testcase c fix_len mem len) = Some sent \<longrightarrow>
         length sent \<le> unat (wt_max c) \<and> (\<not> fix_len \<longrightarrow> unat (wt_min c) \<le> length sent)
         \<and> (wt_mutators c \<and> wt_keep_original c \<longrightarrow>
              wr_len (write_to_testcase c fix_len mem len) = len \<and> wr_mem (write_to_testcase c fix_len mem len) = mem))"
proof (cases "wt_mutators c")
  case False
  then show ?thesis using limited_range [OF assms(1)] by (simp add: write_plain length_bytes_at [OF assms(3)])
next
  case True
  obtain sz nm where p: "post_process mem (wt_post c) (int (unat len)) None = (sz, nm)" by force
  define n where "n = limited c fix_len (if sz = 0 then unat len else nat sz)"
  have s: "0 \<le> sz" using post_process_u32 [OF assms(4) p] .
  have "0 < unat len" "0 < unat (wt_min c)" "unat (wt_min c) \<le> unat (wt_max c)"
    using assms(1,2,5) by (simp_all add: word_le_nat_alt word_less_nat_alt)
  then have n: "0 < n" using s by (auto simp: n_def limited_def)
  show ?thesis
  proof (cases "sz = 0 \<and> \<not> fix_len")
    case True
    then have "wr_sent (write_to_testcase c fix_len mem len) = None" using \<open>wt_mutators c\<close> p by (simp add: write_refused)
    then show ?thesis using True \<open>wt_mutators c\<close> p by simp
  next
    case False
    note w = write_sent [OF \<open>wt_mutators c\<close> assms(4) p False n_def]
    show ?thesis using w n p False limited_range [OF assms(1)] write_refused [OF \<open>wt_mutators c\<close>]
      by (auto simp: n_def length_bytes_at [OF assms(3)])
  qed
qed

definition doubling_cfg :: write_cfg where
  "doubling_cfg = \<lparr>wt_mutators = True, wt_post = [\<lambda>mem n. (2 * n mod 100, Pp_own (mem @ mem))], wt_min = 1, wt_max = 5,
     wt_keep_original = True, wt_behind = (\<lambda>n. replicate n 0)\<rparr>"

theorem write_within_limits_witness:
  "wr_len (write_to_testcase doubling_cfg False [1, 2, 3] 3) = 3 \<and> wr_sent (write_to_testcase doubling_cfg False [1, 2, 3] 3) \<noteq> None"
proof -
  have "\<forall>p \<in> set (wt_post doubling_cfg). pp_sane p" by (simp add: doubling_cfg_def pp_sane_def) (smt (verit) pos_mod_bound)
  then have w: "wr_sent (write_to_testcase doubling_cfg False [1, 2, 3] 3) = None \<longleftrightarrow>
      wt_mutators doubling_cfg \<and> \<not> False \<and> fst (post_process [1, 2, 3] (wt_post doubling_cfg) (int (unat (3::u32))) None) = 0"
    "\<And>sent. wr_sent (write_to_testcase doubling_cfg False [1, 2, 3] 3) = Some sent \<Longrightarrow>
      wr_len (write_to_testcase doubling_cfg False [1, 2, 3] 3) = 3"
    using write_within_limits [of doubling_cfg 3 False "[1, 2, 3]"] by (simp_all add: doubling_cfg_def)
  then show ?thesis by (cases "wr_sent (write_to_testcase doubling_cfg False [1, 2, 3] 3)") (simp_all add: doubling_cfg_def)
qed

text \<open>
  C35 In a run that keeps the original, the buffers \<open>out\<close> and \<open>out_scratch\<close> are back in place only when some
  post-processor made a buffer of its own; otherwise, as with custom mutators that have no
  post-processor, every such run exchanges them.
\<close>

theorem keep_original_swaps:
  assumes "wt_mutators c" "wt_keep_original c" "\<forall>p \<in> set (wt_post c). pp_sane p" "0 < len" "0 < wt_min c" "wt_min c \<le> wt_max c"
    and "wr_sent (write_to_testcase c fix_len mem len) \<noteq> None"
  shows "even (wr_swaps (write_to_testcase c fix_len mem len)) \<longleftrightarrow>
    snd (post_process mem (wt_post c) (int (unat len)) None) \<noteq> None"
proof -
  obtain sz nm where p: "post_process mem (wt_post c) (int (unat len)) None = (sz, nm)" by force
  define n where "n = limited c fix_len (if sz = 0 then unat len else nat sz)"
  have s: "0 \<le> sz" using post_process_u32 [OF assms(3) p] .
  have "0 < unat len" "0 < unat (wt_min c)" "unat (wt_min c) \<le> unat (wt_max c)"
    using assms(4-6) by (simp_all add: word_le_nat_alt word_less_nat_alt)
  then have n: "0 < n" using s by (auto simp: n_def limited_def)
  have "\<not> (sz = 0 \<and> \<not> fix_len)" using assms(1,7) p by (auto simp: write_refused)
  from write_sent(3) [OF assms(1,3) p this n_def] show ?thesis using assms(2) n p by simp
qed

theorem keep_original_swaps_witness:
  "odd (wr_swaps (write_to_testcase (doubling_cfg\<lparr>wt_post := []\<rparr>) True [1, 2, 3] 3))"
  using keep_original_swaps [of "doubling_cfg\<lparr>wt_post := []\<rparr>" 3 True "[1, 2, 3]"]
  by (simp add: doubling_cfg_def write_refused)

end
