(* ===== verification/Save_Case.thy ===== *)
theory Save_Case
  imports Calibrate Testcase_Write
begin

text \<open>
  \<open>save_if_interesting\<close> and \<open>describe_op\<close> of \<open>src/src/afl-fuzz-bitmap.c\<close>: after a run the fuzzer decides
  whether the input joins the queue and whether it is kept as a crash or a hang, and names the files
  after how they were found. The target, the sanitizer builds, the hashes, the clock and the file system
  are parameters.
\<close>

section \<open>State\<close>

datatype san_abstraction = SIMPLIFY_TRACE | UNIQUE_TRACE | COVERAGE_INCREASE
datatype stage_val = STAGE_VAL_NONE | STAGE_VAL_LE | STAGE_VAL_BE

abbreviation (input) SAN_CRASH_ONLY :: u32 where "SAN_CRASH_ONLY \<equiv> 16"
abbreviation (input) NON_COV_INCREASE_BUG :: u32 where "NON_COV_INCREASE_BUG \<equiv> 32"
abbreviation (input) KEEP_UNIQUE_HANG :: u64 where "KEEP_UNIQUE_HANG \<equiv> 512"
abbreviation (input) KEEP_UNIQUE_CRASH :: u64 where "KEEP_UNIQUE_CRASH \<equiv> 25600"
abbreviation (input) N_FUZZ_SIZE :: nat where "N_FUZZ_SIZE \<equiv> 2097152"
abbreviation (input) NAME_MAX :: nat where "NAME_MAX \<equiv> 255"

record afl_save = afl_cal +
  out_dir :: c_string
  file_extension :: "c_string ptr"
  afl_sha1_filenames :: bool
  afl_ignore_timeouts :: bool
  afl_keep_timeouts :: bool
  current_entry :: u32
  splicing_with :: int
  syncing_party :: "c_string ptr"
  foreign_file :: "c_string ptr"
  syncing_case :: u32
  stage_short :: c_string
  stage_cur_byte :: int
  stage_cur_val :: int
  stage_val_type :: stage_val
  run_time :: u64
  total_execs :: u64
  last_kill_signal :: u8
  hang_tmout :: u32
  queue_cycle :: u64
  fuzz_mode :: u8
  switch_fuzz_mode :: bool
  san_binary_length :: u8
  san_abs :: san_abstraction
  san_case_status :: u32
  simplified_n_fuzz :: bytes
  n_fuzz_dup :: bytes
  total_crashes :: u64
  saved_crashes :: u64
  total_tmouts :: u64
  saved_tmouts :: u64
  saved_hangs :: u64
  ss_new_bits_any :: u64
  ss_new_bits_kept :: u64
  afl_no_crash_readme :: bool
  crash_readme :: bool
  saved_files :: "(c_string \<times> bytes) list"

text \<open>
  \<open>sv_hang k\<close> and \<open>sv_cal k\<close> are the run with the generous time limit and the calibration in the \<open>k\<close>-th pass,
  \<open>sv_san i\<close> the run of the \<open>i\<close>-th sanitizer build. \<open>sv_describe\<close> is \<open>afl_custom_describe\<close> of the current
  custom mutator, and \<open>sv_create\<close> says which files can be created.
\<close>

record save_world =
  sv_w64 :: bool
  sv_hash32 :: "bytes \<Rightarrow> u32"
  sv_hash64 :: "bytes \<Rightarrow> u64"
  sv_sha1 :: "bytes \<Rightarrow> c_string"
  sv_san :: "nat \<Rightarrow> bytes \<Rightarrow> fsrv_run_result"
  sv_hang :: "nat \<Rightarrow> fsrv_run_result \<times> bytes \<times> bool"
  sv_cal :: "nat \<Rightarrow> cal_world"
  sv_write :: write_cfg
  sv_describe :: "(int \<Rightarrow> c_string ptr) option"
  sv_create :: "c_string \<Rightarrow> bool"
  sv_time :: u64

datatype save_error = Filename_too_long | Description_too_long | Target_failed | Cache_failed cache_error

section \<open>File names\<close>

text \<open>\<open>%0wu\<close> and \<open>%+d\<close>.\<close>

definition pad_dec :: "nat \<Rightarrow> nat \<Rightarrow> c_string" where
  "pad_dec w n = replicate (w - length (dec_nat n)) (CHR ''0'') @ dec_nat n"

definition plus_dec :: "int \<Rightarrow> c_string" where
  "plus_dec i = (if i < 0 then dec_int i else CHR ''+'' # dec_int i)"

definition describe_source :: "'a afl_save_scheme \<Rightarrow> c_string" where
  "describe_source afl =
     ''src:'' @ pad_dec 6 (unat (current_entry afl))
       @ (if splicing_with afl \<ge> 0 then CHR ''+'' # pad_dec 6 (nat (splicing_with afl)) else [])
       @ '',time:'' @ dec_nat (unat (run_time afl)) @ '',execs:'' @ dec_nat (unat (total_execs afl))"

definition describe_stage :: "'a afl_save_scheme \<Rightarrow> c_string" where
  "describe_stage afl =
     '',op:'' @ stage_short afl
       @ (if stage_cur_byte afl \<ge> 0
          then '',pos:'' @ dec_int (stage_cur_byte afl)
               @ (if stage_val_type afl \<noteq> STAGE_VAL_NONE
                  then '',val:'' @ (if stage_val_type afl = STAGE_VAL_BE then ''be:'' else []) @ plus_dec (stage_cur_val afl)
                  else [])
          else '',rep:'' @ dec_int (stage_cur_val afl))"

definition describe_custom :: "(int \<Rightarrow> c_string ptr) \<Rightarrow> nat \<Rightarrow> bool \<Rightarrow> c_string \<Rightarrow> 'a afl_save_scheme \<Rightarrow> save_error + c_string" where
  "describe_custom describe real_max_len is_timeout ret afl =
     (let ret = ret @ '','';
          size_left = int real_max_len - int (length ret) - int (length '',+cov'') - 2;
          size_left = (if is_timeout then size_left - int (length '',+tout'') else size_left)
      in if size_left \<le> 0 then Inl Filename_too_long
         else (case describe size_left of
                 None \<Rightarrow> Inr (ret @ ''op:'' @ stage_short afl)
               | Some d \<Rightarrow> if d = [] then Inr (ret @ ''op:'' @ stage_short afl) else Inr (ret @ take (nat size_left) d)))"

definition describe_op :: "save_world \<Rightarrow> 'a afl_save_scheme \<Rightarrow> u8 \<Rightarrow> nat \<Rightarrow> save_error + c_string" where
  "describe_op w afl new_bits max_description_len =
     (let is_timeout = (new_bits AND 0xf0 \<noteq> 0);
          new_bits = (if is_timeout then new_bits - 0x80 else new_bits);
          real_max_len = min max_description_len 256;
          ret = (case syncing_party afl of
                   Some party \<Rightarrow>
                     Inr (''sync:'' @ party @ (case foreign_file afl of
                            Some f \<Rightarrow> '',src:'' @ take 20 f | None \<Rightarrow> '',src:'' @ pad_dec 6 (unat (syncing_case afl))))
                 | None \<Rightarrow>
                     (case sv_describe w of
                        Some describe \<Rightarrow> describe_custom describe real_max_len is_timeout (describe_source afl) afl
                      | None \<Rightarrow> Inr (describe_source afl @ describe_stage afl)))
      in case ret of Inl e \<Rightarrow> Inl e
         | Inr ret \<Rightarrow>
             let ret = ret @ (if is_timeout then '',+tout'' else []) @ (if new_bits = 2 then '',+cov'' else [])
                         @ (if san_case_status afl AND SAN_CRASH_ONLY \<noteq> 0 then '',+san'' else [])
                         @ (if san_case_status afl AND NON_COV_INCREASE_BUG \<noteq> 0 then '',+noncov'' else [])
             in if length ret \<ge> max_description_len then Inl Description_too_long else Inr ret)"

definition dot_extension :: "'a afl_save_scheme \<Rightarrow> c_string" where
  "dot_extension afl = (case file_extension afl of None \<Rightarrow> [] | Some e \<Rightarrow> ''.'' @ e)"

text \<open>
  The name of a file in one of the directories; \<open>middle\<close> follows the number, and the description may have
  \<open>NAME_MAX - reserve\<close> characters.
\<close>

definition case_name :: "save_world \<Rightarrow> c_string \<Rightarrow> nat \<Rightarrow> c_string \<Rightarrow> nat \<Rightarrow> u8 \<Rightarrow> bytes \<Rightarrow> 'a afl_save_scheme \<Rightarrow> save_error + c_string" where
  "case_name w dir n middle reserve bits mem afl =
     (if \<not> afl_sha1_filenames afl
      then (case describe_op w afl bits (NAME_MAX - reserve) of
              Inl e \<Rightarrow> Inl e
            | Inr d \<Rightarrow> Inr (out_dir afl @ dir @ ''id:'' @ pad_dec 6 n @ '','' @ middle @ d @ dot_extension afl))
      else Inr (out_dir afl @ dir @ sv_sha1 w mem @ dot_extension afl))"

definition save_file :: "save_world \<Rightarrow> c_string \<Rightarrow> bytes \<Rightarrow> 'a afl_save_scheme \<Rightarrow> 'a afl_save_scheme" where
  "save_file w fn mem afl = (if sv_create w fn then afl\<lparr>saved_files := saved_files afl @ [(fn, mem)]\<rparr> else afl)"
section \<open>Deferred work on the trace\<close>

text \<open>The local variables of \<open>save_if_interesting\<close>; \<open>sl_timeout\<close> is \<open>is_timeout\<close>.\<close>

record save_loc =
  sl_classified :: bool
  sl_counted :: bool
  sl_cksumed :: bool
  sl_new_bits :: u8
  sl_cksum :: u64
  sl_timeout :: bool
  sl_keeping :: bool
  sl_mem :: bytes
  sl_fault :: fsrv_run_result

definition classify_if_necessary :: "save_world \<Rightarrow> save_loc \<times> 'a afl_save_scheme \<Rightarrow> save_loc \<times> 'a afl_save_scheme" where
  "classify_if_necessary w s =
     (case s of (l, afl) \<Rightarrow>
        if sl_classified l then (l, afl) else (l\<lparr>sl_classified := True\<rparr>, classify_counts (sv_w64 w) afl))"

definition calculate_cksum_if_necessary :: "save_world \<Rightarrow> save_loc \<times> 'a afl_save_scheme \<Rightarrow> save_loc \<times> 'a afl_save_scheme" where
  "calculate_cksum_if_necessary w s =
     (if sl_cksumed (fst s) then s
      else case classify_if_necessary w s of (l, afl) \<Rightarrow>
             (l\<lparr>sl_cksum := sv_hash64 w (trace_bits afl), sl_cksumed := True\<rparr>, afl))"

definition calculate_new_bits_if_necessary :: "save_world \<Rightarrow> save_loc \<times> 'a afl_save_scheme \<Rightarrow> save_loc \<times> 'a afl_save_scheme" where
  "calculate_new_bits_if_necessary w s =
     (case s of (l, afl) \<Rightarrow>
        if sl_counted l then (l, afl)
        else if sl_classified l
        then (case has_new_bits (sv_w64 w) afl VIRGIN_BITS of
                (bits, afl) \<Rightarrow> (l\<lparr>sl_new_bits := bits, sl_counted := True\<rparr>, afl))
        else (case has_new_bits_unclassified (sv_w64 w) afl VIRGIN_BITS (sl_classified l) of
                (bits, classified, afl) \<Rightarrow>
                  (l\<lparr>sl_new_bits := bits, sl_counted := True, sl_classified := classified\<rparr>, afl)))"

definition fast_schedule :: "'a afl_queue_scheme \<Rightarrow> bool" where
  "fast_schedule afl \<longleftrightarrow> schedule_no (schedule afl) \<ge> schedule_no FAST \<and> schedule_no (schedule afl) \<le> schedule_no RARE"

text \<open>Saturated increment of the frequency of a path.\<close>

definition count_path :: "u64 \<Rightarrow> 'a afl_queue_scheme \<Rightarrow> 'a afl_queue_scheme" where
  "count_path cksum afl =
     (let i = unat cksum mod N_FUZZ_SIZE
      in if n_fuzz afl ! i < 0xFFFFFFFF then afl\<lparr>n_fuzz := (n_fuzz afl)[i := n_fuzz afl ! i + 1]\<rparr> else afl)"

section \<open>Sanitizers\<close>

definition bitmap_set :: "bytes \<Rightarrow> u32 \<Rightarrow> bytes" where
  "bitmap_set bm index =
     (let i = unat (index div 8) in bm[i := bm ! i OR push_bit (unat (index mod 8)) 1])"

definition bitmap_read :: "bytes \<Rightarrow> u32 \<Rightarrow> u8" where
  "bitmap_read bm index = drop_bit (unat (index mod 8)) (bm ! unat (index div 8)) AND 1"

text \<open>Whether the input goes to the sanitizer builds.\<close>

definition feed_by_simplified :: "save_world \<Rightarrow> save_loc \<times> 'a afl_save_scheme \<Rightarrow> bool \<times> save_loc \<times> 'a afl_save_scheme" where
  "feed_by_simplified w s =
     (case s of (l, afl) \<Rightarrow>
        let cksum_simplified = sv_hash32 w (simplify_trace (sv_w64 w) afl (trace_bits afl))
        in if bitmap_read (simplified_n_fuzz afl) cksum_simplified = 0
           then (True, l, afl\<lparr>simplified_n_fuzz := bitmap_set (simplified_n_fuzz afl) cksum_simplified\<rparr>)
           else (False, l, afl))"

definition feed_by_unique :: "save_world \<Rightarrow> save_loc \<times> 'a afl_save_scheme \<Rightarrow> bool \<times> save_loc \<times> 'a afl_save_scheme" where
  "feed_by_unique w s =
     (case classify_if_necessary w s of (l, afl) \<Rightarrow>
        let cksum_unique = sv_hash32 w (trace_bits afl)
        in if bitmap_read (n_fuzz_dup afl) (ucast (sl_cksum l)) = 0
           then (True, l, afl\<lparr>n_fuzz_dup := bitmap_set (n_fuzz_dup afl) cksum_unique\<rparr>)
           else (False, l, afl))"

definition feed_san :: "save_world \<Rightarrow> save_loc \<times> 'a afl_save_scheme \<Rightarrow> bool \<times> save_loc \<times> 'a afl_save_scheme" where
  "feed_san w s =
     (if san_binary_length (snd s) = 0 then (False, s)
      else case san_abs (snd s) of
        SIMPLIFY_TRACE \<Rightarrow> feed_by_simplified w s
      | COVERAGE_INCREASE \<Rightarrow>
          (case calculate_new_bits_if_necessary w s of (l, afl) \<Rightarrow> (sl_new_bits l \<noteq> 0, l, afl))
      | UNIQUE_TRACE \<Rightarrow> feed_by_unique w s)"

definition rewritten :: "save_world \<Rightarrow> bool \<Rightarrow> bytes \<Rightarrow> bytes" where
  "rewritten w fix_len mem =
     (let r = write_to_testcase (sv_write w) fix_len mem (of_nat (length mem))
      in bytes_at (sv_write w) (unat (wr_len r)) (wr_mem r))"

text \<open>The input may be changed by the post-processors on the way; the last component is \<open>san_fault\<close>.\<close>

fun san_runs :: "save_world \<Rightarrow> nat list \<Rightarrow> bytes \<Rightarrow> u32 \<Rightarrow> bytes \<times> u32 \<times> fsrv_run_result" where
  "san_runs w [] mem status = (mem, status, FSRV_RUN_OK)"
| "san_runs w (i # is) mem status =
     (let mem = rewritten w False mem;
          san_fault = sv_san w i mem;
          status = (if san_fault \<noteq> FSRV_RUN_OK then status OR SAN_CRASH_ONLY else status)
      in if san_fault = FSRV_RUN_CRASH then (mem, status, FSRV_RUN_CRASH) else san_runs w is mem status)"

definition ask_sanitizers :: "save_world \<Rightarrow> save_loc \<times> 'a afl_save_scheme \<Rightarrow> fsrv_run_result \<times> save_loc \<times> 'a afl_save_scheme" where
  "ask_sanitizers w s =
     (case feed_san w s of (feed, l, afl) \<Rightarrow>
        if feed
        then (case san_runs w [0..<unat (san_binary_length afl)] (sl_mem l) (san_case_status afl) of
                (mem, status, san_fault) \<Rightarrow> (san_fault, l\<lparr>sl_mem := mem\<rparr>, afl\<lparr>san_case_status := status\<rparr>))
        else (FSRV_RUN_OK, l, afl))"

section \<open>Joining the queue\<close>

definition queue_top :: "'a afl_queue_scheme \<Rightarrow> qid" where
  "queue_top afl = length (queue_buf afl) - 1"

text \<open>What is recorded of the new entry before it is calibrated.\<close>

definition record_new_entry :: "save_loc \<Rightarrow> 'a afl_save_scheme \<Rightarrow> 'a afl_save_scheme" where
  "record_new_entry l afl =
     (let top = queue_top afl; bits = sl_new_bits l;
          afl = set_entry top (\<lambda>e. e\<lparr>exec_cksum := sl_cksum l\<rparr>) afl;
          afl = (if bits = 2 then (set_entry top (\<lambda>e. e\<lparr>has_new_cov := True\<rparr>) afl)\<lparr>queued_with_cov := queued_with_cov afl + 1\<rparr>
                 else afl);
          afl = (if bits \<noteq> 0 then afl\<lparr>ss_new_bits_any := ss_new_bits_any afl + 1\<rparr> else afl);
          afl = (if sl_keeping l \<and> bits \<noteq> 0 then afl\<lparr>ss_new_bits_kept := ss_new_bits_kept afl + 1\<rparr> else afl);
          afl = (case queue_cur afl of
                   Some cur \<Rightarrow> if bits \<noteq> 0
                     then set_entry cur (\<lambda>e. e\<lparr>ss_cov_cnt := ss_cov_cnt e + (if bits = 2 then 2 else 1)\<rparr>) afl else afl
                 | None \<Rightarrow> afl)
      in if fast_schedule afl
         then let i = unat (sl_cksum l) mod N_FUZZ_SIZE
              in (set_entry top (\<lambda>e. e\<lparr>n_fuzz_entry := of_nat i\<rparr>) afl)\<lparr>n_fuzz := (n_fuzz afl)[i := 1]\<rparr>
         else afl)"

definition enqueue :: "save_world \<Rightarrow> c_string \<Rightarrow> save_loc \<Rightarrow> 'a afl_save_scheme \<Rightarrow> 'a afl_save_scheme" where
  "enqueue w fn l afl =
     (let mem = sl_mem l;
          afl = save_file w fn mem afl;
          afl = add_to_queue (sv_time w) (if sv_create w fn then Some mem else None) fn (of_nat (length mem)) False afl
      in if fuzz_mode afl \<noteq> 0 \<and> switch_fuzz_mode afl \<and> \<not> non_instrumented_mode afl then afl\<lparr>fuzz_mode := 0\<rparr> else afl)"

text \<open>From the label \<open>save_to_queue\<close> on, in the \<open>k\<close>-th pass.\<close>

definition save_to_queue :: "save_world \<Rightarrow> nat \<Rightarrow> save_loc \<times> 'a afl_save_scheme \<Rightarrow> save_error + save_loc \<times> 'a afl_save_scheme" where
  "save_to_queue w k s =
     (case calculate_new_bits_if_necessary w (calculate_cksum_if_necessary w s) of (l, afl) \<Rightarrow>
        case case_name w ''/queue/'' (unat (queued_items afl)) [] 10 (sl_new_bits l + (if sl_timeout l then 0x80 else 0)) (sl_mem l) afl of
          Inl e \<Rightarrow> Inl e
        | Inr fn \<Rightarrow>
            let afl = record_new_entry l (enqueue w fn l afl)
            in (case calibrate_case (sv_cal w k) (queue_top afl) (ucast (queue_cycle afl - 1)) False afl of
                  ((res, _, _), afl) \<Rightarrow>
                    if res = FSRV_RUN_ERROR then Inl Target_failed
                    else if max_cache_size afl \<noteq> 0
                    then (case queue_testcase_store_mem (queue_top afl) (sl_mem l) afl of
                            Inl e \<Rightarrow> Inl (Cache_failed e)
                          | Inr afl \<Rightarrow> Inr (l\<lparr>sl_keeping := True\<rparr>, afl))
                    else Inr (l\<lparr>sl_keeping := True\<rparr>, afl)))"

section \<open>Crashes and hangs\<close>

datatype 's save_next = Finished "save_error + bool \<times> 's" | Requeue "save_loc \<times> 's"

definition write_crash_readme :: "save_world \<Rightarrow> 'a afl_save_scheme \<Rightarrow> 'a afl_save_scheme" where
  "write_crash_readme w afl = afl\<lparr>crash_readme := True\<rparr>"

definition new_in_simplified :: "save_world \<Rightarrow> virgin_map \<Rightarrow> 'a afl_save_scheme \<Rightarrow> bool \<times> 'a afl_save_scheme" where
  "new_in_simplified w vm afl =
     (if non_instrumented_mode afl then (True, afl)
      else case has_new_bits (sv_w64 w) (afl\<lparr>trace_bits := simplify_trace (sv_w64 w) afl (trace_bits afl)\<rparr>) vm of
             (bits, afl) \<Rightarrow> (bits \<noteq> 0, afl))"

definition keep_as_crash :: "save_world \<Rightarrow> save_loc \<times> 'a afl_save_scheme \<Rightarrow> 'a afl_save_scheme save_next" where
  "keep_as_crash w s =
     (case s of (l, afl) \<Rightarrow>
        let afl = afl\<lparr>total_crashes := total_crashes afl + 1\<rparr>
        in if saved_crashes afl \<ge> KEEP_UNIQUE_CRASH then Finished (Inr (sl_keeping l, afl))
           else (case new_in_simplified w VIRGIN_CRASH afl of (new, afl) \<Rightarrow>
                   if \<not> new then Finished (Inr (sl_keeping l, afl))
                   else
                     let afl = (if saved_crashes afl = 0 \<and> \<not> afl_no_crash_readme afl then write_crash_readme w afl else afl)
                     in (case case_name w ''/crashes/'' (unat (saved_crashes afl)) (''sig:'' @ pad_dec 2 (unat (last_kill_signal afl)) @ '','')
                                17 0 (sl_mem l) afl of
                           Inl e \<Rightarrow> Finished (Inl e)
                         | Inr fn \<Rightarrow> Finished (Inr (sl_keeping l, save_file w fn (sl_mem l) (afl\<lparr>saved_crashes := saved_crashes afl + 1\<rparr>))))))"

definition keep_as_hang :: "save_world \<Rightarrow> save_loc \<times> 'a afl_save_scheme \<Rightarrow> 'a afl_save_scheme save_next" where
  "keep_as_hang w s =
     (case s of (l, afl) \<Rightarrow>
        case case_name w ''/hangs/'' (unat (saved_hangs afl)) [] 10 0 (sl_mem l) afl of
          Inl e \<Rightarrow> Finished (Inl e)
        | Inr fn \<Rightarrow> Finished (Inr (sl_keeping l, save_file w fn (sl_mem l) (afl\<lparr>saved_hangs := saved_hangs afl + 1\<rparr>))))"

text \<open>The run with the generous time limit; it leaves a new trace.\<close>

definition rerun_hang :: "save_world \<Rightarrow> nat \<Rightarrow> save_loc \<times> 'a afl_save_scheme \<Rightarrow> 'a afl_save_scheme save_next" where
  "rerun_hang w k s =
     (case s of (l, afl) \<Rightarrow>
        case sv_hang w k of (new_fault, trace, stopped) \<Rightarrow>
          let mem = rewritten w False (sl_mem l);
              mem = (if mem \<noteq> [] then mem else rewritten w True (sl_mem l));
              l = l\<lparr>sl_mem := mem, sl_classified := False, sl_counted := False, sl_cksumed := False\<rparr>;
              afl = afl\<lparr>trace_bits := trace\<rparr>
          in if \<not> stopped \<and> new_fault = FSRV_RUN_CRASH then keep_as_crash w (l, afl)
             else if stopped \<or> new_fault \<noteq> FSRV_RUN_TMOUT
             then (if afl_keep_timeouts afl then Requeue (l, afl\<lparr>saved_tmouts := saved_tmouts afl + 1\<rparr>)
                   else Finished (Inr (sl_keeping l, afl)))
             else keep_as_hang w (l, afl))"

definition may_save_timeout :: "save_world \<Rightarrow> nat \<Rightarrow> save_loc \<times> 'a afl_save_scheme \<Rightarrow> 'a afl_save_scheme save_next" where
  "may_save_timeout w k s =
     (case s of (l, afl) \<Rightarrow>
        let afl = afl\<lparr>total_tmouts := total_tmouts afl + 1\<rparr>
        in if saved_hangs afl \<ge> KEEP_UNIQUE_HANG then Finished (Inr (sl_keeping l, afl))
           else (case new_in_simplified w VIRGIN_TMOUT afl of (new, afl) \<Rightarrow>
                   if \<not> new then Finished (Inr (sl_keeping l, afl))
                   else
                     let l = l\<lparr>sl_timeout := True\<rparr>
                     in if exec_tmout afl < hang_tmout afl then rerun_hang w k (l, afl) else keep_as_hang w (l, afl)))"

definition may_save_fault :: "save_world \<Rightarrow> nat \<Rightarrow> save_loc \<times> 'a afl_save_scheme \<Rightarrow> 'a afl_save_scheme save_next" where
  "may_save_fault w k s =
     (case sl_fault (fst s) of
        FSRV_RUN_TMOUT \<Rightarrow> may_save_timeout w k s
      | FSRV_RUN_CRASH \<Rightarrow> keep_as_crash w s
      | FSRV_RUN_ERROR \<Rightarrow> Finished (Inl Target_failed)
      | _ \<Rightarrow> Finished (Inr (sl_keeping (fst s), snd s)))"

text \<open>The jumps between the two labels; without \<open>AFL_KEEP_TIMEOUTS\<close> there are none.\<close>

partial_function (option) save_passes :: "save_world \<Rightarrow> nat \<Rightarrow> save_loc \<times> 'a afl_save_scheme
    \<Rightarrow> (save_error + bool \<times> 'a afl_save_scheme) option" where
  "save_passes w k s =
     (case may_save_fault w k s of
        Finished r \<Rightarrow> Some r
      | Requeue s \<Rightarrow> (case save_to_queue w (k + 1) s of Inl e \<Rightarrow> Some (Inl e) | Inr s \<Rightarrow> save_passes w (k + 1) s))"

section \<open>The handler\<close>

definition save_start :: "save_world \<Rightarrow> bytes \<Rightarrow> fsrv_run_result \<Rightarrow> 'a afl_save_scheme \<Rightarrow> save_loc \<times> 'a afl_save_scheme" where
  "save_start w mem fault afl =
     (let l = \<lparr>sl_classified = False, sl_counted = False, sl_cksumed = False, sl_new_bits = 0, sl_cksum = 0,
               sl_timeout = False, sl_keeping = False, sl_mem = mem, sl_fault = fault\<rparr>;
          s = (l, afl\<lparr>san_case_status := 0\<rparr>)
      in if fast_schedule afl
         then (case calculate_cksum_if_necessary w s of (l, afl) \<Rightarrow> (l, count_path (sl_cksum l) afl))
         else s)"

definition save_normal :: "save_world \<Rightarrow> save_loc \<times> 'a afl_save_scheme \<Rightarrow> (save_error + bool \<times> 'a afl_save_scheme) option" where
  "save_normal w s =
     (case ask_sanitizers w s of (san_fault, s) \<Rightarrow>
        case calculate_new_bits_if_necessary w s of (l, afl) \<Rightarrow>
          if sl_new_bits l = 0 then
            (if san_fault = FSRV_RUN_OK
             then Some (Inr (False, if crash_mode afl \<noteq> FSRV_RUN_OK then afl\<lparr>total_crashes := total_crashes afl + 1\<rparr> else afl))
             else save_passes w 0 (l\<lparr>sl_fault := san_fault\<rparr>,
                    afl\<lparr>san_case_status := san_case_status afl OR NON_COV_INCREASE_BUG\<rparr>))
          else (case save_to_queue w 0 (l\<lparr>sl_fault := san_fault\<rparr>, afl) of
                  Inl e \<Rightarrow> Some (Inl e)
                | Inr s \<Rightarrow> save_passes w 0 s))"

definition save_if_interesting :: "save_world \<Rightarrow> bytes \<Rightarrow> fsrv_run_result \<Rightarrow> 'a afl_save_scheme
    \<Rightarrow> (save_error + bool \<times> 'a afl_save_scheme) option" where
  "save_if_interesting w mem fault afl =
     (if mem = [] then Some (Inr (False, afl))
      else if fault = FSRV_RUN_TMOUT \<and> afl_ignore_timeouts afl
      then Some (Inr (False, if fast_schedule afl
             then let afl = classify_counts (sv_w64 w) afl in count_path (sv_hash64 w (trace_bits afl)) afl else afl))
      else case save_start w mem fault afl of
             s \<Rightarrow> if fault = crash_mode afl then save_normal w s else save_passes w 0 s)"


end
