(* ===== verification/Save_Laws.thy ===== *)
theory Save_Laws
  imports Save_Case
begin

text \<open>
  What saving an input does to the queue, to the limits of kept crashes and hangs and to the counters, and
  when it comes to an end.
\<close>

section \<open>What stays\<close>

text \<open>The configuration, the counters of kept files, and the queue.\<close>

definition same_cfg :: "'a afl_save_scheme \<Rightarrow> 'a afl_save_scheme \<Rightarrow> bool" where
  "same_cfg s t \<longleftrightarrow> non_instrumented_mode t = non_instrumented_mode s \<and> exec_tmout t = exec_tmout s \<and> crash_mode t = crash_mode s
     \<and> hang_tmout t = hang_tmout s \<and> afl_keep_timeouts t = afl_keep_timeouts s
     \<and> max_cache_size t = max_cache_size s \<and> afl_sha1_filenames t = afl_sha1_filenames s"

definition same_kept :: "'a afl_save_scheme \<Rightarrow> 'a afl_save_scheme \<Rightarrow> bool" where
  "same_kept s t \<longleftrightarrow> saved_crashes t = saved_crashes s \<and> saved_hangs t = saved_hangs s \<and> saved_files t = saved_files s"

definition same_queue :: "'a afl_save_scheme \<Rightarrow> 'a afl_save_scheme \<Rightarrow> bool" where
  "same_queue s t \<longleftrightarrow> queue_buf t = queue_buf s \<and> queued_with_cov t = queued_with_cov s \<and> ss_new_bits_kept t = ss_new_bits_kept s"

definition quiet :: "'a afl_save_scheme \<Rightarrow> 'a afl_save_scheme \<Rightarrow> bool" where
  "quiet s t \<longleftrightarrow> same_cfg s t \<and> same_kept s t \<and> same_queue s t"

lemmas quiet_defs = quiet_def same_cfg_def same_kept_def same_queue_def

lemma quiet_refl: "quiet s s"
  by (simp add: quiet_defs)

lemma quiet_trans: "quiet s t \<Longrightarrow> quiet t u \<Longrightarrow> quiet s u"
  by (simp add: quiet_defs)

lemma has_new_bits_quiet: "has_new_bits w s vm = (bits, t) \<Longrightarrow> quiet s t"
  by (cases vm) (auto simp: has_new_bits_def Let_def quiet_defs split: prod.splits if_splits)

lemma classify_counts_quiet: "quiet s (classify_counts w s)"
  by (simp add: classify_counts_def quiet_defs)

lemma has_new_bits_unclassified_quiet: "has_new_bits_unclassified w s vm c = (bits, c', t) \<Longrightarrow> quiet s t"
  using has_new_bits_quiet [of w "classify_counts w s" vm] quiet_trans [OF classify_counts_quiet [of s w]]
  by (auto simp: has_new_bits_unclassified_def quiet_refl Let_def split: prod.splits if_splits)

text \<open>The steps that look at the trace change nothing else, and of the local variables only their own.\<close>

definition same_loc :: "save_loc \<Rightarrow> save_loc \<Rightarrow> bool" where
  "same_loc l m \<longleftrightarrow> sl_keeping m = sl_keeping l \<and> sl_fault m = sl_fault l \<and> sl_mem m = sl_mem l \<and> sl_timeout m = sl_timeout l"

lemma classify_if_quiet: "classify_if_necessary w (l, s) = (m, t) \<Longrightarrow> quiet s t \<and> same_loc l m"
  using classify_counts_quiet by (auto simp: classify_if_necessary_def quiet_refl same_loc_def split: if_splits)

lemma cksum_quiet: "calculate_cksum_if_necessary w (l, s) = (m, t) \<Longrightarrow> quiet s t \<and> same_loc l m"
  using classify_if_quiet [of w l s]
  by (auto simp: calculate_cksum_if_necessary_def quiet_refl same_loc_def split: if_splits prod.splits)

lemma new_bits_quiet: "calculate_new_bits_if_necessary w (l, s) = (m, t) \<Longrightarrow> quiet s t \<and> same_loc l m"
  using has_new_bits_quiet [of "sv_w64 w" s VIRGIN_BITS] has_new_bits_unclassified_quiet [of "sv_w64 w" s VIRGIN_BITS]
  by (auto simp: calculate_new_bits_if_necessary_def quiet_refl same_loc_def split: if_splits prod.splits)

lemma feed_san_quiet: "feed_san w (l, s) = (feed, m, t) \<Longrightarrow> quiet s t \<and> same_loc l m"
  using classify_if_quiet [of w l s] new_bits_quiet [of w l s] quiet_trans [of s]
  by (auto simp: feed_san_def feed_by_simplified_def feed_by_unique_def Let_def quiet_refl same_loc_def
      split: if_splits prod.splits san_abstraction.splits) (auto simp: quiet_defs)

lemma ask_sanitizers_quiet:
  assumes "ask_sanitizers w (l, s) = (r, m, t)"
  shows "quiet s t" "sl_keeping m = sl_keeping l" "sl_timeout m = sl_timeout l"
proof -
  obtain feed l' u where f: "feed_san w (l, s) = (feed, l', u)" by (metis prod_cases3)
  note q = feed_san_quiet [OF f]
  have "quiet u (u\<lparr>san_case_status := x\<rparr>)" for x by (simp add: quiet_defs)
  then show "quiet s t" "sl_keeping m = sl_keeping l" "sl_timeout m = sl_timeout l"
    using assms q f quiet_trans [of s u] by (auto simp: ask_sanitizers_def same_loc_def split: if_splits prod.splits)
qed

lemma new_in_simplified_quiet: "new_in_simplified w vm s = (new, t) \<Longrightarrow> quiet s t"
  using has_new_bits_quiet [of "sv_w64 w" "s\<lparr>trace_bits := simplify_trace (sv_w64 w) s (trace_bits s)\<rparr>" vm]
  by (auto simp: new_in_simplified_def quiet_refl split: if_splits prod.splits) (auto simp: quiet_defs)

lemma count_path_quiet: "quiet s (count_path c s)"
  by (simp add: count_path_def Let_def quiet_defs)

lemma save_start_quiet:
  assumes "save_start w mem fault s = (l, t)"
  shows "quiet s t" "\<not> sl_keeping l" "sl_fault l = fault" "\<not> sl_timeout l" "sl_mem l = mem"
proof -
  let ?l = "\<lparr>sl_classified = False, sl_counted = False, sl_cksumed = False, sl_new_bits = 0, sl_cksum = 0,
               sl_timeout = False, sl_keeping = False, sl_mem = mem, sl_fault = fault\<rparr>"
  obtain m u where c: "calculate_cksum_if_necessary w (?l, s\<lparr>san_case_status := 0\<rparr>) = (m, u)" by force
  have "quiet s (s\<lparr>san_case_status := 0\<rparr>)" by (simp add: quiet_defs)
  then show "quiet s t" "\<not> sl_keeping l" "sl_fault l = fault" "\<not> sl_timeout l" "sl_mem l = mem"
    using assms c cksum_quiet [OF c] quiet_trans [of s _ u] quiet_trans [OF _ count_path_quiet [of u]]
    by (auto simp: save_start_def Let_def same_loc_def split: if_splits)
qed
section \<open>Names and lengths\<close>

text \<open>Calibration leaves the names and the lengths of the entries alone.\<close>

definition same_names :: "'a afl_queue_scheme \<Rightarrow> 'a afl_queue_scheme \<Rightarrow> bool" where
  "same_names s t \<longleftrightarrow> (\<forall>p. fname (entry t p) = fname (entry s p) \<and> q_len (entry t p) = q_len (entry s p))"

lemma same_names_trans: "same_names s t \<Longrightarrow> same_names t u \<Longrightarrow> same_names s u"
  by (simp add: same_names_def)

lemma same_names_set_entry:
  "(\<And>e. fname (f e) = fname e \<and> q_len (f e) = q_len e) \<Longrightarrow> same_names s (set_entry q f s)"
  by (simp add: same_names_def)

lemma cal_quiet_names: "cal_quiet q s t \<Longrightarrow> same_names s t"
proof -
  assume "cal_quiet q s t"
  then obtain c where c: "queue_buf t = (queue_buf s)[q := (entry s q)\<lparr>exec_cksum := c\<rparr>]" by (auto simp: cal_quiet_def)
  show ?thesis unfolding same_names_def
  proof (rule allI)
    fix p
    show "fname (entry t p) = fname (entry s p) \<and> q_len (entry t p) = q_len (entry s p)"
      by (cases "q < length (queue_buf s)"; cases "p = q") (simp_all add: entry_def c list_update_beyond)
  qed
qed

lemma calibrate_names:
  fixes s :: "'a afl_cal_scheme"
  assumes "covs_counted s" "calibrate_case w q hc fq s = (r, s')"
  shows "same_names s s'"
proof -
  obtain l t u l' ab n flt where p: "cal_begin w q s = (l, t)"
    "cal_loop w (cal_tmout fq s) q 0 FSRV_RUN_OK (l, t) = (ab, n, flt, l', u)"
    "calibrate_case w q hc fq s = (if ab then ((flt, True, n), cal_finish q l' u)
       else ((fst (cal_success w q hc (exec_cksum (entry s q) = 0) flt l' u), False, n),
             cal_finish q l' (snd (cal_success w q hc (exec_cksum (entry s q) = 0) flt l' u))))"
    by (rule calibrate_parts)
  define a where "a = set_entry q (\<lambda>e. e\<lparr>cal_failed := cal_failed e + 1\<rparr>) (if cmplog_mode s then set_entry q (\<lambda>e. e\<lparr>exec_cksum := 0\<rparr>) s else s)"
  have sa: "same_names s a" by (simp add: a_def same_names_def)
  have "\<exists>x. t = a \<or> look_for_new w (x, a\<lparr>first_trace := trace_bits a\<rparr>) = (l, t)"
    using p(1) unfolding cal_begin_def Let_def a_def by (auto split: if_splits)
  then have "same_names a t"
    using look_for_new_quiet [of w _ "a\<lparr>first_trace := trace_bits a\<rparr>" l t, THEN cal_quiet_names]
    by (auto simp: same_names_def entry_def)
  moreover have "same_names t u"
    using cal_loop_quiet [OF p(2) cal_begin_quiet(3) [OF p(1) assms(1)]] cal_quiet_names by blast
  ultimately have su: "same_names s u" using same_names_trans sa by blast
  have fin: "same_names x (cal_finish q l' x)" for x :: "'a afl_cal_scheme"
    by (simp add: same_names_def cal_finish_def Let_def)
  have rated: "same_names x (update_bitmap_score q h x)" for h and x :: "'a afl_cal_scheme"
    unfolding same_names_def
  proof (rule allI)
    fix p
    have "only_rated (entry x p) (entry (update_bitmap_score q h x) p)" by (rule rated_entry)
    then show "fname (entry (update_bitmap_score q h x) p) = fname (entry x p) \<and> q_len (entry (update_bitmap_score q h x) p) = q_len (entry x p)"
      by (auto simp: only_rated_def)
  qed
  obtain f v where v: "cal_success w q hc (exec_cksum (entry s q) = 0) flt l' u = (f, v)" by force
  obtain us a1 b1 c1 d1 where ve: "v = update_bitmap_score q True
    ((set_entry q (\<lambda>e. e\<lparr>exec_us := us, bitmap_size := count_bytes u (trace_bits u), handicap := ucast hc, cal_failed := 0\<rparr>) u)
       \<lparr>total_cal_us := a1, total_cal_cycles := b1, total_bitmap_size := c1, total_bitmap_entries := d1\<rparr>)"
    using cal_success_state [OF v] by blast
  have "same_names u (set_entry q (\<lambda>e. e\<lparr>exec_us := us, bitmap_size := count_bytes u (trace_bits u), handicap := ucast hc, cal_failed := 0\<rparr>) u)"
    by (rule same_names_set_entry) simp
  then have "same_names u ((set_entry q (\<lambda>e. e\<lparr>exec_us := us, bitmap_size := count_bytes u (trace_bits u), handicap := ucast hc, cal_failed := 0\<rparr>) u)
       \<lparr>total_cal_us := a1, total_cal_cycles := b1, total_bitmap_size := c1, total_bitmap_entries := d1\<rparr>)"
    by (simp add: same_names_def entry_def)
  then have "same_names u v" unfolding ve using rated same_names_trans by blast
  then have "same_names s (cal_finish q l' u)" "same_names s (cal_finish q l' v)"
    using su fin same_names_trans by blast+
  then show ?thesis using assms(2) p(3) v by (auto split: if_splits)
qed

section \<open>Joining the queue\<close>

text \<open>\<open>joined s t\<close>: one entry more, the books in order, the configuration and the kept files unchanged.\<close>

definition joined :: "'a afl_save_scheme \<Rightarrow> 'a afl_save_scheme \<Rightarrow> bool" where
  "joined s t \<longleftrightarrow> same_cfg s t \<and> saved_crashes t = saved_crashes s \<and> saved_hangs t = saved_hangs s
     \<and> length (queue_buf t) = Suc (length (queue_buf s)) \<and> covs_counted t"

lemma cal_rest_save:
  fixes s t :: "'a afl_save_scheme"
  assumes "cal_rest s t"
  shows "same_cfg s t" "saved_crashes t = saved_crashes s" "saved_hangs t = saved_hangs s" "ss_new_bits_kept t = ss_new_bits_kept s"
    "saved_files t = saved_files s"
  using assms by (cases s; cases t; simp add: cal_rest_def same_cfg_def)+

lemma covs_same: "queue_buf t = queue_buf s \<Longrightarrow> queued_with_cov t = queued_with_cov s \<Longrightarrow> covs_counted s \<Longrightarrow> covs_counted t"
  by (simp add: covs_counted_def)

lemma enqueue_frame:
  fixes afl :: "'a afl_save_scheme"
  assumes t_def: "t = enqueue w fn l afl"
  shows "\<exists>e. queue_buf t = queue_buf afl @ [e] \<and> \<not> has_new_cov e \<and> fname e = fn \<and> q_len e = of_nat (length (sl_mem l))"
    "queued_with_cov t = queued_with_cov afl" "same_cfg afl t" "saved_crashes t = saved_crashes afl" "saved_hangs t = saved_hangs afl"
    "ss_new_bits_kept t = ss_new_bits_kept afl" "saved_files t = saved_files afl @ (if sv_create w fn then [(fn, sl_mem l)] else [])"
  by (simp_all add: t_def enqueue_def save_file_def add_to_queue_def new_entry_def Let_def same_cfg_def)

lemma set_entry_save [simp]:
  fixes s :: "'a afl_save_scheme"
  shows "saved_crashes (set_entry q f s) = saved_crashes s" "saved_hangs (set_entry q f s) = saved_hangs s"
    "saved_files (set_entry q f s) = saved_files s" "ss_new_bits_kept (set_entry q f s) = ss_new_bits_kept s"
    "hang_tmout (set_entry q f s) = hang_tmout s" "afl_keep_timeouts (set_entry q f s) = afl_keep_timeouts s"
    "exec_tmout (set_entry q f s) = exec_tmout s" "queue_cur (set_entry q f s) = queue_cur s"
    "max_cache_size (set_entry q f s) = max_cache_size s" "afl_sha1_filenames (set_entry q f s) = afl_sha1_filenames s"
  by (simp_all add: set_entry_def)

lemma entry_save [simp]:
  fixes s :: "'a afl_save_scheme"
  shows "entry (s\<lparr>ss_new_bits_any := x\<rparr>) p = entry s p" "entry (s\<lparr>ss_new_bits_kept := x\<rparr>) p = entry s p"
    "entry (s\<lparr>n_fuzz := y\<rparr>) p = entry s p"
  by (simp_all add: entry_def)

lemma covs_fields [simp]:
  fixes s :: "'a afl_save_scheme"
  shows "covs_counted (s\<lparr>ss_new_bits_any := x\<rparr>) = covs_counted s" "covs_counted (s\<lparr>ss_new_bits_kept := x\<rparr>) = covs_counted s"
    "covs_counted (s\<lparr>n_fuzz := y\<rparr>) = covs_counted s"
  by (simp_all add: covs_counted_def)

lemma record_new_entry_frame:
  fixes s :: "'a afl_save_scheme"
  assumes t_def: "t = record_new_entry l s"
  shows "length (queue_buf t) = length (queue_buf s)" "same_cfg s t" "saved_crashes t = saved_crashes s" "saved_hangs t = saved_hangs s"
    "saved_files t = saved_files s" "\<not> sl_keeping l \<Longrightarrow> ss_new_bits_kept t = ss_new_bits_kept s"
    "fname (entry t p) = fname (entry s p)" "q_len (entry t p) = q_len (entry s p)"
  by (auto simp: t_def record_new_entry_def Let_def same_cfg_def split: option.split)

lemma record_new_entry_covs:
  fixes s :: "'a afl_save_scheme"
  assumes "covs_counted s" "queue_top s < length (queue_buf s)" "\<not> has_new_cov (entry s (queue_top s))"
  shows "covs_counted (record_new_entry l s)"
proof -
  define a where "a = set_entry (queue_top s) (\<lambda>e. e\<lparr>exec_cksum := sl_cksum l\<rparr>) s"
  have a: "covs_counted a" "queue_top s < length (queue_buf a)" "\<not> has_new_cov (entry a (queue_top s))"
    using assms covs_set_entry [of s] by (simp_all add: a_def)
  define b where "b = (if sl_new_bits l = 2 then (set_entry (queue_top s) (\<lambda>e. e\<lparr>has_new_cov := True\<rparr>) a)
      \<lparr>queued_with_cov := queued_with_cov a + 1\<rparr> else a)"
  have b: "covs_counted b"
    using a filter_update_new [of "queue_top s" "queue_buf a" has_new_cov "(entry a (queue_top s))\<lparr>has_new_cov := True\<rparr>"]
    by (simp add: b_def covs_counted_def set_entry_def entry_def)
  have c: "covs_counted (set_entry p (\<lambda>e. e\<lparr>ss_cov_cnt := g e\<rparr>) x)" "covs_counted (set_entry p (\<lambda>e. e\<lparr>n_fuzz_entry := m\<rparr>) x)"
    if "covs_counted x" for p g m and x :: "'a afl_save_scheme"
    using that by (simp_all add: covs_set_entry)
  show ?thesis
    unfolding record_new_entry_def Let_def a_def [symmetric] b_def [symmetric] using b
    by (auto split: option.split intro!: c)
qed

lemma store_mem_frame:
  fixes s :: "'a afl_save_scheme"
  assumes "queue_testcase_store_mem q mem s = Inr t"
  shows "length (queue_buf t) = length (queue_buf s)" "same_cfg s t" "saved_crashes t = saved_crashes s" "saved_hangs t = saved_hangs s"
    "saved_files t = saved_files s" "ss_new_bits_kept t = ss_new_bits_kept s" "covs_counted s \<Longrightarrow> covs_counted t" "same_names s t"
proof -
  have "t = s \<or> (\<exists>tid m. t = register_testcase tid q m s)"
    using assms by (auto simp: queue_testcase_store_mem_def Let_def split: if_splits option.splits)
  then show "length (queue_buf t) = length (queue_buf s)" "same_cfg s t" "saved_crashes t = saved_crashes s" "saved_hangs t = saved_hangs s"
    "saved_files t = saved_files s" "ss_new_bits_kept t = ss_new_bits_kept s"
    by (auto simp: register_testcase_def Let_def same_cfg_def)
  have "same_names s (register_testcase tid q m s)" for tid m
    by (simp add: register_testcase_def Let_def same_names_def
        entry_def [of "_\<lparr>testcase_cache := _, cache_size := _, cache_count := _, max_cache_count := _, smallest_free := _\<rparr>"] entry_def [symmetric])
  then show "same_names s t" using \<open>t = s \<or> _\<close> by (auto simp: same_names_def)
  assume "covs_counted s"
  then have "covs_counted (set_entry q (\<lambda>e. e\<lparr>testcase_buf := Some m\<rparr>) s)" for m by (simp add: covs_set_entry)
  then show "covs_counted t"
    using \<open>t = s \<or> _\<close> \<open>covs_counted s\<close> by (auto simp: register_testcase_def Let_def covs_counted_def)
qed

text \<open>The new entry before and after it is calibrated.\<close>

lemma queued_entry:
  fixes b :: "'a afl_save_scheme"
  assumes "covs_counted b" "e = enqueue w fn l b" "r = record_new_entry l e"
  shows "\<exists>x. queue_buf e = queue_buf b @ [x] \<and> fname x = fn \<and> q_len x = of_nat (length (sl_mem l))"
    "covs_counted r" "length (queue_buf r) = Suc (length (queue_buf b))" "queue_top r = length (queue_buf b)"
proof -
  note ef = enqueue_frame [OF assms(2)]
  obtain x where x: "queue_buf e = queue_buf b @ [x]" "\<not> has_new_cov x" "fname x = fn" "q_len x = of_nat (length (sl_mem l))"
    using ef(1) by blast
  then show "\<exists>x. queue_buf e = queue_buf b @ [x] \<and> fname x = fn \<and> q_len x = of_nat (length (sl_mem l))" by blast
  have ec: "covs_counted e" using assms(1) x ef(2) by (simp add: covs_counted_def)
  have top: "queue_top e < length (queue_buf e)" "entry e (queue_top e) = x" using x by (simp_all add: queue_top_def entry_def)
  show "covs_counted r" unfolding assms(3) by (rule record_new_entry_covs [OF ec top(1)]) (use top x in simp)
  show "length (queue_buf r) = Suc (length (queue_buf b))" "queue_top r = length (queue_buf b)"
    using record_new_entry_frame(1) [OF assms(3)] x by (simp_all add: queue_top_def)
qed

text \<open>The steps of \<open>save_to_queue\<close>.\<close>

lemma save_to_queue_parts:
  fixes s :: "'a afl_save_scheme"
  obtains l2 b where "quiet s b" "same_loc l l2"
    "save_to_queue w k (l, s) =
      (case case_name w ''/queue/'' (unat (queued_items b)) [] 10 (sl_new_bits l2 + (if sl_timeout l2 then 0x80 else 0)) (sl_mem l2) b of
         Inl e \<Rightarrow> Inl e
       | Inr fn \<Rightarrow>
           (case calibrate_case (sv_cal w k) (queue_top (record_new_entry l2 (enqueue w fn l2 b)))
                   (ucast (queue_cycle (record_new_entry l2 (enqueue w fn l2 b)) - 1)) False (record_new_entry l2 (enqueue w fn l2 b)) of
              ((res, _, _), u) \<Rightarrow>
                if res = FSRV_RUN_ERROR then Inl Target_failed
                else if max_cache_size u \<noteq> 0
                then (case queue_testcase_store_mem (queue_top u) (sl_mem l2) u of
                        Inl e \<Rightarrow> Inl (Cache_failed e) | Inr afl \<Rightarrow> Inr (l2\<lparr>sl_keeping := True\<rparr>, afl))
                else Inr (l2\<lparr>sl_keeping := True\<rparr>, u)))"
proof -
  obtain l1 a where c: "calculate_cksum_if_necessary w (l, s) = (l1, a)" by force
  obtain l2 b where n: "calculate_new_bits_if_necessary w (l1, a) = (l2, b)" by force
  show thesis
  proof (rule that)
    show "quiet s b" "same_loc l l2"
      using cksum_quiet [OF c] new_bits_quiet [OF n] quiet_trans [of s a b] by (auto simp: same_loc_def)
  qed (simp only: save_to_queue_def c n prod.case Let_def)
qed

lemma save_to_queue_joins:
  assumes "covs_counted s" "save_to_queue w k (l, s) = Inr (m, t)"
  shows "joined s t" "sl_keeping m" "sl_fault m = sl_fault l" "\<not> sl_keeping l \<Longrightarrow> ss_new_bits_kept t = ss_new_bits_kept s"
    "q_len (entry t (length (queue_buf s))) = of_nat (length (sl_mem l))"
    "saved_files t = saved_files s @ (let fn = fname (entry t (length (queue_buf s))) in if sv_create w fn then [(fn, sl_mem l)] else [])"
proof -
  obtain l2 b where p: "quiet s b" "same_loc l l2"
    "save_to_queue w k (l, s) =
      (case case_name w ''/queue/'' (unat (queued_items b)) [] 10 (sl_new_bits l2 + (if sl_timeout l2 then 0x80 else 0)) (sl_mem l2) b of
         Inl e \<Rightarrow> Inl e
       | Inr fn \<Rightarrow>
           (case calibrate_case (sv_cal w k) (queue_top (record_new_entry l2 (enqueue w fn l2 b)))
                   (ucast (queue_cycle (record_new_entry l2 (enqueue w fn l2 b)) - 1)) False (record_new_entry l2 (enqueue w fn l2 b)) of
              ((res, _, _), u) \<Rightarrow>
                if res = FSRV_RUN_ERROR then Inl Target_failed
                else if max_cache_size u \<noteq> 0
                then (case queue_testcase_store_mem (queue_top u) (sl_mem l2) u of
                        Inl e \<Rightarrow> Inl (Cache_failed e) | Inr afl \<Rightarrow> Inr (l2\<lparr>sl_keeping := True\<rparr>, afl))
                else Inr (l2\<lparr>sl_keeping := True\<rparr>, u)))"
    by (rule save_to_queue_parts)
  obtain fn where fn: "case_name w ''/queue/'' (unat (queued_items b)) [] 10 (sl_new_bits l2 + (if sl_timeout l2 then 0x80 else 0)) (sl_mem l2) b = Inr fn"
    using assms(2) p(3) by (auto split: sum.splits)
  define e where "e = enqueue w fn l2 b"
  define r where "r = record_new_entry l2 e"
  have cb: "covs_counted b" using assms(1) p(1) by (simp add: quiet_defs covs_counted_def)
  note ef = enqueue_frame [OF e_def] and rf = record_new_entry_frame [OF r_def] and qe = queued_entry [OF cb e_def r_def]
  obtain res i1 i2 u where cal: "calibrate_case (sv_cal w k) (queue_top r) (ucast (queue_cycle r - 1)) False r = ((res, i1, i2), u)"
    by (metis prod.collapse)
  have uf: "cal_rest r u" "length (queue_buf u) = length (queue_buf r)" "same_names r u"
    using calibrate_rest [OF qe(2) cal] calibrate_names [OF qe(2) cal] by simp_all
  have uc: "covs_counted u" by (rule calibrate_counts [OF qe(2) _ cal]) (simp add: qe(3,4))
  note us = cal_rest_save [OF uf(1)]
  have fin: "(if res = FSRV_RUN_ERROR then Inl Target_failed
      else if max_cache_size u \<noteq> 0
      then (case queue_testcase_store_mem (queue_top u) (sl_mem l2) u of
              Inl e \<Rightarrow> Inl (Cache_failed e) | Inr afl \<Rightarrow> Inr (l2\<lparr>sl_keeping := True\<rparr>, afl))
      else Inr (l2\<lparr>sl_keeping := True\<rparr>, u)) = Inr (m, t)"
    using assms(2) unfolding p(3) fn sum.case e_def [symmetric] r_def [symmetric] by (simp add: cal)
  have t: "length (queue_buf t) = length (queue_buf u)" "same_cfg u t" "saved_crashes t = saved_crashes u" "saved_hangs t = saved_hangs u"
    "ss_new_bits_kept t = ss_new_bits_kept u" "covs_counted t" "saved_files t = saved_files u" "same_names u t" "m = l2\<lparr>sl_keeping := True\<rparr>"
    using fin uc store_mem_frame [of "queue_top u" "sl_mem l2" u]
    by (auto split: if_splits sum.splits simp: same_cfg_def same_names_def)
  show "joined s t" using t uf(2) us rf ef qe(3) p(1) by (simp add: joined_def quiet_defs)
  show "sl_keeping m" "sl_fault m = sl_fault l" using t(9) p(2) by (simp_all add: same_loc_def)
  show "\<not> sl_keeping l \<Longrightarrow> ss_new_bits_kept t = ss_new_bits_kept s"
    using t(5) us(4) rf(6) ef(6) p(1,2) by (simp add: same_loc_def quiet_defs)
  obtain x where x: "queue_buf e = queue_buf b @ [x]" "fname x = fn" "q_len x = of_nat (length (sl_mem l2))" using qe(1) by blast
  have "entry e (length (queue_buf s)) = x" using x(1) p(1) by (simp add: entry_def quiet_defs)
  then have n: "fname (entry t (length (queue_buf s))) = fn" "q_len (entry t (length (queue_buf s))) = of_nat (length (sl_mem l))"
    using same_names_trans [OF uf(3) t(8)] rf(7,8) x(2,3) p(2) by (simp_all add: same_names_def same_loc_def)
  then show "q_len (entry t (length (queue_buf s))) = of_nat (length (sl_mem l))" by simp
  have "saved_files t = saved_files b @ (if sv_create w fn then [(fn, sl_mem l2)] else [])"
    using t(7) us(5) rf(5) ef(7) by simp
  then show "saved_files t = saved_files s @ (let fn = fname (entry t (length (queue_buf s))) in if sv_create w fn then [(fn, sl_mem l)] else [])"
    using n p(1,2) by (simp add: same_loc_def quiet_defs Let_def)
qed
section \<open>Crashes and hangs\<close>

definition kept_ok :: "'a afl_save_scheme \<Rightarrow> bool" where
  "kept_ok s \<longleftrightarrow> saved_crashes s \<le> KEEP_UNIQUE_CRASH \<and> saved_hangs s \<le> KEEP_UNIQUE_HANG"

text \<open>\<open>ends keep s t\<close>: the answer, the queue and the limits at the end of a pass.\<close>

definition ends :: "bool \<Rightarrow> 'a afl_save_scheme \<Rightarrow> 'a afl_save_scheme save_next \<Rightarrow> bool" where
  "ends keep s r \<longleftrightarrow> (case r of
     Finished (Inr (b, t)) \<Rightarrow> b = keep \<and> same_queue s t \<and> same_cfg s t \<and> (kept_ok s \<longrightarrow> kept_ok t)
   | Finished (Inl e) \<Rightarrow> True
   | Requeue (m, t) \<Rightarrow> quiet s t \<and> sl_keeping m = keep \<and> afl_keep_timeouts s)"

lemma ends_quiet: "quiet s t \<Longrightarrow> ends keep t r \<Longrightarrow> ends keep s r"
  by (auto simp: ends_def quiet_defs kept_ok_def split: save_next.splits sum.splits)

lemma ends_now: "quiet s t \<Longrightarrow> ends keep s (Finished (Inr (keep, t)))"
  by (simp add: ends_def quiet_defs kept_ok_def)

lemma quiet_updates [simp]:
  "quiet s (s\<lparr>total_crashes := x\<rparr>)" "quiet s (s\<lparr>total_tmouts := x\<rparr>)" "quiet s (s\<lparr>saved_tmouts := x\<rparr>)"
  "quiet s (s\<lparr>trace_bits := tr\<rparr>)" "quiet s (s\<lparr>san_case_status := c\<rparr>)" "quiet s (s\<lparr>crash_readme := b\<rparr>)"
  by (simp_all add: quiet_defs)

lemma below_Suc: "\<not> (n::u64) \<le> x \<Longrightarrow> x + 1 \<le> n"
  by (rule inc_le) simp

lemma keep_as_hang_ends:
  assumes "\<not> KEEP_UNIQUE_HANG \<le> saved_hangs s"
  shows "ends (sl_keeping l) s (keep_as_hang w (l, s))"
  using below_Suc [OF assms]
  by (auto simp: keep_as_hang_def ends_def same_queue_def same_cfg_def kept_ok_def save_file_def split: sum.splits)

lemma keep_as_crash_ends: "ends (sl_keeping l) s (keep_as_crash w (l, s))"
proof -
  let ?s = "s\<lparr>total_crashes := total_crashes s + 1\<rparr>"
  obtain new t where n: "new_in_simplified w VIRGIN_CRASH ?s = (new, t)" by force
  have q: "quiet ?s t" by (rule new_in_simplified_quiet [OF n])
  have "ends (sl_keeping l) ?s (keep_as_crash w (l, s))"
  proof (cases "KEEP_UNIQUE_CRASH \<le> saved_crashes ?s \<or> \<not> new")
    case True
    then show ?thesis using n ends_now [OF q] ends_now [OF quiet_refl]
      by (auto simp: keep_as_crash_def Let_def)
  next
    case False
    define u where "u = (if saved_crashes t = 0 \<and> \<not> afl_no_crash_readme t then write_crash_readme w t else t)"
    have u: "quiet t u" by (simp add: u_def write_crash_readme_def quiet_refl)
    have lim: "\<not> KEEP_UNIQUE_CRASH \<le> saved_crashes u" using False q u by (simp add: quiet_defs)
    have "ends (sl_keeping l) u (Finished (Inr (sl_keeping l, save_file w fn mem (u\<lparr>saved_crashes := saved_crashes u + 1\<rparr>))))" for fn mem
      using below_Suc [OF lim] by (simp add: ends_def same_queue_def same_cfg_def kept_ok_def save_file_def)
    moreover have "ends (sl_keeping l) u (Finished (Inl e))" for e by (simp add: ends_def)
    moreover have "keep_as_crash w (l, s) =
      (case case_name w ''/crashes/'' (unat (saved_crashes u)) (''sig:'' @ pad_dec 2 (unat (last_kill_signal u)) @ '','') 17 0 (sl_mem l) u of
         Inl e \<Rightarrow> Finished (Inl e)
       | Inr fn \<Rightarrow> Finished (Inr (sl_keeping l, save_file w fn (sl_mem l) (u\<lparr>saved_crashes := saved_crashes u + 1\<rparr>))))"
      using n False unfolding keep_as_crash_def Let_def u_def by simp
    ultimately have "ends (sl_keeping l) u (keep_as_crash w (l, s))" by (simp split: sum.split)
    then show ?thesis by (rule ends_quiet [OF quiet_trans [OF q u]])
  qed
  then show ?thesis by (rule ends_quiet [OF quiet_updates(1)])
qed

lemma rerun_hang_ends:
  assumes "\<not> KEEP_UNIQUE_HANG \<le> saved_hangs s"
  shows "ends (sl_keeping l) s (rerun_hang w k (l, s))"
proof -
  obtain f trace stopped where h: "sv_hang w k = (f, trace, stopped)" by (metis prod_cases3)
  define m where "m = l\<lparr>sl_mem := (if rewritten w False (sl_mem l) \<noteq> [] then rewritten w False (sl_mem l) else rewritten w True (sl_mem l)),
     sl_classified := False, sl_counted := False, sl_cksumed := False\<rparr>"
  let ?t = "s\<lparr>trace_bits := trace\<rparr>"
  have m: "sl_keeping m = sl_keeping l" by (simp add: m_def)
  have "ends (sl_keeping l) ?t (keep_as_crash w (m, ?t))" using keep_as_crash_ends [of m ?t w] m by simp
  moreover have "ends (sl_keeping l) ?t (keep_as_hang w (m, ?t))" using keep_as_hang_ends [of ?t m w] m assms by simp
  moreover have "ends (sl_keeping l) ?t (Finished (Inr (sl_keeping l, ?t)))" by (rule ends_now [OF quiet_refl])
  moreover have "ends (sl_keeping l) ?t (Requeue (m, ?t\<lparr>saved_tmouts := saved_tmouts ?t + 1\<rparr>))" if "afl_keep_timeouts ?t"
    using that m by (simp add: ends_def quiet_defs)
  ultimately have "ends (sl_keeping l) ?t (rerun_hang w k (l, s))"
    unfolding rerun_hang_def prod.case h Let_def m_def [symmetric] m by (simp only: split: if_split) blast
  then show ?thesis by (rule ends_quiet [OF quiet_updates(4)])
qed

lemma may_save_timeout_ends: "ends (sl_keeping l) s (may_save_timeout w k (l, s))"
proof -
  let ?s = "s\<lparr>total_tmouts := total_tmouts s + 1\<rparr>"
  obtain new t where n: "new_in_simplified w VIRGIN_TMOUT ?s = (new, t)" by force
  have q: "quiet ?s t" by (rule new_in_simplified_quiet [OF n])
  have "ends (sl_keeping l) ?s (may_save_timeout w k (l, s))"
  proof (cases "KEEP_UNIQUE_HANG \<le> saved_hangs ?s \<or> \<not> new")
    case True
    then show ?thesis using n ends_now [OF q] ends_now [OF quiet_refl]
      by (auto simp: may_save_timeout_def Let_def)
  next
    case False
    then have lim: "\<not> KEEP_UNIQUE_HANG \<le> saved_hangs t" using q by (simp add: quiet_defs)
    have "ends (sl_keeping l) t (rerun_hang w k (l\<lparr>sl_timeout := True\<rparr>, t))" "ends (sl_keeping l) t (keep_as_hang w (l\<lparr>sl_timeout := True\<rparr>, t))"
      using rerun_hang_ends [OF lim, of "l\<lparr>sl_timeout := True\<rparr>" w k] keep_as_hang_ends [OF lim, of "l\<lparr>sl_timeout := True\<rparr>" w] by simp_all
    then have "ends (sl_keeping l) t (may_save_timeout w k (l, s))"
      using n False by (simp add: may_save_timeout_def Let_def)
    then show ?thesis by (rule ends_quiet [OF q])
  qed
  then show ?thesis by (rule ends_quiet [OF quiet_updates(2)])
qed

lemma may_save_fault_ends: "ends (sl_keeping l) s (may_save_fault w k (l, s))"
proof -
  have "ends (sl_keeping l) s (Finished (Inl e))" for e by (simp add: ends_def)
  then show ?thesis
    by (cases "sl_fault l") (simp_all add: may_save_fault_def may_save_timeout_ends keep_as_crash_ends ends_now [OF quiet_refl])
qed

lemma requeue_fault: "may_save_fault w k (l, s) = Requeue (m, t) \<Longrightarrow> sl_fault l = FSRV_RUN_TMOUT \<and> sl_fault m = FSRV_RUN_TMOUT"
  by (auto simp: may_save_fault_def may_save_timeout_def rerun_hang_def keep_as_crash_def keep_as_hang_def Let_def
      split: fsrv_run_result.splits if_splits prod.splits sum.splits)

section \<open>All passes\<close>

text \<open>\<open>saved keep s t\<close>: what holds when \<open>save_if_interesting\<close> returns \<open>keep\<close>.\<close>

definition saved :: "bool \<Rightarrow> bool \<Rightarrow> 'a afl_save_scheme \<Rightarrow> 'a afl_save_scheme \<Rightarrow> bool" where
  "saved before keep s t \<longleftrightarrow> same_cfg s t \<and> covs_counted t \<and> (kept_ok s \<longrightarrow> kept_ok t)
     \<and> length (queue_buf s) \<le> length (queue_buf t) \<and> (keep \<longleftrightarrow> before \<or> length (queue_buf s) < length (queue_buf t))"

lemma saved_quiet: "quiet s t \<Longrightarrow> saved before keep t u \<Longrightarrow> saved before keep s u"
  by (auto simp: saved_def quiet_defs kept_ok_def)

lemma saved_joined: "joined s t \<Longrightarrow> saved True keep t u \<Longrightarrow> saved before keep s u"
  by (auto simp: saved_def joined_def same_cfg_def kept_ok_def)

lemma saved_finished: "covs_counted s \<Longrightarrow> ends before s (Finished (Inr (keep, t))) \<Longrightarrow> saved before keep s t"
  by (auto simp: saved_def ends_def same_queue_def covs_counted_def)

lemma save_passes_saved:
  assumes "save_passes w k (l, s) = Some (Inr (keep, t))" "covs_counted s"
  shows "saved (sl_keeping l) keep s t"
proof -
  have "\<forall>l s keep t. x = (l, s) \<and> r = Inr (keep, t) \<and> covs_counted s \<longrightarrow> saved (sl_keeping l) keep s t"
    if "save_passes w' k' x = Some r" for w' k' x r
    using that
  proof (induction w' k' x r rule: save_passes.raw_induct [rotated, consumes 1])
    case (1 passes w k x r)
    show ?case
    proof (intro allI impI, elim conjE)
      fix l s keep t
      assume x: "x = (l, s)" and r: "r = Inr (keep, t)" and c: "covs_counted s"
      note e = may_save_fault_ends [of l s w k]
      show "saved (sl_keeping l) keep s t"
      proof (cases "may_save_fault w k (l, s)")
        case (Finished y)
        then show ?thesis using 1(2) e saved_finished [OF c] x r by simp
      next
        case (Requeue y)
        obtain m u where y: "y = (m, u)" by force
        have q: "quiet s u" "sl_keeping m = sl_keeping l" using e Requeue y by (simp_all add: ends_def)
        then have cu: "covs_counted u" using c by (simp add: quiet_defs covs_counted_def)
        obtain m' v where j: "save_to_queue w (k + 1) (m, u) = Inr (m', v)" "passes w (k + 1) (m', v) = Some r"
          using 1(2) Requeue x y r by (auto split: sum.splits)
        note jn = save_to_queue_joins [OF cu j(1)]
        have "saved True keep v t" using 1(1) [OF j(2)] jn r by (simp add: joined_def)
        then show ?thesis using saved_joined [OF jn(1)] saved_quiet [OF q(1)] by blast
      qed
    qed
  qed
  then show ?thesis using assms by blast
qed
lemma save_normal_saved:
  assumes "save_normal w (l, s) = Some (Inr (keep, t))" "covs_counted s" "\<not> sl_keeping l"
  shows "saved False keep s t"
proof -
  obtain f m u where a: "ask_sanitizers w (l, s) = (f, m, u)" by (metis prod_cases3)
  obtain m' v where n: "calculate_new_bits_if_necessary w (m, u) = (m', v)" by force
  have q: "quiet s v" using ask_sanitizers_quiet(1) [OF a] new_bits_quiet [OF n] quiet_trans by blast
  have k: "\<not> sl_keeping m'" using ask_sanitizers_quiet(2) [OF a] new_bits_quiet [OF n] assms(3) by (simp add: same_loc_def)
  have cv: "covs_counted v" using assms(2) q by (simp add: quiet_defs covs_counted_def)
  have "saved False keep v t"
  proof (cases "sl_new_bits m' = 0")
    case True
    let ?v = "v\<lparr>san_case_status := san_case_status v OR NON_COV_INCREASE_BUG\<rparr>"
    have "covs_counted ?v" using cv by (simp add: covs_counted_def)
    then have p: "saved False keep ?v t" if "save_passes w 0 (m'\<lparr>sl_fault := f\<rparr>, ?v) = Some (Inr (keep, t))"
      using save_passes_saved [OF that] k by simp
    show ?thesis
    proof (cases "f = FSRV_RUN_OK")
      case True
      then have "\<not> keep" "quiet v t" using assms(1) a n \<open>sl_new_bits m' = 0\<close> by (auto simp: save_normal_def quiet_refl)
      then show ?thesis using cv by (auto simp: saved_def quiet_defs covs_counted_def kept_ok_def)
    next
      case False
      then have "save_passes w 0 (m'\<lparr>sl_fault := f\<rparr>, ?v) = Some (Inr (keep, t))"
        using assms(1) a n \<open>sl_new_bits m' = 0\<close> by (simp add: save_normal_def)
      from saved_quiet [OF quiet_updates(5) p [OF this]] show ?thesis .
    qed
  next
    case False
    then obtain m2 x where j: "save_to_queue w 0 (m'\<lparr>sl_fault := f\<rparr>, v) = Inr (m2, x)" "save_passes w 0 (m2, x) = Some (Inr (keep, t))"
      using assms(1) a n by (auto simp: save_normal_def split: sum.splits)
    note jn = save_to_queue_joins [OF cv j(1)]
    have "saved True keep x t" using save_passes_saved [OF j(2)] jn by (simp add: joined_def)
    then show ?thesis by (rule saved_joined [OF jn(1)])
  qed
  then show ?thesis by (rule saved_quiet [OF q])
qed

lemma save_if_interesting_saved:
  assumes "save_if_interesting w mem fault s = Some (Inr (keep, t))" "covs_counted s"
  shows "saved False keep s t"
proof -
  have same: "saved False False s t" if "quiet s t"
    using that assms(2) by (auto simp: saved_def quiet_defs covs_counted_def kept_ok_def)
  show ?thesis
  proof (cases "mem = [] \<or> fault = FSRV_RUN_TMOUT \<and> afl_ignore_timeouts s")
    case True
    have "quiet s (count_path c (classify_counts (sv_w64 w) s))" for c
      by (rule quiet_trans [OF classify_counts_quiet count_path_quiet])
    then have "\<not> keep \<and> quiet s t"
      using assms(1) True quiet_refl [of s] by (auto simp: save_if_interesting_def Let_def split: if_splits)
    then show ?thesis using same by simp
  next
    case False
    obtain l u where st: "save_start w mem fault s = (l, u)" by force
    note q = save_start_quiet [OF st]
    have cu: "covs_counted u" using assms(2) q(1) by (simp add: quiet_defs covs_counted_def)
    have "(if fault = crash_mode s then save_normal w (l, u) else save_passes w 0 (l, u)) = Some (Inr (keep, t))"
      using assms(1) False st by (auto simp: save_if_interesting_def)
    then have "saved False keep u t"
      using save_normal_saved [OF _ cu q(2), of w keep t] save_passes_saved [OF _ cu, of w 0 l keep t] q(2) by (simp split: if_splits)
    then show ?thesis by (rule saved_quiet [OF q(1)])
  qed
qed

section \<open>Returning\<close>

text \<open>Without \<open>AFL_KEEP_TIMEOUTS\<close> there is one pass; then the counter \<open>ss_new_bits_kept\<close> never moves.\<close>

lemma save_passes_returns:
  assumes "\<not> afl_keep_timeouts s"
  shows "\<exists>r. save_passes w k (l, s) = Some r \<and> (\<forall>keep t. r = Inr (keep, t) \<longrightarrow> ss_new_bits_kept t = ss_new_bits_kept s)"
proof (cases "may_save_fault w k (l, s)")
  case (Finished y)
  then have "save_passes w k (l, s) = Some y" by (subst save_passes.simps) simp
  moreover have "ss_new_bits_kept t = ss_new_bits_kept s" if "y = Inr (keep, t)" for keep t
    using may_save_fault_ends [of l s w k] Finished that by (simp add: ends_def same_queue_def)
  ultimately show ?thesis by blast
next
  case (Requeue y)
  then show ?thesis using may_save_fault_ends [of l s w k] assms by (auto simp: ends_def split: prod.splits)
qed

lemma save_normal_returns:
  assumes "\<not> afl_keep_timeouts s" "covs_counted s" "\<not> sl_keeping l"
  shows "\<exists>r. save_normal w (l, s) = Some r \<and> (\<forall>keep t. r = Inr (keep, t) \<longrightarrow> ss_new_bits_kept t = ss_new_bits_kept s)"
proof -
  obtain f m u where a: "ask_sanitizers w (l, s) = (f, m, u)" by (metis prod_cases3)
  obtain m' v where n: "calculate_new_bits_if_necessary w (m, u) = (m', v)" by force
  have q: "quiet s v" using ask_sanitizers_quiet(1) [OF a] new_bits_quiet [OF n] quiet_trans by blast
  have k: "\<not> sl_keeping m'" using ask_sanitizers_quiet(2) [OF a] new_bits_quiet [OF n] assms(3) by (simp add: same_loc_def)
  have v: "covs_counted v" "\<not> afl_keep_timeouts v" "ss_new_bits_kept v = ss_new_bits_kept s"
    using assms(1,2) q by (simp_all add: quiet_defs covs_counted_def)
  let ?v = "v\<lparr>san_case_status := san_case_status v OR NON_COV_INCREASE_BUG\<rparr>"
  have p: "\<exists>r. save_passes w 0 (m'\<lparr>sl_fault := f\<rparr>, ?v) = Some r \<and> (\<forall>keep t. r = Inr (keep, t) \<longrightarrow> ss_new_bits_kept t = ss_new_bits_kept s)"
    using save_passes_returns [of ?v] v by simp
  show ?thesis
  proof (cases "sl_new_bits m' = 0")
    case True
    then show ?thesis using a n p v(3) by (simp add: save_normal_def)
  next
    case False
    show ?thesis
    proof (cases "save_to_queue w 0 (m'\<lparr>sl_fault := f\<rparr>, v)")
      case (Inl e)
      then show ?thesis using a n False by (simp add: save_normal_def)
    next
      case (Inr y)
      obtain m2 x where y: "y = (m2, x)" by force
      note jn = save_to_queue_joins [OF v(1) Inr [unfolded y]]
      have "\<not> afl_keep_timeouts x" "ss_new_bits_kept x = ss_new_bits_kept s"
        using jn(1) jn(4) k v by (simp_all add: joined_def same_cfg_def)
      then show ?thesis using save_passes_returns [of x w 0 m2] a n False Inr y by (simp add: save_normal_def)
    qed
  qed
qed

lemma save_if_interesting_returns:
  assumes "\<not> afl_keep_timeouts s" "covs_counted s"
  shows "\<exists>r. save_if_interesting w mem fault s = Some r \<and> (\<forall>keep t. r = Inr (keep, t) \<longrightarrow> ss_new_bits_kept t = ss_new_bits_kept s)"
proof (cases "mem = [] \<or> fault = FSRV_RUN_TMOUT \<and> afl_ignore_timeouts s")
  case True
  have "ss_new_bits_kept (count_path c (classify_counts (sv_w64 w) s)) = ss_new_bits_kept s" for c
    using quiet_trans [OF classify_counts_quiet count_path_quiet, of s c "sv_w64 w"] by (simp add: quiet_defs)
  then show ?thesis using True by (auto simp: save_if_interesting_def Let_def)
next
  case False
  obtain l u where st: "save_start w mem fault s = (l, u)" by force
  note q = save_start_quiet [OF st]
  have u: "covs_counted u" "\<not> afl_keep_timeouts u" "ss_new_bits_kept u = ss_new_bits_kept s"
    using assms q(1) by (simp_all add: quiet_defs covs_counted_def)
  have "save_if_interesting w mem fault s = (if fault = crash_mode s then save_normal w (l, u) else save_passes w 0 (l, u))"
    using False st by (auto simp: save_if_interesting_def)
  then show ?thesis using save_normal_returns [OF u(2,1) q(2), of w] save_passes_returns [OF u(2), of w 0 l] u(3) by simp
qed

text \<open>
  With \<open>AFL_KEEP_TIMEOUTS\<close> and a target without instrumentation, an input that times out only under the
  short limit is queued again and again.
\<close>

definition requeues :: "'a afl_save_scheme \<Rightarrow> bool" where
  "requeues s \<longleftrightarrow> non_instrumented_mode s \<and> afl_keep_timeouts s \<and> \<not> KEEP_UNIQUE_HANG \<le> saved_hangs s \<and> exec_tmout s < hang_tmout s"

lemma timeout_requeues:
  assumes "requeues s" "sl_fault l = FSRV_RUN_TMOUT" "fst (sv_hang w k) \<noteq> FSRV_RUN_TMOUT" "fst (sv_hang w k) \<noteq> FSRV_RUN_CRASH"
  shows "\<exists>m t. may_save_fault w k (l, s) = Requeue (m, t)"
  using assms
  by (auto simp: requeues_def may_save_fault_def may_save_timeout_def new_in_simplified_def rerun_hang_def Let_def split: prod.split)

lemma save_passes_never:
  assumes "save_passes w k (l, s) = Some r" "requeues s" "covs_counted s" "sl_fault l = FSRV_RUN_TMOUT"
    and "\<And>j. fst (sv_hang w j) \<noteq> FSRV_RUN_TMOUT \<and> fst (sv_hang w j) \<noteq> FSRV_RUN_CRASH"
  shows "\<exists>e. r = Inl e"
proof -
  have "\<forall>l s. x = (l, s) \<and> requeues s \<and> covs_counted s \<and> sl_fault l = FSRV_RUN_TMOUT
      \<and> (\<forall>j. fst (sv_hang w' j) \<noteq> FSRV_RUN_TMOUT \<and> fst (sv_hang w' j) \<noteq> FSRV_RUN_CRASH) \<longrightarrow> (\<exists>e. r = Inl e)"
    if "save_passes w' k' x = Some r" for w' k' x r
    using that
  proof (induction w' k' x r rule: save_passes.raw_induct [rotated, consumes 1])
    case (1 passes w k x r)
    show ?case
    proof (intro allI impI, elim conjE)
      fix l s
      assume x: "x = (l, s)" and a: "requeues s" "covs_counted s" "sl_fault l = FSRV_RUN_TMOUT"
        and w: "\<forall>j. fst (sv_hang w j) \<noteq> FSRV_RUN_TMOUT \<and> fst (sv_hang w j) \<noteq> FSRV_RUN_CRASH"
      obtain m u where y: "may_save_fault w k (l, s) = Requeue (m, u)" using timeout_requeues [OF a(1,3)] w by blast
      have q: "quiet s u" using may_save_fault_ends [of l s w k] y by (simp add: ends_def)
      have u: "requeues u" "covs_counted u" using a(1,2) q by (simp_all add: quiet_defs requeues_def covs_counted_def)
      show "\<exists>e. r = Inl e"
      proof (cases "save_to_queue w (k + 1) (m, u)")
        case (Inl e)
        then show ?thesis using 1(2) x y by auto
      next
        case (Inr z)
        obtain m' v where z: "z = (m', v)" by force
        note jn = save_to_queue_joins [OF u(2) Inr [unfolded z]]
        have "requeues v" "covs_counted v" using u(1) jn(1) by (simp_all add: joined_def requeues_def same_cfg_def)
        moreover have "sl_fault m' = FSRV_RUN_TMOUT" using jn(3) requeue_fault [OF y] by simp
        moreover have "passes w (k + 1) (m', v) = Some r" using 1(2) x y Inr z by simp
        ultimately show ?thesis using 1(1) w by blast
      qed
    qed
  qed
  then show ?thesis using assms by blast
qed

lemma save_if_interesting_never:
  assumes "save_if_interesting w mem FSRV_RUN_TMOUT s = Some r" "mem \<noteq> []" "\<not> afl_ignore_timeouts s" "crash_mode s \<noteq> FSRV_RUN_TMOUT"
    and "requeues s" "covs_counted s" "\<And>j. fst (sv_hang w j) \<noteq> FSRV_RUN_TMOUT \<and> fst (sv_hang w j) \<noteq> FSRV_RUN_CRASH"
  shows "\<exists>e. r = Inl e"
proof -
  obtain l u where st: "save_start w mem FSRV_RUN_TMOUT s = (l, u)" by force
  note q = save_start_quiet [OF st]
  have "requeues u" "covs_counted u" using assms(5,6) q(1) by (simp_all add: quiet_defs requeues_def covs_counted_def)
  moreover have "save_passes w 0 (l, u) = Some r" using assms(1-4) st by (simp add: save_if_interesting_def)
  ultimately show ?thesis using save_passes_never q(3) assms(7) by blast
qed

end
