(* ===== verification/Save_Theorems.thy ===== *)
theory Save_Theorems
  imports Save_Laws
begin

text \<open>
  The properties of saving inputs: which inputs join the queue, the limits and the books, when the handler
  returns, and the length of the file names.
\<close>

section \<open>The decision\<close>

lemma cov_fields:
  fixes s :: "'a afl_save_scheme"
  shows "cov_ok (s\<lparr>san_case_status := c\<rparr>) = cov_ok s" "scanned w (s\<lparr>san_case_status := c\<rparr>) = scanned w s"
    "cov_ok (count_path x s) = cov_ok s" "scanned w (count_path x s) = scanned w s"
    "virgin_of vm (s\<lparr>san_case_status := c\<rparr>) = virgin_of vm s" "virgin_of vm (count_path x s) = virgin_of vm s"
    "trace_bits (count_path x s) = trace_bits s"
proof -
  have v: "virgin_of vm (s\<lparr>san_case_status := c\<rparr>) = virgin_of vm s" "virgin_of vm (count_path x s) = virgin_of vm s" for vm
    by (cases vm; simp add: count_path_def Let_def)+
  then show "cov_ok (s\<lparr>san_case_status := c\<rparr>) = cov_ok s" "scanned w (s\<lparr>san_case_status := c\<rparr>) = scanned w s"
    "cov_ok (count_path x s) = cov_ok s" "scanned w (count_path x s) = scanned w s"
    "virgin_of vm (s\<lparr>san_case_status := c\<rparr>) = virgin_of vm s" "virgin_of vm (count_path x s) = virgin_of vm s"
    "trace_bits (count_path x s) = trace_bits s"
    by (simp_all add: cov_ok_def scanned_def count_path_def Let_def)
qed

lemma new_bits_decide:
  fixes s :: "'a afl_save_scheme"
  assumes "cov_ok s" "drop (scanned (sv_w64 w) s) (trace_bits s) = replicate (unat (map_size s) - scanned (sv_w64 w) s) 0"
    and "save_start w mem fault s = (l, u)" "calculate_new_bits_if_necessary w (l, u) = (m, v)"
  shows "sl_new_bits m = novelty (take (scanned (sv_w64 w) s) (map count_class_lookup8 (trace_bits s)))
      (take (scanned (sv_w64 w) s) (virgin_bits s))"
proof -
  let ?s = "s\<lparr>san_case_status := 0\<rparr>" and ?w = "sv_w64 w"
  let ?c = "classify_counts ?w ?s"
  have ok: "cov_ok ?s" using assms(1) by (simp add: cov_fields)
  have c: "trace_bits ?c = map count_class_lookup8 (trace_bits s)" "cov_ok ?c" "virgin_of VIRGIN_BITS ?c = virgin_bits s" "scanned ?w ?c = scanned ?w s"
    using classify_counts_eq [OF ok, of ?w] classify_counts_ok [OF ok, of ?w] by (simp_all add: cov_fields)
  have slow: "fst (has_new_bits ?w x VIRGIN_BITS) = novelty (take (scanned ?w s) (map count_class_lookup8 (trace_bits s))) (take (scanned ?w s) (virgin_bits s))"
    if "cov_ok x" "trace_bits x = trace_bits ?c" "virgin_of VIRGIN_BITS x = virgin_bits s" "scanned ?w x = scanned ?w s" for x :: "'a afl_save_scheme"
    using has_new_bits_eq [OF that(1) refl refl refl, of ?w VIRGIN_BITS] that(2-4) c(1) by simp
  show ?thesis
  proof (cases "fast_schedule s")
    case True
    then have l: "sl_classified l" "\<not> sl_counted l" "u = count_path (sv_hash64 w (trace_bits ?c)) ?c"
      using assms(3) by (auto simp: save_start_def Let_def calculate_cksum_if_necessary_def classify_if_necessary_def)
    have "sl_new_bits m = fst (has_new_bits ?w u VIRGIN_BITS)"
      using assms(4) l(1,2) by (auto simp: calculate_new_bits_if_necessary_def split: prod.splits)
    also have "\<dots> = novelty (take (scanned ?w s) (map count_class_lookup8 (trace_bits s))) (take (scanned ?w s) (virgin_bits s))"
      by (rule slow) (use c l(3) in \<open>simp_all only: cov_fields\<close>)
    finally show ?thesis .
  next
    case False
    then have l: "\<not> sl_classified l" "\<not> sl_counted l" "u = ?s"
      using assms(3) by (auto simp: save_start_def Let_def)
    obtain r b f where r: "has_new_bits_unclassified ?w ?s VIRGIN_BITS False = (r, b, f)" by (metis prod_cases3)
    obtain r' slow' where r': "has_new_bits ?w ?c VIRGIN_BITS = (r', slow')" by force
    have "r = r'" using unclassified_agrees [OF ok _ r' r] assms(2) by (simp add: cov_fields)
    moreover have "sl_new_bits m = r" using assms(4) l r by (auto simp: calculate_new_bits_if_necessary_def)
    ultimately show ?thesis using slow [of ?c] c r' by simp
  qed
qed

lemma save_normal_decides:
  fixes s :: "'a afl_save_scheme"
  assumes "san_binary_length u = 0" "covs_counted u" "save_normal w (l, u) = Some (Inr (keep, t))"
    and n: "calculate_new_bits_if_necessary w (l, u) = (m, v)"
  shows "if sl_new_bits m = 0 then \<not> keep \<and> queue_buf t = queue_buf u
    else keep \<and> (\<exists>x. save_to_queue w 0 (m\<lparr>sl_fault := FSRV_RUN_OK\<rparr>, v) = Inr (x, t))"
proof -
  have a: "ask_sanitizers w (l, u) = (FSRV_RUN_OK, l, u)" using assms(1) by (simp add: ask_sanitizers_def feed_san_def)
  have q: "quiet u v" using new_bits_quiet [OF n] by simp
  then have cv: "covs_counted v" using assms(2) by (simp add: quiet_defs covs_counted_def)
  show ?thesis
  proof (cases "sl_new_bits m = 0")
    case True
    then show ?thesis using assms(3) a n q by (auto simp: save_normal_def quiet_defs)
  next
    case False
    then obtain x y where j: "save_to_queue w 0 (m\<lparr>sl_fault := FSRV_RUN_OK\<rparr>, v) = Inr (x, y)" "save_passes w 0 (x, y) = Some (Inr (keep, t))"
      using assms(3) a n by (auto simp: save_normal_def split: sum.splits)
    note jn = save_to_queue_joins [OF cv j(1)]
    have "save_passes w 0 (x, y) = Some (Inr (True, y))"
      using jn(2,3) by (subst save_passes.simps) (simp add: may_save_fault_def)
    then show ?thesis using False j by simp
  qed
qed

lemma save_decides:
  fixes s :: "'a afl_save_scheme"
  assumes "cov_ok s" "drop (scanned (sv_w64 w) s) (trace_bits s) = replicate (unat (map_size s) - scanned (sv_w64 w) s) 0"
    and "covs_counted s" "san_binary_length s = 0" "mem \<noteq> []" "\<not> (crash_mode s = FSRV_RUN_TMOUT \<and> afl_ignore_timeouts s)"
    and res: "save_if_interesting w mem (crash_mode s) s = Some (Inr (keep, t))"
    and new: "new \<longleftrightarrow> novelty (take (scanned (sv_w64 w) s) (map count_class_lookup8 (trace_bits s)))
      (take (scanned (sv_w64 w) s) (virgin_bits s)) \<noteq> 0"
  shows "(keep \<longleftrightarrow> new) \<and> (\<not> new \<longrightarrow> queue_buf t = queue_buf s)
    \<and> (new \<longrightarrow> length (queue_buf t) = Suc (length (queue_buf s))
         \<and> q_len (entry t (length (queue_buf s))) = of_nat (length mem)
         \<and> saved_files t = saved_files s @ (let fn = fname (entry t (length (queue_buf s))) in if sv_create w fn then [(fn, mem)] else []))"
proof -
  obtain l u where st: "save_start w mem (crash_mode s) s = (l, u)" by force
  note q = save_start_quiet [OF st]
  obtain m v where n: "calculate_new_bits_if_necessary w (l, u) = (m, v)" by force
  have su: "san_binary_length u = san_binary_length s"
    using st by (auto simp: save_start_def Let_def calculate_cksum_if_necessary_def classify_if_necessary_def classify_counts_def count_path_def split: if_splits)
  have cu: "covs_counted u" using assms(3) q(1) by (simp add: quiet_defs covs_counted_def)
  have sn: "save_normal w (l, u) = Some (Inr (keep, t))" using res assms(5,6) st by (simp add: save_if_interesting_def)
  note d = save_normal_decides [OF su [unfolded assms(4)] cu sn n]
  have bits: "sl_new_bits m \<noteq> 0 \<longleftrightarrow> new" using new_bits_decide [OF assms(1,2) st n] new by simp
  have qv: "quiet s v" "same_loc l m" using quiet_trans [OF q(1)] new_bits_quiet [OF n] by blast+
  have cv: "covs_counted v" using assms(3) qv(1) by (simp add: quiet_defs covs_counted_def)
  show ?thesis
  proof (cases new)
    case False
    then show ?thesis using d bits q(1) by (simp add: quiet_defs)
  next
    case True
    then obtain x where j: "keep" "save_to_queue w 0 (m\<lparr>sl_fault := FSRV_RUN_OK\<rparr>, v) = Inr (x, t)" using d bits by auto
    have "length (queue_buf v) = length (queue_buf s)" "saved_files v = saved_files s" "sl_mem m = mem"
      using qv q(5) by (simp_all add: quiet_defs same_loc_def)
    then show ?thesis using save_to_queue_joins(1,5,6) [OF cv j(2)] True j(1)
      by (simp add: joined_def Let_def)
  qed
qed

section \<open>The length of a description\<close>

lemma length_pad_dec: "length (dec_nat n) \<le> k \<Longrightarrow> w \<le> k \<Longrightarrow> length (pad_dec w n) \<le> k"
  by (simp add: pad_dec_def)

definition s32_ok :: "int \<Rightarrow> bool" where
  "s32_ok i \<longleftrightarrow> - (2 ^ 31) \<le> i \<and> i < 2 ^ 31"

lemma length_s32: "s32_ok i \<Longrightarrow> length (dec_int i) \<le> 11" "s32_ok i \<Longrightarrow> length (plus_dec i) \<le> 11" "s32_ok i \<Longrightarrow> length (dec_nat (nat i)) \<le> 10"
proof -
  assume i: "s32_ok i"
  then have "i < 10 ^ 10" "- i < 10 ^ 10" by (simp_all add: s32_ok_def)
  then have n: "nat i < 10 ^ 10" "nat (- i) < 10 ^ 10" by auto
  show d: "length (dec_nat (nat i)) \<le> 10" by (rule length_dec_nat [OF n(1)]) simp
  have "length (dec_nat (nat (- i))) \<le> 10" by (rule length_dec_nat [OF n(2)]) simp
  with d show "length (dec_int i) \<le> 11" "length (plus_dec i) \<le> 11" by (simp_all add: dec_int_def plus_dec_def)
qed

lemma length_source: "s32_ok (splicing_with afl) \<Longrightarrow> length (describe_source afl) \<le> 78"
proof -
  assume s: "s32_ok (splicing_with afl)"
  have "length (dec_nat (unat (current_entry afl))) \<le> 10"
    by (rule length_dec_word) simp_all
  then have "length (pad_dec 6 (unat (current_entry afl))) \<le> 10" "length (pad_dec 6 (nat (splicing_with afl))) \<le> 10"
    using length_s32(3) [OF s] by (simp_all add: length_pad_dec)
  then show ?thesis using length_dec_u64 [of "run_time afl"] length_dec_u64 [of "total_execs afl"]
    by (simp add: describe_source_def)
qed

lemma length_stage:
  "s32_ok (stage_cur_byte afl) \<Longrightarrow> s32_ok (stage_cur_val afl) \<Longrightarrow> length (describe_stage afl) \<le> 39 + length (stage_short afl)"
  using length_s32(1) [of "stage_cur_byte afl"] length_s32(1,2) [of "stage_cur_val afl"] by (auto simp: describe_stage_def)

text \<open>
  A custom mutator that uses all the room it is given makes the description of a sanitizer-only crash too
  long: the room for \<open>,+san\<close> and \<open>,+noncov\<close> is not set aside. The fuzzer ends.
\<close>

lemma describe_custom_too_long:
  assumes "sv_describe w = Some (\<lambda>n. Some (replicate (nat n) (CHR ''x'')))" "syncing_party afl = None"
    and "san_case_status afl = SAN_CRASH_ONLY OR NON_COV_INCREASE_BUG" "length (describe_source afl) + 8 < k" "k \<le> 256"
  shows "describe_op w afl 0 k = Inl Description_too_long"
proof -
  have "min k 256 = k" using assms(5) by simp
  moreover have "(SAN_CRASH_ONLY OR NON_COV_INCREASE_BUG) AND SAN_CRASH_ONLY \<noteq> (0::u32)"
    "(SAN_CRASH_ONLY OR NON_COV_INCREASE_BUG) AND NON_COV_INCREASE_BUG \<noteq> (0::u32)" by simp_all
  ultimately show ?thesis using assms(1-4)
    by (simp add: describe_op_def describe_custom_def Let_def)
qed
section \<open>Properties\<close>

text \<open>
  C36 An input whose run was normal is kept exactly when its classified trace shows something new against
  \<open>virgin_bits\<close>, however late the trace is classified. Then the queue has one entry more, of the length of
  the input, and a file of this name with the input; otherwise the queue is as it was.
\<close>

theorem save_keeps_new:
  fixes s :: "'a afl_save_scheme"
  assumes "cov_ok s" "drop (scanned (sv_w64 w) s) (trace_bits s) = replicate (unat (map_size s) - scanned (sv_w64 w) s) 0"
    and "covs_counted s" "san_binary_length s = 0" "mem \<noteq> []" "\<not> (crash_mode s = FSRV_RUN_TMOUT \<and> afl_ignore_timeouts s)"
    and "save_if_interesting w mem (crash_mode s) s = Some (Inr (keep, t))"
    and "new \<longleftrightarrow> novelty (take (scanned (sv_w64 w) s) (map count_class_lookup8 (trace_bits s)))
      (take (scanned (sv_w64 w) s) (virgin_bits s)) \<noteq> 0"
  shows "(keep \<longleftrightarrow> new) \<and> (\<not> new \<longrightarrow> queue_buf t = queue_buf s)
    \<and> (new \<longrightarrow> length (queue_buf t) = Suc (length (queue_buf s))
         \<and> q_len (entry t (length (queue_buf s))) = of_nat (length mem)
         \<and> saved_files t = saved_files s @ (let fn = fname (entry t (length (queue_buf s))) in if sv_create w fn then [(fn, mem)] else []))"
  by (rule save_decides [OF assms])

definition save_state :: "bytes \<Rightarrow> afl_save" where
  "save_state trace = afl_cal.extend (cal_state\<lparr>trace_bits := trace, max_cache_size := 0\<rparr>)
     \<lparr>out_dir = ''out'', file_extension = None, afl_sha1_filenames = True, afl_ignore_timeouts = False, afl_keep_timeouts = False,
      current_entry = 0, splicing_with = -1, syncing_party = None, foreign_file = None, syncing_case = 0, stage_short = ''havoc'',
      stage_cur_byte = -1, stage_cur_val = 4, stage_val_type = STAGE_VAL_NONE, run_time = 5, total_execs = 100, last_kill_signal = 6,
      hang_tmout = 1000, queue_cycle = 1, fuzz_mode = 0, switch_fuzz_mode = False, san_binary_length = 0, san_abs = SIMPLIFY_TRACE,
      san_case_status = 0, simplified_n_fuzz = [], n_fuzz_dup = [], total_crashes = 0, saved_crashes = 0, total_tmouts = 0,
      saved_tmouts = 0, saved_hangs = 0, ss_new_bits_any = 0, ss_new_bits_kept = 0, afl_no_crash_readme = False, crash_readme = False,
      saved_files = []\<rparr>"

definition plain_saves :: save_world where
  "plain_saves = \<lparr>sv_w64 = True, sv_hash32 = (\<lambda>_. 0), sv_hash64 = (\<lambda>_. 7), sv_sha1 = (\<lambda>_. ''digest''), sv_san = (\<lambda>_ _. FSRV_RUN_OK),
     sv_hang = (\<lambda>_. (FSRV_RUN_OK, [], False)),
     sv_cal = (\<lambda>_. \<lparr>cw_run = (\<lambda>_ _. (FSRV_RUN_CRASH, [], False)), cw_hash = (\<lambda>_. 7), cw_elapsed = 1, cw_w64 = True\<rparr>),
     sv_write = \<lparr>wt_mutators = False, wt_post = [], wt_min = 1, wt_max = 1000, wt_keep_original = False, wt_behind = (\<lambda>n. replicate n 0)\<rparr>,
     sv_describe = None, sv_create = (\<lambda>_. True), sv_time = 9\<rparr>"

lemma plain_saves_sel [simp]:
  "sv_w64 plain_saves = True" "sv_describe plain_saves = None" "sv_sha1 plain_saves x = ''digest''"
  "cw_run (sv_cal plain_saves k) a b = (FSRV_RUN_CRASH, [], False)" "sv_create plain_saves fn" "sv_hang plain_saves k = (FSRV_RUN_OK, [], False)"
  by (simp_all add: plain_saves_def)

lemma save_state_sel [simp]:
  "queue_buf (save_state tr) = [small_entry 0 30, small_entry 1 40, small_entry 2 20]" "map_size (save_state tr) = 64"
  "real_map_size (save_state tr) = 60" "trace_bits (save_state tr) = tr" "virgin_bits (save_state tr) = replicate 64 0xff"
  "virgin_tmout (save_state tr) = replicate 64 0xff" "virgin_crash (save_state tr) = replicate 64 0xff"
  "crash_mode (save_state tr) = FSRV_RUN_OK" "queued_with_cov (save_state tr) = 0" "max_cache_size (save_state tr) = 0"
  "san_binary_length (save_state tr) = 0" "afl_ignore_timeouts (save_state tr) = False" "afl_keep_timeouts (save_state tr) = False"
  "afl_sha1_filenames (save_state tr) = True" "saved_crashes (save_state tr) = 0" "saved_hangs (save_state tr) = 0"
  "exec_tmout (save_state tr) = 20" "hang_tmout (save_state tr) = 1000" "ss_new_bits_kept (save_state tr) = 0"
  "schedule (save_state tr) = EXPLORE" "syncing_party (save_state tr) = None" "stage_short (save_state tr) = ''havoc''"
  "splicing_with (save_state tr) = -1" "stage_cur_byte (save_state tr) = -1" "stage_cur_val (save_state tr) = 4"
  by (simp_all add: save_state_def cal_state_def small_cache_def small_queue_def blank_cov_def afl_cal.defs afl_cache.defs afl_queue.defs cov_st.defs)

lemma save_state_ok: "length tr = 64 \<Longrightarrow> cov_ok (save_state tr)" "covs_counted (save_state tr)" "kept_ok (save_state tr)"
proof -
  assume "length tr = 64"
  moreover have "length (virgin_of vm (save_state tr)) = 64" for vm by (cases vm) simp_all
  ultimately show "cov_ok (save_state tr)" by (simp add: cov_ok_def)
qed (simp_all add: covs_counted_def small_entry_def kept_ok_def)

lemma calibrate_first_crash:
  assumes "\<And>t. cw_run w t 0 = (FSRV_RUN_CRASH, tr, st)" "crash_mode s \<noteq> FSRV_RUN_CRASH" "covs_counted s"
  shows "fst (fst (calibrate_case w q hc fq s)) = FSRV_RUN_CRASH"
proof -
  obtain l t where b: "cal_begin w q s = (l, t)" by force
  have "crash_mode t = crash_mode s" using cal_begin_quiet(5) [OF b assms(3)] by (simp add: cal_rest_def)
  moreover have "0 < cal_max l"
  proof -
    have "cal_max l = (if afl_cal_fast (if cmplog_mode s then set_entry q (\<lambda>e. e\<lparr>exec_cksum := 0\<rparr>) s else s) then CAL_CYCLES_FAST else CAL_CYCLES)"
      using b by (auto simp: cal_begin_def Let_def split: if_splits dest: look_for_new_maxD)
    then show ?thesis by (auto split: if_splits)
  qed
  ultimately show ?thesis using assms(1,2) b
    by (simp add: calibrate_case_def cal_loop.simps [of w _ q 0] cal_step_def Let_def)
qed

lemma plain_save_joins:
  assumes "covs_counted s" "afl_sha1_filenames s" "max_cache_size s = 0" "crash_mode s = FSRV_RUN_OK"
  shows "\<exists>x. save_to_queue plain_saves k (l, s) = Inr x"
proof -
  obtain l2 b where p: "quiet s b" "same_loc l l2"
    "save_to_queue plain_saves k (l, s) =
      (case case_name plain_saves ''/queue/'' (unat (queued_items b)) [] 10 (sl_new_bits l2 + (if sl_timeout l2 then 0x80 else 0)) (sl_mem l2) b of
         Inl e \<Rightarrow> Inl e
       | Inr fn \<Rightarrow>
           (case calibrate_case (sv_cal plain_saves k) (queue_top (record_new_entry l2 (enqueue plain_saves fn l2 b)))
                   (ucast (queue_cycle (record_new_entry l2 (enqueue plain_saves fn l2 b)) - 1)) False (record_new_entry l2 (enqueue plain_saves fn l2 b)) of
              ((res, _, _), u) \<Rightarrow>
                if res = FSRV_RUN_ERROR then Inl Target_failed
                else if max_cache_size u \<noteq> 0
                then (case queue_testcase_store_mem (queue_top u) (sl_mem l2) u of
                        Inl e \<Rightarrow> Inl (Cache_failed e) | Inr afl \<Rightarrow> Inr (l2\<lparr>sl_keeping := True\<rparr>, afl))
                else Inr (l2\<lparr>sl_keeping := True\<rparr>, u)))"
    by (rule save_to_queue_parts)
  obtain fn where fn: "case_name plain_saves ''/queue/'' (unat (queued_items b)) [] 10 (sl_new_bits l2 + (if sl_timeout l2 then 0x80 else 0)) (sl_mem l2) b = Inr fn"
    using assms(2) p(1) by (simp add: case_name_def quiet_defs)
  define e where "e = enqueue plain_saves fn l2 b"
  define r where "r = record_new_entry l2 e"
  have cb: "covs_counted b" using assms(1) p(1) by (simp add: quiet_defs covs_counted_def)
  note qe = queued_entry [OF cb e_def r_def]
  have cfg: "max_cache_size r = 0" "crash_mode r = FSRV_RUN_OK"
    using assms(3,4) p(1) enqueue_frame(3) [OF e_def] record_new_entry_frame(2) [OF r_def] by (simp_all add: quiet_defs)
  obtain res i1 i2 u where cal: "calibrate_case (sv_cal plain_saves k) (queue_top r) (ucast (queue_cycle r - 1)) False r = ((res, i1, i2), u)"
    by (metis prod.collapse)
  have "res = FSRV_RUN_CRASH"
    using calibrate_first_crash [of "sv_cal plain_saves k" "[]" False r "queue_top r" "ucast (queue_cycle r - 1)" False] cal cfg(2) qe(2) by simp
  moreover have "max_cache_size u = 0" using calibrate_rest(1) [OF qe(2) cal] cfg(1) by (simp add: cal_rest_def)
  ultimately show ?thesis unfolding p(3) fn sum.case e_def [symmetric] r_def [symmetric] by (simp add: cal)
qed

lemma count_lookup_1: "count_class_lookup8 1 = 1"
  by code_simp

text \<open>An input with a new trace is saved.\<close>

lemma plain_save_returns: "\<exists>keep t. save_if_interesting plain_saves [1] FSRV_RUN_OK (save_state (replicate 60 1 @ replicate 4 0)) = Some (Inr (keep, t))"
proof -
  let ?s = "save_state (replicate 60 1 @ replicate 4 0)"
  obtain l u where st: "save_start plain_saves [1] FSRV_RUN_OK ?s = (l, u)" by force
  note q = save_start_quiet [OF st]
  obtain m v where n: "calculate_new_bits_if_necessary plain_saves (l, u) = (m, v)" by force
  have su: "san_binary_length u = 0"
    using st by (auto simp: save_start_def Let_def fast_schedule_def)
  have a: "ask_sanitizers plain_saves (l, u) = (FSRV_RUN_OK, l, u)" using su by (simp add: ask_sanitizers_def feed_san_def)
  have v: "quiet ?s v" using quiet_trans [OF q(1)] new_bits_quiet [OF n] by blast
  then have "covs_counted v" using save_state_ok(2) [of "replicate 60 1 @ replicate 4 0"] by (simp add: quiet_defs covs_counted_def)
  then obtain y where y: "save_to_queue plain_saves 0 (m\<lparr>sl_fault := FSRV_RUN_OK\<rparr>, v) = Inr y"
    using plain_save_joins [of v 0 "m\<lparr>sl_fault := FSRV_RUN_OK\<rparr>"] v by (auto simp: quiet_defs)
  obtain x z where xz: "y = (x, z)" by force
  have "sl_fault x = FSRV_RUN_OK" using save_to_queue_joins(3) [OF \<open>covs_counted v\<close> y [unfolded xz]] by simp
  then have "save_passes plain_saves 0 (x, z) = Some (Inr (sl_keeping x, z))"
    by (subst save_passes.simps) (simp add: may_save_fault_def)
  then show ?thesis using st a n y xz
    by (auto simp: save_if_interesting_def save_normal_def)
qed

theorem save_keeps_new_witness:
  "\<exists>t. save_if_interesting plain_saves [1] FSRV_RUN_OK (save_state (replicate 60 1 @ replicate 4 0)) = Some (Inr (True, t))
     \<and> length (queue_buf t) = 4 \<and> q_len (entry t 3) = 1"
proof -
  let ?tr = "replicate 60 1 @ replicate 4 (0::u8)"
  obtain keep t where r: "save_if_interesting plain_saves [1] FSRV_RUN_OK (save_state ?tr) = Some (Inr (keep, t))"
    using plain_save_returns by blast
  have sc: "scanned True (save_state ?tr) = 64" by (simp add: scanned_def)
  have "novelty (take 64 (map count_class_lookup8 ?tr)) (take 64 (replicate 64 0xff)) = 2"
    using count_lookup_1 by (simp add: novelty_def numeral_eq_Suc)
  then have "(keep \<longleftrightarrow> True) \<and> (\<not> True \<longrightarrow> queue_buf t = queue_buf (save_state ?tr))
    \<and> (True \<longrightarrow> length (queue_buf t) = Suc (length (queue_buf (save_state ?tr)))
         \<and> q_len (entry t (length (queue_buf (save_state ?tr)))) = of_nat (length [1::u8])
         \<and> saved_files t = saved_files (save_state ?tr) @ (let fn = fname (entry t (length (queue_buf (save_state ?tr))))
             in if sv_create plain_saves fn then [(fn, [1])] else []))"
    using r sc save_state_ok by (intro save_keeps_new) simp_all
  then show ?thesis using r by (auto simp: numeral_eq_Suc)
qed

text \<open>
  C37 Whatever the target, the sanitizers and the file system do: when \<open>save_if_interesting\<close> returns, it
  answers 1 exactly when the queue has grown, no entry was removed, \<open>queued_with_cov\<close> is the number of
  entries marked with new coverage, and at most 25600 crashes and 512 hangs are kept.
\<close>

theorem save_invariant:
  assumes "covs_counted s" "kept_ok s" "save_if_interesting w mem fault s = Some (Inr (keep, t))"
  shows "covs_counted t \<and> kept_ok t \<and> length (queue_buf s) \<le> length (queue_buf t)
    \<and> (keep \<longleftrightarrow> length (queue_buf s) < length (queue_buf t))"
  using save_if_interesting_saved [OF assms(3,1)] assms(2) by (simp add: saved_def)

theorem save_invariant_witness:
  "\<exists>keep t. save_if_interesting plain_saves [1] FSRV_RUN_OK (save_state (replicate 60 1 @ replicate 4 0)) = Some (Inr (keep, t))
     \<and> covs_counted t \<and> kept_ok t"
proof -
  obtain keep t where r: "save_if_interesting plain_saves [1] FSRV_RUN_OK (save_state (replicate 60 1 @ replicate 4 0)) = Some (Inr (keep, t))"
    using plain_save_returns by blast
  from save_invariant [OF save_state_ok(2,3) r] show ?thesis using r by blast
qed

text \<open>
  C38 Without \<open>AFL_KEEP_TIMEOUTS\<close> the handler returns for every input, and the counter
  \<open>ss_new_bits_kept\<close> never moves, however many inputs with new bits are kept: it is tested before
  \<open>keeping\<close> is set.
\<close>

theorem save_returns:
  assumes "\<not> afl_keep_timeouts s" "covs_counted s"
  shows "\<exists>r. save_if_interesting w mem fault s = Some r \<and> (\<forall>keep t. r = Inr (keep, t) \<longrightarrow> ss_new_bits_kept t = ss_new_bits_kept s)"
  by (rule save_if_interesting_returns [OF assms])

theorem save_returns_witness:
  "\<exists>keep t. save_if_interesting plain_saves [1] FSRV_RUN_OK (save_state (replicate 60 1 @ replicate 4 0)) = Some (Inr (keep, t))
     \<and> ss_new_bits_kept t = 0"
proof -
  let ?s = "save_state (replicate 60 1 @ replicate 4 0)"
  obtain keep t where r: "save_if_interesting plain_saves [1] FSRV_RUN_OK ?s = Some (Inr (keep, t))"
    using plain_save_returns by blast
  moreover have "\<exists>r. save_if_interesting plain_saves [1] FSRV_RUN_OK ?s = Some r
      \<and> (\<forall>keep t. r = Inr (keep, t) \<longrightarrow> ss_new_bits_kept t = ss_new_bits_kept ?s)"
    by (rule save_returns) (simp_all add: save_state_ok)
  ultimately show ?thesis by auto
qed

text \<open>
  C39 With \<open>AFL_KEEP_TIMEOUTS\<close> and a target without instrumentation, an input that times out, but not under
  the generous limit, is queued again and again: \<open>save_if_interesting\<close> never returns, and only a fatal
  error can end it.
\<close>

theorem save_never_returns:
  assumes "mem \<noteq> []" "\<not> afl_ignore_timeouts s" "crash_mode s \<noteq> FSRV_RUN_TMOUT" "covs_counted s"
    and "non_instrumented_mode s" "afl_keep_timeouts s" "saved_hangs s < KEEP_UNIQUE_HANG" "exec_tmout s < hang_tmout s"
    and "\<And>j. fst (sv_hang w j) \<noteq> FSRV_RUN_TMOUT \<and> fst (sv_hang w j) \<noteq> FSRV_RUN_CRASH"
  shows "save_if_interesting w mem FSRV_RUN_TMOUT s \<noteq> Some (Inr r)"
proof
  assume "save_if_interesting w mem FSRV_RUN_TMOUT s = Some (Inr r)"
  moreover have "requeues s" using assms(5-8) by (simp add: requeues_def)
  ultimately show False using save_if_interesting_never assms(1-4,9) by blast
qed

theorem save_never_returns_witness:
  "\<not> (\<exists>r. save_if_interesting plain_saves [1] FSRV_RUN_TMOUT
     ((save_state (replicate 64 0))\<lparr>non_instrumented_mode := True, afl_keep_timeouts := True\<rparr>) = Some (Inr r))"
proof -
  have "save_if_interesting plain_saves [1] FSRV_RUN_TMOUT
     ((save_state (replicate 64 0))\<lparr>non_instrumented_mode := True, afl_keep_timeouts := True\<rparr>) \<noteq> Some (Inr r)" for r
    by (rule save_never_returns) (use save_state_ok(2) [of "replicate 64 0"] in \<open>simp_all add: covs_counted_def\<close>)
  then show ?thesis by blast
qed

text \<open>
  C40 The description of an input found by the fuzzer's own stages always fits: for stage names of at most
  24 characters it is shorter than 170 characters, so that neither the buffer of 256 bytes is overrun nor
  the fuzzer ends because a file name is too long.
\<close>

theorem describe_fits:
  assumes "sv_describe w = None" "syncing_party afl = None" "length (stage_short afl) \<le> 24" "170 \<le> k"
    and "s32_ok (splicing_with afl)" "s32_ok (stage_cur_byte afl)" "s32_ok (stage_cur_val afl)"
  shows "\<exists>d. describe_op w afl bits k = Inr d \<and> length d < 170"
proof -
  define d where "d = describe_source afl @ describe_stage afl"
  define r where "r = d @ (if bits AND 0xf0 \<noteq> 0 then '',+tout'' else [])
    @ (if (if bits AND 0xf0 \<noteq> 0 then bits - 0x80 else bits) = 2 then '',+cov'' else [])
    @ (if san_case_status afl AND SAN_CRASH_ONLY \<noteq> 0 then '',+san'' else [])
    @ (if san_case_status afl AND NON_COV_INCREASE_BUG \<noteq> 0 then '',+noncov'' else [])"
  have "length d \<le> 141"
    using length_source [OF assms(5)] length_stage [OF assms(6,7)] assms(3) by (simp add: d_def)
  then have "length r < 170" by (simp add: r_def)
  moreover have "describe_op w afl bits k = (if k \<le> length r then Inl Description_too_long else Inr r)"
    unfolding describe_op_def Let_def r_def d_def assms(1,2) by simp
  ultimately show ?thesis using assms(4) by simp
qed

theorem describe_fits_witness:
  "\<exists>d. describe_op plain_saves (save_state []) 2 245 = Inr d \<and> length d < 170"
  by (rule describe_fits) (simp_all add: s32_ok_def)

end
