(* ===== verification/Spec2Isabelle.thy ===== *)
theory Spec2Isabelle
  imports Nv_Exec Queue_Steps Queue_Text Sched Testcase_Cache Det_Theorems Havoc_Theorems Trim Save_Theorems
begin

text \<open>
  A model of \<open>afl-fuzz\<close>, the coverage-guided fuzzer of this repository, with the security-state
  feedback that the repository adds to it.

  \<^bold>\<open>The program.\<close> The fuzzer keeps a queue of testcases. It picks one, mutates it, runs the target
  on the result, reads back a map of hit counts (one byte per edge of the target), and appends the
  input to the queue when the map shows something new. On top of that a bandit chooses the mutation
  arm of the custom mutator; every run of the target leaves a status document, which the fuzzer
  folds into a set of observed security states, and the growth of that set is the reward of the arm.
  What the bandit did is written to two append-only files.

  \<^bold>\<open>Theories and sources.\<close>
  \<^item> \<open>Prelude\<close>, \<open>Clib\<close>, \<open>Json\<close>: the C integer types as words, floating point as an abstract
    rounding environment \<open>fpu\<close> (with its laws as named hypotheses and exact arithmetic as an
    instance), C strings as lists of characters without the terminator, \<open>getenv\<close>, \<open>strtol\<close>, \<open>strtod\<close>,
    \<open>printf\<close> of integers, and the documents that the vendored cJSON delivers.
  \<^item> \<open>Nv_Covset\<close>: \<open>src/src/afl-fuzz-nv-covset.c\<close> and \<open>nv_covset_*\<close> of \<open>afl-fuzz-run.c\<close>: canonical
    keys, replay identity, and the open-addressing table of observed states.
  \<^item> \<open>Nv_Mab\<close>, \<open>Nv_Audit\<close>: \<open>src/src/afl-fuzz-nv-mab.c\<close>: the bandit, its journal and the execution
    ledger, each append with every way the write calls can answer.
  \<^item> \<open>Nv_Task\<close>: \<open>nv_load_task_json\<close>, \<open>nv_load_target_cfg\<close>, \<open>nv_is_allowed_pair\<close> of \<open>afl-fuzz.c\<close>.
  \<^item> \<open>Nv_Validity\<close>, \<open>Nv_Observe\<close>, \<open>Nv_Exec\<close>: \<open>src/src/afl-fuzz-run.c\<close>: the validity filter with its
    scorer socket, the observation of a run and its reward, \<open>fuzz_run_target\<close>, \<open>common_fuzz_stuff\<close>, and
    the custom-mutator step of \<open>afl-fuzz-one.c\<close>.
  \<^item> \<open>Coverage\<close>: \<open>coverage-64.h\<close>, \<open>coverage-32.h\<close> and the map routines of \<open>afl-fuzz-bitmap.c\<close>.
  \<^item> \<open>Rand\<close>: the generator of \<open>afl-performance.c\<close> and \<open>rand_below\<close> of \<open>afl-fuzz.h\<close>.
  \<^item> \<open>Queue\<close>, \<open>Queue_Steps\<close>, \<open>Queue_Text\<close>, \<open>Sched\<close>, \<open>Testcase_Cache\<close>: \<open>src/src/afl-fuzz-queue.c\<close>:
    entries, rating per map byte, culling, text detection, the choice of the next seed with its
    audit file, the alias table, the energy of a seed under every power schedule, and the cache of
    testcases in memory.

  \<^bold>\<open>State and interaction.\<close> The fields of \<open>afl_state_t\<close> are split over extensible records, one per
  component, and a component that uses another extends its record: \<open>nv_seen\<close> over the task and
  validity state, \<open>nv_run\<close> over \<open>nv_seen\<close>, \<open>afl_cache\<close> and \<open>afl_sched\<close> over \<open>afl_queue\<close>, \<open>cov_st\<close> for the
  maps. An operation takes the state last and returns it last. Queue entries are identified by their
  position in \<open>queue_buf\<close>, which is how the code names them too (\<open>q->id\<close>); pointers between entries and
  slots are such positions, so sharing is visible. Fatal exits (\<open>PFATAL\<close>, \<open>FATAL\<close>) are values of the
  result. What lies outside the program is an argument: the answers of system calls, the target's
  result and trace, the cJSON parser, the scorer, the entropy source, the contents of files.

  \<^bold>\<open>What the lemmas show.\<close>
  \<^item> Interfaces are locales with the laws a client needs, interpreted on the model: the set of
    observed states, an append-only audit log, the flavours of the map routines, the source of
    testcases.
  \<^item> Data: the table refines a set with a capacity; the cache refines reading files; the word-at-a-time
    map routines equal their bytewise specifications; Base64 can be read back; the alias table draws
    with the odds of the weights; accepted bytes are exactly UTF-8 text.
  \<^item> Invariants: reference counts and slots of the queue over any sequence of operations, the books of
    the cache, the files of the audit logs, the counters of the observer.
  \<^item> Control: an update reaches the bandit at most once per run, only for the arm in use, and with the
    reward of that run's document; a dead line of the ledger stops all later observations.
  \<^item> Counterexamples to what the comments promise are theorems as well: bytes forgotten by culling, a
    cache of one entry, the recorded size after trimming.

  \<^bold>\<open>Bounds and fuel.\<close> The only fuel is the number of attempts the code itself limits (the observation
  loop tries 1000 times; a probe of the table takes at most its capacity). Loops the code does not
  bound (the rejection loop of \<open>rand_below\<close>, the victim search of the cache) are partial functions into
  \<open>option\<close>; returning is stated as a result of the form \<open>Some\<close>.

  \<^bold>\<open>Not modelled.\<close> The fork server, shared memory and signals (system calls); start-up, directories
  and statistics (I/O); Python and plug-in loading; the companion programs; the instrumentation,
  emulators and vendored libraries, which are other executables or third-party code.
\<close>

end
